(* ===== verification/Prelude.thy ===== *)
theory Prelude
  imports Main "HOL-Library.Word" "HOL-Library.Multiset"
begin

text \<open>
  The vocabulary shared by the component theories.

  \<^item> C strings: a \<open>string\<close> that stands for a \<open>char*\<close> is read up to its first NUL byte
    (\<open>c_str\<close>); \<open>strncmp_eq\<close> is the outcome \<open>strncmp(a, b, n) == 0\<close>.
  \<^item> The run monad: a C function that reads and writes state, may hit a fault (a null
    dereference, an out-of-bounds read, a failed assertion) and is modelled with fuel is a
    function from a state to an \<open>outcome\<close>. \<open>Exhausted\<close> only says that the fuel was too small.
  \<^item> A weakest-precondition calculus for the run monad. Its equations are collected in
    \<open>wp_simps\<close>, so that \<open>simp add: wp_simps\<close> turns a claim about a composed operation into
    claims about the operations it calls, and \<open>wp_mono\<close> closes them with the callee's lemma.
\<close>

section \<open>C strings\<close>

definition NUL :: char where
  "NUL = CHR 0x00"

definition newline :: char where
  "newline = CHR 0x0A"

text \<open>What a C function that takes a \<open>const char*\<close> sees of an array of bytes.\<close>

definition c_str :: "string \<Rightarrow> string" where
  "c_str bytes = takeWhile (\<lambda>c. c \<noteq> NUL) bytes"

definition no_nul :: "string \<Rightarrow> bool" where
  "no_nul s \<longleftrightarrow> NUL \<notin> set s"

text \<open>
  \<open>strncmp(a, b, n) == 0\<close>: bytes are compared until \<open>n\<close> of them agree or both strings end.
  A list that is shorter than \<open>n\<close> stands for a NUL-terminated array.
\<close>

fun strncmp_eq :: "string \<Rightarrow> string \<Rightarrow> nat \<Rightarrow> bool" where
  "strncmp_eq a b 0 = True"
| "strncmp_eq [] b (Suc n) = (case b of [] \<Rightarrow> True | y # _ \<Rightarrow> y = NUL)"
| "strncmp_eq (x # xs) [] (Suc n) = (x = NUL)"
| "strncmp_eq (x # xs) (y # ys) (Suc n) = (x = y \<and> (x = NUL \<or> strncmp_eq xs ys n))"

lemma no_nul_c_str [simp]: "no_nul (c_str s)"
  by (auto simp: no_nul_def c_str_def dest: set_takeWhileD)

lemma c_str_id [simp]: "no_nul s \<Longrightarrow> c_str s = s"
  by (auto simp: no_nul_def c_str_def takeWhile_eq_all_conv)

lemma no_nul_Nil [simp]: "no_nul []"
  by (simp add: no_nul_def)

lemma no_nul_Cons [simp]: "no_nul (c # cs) \<longleftrightarrow> c \<noteq> NUL \<and> no_nul cs"
  by (auto simp: no_nul_def)

lemma no_nul_append [simp]: "no_nul (xs @ ys) \<longleftrightarrow> no_nul xs \<and> no_nul ys"
  by (auto simp: no_nul_def)

lemma length_c_str: "length (c_str s) \<le> length s"
  by (simp add: c_str_def length_takeWhile_le)

lemma strncmp_eq_iff:
  assumes "no_nul a" and "length b = length a"
  shows "strncmp_eq a b (length a) \<longleftrightarrow> a = b"
proof -
  have "n = length a \<Longrightarrow> no_nul a \<Longrightarrow> length b = length a \<Longrightarrow> strncmp_eq a b n = (a = b)" for n
    by (induction a b n rule: strncmp_eq.induct) auto
  with assms show ?thesis by simp
qed

section \<open>The run monad\<close>

datatype fault =
    Null_Dereference
  | Out_Of_Bounds
  | Assert_Unreachable
  | Assert_Stringify
  | Assert_Errno
  | Abort_Called
  | Uninitialised_Read

datatype ('s, 'a) outcome = Done 's 'a | Fault fault | Exhausted

type_synonym ('s, 'a) run = "'s \<Rightarrow> ('s, 'a) outcome"

definition ret :: "'a \<Rightarrow> ('s, 'a) run" where
  "ret x = (\<lambda>s. Done s x)"

definition andthen :: "('s, 'a) run \<Rightarrow> ('a \<Rightarrow> ('s, 'b) run) \<Rightarrow> ('s, 'b) run" where
  "andthen m f = (\<lambda>s. case m s of Done s' x \<Rightarrow> f x s' | Fault e \<Rightarrow> Fault e | Exhausted \<Rightarrow> Exhausted)"

definition raise_fault :: "fault \<Rightarrow> ('s, 'a) run" where
  "raise_fault e = (\<lambda>s. Fault e)"

definition exhaust :: "('s, 'a) run" where
  "exhaust = (\<lambda>s. Exhausted)"

definition reads :: "('s \<Rightarrow> 'a) \<Rightarrow> ('s, 'a) run" where
  "reads f = (\<lambda>s. Done s (f s))"

definition modifies :: "('s \<Rightarrow> 's) \<Rightarrow> ('s, unit) run" where
  "modifies f = (\<lambda>s. Done (f s) ())"

text \<open>Running an operation of a component on its part of a larger state.\<close>

definition embed :: "('l \<Rightarrow> 's) \<Rightarrow> ('s \<Rightarrow> 'l \<Rightarrow> 'l) \<Rightarrow> ('s, 'a) run \<Rightarrow> ('l, 'a) run" where
  "embed get put m = (\<lambda>l.
     case m (get l) of Done s x \<Rightarrow> Done (put s l) x | Fault e \<Rightarrow> Fault e | Exhausted \<Rightarrow> Exhausted)"

text \<open>The idiom \<open>x = m(); if (!x) return NULL;\<close> of the parser.\<close>

definition or_null :: "('s, 'a option) run \<Rightarrow> ('a \<Rightarrow> ('s, 'b option) run) \<Rightarrow> ('s, 'b option) run" where
  "or_null m f = andthen m (\<lambda>r. case r of None \<Rightarrow> ret None | Some x \<Rightarrow> f x)"

lemmas run_defs =
  ret_def andthen_def raise_fault_def exhaust_def reads_def modifies_def or_null_def

lemma andthen_run: "m s = Done s' x \<Longrightarrow> andthen m f s = f x s'"
  by (simp add: andthen_def)

named_theorems run_steps \<open>the first step of a composed operation, executed\<close>

lemma andthen_reads [run_steps]: "andthen (reads g) f s = f (g s) s"
  by (simp add: andthen_def reads_def)

lemma andthen_modifies [run_steps]: "andthen (modifies g) f s = f () (g s)"
  by (simp add: andthen_def modifies_def)

lemma andthen_ret_run [run_steps]: "andthen (ret x) f s = f x s"
  by (simp add: andthen_def ret_def)

lemma andthen_assoc: "andthen (andthen m f) g = andthen m (\<lambda>x. andthen (f x) g)"
  by (rule ext) (simp add: andthen_def split: outcome.split)

section \<open>Weakest preconditions\<close>

text \<open>
  \<open>wp E F m Q s\<close>: started in \<open>s\<close>, \<open>m\<close> either finishes in a state that satisfies \<open>Q\<close>, or
  stops with a fault allowed by \<open>F\<close>, or, where \<open>E\<close> permits it, runs out of fuel.
\<close>

definition wp :: "bool \<Rightarrow> (fault \<Rightarrow> bool) \<Rightarrow> ('s, 'a) run \<Rightarrow> ('a \<Rightarrow> 's \<Rightarrow> bool) \<Rightarrow> 's \<Rightarrow> bool" where
  "wp E F m Q s = (case m s of Done s' x \<Rightarrow> Q x s' | Fault e \<Rightarrow> F e | Exhausted \<Rightarrow> E)"

named_theorems wp_simps \<open>weakest preconditions of the primitive and composed operations\<close>

lemma wp_ret [wp_simps]: "wp E F (ret x) Q = Q x"
  by (rule ext) (simp add: wp_def ret_def)

lemma wp_andthen [wp_simps]: "wp E F (andthen m f) Q = wp E F m (\<lambda>x. wp E F (f x) Q)"
  by (rule ext) (simp add: wp_def andthen_def split: outcome.split)

lemma wp_raise_fault [wp_simps]: "wp E F (raise_fault e) Q = (\<lambda>s. F e)"
  by (rule ext) (simp add: wp_def raise_fault_def)

lemma wp_exhaust [wp_simps]: "wp E F exhaust Q = (\<lambda>s. E)"
  by (rule ext) (simp add: wp_def exhaust_def)

lemma wp_reads [wp_simps]: "wp E F (reads f) Q = (\<lambda>s. Q (f s) s)"
  by (rule ext) (simp add: wp_def reads_def)

lemma wp_modifies [wp_simps]: "wp E F (modifies f) Q = (\<lambda>s. Q () (f s))"
  by (rule ext) (simp add: wp_def modifies_def)

lemma wp_if [wp_simps]:
  "wp E F (if b then m else m') Q = (\<lambda>s. if b then wp E F m Q s else wp E F m' Q s)"
  by simp

lemma wp_case_option [wp_simps]:
  "wp E F (case r of None \<Rightarrow> m | Some x \<Rightarrow> f x) Q =
     (\<lambda>s. case r of None \<Rightarrow> wp E F m Q s | Some x \<Rightarrow> wp E F (f x) Q s)"
  by (cases r) simp_all

lemma wp_or_null [wp_simps]:
  "wp E F (or_null m f) Q =
     wp E F m (\<lambda>r s'. case r of None \<Rightarrow> Q None s' | Some x \<Rightarrow> wp E F (f x) Q s')"
  by (simp add: or_null_def wp_simps cong: option.case_cong)

lemma wp_embed [wp_simps]: "wp E F (embed get put m) Q = (\<lambda>l. wp E F m (\<lambda>x s. Q x (put s l)) (get l))"
  by (rule ext) (simp add: wp_def embed_def split: outcome.split)

lemma wp_mono:
  assumes "wp E F m R s" and "\<And>x s'. R x s' \<Longrightarrow> Q x s'"
  shows "wp E F m Q s"
  using assms by (auto simp: wp_def split: outcome.splits)

lemma wp_weaken:
  assumes "wp E' F' m R s" and "\<And>x s'. R x s' \<Longrightarrow> Q x s'"
    and "\<And>e. F' e \<Longrightarrow> F e" and "E' \<Longrightarrow> E"
  shows "wp E F m Q s"
  using assms by (auto simp: wp_def split: outcome.splits)

lemma wp_conj:
  "wp E F m Q s \<Longrightarrow> wp E F m R s \<Longrightarrow> wp E F m (\<lambda>x s'. Q x s' \<and> R x s') s"
  by (auto simp: wp_def split: outcome.splits)

lemma wp_eq: "m s = m' s' \<Longrightarrow> wp E F m Q s = wp E F m' Q s'"
  by (simp add: wp_def)

lemma wp_Done: "m s = Done s' x \<Longrightarrow> wp E F m Q s = Q x s'"
  by (simp add: wp_def)

section \<open>Fuel\<close>

text \<open>
  A computation with more fuel refines one with less: wherever the smaller one has a result,
  the larger one has the same.
\<close>

definition refines_run :: "('s, 'a) run \<Rightarrow> ('s, 'a) run \<Rightarrow> bool" where
  "refines_run m m' \<longleftrightarrow> (\<forall>s. m s = Exhausted \<or> m s = m' s)"

named_theorems refines_intros \<open>closure of refinement under the combinators of the run monad\<close>

lemma refines_refl [refines_intros]: "refines_run m m"
  by (simp add: refines_run_def)

lemma refines_exhaust [refines_intros]: "refines_run exhaust m"
  by (simp add: refines_run_def exhaust_def)

lemma refines_andthen [refines_intros]:
  assumes "refines_run m m'" and "\<And>x. refines_run (f x) (f' x)"
  shows "refines_run (andthen m f) (andthen m' f')"
  unfolding refines_run_def
proof
  fix s
  from assms(1) have *: "m s = Exhausted \<or> m s = m' s" by (simp add: refines_run_def)
  show "andthen m f s = Exhausted \<or> andthen m f s = andthen m' f' s"
  proof (cases "m s")
    case (Done s' x)
    with * have "m' s = Done s' x" by auto
    with Done assms(2) [of x] show ?thesis
      by (simp add: andthen_def refines_run_def)
  next
    case (Fault e)
    with * have "m' s = Fault e" by auto
    with Fault show ?thesis by (simp add: andthen_def)
  qed (simp add: andthen_def)
qed

lemma refines_if [refines_intros]:
  "(b \<Longrightarrow> refines_run m m') \<Longrightarrow> (\<not> b \<Longrightarrow> refines_run n n') \<Longrightarrow>
     refines_run (if b then m else n) (if b then m' else n')"
  by simp

lemma refines_case_option [refines_intros]:
  "(r = None \<Longrightarrow> refines_run m m') \<Longrightarrow> (\<And>x. r = Some x \<Longrightarrow> refines_run (f x) (f' x)) \<Longrightarrow>
     refines_run (case r of None \<Rightarrow> m | Some x \<Rightarrow> f x) (case r of None \<Rightarrow> m' | Some x \<Rightarrow> f' x)"
  by (cases r) simp_all

lemma refines_or_null [refines_intros]:
  assumes "refines_run m m'" and "\<And>x. refines_run (f x) (f' x)"
  shows "refines_run (or_null m f) (or_null m' f')"
  unfolding or_null_def using assms by (auto intro: refines_intros)

lemma refines_run_Done: "refines_run m m' \<Longrightarrow> m s = Done s' x \<Longrightarrow> m' s = Done s' x"
  by (metis outcome.distinct(3) refines_run_def)

lemma refines_run_Fault: "refines_run m m' \<Longrightarrow> m s = Fault e \<Longrightarrow> m' s = Fault e"
  by (metis outcome.distinct(5) refines_run_def)

section \<open>Bits of numbers\<close>

lemma and_mask_nat: "and n (2 ^ k - 1) = n mod 2 ^ k" for n :: nat
  by (simp add: take_bit_eq_mod [symmetric] take_bit_eq_mask mask_eq_exp_minus_1)

section \<open>Lists\<close>

lemma mset_map_filter_update:
  assumes "i < length xs" and "xs ! i = None"
  shows "mset (List.map_filter id (xs[i := Some y])) = add_mset y (mset (List.map_filter id xs))"
  using assms
proof (induction xs arbitrary: i)
  case (Cons x xs)
  then show ?case
    by (cases i) (auto split: option.split)
qed simp

end
