(* ===== verification/Double.thy ===== *)
theory Double
  imports Prelude
begin

text \<open>
  The C type \<open>double\<close> and the library functions on it that the program uses: IEEE 754
  binary64 with rounding to nearest, ties to even. A finite double is a sign, a mantissa and
  an exponent with value \<open>\<plusminus>m * 2 ^ e\<close>; the canonical form (\<open>double_ok\<close>) has a mantissa of 53
  bits, or fewer at the smallest exponent. Arithmetic is done exactly on integers and rounded
  once, by \<open>round_ratio\<close>. A NaN keeps its sign bit, because \<open>printf\<close> shows it; an invalid
  operation yields the negative quiet NaN of x86-64, and an operand that is a NaN is passed on.

  \<open>strtod_decimal\<close> is \<open>strtod\<close> on the texts the scanner gives it (digits, optionally a point
  and digits), and \<open>format_lg\<close> is \<open>printf("%lg")\<close>.
\<close>

section \<open>Representation and rounding\<close>

datatype double =
    NaN bool
  | Infinity bool
  | Finite bool int int

definition MIN_EXP :: int where
  "MIN_EXP = -1074"

definition MAX_EXP :: int where
  "MAX_EXP = 971"

definition double_ok :: "double \<Rightarrow> bool" where
  "double_ok d \<longleftrightarrow>
     (case d of
        Finite s m e \<Rightarrow> 0 \<le> m \<and> m < 2 ^ 53 \<and> MIN_EXP \<le> e \<and> e \<le> MAX_EXP \<and> (2 ^ 52 \<le> m \<or> e = MIN_EXP)
      | _ \<Rightarrow> True)"

definition d_zero :: "bool \<Rightarrow> double" where
  "d_zero s = Finite s 0 MIN_EXP"

definition pow2 :: "int \<Rightarrow> int" where
  "pow2 e = 2 ^ nat e"

function bit_count :: "int \<Rightarrow> int" where
  "bit_count n = (if n \<le> 0 then 0 else 1 + bit_count (n div 2))"
  by pat_completeness auto
termination
  by (relation "measure nat") auto

declare bit_count.simps [simp del]

text \<open>The quotient \<open>n / d\<close> rounded to the nearest integer, ties to even.\<close>

definition div_round :: "int \<Rightarrow> int \<Rightarrow> int" where
  "div_round n d =
     (let q = n div d; r = n mod d
      in if d < 2 * r \<or> (d = 2 * r \<and> odd q) then q + 1 else q)"

text \<open>The exponent at which the quotient \<open>num / den\<close> of positive numbers has 53 bits.\<close>

definition quotient_exp :: "int \<Rightarrow> int \<Rightarrow> int" where
  "quotient_exp num den =
     (let e = bit_count num - bit_count den - 53
      in if den * pow2 (53 + e) \<le> num * pow2 (- (53 + e)) then e + 1 else e)"

definition round_at :: "bool \<Rightarrow> int \<Rightarrow> int \<Rightarrow> int \<Rightarrow> double" where
  "round_at s num den e =
     (let q = div_round (num * pow2 (- e)) (den * pow2 e);
          (m, e') = (if q = 2 ^ 53 then (2 ^ 52, e + 1) else (q, e))
      in if MAX_EXP < e' then Infinity s else Finite s m e')"

text \<open>The double nearest to \<open>\<plusminus>num / den\<close>, for \<open>0 \<le> num\<close> and \<open>0 < den\<close>.\<close>

definition round_ratio :: "bool \<Rightarrow> int \<Rightarrow> int \<Rightarrow> double" where
  "round_ratio s num den =
     (if num = 0 then d_zero s else round_at s num den (max MIN_EXP (quotient_exp num den)))"

text \<open>The double nearest to \<open>\<plusminus>m * 2 ^ e\<close>.\<close>

definition round_scaled :: "bool \<Rightarrow> int \<Rightarrow> int \<Rightarrow> double" where
  "round_scaled s m e = round_ratio s (m * pow2 e) (pow2 (- e))"

section \<open>Arithmetic and comparison\<close>

definition signed :: "bool \<Rightarrow> int \<Rightarrow> int" where
  "signed s m = (if s then - m else m)"

fun d_neg :: "double \<Rightarrow> double" where
  "d_neg (NaN s) = NaN (\<not> s)"
| "d_neg (Infinity s) = Infinity (\<not> s)"
| "d_neg (Finite s m e) = Finite (\<not> s) m e"

fun d_abs :: "double \<Rightarrow> double" where
  "d_abs (NaN s) = NaN False"
| "d_abs (Infinity s) = Infinity False"
| "d_abs (Finite s m e) = Finite False m e"

fun d_add :: "double \<Rightarrow> double \<Rightarrow> double" where
  "d_add (NaN s) y = NaN s"
| "d_add x (NaN t) = NaN t"
| "d_add (Infinity s) (Infinity t) = (if s = t then Infinity s else NaN True)"
| "d_add (Infinity s) y = Infinity s"
| "d_add x (Infinity t) = Infinity t"
| "d_add (Finite s m e) (Finite t n f) =
     (let g = min e f; a = signed s m * pow2 (e - g) + signed t n * pow2 (f - g)
      in if a = 0 then d_zero (s \<and> t) else round_scaled (a < 0) \<bar>a\<bar> g)"

fun d_sub :: "double \<Rightarrow> double \<Rightarrow> double" where
  "d_sub (NaN s) y = NaN s"
| "d_sub x (NaN t) = NaN t"
| "d_sub x y = d_add x (d_neg y)"

fun d_mul :: "double \<Rightarrow> double \<Rightarrow> double" where
  "d_mul (NaN s) y = NaN s"
| "d_mul x (NaN t) = NaN t"
| "d_mul (Infinity s) (Infinity t) = Infinity (s \<noteq> t)"
| "d_mul (Infinity s) (Finite t n f) = (if n = 0 then NaN True else Infinity (s \<noteq> t))"
| "d_mul (Finite s m e) (Infinity t) = (if m = 0 then NaN True else Infinity (s \<noteq> t))"
| "d_mul (Finite s m e) (Finite t n f) = round_scaled (s \<noteq> t) (m * n) (e + f)"

fun d_div :: "double \<Rightarrow> double \<Rightarrow> double" where
  "d_div (NaN s) y = NaN s"
| "d_div x (NaN t) = NaN t"
| "d_div (Infinity s) (Infinity t) = NaN True"
| "d_div (Infinity s) (Finite t n f) = Infinity (s \<noteq> t)"
| "d_div (Finite s m e) (Infinity t) = d_zero (s \<noteq> t)"
| "d_div (Finite s m e) (Finite t n f) =
     (if n = 0 then (if m = 0 then NaN True else Infinity (s \<noteq> t))
      else round_ratio (s \<noteq> t) (m * pow2 (e - f)) (n * pow2 (f - e)))"

fun d_less :: "double \<Rightarrow> double \<Rightarrow> bool" where
  "d_less (NaN s) y = False"
| "d_less x (NaN t) = False"
| "d_less (Infinity s) (Infinity t) = (s \<and> \<not> t)"
| "d_less (Infinity s) (Finite t n f) = s"
| "d_less (Finite s m e) (Infinity t) = (\<not> t)"
| "d_less (Finite s m e) (Finite t n f) =
     (let g = min e f in signed s m * pow2 (e - g) < signed t n * pow2 (f - g))"

fun d_less_eq :: "double \<Rightarrow> double \<Rightarrow> bool" where
  "d_less_eq (NaN s) y = False"
| "d_less_eq x (NaN t) = False"
| "d_less_eq x y = (\<not> d_less y x)"

definition d_of_int :: "int \<Rightarrow> double" where
  "d_of_int i = round_ratio (i < 0) \<bar>i\<bar> 1"

section \<open>Text to double and back\<close>

definition digit_value :: "char \<Rightarrow> int" where
  "digit_value c = of_char c - 48"

definition digits_value :: "string \<Rightarrow> int" where
  "digits_value ds = foldl (\<lambda>n c. 10 * n + digit_value c) 0 ds"

definition strtod_decimal :: "string \<Rightarrow> double" where
  "strtod_decimal text =
     (let whole = takeWhile (\<lambda>c. c \<noteq> CHR ''.'') text;
          frac = drop (Suc (length whole)) text
      in round_ratio False (digits_value (whole @ frac)) (10 ^ length frac))"

function decimal_rev :: "int \<Rightarrow> string" where
  "decimal_rev n =
     (if n < 10 then [char_of (48 + n)] else char_of (48 + n mod 10) # decimal_rev (n div 10))"
  by pat_completeness auto
termination
  by (relation "measure nat") auto

declare decimal_rev.simps [simp del]

text \<open>The decimal digits of a number that is not negative.\<close>

definition decimal :: "int \<Rightarrow> string" where
  "decimal n = rev (decimal_rev n)"

definition decimal_signed :: "int \<Rightarrow> string" where
  "decimal_signed n = (if n < 0 then CHR ''-'' # decimal (- n) else decimal n)"

definition pow10 :: "int \<Rightarrow> int" where
  "pow10 e = 10 ^ nat e"

text \<open>The decimal exponent of a positive quotient: \<open>10 ^ x \<le> num / den < 10 ^ (x + 1)\<close>.\<close>

definition decimal_exp :: "int \<Rightarrow> int \<Rightarrow> int" where
  "decimal_exp num den =
     (let x = int (length (decimal num)) - int (length (decimal den))
      in if den * pow10 x \<le> num * pow10 (- x) then x else x - 1)"

definition strip_zeros :: "string \<Rightarrow> string" where
  "strip_zeros ds = rev (dropWhile (\<lambda>c. c = CHR ''0'') (rev ds))"

definition with_fraction :: "string \<Rightarrow> string \<Rightarrow> string" where
  "with_fraction whole frac =
     (let f = strip_zeros frac in if f = [] then whole else whole @ CHR ''.'' # f)"

definition exponent_text :: "int \<Rightarrow> string" where
  "exponent_text x =
     CHR ''e'' # (if x < 0 then CHR ''-'' else CHR ''+'') #
       (if \<bar>x\<bar> < 10 then CHR ''0'' # decimal \<bar>x\<bar> else decimal \<bar>x\<bar>)"

text \<open>Six significant digits \<open>ds\<close> with decimal exponent \<open>x\<close>, in the style that \<open>%g\<close> chooses.\<close>

definition layout_g :: "string \<Rightarrow> int \<Rightarrow> string" where
  "layout_g ds x =
     (if x < -4 \<or> 6 \<le> x then with_fraction (take 1 ds) (drop 1 ds) @ exponent_text x
      else if x < 0 then with_fraction ''0'' (replicate (nat (- x - 1)) (CHR ''0'') @ ds)
      else with_fraction (take (nat x + 1) ds) (drop (nat x + 1) ds))"

definition format_ratio :: "int \<Rightarrow> int \<Rightarrow> string" where
  "format_ratio num den =
     (let x = decimal_exp num den;
          n = div_round (num * pow10 (5 - x)) (den * pow10 (x - 5))
      in if n = 10 ^ 6 then layout_g ''100000'' (x + 1) else layout_g (decimal n) x)"

fun format_lg :: "double \<Rightarrow> string" where
  "format_lg (NaN s) = (if s then ''-nan'' else ''nan'')"
| "format_lg (Infinity s) = (if s then ''-inf'' else ''inf'')"
| "format_lg (Finite s m e) =
     (if s then ''-'' else []) @
       (if m = 0 then ''0'' else format_ratio (m * pow2 e) (pow2 (- e)))"

end
