(* ===== verification/Lox_Syntax.thy ===== *)
theory Lox_Syntax
  imports Prelude Double
begin

text \<open>
  The data the components exchange: token types (\<open>token_type.inl\<close>), runtime objects
  (\<open>object.h\<close>, \<open>object.c\<close>), tokens (\<open>token.h\<close>, \<open>token.c\<close>), expressions and statements
  (\<open>ast/expr.h\<close>, \<open>ast/stmt.h\<close>) and runtime errors.

  Pointers. A child that the parser may leave \<open>NULL\<close> is an \<open>option\<close>. Function declarations
  are compared by address at run time, so a \<open>struct function_stmt\<close> lives in a heap of
  declarations and is referred to by its address, an index; environments have addresses too.
  All other objects are compared by value only and are modelled as values.
\<close>

section \<open>Token types\<close>

datatype token_type =
    TOKEN_LEFT_PAREN | TOKEN_RIGHT_PAREN | TOKEN_LEFT_BRACE | TOKEN_RIGHT_BRACE
  | TOKEN_COMMA | TOKEN_DOT | TOKEN_MINUS | TOKEN_PLUS
  | TOKEN_SEMICOLON | TOKEN_SLASH | TOKEN_STAR | TOKEN_BANG
  | TOKEN_BANG_EQUAL | TOKEN_EQUAL | TOKEN_EQUAL_EQUAL | TOKEN_GREATER
  | TOKEN_GREATER_EQUAL | TOKEN_LESS | TOKEN_LESS_EQUAL | TOKEN_IDENTIFIER
  | TOKEN_STRING | TOKEN_NUMBER | TOKEN_AND | TOKEN_CLASS
  | TOKEN_ELSE | TOKEN_FALSE | TOKEN_FOR | TOKEN_FUN
  | TOKEN_IF | TOKEN_NIL | TOKEN_OR | TOKEN_PRINT
  | TOKEN_RETURN | TOKEN_SUPER | TOKEN_THIS | TOKEN_TRUE
  | TOKEN_VAR | TOKEN_WHILE | TOKEN_EOF

fun TOKEN_TYPE_STRINGS :: "token_type \<Rightarrow> string" where
  "TOKEN_TYPE_STRINGS TOKEN_LEFT_PAREN = ''TOKEN_LEFT_PAREN''"
| "TOKEN_TYPE_STRINGS TOKEN_RIGHT_PAREN = ''TOKEN_RIGHT_PAREN''"
| "TOKEN_TYPE_STRINGS TOKEN_LEFT_BRACE = ''TOKEN_LEFT_BRACE''"
| "TOKEN_TYPE_STRINGS TOKEN_RIGHT_BRACE = ''TOKEN_RIGHT_BRACE''"
| "TOKEN_TYPE_STRINGS TOKEN_COMMA = ''TOKEN_COMMA''"
| "TOKEN_TYPE_STRINGS TOKEN_DOT = ''TOKEN_DOT''"
| "TOKEN_TYPE_STRINGS TOKEN_MINUS = ''TOKEN_MINUS''"
| "TOKEN_TYPE_STRINGS TOKEN_PLUS = ''TOKEN_PLUS''"
| "TOKEN_TYPE_STRINGS TOKEN_SEMICOLON = ''TOKEN_SEMICOLON''"
| "TOKEN_TYPE_STRINGS TOKEN_SLASH = ''TOKEN_SLASH''"
| "TOKEN_TYPE_STRINGS TOKEN_STAR = ''TOKEN_STAR''"
| "TOKEN_TYPE_STRINGS TOKEN_BANG = ''TOKEN_BANG''"
| "TOKEN_TYPE_STRINGS TOKEN_BANG_EQUAL = ''TOKEN_BANG_EQUAL''"
| "TOKEN_TYPE_STRINGS TOKEN_EQUAL = ''TOKEN_EQUAL''"
| "TOKEN_TYPE_STRINGS TOKEN_EQUAL_EQUAL = ''TOKEN_EQUAL_EQUAL''"
| "TOKEN_TYPE_STRINGS TOKEN_GREATER = ''TOKEN_GREATER''"
| "TOKEN_TYPE_STRINGS TOKEN_GREATER_EQUAL = ''TOKEN_GREATER_EQUAL''"
| "TOKEN_TYPE_STRINGS TOKEN_LESS = ''TOKEN_LESS''"
| "TOKEN_TYPE_STRINGS TOKEN_LESS_EQUAL = ''TOKEN_LESS_EQUAL''"
| "TOKEN_TYPE_STRINGS TOKEN_IDENTIFIER = ''TOKEN_IDENTIFIER''"
| "TOKEN_TYPE_STRINGS TOKEN_STRING = ''TOKEN_STRING''"
| "TOKEN_TYPE_STRINGS TOKEN_NUMBER = ''TOKEN_NUMBER''"
| "TOKEN_TYPE_STRINGS TOKEN_AND = ''TOKEN_AND''"
| "TOKEN_TYPE_STRINGS TOKEN_CLASS = ''TOKEN_CLASS''"
| "TOKEN_TYPE_STRINGS TOKEN_ELSE = ''TOKEN_ELSE''"
| "TOKEN_TYPE_STRINGS TOKEN_FALSE = ''TOKEN_FALSE''"
| "TOKEN_TYPE_STRINGS TOKEN_FOR = ''TOKEN_FOR''"
| "TOKEN_TYPE_STRINGS TOKEN_FUN = ''TOKEN_FUN''"
| "TOKEN_TYPE_STRINGS TOKEN_IF = ''TOKEN_IF''"
| "TOKEN_TYPE_STRINGS TOKEN_NIL = ''TOKEN_NIL''"
| "TOKEN_TYPE_STRINGS TOKEN_OR = ''TOKEN_OR''"
| "TOKEN_TYPE_STRINGS TOKEN_PRINT = ''TOKEN_PRINT''"
| "TOKEN_TYPE_STRINGS TOKEN_RETURN = ''TOKEN_RETURN''"
| "TOKEN_TYPE_STRINGS TOKEN_SUPER = ''TOKEN_SUPER''"
| "TOKEN_TYPE_STRINGS TOKEN_THIS = ''TOKEN_THIS''"
| "TOKEN_TYPE_STRINGS TOKEN_TRUE = ''TOKEN_TRUE''"
| "TOKEN_TYPE_STRINGS TOKEN_VAR = ''TOKEN_VAR''"
| "TOKEN_TYPE_STRINGS TOKEN_WHILE = ''TOKEN_WHILE''"
| "TOKEN_TYPE_STRINGS TOKEN_EOF = ''TOKEN_EOF''"

section \<open>Objects\<close>

text \<open>The only native function is \<open>lox_clock\<close>; its address identifies it.\<close>

datatype native_func = lox_clock

record lox_function =
  fn_declaration :: nat
  fn_closure :: nat

datatype object =
    OBJECT_STRING string
  | OBJECT_NUMBER double
  | OBJECT_BOOL bool
  | OBJECT_NULL
  | OBJECT_NATIVE_FUNCTION int native_func
  | OBJECT_FUNCTION lox_function

definition object_new_string :: "string \<Rightarrow> object" where
  [simp]: "object_new_string value = OBJECT_STRING value"

definition object_new_number :: "double \<Rightarrow> object" where
  [simp]: "object_new_number value = OBJECT_NUMBER value"

definition object_new_bool :: "bool \<Rightarrow> object" where
  [simp]: "object_new_bool value = OBJECT_BOOL value"

definition object_new_null :: object where
  [simp]: "object_new_null = OBJECT_NULL"

definition object_new_native_function :: "int \<Rightarrow> native_func \<Rightarrow> object" where
  [simp]: "object_new_native_function arity value = OBJECT_NATIVE_FUNCTION arity value"

definition object_new_function :: "lox_function \<Rightarrow> object" where
  [simp]: "object_new_function func = OBJECT_FUNCTION func"

fun OBJECT_IS_CALLABLE :: "object \<Rightarrow> bool" where
  "OBJECT_IS_CALLABLE (OBJECT_NATIVE_FUNCTION arity func) = True"
| "OBJECT_IS_CALLABLE (OBJECT_FUNCTION func) = True"
| "OBJECT_IS_CALLABLE _ = False"

section \<open>Tokens and runtime errors\<close>

record token =
  t_type :: token_type
  t_lexeme :: string
  t_literal :: object
  t_line :: nat

record runtime_error =
  re_token :: token
  re_message :: string

definition runtime_error_new :: "token \<Rightarrow> string \<Rightarrow> runtime_error" where
  "runtime_error_new tok message = \<lparr>re_token = tok, re_message = message\<rparr>"

section \<open>Expressions and statements\<close>

datatype expr =
    EXPR_ASSIGN token "expr option"
  | EXPR_BINARY expr token expr
  | EXPR_CALL expr token "expr list"
  | EXPR_GROUPING "expr option"
  | EXPR_LITERAL object
  | EXPR_LOGICAL "expr option" token "expr option"
  | EXPR_UNARY token expr
  | EXPR_VARIABLE token

datatype stmt =
    STMT_BLOCK "stmt list"
  | STMT_EXPRESSION expr
  | STMT_FUNCTION nat
  | STMT_IF expr stmt "stmt option"
  | STMT_PRINT expr
  | STMT_RETURN token "expr option"
  | STMT_VAR token "expr option"
  | STMT_WHILE expr stmt

record function_stmt =
  fs_name :: token
  fs_params :: "token list"
  fs_body :: "stmt list option"

type_synonym declarations = "function_stmt list"

definition expr_new_assign :: "token \<Rightarrow> expr option \<Rightarrow> expr" where
  [simp]: "expr_new_assign name value = EXPR_ASSIGN name value"

definition expr_new_binary :: "expr \<Rightarrow> token \<Rightarrow> expr \<Rightarrow> expr" where
  [simp]: "expr_new_binary left op right = EXPR_BINARY left op right"

definition expr_new_call :: "expr \<Rightarrow> token \<Rightarrow> expr list \<Rightarrow> expr" where
  [simp]: "expr_new_call callee paren arguments = EXPR_CALL callee paren arguments"

definition expr_new_grouping :: "expr option \<Rightarrow> expr" where
  [simp]: "expr_new_grouping expression = EXPR_GROUPING expression"

definition expr_new_literal :: "object \<Rightarrow> expr" where
  [simp]: "expr_new_literal value = EXPR_LITERAL value"

definition expr_new_logical :: "expr option \<Rightarrow> token \<Rightarrow> expr option \<Rightarrow> expr" where
  [simp]: "expr_new_logical left op right = EXPR_LOGICAL left op right"

definition expr_new_unary :: "token \<Rightarrow> expr \<Rightarrow> expr" where
  [simp]: "expr_new_unary op right = EXPR_UNARY op right"

definition expr_new_variable :: "token \<Rightarrow> expr" where
  [simp]: "expr_new_variable name = EXPR_VARIABLE name"

definition stmt_new_block :: "stmt list \<Rightarrow> stmt" where
  [simp]: "stmt_new_block statements = STMT_BLOCK statements"

definition stmt_new_expression :: "expr \<Rightarrow> stmt" where
  [simp]: "stmt_new_expression expression = STMT_EXPRESSION expression"

text \<open>A new declaration is placed at the next free address of the heap.\<close>

definition stmt_new_function ::
  "token \<Rightarrow> token list \<Rightarrow> stmt list option \<Rightarrow> declarations \<Rightarrow> stmt \<times> declarations" where
  "stmt_new_function name params body heap =
     (STMT_FUNCTION (length heap), heap @ [\<lparr>fs_name = name, fs_params = params, fs_body = body\<rparr>])"

definition stmt_new_if :: "expr \<Rightarrow> stmt \<Rightarrow> stmt option \<Rightarrow> stmt" where
  [simp]: "stmt_new_if condition then_branch else_branch = STMT_IF condition then_branch else_branch"

definition stmt_new_print :: "expr \<Rightarrow> stmt" where
  [simp]: "stmt_new_print expression = STMT_PRINT expression"

definition stmt_new_return :: "token \<Rightarrow> expr option \<Rightarrow> stmt" where
  [simp]: "stmt_new_return keyword value = STMT_RETURN keyword value"

definition stmt_new_var :: "token \<Rightarrow> expr option \<Rightarrow> stmt" where
  [simp]: "stmt_new_var name initializer = STMT_VAR name initializer"

definition stmt_new_while :: "expr \<Rightarrow> stmt \<Rightarrow> stmt" where
  [simp]: "stmt_new_while condition body = STMT_WHILE condition body"

section \<open>Printing objects and tokens\<close>

text \<open>
  The text that the macro \<open>OBJECT_PRINT\<close> formats, for a heap of declarations. \<open>object_fprint\<close>
  writes it and returns its length.
\<close>

definition declaration_at :: "declarations \<Rightarrow> nat \<Rightarrow> function_stmt option" where
  "declaration_at heap a = (if a < length heap then Some (heap ! a) else None)"

fun OBJECT_PRINT :: "declarations \<Rightarrow> object \<Rightarrow> string" where
  "OBJECT_PRINT heap (OBJECT_STRING s) = s"
| "OBJECT_PRINT heap (OBJECT_NUMBER d) = format_lg d"
| "OBJECT_PRINT heap (OBJECT_BOOL b) = (if b then ''true'' else ''false'')"
| "OBJECT_PRINT heap OBJECT_NULL = ''NULL''"
| "OBJECT_PRINT heap (OBJECT_NATIVE_FUNCTION arity func) = ''<native function>''"
| "OBJECT_PRINT heap (OBJECT_FUNCTION f) =
     ''<fn '' @ (case declaration_at heap (fn_declaration f) of
                  None \<Rightarrow> [] | Some d \<Rightarrow> t_lexeme (fs_name d)) @ ''>''"

definition object_fprint :: "declarations \<Rightarrow> object \<Rightarrow> string \<Rightarrow> nat \<times> string" where
  "object_fprint heap obj out =
     (let text = OBJECT_PRINT heap obj in (length text, out @ text))"

text \<open>
  A call \<open>snprintf(s, n, ...)\<close> that formats \<open>text\<close>: it returns the length of \<open>text\<close> and
  writes to the first bytes at \<open>s\<close>, the terminating NUL included. The second component is the
  number of bytes written.
\<close>

definition snprintf :: "nat \<Rightarrow> string \<Rightarrow> nat \<times> nat" where
  "snprintf n text = (length text, if n = 0 then 0 else Suc (min (n - 1) (length text)))"

definition object_snprint :: "declarations \<Rightarrow> nat \<Rightarrow> object \<Rightarrow> nat \<times> nat" where
  "object_snprint heap n obj = snprintf n (OBJECT_PRINT heap obj)"

definition token_prefix :: "token \<Rightarrow> string" where
  "token_prefix tok = TOKEN_TYPE_STRINGS (t_type tok) @ '' '' @ t_lexeme tok @ '' ''"

definition token_fprint :: "declarations \<Rightarrow> token \<Rightarrow> string \<Rightarrow> nat \<times> string" where
  "token_fprint heap tok out =
     (let (n, out') = object_fprint heap (t_literal tok) (out @ token_prefix tok)
      in (length (token_prefix tok) + n, out'))"

text \<open>
  \<open>token_snprint(s, n, tok)\<close>: the returned length, and the offset from \<open>s\<close> just behind the
  last byte written. The second call is given the room \<open>n\<close> of the whole buffer.
\<close>

definition token_snprint :: "declarations \<Rightarrow> nat \<Rightarrow> token \<Rightarrow> nat \<times> nat" where
  "token_snprint heap n tok =
     (let (len, written) = snprintf n (token_prefix tok);
          (len', written') = object_snprint heap n (t_literal tok)
      in (len + len', max written (if written' = 0 then 0 else len + written')))"

end
