(* ===== verification/Console.thy ===== *)
theory Console
  imports Lox_Syntax
begin

text \<open>
  The error reporting of \<open>source/lib.c\<close>: the two global flags, the text written to the
  standard streams, and the functions through which the scanner, the parser and the
  interpreter report.
\<close>

record console =
  con_out :: string
  con_err :: string
  HadError :: bool
  HadRuntimeError :: bool

definition console_new :: console where
  "console_new = \<lparr>con_out = [], con_err = [], HadError = False, HadRuntimeError = False\<rparr>"

definition print_out :: "string \<Rightarrow> console \<Rightarrow> console" where
  "print_out text con = con\<lparr>con_out := con_out con @ text\<rparr>"

definition line_tag :: "nat \<Rightarrow> string" where
  "line_tag line = ''[line '' @ decimal (int line) @ '']''"

definition report :: "nat \<Rightarrow> string \<Rightarrow> string \<Rightarrow> console \<Rightarrow> console" where
  "report line place message con =
     con\<lparr>con_err := con_err con @ line_tag line @ '' Error'' @ place @ '': '' @ message @ [newline],
         HadError := True\<rparr>"

definition library_error :: "nat \<Rightarrow> string \<Rightarrow> console \<Rightarrow> console" where
  "library_error line message con = report line [] message con"

definition library_error_at_token :: "token \<Rightarrow> string \<Rightarrow> console \<Rightarrow> console" where
  "library_error_at_token tok message con =
     (if t_type tok = TOKEN_EOF then report (t_line tok) '' at end'' message con
      else report (t_line tok) ('' at '' @ [CHR 0x27] @ t_lexeme tok @ [CHR 0x27]) message con)"

definition library_runtime_error :: "runtime_error \<Rightarrow> console \<Rightarrow> console" where
  "library_runtime_error err con =
     con\<lparr>con_err := con_err con @ re_message err @ [newline] @ line_tag (t_line (re_token err)) @ [newline],
         HadRuntimeError := True\<rparr>"

section \<open>How reporting changes the console\<close>

text \<open>Reports only ever append to the streams and raise flags.\<close>

definition console_le :: "console \<Rightarrow> console \<Rightarrow> bool" where
  "console_le c c' \<longleftrightarrow>
     (\<exists>out. con_out c' = con_out c @ out) \<and> (\<exists>err. con_err c' = con_err c @ err) \<and>
     (HadError c \<longrightarrow> HadError c') \<and> (HadRuntimeError c \<longrightarrow> HadRuntimeError c')"

lemma console_le_refl [simp]: "console_le c c"
  by (simp add: console_le_def)

lemma console_le_trans [trans]: "console_le a b \<Longrightarrow> console_le b c \<Longrightarrow> console_le a c"
  by (auto simp: console_le_def)

lemma console_le_report [simp]: "console_le c (report line place message c)"
  by (simp add: console_le_def report_def)

lemma console_le_library_error [simp]:
  "console_le c (library_error line message c)"
  "console_le c (library_error_at_token tok message c)"
  by (simp_all add: library_error_def library_error_at_token_def)

lemma HadError_library_error [simp]:
  "HadError (library_error line message c)"
  "HadError (library_error_at_token tok message c)"
  by (simp_all add: library_error_def library_error_at_token_def report_def)

lemma con_out_library_error [simp]:
  "con_out (library_error line message c) = con_out c"
  "con_out (library_error_at_token tok message c) = con_out c"
  by (simp_all add: library_error_def library_error_at_token_def report_def)

lemma HadRuntimeError_library_error [simp]:
  "HadRuntimeError (library_error line message c) = HadRuntimeError c"
  "HadRuntimeError (library_error_at_token tok message c) = HadRuntimeError c"
  by (simp_all add: library_error_def library_error_at_token_def report_def)

end
