(* ===== verification/Growable_List.thy ===== *)
theory Growable_List
  imports Prelude
begin

text \<open>
  The growable array of \<open>source/private/list.h\<close> and \<open>list.c\<close>, which carries every list of
  the program (tokens, statements, expressions, parameters, arguments).

  A list is a pointer to \<open>capacity\<close> cells, of which the first \<open>length\<close> hold elements;
  \<open>length\<close> and \<open>capacity\<close> are C \<open>long\<close>s. A cell that was allocated and never written is
  \<open>None\<close>. A result \<open>None\<close> of an operation is signed overflow of a \<open>long\<close>, which C leaves
  undefined.

  The lemmas show that the capacity loop always ends, that the well-formedness invariant is
  kept, and that pushing refines appending to a list: the locale \<open>sequence\<close> is that contract,
  and \<open>Growable_List\<close> interprets it.
\<close>

section \<open>The model\<close>

definition LONG_MAX :: int where
  "LONG_MAX = 2 ^ 63 - 1"

definition LONG_MIN :: int where
  "LONG_MIN = - (2 ^ 63)"

definition in_long :: "int \<Rightarrow> bool" where
  "in_long n \<longleftrightarrow> LONG_MIN \<le> n \<and> n \<le> LONG_MAX"

record 'a clist =
  l_pointer :: "'a option list"
  l_length :: int
  l_capacity :: int

definition LIST_INITIAL_CAPACITY :: int where
  "LIST_INITIAL_CAPACITY = 8"

definition LIST_INIT :: "'a clist" where
  "LIST_INIT = \<lparr>l_pointer = [], l_length = 0, l_capacity = 0\<rparr>"

text \<open>The loop of \<open>list_reserve\<close>: the capacity it ends with.\<close>

function grow_capacity :: "int \<Rightarrow> int \<Rightarrow> int option" where
  "grow_capacity cap want =
     (if cap < want then
        (let cap' = (if cap = 0 then LIST_INITIAL_CAPACITY else cap * 2)
         in if in_long cap' then grow_capacity cap' want else None)
      else Some cap)"
  by pat_completeness auto
termination
  by (relation "measure (\<lambda>(cap, want). if cap < 0 then nat (cap + 2 ^ 63) else nat (2 ^ 63 - cap))")
     (auto simp: in_long_def LONG_MIN_def LONG_MAX_def LIST_INITIAL_CAPACITY_def)

declare grow_capacity.simps [simp del]

text \<open>\<open>GC_REALLOC\<close> keeps the cells that fit the new block; the others are not initialised.\<close>

definition gc_realloc :: "'a option list \<Rightarrow> nat \<Rightarrow> 'a option list" where
  "gc_realloc cells n = take n cells @ replicate (n - length cells) None"

definition list_reserve :: "'a clist \<Rightarrow> int \<Rightarrow> 'a clist option" where
  "list_reserve l want =
     (if l_capacity l < want then
        (case grow_capacity (l_capacity l) want of
           None \<Rightarrow> None
         | Some cap \<Rightarrow>
             Some (l\<lparr>l_capacity := cap, l_pointer := gc_realloc (l_pointer l) (nat cap)\<rparr>))
      else Some l)"

definition list_resize :: "'a clist \<Rightarrow> int \<Rightarrow> 'a clist option" where
  "list_resize l n =
     (case list_reserve l n of None \<Rightarrow> None | Some l' \<Rightarrow> Some (l'\<lparr>l_length := n\<rparr>))"

definition LIST_PUSH :: "'a clist \<Rightarrow> 'a \<Rightarrow> 'a clist option" where
  "LIST_PUSH l x =
     (if in_long (l_length l + 1) then
        (case list_reserve l (l_length l + 1) of
           None \<Rightarrow> None
         | Some l' \<Rightarrow>
             Some (l'\<lparr>l_pointer := (l_pointer l')[nat (l_length l') := Some x],
                      l_length := l_length l' + 1\<rparr>))
      else None)"

fun push_all :: "'a clist \<Rightarrow> 'a list \<Rightarrow> 'a clist option" where
  "push_all l [] = Some l"
| "push_all l (x # xs) = (case LIST_PUSH l x of None \<Rightarrow> None | Some l' \<Rightarrow> push_all l' xs)"

section \<open>Well-formed lists and the sequence they hold\<close>

definition capacity_ok :: "int \<Rightarrow> bool" where
  "capacity_ok c \<longleftrightarrow> c = 0 \<or> (\<exists>k. c = LIST_INITIAL_CAPACITY * 2 ^ k)"

definition clist_ok :: "'a clist \<Rightarrow> bool" where
  "clist_ok l \<longleftrightarrow>
     0 \<le> l_length l \<and> l_length l \<le> l_capacity l \<and> l_capacity l \<le> LONG_MAX \<and>
     capacity_ok (l_capacity l) \<and> length (l_pointer l) = nat (l_capacity l) \<and>
     (\<forall>i < nat (l_length l). l_pointer l ! i \<noteq> None)"

definition items :: "'a clist \<Rightarrow> 'a list" where
  "items l = map the (take (nat (l_length l)) (l_pointer l))"

section \<open>The capacity loop\<close>

lemma capacity_ok_nonneg: "capacity_ok c \<Longrightarrow> 0 \<le> c"
  by (auto simp: capacity_ok_def LIST_INITIAL_CAPACITY_def)

lemma capacity_ok_step:
  "capacity_ok c \<Longrightarrow> capacity_ok (if c = 0 then LIST_INITIAL_CAPACITY else c * 2)"
  unfolding capacity_ok_def
  by (metis mult.assoc mult.right_neutral power_0 power_Suc2)

text \<open>
  The loop stops: for every request up to a quarter of the range of \<open>long\<close> it returns a
  capacity that is large enough, of the form eight times a power of two, and less than twice
  what was asked for unless it is the initial capacity.
\<close>

lemma grow_capacity_Some:
  assumes "capacity_ok cap" and "cap < want" and "want \<le> 2 ^ 62"
  shows "\<exists>c. grow_capacity cap want = Some c \<and> capacity_ok c \<and> want \<le> c \<and> cap \<le> c \<and>
           c \<le> LONG_MAX \<and> (c = LIST_INITIAL_CAPACITY \<or> c < 2 * want)"
  using assms
proof (induction cap want rule: grow_capacity.induct)
  case (1 cap want)
  define cap' where "cap' = (if cap = 0 then LIST_INITIAL_CAPACITY else cap * 2)"
  have pos: "0 \<le> cap" using "1.prems"(1) by (rule capacity_ok_nonneg)
  have small: "cap' = LIST_INITIAL_CAPACITY \<or> cap' < 2 * want"
    using "1.prems"(2) by (simp add: cap'_def)
  have fits: "in_long cap'"
    using pos "1.prems"(2,3) by (auto simp: cap'_def in_long_def LONG_MIN_def LONG_MAX_def LIST_INITIAL_CAPACITY_def)
  have ok: "capacity_ok cap'" unfolding cap'_def using "1.prems"(1) by (rule capacity_ok_step)
  have le: "cap \<le> cap'" using pos by (simp add: cap'_def LIST_INITIAL_CAPACITY_def)
  have unf: "grow_capacity cap want = grow_capacity cap' want"
    using "1.prems"(2) fits by (subst grow_capacity.simps) (simp add: cap'_def)
  show ?case
  proof (cases "cap' < want")
    case True
    from "1.IH" [OF "1.prems"(2) cap'_def fits ok True "1.prems"(3)] le unf
    show ?thesis by (metis order_trans)
  next
    case False
    then have "grow_capacity cap' want = Some cap'"
      by (subst grow_capacity.simps) simp
    with False le ok fits small unf show ?thesis by (auto simp: in_long_def)
  qed
qed

section \<open>Reserving and pushing\<close>

lemma length_gc_realloc [simp]: "length (gc_realloc cells n) = n"
  by (simp add: gc_realloc_def)

lemma nth_gc_realloc: "i < length cells \<Longrightarrow> i < n \<Longrightarrow> gc_realloc cells n ! i = cells ! i"
  by (simp add: gc_realloc_def nth_append)

lemma list_reserve_ok:
  assumes "clist_ok l" and "want \<le> 2 ^ 62"
  shows "\<exists>l'. list_reserve l want = Some l' \<and> clist_ok l' \<and> items l' = items l \<and>
           l_length l' = l_length l \<and> want \<le> l_capacity l' \<and> l_capacity l \<le> l_capacity l'"
proof (cases "l_capacity l < want")
  case True
  from assms have ok: "capacity_ok (l_capacity l)" by (simp add: clist_ok_def)
  obtain c where c: "grow_capacity (l_capacity l) want = Some c" "capacity_ok c" "want \<le> c"
      "l_capacity l \<le> c" "c \<le> LONG_MAX"
    using grow_capacity_Some [OF ok True assms(2)] by blast
  let ?l' = "l\<lparr>l_capacity := c, l_pointer := gc_realloc (l_pointer l) (nat c)\<rparr>"
  have cells: "l_pointer ?l' ! i = l_pointer l ! i" if "i < nat (l_length l)" for i
    using that assms(1) c(4) by (auto simp: clist_ok_def intro!: nth_gc_realloc)
  have "items ?l' = items l"
    using assms(1) c(4) cells by (auto simp: items_def clist_ok_def intro!: nth_equalityI)
  moreover have "clist_ok ?l'"
    using assms(1) c cells by (auto simp: clist_ok_def)
  ultimately show ?thesis using True c by (auto simp: list_reserve_def)
next
  case False
  with assms(1) show ?thesis by (simp add: list_reserve_def)
qed

lemma items_push_cell:
  assumes "clist_ok l" and "l_length l < l_capacity l"
  shows "items (l\<lparr>l_pointer := (l_pointer l)[nat (l_length l) := Some x], l_length := l_length l + 1\<rparr>)
           = items l @ [x]"
proof -
  from assms have n: "nat (l_length l) < length (l_pointer l)" by (auto simp: clist_ok_def)
  from assms have "nat (l_length l + 1) = Suc (nat (l_length l))" by (auto simp: clist_ok_def)
  with n show ?thesis by (simp add: items_def take_Suc_conv_app_nth)
qed

lemma LIST_PUSH_Some:
  assumes "clist_ok l" and "l_length l < 2 ^ 62"
  shows "\<exists>l'. LIST_PUSH l x = Some l' \<and> clist_ok l' \<and> items l' = items l @ [x] \<and>
           l_length l' = l_length l + 1"
proof -
  from assms obtain m where m: "list_reserve l (l_length l + 1) = Some m" "clist_ok m"
      "items m = items l" "l_length m = l_length l" "l_length l + 1 \<le> l_capacity m"
    using list_reserve_ok [of l "l_length l + 1"] by auto
  let ?l' = "m\<lparr>l_pointer := (l_pointer m)[nat (l_length m) := Some x], l_length := l_length m + 1\<rparr>"
  have "in_long (l_length l + 1)"
    using assms by (auto simp: in_long_def clist_ok_def LONG_MIN_def LONG_MAX_def)
  with m have push: "LIST_PUSH l x = Some ?l'" by (simp add: LIST_PUSH_def)
  have len: "nat (l_length m + 1) = Suc (nat (l_length m))" "nat (l_length m) < length (l_pointer m)"
    using m by (auto simp: clist_ok_def)
  have "clist_ok ?l'"
    using m len by (auto simp: clist_ok_def nth_list_update less_Suc_eq)
  moreover have "items ?l' = items l @ [x]"
    using items_push_cell [OF m(2)] m by simp
  ultimately show ?thesis using push m(4) by auto
qed

lemma LIST_INIT_ok [simp]: "clist_ok LIST_INIT" "items LIST_INIT = []" "l_length LIST_INIT = 0"
    "l_capacity LIST_INIT = 0"
  by (auto simp: LIST_INIT_def clist_ok_def items_def capacity_ok_def LONG_MAX_def)

section \<open>The sequence contract\<close>

text \<open>
  What the scanner, the parser and the interpreter rely on when they push: there is an empty
  list, and as long as fewer than \<open>bound\<close> elements are held, a push succeeds, keeps the
  invariant and appends to the contents.
\<close>

locale sequence =
  fixes init :: 'l
    and push :: "'l \<Rightarrow> 'a \<Rightarrow> 'l option"
    and contents :: "'l \<Rightarrow> 'a list"
    and invar :: "'l \<Rightarrow> bool"
    and bound :: nat
  assumes init_ok: "invar init" and init_contents: "contents init = []"
    and push_ok: "invar l \<Longrightarrow> length (contents l) < bound \<Longrightarrow>
      \<exists>l'. push l x = Some l' \<and> invar l' \<and> contents l' = contents l @ [x]"
begin

fun pushes :: "'l \<Rightarrow> 'a list \<Rightarrow> 'l option" where
  "pushes l [] = Some l"
| "pushes l (x # xs) = (case push l x of None \<Rightarrow> None | Some l' \<Rightarrow> pushes l' xs)"

lemma pushes_append:
  "invar l \<Longrightarrow> length (contents l) + length xs \<le> bound \<Longrightarrow>
     \<exists>l'. pushes l xs = Some l' \<and> invar l' \<and> contents l' = contents l @ xs"
proof (induction xs arbitrary: l)
  case (Cons x xs)
  then obtain m where "push l x = Some m" "invar m" "contents m = contents l @ [x]"
    using push_ok [of l x] by auto
  with Cons.IH [of m] Cons.prems show ?case by auto
qed simp

lemma pushes_init:
  "length xs \<le> bound \<Longrightarrow> \<exists>l'. pushes init xs = Some l' \<and> invar l' \<and> contents l' = xs"
  using pushes_append [OF init_ok] init_contents by simp

end

lemma clist_length: "clist_ok l \<Longrightarrow> int (length (items l)) = l_length l"
  by (auto simp: clist_ok_def items_def)

interpretation cl: sequence LIST_INIT LIST_PUSH items clist_ok "2 ^ 62"
proof unfold_locales
  fix l :: "'a clist" and x
  assume ok: "clist_ok l" and len: "length (items l) < 2 ^ 62"
  have "l_length l < 2 ^ 62" using clist_length [OF ok] len by simp
  from LIST_PUSH_Some [OF ok this, of x]
  show "\<exists>l'. LIST_PUSH l x = Some l' \<and> clist_ok l' \<and> items l' = items l @ [x]" by blast
qed simp_all

lemma push_all_pushes: "push_all l xs = cl.pushes l xs"
  by (induction xs arbitrary: l) (auto split: option.split)

section \<open>Properties\<close>

text \<open>
  Pushing refines appending: starting from an initialised list, pushing any sequence of up
  to \<open>2 ^ 62\<close> elements never overflows, keeps the list well-formed, and the list then holds
  exactly the pushed elements in order.
\<close>

theorem list_push_refines_append:
  assumes "length xs \<le> 2 ^ 62"
  shows "\<exists>l. push_all LIST_INIT xs = Some l \<and> clist_ok l \<and> items l = xs"
  unfolding push_all_pushes using assms by (rule cl.pushes_init)

theorem list_push_refines_append_witness:
  "length [1::nat, 2, 3] \<le> 2 ^ 62 \<and>
   (\<exists>l. push_all LIST_INIT [1::nat, 2, 3] = Some l \<and> clist_ok l \<and> items l = [1, 2, 3])"
  using list_push_refines_append [of "[1::nat, 2, 3]"] by simp

text \<open>
  Reserving room for \<open>want\<close> elements in a well-formed list always ends: the list keeps its
  elements, has room for \<open>want\<close>, and when it had to grow, the new capacity is the initial
  capacity or less than twice \<open>want\<close>.
\<close>

theorem list_reserve_amortised:
  assumes "clist_ok l" and "want \<le> 2 ^ 62"
  shows "\<exists>l'. list_reserve l want = Some l' \<and> clist_ok l' \<and> items l' = items l \<and>
           want \<le> l_capacity l' \<and>
           (l_capacity l' = l_capacity l \<or> l_capacity l' = LIST_INITIAL_CAPACITY \<or>
            l_capacity l' < 2 * want)"
proof -
  from list_reserve_ok [OF assms] obtain l' where l': "list_reserve l want = Some l'" "clist_ok l'"
      "items l' = items l" "want \<le> l_capacity l'" by blast
  have "l_capacity l' = l_capacity l \<or> l_capacity l' = LIST_INITIAL_CAPACITY \<or> l_capacity l' < 2 * want"
  proof (cases "l_capacity l < want")
    case True
    have "capacity_ok (l_capacity l)" using assms(1) by (simp add: clist_ok_def)
    from grow_capacity_Some [OF this True assms(2)] True l'(1) show ?thesis
      by (auto simp: list_reserve_def)
  next
    case False
    with l'(1) show ?thesis by (simp add: list_reserve_def)
  qed
  with l' show ?thesis by blast
qed

theorem list_reserve_amortised_witness:
  "clist_ok (LIST_INIT :: nat clist) \<and>
   (\<exists>l'. list_reserve (LIST_INIT :: nat clist) 9 = Some l' \<and> 9 \<le> l_capacity l' \<and> l_capacity l' < 18)"
proof -
  have "\<exists>l'. list_reserve (LIST_INIT :: nat clist) 9 = Some l' \<and> clist_ok l' \<and>
      items l' = items (LIST_INIT :: nat clist) \<and> 9 \<le> l_capacity l' \<and>
      (l_capacity l' = l_capacity (LIST_INIT :: nat clist) \<or> l_capacity l' = LIST_INITIAL_CAPACITY \<or>
       l_capacity l' < 2 * 9)"
    by (rule list_reserve_amortised) simp_all
  then show ?thesis by (auto simp: LIST_INITIAL_CAPACITY_def)
qed

end
