(* ===== verification/Fnv.thy ===== *)
theory Fnv
  imports Prelude
begin

unbundle bit_operations_syntax

text \<open>
  The string hashes of \<open>source/private/hash/fnv.c\<close>. Both walk the bytes of their input and
  update a \<open>uint64_t\<close>, so \<open>*\<close> wraps around; a byte is zero-extended before the exclusive or.
  The argument is the list of the \<open>len\<close> bytes that the C functions read.

  The lemmas show that one update step is injective in the running hash and in the byte, and
  hence that two inputs of the same length that differ in exactly one byte never collide.
\<close>

section \<open>The model\<close>

definition FNV_OFFSET_BASIS :: "64 word" where
  "FNV_OFFSET_BASIS = 0xCBF29CE484222325"

definition FNV_PRIME :: "64 word" where
  "FNV_PRIME = 0x100000001B3"

fun fnv1_loop :: "64 word \<Rightarrow> string \<Rightarrow> 64 word" where
  "fnv1_loop hash [] = hash"
| "fnv1_loop hash (c # data) = fnv1_loop ((hash * FNV_PRIME) XOR of_char c) data"

definition hash_fnv1 :: "string \<Rightarrow> 64 word" where
  "hash_fnv1 data = fnv1_loop FNV_OFFSET_BASIS data"

fun fnv1a_loop :: "64 word \<Rightarrow> string \<Rightarrow> 64 word" where
  "fnv1a_loop hash [] = hash"
| "fnv1a_loop hash (c # data) = fnv1a_loop ((hash XOR of_char c) * FNV_PRIME) data"

definition hash_fnv1a :: "string \<Rightarrow> 64 word" where
  "hash_fnv1a data = fnv1a_loop FNV_OFFSET_BASIS data"

section \<open>One step is injective\<close>

text \<open>The FNV prime is odd, hence invertible modulo \<open>2 ^ 64\<close>.\<close>

definition FNV_PRIME_INVERSE :: "64 word" where
  "FNV_PRIME_INVERSE = 0xCE965057AFF6957B"

lemma FNV_PRIME_inverse: "FNV_PRIME * FNV_PRIME_INVERSE = 1"
  by (simp add: FNV_PRIME_def FNV_PRIME_INVERSE_def)

lemma FNV_PRIME_cancel: "a * FNV_PRIME = b * FNV_PRIME \<longleftrightarrow> a = b"
proof
  assume "a * FNV_PRIME = b * FNV_PRIME"
  then have "a * FNV_PRIME * FNV_PRIME_INVERSE = b * FNV_PRIME * FNV_PRIME_INVERSE" by simp
  then show "a = b" by (simp add: mult.assoc FNV_PRIME_inverse)
qed simp

lemma word_xor_cancel_right: "(a :: 'a::len word) XOR c = b XOR c \<longleftrightarrow> a = b"
proof
  assume "a XOR c = b XOR c"
  then have "(a XOR c) XOR c = (b XOR c) XOR c" by simp
  then show "a = b" by (simp add: xor.assoc)
qed simp

lemma word_xor_cancel_left: "(c :: 'a::len word) XOR a = c XOR b \<longleftrightarrow> a = b"
  by (metis word_xor_cancel_right xor.commute)

lemma unat_of_char_word64: "unat (of_char c :: 64 word) = of_char c"
proof -
  have "of_char c < (18446744073709551616 :: nat)"
    by (rule order.strict_trans [OF nat_of_char_less_256]) simp
  then have "unat (of_nat (of_char c) :: 64 word) = of_char c" by (simp add: unat_of_nat)
  then show ?thesis by (simp only: of_nat_of_char)
qed

lemma of_char_word64_inject: "(of_char c :: 64 word) = of_char d \<longleftrightarrow> c = d"
  by (metis of_char_eq_iff unat_of_char_word64)

lemmas fnv_cancel =
  FNV_PRIME_cancel word_xor_cancel_right word_xor_cancel_left of_char_word64_inject

section \<open>The loops\<close>

lemma fnv1a_loop_append: "fnv1a_loop h (xs @ ys) = fnv1a_loop (fnv1a_loop h xs) ys"
  by (induction xs arbitrary: h) auto

lemma fnv1_loop_append: "fnv1_loop h (xs @ ys) = fnv1_loop (fnv1_loop h xs) ys"
  by (induction xs arbitrary: h) auto

lemma fnv1a_loop_inject: "fnv1a_loop g xs = fnv1a_loop h xs \<longleftrightarrow> g = h"
  by (induction xs arbitrary: g h) (auto simp: fnv_cancel)

lemma fnv1_loop_inject: "fnv1_loop g xs = fnv1_loop h xs \<longleftrightarrow> g = h"
  by (induction xs arbitrary: g h) (auto simp: fnv_cancel)

section \<open>Properties\<close>

text \<open>
  Two keys of the same length that differ in exactly one byte never get the same 64-bit
  hash, under either of the two functions.
\<close>

theorem fnv_single_byte_no_collision:
  assumes "c \<noteq> d"
  shows "hash_fnv1a (xs @ [c] @ ys) \<noteq> hash_fnv1a (xs @ [d] @ ys) \<and>
         hash_fnv1 (xs @ [c] @ ys) \<noteq> hash_fnv1 (xs @ [d] @ ys)"
  using assms
  by (simp_all add: hash_fnv1a_def hash_fnv1_def fnv1a_loop_append fnv1_loop_append
      fnv1a_loop_inject fnv1_loop_inject fnv_cancel)

theorem fnv_single_byte_no_collision_witness:
  "CHR ''a'' \<noteq> CHR ''b'' \<and> hash_fnv1a ''xay'' \<noteq> hash_fnv1a ''xby'' \<and>
   hash_fnv1 ''xay'' \<noteq> hash_fnv1 ''xby''"
  using fnv_single_byte_no_collision [of "CHR ''a''" "CHR ''b''" "''x''" "''y''"] by simp

text \<open>
  The functions are the published FNV-1 and FNV-1a: they agree with the reference test
  vectors for the empty string, "a" and "foobar".
\<close>

theorem fnv_reference_vectors:
  "hash_fnv1a [] = 0xcbf29ce484222325 \<and> hash_fnv1a ''a'' = 0xaf63dc4c8601ec8c \<and>
   hash_fnv1a ''foobar'' = 0x85944171f73967e8 \<and>
   hash_fnv1 ''a'' = 0xaf63bd4c8601b7be \<and> hash_fnv1 ''foobar'' = 0x340d8765a4dda9c2"
  by (simp add: hash_fnv1a_def hash_fnv1_def FNV_OFFSET_BASIS_def FNV_PRIME_def)

end
