(* ===== verification/Hash_Table.thy ===== *)
theory Hash_Table
  imports Prelude Growable_List Fnv Complex_Main "HOL-Library.Monad_Syntax"
begin

text \<open>
  The open-addressing hash table of \<open>source/private/hash/table.c\<close>, which holds the keywords
  of the scanner and the variables of every environment.

  A bucket is \<open>None\<close> while its \<open>key\<close> is \<open>NULL\<close>. Collisions are resolved by linear probing;
  the probe loops have no bound of their own, so they are \<open>partial_function\<close>s whose value
  \<open>None\<close> is "does not return" (a full table without the key, or the division by a zero
  capacity). Keys are C strings: \<open>hash_table_insert\<close> hashes and stores the bytes up to the
  first NUL. \<open>hash_table_try_get\<close> returns a pointer into the bucket array, here the index.

  The invariant \<open>ht_inv\<close> says that the load stays below the capacity, that the counter is
  right and that the probe path of every stored key is unbroken. Under it every loop ends,
  insertion adds one binding to the multiset \<open>entries\<close> of bindings, and a lookup finds a key
  exactly when it is bound. An insertion does not look for an equal key: a table can hold
  several bindings of one key, which is why the abstract state is a multiset. The locale
  \<open>dictionary\<close> is the contract the scanner and the environments use.
\<close>

section \<open>The model\<close>

type_synonym 'v hash_bucket = "(string \<times> 'v) option"

record 'v hash_table =
  ht_data :: "'v hash_bucket list"
  ht_function :: "string \<Rightarrow> 64 word"
  ht_len :: nat
  ht_cap :: nat

definition INITIAL_CAPACITY :: nat where
  "INITIAL_CAPACITY = 8"

text \<open>
  \<open>(double)len / (double)cap > MAX_LOAD\<close> with \<open>MAX_LOAD = 0.75\<close>. A capacity is a power of
  two, so the quotient of two counts below \<open>2 ^ 53\<close> is exact in a \<open>double\<close>.
\<close>

definition over_max_load :: "nat \<Rightarrow> nat \<Rightarrow> bool" where
  "over_max_load len cap \<longleftrightarrow> 3 * cap < 4 * len"

definition hash_table_new :: "(string \<Rightarrow> 64 word) \<Rightarrow> 'v hash_table" where
  "hash_table_new f = \<lparr>ht_data = [], ht_function = f, ht_len = 0, ht_cap = 0\<rparr>"

text \<open>The loop of \<open>insert_raw\<close>: the first bucket from \<open>hash\<close> on that is free.\<close>

partial_function (option) probe_free :: "'v hash_bucket list \<Rightarrow> nat \<Rightarrow> nat \<Rightarrow> nat option" where
  "probe_free buckets cap hash =
     (case buckets ! hash of
        None \<Rightarrow> Some hash
      | Some _ \<Rightarrow> probe_free buckets cap ((hash + 1) mod cap))"

definition insert_raw ::
  "'v hash_bucket list \<Rightarrow> nat \<Rightarrow> 64 word \<Rightarrow> string \<Rightarrow> 'v \<Rightarrow> 'v hash_bucket list option" where
  "insert_raw buckets cap hash key value =
     (if cap = 0 then None
      else do {
        i \<leftarrow> probe_free buckets cap (unat hash mod cap);
        Some (buckets[i := Some (c_str key, value)])
      })"

fun reinsert ::
  "(string \<Rightarrow> 64 word) \<Rightarrow> nat \<Rightarrow> 'v hash_bucket list \<Rightarrow> 'v hash_bucket list \<Rightarrow> 'v hash_bucket list option"
where
  "reinsert f cap [] newdata = Some newdata"
| "reinsert f cap (None # olddata) newdata = reinsert f cap olddata newdata"
| "reinsert f cap (Some (key, value) # olddata) newdata = do {
     newdata' \<leftarrow> insert_raw newdata cap (f key) key value;
     reinsert f cap olddata newdata'
   }"

definition rehash :: "'v hash_table \<Rightarrow> 'v hash_table option" where
  "rehash table =
     (let newcap = (if ht_cap table = 0 then INITIAL_CAPACITY else ht_cap table * 2)
      in do {
        newdata \<leftarrow> reinsert (ht_function table) newcap (ht_data table) (replicate newcap None);
        Some (table\<lparr>ht_cap := newcap, ht_data := newdata\<rparr>)
      })"

definition hash_table_insert :: "'v hash_table \<Rightarrow> string \<Rightarrow> 'v \<Rightarrow> 'v hash_table option" where
  "hash_table_insert table key value = do {
     table \<leftarrow> (if ht_len table = 0 \<or> over_max_load (ht_len table) (ht_cap table)
               then rehash table else Some table);
     buckets \<leftarrow> insert_raw (ht_data table) (ht_cap table) (ht_function table (c_str key)) key value;
     Some (table\<lparr>ht_data := buckets, ht_len := ht_len table + 1\<rparr>)
   }"

text \<open>The loop of \<open>hash_table_try_get\<close> over the \<open>key_len\<close> bytes at \<open>key_begin\<close>.\<close>

definition bucket_has_key :: "string \<Rightarrow> string \<Rightarrow> bool" where
  "bucket_has_key stored key \<longleftrightarrow> length key = length stored \<and> strncmp_eq stored key (length key)"

partial_function (option) probe_key ::
  "'v hash_bucket list \<Rightarrow> nat \<Rightarrow> string \<Rightarrow> nat \<Rightarrow> nat option option" where
  "probe_key buckets cap key hash =
     (case buckets ! hash of
        None \<Rightarrow> Some None
      | Some (stored, _) \<Rightarrow>
          (if bucket_has_key stored key then Some (Some hash)
           else probe_key buckets cap key ((hash + 1) mod cap)))"

declare probe_free.simps [code] probe_key.simps [code]

definition hash_table_try_get :: "'v hash_table \<Rightarrow> string \<Rightarrow> nat option option" where
  "hash_table_try_get table key =
     (if ht_len table = 0 then Some None
      else if ht_cap table = 0 then None
      else probe_key (ht_data table) (ht_cap table) key (unat (ht_function table key) mod ht_cap table))"

definition hash_table_contains :: "'v hash_table \<Rightarrow> string \<Rightarrow> bool option" where
  "hash_table_contains table key = map_option (\<lambda>r. r \<noteq> None) (hash_table_try_get table key)"

text \<open>Reading and writing through the pointer that \<open>hash_table_try_get\<close> returns.\<close>

definition slot_value :: "'v hash_table \<Rightarrow> nat \<Rightarrow> 'v option" where
  "slot_value table i =
     (if i < length (ht_data table) then map_option snd (ht_data table ! i) else None)"

definition slot_store :: "'v hash_table \<Rightarrow> nat \<Rightarrow> 'v \<Rightarrow> 'v hash_table" where
  "slot_store table i v =
     table\<lparr>ht_data := (ht_data table)[i := map_option (\<lambda>(k, _). (k, v)) (ht_data table ! i)]\<rparr>"

definition hash_table_lookup :: "'v hash_table \<Rightarrow> string \<Rightarrow> 'v option option" where
  "hash_table_lookup table key =
     map_option (\<lambda>r. case r of None \<Rightarrow> None | Some i \<Rightarrow> slot_value table i) (hash_table_try_get table key)"

section \<open>Invariant and abstraction\<close>

definition occupied :: "'v hash_bucket list \<Rightarrow> nat" where
  "occupied buckets = length (filter (\<lambda>b. b \<noteq> None) buckets)"

text \<open>The bucket \<open>d\<close> steps after \<open>h\<close>, and an unbroken probe path from \<open>h\<close> to it.\<close>

abbreviation bucket_at :: "'v hash_bucket list \<Rightarrow> nat \<Rightarrow> nat \<Rightarrow> nat \<Rightarrow> 'v hash_bucket" where
  "bucket_at buckets cap h d \<equiv> buckets ! ((h + d) mod cap)"

definition path_full :: "'v hash_bucket list \<Rightarrow> nat \<Rightarrow> nat \<Rightarrow> nat \<Rightarrow> bool" where
  "path_full buckets cap h d \<longleftrightarrow> (\<forall>j < d. bucket_at buckets cap h j \<noteq> None)"

definition chained :: "(string \<Rightarrow> 64 word) \<Rightarrow> 'v hash_bucket list \<Rightarrow> nat \<Rightarrow> bool" where
  "chained f buckets cap \<longleftrightarrow>
     (\<forall>i < cap. \<forall>k v. buckets ! i = Some (k, v) \<longrightarrow>
        no_nul k \<and> (\<exists>d. i = (unat (f k) mod cap + d) mod cap \<and> path_full buckets cap (unat (f k) mod cap) d))"

definition buckets_ok :: "(string \<Rightarrow> 64 word) \<Rightarrow> 'v hash_bucket list \<Rightarrow> nat \<Rightarrow> bool" where
  "buckets_ok f buckets cap \<longleftrightarrow> length buckets = cap \<and> chained f buckets cap"

definition ht_inv :: "'v hash_table \<Rightarrow> bool" where
  "ht_inv t \<longleftrightarrow>
     buckets_ok (ht_function t) (ht_data t) (ht_cap t) \<and>
     ht_len t = occupied (ht_data t) \<and>
     (ht_len t = 0 \<longleftrightarrow> ht_cap t = 0) \<and>
     (ht_cap t = 0 \<or> (\<exists>k. ht_cap t = INITIAL_CAPACITY * 2 ^ k)) \<and>
     4 * ht_len t \<le> 3 * ht_cap t + 4"

definition bucket_entries :: "'v hash_bucket list \<Rightarrow> (string \<times> 'v) multiset" where
  "bucket_entries buckets = mset (List.map_filter id buckets)"

definition entries :: "'v hash_table \<Rightarrow> (string \<times> 'v) multiset" where
  "entries t = bucket_entries (ht_data t)"

definition bound_keys :: "'v hash_table \<Rightarrow> string set" where
  "bound_keys t = fst ` set_mset (entries t)"

lemma over_max_load_real:
  "0 < cap \<Longrightarrow> over_max_load len cap \<longleftrightarrow> 0.75 < real len / real cap"
  by (auto simp: over_max_load_def field_simps)

section \<open>The probe loops\<close>

lemma probe_free_at:
  assumes "h < cap" and "path_full b cap h d" and "bucket_at b cap h d = None"
  shows "probe_free b cap h = Some ((h + d) mod cap)"
  using assms
proof (induction d arbitrary: h)
  case 0
  then show ?case by (simp add: probe_free.simps)
next
  case (Suc d)
  from Suc.prems(2) have "bucket_at b cap h 0 \<noteq> None" by (auto simp: path_full_def)
  with Suc.prems(1) have "probe_free b cap h = probe_free b cap ((h + 1) mod cap)"
    by (subst probe_free.simps) (auto split: option.split)
  also have "\<dots> = Some (((h + 1) mod cap + d) mod cap)"
  proof (rule Suc.IH)
    show "(h + 1) mod cap < cap" using Suc.prems(1) by simp
    have eq: "((h + 1) mod cap + j) mod cap = (h + Suc j) mod cap" for j
      by (simp add: mod_simps)
    show "path_full b cap ((h + 1) mod cap) d"
      using Suc.prems(2) unfolding path_full_def eq by auto
    show "bucket_at b cap ((h + 1) mod cap) d = None"
      using Suc.prems(3) unfolding eq by simp
  qed
  also have "((h + 1) mod cap + d) mod cap = (h + Suc d) mod cap" by (simp add: mod_simps)
  finally show ?case .
qed

lemma probe_key_step:
  assumes "h < cap" and "bucket_at b cap h 0 = Some (k, v)" and "\<not> bucket_has_key k key"
  shows "probe_key b cap key h = probe_key b cap key ((h + 1) mod cap)"
  using assms by (subst probe_key.simps) auto

lemma probe_key_at:
  assumes "h < cap" and "path_full b cap h d" and "bucket_at b cap h d = None"
  shows "(\<exists>j < d. \<exists>k v. bucket_at b cap h j = Some (k, v) \<and> bucket_has_key k key \<and>
            probe_key b cap key h = Some (Some ((h + j) mod cap))) \<or>
         ((\<forall>j < d. \<forall>k v. bucket_at b cap h j = Some (k, v) \<longrightarrow> \<not> bucket_has_key k key) \<and>
            probe_key b cap key h = Some None)"
  using assms
proof (induction d arbitrary: h)
  case 0
  then show ?case by (auto simp: probe_key.simps)
next
  case (Suc d)
  let ?h = "(h + 1) mod cap"
  have eq: "(?h + j) mod cap = (h + Suc j) mod cap" for j by (simp add: mod_simps)
  from Suc.prems(2) obtain k v where kv: "bucket_at b cap h 0 = Some (k, v)"
    by (auto simp: path_full_def)
  show ?case
  proof (cases "bucket_has_key k key")
    case True
    with kv Suc.prems(1) have "probe_key b cap key h = Some (Some ((h + 0) mod cap))"
      by (subst probe_key.simps) simp
    with kv True show ?thesis by blast
  next
    case False
    have IH: "(\<exists>j < d. \<exists>k v. bucket_at b cap ?h j = Some (k, v) \<and> bucket_has_key k key \<and>
            probe_key b cap key ?h = Some (Some ((?h + j) mod cap))) \<or>
         ((\<forall>j < d. \<forall>k v. bucket_at b cap ?h j = Some (k, v) \<longrightarrow> \<not> bucket_has_key k key) \<and>
            probe_key b cap key ?h = Some None)"
    proof (rule Suc.IH)
      show "?h < cap" using Suc.prems(1) by simp
      show "path_full b cap ?h d" using Suc.prems(2) unfolding path_full_def eq by auto
      show "bucket_at b cap ?h d = None" using Suc.prems(3) unfolding eq by simp
    qed
    have step: "probe_key b cap key h = probe_key b cap key ?h"
      using Suc.prems(1) kv False by (rule probe_key_step)
    from IH show ?thesis
    proof
      assume "\<exists>j < d. \<exists>k v. bucket_at b cap ?h j = Some (k, v) \<and> bucket_has_key k key \<and>
            probe_key b cap key ?h = Some (Some ((?h + j) mod cap))"
      then show ?thesis unfolding eq step by (metis Suc_less_eq)
    next
      assume none: "(\<forall>j < d. \<forall>k v. bucket_at b cap ?h j = Some (k, v) \<longrightarrow> \<not> bucket_has_key k key) \<and>
            probe_key b cap key ?h = Some None"
      have "\<not> bucket_has_key k' key" if "j < Suc d" "bucket_at b cap h j = Some (k', v')" for j k' v'
        using that none kv False unfolding eq by (cases j) auto
      with none step show ?thesis by metis
    qed
  qed
qed

lemma free_bucket_exists:
  assumes "occupied b < length b"
  shows "\<exists>j < length b. b ! j = None"
proof (rule ccontr)
  assume "\<not> (\<exists>j < length b. b ! j = None)"
  then have "filter (\<lambda>x. x \<noteq> None) b = b" by (auto simp: filter_id_conv in_set_conv_nth)
  with assms show False by (simp add: occupied_def)
qed

lemma first_free:
  assumes "h < cap" and "length b = cap" and "occupied b < cap"
  obtains d where "path_full b cap h d" and "bucket_at b cap h d = None"
proof -
  from assms obtain j where j: "j < cap" "b ! j = None" using free_bucket_exists by metis
  have "(h + (j + cap - h)) mod cap = j" using j(1) assms(1) by simp
  with j(2) have ex: "bucket_at b cap h (j + cap - h) = None" by simp
  let ?d = "LEAST d. bucket_at b cap h d = None"
  from ex have "bucket_at b cap h ?d = None" by (rule LeastI)
  moreover have "path_full b cap h ?d"
    unfolding path_full_def using not_less_Least by blast
  ultimately show thesis using that by blast
qed

section \<open>Insertion into the buckets\<close>

lemma occupied_update:
  assumes "i < length b" and "b ! i = None"
  shows "occupied (b[i := Some x]) = Suc (occupied b)"
  using assms
proof (induction b arbitrary: i)
  case (Cons y b)
  then show ?case by (cases i) (auto simp: occupied_def)
qed simp

lemma path_full_update: "path_full b cap h d \<Longrightarrow> path_full (b[i := Some x]) cap h d"
  by (cases "i < length b") (auto simp: path_full_def nth_list_update list_update_beyond)

lemma chained_update:
  assumes "chained f b cap" and "length b = cap" and "no_nul k"
    and "i = (unat (f k) mod cap + d) mod cap" and "path_full b cap (unat (f k) mod cap) d"
  shows "chained f (b[i := Some (k, v)]) cap"
  unfolding chained_def
proof (intro allI impI)
  fix j k' v'
  assume j: "j < cap" and at: "b[i := Some (k, v)] ! j = Some (k', v')"
  show "no_nul k' \<and> (\<exists>d. j = (unat (f k') mod cap + d) mod cap \<and>
          path_full (b[i := Some (k, v)]) cap (unat (f k') mod cap) d)"
  proof (cases "j = i")
    case True
    with at j assms(2) have "k' = k" by simp
    with True assms(3,4,5) show ?thesis by (metis path_full_update)
  next
    case False
    with at have "b ! j = Some (k', v')" by simp
    with assms(1) j show ?thesis unfolding chained_def by (metis path_full_update)
  qed
qed

lemma insert_raw_ok:
  assumes "buckets_ok f b cap" and "occupied b < cap"
  shows "\<exists>b'. insert_raw b cap (f (c_str k)) k v = Some b' \<and> buckets_ok f b' cap \<and>
           occupied b' = Suc (occupied b) \<and> bucket_entries b' = add_mset (c_str k, v) (bucket_entries b)"
proof -
  let ?h = "unat (f (c_str k)) mod cap"
  from assms have h: "?h < cap" and len: "length b = cap" by (auto simp: buckets_ok_def)
  from first_free [OF h len assms(2)] obtain d
    where d: "path_full b cap ?h d" "bucket_at b cap ?h d = None" .
  let ?i = "(?h + d) mod cap"
  have i: "?i < length b" using h len by simp
  have "insert_raw b cap (f (c_str k)) k v = Some (b[?i := Some (c_str k, v)])"
    using h by (simp add: insert_raw_def probe_free_at [OF h d])
  moreover have "buckets_ok f (b[?i := Some (c_str k, v)]) cap"
    using assms(1) chained_update [of f b cap "c_str k" ?i d v] d(1) by (simp add: buckets_ok_def)
  moreover have "bucket_entries (b[?i := Some (c_str k, v)]) = add_mset (c_str k, v) (bucket_entries b)"
    unfolding bucket_entries_def using i d(2) by (rule mset_map_filter_update)
  ultimately show ?thesis using occupied_update [OF i d(2)] by blast
qed

lemma occupied_Cons: "occupied (x # b) = (if x = None then occupied b else Suc (occupied b))"
  by (simp add: occupied_def)

lemma bucket_entries_Cons:
  "bucket_entries (None # b) = bucket_entries b"
  "bucket_entries (Some kv # b) = add_mset kv (bucket_entries b)"
  by (simp_all add: bucket_entries_def)

lemma reinsert_ok:
  assumes "buckets_ok f new cap" and "occupied new + occupied old < cap"
    and "\<And>k v. Some (k, v) \<in> set old \<Longrightarrow> no_nul k"
  shows "\<exists>b'. reinsert f cap old new = Some b' \<and> buckets_ok f b' cap \<and>
           occupied b' = occupied new + occupied old \<and>
           bucket_entries b' = bucket_entries new + bucket_entries old"
  using assms
proof (induction f cap old new rule: reinsert.induct)
  case (1 f cap new)
  then show ?case by (simp add: occupied_def bucket_entries_def)
next
  case (2 f cap old new)
  then show ?case by (simp add: occupied_Cons bucket_entries_Cons)
next
  case (3 f cap k v old new)
  from "3.prems"(3) [of k v] have k: "c_str k = k" by simp
  from insert_raw_ok [OF "3.prems"(1), of k v] "3.prems"(2) k obtain b where
    b: "insert_raw new cap (f k) k v = Some b" "buckets_ok f b cap"
       "occupied b = Suc (occupied new)" "bucket_entries b = add_mset (k, v) (bucket_entries new)"
    by (auto simp: occupied_Cons)
  with "3.IH" [OF b(1,2)] "3.prems"(2,3) show ?case
    by (auto simp: occupied_Cons bucket_entries_Cons)
qed

section \<open>The operations keep the invariant\<close>

lemma ht_inv_new: "ht_inv (hash_table_new f)"
  by (simp add: ht_inv_def hash_table_new_def buckets_ok_def chained_def occupied_def)

lemma entries_new: "entries (hash_table_new f) = {#}"
  by (simp add: entries_def bucket_entries_def hash_table_new_def)

lemma ht_inv_cap: "ht_inv t \<Longrightarrow> ht_cap t \<noteq> 0 \<Longrightarrow> 8 \<le> ht_cap t"
  by (auto simp: ht_inv_def INITIAL_CAPACITY_def)

lemma ht_inv_free: "ht_inv t \<Longrightarrow> ht_cap t \<noteq> 0 \<Longrightarrow> occupied (ht_data t) < ht_cap t"
  using ht_inv_cap [of t] by (auto simp: ht_inv_def)

lemma ht_inv_no_nul: "ht_inv t \<Longrightarrow> Some (k, v) \<in> set (ht_data t) \<Longrightarrow> no_nul k"
  unfolding ht_inv_def buckets_ok_def chained_def by (metis in_set_conv_nth)

lemma buckets_ok_empty: "buckets_ok f (replicate n None) n" "occupied (replicate n None) = 0"
    "bucket_entries (replicate n None) = {#}"
  by (auto simp: buckets_ok_def chained_def occupied_def bucket_entries_def List.map_filter_def)

text \<open>What \<open>hash_table_insert\<close> works on after its load test.\<close>

definition room_for_one :: "'v hash_table \<Rightarrow> 'v hash_table \<Rightarrow> bool" where
  "room_for_one t t' \<longleftrightarrow>
     buckets_ok (ht_function t') (ht_data t') (ht_cap t') \<and> occupied (ht_data t') < ht_cap t' \<and>
     ht_len t' = occupied (ht_data t') \<and> 4 * ht_len t' \<le> 3 * ht_cap t' \<and>
     (\<exists>k. ht_cap t' = INITIAL_CAPACITY * 2 ^ k) \<and>
     entries t' = entries t \<and> ht_function t' = ht_function t"

lemma rehash_ok:
  assumes "ht_inv t" and "ht_len t = 0 \<or> over_max_load (ht_len t) (ht_cap t)"
  shows "\<exists>t'. rehash t = Some t' \<and> room_for_one t t'"
proof -
  let ?n = "if ht_cap t = 0 then INITIAL_CAPACITY else ht_cap t * 2"
  have fits: "occupied (ht_data t) < ?n" "4 * ht_len t \<le> 3 * ?n"
    using assms(1) ht_inv_cap [of t] by (auto simp: ht_inv_def INITIAL_CAPACITY_def)
  have "occupied (replicate ?n (None :: 'a hash_bucket)) + occupied (ht_data t) < ?n"
    using fits(1) by (simp only: buckets_ok_empty)
  then obtain b where b: "reinsert (ht_function t) ?n (ht_data t) (replicate ?n None) = Some b"
      "buckets_ok (ht_function t) b ?n" "occupied b = occupied (ht_data t)"
      "bucket_entries b = bucket_entries (ht_data t)"
    using reinsert_ok [of "ht_function t" "replicate ?n None" ?n "ht_data t", OF buckets_ok_empty(1)]
      ht_inv_no_nul [OF assms(1)]
    by (auto simp: buckets_ok_empty)
  have pow: "\<exists>k. ?n = INITIAL_CAPACITY * 2 ^ k"
  proof (cases "ht_cap t = 0")
    case True
    then show ?thesis by (intro exI [of _ 0]) simp
  next
    case False
    with assms(1) obtain k where "ht_cap t = INITIAL_CAPACITY * 2 ^ k" by (auto simp: ht_inv_def)
    with False show ?thesis by (intro exI [of _ "Suc k"]) simp
  qed
  have "rehash t = Some (t\<lparr>ht_cap := ?n, ht_data := b\<rparr>)"
    using b(1) by (simp add: rehash_def)
  moreover have "room_for_one t (t\<lparr>ht_cap := ?n, ht_data := b\<rparr>)"
    using b fits pow assms(1) by (simp add: room_for_one_def entries_def ht_inv_def)
  ultimately show ?thesis by blast
qed

lemma insert_into_room:
  assumes "room_for_one t t'"
  shows "\<exists>b. insert_raw (ht_data t') (ht_cap t') (ht_function t' (c_str k)) k v = Some b \<and>
           ht_inv (t'\<lparr>ht_data := b, ht_len := ht_len t' + 1\<rparr>) \<and>
           bucket_entries b = add_mset (c_str k, v) (entries t)"
proof -
  from assms obtain b where b: "insert_raw (ht_data t') (ht_cap t') (ht_function t' (c_str k)) k v = Some b"
      "buckets_ok (ht_function t') b (ht_cap t')" "occupied b = Suc (occupied (ht_data t'))"
      "bucket_entries b = add_mset (c_str k, v) (bucket_entries (ht_data t'))"
    using insert_raw_ok [of "ht_function t'" "ht_data t'" "ht_cap t'" k v]
    by (auto simp: room_for_one_def)
  moreover have "0 < ht_cap t'" using assms by (auto simp: room_for_one_def)
  ultimately show ?thesis
    using assms by (auto simp: room_for_one_def ht_inv_def entries_def)
qed

lemma hash_table_insert_ok:
  assumes "ht_inv t"
  shows "\<exists>t'. hash_table_insert t k v = Some t' \<and> ht_inv t' \<and>
           entries t' = add_mset (c_str k, v) (entries t) \<and> ht_function t' = ht_function t"
proof -
  let ?grown = "if ht_len t = 0 \<or> over_max_load (ht_len t) (ht_cap t) then rehash t else Some t"
  have "\<exists>t'. ?grown = Some t' \<and> room_for_one t t'"
  proof (cases "ht_len t = 0 \<or> over_max_load (ht_len t) (ht_cap t)")
    case True
    with rehash_ok [OF assms] show ?thesis by simp
  next
    case False
    with assms ht_inv_free [OF assms] show ?thesis
      by (auto simp: room_for_one_def ht_inv_def over_max_load_def)
  qed
  then obtain t' where t': "?grown = Some t'" "room_for_one t t'" by blast
  from insert_into_room [OF t'(2), of k v] obtain b where
    b: "insert_raw (ht_data t') (ht_cap t') (ht_function t' (c_str k)) k v = Some b"
       "ht_inv (t'\<lparr>ht_data := b, ht_len := ht_len t' + 1\<rparr>)"
       "bucket_entries b = add_mset (c_str k, v) (entries t)" by blast
  have "hash_table_insert t k v = Some (t'\<lparr>ht_data := b, ht_len := ht_len t' + 1\<rparr>)"
    unfolding hash_table_insert_def t'(1) by (simp add: b(1))
  with b(2,3) t'(2) show ?thesis by (auto simp: entries_def room_for_one_def)
qed

section \<open>Lookup\<close>

lemma in_bucket_entries:
  "kv \<in># bucket_entries b \<longleftrightarrow> (\<exists>i < length b. b ! i = Some kv)"
proof -
  have "kv \<in> set (List.map_filter id b) \<longleftrightarrow> Some kv \<in> set b"
    by (induction b) (auto split: option.splits)
  then show ?thesis by (auto simp: bucket_entries_def in_set_conv_nth)
qed

lemma bound_keys_iff:
  "k \<in> bound_keys t \<longleftrightarrow> (\<exists>i v. i < length (ht_data t) \<and> ht_data t ! i = Some (k, v))"
  by (force simp: bound_keys_def entries_def in_bucket_entries)

lemma bucket_has_key_iff: "no_nul k \<Longrightarrow> bucket_has_key k key \<longleftrightarrow> k = key"
  unfolding bucket_has_key_def by (metis strncmp_eq_iff)

lemma chained_before_free:
  assumes "buckets_ok f b cap" and "i < cap" and "b ! i = Some (k, v)"
    and "bucket_at b cap (unat (f k) mod cap) d = None"
  shows "\<exists>j < d. bucket_at b cap (unat (f k) mod cap) j = Some (k, v)"
proof -
  from assms(1,2,3) obtain j where j: "i = (unat (f k) mod cap + j) mod cap"
      "path_full b cap (unat (f k) mod cap) j"
    unfolding buckets_ok_def chained_def by metis
  have at: "bucket_at b cap (unat (f k) mod cap) j = Some (k, v)"
    using j(1) assms(3) by simp
  have "j < d"
  proof (rule ccontr)
    assume "\<not> j < d"
    then consider "d < j" | "d = j" by linarith
    then show False
      using j(2) at assms(4) by cases (auto simp: path_full_def)
  qed
  with at show ?thesis by blast
qed

lemma hash_table_try_get_ok:
  assumes "ht_inv t"
  shows "\<exists>r. hash_table_try_get t key = Some r \<and>
           (case r of None \<Rightarrow> key \<notin> bound_keys t
            | Some i \<Rightarrow> i < length (ht_data t) \<and> (\<exists>v. ht_data t ! i = Some (key, v)))"
proof (cases "ht_cap t = 0")
  case True
  with assms have "ht_len t = 0" "ht_data t = []" by (auto simp: ht_inv_def buckets_ok_def)
  then show ?thesis by (simp add: hash_table_try_get_def bound_keys_iff)
next
  case False
  let ?b = "ht_data t" and ?cap = "ht_cap t" and ?h = "unat (ht_function t key) mod ht_cap t"
  from assms False have len: "ht_len t \<noteq> 0" and lb: "length ?b = ?cap"
    and bok: "buckets_ok (ht_function t) ?b ?cap" by (auto simp: ht_inv_def buckets_ok_def)
  have h: "?h < ?cap" using False by simp
  have get: "hash_table_try_get t key = probe_key ?b ?cap key ?h"
    using False len by (simp add: hash_table_try_get_def)
  obtain d where d: "path_full ?b ?cap ?h d" "bucket_at ?b ?cap ?h d = None"
    using first_free [OF h lb ht_inv_free [OF assms False]] .
  have nn: "no_nul k" if "bucket_at ?b ?cap ?h j = Some (k, v)" for j k v
    using that ht_inv_no_nul [OF assms, of k v] False lb by (metis mod_less_divisor not_gr_zero nth_mem)
  from probe_key_at [OF h d, of key] show ?thesis
  proof
    assume "\<exists>j < d. \<exists>k v. bucket_at ?b ?cap ?h j = Some (k, v) \<and> bucket_has_key k key \<and>
              probe_key ?b ?cap key ?h = Some (Some ((?h + j) mod ?cap))"
    then obtain j k v where j: "bucket_at ?b ?cap ?h j = Some (k, v)" "bucket_has_key k key"
        "probe_key ?b ?cap key ?h = Some (Some ((?h + j) mod ?cap))" by blast
    from nn [OF j(1)] j(2) have "k = key" by (simp add: bucket_has_key_iff)
    with j get lb False show ?thesis by auto
  next
    assume none: "(\<forall>j < d. \<forall>k v. bucket_at ?b ?cap ?h j = Some (k, v) \<longrightarrow> \<not> bucket_has_key k key) \<and>
              probe_key ?b ?cap key ?h = Some None"
    have "key \<notin> bound_keys t"
    proof
      assume "key \<in> bound_keys t"
      then obtain i v where i: "i < ?cap" "?b ! i = Some (key, v)" by (auto simp: bound_keys_iff lb)
      from chained_before_free [OF bok i d(2)] obtain j where "j < d" "bucket_at ?b ?cap ?h j = Some (key, v)"
        by blast
      with none nn show False by (metis bucket_has_key_iff)
    qed
    with none get show ?thesis by auto
  qed
qed

lemma hash_table_lookup_ok:
  assumes "ht_inv t"
  shows "\<exists>r. hash_table_lookup t key = Some r \<and>
           (case r of None \<Rightarrow> key \<notin> bound_keys t | Some v \<Rightarrow> (key, v) \<in># entries t)"
proof -
  from hash_table_try_get_ok [OF assms, of key] obtain r where r: "hash_table_try_get t key = Some r"
      "case r of None \<Rightarrow> key \<notin> bound_keys t
       | Some i \<Rightarrow> i < length (ht_data t) \<and> (\<exists>v. ht_data t ! i = Some (key, v))" by blast
  then show ?thesis
    by (cases r) (auto simp: hash_table_lookup_def slot_value_def entries_def in_bucket_entries)
qed

section \<open>Storing through a slot\<close>

lemma occupied_store:
  assumes "i < length b" and "b ! i = Some y"
  shows "occupied (b[i := Some x]) = occupied b"
  using assms
proof (induction b arbitrary: i)
  case (Cons z b)
  then show ?case by (cases i) (auto simp: occupied_def)
qed simp

lemma chained_store:
  assumes "chained f b cap" and "b ! i = Some (k, w)" and "i < cap" and "length b = cap"
  shows "chained f (b[i := Some (k, v)]) cap"
proof -
  from assms obtain d where "no_nul k" "i = (unat (f k) mod cap + d) mod cap"
      "path_full b cap (unat (f k) mod cap) d"
    unfolding chained_def by blast
  with assms(1,4) show ?thesis by (intro chained_update)
qed

lemma bucket_entries_store:
  assumes "i < length b" and "b ! i = Some kv"
  shows "bucket_entries (b[i := Some kv']) = add_mset kv' (bucket_entries b - {#kv#})"
  using assms
proof (induction b arbitrary: i)
  case (Cons x b)
  show ?case
  proof (cases i)
    case 0
    with Cons.prems show ?thesis by (simp add: bucket_entries_Cons)
  next
    case (Suc j)
    with Cons.prems have "kv \<in># bucket_entries b" by (auto simp: in_bucket_entries)
    with Suc Cons show ?thesis
      by (cases x) (auto simp: bucket_entries_Cons multiset_eq_iff)
  qed
qed simp

lemma slot_store_ok:
  assumes "ht_inv t" and "i < length (ht_data t)" and "ht_data t ! i = Some (k, w)"
  shows "ht_inv (slot_store t i v)" and
    "entries (slot_store t i v) = add_mset (k, v) (entries t - {#(k, w)#})" and
    "ht_function (slot_store t i v) = ht_function t"
proof -
  let ?b = "(ht_data t)[i := Some (k, v)]"
  have eq: "slot_store t i v = t\<lparr>ht_data := ?b\<rparr>" using assms(3) by (simp add: slot_store_def)
  show "entries (slot_store t i v) = add_mset (k, v) (entries t - {#(k, w)#})"
    using bucket_entries_store [OF assms(2,3)] by (simp add: eq entries_def)
  have len: "length (ht_data t) = ht_cap t" using assms(1) by (auto simp: ht_inv_def buckets_ok_def)
  then have "chained (ht_function t) ?b (ht_cap t)"
    using assms by (intro chained_store) (auto simp: ht_inv_def buckets_ok_def)
  with assms(1) len occupied_store [OF assms(2,3)] show "ht_inv (slot_store t i v)"
    unfolding eq by (auto simp: ht_inv_def buckets_ok_def)
  show "ht_function (slot_store t i v) = ht_function t" by (simp add: eq)
qed

section \<open>The dictionary contract\<close>

text \<open>
  What the keyword table and the environments rely on. A dictionary holds a multiset of
  bindings; inserting adds one, and looking a key up yields one of its bindings, or nothing
  if it has none. Both always return.
\<close>

locale dictionary =
  fixes empty :: 't
    and add :: "'t \<Rightarrow> string \<Rightarrow> 'v \<Rightarrow> 't option"
    and lookup :: "'t \<Rightarrow> string \<Rightarrow> 'v option option"
    and bindings :: "'t \<Rightarrow> (string \<times> 'v) multiset"
    and invar :: "'t \<Rightarrow> bool"
  assumes empty_ok: "invar empty" and bindings_empty: "bindings empty = {#}"
    and insert_ok: "invar t \<Longrightarrow>
      \<exists>t'. add t k v = Some t' \<and> invar t' \<and> bindings t' = add_mset (c_str k, v) (bindings t)"
    and lookup_ok: "invar t \<Longrightarrow>
      \<exists>r. lookup t k = Some r \<and>
        (case r of None \<Rightarrow> k \<notin> fst ` set_mset (bindings t) | Some v \<Rightarrow> (k, v) \<in># bindings t)"
begin

text \<open>A key with a single binding is looked up exactly.\<close>

lemma lookup_unique:
  assumes "invar t" and "(k, v) \<in># bindings t" and "\<And>w. (k, w) \<in># bindings t \<Longrightarrow> w = v"
  shows "lookup t k = Some (Some v)"
proof -
  from lookup_ok [OF assms(1), of k] obtain r where r: "lookup t k = Some r"
      "case r of None \<Rightarrow> k \<notin> fst ` set_mset (bindings t) | Some v \<Rightarrow> (k, v) \<in># bindings t" by blast
  have "r \<noteq> None"
  proof
    assume "r = None"
    with r(2) have "k \<notin> fst ` set_mset (bindings t)" by simp
    with assms(2) show False by force
  qed
  with r assms(3) show ?thesis by auto
qed

lemma lookup_absent:
  assumes "invar t" and "k \<notin> fst ` set_mset (bindings t)"
  shows "lookup t k = Some None"
proof -
  from lookup_ok [OF assms(1), of k] obtain r where r: "lookup t k = Some r"
      "case r of None \<Rightarrow> k \<notin> fst ` set_mset (bindings t) | Some v \<Rightarrow> (k, v) \<in># bindings t" by blast
  with assms(2) show ?thesis by (cases r) force+
qed

lemma lookup_insert_new:
  assumes "invar t" and "no_nul k" and "k \<notin> fst ` set_mset (bindings t)"
  shows "\<exists>t'. add t k v = Some t' \<and> invar t' \<and> lookup t' k = Some (Some v)"
proof -
  from insert_ok [OF assms(1), of k v] assms(2) obtain t' where
    t': "add t k v = Some t'" "invar t'" "bindings t' = add_mset (k, v) (bindings t)" by auto
  have uniq: "w = v" if "(k, w) \<in># bindings t'" for w
    using that t'(3) assms(3) by force
  have "(k, v) \<in># bindings t'" using t'(3) by simp
  from t'(2) this uniq have "lookup t' k = Some (Some v)" by (rule lookup_unique)
  with t' show ?thesis by blast
qed

fun insert_all :: "'t \<Rightarrow> (string \<times> 'v) list \<Rightarrow> 't option" where
  "insert_all t [] = Some t"
| "insert_all t ((k, v) # kvs) = (case add t k v of None \<Rightarrow> None | Some t' \<Rightarrow> insert_all t' kvs)"

lemma insert_all_bindings:
  assumes "invar t" and "list_all (\<lambda>(k, v). no_nul k) kvs"
  shows "\<exists>t'. insert_all t kvs = Some t' \<and> invar t' \<and> bindings t' = bindings t + mset kvs"
  using assms
proof (induction kvs arbitrary: t)
  case (Cons kv kvs)
  obtain k v where kv: "kv = (k, v)" by fastforce
  from insert_ok [OF Cons.prems(1), of k v] Cons.prems(2) kv obtain t' where
    "add t k v = Some t'" "invar t'" "bindings t' = add_mset (k, v) (bindings t)" by auto
  with Cons.IH [of t'] Cons.prems(2) kv show ?case by auto
qed simp

text \<open>A table filled with distinct keys is the finite map of its list of bindings.\<close>

lemma insert_all_lookup:
  assumes "list_all (\<lambda>(k, v). no_nul k) kvs" and "distinct (map fst kvs)"
  shows "\<exists>t'. insert_all empty kvs = Some t' \<and> invar t' \<and> (\<forall>k. lookup t' k = Some (map_of kvs k))"
proof -
  from insert_all_bindings [OF empty_ok assms(1)] obtain t' where
    t': "insert_all empty kvs = Some t'" "invar t'" "bindings t' = mset kvs"
    by (auto simp: bindings_empty)
  have "lookup t' k = Some (map_of kvs k)" for k
  proof (cases "map_of kvs k")
    case None
    then have "k \<notin> fst ` set kvs" by (simp add: map_of_eq_None_iff)
    then show ?thesis using None t' by (simp add: lookup_absent)
  next
    case (Some v)
    then have "(k, v) \<in># bindings t'" using t'(3) by (simp add: map_of_SomeD)
    moreover have "w = v" if "(k, w) \<in># bindings t'" for w
      using that Some assms(2) t'(3) by (metis map_of_eq_Some_iff option.inject set_mset_mset)
    ultimately show ?thesis unfolding Some by (rule lookup_unique [OF t'(2)])
  qed
  with t' show ?thesis by blast
qed

end

text \<open>A dictionary whose bindings can be assigned through the slot a search returns.\<close>

locale assignable_dictionary = dictionary +
  fixes find :: "'a \<Rightarrow> string \<Rightarrow> nat option option"
    and slot :: "'a \<Rightarrow> nat \<Rightarrow> 'b option"
    and store :: "'a \<Rightarrow> nat \<Rightarrow> 'b \<Rightarrow> 'a"
  assumes find_lookup: "lookup t k = map_option (\<lambda>r. case r of None \<Rightarrow> None | Some i \<Rightarrow> slot t i) (find t k)"
    and find_slot: "invar t \<Longrightarrow> find t k = Some (Some i) \<Longrightarrow> \<exists>v. slot t i = Some v"
    and store_ok: "invar t \<Longrightarrow> find t k = Some (Some i) \<Longrightarrow> slot t i = Some w \<Longrightarrow>
      invar (store t i v) \<and> bindings (store t i v) = add_mset (k, v) (bindings t - {#(k, w)#})"
begin

lemma find_ok: "invar t \<Longrightarrow> \<exists>r. find t k = Some r"
  using lookup_ok [of t k] find_lookup [of t k] by (cases "find t k") auto

lemma store_keys:
  assumes "invar t" and "find t k = Some (Some i)"
  shows "invar (store t i v)" and "fst ` set_mset (bindings (store t i v)) = fst ` set_mset (bindings t)"
proof -
  from find_slot [OF assms] obtain w where w: "slot t i = Some w" ..
  from store_ok [OF assms w, of v] show "invar (store t i v)" by simp
  from lookup_ok [OF assms(1), of k] find_lookup [of t k] assms(2) w
  have mem: "(k, w) \<in># bindings t" by auto
  then have "bindings t = add_mset (k, w) (bindings t - {#(k, w)#})" by simp
  then have "fst ` set_mset (bindings t) = insert k (fst ` set_mset (bindings t - {#(k, w)#}))"
    by (metis fst_conv image_insert set_mset_add_mset_insert)
  with store_ok [OF assms w, of v]
  show "fst ` set_mset (bindings (store t i v)) = fst ` set_mset (bindings t)" by simp
qed

end

interpretation ht: assignable_dictionary "hash_table_new f" hash_table_insert hash_table_lookup
    entries "\<lambda>t. ht_inv t \<and> ht_function t = f" hash_table_try_get slot_value slot_store for f
proof unfold_locales
  show "ht_inv (hash_table_new f) \<and> ht_function (hash_table_new f) = f"
    using ht_inv_new [of f] by (simp add: hash_table_new_def)
  show "entries (hash_table_new f) = {#}" by (rule entries_new)
  fix t :: "'a hash_table" and k v
  assume inv: "ht_inv t \<and> ht_function t = f"
  then show "\<exists>t'. hash_table_insert t k v = Some t' \<and> (ht_inv t' \<and> ht_function t' = f) \<and>
      entries t' = add_mset (c_str k, v) (entries t)"
    using hash_table_insert_ok [of t k v] by auto
  from inv show "\<exists>r. hash_table_lookup t k = Some r \<and>
      (case r of None \<Rightarrow> k \<notin> fst ` set_mset (entries t) | Some v \<Rightarrow> (k, v) \<in># entries t)"
    using hash_table_lookup_ok [of t k] unfolding bound_keys_def by blast
next
  fix t :: "'a hash_table" and k
  show "hash_table_lookup t k =
      map_option (\<lambda>r. case r of None \<Rightarrow> None | Some i \<Rightarrow> slot_value t i) (hash_table_try_get t k)"
    by (rule hash_table_lookup_def)
next
  fix t :: "'a hash_table" and k i
  assume "ht_inv t \<and> ht_function t = f" and "hash_table_try_get t k = Some (Some i)"
  then show "\<exists>v. slot_value t i = Some v"
    using hash_table_try_get_ok [of t k] by (auto simp: slot_value_def)
next
  fix t :: "'a hash_table" and k i w v
  assume "ht_inv t \<and> ht_function t = f" and "hash_table_try_get t k = Some (Some i)"
    and "slot_value t i = Some w"
  moreover from this have "i < length (ht_data t)" "ht_data t ! i = Some (k, w)"
    using hash_table_try_get_ok [of t k] by (auto simp: slot_value_def)
  ultimately show "(ht_inv (slot_store t i v) \<and> ht_function (slot_store t i v) = f) \<and>
      entries (slot_store t i v) = add_mset (k, v) (entries t - {#(k, w)#})"
    using slot_store_ok [of t i k w v] by auto
qed

lemma occupied_size: "occupied b = size (bucket_entries b)"
  by (induction b) (auto simp: occupied_def bucket_entries_def split: option.split)

lemma ht_len_entries: "ht_inv t \<Longrightarrow> ht_len t = size (entries t)"
  by (simp add: ht_inv_def entries_def occupied_size)

section \<open>Binding a key again\<close>

lemma probe_key_first:
  assumes "h < cap" and "\<forall>i < j. \<exists>k v. bucket_at b cap h i = Some (k, v) \<and> \<not> bucket_has_key k key"
    and "bucket_at b cap h j = Some (k, v)" and "bucket_has_key k key"
  shows "probe_key b cap key h = Some (Some ((h + j) mod cap))"
  using assms
proof (induction j arbitrary: h)
  case 0
  then show ?case by (subst probe_key.simps) simp
next
  case (Suc j)
  let ?h = "(h + 1) mod cap"
  have eq: "(?h + i) mod cap = (h + Suc i) mod cap" for i by (simp add: mod_simps)
  from Suc.prems(2) obtain k' v' where "bucket_at b cap h 0 = Some (k', v')" "\<not> bucket_has_key k' key"
    by blast
  with Suc.prems(1) have "probe_key b cap key h = probe_key b cap key ?h" by (rule probe_key_step)
  also have "\<dots> = Some (Some ((?h + j) mod cap))"
    by (rule Suc.IH) (use Suc.prems in \<open>auto simp only: eq mod_less_divisor Suc_less_eq intro!: mod_less_divisor\<close>)
  finally show ?case by (simp only: eq)
qed

text \<open>The slot a search finds is the first one on the probe path that holds the key.\<close>

lemma try_get_first:
  assumes "ht_inv t" and "k \<in> bound_keys t"
  obtains d j v where "path_full (ht_data t) (ht_cap t) (unat (ht_function t k) mod ht_cap t) d"
    and "bucket_at (ht_data t) (ht_cap t) (unat (ht_function t k) mod ht_cap t) d = None"
    and "j < d" and "bucket_at (ht_data t) (ht_cap t) (unat (ht_function t k) mod ht_cap t) j = Some (k, v)"
    and "\<forall>i < j. \<exists>k' v'. bucket_at (ht_data t) (ht_cap t) (unat (ht_function t k) mod ht_cap t) i = Some (k', v')
           \<and> \<not> bucket_has_key k' k"
proof -
  let ?b = "ht_data t" and ?cap = "ht_cap t" and ?h = "unat (ht_function t k) mod ht_cap t"
  from assms(2) obtain i v where i: "i < length ?b" "?b ! i = Some (k, v)" by (auto simp: bound_keys_iff)
  with assms(1) have cap: "?cap \<noteq> 0" and lb: "length ?b = ?cap"
    and bok: "buckets_ok (ht_function t) ?b ?cap" by (auto simp: ht_inv_def buckets_ok_def)
  have h: "?h < ?cap" using cap by simp
  obtain d where d: "path_full ?b ?cap ?h d" "bucket_at ?b ?cap ?h d = None"
    using first_free [OF h lb ht_inv_free [OF assms(1) cap]] .
  have nn: "no_nul k'" if "bucket_at ?b ?cap ?h j = Some (k', v')" for j k' v'
    using that ht_inv_no_nul [OF assms(1), of k' v'] cap lb by (metis mod_less_divisor not_gr_zero nth_mem)
  let ?m = "\<lambda>j. \<exists>v. bucket_at ?b ?cap ?h j = Some (k, v)"
  from chained_before_free [OF bok _ i(2) d(2)] i(1) lb obtain j0 where j0: "j0 < d" "?m j0" by auto
  let ?j = "LEAST j. ?m j"
  have m: "?m ?j" using j0(2) by (rule LeastI)
  have lt: "?j < d" using Least_le [of ?m, OF j0(2)] j0(1) by (rule order.strict_trans1)
  from m obtain w where w: "bucket_at ?b ?cap ?h ?j = Some (k, w)" ..
  have pre: "\<exists>k' v'. bucket_at ?b ?cap ?h i = Some (k', v') \<and> \<not> bucket_has_key k' k" if "i < ?j" for i
  proof -
    from that lt d(1) have "bucket_at ?b ?cap ?h i \<noteq> None" by (auto simp: path_full_def)
    then obtain k' v' where kv: "bucket_at ?b ?cap ?h i = Some (k', v')" by auto
    with not_less_Least [OF that] have "k' \<noteq> k" by auto
    with kv nn [OF kv] show ?thesis by (auto simp: bucket_has_key_iff)
  qed
  from that [OF d lt w] pre show thesis by blast
qed

text \<open>
  Storing through a slot moves no key, so that every search finds the slot it found before:
  the assigned key has the new value and every other key keeps its own.
\<close>

lemma try_get_unbound:
  assumes "ht_inv t" and "key \<notin> bound_keys t"
  shows "hash_table_try_get t key = Some None"
  using hash_table_try_get_ok [OF assms(1), of key] assms(2) by (auto simp: bound_keys_iff split: option.splits)

lemma try_get_slot_store:
  assumes inv: "ht_inv t" and i: "i < length (ht_data t)" "ht_data t ! i = Some (k, w)"
  shows "hash_table_try_get (slot_store t i v) key = hash_table_try_get t key"
proof -
  let ?t = "slot_store t i v" and ?b = "ht_data t" and ?cap = "ht_cap t"
  have eq: "?t = t\<lparr>ht_data := ?b[i := Some (k, v)]\<rparr>" using i(2) by (simp add: slot_store_def)
  have bound: "bound_keys ?t = bound_keys t"
  proof -
    have "(k, w) \<in># entries t" using i by (auto simp: entries_def in_bucket_entries)
    then have "entries t = add_mset (k, w) (entries t - {#(k, w)#})" by simp
    then have "bound_keys t = insert k (fst ` set_mset (entries t - {#(k, w)#}))"
      by (metis bound_keys_def fst_conv image_insert set_mset_add_mset_insert)
    then show ?thesis by (simp add: bound_keys_def slot_store_ok(2) [OF inv i])
  qed
  show ?thesis
  proof (cases "key \<in> bound_keys t")
    case False
    then show ?thesis
      using try_get_unbound [OF inv, of key] try_get_unbound [OF slot_store_ok(1) [OF inv i], of key v]
      by (simp add: bound)
  next
    case True
    let ?h = "unat (ht_function t key) mod ?cap"
    obtain d j u where j: "bucket_at ?b ?cap ?h j = Some (key, u)"
      and pre: "\<forall>i < j. \<exists>k' v'. bucket_at ?b ?cap ?h i = Some (k', v') \<and> \<not> bucket_has_key k' key"
      by (rule try_get_first [OF inv True])
    from True inv have len: "ht_len t \<noteq> 0" and cap: "?cap \<noteq> 0" and lb: "length ?b = ?cap"
      by (auto simp: bound_keys_iff ht_inv_def buckets_ok_def)
    have nn: "no_nul key"
      using True ht_inv_no_nul [OF inv] by (metis bound_keys_iff nth_mem)
    have keys: "\<exists>v'. bucket_at (?b[i := Some (k, v)]) ?cap ?h n = Some (k', v')"
      if "bucket_at ?b ?cap ?h n = Some (k', u')" for n k' u'
      using that i by (cases "(?h + n) mod ?cap = i") auto
    have hk: "bucket_has_key key key" using nn by (simp add: bucket_has_key_iff)
    have h: "?h < ?cap" using cap by simp
    have "probe_key ?b ?cap key ?h = Some (Some ((?h + j) mod ?cap))"
      by (rule probe_key_first [OF h pre j hk])
    moreover obtain v' where at: "bucket_at (?b[i := Some (k, v)]) ?cap ?h j = Some (key, v')" using keys [OF j] ..
    have "probe_key (?b[i := Some (k, v)]) ?cap key ?h = Some (Some ((?h + j) mod ?cap))"
      by (rule probe_key_first [OF h _ at hk]) (use pre keys in blast)
    ultimately show ?thesis using len cap by (simp add: hash_table_try_get_def eq)
  qed
qed

lemma lookup_slot_store:
  assumes "ht_inv t" and "hash_table_try_get t k = Some (Some i)"
  shows "hash_table_lookup (slot_store t i v) key = (if key = k then Some (Some v) else hash_table_lookup t key)"
proof -
  obtain w where i: "i < length (ht_data t)" "ht_data t ! i = Some (k, w)"
    using hash_table_try_get_ok [OF assms(1), of k] assms(2) by auto
  have slots: "slot_value (slot_store t i v) j = (if j = i then Some v else slot_value t j)" for j
    using i by (auto simp: slot_value_def slot_store_def)
  have "hash_table_try_get t key = Some (Some i) \<longleftrightarrow> key = k"
    using hash_table_try_get_ok [OF assms(1), of key] i assms(2) by auto
  then show ?thesis
    using assms(2) try_get_slot_store [OF assms(1) i, of v key]
    by (cases "hash_table_try_get t key") (auto simp: hash_table_lookup_def slots split: option.split)
qed

lemma insert_again_lookup:
  assumes inv: "ht_inv t" and nn: "no_nul k" and bound: "k \<in> bound_keys t"
    and load: "\<not> over_max_load (ht_len t) (ht_cap t)"
  shows "\<exists>t'. hash_table_insert t k w = Some t' \<and> hash_table_lookup t' k = hash_table_lookup t k"
proof -
  let ?b = "ht_data t" and ?cap = "ht_cap t" and ?h = "unat (ht_function t k) mod ht_cap t"
  obtain d j v where d: "path_full ?b ?cap ?h d" "bucket_at ?b ?cap ?h d = None" and j: "j < d"
    and at: "bucket_at ?b ?cap ?h j = Some (k, v)"
    and pre: "\<forall>i < j. \<exists>k' v'. bucket_at ?b ?cap ?h i = Some (k', v') \<and> \<not> bucket_has_key k' k"
    by (rule try_get_first [OF inv bound])
  from bound inv have len: "ht_len t \<noteq> 0" and cap: "?cap \<noteq> 0" and lb: "length ?b = ?cap"
    by (auto simp: bound_keys_iff ht_inv_def buckets_ok_def)
  then have h: "?h < ?cap" by simp
  let ?i = "(?h + d) mod ?cap" and ?t' = "t\<lparr>ht_data := ?b[(?h + d) mod ?cap := Some (k, w)], ht_len := ht_len t + 1\<rparr>"
  have "insert_raw ?b ?cap (ht_function t k) k w = Some (?b[?i := Some (k, w)])"
    using cap nn by (simp add: insert_raw_def probe_free_at [OF h d])
  then have ins: "hash_table_insert t k w = Some ?t'"
    using len load nn by (simp add: hash_table_insert_def)
  have same: "bucket_at (?b[?i := Some (k, w)]) ?cap ?h i = bucket_at ?b ?cap ?h i" if "i < d" for i
  proof -
    have "bucket_at ?b ?cap ?h i \<noteq> None" using d(1) that by (simp add: path_full_def)
    with d(2) have "?i \<noteq> (?h + i) mod ?cap" by metis
    then show ?thesis by simp
  qed
  have hk: "bucket_has_key k k" using nn by (simp add: bucket_has_key_iff)
  have old: "probe_key ?b ?cap k ?h = Some (Some ((?h + j) mod ?cap))"
    by (rule probe_key_first [OF h pre at hk])
  have new: "probe_key (?b[?i := Some (k, w)]) ?cap k ?h = Some (Some ((?h + j) mod ?cap))"
    by (rule probe_key_first [OF h _ _ hk]) (use pre at same j in auto)
  have "hash_table_lookup ?t' k = hash_table_lookup t k"
    using old new len cap same [OF j] by (simp add: hash_table_lookup_def hash_table_try_get_def slot_value_def)
  with ins show ?thesis by blast
qed

section \<open>Properties\<close>

text \<open>
  C8. Insertion refines adding a binding to a multiset: on a well-formed table it always
  returns, keeps the invariant (load below the capacity, exact count, unbroken probe paths),
  and the bindings of the new table are the old ones plus the new pair, whether or not the
  table was rehashed on the way.
\<close>

theorem hash_table_insert_refines:
  assumes "ht_inv t"
  shows "\<exists>t'. hash_table_insert t k v = Some t' \<and> ht_inv t' \<and>
           entries t' = add_mset (c_str k, v) (entries t) \<and> ht_function t' = ht_function t"
  using assms by (rule hash_table_insert_ok)

theorem hash_table_insert_refines_witness:
  "ht_inv (hash_table_new hash_fnv1a :: nat hash_table) \<and>
   (\<exists>t'. hash_table_insert (hash_table_new hash_fnv1a) ''clock'' (1::nat) = Some t' \<and> ht_inv t' \<and>
      entries t' = {#(''clock'', 1)#})"
  using hash_table_insert_refines [OF ht_inv_new [of hash_fnv1a], of "''clock''" "1::nat"]
  by (auto simp: ht_inv_new entries_new c_str_def NUL_def)

text \<open>
  C30. A search on a well-formed table always returns, and it decides membership: it returns
  the index of a bucket that holds exactly the searched bytes, or nothing when no bucket does.
\<close>

theorem hash_table_try_get_decides:
  assumes "ht_inv t"
  shows "\<exists>r. hash_table_try_get t key = Some r \<and>
           (case r of None \<Rightarrow> key \<notin> bound_keys t
            | Some i \<Rightarrow> i < length (ht_data t) \<and> (\<exists>v. ht_data t ! i = Some (key, v)))"
  using assms by (rule hash_table_try_get_ok)

theorem hash_table_try_get_decides_witness:
  "ht_inv (hash_table_new hash_fnv1a :: nat hash_table) \<and>
   hash_table_try_get (hash_table_new hash_fnv1a :: nat hash_table) ''x'' = Some None"
  using hash_table_try_get_decides [OF ht_inv_new [of hash_fnv1a], of "''x''"]
  by (simp add: ht_inv_new) (simp add: hash_table_try_get_def hash_table_new_def)

text \<open>
  Inserting a key that the table already binds does not rebind it: unless the insertion
  rehashes the table, a lookup goes on returning what it returned before.
\<close>

theorem hash_table_insert_again_keeps_binding:
  assumes "ht_inv t" and "no_nul k" and "k \<in> bound_keys t"
    and "\<not> over_max_load (ht_len t) (ht_cap t)"
  shows "\<exists>t'. hash_table_insert t k w = Some t' \<and> hash_table_lookup t' k = hash_table_lookup t k"
  using assms by (rule insert_again_lookup)

theorem hash_table_insert_again_keeps_binding_witness:
  "\<exists>t t'. ht_inv t \<and> ''a'' \<in> bound_keys t \<and> hash_table_lookup t ''a'' = Some (Some (1::nat)) \<and>
     hash_table_insert t ''a'' 2 = Some t' \<and> hash_table_lookup t' ''a'' = Some (Some 1)"
proof -
  obtain t where t: "ht_inv t" "entries t = {#(''a'', 1::nat)#}"
    using hash_table_insert_ok [OF ht_inv_new [of hash_fnv1a], of "''a''" "1::nat"]
    by (auto simp: entries_new c_str_def NUL_def)
  then have bound: "''a'' \<in> bound_keys t" by (simp add: bound_keys_def)
  have look: "hash_table_lookup t ''a'' = Some (Some 1)"
    using hash_table_lookup_ok [OF t(1), of "''a''"] bound t(2) by (auto split: option.splits)
  have "ht_len t = 1" using ht_len_entries [OF t(1)] t(2) by simp
  then have "\<not> over_max_load (ht_len t) (ht_cap t)"
    using ht_inv_cap [OF t(1)] t(1) by (auto simp: over_max_load_def ht_inv_def)
  from hash_table_insert_again_keeps_binding [OF t(1) _ bound this, of 2] t look bound show ?thesis
    by (auto simp: NUL_def)
qed

end
