(* ===== verification/Scanner.thy ===== *)
theory Scanner
  imports Console Hash_Table
begin

text \<open>
  The scanner of \<open>source/private/scanner.c\<close>. The state is the C struct plus the static
  \<open>Keywords\<close> table and the console that errors go to; the token list is the sequence that the
  growable array holds. Reading a byte at or behind \<open>source_end\<close> in \<open>scanner_advance\<close> is the
  fault \<open>Out_Of_Bounds\<close>. The loops are total functions: each pass consumes at least one byte.
  \<open>Exhausted\<close> stands for a keyword lookup that would not return.
\<close>

section \<open>State and character classes\<close>

record scanner =
  sc_source :: string
  sc_start :: nat
  sc_current :: nat
  sc_line :: nat
  sc_tokens :: "token list"
  sc_keywords :: "token_type hash_table option"
  sc_console :: console

definition quote_char :: char where
  "quote_char = CHR 0x22"

definition isdigit :: "char \<Rightarrow> bool" where
  "isdigit c \<longleftrightarrow> (of_char c :: nat) \<in> {48..57}"

definition is_alpha :: "char \<Rightarrow> bool" where
  "is_alpha c \<longleftrightarrow>
     c = CHR ''_'' \<or> (of_char c :: nat) \<in> {97..122} \<or> (of_char c :: nat) \<in> {65..90}"

definition is_alphanumeric :: "char \<Rightarrow> bool" where
  "is_alphanumeric c \<longleftrightarrow> isdigit c \<or> is_alpha c"

definition scanner_new ::
  "string \<Rightarrow> token_type hash_table option \<Rightarrow> console \<Rightarrow> scanner" where
  "scanner_new source keywords con =
     \<lparr>sc_source = source, sc_start = 0, sc_current = 0, sc_line = 1, sc_tokens = [],
      sc_keywords = keywords, sc_console = con\<rparr>"

section \<open>Primitive operations\<close>

definition scanner_is_at_end :: "scanner \<Rightarrow> bool" where
  "scanner_is_at_end s \<longleftrightarrow> length (sc_source s) \<le> sc_current s"

definition scanner_advance :: "(scanner, char) run" where
  "scanner_advance s =
     (if sc_current s < length (sc_source s)
      then Done (s\<lparr>sc_current := sc_current s + 1\<rparr>) (sc_source s ! sc_current s)
      else Fault Out_Of_Bounds)"

definition scanner_text :: "scanner \<Rightarrow> nat \<Rightarrow> nat \<Rightarrow> string" where
  "scanner_text s from n = c_str (take n (drop from (sc_source s)))"

definition scanner_add_token :: "token_type \<Rightarrow> object \<Rightarrow> (scanner, unit) run" where
  "scanner_add_token type value = modifies (\<lambda>s.
     s\<lparr>sc_tokens := sc_tokens s @
        [\<lparr>t_type = type, t_lexeme = scanner_text s (sc_start s) (sc_current s - sc_start s),
          t_literal = value, t_line = sc_line s\<rparr>]\<rparr>)"

definition scanner_match :: "char \<Rightarrow> (scanner, bool) run" where
  "scanner_match expected s =
     (if scanner_is_at_end s \<or> sc_source s ! sc_current s \<noteq> expected then Done s False
      else Done (s\<lparr>sc_current := sc_current s + 1\<rparr>) True)"

definition scanner_peek :: "scanner \<Rightarrow> char" where
  "scanner_peek s = (if scanner_is_at_end s then NUL else sc_source s ! sc_current s)"

definition scanner_peek_next :: "scanner \<Rightarrow> char" where
  "scanner_peek_next s =
     (if length (sc_source s) \<le> sc_current s + 1 then NUL else sc_source s ! (sc_current s + 1))"

definition scanner_error :: "string \<Rightarrow> (scanner, unit) run" where
  "scanner_error message = modifies (\<lambda>s. s\<lparr>sc_console := library_error (sc_line s) message (sc_console s)\<rparr>)"

section \<open>Loops over the input\<close>

text \<open>\<open>while (p(peek) ...) advance\<close>: the comment, number and identifier loops.\<close>

function advance_while :: "(scanner \<Rightarrow> bool) \<Rightarrow> (scanner, unit) run" where
  "advance_while guard s =
     (if guard s then
        (case scanner_advance s of
           Done s' _ \<Rightarrow> advance_while guard s'
         | Fault e \<Rightarrow> Fault e
         | Exhausted \<Rightarrow> Exhausted)
      else Done s ())"
  by pat_completeness auto
termination
  by (relation "measure (\<lambda>(guard, s). length (sc_source s) - sc_current s)")
     (auto simp: scanner_advance_def split: if_splits)

declare advance_while.simps [simp del]

text \<open>The loop of \<open>scanner_string\<close>, which also counts the lines of the literal.\<close>

function string_loop :: "(scanner, unit) run" where
  "string_loop s =
     (if scanner_peek s \<noteq> quote_char \<and> \<not> scanner_is_at_end s then
        (case scanner_advance (if scanner_peek s = newline then s\<lparr>sc_line := sc_line s + 1\<rparr> else s) of
           Done s' _ \<Rightarrow> string_loop s'
         | Fault e \<Rightarrow> Fault e
         | Exhausted \<Rightarrow> Exhausted)
      else Done s ())"
  by pat_completeness auto
termination
  by (relation "measure (\<lambda>s. length (sc_source s) - sc_current s)")
     (auto simp: scanner_advance_def split: if_splits)

declare string_loop.simps [simp del]

definition scanner_string :: "(scanner, unit) run" where
  "scanner_string =
     andthen string_loop (\<lambda>_.
     andthen (reads scanner_is_at_end) (\<lambda>at_end.
     if at_end then scanner_error ''Unterminated string.''
     else
       andthen scanner_advance (\<lambda>_.
       andthen (reads (\<lambda>s. scanner_text s (sc_start s + 1) (sc_current s - sc_start s - 2))) (\<lambda>value.
       scanner_add_token TOKEN_STRING (object_new_string value)))))"

definition scanner_number :: "(scanner, unit) run" where
  "scanner_number =
     andthen (advance_while (\<lambda>s. isdigit (scanner_peek s))) (\<lambda>_.
     andthen (reads (\<lambda>s. scanner_peek s = CHR ''.'' \<and> isdigit (scanner_peek_next s))) (\<lambda>fraction.
     andthen (if fraction then
                andthen scanner_advance (\<lambda>_. advance_while (\<lambda>s. isdigit (scanner_peek s)))
              else ret ()) (\<lambda>_.
     andthen (reads (\<lambda>s. scanner_text s (sc_start s) (sc_current s - sc_start s))) (\<lambda>value.
     scanner_add_token TOKEN_NUMBER (object_new_number (strtod_decimal value))))))"

section \<open>Keywords and identifiers\<close>

definition keyword_list :: "(string \<times> token_type) list" where
  "keyword_list =
     [(''and'', TOKEN_AND), (''class'', TOKEN_CLASS), (''else'', TOKEN_ELSE), (''false'', TOKEN_FALSE),
      (''for'', TOKEN_FOR), (''fun'', TOKEN_FUN), (''if'', TOKEN_IF), (''nil'', TOKEN_NIL),
      (''or'', TOKEN_OR), (''print'', TOKEN_PRINT), (''return'', TOKEN_RETURN), (''super'', TOKEN_SUPER),
      (''this'', TOKEN_THIS), (''true'', TOKEN_TRUE), (''var'', TOKEN_VAR), (''while'', TOKEN_WHILE)]"

fun insert_keywords :: "token_type hash_table \<Rightarrow> (string \<times> token_type) list \<Rightarrow> token_type hash_table option" where
  "insert_keywords table [] = Some table"
| "insert_keywords table ((word, type) # rest) =
     (case hash_table_insert table word type of
        None \<Rightarrow> None
      | Some table' \<Rightarrow> insert_keywords table' rest)"

definition init_keywords :: "token_type hash_table option" where
  "init_keywords = insert_keywords (hash_table_new hash_fnv1a) keyword_list"

definition ensure_keywords :: "(scanner, token_type hash_table) run" where
  "ensure_keywords s =
     (case sc_keywords s of
        Some table \<Rightarrow> Done s table
      | None \<Rightarrow>
          (case init_keywords of
             None \<Rightarrow> Exhausted
           | Some table \<Rightarrow> Done (s\<lparr>sc_keywords := Some table\<rparr>) table))"

definition scanner_identifier :: "(scanner, unit) run" where
  "scanner_identifier =
     andthen (advance_while (\<lambda>s. is_alphanumeric (scanner_peek s))) (\<lambda>_.
     andthen ensure_keywords (\<lambda>keywords.
     andthen (reads (\<lambda>s. take (sc_current s - sc_start s) (drop (sc_start s) (sc_source s)))) (\<lambda>word.
     case hash_table_lookup keywords word of
       None \<Rightarrow> exhaust
     | Some None \<Rightarrow> scanner_add_token TOKEN_IDENTIFIER object_new_null
     | Some (Some type) \<Rightarrow> scanner_add_token type object_new_null)))"

section \<open>One token\<close>

definition add_simple :: "token_type \<Rightarrow> (scanner, unit) run" where
  "add_simple type = scanner_add_token type object_new_null"

definition add_two_char :: "token_type \<Rightarrow> token_type \<Rightarrow> (scanner, unit) run" where
  "add_two_char with_equal alone =
     andthen (scanner_match (CHR ''='')) (\<lambda>m. add_simple (if m then with_equal else alone))"

definition scanner_slash :: "(scanner, unit) run" where
  "scanner_slash =
     andthen (scanner_match (CHR ''/'')) (\<lambda>m.
     if m then advance_while (\<lambda>s. scanner_peek s \<noteq> newline \<and> \<not> scanner_is_at_end s)
     else add_simple TOKEN_SLASH)"

definition single_char_tokens :: "(char \<times> token_type) list" where
  "single_char_tokens =
     [(CHR ''('', TOKEN_LEFT_PAREN), (CHR '')'', TOKEN_RIGHT_PAREN), (CHR ''{'', TOKEN_LEFT_BRACE),
      (CHR ''}'', TOKEN_RIGHT_BRACE), (CHR '','', TOKEN_COMMA), (CHR ''.'', TOKEN_DOT),
      (CHR ''-'', TOKEN_MINUS), (CHR ''+'', TOKEN_PLUS), (CHR '';'', TOKEN_SEMICOLON),
      (CHR ''*'', TOKEN_STAR)]"

definition two_char_tokens :: "(char \<times> token_type \<times> token_type) list" where
  "two_char_tokens =
     [(CHR ''!'', TOKEN_BANG_EQUAL, TOKEN_BANG), (CHR ''='', TOKEN_EQUAL_EQUAL, TOKEN_EQUAL),
      (CHR ''<'', TOKEN_LESS_EQUAL, TOKEN_LESS), (CHR ''>'', TOKEN_GREATER_EQUAL, TOKEN_GREATER)]"

definition blanks :: "char list" where
  "blanks = [CHR '' '', CHR 0x0D, CHR 0x09]"

definition scan_char :: "char \<Rightarrow> (scanner, unit) run" where
  "scan_char c =
     (case map_of single_char_tokens c of
        Some type \<Rightarrow> add_simple type
      | None \<Rightarrow>
     (case map_of two_char_tokens c of
        Some (with_equal, alone) \<Rightarrow> add_two_char with_equal alone
      | None \<Rightarrow>
          if c \<in> set blanks then ret ()
          else if c = newline then modifies (\<lambda>s. s\<lparr>sc_line := sc_line s + 1\<rparr>)
          else if c = CHR ''/'' then scanner_slash
          else if c = quote_char then scanner_string
          else if isdigit c then scanner_number
          else if is_alpha c then scanner_identifier
          else scanner_error ''Unexpected character.''))"

definition scanner_scan_token :: "(scanner, unit) run" where
  "scanner_scan_token = andthen scanner_advance scan_char"

section \<open>Progress\<close>

text \<open>
  Every operation leaves the source text alone and never moves backwards. This is what the
  main loop needs to end.
\<close>

definition frame :: "scanner \<Rightarrow> scanner \<Rightarrow> bool" where
  "frame s s' \<longleftrightarrow> sc_source s' = sc_source s \<and> sc_current s \<le> sc_current s'"

definition framed :: "(scanner, 'a) run \<Rightarrow> bool" where
  "framed m \<longleftrightarrow> (\<forall>s s' x. m s = Done s' x \<longrightarrow> frame s s')"

named_theorems framed_intros \<open>operations that only move forward\<close>

lemma frame_trans: "frame a b \<Longrightarrow> frame b c \<Longrightarrow> frame a c"
  by (auto simp: frame_def)

lemma framed_ret [framed_intros]: "framed (ret x)"
  by (simp add: framed_def ret_def frame_def)

lemma framed_exhaust [framed_intros]: "framed exhaust"
  by (simp add: framed_def exhaust_def)

lemma framed_reads [framed_intros]: "framed (reads f)"
  by (simp add: framed_def reads_def frame_def)

lemma framed_modifies [framed_intros]: "(\<And>s. frame s (f s)) \<Longrightarrow> framed (modifies f)"
  by (simp add: framed_def modifies_def)

lemma framed_andthen [framed_intros]:
  "framed m \<Longrightarrow> (\<And>x. framed (f x)) \<Longrightarrow> framed (andthen m f)"
  unfolding framed_def andthen_def by (fastforce intro: frame_trans split: outcome.splits)

lemma framed_if [framed_intros]: "framed m \<Longrightarrow> framed n \<Longrightarrow> framed (if b then m else n)"
  by simp

lemma framed_advance [framed_intros]: "framed scanner_advance"
  by (auto simp: framed_def scanner_advance_def frame_def)

lemma framed_match [framed_intros]: "framed (scanner_match c)"
  by (auto simp: framed_def scanner_match_def frame_def)

lemma framed_add_token [framed_intros]: "framed (scanner_add_token type value)"
  unfolding scanner_add_token_def by (rule framed_modifies) (simp add: frame_def)

lemma framed_error [framed_intros]: "framed (scanner_error message)"
  unfolding scanner_error_def by (rule framed_modifies) (simp add: frame_def)

lemma framed_case_option [framed_intros]:
  "framed m \<Longrightarrow> (\<And>x. framed (f x)) \<Longrightarrow> framed (case r of None \<Rightarrow> m | Some x \<Rightarrow> f x)"
  by (cases r) simp_all

lemma framed_case_prod [framed_intros]:
  "(\<And>x y. framed (f x y)) \<Longrightarrow> framed (case p of (x, y) \<Rightarrow> f x y)"
  by (cases p) simp

lemma frame_refl [simp]: "frame s s"
  by (simp add: frame_def)

lemma frame_advance: "scanner_advance s = Done s' x \<Longrightarrow> frame s s'"
  using framed_advance by (simp add: framed_def)

lemma framed_advance_while [framed_intros]: "framed (advance_while guard)"
proof -
  have "advance_while guard s = Done s' x \<Longrightarrow> frame s s'" for s s' x
  proof (induction guard s rule: advance_while.induct)
    case (1 guard s)
    show ?case
    proof (cases "guard s")
      case True
      with "1.prems" obtain m c where "scanner_advance s = Done m c" "advance_while guard m = Done s' x"
        by (subst (asm) advance_while.simps) (auto split: outcome.splits)
      with "1.IH" True show ?thesis by (metis frame_advance frame_trans)
    next
      case False
      with "1.prems" show ?thesis by (subst (asm) advance_while.simps) simp
    qed
  qed
  then show ?thesis by (simp add: framed_def)
qed

lemma framed_string_loop [framed_intros]: "framed string_loop"
proof -
  have "string_loop s = Done s' x \<Longrightarrow> frame s s'" for s s' x
  proof (induction s rule: string_loop.induct)
    case (1 s)
    let ?s = "if scanner_peek s = newline then s\<lparr>sc_line := sc_line s + 1\<rparr> else s"
    show ?case
    proof (cases "scanner_peek s \<noteq> quote_char \<and> \<not> scanner_is_at_end s")
      case True
      with "1.prems" obtain m c where m: "scanner_advance ?s = Done m c" "string_loop m = Done s' x"
        by (subst (asm) string_loop.simps) (auto split: outcome.splits)
      have "frame s ?s" by (simp add: frame_def)
      then have "frame s m" using m(1) by (metis frame_advance frame_trans)
      with "1.IH" [OF True m] show ?thesis by (metis frame_trans)
    next
      case False
      with "1.prems" show ?thesis by (subst (asm) string_loop.simps) auto
    qed
  qed
  then show ?thesis by (simp add: framed_def)
qed

lemma framed_ensure_keywords [framed_intros]: "framed ensure_keywords"
  by (auto simp: framed_def ensure_keywords_def frame_def split: option.splits)

lemmas scan_char_defs =
  scan_char_def scanner_slash_def scanner_string_def scanner_number_def scanner_identifier_def
  add_simple_def add_two_char_def

lemma framed_scan_char [framed_intros]: "framed (scan_char c)"
  unfolding scan_char_defs by (intro framed_intros) (simp add: frame_def)

lemma scan_token_progress:
  assumes "scanner_scan_token s = Done s' x"
  shows "sc_source s' = sc_source s" and "sc_current s < sc_current s'"
    and "sc_current s < length (sc_source s)"
proof -
  from assms obtain m c where m: "scanner_advance s = Done m c" "scan_char c m = Done s' x"
    by (auto simp: scanner_scan_token_def andthen_def split: outcome.splits)
  from m(1) have "sc_source m = sc_source s" "sc_current m = sc_current s + 1"
      "sc_current s < length (sc_source s)"
    by (auto simp: scanner_advance_def split: if_splits)
  moreover have "frame m s'" using framed_scan_char m(2) by (simp add: framed_def)
  ultimately show "sc_source s' = sc_source s" and "sc_current s < sc_current s'"
    and "sc_current s < length (sc_source s)" by (simp_all add: frame_def)
qed

section \<open>The main loop\<close>

function scan_loop :: "(scanner, unit) run" where
  "scan_loop s =
     (if scanner_is_at_end s then Done s ()
      else
        (case scanner_scan_token (s\<lparr>sc_start := sc_current s\<rparr>) of
           Done s' _ \<Rightarrow> scan_loop s'
         | Fault e \<Rightarrow> Fault e
         | Exhausted \<Rightarrow> Exhausted))"
  by pat_completeness auto
termination
proof (relation "measure (\<lambda>s. length (sc_source s) - sc_current s)", goal_cases)
  case (2 s s' u)
  from scan_token_progress [OF 2(2)] show ?case by simp
qed simp

declare scan_loop.simps [simp del]

definition scanner_scan_tokens :: "(scanner, token list) run" where
  "scanner_scan_tokens =
     andthen scan_loop (\<lambda>_.
     andthen (modifies (\<lambda>s. s\<lparr>sc_tokens := sc_tokens s @
        [\<lparr>t_type = TOKEN_EOF, t_lexeme = [], t_literal = object_new_null, t_line = sc_line s\<rparr>]\<rparr>)) (\<lambda>_.
     reads sc_tokens))"

end
