(* ===== verification/Scanner_Proofs.thy ===== *)
theory Scanner_Proofs
  imports Scanner
begin

text \<open>
  Correctness of the scanner. The keyword table answers as the list of keywords does; the
  lexical grammar of Lox is stated as a relation \<open>lexed\<close> over the source text alone; scanning
  any text ends without a fault and yields the tokens of that grammar, with the error flag
  raised exactly when a piece of the text is malformed.
\<close>

section \<open>The keyword table\<close>

definition keyword_type :: "string \<Rightarrow> token_type" where
  "keyword_type word = (case map_of keyword_list word of None \<Rightarrow> TOKEN_IDENTIFIER | Some type \<Rightarrow> type)"

definition keywords_ok :: "token_type hash_table \<Rightarrow> bool" where
  "keywords_ok table \<longleftrightarrow> (\<forall>word. hash_table_lookup table word = Some (map_of keyword_list word))"

lemma insert_keywords_eq: "insert_keywords table kvs = ht.insert_all table kvs"
  by (induction table kvs rule: insert_keywords.induct) (auto split: option.split)

lemma init_keywords_ok: "\<exists>table. init_keywords = Some table \<and> keywords_ok table"
proof -
  have "list_all (\<lambda>(k, v). no_nul k) keyword_list" by (simp add: keyword_list_def NUL_def)
  moreover have "distinct (map fst keyword_list)" by (simp add: keyword_list_def)
  ultimately show ?thesis
    using ht.insert_all_lookup [of keyword_list hash_fnv1a]
    by (auto simp: init_keywords_def insert_keywords_eq keywords_ok_def)
qed

lemma keyword_type_not_EOF: "keyword_type word \<noteq> TOKEN_EOF" "keyword_type word \<noteq> TOKEN_NUMBER"
    "keyword_type word \<noteq> TOKEN_STRING"
proof -
  have "t \<noteq> TOKEN_EOF \<and> t \<noteq> TOKEN_NUMBER \<and> t \<noteq> TOKEN_STRING" if "map_of keyword_list word = Some t" for t
    using map_of_SomeD [OF that] by (auto simp: keyword_list_def)
  then show "keyword_type word \<noteq> TOKEN_EOF" "keyword_type word \<noteq> TOKEN_NUMBER"
      "keyword_type word \<noteq> TOKEN_STRING"
    by (auto simp: keyword_type_def split: option.split)
qed

section \<open>The lexical grammar\<close>

text \<open>
  A specification of the scanner that does not mention its state. \<open>line_at\<close> counts lines,
  \<open>lexeme_class\<close> says which bytes form a token of which type and literal under the rule of the
  longest match, \<open>skippable\<close> and \<open>malformed\<close> describe the bytes between tokens, and \<open>lexed\<close> is
  the reading of a prefix of the source as tokens with a number of errors.
\<close>

definition line_at :: "string \<Rightarrow> nat \<Rightarrow> nat" where
  "line_at source i = Suc (count_list (take i source) newline)"

definition slice :: "string \<Rightarrow> nat \<Rightarrow> nat \<Rightarrow> string" where
  "slice source i j = take (j - i) (drop i source)"

definition char_is :: "(char \<Rightarrow> bool) \<Rightarrow> string \<Rightarrow> nat \<Rightarrow> bool" where
  "char_is P source i \<longleftrightarrow> i < length source \<and> P (source ! i)"

definition run_of :: "(char \<Rightarrow> bool) \<Rightarrow> string \<Rightarrow> nat \<Rightarrow> nat \<Rightarrow> bool" where
  "run_of P source i j \<longleftrightarrow> (\<forall>k. i \<le> k \<longrightarrow> k < j \<longrightarrow> P (source ! k))"

definition number_span :: "string \<Rightarrow> nat \<Rightarrow> nat \<Rightarrow> bool" where
  "number_span source i j \<longleftrightarrow>
     (\<exists>k. i < k \<and> k \<le> j \<and> run_of isdigit source i k \<and> \<not> char_is isdigit source k \<and>
        (if char_is (\<lambda>c. c = CHR ''.'') source k \<and> char_is isdigit source (k + 1)
         then k + 1 < j \<and> run_of isdigit source (k + 1) j \<and> \<not> char_is isdigit source j
         else j = k))"

definition string_span :: "string \<Rightarrow> nat \<Rightarrow> nat \<Rightarrow> bool" where
  "string_span source i j \<longleftrightarrow>
     i + 2 \<le> j \<and> source ! i = quote_char \<and> source ! (j - 1) = quote_char \<and>
     run_of (\<lambda>c. c \<noteq> quote_char) source (i + 1) (j - 1)"

definition word_span :: "string \<Rightarrow> nat \<Rightarrow> nat \<Rightarrow> bool" where
  "word_span source i j \<longleftrightarrow>
     is_alpha (source ! i) \<and> run_of is_alphanumeric source i j \<and> \<not> char_is is_alphanumeric source j"

definition punctuator :: "string \<Rightarrow> nat \<Rightarrow> nat \<Rightarrow> token_type \<Rightarrow> bool" where
  "punctuator source i j type \<longleftrightarrow>
     j = i + 1 \<and> map_of single_char_tokens (source ! i) = Some type \<or>
     (\<exists>with_equal alone. map_of two_char_tokens (source ! i) = Some (with_equal, alone) \<and>
        (if char_is (\<lambda>c. c = CHR ''='') source (i + 1) then j = i + 2 \<and> type = with_equal
         else j = i + 1 \<and> type = alone)) \<or>
     source ! i = CHR ''/'' \<and> \<not> char_is (\<lambda>c. c = CHR ''/'') source (i + 1) \<and> j = i + 1 \<and> type = TOKEN_SLASH"

definition lexeme_class :: "string \<Rightarrow> nat \<Rightarrow> nat \<Rightarrow> token_type \<Rightarrow> object \<Rightarrow> bool" where
  "lexeme_class source i j type literal \<longleftrightarrow>
     punctuator source i j type \<and> literal = OBJECT_NULL \<or>
     word_span source i j \<and> type = keyword_type (slice source i j) \<and> literal = OBJECT_NULL \<or>
     number_span source i j \<and> type = TOKEN_NUMBER \<and>
       literal = OBJECT_NUMBER (strtod_decimal (c_str (slice source i j))) \<or>
     string_span source i j \<and> type = TOKEN_STRING \<and>
       literal = OBJECT_STRING (c_str (slice source (i + 1) (j - 1)))"

definition token_at :: "string \<Rightarrow> nat \<Rightarrow> nat \<Rightarrow> token \<Rightarrow> bool" where
  "token_at source i j t \<longleftrightarrow>
     i < j \<and> j \<le> length source \<and> t_lexeme t = c_str (slice source i j) \<and>
     t_line t = line_at source j \<and> lexeme_class source i j (t_type t) (t_literal t)"

definition skippable :: "string \<Rightarrow> nat \<Rightarrow> nat \<Rightarrow> bool" where
  "skippable source i j \<longleftrightarrow>
     i < j \<and> j \<le> length source \<and>
     (j = i + 1 \<and> source ! i \<in> insert newline (set blanks) \<or>
      i + 2 \<le> j \<and> source ! i = CHR ''/'' \<and> source ! (i + 1) = CHR ''/'' \<and>
        run_of (\<lambda>c. c \<noteq> newline) source (i + 2) j \<and> \<not> char_is (\<lambda>c. c \<noteq> newline) source j)"

definition unexpected :: "char \<Rightarrow> bool" where
  "unexpected c \<longleftrightarrow>
     map_of single_char_tokens c = None \<and> map_of two_char_tokens c = None \<and>
     c \<notin> set blanks \<union> {newline, CHR ''/'', quote_char} \<and> \<not> isdigit c \<and> \<not> is_alpha c"

definition malformed :: "string \<Rightarrow> nat \<Rightarrow> nat \<Rightarrow> bool" where
  "malformed source i j \<longleftrightarrow>
     i < j \<and> j \<le> length source \<and>
     (j = i + 1 \<and> unexpected (source ! i) \<or>
      j = length source \<and> source ! i = quote_char \<and> run_of (\<lambda>c. c \<noteq> quote_char) source (i + 1) j)"

inductive lexed :: "string \<Rightarrow> nat \<Rightarrow> token list \<Rightarrow> nat \<Rightarrow> bool" for source where
  lexed_start: "lexed source 0 [] 0"
| lexed_skip: "lexed source i ts errors \<Longrightarrow> skippable source i j \<Longrightarrow> lexed source j ts errors"
| lexed_error: "lexed source i ts errors \<Longrightarrow> malformed source i j \<Longrightarrow> lexed source j ts (Suc errors)"
| lexed_token: "lexed source i ts errors \<Longrightarrow> token_at source i j t \<Longrightarrow> lexed source j (ts @ [t]) errors"

lemma lexed_position: "lexed source i ts errors \<Longrightarrow> i \<le> length source"
  by (induction rule: lexed.induct) (auto simp: skippable_def malformed_def token_at_def)

lemma lexed_tokens: "lexed source i ts errors \<Longrightarrow> t \<in> set ts \<Longrightarrow> \<exists>i j. token_at source i j t"
  by (induction rule: lexed.induct) auto

lemma line_at_Suc:
  "i < length source \<Longrightarrow>
     line_at source (Suc i) = (if source ! i = newline then Suc (line_at source i) else line_at source i)"
  by (simp add: line_at_def take_Suc_conv_app_nth)

lemma line_at_skip:
  assumes "i \<le> k" and "k \<le> length source" and "run_of (\<lambda>c. c \<noteq> newline) source i k"
  shows "line_at source k = line_at source i"
  using assms
proof (induction rule: dec_induct)
  case (step n)
  then show ?case by (simp add: line_at_Suc run_of_def)
qed simp

lemma run_of_Cons: "P (source ! i) \<Longrightarrow> run_of P source (Suc i) j \<Longrightarrow> run_of P source i j"
  unfolding run_of_def by (metis Suc_leI le_neq_implies_less)

lemma run_of_empty [simp]: "run_of P source i i"
  by (simp add: run_of_def)

abbreviation total :: "(scanner, 'a) run \<Rightarrow> ('a \<Rightarrow> scanner \<Rightarrow> bool) \<Rightarrow> scanner \<Rightarrow> bool" where
  "total m Q s \<equiv> wp False (\<lambda>_. False) m Q s"

section \<open>The loops\<close>

text \<open>From \<open>s\<close> to \<open>s'\<close> only the position moved, over bytes that satisfy \<open>P\<close>.\<close>

definition skipped :: "(char \<Rightarrow> bool) \<Rightarrow> scanner \<Rightarrow> scanner \<Rightarrow> bool" where
  "skipped P s s' \<longleftrightarrow>
     s' = s\<lparr>sc_current := sc_current s'\<rparr> \<and> sc_current s \<le> sc_current s' \<and>
     sc_current s' \<le> length (sc_source s) \<and>
     run_of P (sc_source s) (sc_current s) (sc_current s')"

lemma skipped_refl: "sc_current s \<le> length (sc_source s) \<Longrightarrow> skipped P s s"
  by (simp add: skipped_def run_of_def)

lemma skipped_step:
  assumes "sc_current s < length (sc_source s)" and "P (sc_source s ! sc_current s)"
    and "skipped P (s\<lparr>sc_current := sc_current s + 1\<rparr>) s'"
  shows "skipped P s s'"
  using assms unfolding skipped_def run_of_def by (auto simp: Suc_le_eq nat_less_le)

lemma advance_while_ok:
  assumes "\<And>s. guard s \<Longrightarrow> sc_current s < length (sc_source s) \<and> P (sc_source s ! sc_current s)"
    and "sc_current s \<le> length (sc_source s)"
  shows "total (advance_while guard) (\<lambda>_ s'. skipped P s s' \<and> \<not> guard s') s"
  using assms
proof (induction guard s rule: advance_while.induct)
  case (1 guard s)
  show ?case
  proof (cases "guard s")
    case False
    with "1.prems" show ?thesis
      by (simp add: wp_def advance_while.simps [of guard s] skipped_refl)
  next
    case True
    let ?s = "s\<lparr>sc_current := sc_current s + 1\<rparr>"
    have lt: "sc_current s < length (sc_source s)" and P: "P (sc_source s ! sc_current s)"
      using "1.prems"(1) [OF True] by auto
    have adv: "scanner_advance s = Done ?s (sc_source s ! sc_current s)"
      using lt by (simp add: scanner_advance_def)
    from "1.IH" [OF True adv "1.prems"(1)] lt
    have "total (advance_while guard) (\<lambda>_ s'. skipped P ?s s' \<and> \<not> guard s') ?s" by simp
    then have "total (advance_while guard) (\<lambda>_ s'. skipped P s s' \<and> \<not> guard s') ?s"
      by (rule wp_mono) (use lt P in \<open>auto intro: skipped_step\<close>)
    then show ?thesis using True adv by (simp add: wp_def advance_while.simps [of guard s])
  qed
qed

text \<open>The string loop stops at the closing quote or at the end, having counted the newlines.\<close>

definition string_skipped :: "scanner \<Rightarrow> scanner \<Rightarrow> bool" where
  "string_skipped s s' \<longleftrightarrow>
     s' = s\<lparr>sc_current := sc_current s', sc_line := sc_line s'\<rparr> \<and> sc_current s \<le> sc_current s' \<and>
     sc_current s' \<le> length (sc_source s) \<and>
     sc_line s' + line_at (sc_source s) (sc_current s) = sc_line s + line_at (sc_source s) (sc_current s') \<and>
     run_of (\<lambda>c. c \<noteq> quote_char) (sc_source s) (sc_current s) (sc_current s') \<and>
     (sc_current s' = length (sc_source s) \<or> sc_source s ! sc_current s' = quote_char)"

lemma string_loop_ok:
  assumes "sc_current s \<le> length (sc_source s)"
  shows "total string_loop (\<lambda>_ s'. string_skipped s s') s"
  using assms
proof (induction s rule: string_loop.induct)
  case (1 s)
  show ?case
  proof (cases "scanner_peek s \<noteq> quote_char \<and> \<not> scanner_is_at_end s")
    case False
    with "1.prems" show ?thesis
      by (auto simp: wp_def string_loop.simps [of s] string_skipped_def scanner_peek_def scanner_is_at_end_def)
  next
    case True
    let ?n = "if scanner_peek s = newline then s\<lparr>sc_line := sc_line s + 1\<rparr> else s"
    let ?s = "?n\<lparr>sc_current := sc_current s + 1\<rparr>"
    have lt: "sc_current s < length (sc_source s)" using True by (simp add: scanner_is_at_end_def)
    have adv: "scanner_advance ?n = Done ?s (sc_source s ! sc_current s)"
      using lt by (simp add: scanner_advance_def)
    have "total string_loop (\<lambda>_ s'. string_skipped ?s s') ?s"
      by (rule "1.IH" [OF True adv]) (use lt in simp)
    then have "total string_loop (\<lambda>_ s'. string_skipped s s') ?s"
      by (rule wp_mono)
         (use lt True in \<open>auto simp: string_skipped_def line_at_Suc scanner_peek_def split: if_splits intro: run_of_Cons\<close>)
    then show ?thesis using True adv by (simp add: wp_def string_loop.simps [of s])
  qed
qed


section \<open>From one position to the next\<close>

text \<open>
  \<open>scan_inv con i\<close>: the source has been read up to \<open>i\<close> as the tokens collected so far, and
  the error flag is raised exactly when it was raised before or a malformed piece was found.
\<close>

definition scan_inv :: "console \<Rightarrow> nat \<Rightarrow> scanner \<Rightarrow> bool" where
  "scan_inv con i s \<longleftrightarrow>
     (\<exists>errors. lexed (sc_source s) i (sc_tokens s) errors \<and>
        (HadError (sc_console s) \<longleftrightarrow> HadError con \<or> 0 < errors)) \<and>
     con_out (sc_console s) = con_out con \<and> HadRuntimeError (sc_console s) = HadRuntimeError con \<and>
     (\<forall>table. sc_keywords s = Some table \<longrightarrow> keywords_ok table)"

definition scanned :: "console \<Rightarrow> scanner \<Rightarrow> bool" where
  "scanned con s \<longleftrightarrow>
     scan_inv con (sc_current s) s \<and> sc_line s = line_at (sc_source s) (sc_current s)"

definition pending :: "console \<Rightarrow> scanner \<Rightarrow> bool" where
  "pending con s \<longleftrightarrow>
     scan_inv con (sc_start s) s \<and> sc_current s = Suc (sc_start s) \<and>
     sc_current s \<le> length (sc_source s) \<and> sc_line s = line_at (sc_source s) (sc_start s)"

text \<open>Between the first byte of a token and its end the position may move.\<close>

definition reading :: "console \<Rightarrow> scanner \<Rightarrow> bool" where
  "reading con s \<longleftrightarrow>
     scan_inv con (sc_start s) s \<and> sc_start s < sc_current s \<and>
     sc_current s \<le> length (sc_source s) \<and> sc_line s = line_at (sc_source s) (sc_current s)"

lemma pending_reading:
  "pending con s \<Longrightarrow> sc_source s ! sc_start s \<noteq> newline \<Longrightarrow> reading con s"
  by (simp add: pending_def reading_def line_at_Suc)

lemma reading_skippable:
  assumes "reading con s" and "skippable (sc_source s) (sc_start s) (sc_current s)"
  shows "scanned con s"
  using assms by (auto simp: reading_def scanned_def scan_inv_def intro: lexed_skip)

lemma add_token_ok:
  assumes "reading con s" and "lexeme_class (sc_source s) (sc_start s) (sc_current s) type value"
  shows "total (scanner_add_token type value) (\<lambda>_. scanned con) s"
proof -
  let ?t = "\<lparr>t_type = type, t_lexeme = scanner_text s (sc_start s) (sc_current s - sc_start s),
             t_literal = value, t_line = sc_line s\<rparr>"
  have "token_at (sc_source s) (sc_start s) (sc_current s) ?t"
    using assms by (simp add: token_at_def reading_def scanner_text_def slice_def)
  with assms(1) show ?thesis
    by (auto simp: scanner_add_token_def wp_simps reading_def scanned_def scan_inv_def
        intro: lexed_token)
qed

lemma scanner_error_ok:
  assumes "reading con s" and "malformed (sc_source s) (sc_start s) (sc_current s)"
  shows "total (scanner_error message) (\<lambda>_. scanned con) s"
proof -
  obtain errors where "lexed (sc_source s) (sc_start s) (sc_tokens s) errors"
    using assms(1) by (auto simp: reading_def scan_inv_def)
  then have "lexed (sc_source s) (sc_current s) (sc_tokens s) (Suc errors)"
    using assms(2) by (rule lexed_error)
  with assms(1) show ?thesis
    by (auto simp: scanner_error_def wp_simps reading_def scanned_def scan_inv_def)
qed

lemma reading_skipped:
  assumes "reading con s" and "skipped P s s'" and "\<And>d. P d \<Longrightarrow> d \<noteq> newline"
  shows "reading con s'"
proof -
  define k where "k = sc_current s'"
  have k: "s' = s\<lparr>sc_current := k\<rparr>" "sc_current s \<le> k" "k \<le> length (sc_source s)"
    and P: "run_of P (sc_source s) (sc_current s) k"
    using assms(2) by (auto simp: skipped_def k_def)
  have "line_at (sc_source s) k = line_at (sc_source s) (sc_current s)"
    by (rule line_at_skip) (use k P assms(3) in \<open>auto simp: run_of_def\<close>)
  with assms(1) k show ?thesis by (auto simp: reading_def scan_inv_def)
qed

section \<open>Tokens\<close>

lemma add_simple_ok:
  assumes "reading con s" and "punctuator (sc_source s) (sc_start s) (sc_current s) type"
  shows "total (add_simple type) (\<lambda>_. scanned con) s"
  unfolding add_simple_def using assms by (intro add_token_ok) (simp_all add: lexeme_class_def)

lemma scanner_match_ok:
  assumes "reading con s" and "expected \<noteq> newline"
    and "char_is (\<lambda>c. c = expected) (sc_source s) (sc_current s) \<Longrightarrow>
           Q True (s\<lparr>sc_current := sc_current s + 1\<rparr>)"
    and "\<not> char_is (\<lambda>c. c = expected) (sc_source s) (sc_current s) \<Longrightarrow> Q False s"
  shows "total (scanner_match expected) Q s"
  using assms by (auto simp: wp_def scanner_match_def scanner_is_at_end_def char_is_def)

lemma reading_advance:
  assumes "reading con s" and "char_is (\<lambda>c. c \<noteq> newline) (sc_source s) (sc_current s)"
  shows "reading con (s\<lparr>sc_current := sc_current s + 1\<rparr>)"
  using assms by (auto simp: reading_def char_is_def line_at_Suc scan_inv_def)

lemma add_two_char_ok:
  assumes "pending con s" and "c = sc_source s ! sc_start s" and "c \<noteq> newline"
    and "map_of two_char_tokens c = Some (with_equal, alone)"
  shows "total (add_two_char with_equal alone) (\<lambda>_. scanned con) s"
proof -
  have r: "reading con s" and cur: "sc_current s = Suc (sc_start s)"
    using assms pending_reading by (auto simp: pending_def)
  show ?thesis
    unfolding add_two_char_def wp_andthen
  proof (rule scanner_match_ok [OF r], goal_cases)
    case 2
    then have "reading con (s\<lparr>sc_current := sc_current s + 1\<rparr>)"
      by (intro reading_advance r) (auto simp: char_is_def newline_def)
    then show ?case
      by (rule add_simple_ok) (use 2 cur assms in \<open>auto simp: punctuator_def\<close>)
  next
    case 3
    show ?case by (rule add_simple_ok [OF r]) (use 3 cur assms in \<open>auto simp: punctuator_def\<close>)
  qed (simp add: newline_def)
qed

lemma scanner_slash_ok:
  assumes "pending con s" and "sc_source s ! sc_start s = CHR ''/''"
  shows "total scanner_slash (\<lambda>_. scanned con) s"
proof -
  have r: "reading con s" and cur: "sc_current s = Suc (sc_start s)"
    using assms pending_reading by (auto simp: pending_def newline_def)
  show ?thesis
    unfolding scanner_slash_def wp_andthen
  proof (rule scanner_match_ok [OF r], goal_cases)
    case 2
    let ?s = "s\<lparr>sc_current := sc_current s + 1\<rparr>"
    have r2: "reading con ?s"
      using 2 by (intro reading_advance r) (auto simp: char_is_def newline_def)
    have "total (advance_while (\<lambda>s. scanner_peek s \<noteq> newline \<and> \<not> scanner_is_at_end s))
            (\<lambda>_ s'. skipped (\<lambda>c. c \<noteq> newline) ?s s' \<and> \<not> (scanner_peek s' \<noteq> newline \<and> \<not> scanner_is_at_end s')) ?s"
      by (rule advance_while_ok)
         (use r2 in \<open>auto simp: scanner_peek_def scanner_is_at_end_def reading_def split: if_splits\<close>)
    then have "total (advance_while (\<lambda>s. scanner_peek s \<noteq> newline \<and> \<not> scanner_is_at_end s))
            (\<lambda>_. scanned con) ?s"
    proof (rule wp_mono)
      fix u s'
      assume s': "skipped (\<lambda>c. c \<noteq> newline) ?s s' \<and> \<not> (scanner_peek s' \<noteq> newline \<and> \<not> scanner_is_at_end s')"
      then obtain k where k: "s' = s\<lparr>sc_current := k\<rparr>" "Suc (sc_current s) \<le> k" "k \<le> length (sc_source s)"
          "run_of (\<lambda>c. c \<noteq> newline) (sc_source s) (Suc (sc_current s)) k"
        by (auto simp: skipped_def)
      have "reading con s'" using s' by (auto intro: reading_skipped [OF r2])
      moreover have "skippable (sc_source s') (sc_start s') (sc_current s')"
        using k s' 2 cur assms(2)
        by (auto simp: skippable_def char_is_def scanner_peek_def scanner_is_at_end_def split: if_splits)
      ultimately show "scanned con s'" by (rule reading_skippable)
    qed
    then show ?case by simp
  next
    case 3
    show ?case using 3 by simp (rule add_simple_ok [OF r], use cur assms in \<open>auto simp: punctuator_def\<close>)
  qed (simp add: newline_def)
qed

lemma scanner_string_ok:
  assumes "pending con s" and "sc_source s ! sc_start s = quote_char"
  shows "total scanner_string (\<lambda>_. scanned con) s"
proof -
  have r: "reading con s" and cur: "sc_current s = Suc (sc_start s)"
    using assms pending_reading by (auto simp: pending_def newline_def quote_char_def)
  have "total string_loop (\<lambda>_. string_skipped s) s"
    using r by (intro string_loop_ok) (simp add: reading_def)
  then show ?thesis
    unfolding scanner_string_def wp_andthen
  proof (rule wp_mono)
    fix u s'
    assume s': "string_skipped s s'"
    then obtain k l where k: "s' = s\<lparr>sc_current := k, sc_line := l\<rparr>" "Suc (sc_start s) \<le> k"
        "k \<le> length (sc_source s)" "l = line_at (sc_source s) k"
        "run_of (\<lambda>c. c \<noteq> quote_char) (sc_source s) (Suc (sc_start s)) k"
        "k = length (sc_source s) \<or> sc_source s ! k = quote_char"
      using r cur that [of "sc_current s'" "sc_line s'"] by (auto simp: string_skipped_def reading_def)
    have r': "reading con s'" using r k(1-4) by (auto simp: reading_def scan_inv_def)
    show "total (reads scanner_is_at_end) (\<lambda>at_end. total
            (if at_end then scanner_error ''Unterminated string.''
             else andthen scanner_advance (\<lambda>_.
               andthen (reads (\<lambda>s. scanner_text s (sc_start s + 1) (sc_current s - sc_start s - 2))) (\<lambda>value.
               scanner_add_token TOKEN_STRING (object_new_string value)))) (\<lambda>_. scanned con)) s'"
    proof (cases "k = length (sc_source s)")
      case True
      have "total (scanner_error ''Unterminated string.'') (\<lambda>_. scanned con) s'"
        by (rule scanner_error_ok [OF r']) (use True k assms(2) in \<open>simp add: malformed_def\<close>)
      then show ?thesis using True k(1) by (simp add: wp_reads scanner_is_at_end_def)
    next
      case False
      let ?s = "s'\<lparr>sc_current := sc_current s' + 1\<rparr>"
      have q: "k < length (sc_source s)" "sc_source s ! k = quote_char" using False k by auto
      have rs: "reading con ?s"
        by (rule reading_advance [OF r']) (use q k(1) in \<open>simp add: char_is_def newline_def quote_char_def\<close>)
      have adv: "total scanner_advance Q s' = Q (sc_source s ! k) ?s" for Q
        using q k(1) by (simp add: wp_def scanner_advance_def)
      have "total (scanner_add_token TOKEN_STRING
              (OBJECT_STRING (scanner_text ?s (sc_start ?s + 1) (sc_current ?s - sc_start ?s - 2)))) (\<lambda>_. scanned con) ?s"
        by (rule add_token_ok [OF rs])
           (use q k assms(2) in \<open>auto simp: lexeme_class_def string_span_def scanner_text_def slice_def\<close>)
      then show ?thesis using False k(1,3) adv by (simp add: wp_simps scanner_is_at_end_def)
    qed
  qed
qed

lemma isdigit_not_newline: "isdigit c \<Longrightarrow> c \<noteq> newline"
  by (auto simp: isdigit_def newline_def)

lemma is_alphanumeric_not_newline: "is_alphanumeric c \<Longrightarrow> c \<noteq> newline"
  by (auto simp: is_alphanumeric_def isdigit_def is_alpha_def newline_def)

lemma class_not_NUL: "\<not> isdigit NUL" "\<not> is_alphanumeric NUL"
  by (simp_all add: isdigit_def is_alphanumeric_def is_alpha_def NUL_def)

text \<open>A loop that consumes the bytes of a class reads the longest run of them.\<close>

lemma advance_class_ok:
  assumes "reading con s" and "\<not> P NUL" and "\<And>c. P c \<Longrightarrow> c \<noteq> newline"
    and "\<And>k. sc_current s \<le> k \<Longrightarrow> run_of P (sc_source s) (sc_current s) k \<Longrightarrow>
           \<not> char_is P (sc_source s) k \<Longrightarrow> reading con (s\<lparr>sc_current := k\<rparr>) \<Longrightarrow> Q () (s\<lparr>sc_current := k\<rparr>)"
  shows "total (advance_while (\<lambda>s. P (scanner_peek s))) Q s"
proof -
  have "total (advance_while (\<lambda>s. P (scanner_peek s)))
          (\<lambda>_ s'. skipped P s s' \<and> \<not> P (scanner_peek s')) s"
    by (rule advance_while_ok)
       (use assms(1,2) in \<open>auto simp: scanner_peek_def scanner_is_at_end_def reading_def split: if_splits\<close>)
  then show ?thesis
  proof (rule wp_mono)
    fix u s'
    assume s': "skipped P s s' \<and> \<not> P (scanner_peek s')"
    then obtain k where k: "s' = s\<lparr>sc_current := k\<rparr>" "sc_current s \<le> k" "k \<le> length (sc_source s)"
        "run_of P (sc_source s) (sc_current s) k"
      by (auto simp: skipped_def)
    moreover have "reading con s'" using s' assms(3) by (auto intro: reading_skipped [OF assms(1)])
    moreover have "\<not> char_is P (sc_source s) k"
      using s' k by (auto simp: char_is_def scanner_peek_def scanner_is_at_end_def)
    ultimately show "Q u s'" using assms(4) by simp
  qed
qed

lemmas advance_digits_ok =
  advance_class_ok [where P = isdigit, OF _ class_not_NUL(1) isdigit_not_newline]

lemmas advance_word_ok =
  advance_class_ok [where P = is_alphanumeric, OF _ class_not_NUL(2) is_alphanumeric_not_newline]

lemma scanner_number_ok:
  assumes "pending con s" and "isdigit (sc_source s ! sc_start s)"
  shows "total scanner_number (\<lambda>_. scanned con) s"
proof -
  let ?src = "sc_source s" and ?i = "sc_start s"
  have r: "reading con s" and cur: "sc_current s = Suc ?i"
    using pending_reading [OF assms(1) isdigit_not_newline [OF assms(2)]] assms(1)
    by (auto simp: pending_def)
  have fin: "total (andthen (reads (\<lambda>s. scanner_text s (sc_start s) (sc_current s - sc_start s)))
      (\<lambda>value. scanner_add_token TOKEN_NUMBER (object_new_number (strtod_decimal value)))) (\<lambda>_. scanned con)
      (s\<lparr>sc_current := j\<rparr>)"
    if "reading con (s\<lparr>sc_current := j\<rparr>)" "number_span ?src ?i j" for j
    using that add_token_ok [OF that(1), of TOKEN_NUMBER]
    by (simp add: wp_simps lexeme_class_def scanner_text_def slice_def)
  show ?thesis
    unfolding scanner_number_def wp_andthen wp_reads
  proof (rule advance_digits_ok [OF r])
    fix k
    assume k: "sc_current s \<le> k" "run_of isdigit ?src (sc_current s) k" "\<not> char_is isdigit ?src k"
      and rk: "reading con (s\<lparr>sc_current := k\<rparr>)"
    have digits: "run_of isdigit ?src ?i k"
      using k(2) assms(2) cur by (metis run_of_Cons)
    let ?frac = "char_is (\<lambda>c. c = CHR ''.'') ?src k \<and> char_is isdigit ?src (k + 1)"
    have frac: "(scanner_peek (s\<lparr>sc_current := k\<rparr>) = CHR ''.'' \<and>
                 isdigit (scanner_peek_next (s\<lparr>sc_current := k\<rparr>))) = ?frac"
      using class_not_NUL(1)
      by (auto simp: scanner_peek_def scanner_peek_next_def scanner_is_at_end_def char_is_def NUL_def)
    show "total (if scanner_peek (s\<lparr>sc_current := k\<rparr>) = CHR ''.'' \<and>
                    isdigit (scanner_peek_next (s\<lparr>sc_current := k\<rparr>))
                 then andthen scanner_advance (\<lambda>_. advance_while (\<lambda>s. isdigit (scanner_peek s)))
                 else ret ())
            (\<lambda>x s'. total (scanner_add_token TOKEN_NUMBER (object_new_number
               (strtod_decimal (scanner_text s' (sc_start s') (sc_current s' - sc_start s')))))
               (\<lambda>_. scanned con) s') (s\<lparr>sc_current := k\<rparr>)"
      (is "total _ ?Q _")
    proof (cases ?frac)
      case False
      have "?i < k" using k(1) cur by simp
      then have "number_span ?src ?i k"
        unfolding number_span_def using digits k(3) False by (intro exI [of _ k]) simp
      then show ?thesis using fin [OF rk] unfolding frac if_not_P [OF False] by (simp add: wp_simps)
    next
      case True
      let ?s = "s\<lparr>sc_current := k + 1\<rparr>"
      have rs: "reading con ?s"
        using reading_advance [OF rk] True by (auto simp: char_is_def newline_def)
      have adv: "total scanner_advance R (s\<lparr>sc_current := k\<rparr>) = R (CHR ''.'') ?s" for R
        using True by (auto simp: wp_def scanner_advance_def char_is_def)
      have "total (advance_while (\<lambda>s. isdigit (scanner_peek s))) ?Q ?s"
      proof (rule advance_digits_ok [OF rs])
        fix j
        assume j: "sc_current ?s \<le> j" "run_of isdigit (sc_source ?s) (sc_current ?s) j"
            "\<not> char_is isdigit (sc_source ?s) j" and rj: "reading con (?s\<lparr>sc_current := j\<rparr>)"
        have "k + 1 \<noteq> j" using j(3) True by auto
        with j(1) have "k + 1 < j" by simp
        moreover have "?i < k" using k(1) cur by simp
        ultimately have "number_span ?src ?i j"
          unfolding number_span_def using digits k(3) True j(2,3) by (intro exI [of _ k]) simp
        then show "?Q () (?s\<lparr>sc_current := j\<rparr>)" using fin [of j] rj by (simp add: wp_simps)
      qed
      then show ?thesis using adv unfolding frac if_P [OF True] wp_andthen by simp
    qed
  qed
qed

lemma ensure_keywords_ok:
  assumes "reading con s"
  shows "total ensure_keywords (\<lambda>table s'. keywords_ok table \<and> reading con s' \<and>
           sc_source s' = sc_source s \<and> sc_start s' = sc_start s \<and> sc_current s' = sc_current s) s"
proof (cases "sc_keywords s")
  case None
  obtain table where table: "init_keywords = Some table" "keywords_ok table"
    using init_keywords_ok by blast
  have "ensure_keywords s = Done (s\<lparr>sc_keywords := Some table\<rparr>) table"
    unfolding ensure_keywords_def None table(1) by simp
  with table(2) assms show ?thesis by (simp add: wp_def reading_def scan_inv_def)
next
  case (Some table)
  with assms show ?thesis by (auto simp: wp_def ensure_keywords_def reading_def scan_inv_def)
qed

lemma scanner_identifier_ok:
  assumes "pending con s" and "is_alpha (sc_source s ! sc_start s)"
  shows "total scanner_identifier (\<lambda>_. scanned con) s"
proof -
  have alnum: "is_alphanumeric (sc_source s ! sc_start s)" using assms(2) by (simp add: is_alphanumeric_def)
  have r: "reading con s" and cur: "sc_current s = Suc (sc_start s)"
    using pending_reading [OF assms(1) is_alphanumeric_not_newline [OF alnum]] assms(1)
    by (auto simp: pending_def)
  show ?thesis
    unfolding scanner_identifier_def wp_andthen wp_reads
  proof (rule advance_word_ok [OF r])
    fix k
    assume k: "sc_current s \<le> k" "run_of is_alphanumeric (sc_source s) (sc_current s) k"
        "\<not> char_is is_alphanumeric (sc_source s) k" and rk: "reading con (s\<lparr>sc_current := k\<rparr>)"
    have word: "word_span (sc_source s) (sc_start s) k"
      using k cur assms(2) alnum run_of_Cons by (simp add: word_span_def)
    show "total ensure_keywords (\<lambda>keywords s'. total
        (case hash_table_lookup keywords (take (sc_current s' - sc_start s') (drop (sc_start s') (sc_source s'))) of
           None \<Rightarrow> exhaust | Some None \<Rightarrow> scanner_add_token TOKEN_IDENTIFIER object_new_null
         | Some (Some type) \<Rightarrow> scanner_add_token type object_new_null) (\<lambda>_. scanned con) s') (s\<lparr>sc_current := k\<rparr>)"
    proof (rule wp_mono [OF ensure_keywords_ok [OF rk]])
      fix table s'
      assume s': "keywords_ok table \<and> reading con s' \<and> sc_source s' = sc_source (s\<lparr>sc_current := k\<rparr>) \<and>
        sc_start s' = sc_start (s\<lparr>sc_current := k\<rparr>) \<and> sc_current s' = sc_current (s\<lparr>sc_current := k\<rparr>)"
      let ?w = "take (sc_current s' - sc_start s') (drop (sc_start s') (sc_source s'))"
      have "total (scanner_add_token (keyword_type ?w) OBJECT_NULL) (\<lambda>_. scanned con) s'"
        using s' word by (intro add_token_ok) (simp_all add: lexeme_class_def slice_def)
      then show "total (case hash_table_lookup table ?w of
           None \<Rightarrow> exhaust | Some None \<Rightarrow> scanner_add_token TOKEN_IDENTIFIER object_new_null
         | Some (Some type) \<Rightarrow> scanner_add_token type object_new_null) (\<lambda>_. scanned con) s'"
        using s' by (simp add: keywords_ok_def keyword_type_def split: option.splits)
    qed
  qed
qed

section \<open>The whole text\<close>

lemma scan_char_ok:
  assumes "pending con s" and "c = sc_source s ! sc_start s"
  shows "total (scan_char c) (\<lambda>_. scanned con) s"
proof (cases "c = newline")
  case True
  then have "skippable (sc_source s) (sc_start s) (sc_current s)"
    using assms by (simp add: skippable_def pending_def)
  moreover have "map_of single_char_tokens newline = None" "map_of two_char_tokens newline = None"
      "newline \<notin> set blanks"
    by (simp_all add: single_char_tokens_def two_char_tokens_def blanks_def newline_def)
  ultimately show ?thesis
    using assms True
    by (auto simp: scan_char_def wp_simps pending_def scanned_def scan_inv_def line_at_Suc intro: lexed_skip)
next
  case False
  have r: "reading con s" and cur: "sc_current s = Suc (sc_start s)"
    using assms False pending_reading by (auto simp: pending_def)
  note ops = scanner_slash_ok [OF assms(1)] scanner_string_ok [OF assms(1)] scanner_number_ok [OF assms(1)]
    scanner_identifier_ok [OF assms(1)] add_two_char_ok [OF assms(1)]
  have single: "total (add_simple type) (\<lambda>_. scanned con) s" if "map_of single_char_tokens c = Some type" for type
    using that r cur assms(2) by (intro add_simple_ok) (simp_all add: punctuator_def)
  have blank: "scanned con s" if "c \<in> set blanks"
    using that r cur assms(2) by (intro reading_skippable) (auto simp: skippable_def reading_def)
  have err: "total (scanner_error ''Unexpected character.'') (\<lambda>_. scanned con) s" if "unexpected c"
    using that r cur assms(2) by (intro scanner_error_ok) (auto simp: malformed_def reading_def)
  show ?thesis
    using ops single blank err False assms(2)
    by (auto simp: scan_char_def wp_simps unexpected_def split: option.split)
qed

lemma scan_token_ok:
  assumes "scanned con s" and "\<not> scanner_is_at_end s"
  shows "total scanner_scan_token (\<lambda>_. scanned con) (s\<lparr>sc_start := sc_current s\<rparr>)"
proof -
  let ?s = "s\<lparr>sc_start := sc_current s, sc_current := Suc (sc_current s)\<rparr>"
  have "scanner_advance (s\<lparr>sc_start := sc_current s\<rparr>) = Done ?s (sc_source s ! sc_current s)"
    using assms(2) by (simp add: scanner_advance_def scanner_is_at_end_def)
  moreover have "pending con ?s"
    using assms by (auto simp: scanned_def pending_def scan_inv_def scanner_is_at_end_def)
  then have "total (scan_char (sc_source s ! sc_current s)) (\<lambda>_. scanned con) ?s"
    by (rule scan_char_ok) simp
  ultimately show ?thesis unfolding scanner_scan_token_def wp_andthen by (simp add: wp_def)
qed

lemma scan_loop_ok:
  assumes "scanned con s"
  shows "total scan_loop (\<lambda>_ s'. scanned con s' \<and> sc_source s' = sc_source s \<and>
           sc_current s' = length (sc_source s)) s"
  using assms
proof (induction s rule: scan_loop.induct)
  case (1 s)
  show ?case
  proof (cases "scanner_is_at_end s")
    case True
    have "sc_current s \<le> length (sc_source s)"
      using "1.prems" lexed_position by (auto simp: scanned_def scan_inv_def)
    with True "1.prems" show ?thesis
      by (simp add: wp_def scan_loop.simps [of s] scanner_is_at_end_def)
  next
    case False
    obtain s' u where s': "scanner_scan_token (s\<lparr>sc_start := sc_current s\<rparr>) = Done s' u" "scanned con s'"
      using scan_token_ok [OF "1.prems" False] by (auto simp: wp_def split: outcome.splits)
    have "sc_source s' = sc_source s" using scan_token_progress(1) [OF s'(1)] by simp
    with "1.IH" [OF False s'] s' False show ?thesis by (simp add: wp_def scan_loop.simps [of s])
  qed
qed

lemma scanner_scan_tokens_ok:
  assumes "\<And>table. kw = Some table \<Longrightarrow> keywords_ok table"
  shows "\<exists>s' ts errors. scanner_scan_tokens (scanner_new source kw con) = Done s'
           (ts @ [\<lparr>t_type = TOKEN_EOF, t_lexeme = [], t_literal = OBJECT_NULL,
                   t_line = line_at source (length source)\<rparr>]) \<and>
           lexed source (length source) ts errors \<and>
           (HadError (sc_console s') \<longleftrightarrow> HadError con \<or> 0 < errors) \<and>
           con_out (sc_console s') = con_out con \<and> HadRuntimeError (sc_console s') = HadRuntimeError con \<and>
           (\<forall>table. sc_keywords s' = Some table \<longrightarrow> keywords_ok table)"
proof -
  let ?s = "scanner_new source kw con"
  have "scanned con ?s"
    using assms by (auto simp: scanned_def scan_inv_def scanner_new_def line_at_def intro: lexed_start)
  from scan_loop_ok [OF this] obtain s where
    s: "scan_loop ?s = Done s ()" "scanned con s" "sc_source s = source" "sc_current s = length source"
    by (auto simp: wp_def scanner_new_def split: outcome.splits)
  then obtain errors where e: "lexed source (length source) (sc_tokens s) errors"
      "HadError (sc_console s) \<longleftrightarrow> HadError con \<or> 0 < errors"
    by (auto simp: scanned_def scan_inv_def)
  show ?thesis
    using s e by (auto simp: scanner_scan_tokens_def andthen_def modifies_def reads_def scanned_def scan_inv_def)
qed

lemma lexed_lines:
  assumes "lexed source i ts errors"
  shows "sorted (map t_line ts) \<and> (\<forall>t \<in> set ts. t_line t \<le> line_at source i)"
proof -
  have mono: "line_at source i \<le> line_at source j" if "i \<le> j" for i j
  proof -
    have "take j source = take i source @ take (j - i) (drop i source)"
      using that by (metis le_add_diff_inverse take_add)
    then show ?thesis by (simp add: line_at_def)
  qed
  from assms show ?thesis
  proof (induction rule: lexed.induct)
    case (lexed_token i ts errors j t)
    then have "line_at source i \<le> line_at source j" "t_line t = line_at source j"
      by (auto simp: token_at_def intro: mono)
    with lexed_token.IH show ?case by (auto simp: sorted_append intro: order_trans)
  next
    case (lexed_skip i ts errors j)
    then have "line_at source i \<le> line_at source j" by (intro mono) (simp add: skippable_def)
    with lexed_skip.IH show ?case by (auto intro: order_trans)
  next
    case (lexed_error i ts errors j)
    then have "line_at source i \<le> line_at source j" by (intro mono) (simp add: malformed_def)
    with lexed_error.IH show ?case by (auto intro: order_trans)
  qed simp
qed

lemma token_at_not_EOF: "token_at source i j t \<Longrightarrow> t_type t \<noteq> TOKEN_EOF"
  by (auto simp: token_at_def lexeme_class_def punctuator_def keyword_type_not_EOF
      single_char_tokens_def two_char_tokens_def split: if_splits)

section \<open>Properties\<close>

text \<open>
  C4. Scanning any source text ends without a fault. The result is the reading of the whole
  text under the lexical grammar (longest match for words and numbers, keywords taken from the
  table, comments and blanks dropped), followed by one end token that carries the number of the
  last line. The error flag is raised if and only if it was raised before or the text has a
  malformed piece; nothing is printed to the standard output.
\<close>

theorem scanner_scan_tokens_lexes:
  assumes "\<forall>table. kw = Some table \<longrightarrow> keywords_ok table"
  shows "\<exists>s' ts errors. scanner_scan_tokens (scanner_new source kw con) = Done s'
           (ts @ [\<lparr>t_type = TOKEN_EOF, t_lexeme = [], t_literal = OBJECT_NULL,
                   t_line = line_at source (length source)\<rparr>]) \<and>
           lexed source (length source) ts errors \<and>
           (HadError (sc_console s') \<longleftrightarrow> HadError con \<or> 0 < errors) \<and>
           con_out (sc_console s') = con_out con \<and>
           (\<forall>table. sc_keywords s' = Some table \<longrightarrow> keywords_ok table)"
  using scanner_scan_tokens_ok [where kw = kw and source = source and con = con] assms by blast

theorem scanner_scan_tokens_lexes_witness:
  "\<exists>s' ts errors. scanner_scan_tokens (scanner_new ''var x = 1;'' None console_new) = Done s'
     (ts @ [\<lparr>t_type = TOKEN_EOF, t_lexeme = [], t_literal = OBJECT_NULL, t_line = 1\<rparr>]) \<and>
     lexed ''var x = 1;'' (length ''var x = 1;'') ts errors"
proof -
  have "line_at ''var x = 1;'' (length ''var x = 1;'') = 1" by (simp add: line_at_def newline_def)
  then show ?thesis
    using scanner_scan_tokens_lexes [of None "''var x = 1;''" console_new] by (simp only:) blast
qed

text \<open>
  The token list handed to the parser ends with an end token and has no other, and the
  line numbers of its tokens start at 1 or later and never decrease.
\<close>

theorem scanner_output_terminated:
  assumes "\<forall>table. kw = Some table \<longrightarrow> keywords_ok table"
  shows "\<exists>s' ts. scanner_scan_tokens (scanner_new source kw con) = Done s' ts \<and>
           ts \<noteq> [] \<and> t_type (last ts) = TOKEN_EOF \<and>
           TOKEN_EOF \<notin> t_type ` set (butlast ts) \<and> sorted (1 # map t_line ts)"
proof -
  obtain s' ts errors where ts: "scanner_scan_tokens (scanner_new source kw con) = Done s'
           (ts @ [\<lparr>t_type = TOKEN_EOF, t_lexeme = [], t_literal = OBJECT_NULL,
                   t_line = line_at source (length source)\<rparr>])"
      and lx: "lexed source (length source) ts errors"
    using scanner_scan_tokens_ok [where kw = kw and source = source and con = con] assms by blast
  have "1 \<le> t_line t" if "t \<in> set ts" for t
    using lexed_tokens [OF lx that] by (auto simp: token_at_def line_at_def)
  moreover have "1 \<le> line_at source (length source)" by (simp add: line_at_def)
  moreover have "TOKEN_EOF \<notin> t_type ` set ts"
    using lexed_tokens [OF lx] token_at_not_EOF by (metis imageE)
  ultimately show ?thesis
    using ts lexed_lines [OF lx] by (auto simp: sorted_append)
qed

theorem scanner_output_terminated_witness:
  "\<exists>s' ts. scanner_scan_tokens (scanner_new ''print 1;'' None console_new) = Done s' ts \<and>
     t_type (last ts) = TOKEN_EOF \<and> TOKEN_EOF \<notin> t_type ` set (butlast ts)"
  using scanner_output_terminated [of None "''print 1;''" console_new] by auto

text \<open>
  The keyword table that the scanner builds answers every search, and it answers with the
  token type of a keyword exactly for the sixteen keywords of Lox.
\<close>

theorem init_keywords_decides:
  "\<exists>table. init_keywords = Some table \<and>
     (\<forall>word. hash_table_lookup table word = Some (map_of keyword_list word))"
  using init_keywords_ok by (auto simp: keywords_ok_def)

end
