(* ===== verification/Parser.thy ===== *)
theory Parser
  imports Console
begin

text \<open>
  The recursive-descent parser of \<open>source/private/parser.c\<close>. The state is the C struct plus
  the console and the heap in which function declarations are allocated. A token pointer is an
  index into the token array; dereferencing one outside the array is the fault
  \<open>Out_Of_Bounds\<close>, reading a field of a NULL expression is \<open>Null_Dereference\<close>.

  Every C function is one definition. The functions that call each other in a cycle take the
  callees of the cycle as arguments (\<open>expression\<close>, \<open>statement\<close>, \<open>declaration\<close>) and a bound
  \<open>n\<close> for their loops; \<open>parse_expression\<close>, \<open>parse_statement\<close> and \<open>parse_declaration\<close> tie the
  knot with fuel. The fuel is a bound on the tokens left to read: every loop iteration and
  every nested call consumes one first, so the length of the token list is enough.
\<close>

section \<open>State and token access\<close>

record parser =
  p_tokens :: "token list"
  p_current :: nat
  p_heap :: declarations
  p_console :: console

type_synonym token_ptr = int
type_synonym 'a parse = "(parser, 'a) run"

definition parser_new :: "token list \<Rightarrow> declarations \<Rightarrow> console \<Rightarrow> parser" where
  "parser_new tokens heap con =
     \<lparr>p_tokens = tokens, p_current = 0, p_heap = heap, p_console = con\<rparr>"

definition deref :: "token_ptr \<Rightarrow> token parse" where
  "deref a p =
     (if 0 \<le> a \<and> nat a < length (p_tokens p) then Done p (p_tokens p ! nat a) else Fault Out_Of_Bounds)"

definition parser_previous :: "token_ptr parse" where
  "parser_previous = reads (\<lambda>p. int (p_current p) - 1)"

definition parser_peek :: "token_ptr parse" where
  "parser_peek = reads (\<lambda>p. int (p_current p))"

definition parser_is_at_end :: "bool parse" where
  "parser_is_at_end =
     andthen parser_peek (\<lambda>a. andthen (deref a) (\<lambda>tok. ret (t_type tok = TOKEN_EOF)))"

definition parser_advance :: "token_ptr parse" where
  "parser_advance =
     andthen parser_is_at_end (\<lambda>at_end.
     andthen (if at_end then ret () else modifies (\<lambda>p. p\<lparr>p_current := p_current p + 1\<rparr>)) (\<lambda>_.
     parser_previous))"

definition parser_check :: "token_type \<Rightarrow> bool parse" where
  "parser_check type =
     andthen parser_is_at_end (\<lambda>at_end.
     if at_end then ret False
     else andthen parser_peek (\<lambda>a. andthen (deref a) (\<lambda>tok. ret (t_type tok = type))))"

fun parser_match :: "token_type list \<Rightarrow> bool parse" where
  "parser_match [] = ret False"
| "parser_match (type # types) =
     andthen (parser_check type) (\<lambda>found.
     if found then andthen parser_advance (\<lambda>_. ret True) else parser_match types)"

definition parser_error :: "token_ptr \<Rightarrow> string \<Rightarrow> unit parse" where
  "parser_error a message =
     andthen (deref a) (\<lambda>tok.
     modifies (\<lambda>p. p\<lparr>p_console := library_error_at_token tok message (p_console p)\<rparr>))"

definition parser_consume :: "token_type \<Rightarrow> string \<Rightarrow> token_ptr option parse" where
  "parser_consume type message =
     andthen (parser_check type) (\<lambda>found.
     if found then andthen parser_advance (\<lambda>a. ret (Some a))
     else andthen parser_peek (\<lambda>a. andthen (parser_error a message) (\<lambda>_. ret None)))"

definition sync_types :: "token_type list" where
  "sync_types = [TOKEN_CLASS, TOKEN_FOR, TOKEN_FUN, TOKEN_IF, TOKEN_PRINT, TOKEN_RETURN, TOKEN_VAR,
     TOKEN_WHILE]"

fun sync_loop :: "nat \<Rightarrow> unit parse" where
  "sync_loop n p =
    (andthen parser_is_at_end (\<lambda>at_end.
     if at_end then ret ()
     else
       andthen parser_previous (\<lambda>b. andthen (deref b) (\<lambda>prev.
       if t_type prev = TOKEN_SEMICOLON then ret ()
       else
         andthen parser_peek (\<lambda>a. andthen (deref a) (\<lambda>tok.
         if t_type tok \<in> set sync_types then ret ()
         else
           andthen parser_advance (\<lambda>_.
           case n of 0 \<Rightarrow> exhaust | Suc k \<Rightarrow> sync_loop k))))))) p"

declare sync_loop.simps [simp del]

definition parser_synchronize :: "nat \<Rightarrow> unit parse" where
  "parser_synchronize n = andthen parser_advance (\<lambda>_. sync_loop n)"

section \<open>Expressions\<close>

text \<open>\<open>*parser_previous(parser)\<close>\<close>

definition previous_token :: "token parse" where
  "previous_token = andthen parser_previous deref"

definition parse_primary :: "expr option parse \<Rightarrow> expr option parse" where
  "parse_primary expression =
     andthen (parser_match [TOKEN_FALSE]) (\<lambda>m. if m then ret (Some (expr_new_literal (object_new_bool False))) else
     andthen (parser_match [TOKEN_TRUE]) (\<lambda>m. if m then ret (Some (expr_new_literal (object_new_bool True))) else
     andthen (parser_match [TOKEN_NIL]) (\<lambda>m. if m then ret (Some (expr_new_literal object_new_null)) else
     andthen (parser_match [TOKEN_NUMBER, TOKEN_STRING]) (\<lambda>m.
       if m then andthen previous_token (\<lambda>tok. ret (Some (expr_new_literal (t_literal tok)))) else
     andthen (parser_match [TOKEN_IDENTIFIER]) (\<lambda>m.
       if m then andthen previous_token (\<lambda>tok. ret (Some (expr_new_variable tok))) else
     andthen (parser_match [TOKEN_LEFT_PAREN]) (\<lambda>m.
       if m then
         andthen expression (\<lambda>e.
         andthen (parser_consume TOKEN_RIGHT_PAREN ''Expect ')' after expression.'') (\<lambda>_.
         ret (Some (expr_new_grouping e))))
       else
         andthen parser_peek (\<lambda>a. andthen (parser_error a ''Expect expression.'') (\<lambda>_. ret None))))))))"

definition MAX_ARGUMENTS :: nat where
  "MAX_ARGUMENTS = 255"

fun argument_loop :: "expr option parse \<Rightarrow> nat \<Rightarrow> expr list \<Rightarrow> expr list option parse" where
  "argument_loop expression n arguments p =
    (andthen (if MAX_ARGUMENTS \<le> length arguments
              then andthen parser_peek (\<lambda>a. parser_error a ''Can't have more than 255 arguments.'')
              else ret ()) (\<lambda>_.
     or_null expression (\<lambda>e.
     andthen (parser_match [TOKEN_COMMA]) (\<lambda>m.
     if \<not> m then ret (Some (arguments @ [e]))
     else (case n of 0 \<Rightarrow> exhaust | Suc k \<Rightarrow> argument_loop expression k (arguments @ [e])))))) p"

declare argument_loop.simps [simp del]

definition finish_call :: "nat \<Rightarrow> expr option parse \<Rightarrow> expr \<Rightarrow> expr option parse" where
  "finish_call n expression callee =
     andthen (parser_check TOKEN_RIGHT_PAREN) (\<lambda>empty.
     or_null (if empty then ret (Some []) else argument_loop expression n []) (\<lambda>arguments.
     or_null (parser_consume TOKEN_RIGHT_PAREN ''Expect ')' after arguments.'') (\<lambda>a.
     andthen (deref a) (\<lambda>paren.
     ret (Some (expr_new_call callee paren arguments))))))"

fun call_loop :: "expr option parse \<Rightarrow> nat \<Rightarrow> expr \<Rightarrow> expr option parse" where
  "call_loop expression n e p =
    (andthen (parser_match [TOKEN_LEFT_PAREN]) (\<lambda>m.
     if \<not> m then ret (Some e)
     else (case n of 0 \<Rightarrow> exhaust
           | Suc k \<Rightarrow> or_null (finish_call (Suc k) expression e) (call_loop expression k)))) p"

declare call_loop.simps [simp del]

definition parse_call :: "nat \<Rightarrow> expr option parse \<Rightarrow> expr option parse" where
  "parse_call n expression = or_null (parse_primary expression) (call_loop expression n)"

fun parse_unary :: "expr option parse \<Rightarrow> nat \<Rightarrow> expr option parse" where
  "parse_unary expression n p =
    (andthen (parser_match [TOKEN_BANG, TOKEN_MINUS]) (\<lambda>m.
     if m then
       andthen previous_token (\<lambda>op.
       or_null (case n of 0 \<Rightarrow> exhaust | Suc k \<Rightarrow> parse_unary expression k) (\<lambda>right.
       ret (Some (expr_new_unary op right))))
     else parse_call n expression)) p"

declare parse_unary.simps [simp del]

text \<open>
  The loop that \<open>parse_factor\<close>, \<open>parse_term\<close>, \<open>parse_comparison\<close> and \<open>parse_equality\<close> share, and
  the one of \<open>parse_and\<close> and \<open>parse_or\<close>, which does not test for NULL.
\<close>

fun binary_loop :: "token_type list \<Rightarrow> expr option parse \<Rightarrow> nat \<Rightarrow> expr \<Rightarrow> expr option parse" where
  "binary_loop types operand n e p =
    (andthen (parser_match types) (\<lambda>m.
     if \<not> m then ret (Some e)
     else
       andthen previous_token (\<lambda>op.
       or_null operand (\<lambda>right.
       case n of 0 \<Rightarrow> exhaust | Suc k \<Rightarrow> binary_loop types operand k (expr_new_binary e op right))))) p"

declare binary_loop.simps [simp del]

fun logical_loop :: "token_type list \<Rightarrow> expr option parse \<Rightarrow> nat \<Rightarrow> expr option \<Rightarrow> expr option parse" where
  "logical_loop types operand n e p =
    (andthen (parser_match types) (\<lambda>m.
     if \<not> m then ret e
     else
       andthen previous_token (\<lambda>op.
       andthen operand (\<lambda>right.
       case n of 0 \<Rightarrow> exhaust | Suc k \<Rightarrow> logical_loop types operand k (Some (expr_new_logical e op right)))))) p"

declare logical_loop.simps [simp del]

definition parse_factor :: "nat \<Rightarrow> expr option parse \<Rightarrow> expr option parse" where
  "parse_factor n expression =
     or_null (parse_unary expression n)
       (binary_loop [TOKEN_SLASH, TOKEN_STAR] (parse_unary expression n) n)"

definition parse_term :: "nat \<Rightarrow> expr option parse \<Rightarrow> expr option parse" where
  "parse_term n expression =
     or_null (parse_factor n expression)
       (binary_loop [TOKEN_MINUS, TOKEN_PLUS] (parse_factor n expression) n)"

definition parse_comparison :: "nat \<Rightarrow> expr option parse \<Rightarrow> expr option parse" where
  "parse_comparison n expression =
     or_null (parse_term n expression)
       (binary_loop [TOKEN_GREATER, TOKEN_GREATER_EQUAL, TOKEN_LESS, TOKEN_LESS_EQUAL]
          (parse_term n expression) n)"

definition parse_equality :: "nat \<Rightarrow> expr option parse \<Rightarrow> expr option parse" where
  "parse_equality n expression =
     or_null (parse_comparison n expression)
       (binary_loop [TOKEN_BANG_EQUAL, TOKEN_EQUAL_EQUAL] (parse_comparison n expression) n)"

definition parse_and :: "nat \<Rightarrow> expr option parse \<Rightarrow> expr option parse" where
  "parse_and n expression =
     andthen (parse_equality n expression)
       (logical_loop [TOKEN_AND] (parse_equality n expression) n)"

definition parse_or :: "nat \<Rightarrow> expr option parse \<Rightarrow> expr option parse" where
  "parse_or n expression =
     andthen (parse_and n expression) (logical_loop [TOKEN_OR] (parse_and n expression) n)"

definition parse_assignment :: "nat \<Rightarrow> expr option parse \<Rightarrow> expr option parse" where
  "parse_assignment n assignment =
     andthen (parse_or n assignment) (\<lambda>e.
     andthen (parser_match [TOKEN_EQUAL]) (\<lambda>m.
     if m then
       andthen parser_previous (\<lambda>equals.
       andthen assignment (\<lambda>value.
       case e of
         None \<Rightarrow> raise_fault Null_Dereference
       | Some (EXPR_VARIABLE name) \<Rightarrow> ret (Some (expr_new_assign name value))
       | Some _ \<Rightarrow> andthen (parser_error equals ''Invalid assignment target.'') (\<lambda>_. ret e)))
     else ret e))"

fun parse_expression :: "nat \<Rightarrow> expr option parse" where
  "parse_expression 0 p = exhaust p"
| "parse_expression (Suc n) p = parse_assignment (Suc n) (parse_expression n) p"

section \<open>Statements\<close>

definition parse_print_statement :: "expr option parse \<Rightarrow> stmt option parse" where
  "parse_print_statement expression =
     or_null expression (\<lambda>value.
     or_null (parser_consume TOKEN_SEMICOLON ''Expect ';' after value.'') (\<lambda>_.
     ret (Some (stmt_new_print value))))"

fun block_loop :: "stmt option parse \<Rightarrow> nat \<Rightarrow> stmt list \<Rightarrow> stmt list option parse" where
  "block_loop declaration n statements p =
    (andthen (parser_check TOKEN_RIGHT_BRACE) (\<lambda>closing.
     andthen (if closing then ret True else parser_is_at_end) (\<lambda>stop.
     if stop then ret (Some statements)
     else
       or_null declaration (\<lambda>statement.
       case n of 0 \<Rightarrow> exhaust | Suc k \<Rightarrow> block_loop declaration k (statements @ [statement]))))) p"

declare block_loop.simps [simp del]

definition parse_block :: "nat \<Rightarrow> stmt option parse \<Rightarrow> stmt list option parse" where
  "parse_block n declaration =
     or_null (block_loop declaration n []) (\<lambda>statements.
     or_null (parser_consume TOKEN_RIGHT_BRACE ''Expect '}' after block.'') (\<lambda>_.
     ret (Some statements)))"

definition parse_expression_statement :: "expr option parse \<Rightarrow> stmt option parse" where
  "parse_expression_statement expression =
     or_null expression (\<lambda>e.
     or_null (parser_consume TOKEN_SEMICOLON ''Expect ';' after expression.'') (\<lambda>_.
     ret (Some (stmt_new_expression e))))"

definition parse_if_statement :: "expr option parse \<Rightarrow> stmt option parse \<Rightarrow> stmt option parse" where
  "parse_if_statement expression statement =
     or_null (parser_consume TOKEN_LEFT_PAREN ''Expect '(' after 'if'.'') (\<lambda>_.
     or_null expression (\<lambda>condition.
     or_null (parser_consume TOKEN_RIGHT_PAREN ''Expect ')' after if condition.'') (\<lambda>_.
     or_null statement (\<lambda>then_branch.
     andthen (parser_match [TOKEN_ELSE]) (\<lambda>m.
     if m then or_null statement (\<lambda>else_branch.
            ret (Some (stmt_new_if condition then_branch (Some else_branch))))
     else ret (Some (stmt_new_if condition then_branch None)))))))"

definition parse_var_declaration :: "expr option parse \<Rightarrow> stmt option parse" where
  "parse_var_declaration expression =
     or_null (parser_consume TOKEN_IDENTIFIER ''Expect variable name.'') (\<lambda>name.
     andthen (parser_match [TOKEN_EQUAL]) (\<lambda>m.
     or_null (if m then or_null expression (\<lambda>e. ret (Some (Some e))) else ret (Some None)) (\<lambda>initializer.
     or_null (parser_consume TOKEN_SEMICOLON ''Expect ';' after variable declaration.'') (\<lambda>_.
     andthen (deref name) (\<lambda>tok.
     ret (Some (stmt_new_var tok initializer)))))))"

text \<open>An optional clause of a \<open>for\<close> or a \<open>return\<close>: NULL when the terminator comes first.\<close>

definition optional_clause :: "token_type \<Rightarrow> expr option parse \<Rightarrow> expr option option parse" where
  "optional_clause terminator expression =
     andthen (parser_check terminator) (\<lambda>absent.
     if absent then ret (Some None) else or_null expression (\<lambda>e. ret (Some (Some e))))"

definition for_initializer :: "expr option parse \<Rightarrow> stmt option option parse" where
  "for_initializer expression =
     andthen (parser_match [TOKEN_SEMICOLON]) (\<lambda>m. if m then ret (Some None) else
     andthen (parser_match [TOKEN_VAR]) (\<lambda>m.
     if m then or_null (parse_var_declaration expression) (\<lambda>s. ret (Some (Some s)))
     else or_null (parse_expression_statement expression) (\<lambda>s. ret (Some (Some s)))))"

definition desugar_for :: "stmt option \<Rightarrow> expr option \<Rightarrow> expr option \<Rightarrow> stmt \<Rightarrow> stmt" where
  "desugar_for initializer condition increment body =
     (let body = (case increment of None \<Rightarrow> body
                  | Some e \<Rightarrow> stmt_new_block [body, stmt_new_expression e]);
          condition = (case condition of None \<Rightarrow> expr_new_literal (OBJECT_BOOL True) | Some e \<Rightarrow> e);
          body = stmt_new_while condition body
      in (case initializer of None \<Rightarrow> body | Some s \<Rightarrow> stmt_new_block [s, body]))"

definition parse_for_statement :: "expr option parse \<Rightarrow> stmt option parse \<Rightarrow> stmt option parse" where
  "parse_for_statement expression statement =
     or_null (parser_consume TOKEN_LEFT_PAREN ''Expect '(' after 'for'.'') (\<lambda>_.
     or_null (for_initializer expression) (\<lambda>initializer.
     or_null (optional_clause TOKEN_SEMICOLON expression) (\<lambda>condition.
     or_null (parser_consume TOKEN_SEMICOLON ''Expect ';' after loop condition.'') (\<lambda>_.
     or_null (optional_clause TOKEN_RIGHT_PAREN expression) (\<lambda>increment.
     or_null (parser_consume TOKEN_RIGHT_PAREN ''Expect ')' after for clauses.'') (\<lambda>_.
     or_null statement (\<lambda>body.
     ret (Some (desugar_for initializer condition increment body)))))))))"

definition parse_return_statement :: "expr option parse \<Rightarrow> stmt option parse" where
  "parse_return_statement expression =
     andthen parser_previous (\<lambda>keyword.
     or_null (optional_clause TOKEN_SEMICOLON expression) (\<lambda>value.
     or_null (parser_consume TOKEN_SEMICOLON ''Expect ';' after return value.'') (\<lambda>_.
     andthen (deref keyword) (\<lambda>tok.
     ret (Some (stmt_new_return tok value))))))"

definition parse_while_statement :: "expr option parse \<Rightarrow> stmt option parse \<Rightarrow> stmt option parse" where
  "parse_while_statement expression statement =
     or_null (parser_consume TOKEN_LEFT_PAREN ''Expect '(' after 'while'.'') (\<lambda>_.
     or_null expression (\<lambda>condition.
     or_null (parser_consume TOKEN_RIGHT_PAREN ''Expect ')' after condition.'') (\<lambda>_.
     or_null statement (\<lambda>body.
     ret (Some (stmt_new_while condition body))))))"

definition PARAMS_MAX :: nat where
  "PARAMS_MAX = 255"

fun parameter_loop :: "nat \<Rightarrow> token list \<Rightarrow> token list option parse" where
  "parameter_loop n parameters p =
    (andthen (if PARAMS_MAX \<le> length parameters
              then andthen parser_peek (\<lambda>a. parser_error a ''Can't have more than 255 parameters.'')
              else ret ()) (\<lambda>_.
     or_null (parser_consume TOKEN_IDENTIFIER ''Expect parameter name.'') (\<lambda>a.
     andthen (deref a) (\<lambda>param.
     andthen (parser_match [TOKEN_COMMA]) (\<lambda>m.
     if \<not> m then ret (Some (parameters @ [param]))
     else (case n of 0 \<Rightarrow> exhaust | Suc k \<Rightarrow> parameter_loop k (parameters @ [param]))))))) p"

declare parameter_loop.simps [simp del]

definition alloc_function :: "token \<Rightarrow> token list \<Rightarrow> stmt list option \<Rightarrow> stmt parse" where
  "alloc_function name params body p =
     (let (s, heap) = stmt_new_function name params body (p_heap p) in Done (p\<lparr>p_heap := heap\<rparr>) s)"

definition parse_function :: "nat \<Rightarrow> stmt option parse \<Rightarrow> string \<Rightarrow> stmt option parse" where
  "parse_function n declaration kind =
     or_null (parser_consume TOKEN_IDENTIFIER (''Expect '' @ kind @ '' name.'')) (\<lambda>name.
     or_null (parser_consume TOKEN_LEFT_PAREN (''Expect '(' after '' @ kind @ '' name.'')) (\<lambda>_.
     andthen (parser_check TOKEN_RIGHT_PAREN) (\<lambda>empty.
     or_null (if empty then ret (Some []) else parameter_loop n []) (\<lambda>parameters.
     or_null (parser_consume TOKEN_RIGHT_PAREN ''Expect ')' after parameters.'') (\<lambda>_.
     or_null (parser_consume TOKEN_LEFT_BRACE (''Expect '{' before '' @ kind @ '' body.'')) (\<lambda>_.
     andthen (parse_block n declaration) (\<lambda>body.
     andthen (deref name) (\<lambda>tok.
     andthen (alloc_function tok parameters body) (\<lambda>s.
     ret (Some s))))))))))"

definition parse_statement_body ::
  "nat \<Rightarrow> expr option parse \<Rightarrow> stmt option parse \<Rightarrow> stmt option parse \<Rightarrow> stmt option parse" where
  "parse_statement_body n expression statement declaration =
     andthen (parser_match [TOKEN_IF]) (\<lambda>m. if m then parse_if_statement expression statement else
     andthen (parser_match [TOKEN_FOR]) (\<lambda>m. if m then parse_for_statement expression statement else
     andthen (parser_match [TOKEN_PRINT]) (\<lambda>m. if m then parse_print_statement expression else
     andthen (parser_match [TOKEN_RETURN]) (\<lambda>m. if m then parse_return_statement expression else
     andthen (parser_match [TOKEN_WHILE]) (\<lambda>m. if m then parse_while_statement expression statement else
     andthen (parser_match [TOKEN_LEFT_BRACE]) (\<lambda>m.
       if m then or_null (parse_block n declaration) (\<lambda>statements. ret (Some (stmt_new_block statements)))
       else parse_expression_statement expression))))))"

definition parse_declaration_body ::
  "nat \<Rightarrow> expr option parse \<Rightarrow> stmt option parse \<Rightarrow> stmt option parse \<Rightarrow> stmt option parse" where
  "parse_declaration_body n expression statement declaration =
     andthen (parser_match [TOKEN_FUN]) (\<lambda>m.
     andthen (if m then parse_function n declaration ''function''
              else
                andthen (parser_match [TOKEN_VAR]) (\<lambda>m.
                if m then parse_var_declaration expression else statement)) (\<lambda>r.
     case r of Some decl \<Rightarrow> ret (Some decl)
     | None \<Rightarrow> andthen (parser_synchronize n) (\<lambda>_. ret None)))"

fun parse_statement :: "nat \<Rightarrow> stmt option parse"
and parse_declaration :: "nat \<Rightarrow> stmt option parse" where
  "parse_statement 0 p = exhaust p"
| "parse_statement (Suc n) p =
     parse_statement_body (Suc n) (parse_expression (Suc n)) (parse_statement n) (parse_declaration n) p"
| "parse_declaration 0 p = exhaust p"
| "parse_declaration (Suc n) p =
     parse_declaration_body (Suc n) (parse_expression (Suc n)) (parse_statement (Suc n)) (parse_declaration n) p"

fun parse_loop :: "nat \<Rightarrow> stmt list \<Rightarrow> stmt list parse" where
  "parse_loop n statements p =
    (andthen parser_is_at_end (\<lambda>at_end.
     if at_end then ret statements
     else
       andthen (parse_declaration n) (\<lambda>statement.
       case n of 0 \<Rightarrow> exhaust
       | Suc k \<Rightarrow> parse_loop k (case statement of None \<Rightarrow> statements | Some s \<Rightarrow> statements @ [s])))) p"

declare parse_loop.simps [simp del]

definition parser_parse :: "stmt list parse" where
  "parser_parse = andthen (reads (\<lambda>p. length (p_tokens p))) (\<lambda>n. parse_loop n [])"

end
