(* ===== verification/Grammar.thy ===== *)
theory Grammar
  imports Lox_Syntax
begin

text \<open>
  The grammar of Lox as the parser implements it, stated over positions of a token list:
  \<open>derives ts level e i j\<close> says that the tokens \<open>i, ..., j - 1\<close> form the expression \<open>e\<close> at a
  level of precedence. Binary and logical operators associate to the left, assignment and the
  unary operators to the right, an \<open>else\<close> belongs to the nearest \<open>if\<close>, and a \<open>for\<close> is the
  \<open>while\<close> it stands for. The statement grammar refers to the heap of declarations, where the
  parser puts the functions. \<open>expr_wf\<close> and \<open>stmt_wf\<close> describe what a consumer of a syntax tree
  may rely on: no NULL child, operators of the right kind, allocated functions.
\<close>

section \<open>Expressions\<close>

definition kind :: "token list \<Rightarrow> nat \<Rightarrow> token_type \<Rightarrow> bool" where
  "kind ts i type \<longleftrightarrow> i < length ts \<and> t_type (ts ! i) = type"

datatype level =
    ASSIGNMENT | OR_LEVEL | AND_LEVEL | EQUALITY | COMPARISON | TERM_LEVEL | FACTOR_LEVEL | UNARY | CALL | PRIMARY

fun tighter :: "level \<Rightarrow> level" where
  "tighter ASSIGNMENT = OR_LEVEL"
| "tighter OR_LEVEL = AND_LEVEL"
| "tighter AND_LEVEL = EQUALITY"
| "tighter EQUALITY = COMPARISON"
| "tighter COMPARISON = TERM_LEVEL"
| "tighter TERM_LEVEL = FACTOR_LEVEL"
| "tighter FACTOR_LEVEL = UNARY"
| "tighter UNARY = CALL"
| "tighter CALL = PRIMARY"
| "tighter PRIMARY = PRIMARY"

fun logical_types :: "level \<Rightarrow> token_type list" where
  "logical_types OR_LEVEL = [TOKEN_OR]"
| "logical_types AND_LEVEL = [TOKEN_AND]"
| "logical_types _ = []"

fun binary_types :: "level \<Rightarrow> token_type list" where
  "binary_types EQUALITY = [TOKEN_BANG_EQUAL, TOKEN_EQUAL_EQUAL]"
| "binary_types COMPARISON = [TOKEN_GREATER, TOKEN_GREATER_EQUAL, TOKEN_LESS, TOKEN_LESS_EQUAL]"
| "binary_types TERM_LEVEL = [TOKEN_MINUS, TOKEN_PLUS]"
| "binary_types FACTOR_LEVEL = [TOKEN_SLASH, TOKEN_STAR]"
| "binary_types _ = []"

inductive derives :: "token list \<Rightarrow> level \<Rightarrow> expr \<Rightarrow> nat \<Rightarrow> nat \<Rightarrow> bool"
  and arguments_at :: "token list \<Rightarrow> expr list \<Rightarrow> nat \<Rightarrow> nat \<Rightarrow> bool"
  for ts where
  d_tighter: "derives ts (tighter l) e i j \<Longrightarrow> derives ts l e i j"
| d_assign: "kind ts i TOKEN_IDENTIFIER \<Longrightarrow> kind ts (Suc i) TOKEN_EQUAL \<Longrightarrow>
    derives ts ASSIGNMENT e (Suc (Suc i)) j \<Longrightarrow> derives ts ASSIGNMENT (EXPR_ASSIGN (ts ! i) (Some e)) i j"
| d_logical: "derives ts l a i j \<Longrightarrow> kind ts j type \<Longrightarrow> type \<in> set (logical_types l) \<Longrightarrow>
    derives ts (tighter l) b (Suc j) k \<Longrightarrow> derives ts l (EXPR_LOGICAL (Some a) (ts ! j) (Some b)) i k"
| d_binary: "derives ts l a i j \<Longrightarrow> kind ts j type \<Longrightarrow> type \<in> set (binary_types l) \<Longrightarrow>
    derives ts (tighter l) b (Suc j) k \<Longrightarrow> derives ts l (EXPR_BINARY a (ts ! j) b) i k"
| d_unary: "kind ts i type \<Longrightarrow> type \<in> {TOKEN_BANG, TOKEN_MINUS} \<Longrightarrow> derives ts UNARY e (Suc i) j \<Longrightarrow>
    derives ts UNARY (EXPR_UNARY (ts ! i) e) i j"
| d_call: "derives ts CALL f i j \<Longrightarrow> kind ts j TOKEN_LEFT_PAREN \<Longrightarrow> arguments_at ts es (Suc j) k \<Longrightarrow>
    length es \<le> 255 \<Longrightarrow> kind ts k TOKEN_RIGHT_PAREN \<Longrightarrow> derives ts CALL (EXPR_CALL f (ts ! k) es) i (Suc k)"
| d_false: "kind ts i TOKEN_FALSE \<Longrightarrow> derives ts PRIMARY (EXPR_LITERAL (OBJECT_BOOL False)) i (Suc i)"
| d_true: "kind ts i TOKEN_TRUE \<Longrightarrow> derives ts PRIMARY (EXPR_LITERAL (OBJECT_BOOL True)) i (Suc i)"
| d_nil: "kind ts i TOKEN_NIL \<Longrightarrow> derives ts PRIMARY (EXPR_LITERAL OBJECT_NULL) i (Suc i)"
| d_number: "kind ts i TOKEN_NUMBER \<Longrightarrow> derives ts PRIMARY (EXPR_LITERAL (t_literal (ts ! i))) i (Suc i)"
| d_string: "kind ts i TOKEN_STRING \<Longrightarrow> derives ts PRIMARY (EXPR_LITERAL (t_literal (ts ! i))) i (Suc i)"
| d_variable: "kind ts i TOKEN_IDENTIFIER \<Longrightarrow> derives ts PRIMARY (EXPR_VARIABLE (ts ! i)) i (Suc i)"
| d_grouping: "kind ts i TOKEN_LEFT_PAREN \<Longrightarrow> derives ts ASSIGNMENT e (Suc i) j \<Longrightarrow>
    kind ts j TOKEN_RIGHT_PAREN \<Longrightarrow> derives ts PRIMARY (EXPR_GROUPING (Some e)) i (Suc j)"
| a_empty: "arguments_at ts [] i i"
| a_first: "derives ts ASSIGNMENT e i j \<Longrightarrow> arguments_at ts [e] i j"
| a_more: "arguments_at ts es i j \<Longrightarrow> es \<noteq> [] \<Longrightarrow> kind ts j TOKEN_COMMA \<Longrightarrow>
    derives ts ASSIGNMENT e (Suc j) k \<Longrightarrow> arguments_at ts (es @ [e]) i k"

section \<open>Statements\<close>

text \<open>An optional expression in front of a terminator, and the parts of declarations.\<close>

inductive clause_at :: "token list \<Rightarrow> token_type \<Rightarrow> expr option \<Rightarrow> nat \<Rightarrow> nat \<Rightarrow> bool" for ts where
  c_absent: "kind ts i terminator \<Longrightarrow> clause_at ts terminator None i i"
| c_present: "\<not> kind ts i terminator \<Longrightarrow> derives ts ASSIGNMENT e i j \<Longrightarrow> clause_at ts terminator (Some e) i j"

inductive variable_at :: "token list \<Rightarrow> stmt \<Rightarrow> nat \<Rightarrow> nat \<Rightarrow> bool" for ts where
  v_plain: "kind ts i TOKEN_VAR \<Longrightarrow> kind ts (Suc i) TOKEN_IDENTIFIER \<Longrightarrow> kind ts (Suc (Suc i)) TOKEN_SEMICOLON \<Longrightarrow>
    variable_at ts (STMT_VAR (ts ! Suc i) None) i (Suc (Suc (Suc i)))"
| v_init: "kind ts i TOKEN_VAR \<Longrightarrow> kind ts (Suc i) TOKEN_IDENTIFIER \<Longrightarrow> kind ts (Suc (Suc i)) TOKEN_EQUAL \<Longrightarrow>
    derives ts ASSIGNMENT e (Suc (Suc (Suc i))) j \<Longrightarrow> kind ts j TOKEN_SEMICOLON \<Longrightarrow>
    variable_at ts (STMT_VAR (ts ! Suc i) (Some e)) i (Suc j)"

inductive expression_statement_at :: "token list \<Rightarrow> stmt \<Rightarrow> nat \<Rightarrow> nat \<Rightarrow> bool" for ts where
  es_intro: "derives ts ASSIGNMENT e i j \<Longrightarrow> kind ts j TOKEN_SEMICOLON \<Longrightarrow>
    expression_statement_at ts (STMT_EXPRESSION e) i (Suc j)"

inductive initializer_at :: "token list \<Rightarrow> stmt option \<Rightarrow> nat \<Rightarrow> nat \<Rightarrow> bool" for ts where
  i_none: "kind ts i TOKEN_SEMICOLON \<Longrightarrow> initializer_at ts None i (Suc i)"
| i_var: "variable_at ts s i j \<Longrightarrow> initializer_at ts (Some s) i j"
| i_expr: "expression_statement_at ts s i j \<Longrightarrow> initializer_at ts (Some s) i j"

inductive parameters_at :: "token list \<Rightarrow> token list \<Rightarrow> nat \<Rightarrow> nat \<Rightarrow> bool" for ts where
  p_empty: "parameters_at ts [] i i"
| p_first: "kind ts i TOKEN_IDENTIFIER \<Longrightarrow> parameters_at ts [ts ! i] i (Suc i)"
| p_more: "parameters_at ts ps i j \<Longrightarrow> ps \<noteq> [] \<Longrightarrow> kind ts j TOKEN_COMMA \<Longrightarrow> kind ts (Suc j) TOKEN_IDENTIFIER \<Longrightarrow>
    parameters_at ts (ps @ [ts ! Suc j]) i (Suc (Suc j))"

text \<open>What a \<open>for\<close> with the given clauses means in terms of \<open>while\<close> and blocks.\<close>

definition for_meaning :: "stmt option \<Rightarrow> expr option \<Rightarrow> expr option \<Rightarrow> stmt \<Rightarrow> stmt" where
  "for_meaning init cond incr body =
     (let loop = STMT_WHILE (case cond of None \<Rightarrow> EXPR_LITERAL (OBJECT_BOOL True) | Some c \<Rightarrow> c)
                   (case incr of None \<Rightarrow> body | Some e \<Rightarrow> STMT_BLOCK [body, STMT_EXPRESSION e])
      in (case init of None \<Rightarrow> loop | Some s \<Rightarrow> STMT_BLOCK [s, loop]))"

inductive statement_at :: "token list \<Rightarrow> declarations \<Rightarrow> stmt \<Rightarrow> nat \<Rightarrow> nat \<Rightarrow> bool"
  and declaration_at_tokens :: "token list \<Rightarrow> declarations \<Rightarrow> stmt \<Rightarrow> nat \<Rightarrow> nat \<Rightarrow> bool"
  and block_at :: "token list \<Rightarrow> declarations \<Rightarrow> stmt list \<Rightarrow> nat \<Rightarrow> nat \<Rightarrow> bool"
  for ts heap where
  s_expression: "expression_statement_at ts s i j \<Longrightarrow> statement_at ts heap s i j"
| s_print: "kind ts i TOKEN_PRINT \<Longrightarrow> derives ts ASSIGNMENT e (Suc i) j \<Longrightarrow> kind ts j TOKEN_SEMICOLON \<Longrightarrow>
    statement_at ts heap (STMT_PRINT e) i (Suc j)"
| s_return: "kind ts i TOKEN_RETURN \<Longrightarrow> clause_at ts TOKEN_SEMICOLON v (Suc i) j \<Longrightarrow> kind ts j TOKEN_SEMICOLON \<Longrightarrow>
    statement_at ts heap (STMT_RETURN (ts ! i) v) i (Suc j)"
| s_if: "kind ts i TOKEN_IF \<Longrightarrow> kind ts (Suc i) TOKEN_LEFT_PAREN \<Longrightarrow> derives ts ASSIGNMENT c (Suc (Suc i)) j \<Longrightarrow>
    kind ts j TOKEN_RIGHT_PAREN \<Longrightarrow> statement_at ts heap s (Suc j) k \<Longrightarrow> \<not> kind ts k TOKEN_ELSE \<Longrightarrow>
    statement_at ts heap (STMT_IF c s None) i k"
| s_if_else: "kind ts i TOKEN_IF \<Longrightarrow> kind ts (Suc i) TOKEN_LEFT_PAREN \<Longrightarrow> derives ts ASSIGNMENT c (Suc (Suc i)) j \<Longrightarrow>
    kind ts j TOKEN_RIGHT_PAREN \<Longrightarrow> statement_at ts heap s (Suc j) k \<Longrightarrow> kind ts k TOKEN_ELSE \<Longrightarrow>
    statement_at ts heap s' (Suc k) l \<Longrightarrow> statement_at ts heap (STMT_IF c s (Some s')) i l"
| s_while: "kind ts i TOKEN_WHILE \<Longrightarrow> kind ts (Suc i) TOKEN_LEFT_PAREN \<Longrightarrow> derives ts ASSIGNMENT c (Suc (Suc i)) j \<Longrightarrow>
    kind ts j TOKEN_RIGHT_PAREN \<Longrightarrow> statement_at ts heap s (Suc j) k \<Longrightarrow> statement_at ts heap (STMT_WHILE c s) i k"
| s_for: "kind ts i TOKEN_FOR \<Longrightarrow> kind ts (Suc i) TOKEN_LEFT_PAREN \<Longrightarrow> initializer_at ts init (Suc (Suc i)) j \<Longrightarrow>
    clause_at ts TOKEN_SEMICOLON cond j k \<Longrightarrow> kind ts k TOKEN_SEMICOLON \<Longrightarrow>
    clause_at ts TOKEN_RIGHT_PAREN incr (Suc k) l \<Longrightarrow> kind ts l TOKEN_RIGHT_PAREN \<Longrightarrow>
    statement_at ts heap body (Suc l) m \<Longrightarrow> statement_at ts heap (for_meaning init cond incr body) i m"
| s_block: "kind ts i TOKEN_LEFT_BRACE \<Longrightarrow> block_at ts heap ss (Suc i) j \<Longrightarrow> kind ts j TOKEN_RIGHT_BRACE \<Longrightarrow>
    statement_at ts heap (STMT_BLOCK ss) i (Suc j)"
| k_statement: "statement_at ts heap s i j \<Longrightarrow> declaration_at_tokens ts heap s i j"
| k_variable: "variable_at ts s i j \<Longrightarrow> declaration_at_tokens ts heap s i j"
| k_function: "kind ts i TOKEN_FUN \<Longrightarrow> kind ts (Suc i) TOKEN_IDENTIFIER \<Longrightarrow> kind ts (Suc (Suc i)) TOKEN_LEFT_PAREN \<Longrightarrow>
    parameters_at ts ps (Suc (Suc (Suc i))) j \<Longrightarrow> length ps \<le> 255 \<Longrightarrow> kind ts j TOKEN_RIGHT_PAREN \<Longrightarrow>
    kind ts (Suc j) TOKEN_LEFT_BRACE \<Longrightarrow> block_at ts heap ss (Suc (Suc j)) k \<Longrightarrow> kind ts k TOKEN_RIGHT_BRACE \<Longrightarrow>
    a < length heap \<Longrightarrow> heap ! a = \<lparr>fs_name = ts ! Suc i, fs_params = ps, fs_body = Some ss\<rparr> \<Longrightarrow>
    declaration_at_tokens ts heap (STMT_FUNCTION a) i (Suc k)"
| b_empty: "block_at ts heap [] i i"
| b_more: "block_at ts heap ss i j \<Longrightarrow> declaration_at_tokens ts heap s j k \<Longrightarrow> block_at ts heap (ss @ [s]) i k"

lemmas primary_rules = d_false d_true d_nil d_number d_string d_variable

section \<open>Well-formed trees\<close>

text \<open>Literals are data: functions only come into being at run time.\<close>

fun plain :: "object \<Rightarrow> bool" where
  "plain (OBJECT_NATIVE_FUNCTION arity func) = False"
| "plain (OBJECT_FUNCTION f) = False"
| "plain _ = True"

definition literals_plain :: "token list \<Rightarrow> bool" where
  "literals_plain ts \<longleftrightarrow> list_all (\<lambda>t. plain (t_literal t)) ts"

fun expr_wf :: "expr \<Rightarrow> bool" where
  "expr_wf (EXPR_ASSIGN name v) = (case v of None \<Rightarrow> False | Some e \<Rightarrow> expr_wf e)"
| "expr_wf (EXPR_BINARY a op b) =
     (expr_wf a \<and> expr_wf b \<and>
      t_type op \<in> set (binary_types EQUALITY @ binary_types COMPARISON @ binary_types TERM_LEVEL @ binary_types FACTOR_LEVEL))"
| "expr_wf (EXPR_CALL f paren es) = (expr_wf f \<and> list_all expr_wf es \<and> length es \<le> 255)"
| "expr_wf (EXPR_GROUPING v) = (case v of None \<Rightarrow> False | Some e \<Rightarrow> expr_wf e)"
| "expr_wf (EXPR_LITERAL obj) = plain obj"
| "expr_wf (EXPR_LOGICAL a op b) =
     ((case a of None \<Rightarrow> False | Some e \<Rightarrow> expr_wf e) \<and> (case b of None \<Rightarrow> False | Some e \<Rightarrow> expr_wf e) \<and>
      t_type op \<in> {TOKEN_OR, TOKEN_AND})"
| "expr_wf (EXPR_UNARY op e) = (expr_wf e \<and> t_type op \<in> {TOKEN_BANG, TOKEN_MINUS})"
| "expr_wf (EXPR_VARIABLE name) = True"

fun stmt_wf :: "nat \<Rightarrow> stmt \<Rightarrow> bool" where
  "stmt_wf n (STMT_BLOCK ss) = list_all (stmt_wf n) ss"
| "stmt_wf n (STMT_EXPRESSION e) = expr_wf e"
| "stmt_wf n (STMT_FUNCTION a) = (a < n)"
| "stmt_wf n (STMT_IF c s s') =
     (expr_wf c \<and> stmt_wf n s \<and> (case s' of None \<Rightarrow> True | Some s' \<Rightarrow> stmt_wf n s'))"
| "stmt_wf n (STMT_PRINT e) = expr_wf e"
| "stmt_wf n (STMT_RETURN keyword v) = (case v of None \<Rightarrow> True | Some e \<Rightarrow> expr_wf e)"
| "stmt_wf n (STMT_VAR name v) = (case v of None \<Rightarrow> True | Some e \<Rightarrow> expr_wf e)"
| "stmt_wf n (STMT_WHILE c s) = (expr_wf c \<and> stmt_wf n s)"

definition function_wf :: "nat \<Rightarrow> function_stmt \<Rightarrow> bool" where
  "function_wf n d \<longleftrightarrow>
     length (fs_params d) \<le> 255 \<and>
     (case fs_body d of None \<Rightarrow> False | Some ss \<Rightarrow> list_all (stmt_wf n) ss)"

definition heap_wf :: "declarations \<Rightarrow> bool" where
  "heap_wf heap \<longleftrightarrow> list_all (function_wf (length heap)) heap"

lemma stmt_wf_mono: "stmt_wf n s \<Longrightarrow> n \<le> m \<Longrightarrow> stmt_wf m s"
  by (induction n s rule: stmt_wf.induct) (auto simp: list_all_iff split: option.splits)

lemma function_wf_mono: "function_wf n d \<Longrightarrow> n \<le> m \<Longrightarrow> function_wf m d"
  by (auto simp: function_wf_def list_all_iff intro: stmt_wf_mono split: option.splits)

lemma heap_wf_Nil [simp]: "heap_wf []"
  by (simp add: heap_wf_def)

lemma heap_wf_append:
  "heap_wf heap \<Longrightarrow> function_wf (Suc (length heap)) d \<Longrightarrow> heap_wf (heap @ [d])"
  by (auto simp: heap_wf_def list_all_iff intro: function_wf_mono)

lemma kind_plain: "literals_plain ts \<Longrightarrow> kind ts i type \<Longrightarrow> plain (t_literal (ts ! i))"
  by (simp add: literals_plain_def kind_def list_all_length)

lemma derives_wf:
  assumes "literals_plain ts"
  shows "derives ts l e i j \<Longrightarrow> expr_wf e"
    and "arguments_at ts es i j \<Longrightarrow> list_all expr_wf es"
proof (induction rule: derives_arguments_at.inducts)
  case (d_logical l a i j type b k)
  then show ?case by (cases l) (auto simp: kind_def)
next
  case (d_binary l a i j type b k)
  then show ?case by (cases l) (auto simp: kind_def)
qed (use kind_plain [OF assms] in \<open>auto simp: kind_def\<close>)

lemma derives_progress:
  "derives ts l e i j \<Longrightarrow> i < j"
  "arguments_at ts es i j \<Longrightarrow> i \<le> j"
  by (induction rule: derives_arguments_at.inducts) auto

lemma clause_wf:
  "literals_plain ts \<Longrightarrow> clause_at ts terminator v i j \<Longrightarrow> case v of None \<Rightarrow> True | Some e \<Rightarrow> expr_wf e"
  by (auto elim!: clause_at.cases intro: derives_wf)

lemma variable_wf: "literals_plain ts \<Longrightarrow> variable_at ts s i j \<Longrightarrow> stmt_wf n s"
  by (auto elim!: variable_at.cases intro: derives_wf)

lemma expression_statement_wf: "literals_plain ts \<Longrightarrow> expression_statement_at ts s i j \<Longrightarrow> stmt_wf n s"
  by (auto elim!: expression_statement_at.cases intro: derives_wf)

lemma initializer_wf:
  "literals_plain ts \<Longrightarrow> initializer_at ts v i j \<Longrightarrow> case v of None \<Rightarrow> True | Some s \<Rightarrow> stmt_wf n s"
  by (auto elim!: initializer_at.cases intro: variable_wf expression_statement_wf)

lemma for_meaning_wf:
  assumes "literals_plain ts" and "initializer_at ts init i j" and "clause_at ts t1 cond i' j'"
    and "clause_at ts t2 incr i'' j''" and "stmt_wf n body"
  shows "stmt_wf n (for_meaning init cond incr body)"
  using initializer_wf [OF assms(1,2)] clause_wf [OF assms(1,3)] clause_wf [OF assms(1,4)] assms(5)
  by (auto simp: for_meaning_def Let_def split: option.splits)

lemma statement_wf:
  assumes "literals_plain ts"
  shows "statement_at ts heap s i j \<Longrightarrow> stmt_wf (length heap) s"
    and "declaration_at_tokens ts heap s i j \<Longrightarrow> stmt_wf (length heap) s"
    and "block_at ts heap ss i j \<Longrightarrow> list_all (stmt_wf (length heap)) ss"
proof (induction rule: statement_at_declaration_at_tokens_block_at.inducts)
  case (s_for i init j cond k incr l body m)
  then show ?case using assms by (blast intro: for_meaning_wf)
qed (use assms in \<open>auto intro: derives_wf variable_wf expression_statement_wf clause_wf\<close>)

text \<open>A grammatical statement stays grammatical when more functions are allocated.\<close>

lemma statement_at_grows:
  "statement_at ts heap s i j \<Longrightarrow> statement_at ts (heap @ ext) s i j"
  "declaration_at_tokens ts heap s i j \<Longrightarrow> declaration_at_tokens ts (heap @ ext) s i j"
  "block_at ts heap ss i j \<Longrightarrow> block_at ts (heap @ ext) ss i j"
proof (induction rule: statement_at_declaration_at_tokens_block_at.inducts)
  case (k_function i ps j ss k a)
  then show ?case
    by (intro statement_at_declaration_at_tokens_block_at.k_function) (auto simp: nth_append)
qed (blast intro: statement_at_declaration_at_tokens_block_at.intros)+

end
