(* ===== verification/Parser_Logic.thy ===== *)
theory Parser_Logic
  imports Parser Grammar
begin

text \<open>
  The contract of the parsing functions and the rules that step through one.

  On a token list that ends with its only end token, a parsing function ends within its fuel,
  stays inside the token array, and can only stop at the NULL dereference of
  \<open>parse_assignment\<close>. A function that returns NULL has reported an error; when no error has
  been reported its result is a tree that the grammar derives from exactly the tokens it
  consumed. \<open>parses G n m\<close> is this contract for a function \<open>m\<close> with the grammar \<open>G\<close>, and
  \<open>post G i p0\<close> is its postcondition for a call that started in \<open>p0\<close> at position \<open>i\<close>. The
  \<open>seq_\<close> rules are used as introduction rules, so that \<open>auto\<close> executes a function symbolically.
\<close>

section \<open>Invariant and contract\<close>

definition tokens_ok :: "token list \<Rightarrow> bool" where
  "tokens_ok ts \<longleftrightarrow>
     ts \<noteq> [] \<and> t_type (last ts) = TOKEN_EOF \<and> TOKEN_EOF \<notin> t_type ` set (butlast ts) \<and> literals_plain ts"

definition p_inv :: "parser \<Rightarrow> bool" where
  "p_inv p \<longleftrightarrow>
     tokens_ok (p_tokens p) \<and> p_current p < length (p_tokens p) \<and>
     (\<not> HadError (p_console p) \<longrightarrow> heap_wf (p_heap p))"

text \<open>The tokens in front of the end token that are still to be read.\<close>

definition left :: "parser \<Rightarrow> nat" where
  "left p = length (p_tokens p) - Suc (p_current p)"

definition reaches :: "parser \<Rightarrow> parser \<Rightarrow> bool" where
  "reaches p p' \<longleftrightarrow>
     p_inv p' \<and> p_tokens p' = p_tokens p \<and> p_current p \<le> p_current p' \<and>
     console_le (p_console p) (p_console p') \<and> con_out (p_console p') = con_out (p_console p) \<and>
     HadRuntimeError (p_console p') = HadRuntimeError (p_console p) \<and>
     (\<exists>ext. p_heap p' = p_heap p @ ext)"

definition null_only :: "fault \<Rightarrow> bool" where
  "null_only e \<longleftrightarrow> e = Null_Dereference"

abbreviation vc :: "'a parse \<Rightarrow> ('a \<Rightarrow> parser \<Rightarrow> bool) \<Rightarrow> parser \<Rightarrow> bool" where
  "vc m Q p \<equiv> wp False null_only m Q p"

type_synonym 'a grammar = "token list \<Rightarrow> declarations \<Rightarrow> 'a \<Rightarrow> nat \<Rightarrow> nat \<Rightarrow> bool"

definition result_ok :: "'a grammar \<Rightarrow> nat \<Rightarrow> 'a option \<Rightarrow> parser \<Rightarrow> bool" where
  "result_ok G i r p' \<longleftrightarrow>
     (case r of None \<Rightarrow> HadError (p_console p')
      | Some x \<Rightarrow> i < p_current p' \<and>
          (\<not> HadError (p_console p') \<longrightarrow> G (p_tokens p') (p_heap p') x i (p_current p')))"

definition parses :: "'a grammar \<Rightarrow> nat \<Rightarrow> 'a option parse \<Rightarrow> bool" where
  "parses G n m \<longleftrightarrow>
     (\<forall>p. p_inv p \<longrightarrow> left p < n \<longrightarrow> vc m (\<lambda>r p'. reaches p p' \<and> result_ok G (p_current p) r p') p)"

definition step :: "parser \<Rightarrow> parser" where
  "step p = p\<lparr>p_current := Suc (p_current p)\<rparr>"

definition complain :: "token \<Rightarrow> string \<Rightarrow> parser \<Rightarrow> parser" where
  "complain tok message p = p\<lparr>p_console := library_error_at_token tok message (p_console p)\<rparr>"

lemma reaches_refl [simp]: "p_inv p \<Longrightarrow> reaches p p"
  by (simp add: reaches_def)

lemma reaches_trans [trans]: "reaches a b \<Longrightarrow> reaches b c \<Longrightarrow> reaches a c"
  by (auto simp: reaches_def intro: console_le_trans)

lemma reaches_inv: "reaches p p' \<Longrightarrow> p_inv p'"
  by (simp add: reaches_def)

lemma reaches_left: "reaches p p' \<Longrightarrow> left p' \<le> left p"
  by (auto simp: reaches_def left_def)

lemma reaches_left_less: "reaches p p' \<Longrightarrow> p_current p < p_current p' \<Longrightarrow> left p' < left p"
  by (auto simp: reaches_def left_def p_inv_def)

lemma reaches_tokens: "reaches p p' \<Longrightarrow> p_tokens p' = p_tokens p"
  by (simp add: reaches_def)

lemma reaches_current: "reaches p p' \<Longrightarrow> p_current p \<le> p_current p'"
  by (simp add: reaches_def)

lemma reaches_error: "reaches p p' \<Longrightarrow> HadError (p_console p) \<Longrightarrow> HadError (p_console p')"
  by (auto simp: reaches_def console_le_def)

lemma reaches_heap: "reaches p p' \<Longrightarrow> \<exists>ext. p_heap p' = p_heap p @ ext"
  by (simp add: reaches_def)

section \<open>Token access\<close>

lemma current_token:
  assumes "p_inv p"
  shows "t_type (p_tokens p ! p_current p) = TOKEN_EOF \<longleftrightarrow> left p = 0"
proof -
  let ?ts = "p_tokens p"
  have ne: "?ts \<noteq> []" and lt: "p_current p < length ?ts" using assms by (auto simp: p_inv_def)
  show ?thesis
  proof (cases "left p = 0")
    case True
    then have "p_current p = length ?ts - 1" using lt by (simp add: left_def)
    then show ?thesis using True assms ne by (simp add: p_inv_def tokens_ok_def last_conv_nth)
  next
    case False
    then have "?ts ! p_current p \<in> set (butlast ?ts)"
      by (auto simp: left_def in_set_conv_nth nth_butlast intro!: exI [of _ "p_current p"])
    then have "t_type (?ts ! p_current p) \<noteq> TOKEN_EOF"
      using assms unfolding p_inv_def tokens_ok_def by (metis imageI)
    then show ?thesis using False by simp
  qed
qed

lemma vc_deref:
  "0 \<le> a \<Longrightarrow> nat a < length (p_tokens p) \<Longrightarrow> wp E F (deref a) Q p = Q (p_tokens p ! nat a) p"
  by (simp add: wp_def deref_def)

lemma vc_is_at_end: "p_inv p \<Longrightarrow> wp E F parser_is_at_end Q p = Q (left p = 0) p"
  by (simp add: parser_is_at_end_def parser_peek_def wp_simps vc_deref current_token [symmetric] p_inv_def)

lemma p_inv_step [simp]: "p_inv p \<Longrightarrow> 0 < left p \<Longrightarrow> p_inv (step p)"
  by (auto simp: p_inv_def left_def step_def)

lemma left_step [simp]: "left (step p) = left p - 1"
  by (simp add: left_def step_def)

lemma step_simps [simp]:
  "p_tokens (step p) = p_tokens p" "p_current (step p) = Suc (p_current p)"
  "p_heap (step p) = p_heap p" "p_console (step p) = p_console p"
  by (simp_all add: step_def)

lemma complain_simps [simp]:
  "p_tokens (complain tok message p) = p_tokens p" "p_current (complain tok message p) = p_current p"
  "p_heap (complain tok message p) = p_heap p" "HadError (p_console (complain tok message p))"
  "left (complain tok message p) = left p"
  by (simp_all add: complain_def left_def)

lemma p_inv_complain [simp]: "p_inv p \<Longrightarrow> p_inv (complain tok message p)"
  by (simp add: p_inv_def)

lemma reaches_step [simp]: "p_inv p \<Longrightarrow> 0 < left p \<Longrightarrow> reaches p (step p)"
  by (simp add: reaches_def)

lemma reaches_complain [simp]: "p_inv p \<Longrightarrow> reaches p (complain tok message p)"
  by (simp add: reaches_def) (simp add: complain_def)

lemma vc_advance:
  "p_inv p \<Longrightarrow> wp E F parser_advance Q p =
     (if 0 < left p then Q (int (p_current p)) (step p) else Q (int (p_current p) - 1) p)"
  by (simp add: parser_advance_def wp_simps vc_is_at_end parser_previous_def step_def)

lemma vc_check:
  assumes "p_inv p" and "type \<noteq> TOKEN_EOF"
  shows "wp E F (parser_check type) Q p = Q (kind (p_tokens p) (p_current p) type) p"
proof -
  have "left p = 0 \<Longrightarrow> t_type (p_tokens p ! p_current p) \<noteq> type"
    using assms current_token by auto
  with assms show ?thesis
    by (auto simp: parser_check_def wp_simps vc_is_at_end parser_peek_def vc_deref kind_def p_inv_def)
qed

lemma kind_left: "p_inv p \<Longrightarrow> kind (p_tokens p) (p_current p) type \<Longrightarrow> type \<noteq> TOKEN_EOF \<Longrightarrow> 0 < left p"
  using current_token by (auto simp: kind_def)

lemma vc_match:
  assumes "p_inv p" and "TOKEN_EOF \<notin> set types"
  shows "wp E F (parser_match types) Q p =
     (if \<exists>type \<in> set types. kind (p_tokens p) (p_current p) type then Q True (step p) else Q False p)"
  using assms(2)
proof (induction types)
  case (Cons type types)
  then have "type \<noteq> TOKEN_EOF" and "kind (p_tokens p) (p_current p) type \<Longrightarrow> 0 < left p"
    using kind_left [OF assms(1)] by auto
  with Cons show ?case
    using assms(1)
    by (cases "kind (p_tokens p) (p_current p) type") (simp_all add: wp_simps vc_check vc_advance)
qed (simp add: wp_simps)

declare parser_match.simps [simp del]

lemma vc_consume:
  assumes "p_inv p" and "type \<noteq> TOKEN_EOF"
  shows "wp E F (parser_consume type message) Q p =
     (if kind (p_tokens p) (p_current p) type then Q (Some (int (p_current p))) (step p)
      else Q None (complain (p_tokens p ! p_current p) message p))"
  using assms kind_left [OF assms(1)]
  by (auto simp: parser_consume_def wp_simps vc_check vc_advance parser_peek_def parser_error_def
      vc_deref complain_def p_inv_def)

lemma vc_error:
  "p_inv p \<Longrightarrow> 0 \<le> a \<Longrightarrow> nat a < length (p_tokens p) \<Longrightarrow>
     wp E F (parser_error a message) Q p = Q () (complain (p_tokens p ! nat a) message p)"
  by (simp add: parser_error_def wp_simps vc_deref complain_def)

lemma vc_error_here:
  "p_inv p \<Longrightarrow>
     wp E F (andthen parser_peek (\<lambda>a. parser_error a message)) Q p =
       Q () (complain (p_tokens p ! p_current p) message p)"
  by (simp add: parser_peek_def wp_simps vc_error p_inv_def)

lemma vc_previous_token:
  assumes "p_inv p" and "0 < p_current p"
  shows "wp E F previous_token Q p = Q (p_tokens p ! (p_current p - 1)) p"
proof -
  have "nat (int (p_current p) - 1) = p_current p - 1" "0 \<le> int (p_current p) - 1"
      "p_current p - 1 < length (p_tokens p)"
    using assms by (auto simp: p_inv_def)
  then show ?thesis
    using assms vc_deref [of "int (p_current p) - 1" p]
    by (simp add: previous_token_def parser_previous_def wp_simps p_inv_def)
qed

lemmas vc_simps = wp_simps vc_is_at_end vc_advance vc_check vc_match vc_consume vc_error
  vc_previous_token parser_peek_def parser_previous_def vc_deref

section \<open>Sequencing\<close>

declare of_nat_Suc [simp del]

lemma or_null_assoc [simp]: "or_null (or_null m g) f = or_null m (\<lambda>x. or_null (g x) f)"
  by (rule ext) (simp add: or_null_def andthen_def ret_def split: outcome.split option.split)

lemma or_null_ret [simp]: "or_null (ret (Some x)) f = f x" "or_null (ret None) f = ret None"
  by (simp_all add: or_null_def andthen_def ret_def)

declare andthen_assoc [simp]

lemma or_null_andthen [simp]: "or_null (andthen m g) f = andthen m (\<lambda>x. or_null (g x) f)"
  by (simp add: or_null_def)

text \<open>
  A function that has started in \<open>p0\<close> and is now in \<open>p\<close>. The rules below step over one call
  each; every state is related to \<open>p0\<close>, and the facts of a call are about the tokens of \<open>p0\<close>.
\<close>

definition post :: "'a grammar \<Rightarrow> nat \<Rightarrow> parser \<Rightarrow> 'a option \<Rightarrow> parser \<Rightarrow> bool" where
  "post G i p0 r p \<longleftrightarrow> reaches p0 p \<and> result_ok G i r p"

text \<open>The heap of a later state extends the heap of an earlier one.\<close>

definition grows :: "declarations \<Rightarrow> declarations \<Rightarrow> bool" where
  "grows heap heap' \<longleftrightarrow> (\<exists>ext. heap' = heap @ ext)"

lemma grows_refl [simp]: "grows heap heap"
  by (simp add: grows_def)

lemma grows_trans: "grows a b \<Longrightarrow> grows b c \<Longrightarrow> grows a c"
  by (auto simp: grows_def)

lemma reaches_later:
  "reaches p p' \<Longrightarrow> HadError (p_console p) \<longrightarrow> HadError (p_console p')"
  "reaches p p' \<Longrightarrow> grows (p_heap p) (p_heap p')"
  by (auto simp: grows_def reaches_def console_le_def)

lemma post_error: "reaches p0 p \<Longrightarrow> HadError (p_console p) \<Longrightarrow> post G i p0 None p"
  by (simp add: post_def result_ok_def)

lemma seq_finish:
  assumes "reaches p0 p" and "i < p_current p"
    and "\<not> HadError (p_console p) \<longrightarrow> G (p_tokens p0) (p_heap p) x i (p_current p)"
  shows "vc (ret (Some x)) (post G i p0) p"
  using assms by (simp add: wp_simps post_def result_ok_def reaches_tokens)

lemma parses_post: "parses G n m \<longleftrightarrow> (\<forall>p. p_inv p \<longrightarrow> left p < n \<longrightarrow> vc m (post G (p_current p) p) p)"
  unfolding parses_def post_def [abs_def] by (rule refl)

text \<open>A callee that started in the present state, by its postcondition and by its contract.\<close>

lemma seq_vc:
  assumes "vc m (post H j p) p" and "reaches p0 p"
    and "\<And>x p'. reaches p0 p' \<Longrightarrow> j < p_current p' \<Longrightarrow> p_current p \<le> p_current p' \<Longrightarrow> left p' \<le> left p \<Longrightarrow>
           (HadError (p_console p) \<longrightarrow> HadError (p_console p')) \<Longrightarrow> grows (p_heap p) (p_heap p') \<Longrightarrow>
           (\<not> HadError (p_console p') \<longrightarrow> H (p_tokens p0) (p_heap p') x j (p_current p')) \<Longrightarrow>
           vc (f x) (post G i p0) p'"
  shows "vc (or_null m f) (post G i p0) p"
  unfolding wp_or_null
proof (rule wp_mono [OF assms(1)])
  fix r p'
  assume r: "post H j p r p'"
  then have p': "reaches p p'" and p0: "reaches p0 p'"
    using assms(2) by (auto simp: post_def intro: reaches_trans)
  show "case r of None \<Rightarrow> post G i p0 None p' | Some x \<Rightarrow> vc (f x) (post G i p0) p'"
  proof (cases r)
    case None
    with r p0 show ?thesis by (simp add: post_def result_ok_def)
  next
    case (Some x)
    have "vc (f x) (post G i p0) p'"
      by (rule assms(3) [OF p0 _ reaches_current [OF p'] reaches_left [OF p'] reaches_later(1) [OF p']
            reaches_later(2) [OF p']])
         (use r Some in \<open>simp_all add: post_def result_ok_def reaches_tokens [OF p0]\<close>)
    with Some show ?thesis by simp
  qed
qed

lemma seq_parse:
  assumes "parses H n m" and "reaches p0 p" and "left p < n"
    and "\<And>x p'. reaches p0 p' \<Longrightarrow> p_current p < p_current p' \<Longrightarrow> left p' < left p \<Longrightarrow>
           (HadError (p_console p) \<longrightarrow> HadError (p_console p')) \<Longrightarrow> grows (p_heap p) (p_heap p') \<Longrightarrow>
           (\<not> HadError (p_console p') \<longrightarrow> H (p_tokens p0) (p_heap p') x (p_current p) (p_current p')) \<Longrightarrow>
           vc (f x) (post G i p0) p'"
  shows "vc (or_null m f) (post G i p0) p"
proof (rule seq_vc [OF _ assms(2)])
  show "vc m (post H (p_current p) p) p"
    using assms(1,3) reaches_inv [OF assms(2)] by (simp add: parses_post)
next
  fix x p'
  assume p': "reaches p0 p'" "p_current p < p_current p'"
    "HadError (p_console p) \<longrightarrow> HadError (p_console p')" "grows (p_heap p) (p_heap p')"
    "\<not> HadError (p_console p') \<longrightarrow> H (p_tokens p0) (p_heap p') x (p_current p) (p_current p')"
  have "left p' < left p"
    using p'(1,2) reaches_tokens [OF p'(1)] reaches_tokens [OF assms(2)] reaches_inv [OF p'(1)]
    by (auto simp: left_def p_inv_def)
  then show "vc (f x) (post G i p0) p'" using p' by (blast intro: assms(4))
qed

text \<open>A callee whose result is not tested for NULL.\<close>

lemma seq_parse_untested:
  assumes "parses H n m" and "reaches p0 p" and "left p < n"
    and "\<And>r p'. reaches p0 p' \<Longrightarrow> p_current p \<le> p_current p' \<Longrightarrow> left p' \<le> left p \<Longrightarrow> (HadError (p_console p) \<longrightarrow> HadError (p_console p')) \<Longrightarrow> grows (p_heap p) (p_heap p') \<Longrightarrow>
           result_ok H (p_current p) r p' \<Longrightarrow> vc (f r) (post G i p0) p'"
  shows "vc (andthen m f) (post G i p0) p"
proof -
  have "vc m (\<lambda>r p'. reaches p p' \<and> result_ok H (p_current p) r p') p"
    using assms(1,3) reaches_inv [OF assms(2)] by (simp add: parses_def)
  then show ?thesis
    unfolding wp_andthen
  proof (rule wp_mono)
    fix r p'
    assume r: "reaches p p' \<and> result_ok H (p_current p) r p'"
    then show "vc (f r) (post G i p0) p'"
      by (intro assms(4))
         (use assms(2) in \<open>auto intro: reaches_trans reaches_left reaches_current simp: reaches_later\<close>)
  qed
qed

lemma seq_ret: "vc (f x) Q p \<Longrightarrow> vc (andthen (ret x) f) Q p"
  by (simp add: wp_simps)

lemma seq_consume:
  assumes "reaches p0 p" and "type \<noteq> TOKEN_EOF"
    and "\<And>p'. reaches p0 p' \<Longrightarrow> p_current p' = Suc (p_current p) \<Longrightarrow> left p' < left p \<Longrightarrow> (HadError (p_console p) \<longrightarrow> HadError (p_console p')) \<Longrightarrow> grows (p_heap p) (p_heap p') \<Longrightarrow>
           kind (p_tokens p0) (p_current p) type \<Longrightarrow> vc (f (int (p_current p))) (post G i p0) p'"
  shows "vc (or_null (parser_consume type message) f) (post G i p0) p"
proof -
  have inv: "p_inv p" using assms(1) by (rule reaches_inv)
  show ?thesis
  proof (cases "kind (p_tokens p) (p_current p) type")
    case True
    then have "0 < left p" using kind_left [OF inv] assms(2) by blast
    then have r: "reaches p (step p)" using inv by simp
    have "vc (f (int (p_current p))) (post G i p0) (step p)"
      by (rule assms(3) [OF reaches_trans [OF assms(1) r] _ _ reaches_later(1) [OF r] reaches_later(2) [OF r]])
         (use True \<open>0 < left p\<close> in \<open>simp_all add: reaches_tokens [OF assms(1)]\<close>)
    with True inv assms(2) show ?thesis by (simp add: wp_or_null vc_consume)
  next
    case False
    then show ?thesis
      using assms(1,2) inv reaches_trans [OF assms(1) reaches_complain [OF inv]]
      by (simp add: wp_or_null vc_consume post_error)
  qed
qed

lemma seq_match:
  assumes "reaches p0 p" and "TOKEN_EOF \<notin> set types"
    and "\<And>p' type. reaches p0 p' \<Longrightarrow> p_current p' = Suc (p_current p) \<Longrightarrow> left p' < left p \<Longrightarrow> (HadError (p_console p) \<longrightarrow> HadError (p_console p')) \<Longrightarrow> grows (p_heap p) (p_heap p') \<Longrightarrow>
           type \<in> set types \<Longrightarrow> kind (p_tokens p0) (p_current p) type \<Longrightarrow> vc (f True) (post G i p0) p'"
    and "\<forall>type \<in> set types. \<not> kind (p_tokens p0) (p_current p) type \<Longrightarrow> vc (f False) (post G i p0) p"
  shows "vc (andthen (parser_match types) f) (post G i p0) p"
proof -
  have inv: "p_inv p" using assms(1) by (rule reaches_inv)
  show ?thesis
  proof (cases "\<exists>type \<in> set types. kind (p_tokens p) (p_current p) type")
    case True
    then obtain type where type: "type \<in> set types" "kind (p_tokens p) (p_current p) type" by blast
    then have left: "0 < left p" using kind_left [OF inv] assms(2) by metis
    then have r: "reaches p (step p)" using inv by simp
    have "vc (f True) (post G i p0) (step p)"
      by (rule assms(3) [OF reaches_trans [OF assms(1) r] _ _ reaches_later(1) [OF r] reaches_later(2) [OF r] type(1)])
         (use type left in \<open>simp_all add: reaches_tokens [OF assms(1)]\<close>)
    with True inv assms(2) show ?thesis by (simp add: wp_andthen vc_match)
  next
    case False
    with assms(1,2,4) inv show ?thesis by (simp add: wp_andthen vc_match reaches_tokens [OF assms(1)])
  qed
qed

lemma seq_check:
  assumes "reaches p0 p" and "type \<noteq> TOKEN_EOF"
    and "vc (f (kind (p_tokens p0) (p_current p) type)) (post G i p0) p"
  shows "vc (andthen (parser_check type) f) (post G i p0) p"
  using assms reaches_inv [OF assms(1)] by (simp add: wp_andthen vc_check reaches_tokens [OF assms(1)])

lemma seq_previous_token:
  assumes "reaches p0 p" and "0 < p_current p" and "vc (f (p_tokens p0 ! (p_current p - 1))) (post G i p0) p"
  shows "vc (andthen previous_token f) (post G i p0) p"
  using assms reaches_inv [OF assms(1)]
  by (simp add: wp_andthen vc_previous_token reaches_tokens [OF assms(1)])

lemma seq_previous:
  "p_current p = Suc j \<Longrightarrow> vc (f (int j)) Q p \<Longrightarrow> vc (andthen parser_previous f) Q p"
  by (simp add: parser_previous_def wp_simps of_nat_Suc)

lemma seq_error_here:
  assumes "reaches p0 p" and "\<And>p'. reaches p0 p' \<Longrightarrow> p_current p' = p_current p \<Longrightarrow> left p' = left p \<Longrightarrow>
    HadError (p_console p') \<Longrightarrow> grows (p_heap p) (p_heap p') \<Longrightarrow> vc (f ()) (post G i p0) p'"
  shows "vc (andthen parser_peek (\<lambda>a. andthen (parser_error a message) f)) (post G i p0) p"
proof -
  let ?p = "complain (p_tokens p ! p_current p) message p"
  have inv: "p_inv p" using assms(1) by (rule reaches_inv)
  have r: "reaches p ?p" using inv by simp
  have "vc (f ()) (post G i p0) ?p"
    by (rule assms(2) [OF reaches_trans [OF assms(1) r] _ _ _ reaches_later(2) [OF r]]) simp_all
  with inv show ?thesis by (simp add: parser_peek_def wp_simps vc_error p_inv_def)
qed

lemma seq_null: "reaches p0 p \<Longrightarrow> HadError (p_console p) \<Longrightarrow> vc (ret None) (post G i p0) p"
  by (simp add: wp_simps post_error)

lemma seq_deref:
  assumes "reaches p0 p" and "j \<le> p_current p" and "vc (f (p_tokens p0 ! j)) (post G i p0) p"
  shows "vc (andthen (deref (int j)) f) (post G i p0) p"
proof -
  have "p_current p < length (p_tokens p)" using reaches_inv [OF assms(1)] by (simp add: p_inv_def)
  with assms show ?thesis by (simp add: wp_andthen vc_deref reaches_tokens [OF assms(1)])
qed

end
