(* ===== verification/Parser_Expressions.thy ===== *)
theory Parser_Expressions
  imports Parser_Logic
begin

text \<open>
  The expression functions meet their contracts: \<open>parse_expression n\<close> reads an expression of
  the grammar when fewer than \<open>n\<close> tokens are left.
\<close>

section \<open>Expressions\<close>

abbreviation expr_at :: "level \<Rightarrow> expr grammar" where
  "expr_at l \<equiv> \<lambda>ts heap. derives ts l"

lemma operator_types_not_EOF [simp]:
  "TOKEN_EOF \<notin> set (binary_types l)" "TOKEN_EOF \<notin> set (logical_types l)"
  by (cases l; simp)+

lemma parses_mono: "parses G n m \<Longrightarrow> k \<le> n \<Longrightarrow> parses G k m"
  by (simp add: parses_def)

lemma parsesI:
  assumes "\<And>p. p_inv p \<Longrightarrow> reaches p p \<Longrightarrow> left p < n \<Longrightarrow> vc m (post G (p_current p) p) p"
  shows "parses G n m"
  using assms by (simp add: parses_post)

lemma binary_loop_ok:
  assumes "parses (expr_at (tighter l)) n operand" and "reaches p0 p" and "left p \<le> k" and "left p \<le> n"
    and "i < p_current p" and "\<not> HadError (p_console p) \<longrightarrow> derives (p_tokens p0) l e i (p_current p)"
  shows "vc (binary_loop (binary_types l) operand k e) (post (expr_at l) i p0) p"
  using assms(2-)
proof (induction k arbitrary: p e rule: less_induct)
  case (less k)
  show ?case
  proof (subst binary_loop.simps, rule seq_match [OF less.prems(1) operator_types_not_EOF(1)])
    fix p' type
    assume p': "reaches p0 p'" "p_current p' = Suc (p_current p)" "left p' < left p"
      "HadError (p_console p) \<longrightarrow> HadError (p_console p')"
      "type \<in> set (binary_types l)" "kind (p_tokens p0) (p_current p) type"
    then obtain k' where k: "k = Suc k'" using less.prems(2) by (cases k) auto
    show "vc (if \<not> True then ret (Some e)
              else andthen previous_token (\<lambda>op. or_null operand (\<lambda>right.
                case k of 0 \<Rightarrow> exhaust | Suc k \<Rightarrow> binary_loop (binary_types l) operand k (expr_new_binary e op right))))
            (post (expr_at l) i p0) p'"
      using p' less.prems assms(1)
      by (auto simp: k intro!: seq_previous_token seq_parse [OF assms(1)] less.IH intro: d_binary)
  qed (use less.prems in \<open>auto intro: seq_finish\<close>)
qed

lemma binary_level_ok:
  assumes "parses (expr_at (tighter l)) n operand" and "n \<le> Suc k"
  shows "parses (expr_at l) n (or_null operand (binary_loop (binary_types l) operand k))"
  using assms(2)
  by (intro parsesI)
     (auto intro!: seq_parse [OF assms(1)] binary_loop_ok [OF assms(1)] intro: d_tighter)

lemma logical_loop_ok:
  assumes "parses (expr_at (tighter l)) n operand" and "reaches p0 p" and "left p \<le> k" and "left p \<le> n"
    and "i \<le> p_current p" and "result_ok (expr_at l) i e p"
  shows "vc (logical_loop (logical_types l) operand k e) (post (expr_at l) i p0) p"
  using assms(2-)
proof (induction k arbitrary: p e rule: less_induct)
  case (less k)
  show ?case
  proof (subst logical_loop.simps, rule seq_match [OF less.prems(1) operator_types_not_EOF(2)])
    fix p' type
    assume p': "reaches p0 p'" "p_current p' = Suc (p_current p)" "left p' < left p"
      "HadError (p_console p) \<longrightarrow> HadError (p_console p')"
      "type \<in> set (logical_types l)" "kind (p_tokens p0) (p_current p) type"
    then obtain k' where k: "k = Suc k'" using less.prems(2) by (cases k) auto
    show "vc (if \<not> True then ret e
              else andthen previous_token (\<lambda>op. andthen operand (\<lambda>right.
                case k of 0 \<Rightarrow> exhaust
                | Suc k \<Rightarrow> logical_loop (logical_types l) operand k (Some (expr_new_logical e op right)))))
            (post (expr_at l) i p0) p'"
      using p' less.prems assms(1)
      by (auto simp: k result_ok_def reaches_tokens split: option.splits
          intro!: seq_previous_token seq_parse_untested [OF assms(1)] less.IH
          intro: d_logical)
  qed (use less.prems in \<open>auto simp: wp_simps post_def\<close>)
qed

lemma result_ok_tighter: "result_ok (expr_at (tighter l)) i e p \<Longrightarrow> result_ok (expr_at l) i e p"
  by (auto simp: result_ok_def intro: d_tighter split: option.splits)

lemma logical_level_ok:
  assumes "parses (expr_at (tighter l)) n operand" and "n \<le> Suc k"
  shows "parses (expr_at l) n (andthen operand (logical_loop (logical_types l) operand k))"
  using assms(2)
  by (intro parsesI)
     (auto intro!: seq_parse_untested [OF assms(1)] logical_loop_ok [OF assms(1)] intro: result_ok_tighter)

text \<open>From here on the contract of the expressions nested inside is an assumption.\<close>

lemma d_value:
  "kind ts i TOKEN_NUMBER \<or> kind ts i TOKEN_STRING \<Longrightarrow>
     derives ts PRIMARY (EXPR_LITERAL (t_literal (ts ! i))) i (Suc i)"
  by (blast intro: d_number d_string)

lemma d_prefix:
  "kind ts i TOKEN_BANG \<or> kind ts i TOKEN_MINUS \<Longrightarrow> derives ts UNARY e (Suc i) j \<Longrightarrow>
     derives ts UNARY (EXPR_UNARY (ts ! i) e) i j"
  by (blast intro: d_unary)

lemma derives_variable:
  "derives ts l e i j \<Longrightarrow> e = EXPR_VARIABLE name \<Longrightarrow> j = Suc i \<and> name = ts ! i \<and> kind ts i TOKEN_IDENTIFIER"
  "arguments_at ts es i j \<Longrightarrow> True"
  by (induction rule: derives_arguments_at.inducts) auto

lemma parse_primary_ok:
  assumes "parses (expr_at ASSIGNMENT) n expression"
  shows "parses (expr_at PRIMARY) (Suc n) (parse_primary expression)"
proof (rule parsesI)
  fix p
  assume p: "p_inv p" "reaches p p" "left p < Suc n"
  have group: "vc (andthen expression (\<lambda>e.
         andthen (parser_consume TOKEN_RIGHT_PAREN ''Expect ')' after expression.'') (\<lambda>_.
         ret (Some (EXPR_GROUPING e))))) (post (expr_at PRIMARY) (p_current p) p) q"
    if "reaches p q" "p_current q = Suc (p_current p)" "left q < left p"
      "kind (p_tokens p) (p_current p) TOKEN_LEFT_PAREN" for q
  proof (rule seq_parse_untested [OF assms that(1)])
    fix e q'
    assume q': "reaches p q'" "p_current q \<le> p_current q'" "left q' \<le> left q"
      "result_ok (expr_at ASSIGNMENT) (p_current q) e q'"
    have inv: "p_inv q'" using q'(1) by (rule reaches_inv)
    show "vc (andthen (parser_consume TOKEN_RIGHT_PAREN ''Expect ')' after expression.'') (\<lambda>_.
           ret (Some (EXPR_GROUPING e)))) (post (expr_at PRIMARY) (p_current p) p) q'"
    proof (cases "kind (p_tokens p) (p_current q') TOKEN_RIGHT_PAREN")
      case True
      then have left: "0 < left q'" using kind_left [OF inv] by (simp add: reaches_tokens [OF q'(1)])
      have "reaches p (step q')" using reaches_trans [OF q'(1) reaches_step [OF inv left]] .
      with True that q' inv show ?thesis
        by (auto simp: vc_simps post_def result_ok_def reaches_tokens [OF q'(1)] intro: d_grouping split: option.splits)
    next
      case False
      have "reaches p (complain tok message q')" for tok message
        using reaches_trans [OF q'(1) reaches_complain [OF inv]] .
      with False that q' inv show ?thesis
        by (auto simp: vc_simps post_def result_ok_def reaches_tokens [OF q'(1)])
    qed
  qed (use that p in simp)
  show "vc (parse_primary expression) (post (expr_at PRIMARY) (p_current p) p) p"
    unfolding parse_primary_def
    by (auto intro!: seq_match seq_finish seq_previous_token seq_error_here seq_null group
          d_false d_true d_nil d_variable d_value simp: p(2))
qed


text \<open>The arguments read so far, with the comma that announces the next one.\<close>

definition awaits_argument :: "token list \<Rightarrow> expr list \<Rightarrow> nat \<Rightarrow> nat \<Rightarrow> bool" where
  "awaits_argument ts es i j \<longleftrightarrow>
     (if es = [] then i = j else i < j \<and> arguments_at ts es i (j - 1) \<and> kind ts (j - 1) TOKEN_COMMA)"

lemma awaits_argument_next:
  "awaits_argument ts es i j \<Longrightarrow> derives ts ASSIGNMENT e j k \<Longrightarrow> arguments_at ts (es @ [e]) i k"
  by (auto simp: awaits_argument_def split: if_splits intro: a_first a_more)

lemma awaits_argument_comma:
  "arguments_at ts (es @ [e]) i j \<Longrightarrow> kind ts j TOKEN_COMMA \<Longrightarrow> awaits_argument ts (es @ [e]) i (Suc j)"
  by (auto simp: awaits_argument_def less_Suc_eq_le intro: derives_progress)

lemma argument_loop_ok:
  assumes "parses (expr_at ASSIGNMENT) n expression" and "reaches p0 p" and "left p < k" and "left p < n"
    and "i \<le> p_current p"
    and "\<not> HadError (p_console p) \<longrightarrow> length es \<le> 255 \<and> awaits_argument (p_tokens p0) es i (p_current p)"
  shows "vc (argument_loop expression k es)
           (post (\<lambda>ts heap es i j. length es \<le> 255 \<and> arguments_at ts es i j) i p0) p"
  using assms(2-)
proof (induction k arbitrary: p es rule: less_induct)
  case (less k)
  note loop = less.IH
  show ?case
  proof (cases "MAX_ARGUMENTS \<le> length es")
    case True
    with less.prems show ?thesis
      by (subst argument_loop.simps)
         (auto intro!: seq_error_here seq_parse [OF assms(1)] seq_match seq_finish loop split: nat.splits)
  next
    case False
    with less.prems show ?thesis
      by (subst argument_loop.simps)
         (auto intro!: seq_parse [OF assms(1)] seq_match seq_finish seq_ret loop awaits_argument_comma
           simp: MAX_ARGUMENTS_def split: nat.splits intro: awaits_argument_next, blast intro: awaits_argument_next)
  qed
qed

lemma finish_call_ok:
  assumes "parses (expr_at ASSIGNMENT) n expression" and "reaches p0 p" and "left p < k" and "left p < n"
    and "i < j" and "p_current p = Suc j"
    and "\<not> HadError (p_console p) \<longrightarrow> derives (p_tokens p0) CALL f i j \<and> kind (p_tokens p0) j TOKEN_LEFT_PAREN"
  shows "vc (finish_call k expression f) (post (expr_at CALL) i p0) p"
proof -
  have fin: "vc (or_null (parser_consume TOKEN_RIGHT_PAREN ''Expect ')' after arguments.'') (\<lambda>a.
     andthen (deref a) (\<lambda>paren. ret (Some (EXPR_CALL f paren es))))) (post (expr_at CALL) i p0) q"
    if "reaches p0 q" "Suc j \<le> p_current q" "HadError (p_console p) \<longrightarrow> HadError (p_console q)"
      "\<not> HadError (p_console q) \<longrightarrow> length es \<le> 255 \<and> arguments_at (p_tokens p0) es (Suc j) (p_current q)"
    for q es
    using that assms(5-) by (auto intro!: seq_consume seq_deref seq_finish intro: d_call)
  have args: "vc (or_null (argument_loop expression k []) (\<lambda>es.
       or_null (parser_consume TOKEN_RIGHT_PAREN ''Expect ')' after arguments.'') (\<lambda>a.
       andthen (deref a) (\<lambda>paren. ret (Some (EXPR_CALL f paren es)))))) (post (expr_at CALL) i p0) p"
  proof (rule seq_vc [OF argument_loop_ok [OF assms(1), where i = "Suc j"] assms(2)])
    show "reaches p p" using reaches_inv [OF assms(2)] by simp
  qed (use assms fin in \<open>auto simp: awaits_argument_def\<close>)
  show ?thesis
    unfolding finish_call_def using assms fin [of p "[]"] args
    by (auto intro!: seq_check simp: a_empty wp_or_null wp_ret)
qed


lemma call_loop_ok:
  assumes "parses (expr_at ASSIGNMENT) n expression" and "reaches p0 p" and "left p \<le> k" and "left p \<le> n"
    and "i < p_current p" and "\<not> HadError (p_console p) \<longrightarrow> derives (p_tokens p0) CALL e i (p_current p)"
  shows "vc (call_loop expression k e) (post (expr_at CALL) i p0) p"
  using assms(2-)
proof (induction k arbitrary: p e rule: less_induct)
  case (less k)
  show ?case
  proof (subst call_loop.simps, rule seq_match [OF less.prems(1)])
    fix p' type
    assume p': "reaches p0 p'" "p_current p' = Suc (p_current p)" "left p' < left p"
      "HadError (p_console p) \<longrightarrow> HadError (p_console p')" "type \<in> set [TOKEN_LEFT_PAREN]"
      "kind (p_tokens p0) (p_current p) type"
    then obtain k' where k: "k = Suc k'" using less.prems(2) by (cases k) auto
    have "vc (or_null (finish_call (Suc k') expression e) (call_loop expression k'))
            (post (expr_at CALL) i p0) p'"
    proof (rule seq_vc [OF finish_call_ok [OF assms(1)] p'(1)])
      show "reaches p' p'" using reaches_inv [OF p'(1)] by simp
    qed (use p' less.prems k reaches_tokens [OF p'(1)] in \<open>auto intro!: less.IH\<close>)
    then show "vc (if \<not> True then ret (Some e)
        else (case k of 0 \<Rightarrow> exhaust
           | Suc k \<Rightarrow> or_null (finish_call (Suc k) expression e) (call_loop expression k)))
       (post (expr_at CALL) i p0) p'"
      by (simp add: k)
  qed (use less.prems in \<open>auto intro: seq_finish\<close>)
qed

lemma parse_call_ok:
  assumes "parses (expr_at ASSIGNMENT) n expression"
  shows "parses (expr_at CALL) (Suc (min k n)) (parse_call k expression)"
  unfolding parse_call_def
  by (rule parsesI)
     (auto intro!: seq_parse [OF parse_primary_ok [OF assms]] call_loop_ok [OF assms] d_tighter [of _ CALL])

lemma parse_unary_ok:
  assumes "parses (expr_at ASSIGNMENT) n expression"
  shows "parses (expr_at UNARY) (Suc (min k n)) (parse_unary expression k)"
proof (induction k rule: less_induct)
  case (less k)
  show ?case
  proof (rule parsesI, subst parse_unary.simps)
    fix p
    assume p: "p_inv p" "reaches p p" "left p < Suc (min k n)"
    have call: "vc (parse_call k expression) (post (expr_at UNARY) (p_current p) p) p"
    proof (rule wp_mono)
      show "vc (parse_call k expression) (post (expr_at CALL) (p_current p) p) p"
        using parse_call_ok [OF assms, of k] p by (simp add: parses_post)
    qed (auto simp: post_def result_ok_def intro: d_tighter [of _ UNARY] split: option.splits)
    show "vc (andthen (parser_match [TOKEN_BANG, TOKEN_MINUS]) (\<lambda>m.
     if m then
       andthen previous_token (\<lambda>op.
       or_null (case k of 0 \<Rightarrow> exhaust | Suc k \<Rightarrow> parse_unary expression k) (\<lambda>right.
       ret (Some (expr_new_unary op right))))
     else parse_call k expression)) (post (expr_at UNARY) (p_current p) p) p"
      using p call
      by (auto intro!: seq_match seq_previous_token seq_parse [OF less.IH] seq_finish d_prefix
          simp: less_Suc_eq_le split: nat.splits)
  qed
qed

lemma parse_or_ok:
  assumes "parses (expr_at ASSIGNMENT) n assignment"
  shows "parses (expr_at OR_LEVEL) (Suc n) (parse_or (Suc n) assignment)"
proof -
  have "parses (expr_at UNARY) (Suc n) (parse_unary assignment (Suc n))"
    using parse_unary_ok [OF assms, of "Suc n"] by (simp add: min_def)
  then have "parses (expr_at FACTOR_LEVEL) (Suc n) (parse_factor (Suc n) assignment)"
    using binary_level_ok [of FACTOR_LEVEL "Suc n" _ "Suc n"] by (simp add: parse_factor_def)
  then have "parses (expr_at TERM_LEVEL) (Suc n) (parse_term (Suc n) assignment)"
    using binary_level_ok [of TERM_LEVEL "Suc n" _ "Suc n"] by (simp add: parse_term_def)
  then have "parses (expr_at COMPARISON) (Suc n) (parse_comparison (Suc n) assignment)"
    using binary_level_ok [of COMPARISON "Suc n" _ "Suc n"] by (simp add: parse_comparison_def)
  then have "parses (expr_at EQUALITY) (Suc n) (parse_equality (Suc n) assignment)"
    using binary_level_ok [of EQUALITY "Suc n" _ "Suc n"] by (simp add: parse_equality_def)
  then have "parses (expr_at AND_LEVEL) (Suc n) (parse_and (Suc n) assignment)"
    using logical_level_ok [of AND_LEVEL "Suc n" _ "Suc n"] by (simp add: parse_and_def)
  then show ?thesis
    using logical_level_ok [of OR_LEVEL "Suc n" _ "Suc n"] by (simp add: parse_or_def)
qed

text \<open>The end of \<open>parse_assignment\<close>, after \<open>=\<close> at position \<open>j\<close> and the value behind it.\<close>

lemma assignment_target_ok:
  assumes "reaches p0 p" and "i \<le> j" and "Suc j \<le> p_current p"
    and "e = None \<or> (\<exists>x. e = Some x \<and> (\<not> HadError (p_console p) \<longrightarrow> derives (p_tokens p0) OR_LEVEL x i j))"
    and "result_ok (expr_at ASSIGNMENT) (Suc j) v p" and "kind (p_tokens p0) j TOKEN_EQUAL"
  shows "vc (case e of None \<Rightarrow> raise_fault Null_Dereference
     | Some (EXPR_VARIABLE name) \<Rightarrow> ret (Some (expr_new_assign name v))
     | Some _ \<Rightarrow> andthen (parser_error (int j) ''Invalid assignment target.'') (\<lambda>_. ret e))
    (post (expr_at ASSIGNMENT) i p0) p"
proof -
  have "vc (andthen (parser_error (int j) ''Invalid assignment target.'') (\<lambda>_. ret (Some x)))
      (post (expr_at ASSIGNMENT) i p0) p" for x
    using assms(1-3) reaches_trans [OF assms(1) reaches_complain [OF reaches_inv [OF assms(1)]]]
      reaches_inv [OF assms(1)]
    by (simp add: wp_simps vc_error p_inv_def post_def result_ok_def)
  then show ?thesis
    using assms
    by (auto simp: wp_simps null_only_def post_def result_ok_def reaches_tokens
        split: option.splits expr.splits intro!: d_assign dest: derives_variable(1) [OF _ refl])
qed

lemma parse_assignment_ok:
  assumes "parses (expr_at ASSIGNMENT) n assignment"
  shows "parses (expr_at ASSIGNMENT) (Suc n) (parse_assignment (Suc n) assignment)"
proof (rule parsesI, unfold parse_assignment_def, rule seq_parse_untested [OF parse_or_ok [OF assms]])
  fix p e q
  assume p: "p_inv p" "reaches p p" "left p < Suc n" and q: "reaches p q" "p_current p \<le> p_current q"
    "left q \<le> left p" "result_ok (expr_at OR_LEVEL) (p_current p) e q"
  show "vc (andthen (parser_match [TOKEN_EQUAL]) (\<lambda>m.
     if m then
       andthen parser_previous (\<lambda>equals.
       andthen assignment (\<lambda>value.
       case e of
         None \<Rightarrow> raise_fault Null_Dereference
       | Some (EXPR_VARIABLE name) \<Rightarrow> ret (Some (expr_new_assign name value))
       | Some _ \<Rightarrow> andthen (parser_error equals ''Invalid assignment target.'') (\<lambda>_. ret e)))
     else ret e)) (post (expr_at ASSIGNMENT) (p_current p) p) q"
  proof (rule seq_match [OF q(1)])
    fix s type
    assume s: "reaches p s" "p_current s = Suc (p_current q)" "left s < left q"
      "HadError (p_console q) \<longrightarrow> HadError (p_console s)" "type \<in> set [TOKEN_EQUAL]"
      "kind (p_tokens p) (p_current q) type"
    have "vc (andthen assignment (\<lambda>v.
       case e of None \<Rightarrow> raise_fault Null_Dereference
       | Some (EXPR_VARIABLE name) \<Rightarrow> ret (Some (expr_new_assign name v))
       | Some _ \<Rightarrow> andthen (parser_error (int (p_current q)) ''Invalid assignment target.'') (\<lambda>_. ret e)))
       (post (expr_at ASSIGNMENT) (p_current p) p) s"
    proof (rule seq_parse_untested [OF assms s(1)], goal_cases)
      case (2 v u)
      with s q show ?case
        by (intro assignment_target_ok) (auto simp: result_ok_def reaches_tokens split: option.splits)
    qed (use s q p in auto)
    then show "vc (if True then
       andthen parser_previous (\<lambda>equals. andthen assignment (\<lambda>value.
       case e of None \<Rightarrow> raise_fault Null_Dereference
       | Some (EXPR_VARIABLE name) \<Rightarrow> ret (Some (expr_new_assign name value))
       | Some _ \<Rightarrow> andthen (parser_error equals ''Invalid assignment target.'') (\<lambda>_. ret e)))
       else ret e) (post (expr_at ASSIGNMENT) (p_current p) p) s"
      unfolding if_True by (rule seq_previous [OF s(2)])
  qed (use q in \<open>auto simp: wp_simps post_def intro: result_ok_tighter [of ASSIGNMENT]\<close>)
qed simp_all

lemma parse_expression_ok: "parses (expr_at ASSIGNMENT) n (parse_expression n)"
proof (induction n)
  case (Suc n)
  have "parse_expression (Suc n) = parse_assignment (Suc n) (parse_expression n)"
    by (rule ext) simp
  with parse_assignment_ok [OF Suc.IH] show ?case by simp
qed (simp add: parses_def)

end
