(* ===== verification/Parser_Statements.thy ===== *)
theory Parser_Statements
  imports Parser_Expressions
begin

text \<open>
  The statement functions meet their contracts, panic-mode recovery makes progress, and the
  main loop turns a token list into a program of the grammar.
\<close>

section \<open>Statements\<close>

text \<open>
  Each statement function is entered behind its keyword, which is at position \<open>i\<close>, with the
  contracts of the expressions and statements nested inside.
\<close>

abbreviation (input) heapless :: "(token list \<Rightarrow> 'a \<Rightarrow> nat \<Rightarrow> nat \<Rightarrow> bool) \<Rightarrow> 'a grammar" where
  "heapless G \<equiv> \<lambda>ts heap. G ts"

lemma statement_at_grows':
  "grows heap heap' \<Longrightarrow> statement_at ts heap s i j \<Longrightarrow> statement_at ts heap' s i j"
  "grows heap heap' \<Longrightarrow> declaration_at_tokens ts heap s i j \<Longrightarrow> declaration_at_tokens ts heap' s i j"
  "grows heap heap' \<Longrightarrow> block_at ts heap ss i j \<Longrightarrow> block_at ts heap' ss i j"
  by (auto simp: grows_def intro: statement_at_grows)

lemma parse_expression_statement_ok:
  assumes "parses (expr_at ASSIGNMENT) n expression"
  shows "parses (heapless expression_statement_at) n (parse_expression_statement expression)"
  unfolding parse_expression_statement_def
  by (rule parsesI) (auto intro!: seq_parse [OF assms] seq_consume seq_finish es_intro)

lemma parse_print_statement_ok:
  assumes "parses (expr_at ASSIGNMENT) n expression" and "reaches p0 p" and "left p < n"
    and "p_current p = Suc i" and "kind (p_tokens p0) i TOKEN_PRINT"
  shows "vc (parse_print_statement expression) (post statement_at i p0) p"
  unfolding parse_print_statement_def using assms(2-)
  by (auto intro!: seq_parse [OF assms(1)] seq_consume seq_finish s_print)

lemma parse_while_statement_ok:
  assumes "parses (expr_at ASSIGNMENT) n expression" and "parses statement_at n statement"
    and "reaches p0 p" and "left p < n" and "p_current p = Suc i" and "kind (p_tokens p0) i TOKEN_WHILE"
  shows "vc (parse_while_statement expression statement) (post statement_at i p0) p"
  unfolding parse_while_statement_def using assms(3-)
  by (auto intro!: seq_parse [OF assms(1)] seq_parse [OF assms(2)] seq_consume seq_finish intro: s_while)

lemma parse_if_statement_ok:
  assumes "parses (expr_at ASSIGNMENT) n expression" and "parses statement_at n statement"
    and "reaches p0 p" and "left p < n" and "p_current p = Suc i" and "kind (p_tokens p0) i TOKEN_IF"
  shows "vc (parse_if_statement expression statement) (post statement_at i p0) p"
  unfolding parse_if_statement_def using assms(3-)
  by (auto intro!: seq_parse [OF assms(1)] seq_parse [OF assms(2)] seq_consume seq_match seq_finish
      intro: s_if, meson s_if_else statement_at_grows'(1) grows_trans)

lemma parse_var_declaration_ok:
  assumes "parses (expr_at ASSIGNMENT) n expression" and "reaches p0 p" and "left p < n"
    and "p_current p = Suc i" and "kind (p_tokens p0) i TOKEN_VAR"
  shows "vc (parse_var_declaration expression) (post (heapless variable_at) i p0) p"
  unfolding parse_var_declaration_def using assms(2-)
  by (auto intro!: seq_parse [OF assms(1)] seq_consume seq_match seq_deref seq_finish v_plain v_init)


lemma seq_clause:
  assumes "parses (expr_at ASSIGNMENT) n expression" and "reaches p0 p" and "left p < n"
    and "terminator \<noteq> TOKEN_EOF"
    and "\<And>v p'. reaches p0 p' \<Longrightarrow> p_current p \<le> p_current p' \<Longrightarrow> left p' \<le> left p \<Longrightarrow>
           (HadError (p_console p) \<longrightarrow> HadError (p_console p')) \<Longrightarrow> grows (p_heap p) (p_heap p') \<Longrightarrow>
           (\<not> HadError (p_console p') \<longrightarrow> clause_at (p_tokens p0) terminator v (p_current p) (p_current p')) \<Longrightarrow>
           vc (f v) (post G i p0) p'"
  shows "vc (or_null (optional_clause terminator expression) f) (post G i p0) p"
proof -
  note go = assms(5)
  show ?thesis
    unfolding optional_clause_def or_null_andthen
    using assms(2-4)
    by (auto intro!: seq_check seq_parse [OF assms(1)] go c_absent c_present)
qed

lemma parse_return_statement_ok:
  assumes "parses (expr_at ASSIGNMENT) n expression" and "reaches p0 p" and "left p < n"
    and "p_current p = Suc i" and "kind (p_tokens p0) i TOKEN_RETURN"
  shows "vc (parse_return_statement expression) (post statement_at i p0) p"
  unfolding parse_return_statement_def using assms(2-)
  by (auto intro!: seq_previous seq_clause [OF assms(1)] seq_consume seq_deref seq_finish intro: s_return)

lemma seq_initializer:
  assumes "parses (expr_at ASSIGNMENT) n expression" and "reaches p0 p" and "left p < n"
    and "\<And>v p'. reaches p0 p' \<Longrightarrow> p_current p \<le> p_current p' \<Longrightarrow> left p' \<le> left p \<Longrightarrow>
           (HadError (p_console p) \<longrightarrow> HadError (p_console p')) \<Longrightarrow> grows (p_heap p) (p_heap p') \<Longrightarrow>
           (\<not> HadError (p_console p') \<longrightarrow> initializer_at (p_tokens p0) v (p_current p) (p_current p')) \<Longrightarrow>
           vc (f v) (post G i p0) p'"
  shows "vc (or_null (for_initializer expression) f) (post G i p0) p"
proof -
  note go = assms(4)
  have var: "vc (or_null (parse_var_declaration expression) (\<lambda>s. f (Some s))) (post G i p0) q"
    if "reaches p0 q" "p_current q = Suc (p_current p)" "left q < left p"
      "HadError (p_console p) \<longrightarrow> HadError (p_console q)" "grows (p_heap p) (p_heap q)"
      "kind (p_tokens p0) (p_current p) TOKEN_VAR" for q
  proof (rule seq_vc [OF parse_var_declaration_ok [OF assms(1), where i = "p_current p"]])
    show "reaches q q" using reaches_inv [OF that(1)] by simp
  qed (use that assms(3) in \<open>auto simp: reaches_tokens intro!: go i_var intro: grows_trans\<close>)
  show ?thesis
    unfolding for_initializer_def or_null_andthen
    using assms(2,3) var
    by (auto intro!: seq_match seq_parse [OF parse_expression_statement_ok [OF assms(1)]] go i_none i_expr)
qed

lemma desugar_for_meaning: "desugar_for init cond incr body = for_meaning init cond incr body"
  by (auto simp: desugar_for_def for_meaning_def Let_def split: option.splits)

lemma parse_for_statement_ok:
  assumes "parses (expr_at ASSIGNMENT) n expression" and "parses statement_at n statement"
    and "reaches p0 p" and "left p < n" and "p_current p = Suc i" and "kind (p_tokens p0) i TOKEN_FOR"
  shows "vc (parse_for_statement expression statement) (post statement_at i p0) p"
  unfolding parse_for_statement_def using assms(3-)
  by (auto simp: desugar_for_meaning intro!: seq_initializer [OF assms(1)] seq_clause [OF assms(1)]
      seq_parse [OF assms(2)] seq_consume seq_finish, blast intro: s_for)


lemma seq_at_end:
  "reaches p0 p \<Longrightarrow> vc (f (left p = 0)) (post G i p0) p \<Longrightarrow> vc (andthen parser_is_at_end f) (post G i p0) p"
  by (simp add: wp_andthen vc_is_at_end reaches_inv)

text \<open>The statements of a block whose opening brace is at position \<open>i\<close>.\<close>

abbreviation block_after :: "stmt list grammar" where
  "block_after \<equiv> \<lambda>ts heap ss i j. block_at ts heap ss (Suc i) j"

abbreviation block_closed :: "stmt list grammar" where
  "block_closed \<equiv> \<lambda>ts heap ss i j. \<exists>k. j = Suc k \<and> block_at ts heap ss (Suc i) k \<and> kind ts k TOKEN_RIGHT_BRACE"

lemma block_loop_ok:
  assumes "parses declaration_at_tokens n declaration" and "reaches p0 p" and "left p \<le> k" and "left p < n"
    and "i < p_current p"
    and "\<not> HadError (p_console p) \<longrightarrow> block_at (p_tokens p0) (p_heap p) ss (Suc i) (p_current p)"
  shows "vc (block_loop declaration k ss) (post block_after i p0) p"
  using assms(2-)
proof (induction k arbitrary: p ss rule: less_induct)
  case (less k)
  then show ?case
    by (subst block_loop.simps)
       (auto intro!: seq_check seq_ret seq_at_end seq_finish seq_parse [OF assms(1)] less.IH
          split: nat.splits, blast intro: b_more statement_at_grows'(3))
qed

lemma parse_block_ok:
  assumes "parses declaration_at_tokens n declaration" and "reaches p0 p" and "left p \<le> k" and "left p < n"
    and "p_current p = Suc i"
  shows "vc (parse_block k declaration) (post block_closed i p0) p"
  unfolding parse_block_def
proof (rule seq_vc [OF block_loop_ok [OF assms(1), where i = i] assms(2)])
  show "reaches p p" using reaches_inv [OF assms(2)] by simp
qed (use assms(3-) in \<open>auto intro!: b_empty seq_consume seq_finish intro: statement_at_grows'\<close>)

text \<open>The parameters read so far, with the comma that announces the next one.\<close>

definition awaits_parameter :: "token list \<Rightarrow> token list \<Rightarrow> nat \<Rightarrow> nat \<Rightarrow> bool" where
  "awaits_parameter ts ps i j \<longleftrightarrow>
     (if ps = [] then i = j else i < j \<and> parameters_at ts ps i (j - 1) \<and> kind ts (j - 1) TOKEN_COMMA)"

lemma awaits_parameter_next:
  assumes "awaits_parameter ts ps i j" and "kind ts j TOKEN_IDENTIFIER"
  shows "parameters_at ts (ps @ [ts ! j]) i (Suc j)"
proof (cases "ps = []")
  case False
  with assms show ?thesis using p_more [of ts ps i "j - 1"] by (auto simp: awaits_parameter_def)
qed (use assms in \<open>auto simp: awaits_parameter_def intro: p_first\<close>)

lemma awaits_parameter_comma:
  "parameters_at ts (ps @ [t]) i (Suc j) \<Longrightarrow> i \<le> j \<Longrightarrow> kind ts (Suc j) TOKEN_COMMA \<Longrightarrow>
     awaits_parameter ts (ps @ [t]) i (Suc (Suc j))"
  by (auto simp: awaits_parameter_def)

lemma parameter_loop_ok:
  assumes "reaches p0 p" and "left p \<le> k" and "Suc i \<le> p_current p"
    and "\<not> HadError (p_console p) \<longrightarrow> length ps \<le> 255 \<and> awaits_parameter (p_tokens p0) ps (Suc i) (p_current p)"
  shows "vc (parameter_loop k ps)
           (post (\<lambda>ts heap ps i j. length ps \<le> 255 \<and> parameters_at ts ps (Suc i) j) i p0) p"
  using assms
proof (induction k arbitrary: p ps rule: less_induct)
  case (less k)
  note loop = less.IH
  show ?case
  proof (cases "PARAMS_MAX \<le> length ps")
    case True
    with less.prems show ?thesis
      by (subst parameter_loop.simps)
         (auto intro!: seq_error_here seq_consume seq_deref seq_match seq_finish loop split: nat.splits)
  next
    case False
    with less.prems show ?thesis
      by (subst parameter_loop.simps)
         (auto intro!: seq_ret seq_consume seq_deref seq_match seq_finish loop awaits_parameter_comma
            awaits_parameter_next simp: PARAMS_MAX_def split: nat.splits)
  qed
qed

lemma seq_vc_untested:
  assumes "vc m (post H j p) p" and "reaches p0 p"
    and "\<And>r p'. reaches p0 p' \<Longrightarrow> p_current p \<le> p_current p' \<Longrightarrow> left p' \<le> left p \<Longrightarrow>
           (HadError (p_console p) \<longrightarrow> HadError (p_console p')) \<Longrightarrow> grows (p_heap p) (p_heap p') \<Longrightarrow>
           result_ok H j r p' \<Longrightarrow> vc (f r) (post G i p0) p'"
  shows "vc (andthen m f) (post G i p0) p"
  unfolding wp_andthen
proof (rule wp_mono [OF assms(1)])
  fix r p'
  assume r: "post H j p r p'"
  then have p': "reaches p p'" by (simp add: post_def)
  show "vc (f r) (post G i p0) p'"
    by (rule assms(3) [OF reaches_trans [OF assms(2) p'] reaches_current [OF p'] reaches_left [OF p']
          reaches_later(1) [OF p'] reaches_later(2) [OF p']])
       (use r in \<open>simp add: post_def\<close>)
qed

lemma seq_alloc:
  assumes "reaches p0 p"
    and "\<not> HadError (p_console p) \<longrightarrow> function_wf (Suc (length (p_heap p))) \<lparr>fs_name = name, fs_params = params, fs_body = body\<rparr>"
    and "\<And>p'. reaches p0 p' \<Longrightarrow> p_current p' = p_current p \<Longrightarrow> p_console p' = p_console p \<Longrightarrow>
           p_heap p' = p_heap p @ [\<lparr>fs_name = name, fs_params = params, fs_body = body\<rparr>] \<Longrightarrow>
           vc (f (STMT_FUNCTION (length (p_heap p)))) (post G i p0) p'"
  shows "vc (andthen (alloc_function name params body) f) (post G i p0) p"
proof -
  let ?p = "p\<lparr>p_heap := p_heap p @ [\<lparr>fs_name = name, fs_params = params, fs_body = body\<rparr>]\<rparr>"
  have "reaches p ?p"
    using assms(2) reaches_inv [OF assms(1)] by (auto simp: reaches_def p_inv_def intro: heap_wf_append)
  then have "vc (f (STMT_FUNCTION (length (p_heap p)))) (post G i p0) ?p"
    by (intro assms(3)) (use assms(1) in \<open>auto intro: reaches_trans\<close>)
  then show ?thesis
    by (simp add: wp_andthen) (simp add: wp_def alloc_function_def stmt_new_function_def)
qed

text \<open>The parameter list, from the parenthesis at position \<open>i\<close> on.\<close>

lemma seq_parameters:
  assumes "reaches p0 p" and "left p \<le> k" and "p_current p = Suc i"
    and "\<And>ps p'. reaches p0 p' \<Longrightarrow> p_current p \<le> p_current p' \<Longrightarrow> left p' \<le> left p \<Longrightarrow>
           (HadError (p_console p) \<longrightarrow> HadError (p_console p')) \<Longrightarrow> grows (p_heap p) (p_heap p') \<Longrightarrow>
           (\<not> HadError (p_console p') \<longrightarrow>
              length ps \<le> 255 \<and> parameters_at (p_tokens p0) ps (Suc i) (p_current p')) \<Longrightarrow>
           vc (f ps) (post G j p0) p'"
  shows "vc (andthen (parser_check TOKEN_RIGHT_PAREN) (\<lambda>empty.
           or_null (if empty then ret (Some []) else parameter_loop k []) f)) (post G j p0) p"
proof -
  have "vc (or_null (parameter_loop k []) f) (post G j p0) p"
  proof (rule seq_vc [OF parameter_loop_ok [where i = i] assms(1)])
    show "reaches p p" using reaches_inv [OF assms(1)] by simp
  qed (use assms(2-) in \<open>auto simp: awaits_parameter_def\<close>)
  moreover have "vc (f []) (post G j p0) p" by (rule assms(4)) (use assms in \<open>auto simp: p_empty\<close>)
  ultimately show ?thesis using assms(1) by (auto intro!: seq_check)
qed

lemma block_wf_Suc:
  "literals_plain ts \<Longrightarrow> block_at ts heap ss i j \<Longrightarrow> s \<in> set ss \<Longrightarrow> stmt_wf (Suc (length heap)) s"
  using statement_wf(3) stmt_wf_mono by (fastforce simp: list_all_iff)

lemma function_at_new:
  "kind ts i TOKEN_FUN \<Longrightarrow> kind ts (Suc i) TOKEN_IDENTIFIER \<Longrightarrow> kind ts (Suc (Suc i)) TOKEN_LEFT_PAREN \<Longrightarrow>
    parameters_at ts ps (Suc (Suc (Suc i))) j \<Longrightarrow> length ps \<le> 255 \<Longrightarrow> kind ts j TOKEN_RIGHT_PAREN \<Longrightarrow>
    kind ts (Suc j) TOKEN_LEFT_BRACE \<Longrightarrow> block_at ts heap ss (Suc (Suc j)) k \<Longrightarrow> kind ts k TOKEN_RIGHT_BRACE \<Longrightarrow>
    declaration_at_tokens ts (heap @ [\<lparr>fs_name = ts ! Suc i, fs_params = ps, fs_body = Some ss\<rparr>])
      (STMT_FUNCTION (length heap)) i (Suc k)"
  by (rule k_function) (auto intro: statement_at_grows)

lemma parse_function_ok:
  assumes "parses declaration_at_tokens n declaration" and "reaches p0 p" and "left p \<le> k" and "left p < n"
    and "p_current p = Suc i" and "kind (p_tokens p0) i TOKEN_FUN"
  shows "vc (parse_function k declaration name) (post declaration_at_tokens i p0) p"
proof -
  have plain: "literals_plain (p_tokens p0)"
    using reaches_inv [OF assms(2)] reaches_tokens [OF assms(2)] by (simp add: p_inv_def tokens_ok_def)
  have body: "vc (andthen (parse_block k declaration) (\<lambda>body.
      andthen (deref (int (Suc i))) (\<lambda>tok.
      andthen (alloc_function tok ps body) (\<lambda>s. ret (Some s))))) (post declaration_at_tokens i p0) q"
    if "reaches p0 q" "left q \<le> k" "left q < n" "p_current q = Suc (Suc j)" "Suc i \<le> j"
      "\<not> HadError (p_console q) \<longrightarrow> length ps \<le> 255 \<and> parameters_at (p_tokens p0) ps (Suc (Suc (Suc i))) j"
      "kind (p_tokens p0) (Suc i) TOKEN_IDENTIFIER" "kind (p_tokens p0) (Suc (Suc i)) TOKEN_LEFT_PAREN"
      "kind (p_tokens p0) j TOKEN_RIGHT_PAREN" "kind (p_tokens p0) (Suc j) TOKEN_LEFT_BRACE" for q j ps
  proof (rule seq_vc_untested [OF parse_block_ok [OF assms(1), where i = "Suc j"] that(1)], goal_cases)
    case (5 r q')
    note q' = this
    show ?case
    proof (rule seq_deref [OF q'(1)], use that q' in simp, rule seq_alloc [OF q'(1)], goal_cases)
      case 1
      from q' that show ?case
        by (cases r) (auto simp: result_ok_def function_wf_def reaches_tokens list_all_iff
            intro: block_wf_Suc [OF plain])
    next
      case (2 u)
      from q' that 2 assms(6) show ?case
        by (cases r) (auto simp: result_ok_def reaches_tokens intro!: seq_finish, blast intro: function_at_new)
    qed
  qed (use that reaches_inv [OF that(1)] in auto)
  show ?thesis
    unfolding parse_function_def using assms(2-)
    by (auto intro!: seq_consume seq_parameters body)
qed


lemma parse_statement_body_ok:
  assumes "parses (expr_at ASSIGNMENT) (Suc n) expression" and "parses statement_at n statement"
    and "parses declaration_at_tokens n declaration"
  shows "parses statement_at (Suc n) (parse_statement_body (Suc n) expression statement declaration)"
proof (rule parsesI)
  fix p
  assume p: "p_inv p" "reaches p p" "left p < Suc n"
  have e: "parses (expr_at ASSIGNMENT) n expression" using assms(1) by (rule parses_mono) simp
  have block: "vc (or_null (parse_block (Suc n) declaration) (\<lambda>ss. ret (Some (STMT_BLOCK ss))))
      (post statement_at (p_current p) p) q"
    if "reaches p q" "p_current q = Suc (p_current p)" "left q < left p"
      "kind (p_tokens p) (p_current p) TOKEN_LEFT_BRACE" for q
  proof (rule seq_vc [OF parse_block_ok [OF assms(3), where i = "p_current p"] that(1)])
    show "reaches q q" using reaches_inv [OF that(1)] by simp
  qed (use that p in \<open>auto intro!: seq_finish intro: s_block\<close>)
  have plain: "vc (parse_expression_statement expression) (post statement_at (p_current p) p) p"
  proof (rule wp_mono)
    show "vc (parse_expression_statement expression) (post (heapless expression_statement_at) (p_current p) p) p"
      using parse_expression_statement_ok [OF assms(1)] p by (simp add: parses_post)
  qed (auto simp: post_def result_ok_def intro: s_expression split: option.splits)
  show "vc (parse_statement_body (Suc n) expression statement declaration) (post statement_at (p_current p) p) p"
    unfolding parse_statement_body_def using p plain
    by (auto intro!: seq_match block parse_if_statement_ok [OF e assms(2)] parse_for_statement_ok [OF e assms(2)]
        parse_print_statement_ok [OF e] parse_return_statement_ok [OF e] parse_while_statement_ok [OF e assms(2)])
qed

text \<open>Panic-mode recovery moves forward unless the end is reached.\<close>

lemma sync_loop_ok:
  assumes "p_inv p" and "left p \<le> k" and "0 < left p \<longrightarrow> 0 < p_current p"
  shows "vc (sync_loop k) (\<lambda>_. reaches p) p"
  using assms
proof (induction k arbitrary: p rule: less_induct)
  case (less k)
  have prev: "0 < left p \<longrightarrow> nat (int (p_current p) - 1) < length (p_tokens p) \<and> 0 \<le> int (p_current p) - 1"
    using less.prems by (auto simp: p_inv_def)
  have "vc (sync_loop k') (\<lambda>_. reaches p) (step p)" if "k = Suc k'" "0 < left p" for k'
    by (rule wp_mono [OF less.IH]) (use that less.prems in \<open>auto intro: reaches_trans reaches_step\<close>)
  with less.prems prev show ?case
    by (subst sync_loop.simps) (auto simp: vc_simps p_inv_def [of p] split: nat.splits)
qed

lemma parser_synchronize_ok:
  assumes "p_inv p" and "left p \<le> k"
  shows "vc (parser_synchronize k) (\<lambda>_ p'. reaches p p' \<and> (0 < left p \<longrightarrow> p_current p < p_current p')) p"
proof -
  let ?p = "if 0 < left p then step p else p"
  have "vc (sync_loop k) (\<lambda>_. reaches ?p) ?p"
    using assms by (intro sync_loop_ok) auto
  then have "vc (sync_loop k) (\<lambda>_ p'. reaches p p' \<and> (0 < left p \<longrightarrow> p_current p < p_current p')) ?p"
    by (rule wp_mono)
       (use assms in \<open>auto intro: reaches_trans reaches_step dest: reaches_current split: if_splits\<close>)
  with assms show ?thesis by (auto simp: parser_synchronize_def vc_simps split: if_splits)
qed

text \<open>A declaration makes progress even when it fails.\<close>

definition declares :: "nat \<Rightarrow> stmt option parse \<Rightarrow> bool" where
  "declares n m \<longleftrightarrow>
     parses declaration_at_tokens n m \<and>
     (\<forall>p. p_inv p \<longrightarrow> 0 < left p \<longrightarrow> left p < n \<longrightarrow> vc m (\<lambda>_ p'. p_current p < p_current p') p)"

lemma declaration_tail_ok:
  assumes "post declaration_at_tokens (p_current p) p r q" and "left q \<le> k" and "left q \<le> left p"
  shows "vc (case r of Some decl \<Rightarrow> ret (Some decl) | None \<Rightarrow> andthen (parser_synchronize k) (\<lambda>_. ret None))
    (\<lambda>r p'. post declaration_at_tokens (p_current p) p r p' \<and> (0 < left p \<longrightarrow> p_current p < p_current p')) q"
proof (cases r)
  case None
  have q: "reaches p q" "HadError (p_console q)" using assms(1) None by (auto simp: post_def result_ok_def)
  have "vc (parser_synchronize k) (\<lambda>_ p'. reaches q p' \<and> (0 < left q \<longrightarrow> p_current q < p_current p')) q"
    using reaches_inv [OF q(1)] assms(2) by (rule parser_synchronize_ok)
  then have "vc (parser_synchronize k) (\<lambda>_ p'. post declaration_at_tokens (p_current p) p None p' \<and>
      (0 < left p \<longrightarrow> p_current p < p_current p')) q"
  proof (rule wp_mono)
    fix u p'
    assume p': "reaches q p' \<and> (0 < left q \<longrightarrow> p_current q < p_current p')"
    have "p_current p < p_current q" if "left q = 0" "0 < left p"
      using that q(1) by (auto simp: left_def reaches_def)
    with p' q reaches_current [OF q(1)] reaches_current [of q p'] reaches_trans [OF q(1), of p']
      reaches_error [of q p']
    show "post declaration_at_tokens (p_current p) p None p' \<and> (0 < left p \<longrightarrow> p_current p < p_current p')"
      by (cases "left q = 0") (auto simp: post_def result_ok_def)
  qed
  then show ?thesis by (simp add: None wp_simps)
next
  case (Some x)
  with assms show ?thesis by (simp add: wp_simps post_def result_ok_def)
qed

lemma post_mono:
  "post G i p0 r p \<Longrightarrow> (\<And>ts heap x j. G ts heap x i j \<Longrightarrow> H ts heap x i j) \<Longrightarrow> post H i p0 r p"
  by (auto simp: post_def result_ok_def split: option.splits)

lemma parse_declaration_body_ok:
  assumes "parses (expr_at ASSIGNMENT) (Suc n) expression" and "parses statement_at (Suc n) statement"
    and "parses declaration_at_tokens n declaration"
  shows "declares (Suc n) (parse_declaration_body (Suc n) expression statement declaration)"
proof -
  have "vc (parse_declaration_body (Suc n) expression statement declaration)
    (\<lambda>r p'. post declaration_at_tokens (p_current p) p r p' \<and> (0 < left p \<longrightarrow> p_current p < p_current p')) p"
    if p: "p_inv p" "left p < Suc n" for p
  proof -
    have e: "parses (expr_at ASSIGNMENT) n expression" using assms(1) by (rule parses_mono) simp
    have r: "reaches p p" using p by simp
    let ?head = "andthen (parser_match [TOKEN_FUN]) (\<lambda>m.
        if m then parse_function (Suc n) declaration ''function''
        else andthen (parser_match [TOKEN_VAR]) (\<lambda>m.
               if m then parse_var_declaration expression else statement))"
    have var: "vc (parse_var_declaration expression) (post declaration_at_tokens (p_current p) p) q"
      if "reaches p q" "p_current q = Suc (p_current p)" "left q < left p"
        "kind (p_tokens p) (p_current p) TOKEN_VAR" for q
      by (rule wp_mono [OF parse_var_declaration_ok [OF e that(1)]])
         (use that p in \<open>auto intro: post_mono k_variable\<close>)
    have stmt: "vc statement (post declaration_at_tokens (p_current p) p) p"
      by (rule wp_mono [where R = "post statement_at (p_current p) p"])
         (use assms(2) p in \<open>auto simp: parses_post intro: post_mono k_statement\<close>)
    have "vc ?head (post declaration_at_tokens (p_current p) p) p"
      using p r stmt by (auto intro!: seq_match parse_function_ok [OF assms(3)] var)
    then have "vc ?head (\<lambda>r q. vc (case r of Some decl \<Rightarrow> ret (Some decl)
        | None \<Rightarrow> andthen (parser_synchronize (Suc n)) (\<lambda>_. ret None))
      (\<lambda>r p'. post declaration_at_tokens (p_current p) p r p' \<and> (0 < left p \<longrightarrow> p_current p < p_current p')) q) p"
    proof (rule wp_mono)
      fix d q
      assume q: "post declaration_at_tokens (p_current p) p d q"
      then have "left q \<le> left p" by (auto simp: post_def dest: reaches_left)
      with p declaration_tail_ok [OF q] show "vc (case d of Some decl \<Rightarrow> ret (Some decl)
        | None \<Rightarrow> andthen (parser_synchronize (Suc n)) (\<lambda>_. ret None))
        (\<lambda>r p'. post declaration_at_tokens (p_current p) p r p' \<and> (0 < left p \<longrightarrow> p_current p < p_current p')) q"
        by simp
    qed
    moreover have "parse_declaration_body (Suc n) expression statement declaration =
      andthen ?head (\<lambda>r. case r of Some decl \<Rightarrow> ret (Some decl)
        | None \<Rightarrow> andthen (parser_synchronize (Suc n)) (\<lambda>_. ret None))"
      by (simp add: parse_declaration_body_def)
    ultimately show ?thesis by (simp only: wp_andthen)
  qed
  then show ?thesis
    unfolding declares_def parses_post by (auto intro: wp_mono)
qed

lemma parse_knots:
  "parse_statement (Suc n) =
     parse_statement_body (Suc n) (parse_expression (Suc n)) (parse_statement n) (parse_declaration n)"
  "parse_declaration (Suc n) =
     parse_declaration_body (Suc n) (parse_expression (Suc n)) (parse_statement (Suc n)) (parse_declaration n)"
  by (rule ext, simp)+

lemma parse_statement_ok:
  "parses statement_at n (parse_statement n)" "declares n (parse_declaration n)"
proof (induction n)
  case (Suc n)
  have d: "parses declaration_at_tokens n (parse_declaration n)" using Suc.IH(2) by (simp add: declares_def)
  have s: "parses statement_at (Suc n) (parse_statement (Suc n))"
    unfolding parse_knots(1) by (rule parse_statement_body_ok [OF parse_expression_ok Suc.IH(1) d])
  { case 1 from s show ?case . }
  { case 2 show ?case
      unfolding parse_knots(2) by (rule parse_declaration_body_ok [OF parse_expression_ok s d]) }
qed (simp_all add: parses_def declares_def)

section \<open>The program\<close>

lemma parse_loop_ok:
  assumes "reaches p0 p" and "left p < k"
    and "\<not> HadError (p_console p) \<longrightarrow> block_at (p_tokens p0) (p_heap p) ss i (p_current p)"
  shows "vc (parse_loop k ss) (\<lambda>ss p'. reaches p0 p' \<and> left p' = 0 \<and>
    (\<not> HadError (p_console p') \<longrightarrow> block_at (p_tokens p0) (p_heap p') ss i (p_current p'))) p"
    (is "vc _ ?Q p")
  using assms
proof (induction k arbitrary: p ss)
  case (Suc k)
  note p = reaches_inv [OF Suc.prems(1)]
  show ?case
  proof (cases "left p = 0")
    case True
    with Suc.prems p show ?thesis by (subst parse_loop.simps) (simp add: vc_simps)
  next
    case False
    have d: "declares (Suc k) (parse_declaration (Suc k))" by (rule parse_statement_ok(2))
    have "vc (parse_declaration (Suc k)) (\<lambda>r p'. post declaration_at_tokens (p_current p) p r p' \<and>
        p_current p < p_current p') p"
      using d p Suc.prems(2) False by (intro wp_conj) (auto simp: declares_def parses_post)
    then have "vc (parse_declaration (Suc k)) (\<lambda>r.
        vc (parse_loop k (case r of None \<Rightarrow> ss | Some s \<Rightarrow> ss @ [s])) ?Q) p"
    proof (rule wp_mono)
      fix r p'
      assume r: "post declaration_at_tokens (p_current p) p r p' \<and> p_current p < p_current p'"
      then have p': "reaches p p'" "left p' < left p" by (auto simp: post_def intro: reaches_left_less)
      show "vc (parse_loop k (case r of None \<Rightarrow> ss | Some s \<Rightarrow> ss @ [s])) ?Q p'"
      proof (rule Suc.IH)
        show "reaches p0 p'" using Suc.prems(1) p'(1) by (rule reaches_trans)
        show "left p' < k" using p'(2) Suc.prems(2) by simp
        show "\<not> HadError (p_console p') \<longrightarrow>
          block_at (p_tokens p0) (p_heap p') (case r of None \<Rightarrow> ss | Some s \<Rightarrow> ss @ [s]) i (p_current p')"
          using r Suc.prems(3) reaches_later [OF p'(1)] reaches_tokens [OF Suc.prems(1)] reaches_tokens [OF p'(1)]
          by (auto simp: post_def result_ok_def intro: b_more statement_at_grows'(3) split: option.splits)
      qed
    qed
    then show ?thesis using False p by (subst parse_loop.simps) (simp add: vc_simps)
  qed
qed simp

text \<open>The tokens in front of the end token, read as a sequence of declarations.\<close>

definition program_at :: "token list \<Rightarrow> declarations \<Rightarrow> stmt list \<Rightarrow> bool" where
  "program_at ts heap ss \<longleftrightarrow> block_at ts heap ss 0 (length ts - 1)"

lemma parser_parse_ok:
  assumes "tokens_ok ts" and "heap_wf heap"
  shows "vc parser_parse (\<lambda>ss p'. reaches (parser_new ts heap con) p' \<and>
    (\<not> HadError (p_console p') \<longrightarrow> program_at ts (p_heap p') ss)) (parser_new ts heap con)"
proof -
  let ?p = "parser_new ts heap con"
  have inv: "p_inv ?p" using assms by (auto simp: p_inv_def parser_new_def tokens_ok_def)
  have "ts \<noteq> []" using assms(1) by (simp add: tokens_ok_def)
  then have left: "left ?p < length ts" by (simp add: left_def parser_new_def)
  have "vc (parse_loop (length ts) []) (\<lambda>ss p'. reaches ?p p' \<and> left p' = 0 \<and>
    (\<not> HadError (p_console p') \<longrightarrow> block_at (p_tokens ?p) (p_heap p') ss 0 (p_current p'))) ?p"
    by (rule parse_loop_ok) (use inv left in \<open>auto simp: parser_new_def intro: b_empty\<close>)
  then have "vc (parse_loop (length ts) []) (\<lambda>ss p'. reaches ?p p' \<and>
    (\<not> HadError (p_console p') \<longrightarrow> program_at ts (p_heap p') ss)) ?p"
  proof (rule wp_mono)
    fix ss p'
    assume r: "reaches ?p p' \<and> left p' = 0 \<and>
      (\<not> HadError (p_console p') \<longrightarrow> block_at (p_tokens ?p) (p_heap p') ss 0 (p_current p'))"
    then have "p_current p' = length ts - 1"
      using reaches_inv [of ?p p'] reaches_tokens [of ?p p'] by (auto simp: left_def p_inv_def parser_new_def)
    with r show "reaches ?p p' \<and> (\<not> HadError (p_console p') \<longrightarrow> program_at ts (p_heap p') ss)"
      by (auto simp: program_at_def parser_new_def)
  qed
  then show ?thesis by (simp add: parser_parse_def wp_simps) (simp add: parser_new_def)
qed

end
