(* ===== verification/Parser_Properties.thy ===== *)
theory Parser_Properties
  imports Parser_Statements
begin

text \<open>
  What the parser guarantees to the rest of the program, and the input on which it crashes.
\<close>

section \<open>A leading equals sign\<close>

text \<open>
  When the token at hand is \<open>=\<close>, every level of the expression grammar fails without consuming
  it, and \<open>parse_assignment\<close> goes on to match it with a NULL left-hand side.
\<close>

lemma kind_unique: "kind ts i type \<Longrightarrow> kind ts i type' \<longleftrightarrow> type' = type"
  by (auto simp: kind_def)

lemma vc_match_other:
  assumes "p_inv p" and "kind (p_tokens p) (p_current p) type" and "type \<notin> set types" and "TOKEN_EOF \<notin> set types"
  shows "wp E F (andthen (parser_match types) f) Q p = wp E F (f False) Q p"
  using assms by (auto simp: wp_andthen vc_match kind_unique [OF assms(2)])

lemma parse_unary_unfold:
  "parse_unary expression n =
     andthen (parser_match [TOKEN_BANG, TOKEN_MINUS]) (\<lambda>m.
     if m then
       andthen previous_token (\<lambda>op.
       or_null (case n of 0 \<Rightarrow> exhaust | Suc k \<Rightarrow> parse_unary expression k) (\<lambda>right.
       ret (Some (expr_new_unary op right))))
     else parse_call n expression)"
  by (rule ext) (rule parse_unary.simps)

lemma logical_loop_unfold:
  "logical_loop types operand n e =
     andthen (parser_match types) (\<lambda>m.
     if \<not> m then ret e
     else
       andthen previous_token (\<lambda>op.
       andthen operand (\<lambda>right.
       case n of 0 \<Rightarrow> exhaust | Suc k \<Rightarrow> logical_loop types operand k (Some (expr_new_logical e op right)))))"
  by (rule ext) (rule logical_loop.simps)

lemma parse_or_at_equals:
  assumes "p_inv p" and "kind (p_tokens p) (p_current p) TOKEN_EQUAL"
  shows "vc (parse_or (Suc n) a) Q p = Q None (complain (p_tokens p ! p_current p) ''Expect expression.'' p)"
proof -
  let ?q = "complain (p_tokens p ! p_current p) ''Expect expression.'' p"
  note other = vc_match_other [OF assms]
  have q: "p_inv ?q" "kind (p_tokens ?q) (p_current ?q) TOKEN_EQUAL" using assms by simp_all
  have primary: "vc (parse_primary a) Q p = Q None ?q" for Q
    unfolding parse_primary_def using assms(1)
    by (simp add: other) (simp add: parser_peek_def wp_simps vc_error p_inv_def)
  have unary: "vc (parse_unary a (Suc n)) Q p = Q None ?q" for Q
    unfolding parse_unary_unfold [of a "Suc n"] by (simp add: other parse_call_def wp_or_null primary)
  have loop: "vc (logical_loop types m (Suc n) None) Q ?q = Q None ?q"
    if "types = [TOKEN_AND] \<or> types = [TOKEN_OR]" for types m Q
    unfolding logical_loop_unfold [of types m "Suc n"] using that
    by (auto simp: vc_match_other [OF q] wp_ret)
  show ?thesis
    by (simp add: parse_or_def parse_and_def parse_equality_def parse_comparison_def parse_term_def
        parse_factor_def wp_simps unary loop)
qed

lemma parse_assignment_at_equals:
  assumes "p_inv p" and "kind (p_tokens p) (p_current p) TOKEN_EQUAL" and "left p < Suc n"
    and "parses (expr_at ASSIGNMENT) n assignment"
  shows "vc (parse_assignment (Suc n) assignment) (\<lambda>_ _. False) p"
proof -
  let ?q = "complain (p_tokens p ! p_current p) ''Expect expression.'' p"
  have q: "p_inv ?q" using assms(1) by simp
  have left: "0 < left p" using kind_left [OF assms(1,2)] by simp
  have "vc assignment (post (expr_at ASSIGNMENT) (p_current (step ?q)) (step ?q)) (step ?q)"
    using assms(4) [unfolded parses_post, THEN spec, of "step ?q"] assms(3) q left by simp
  then have "vc assignment (\<lambda>_ _. True) (step ?q)" by (rule wp_mono) simp
  then show ?thesis
    using assms(2) q
    by (simp add: parse_assignment_def wp_andthen parse_or_at_equals [OF assms(1,2)] vc_match)
       (simp add: parser_previous_def wp_simps null_only_def)
qed

lemma parse_statement_at_equals:
  assumes "p_inv p" and "kind (p_tokens p) (p_current p) TOKEN_EQUAL" and "left p < n"
  shows "vc (parse_declaration n) (\<lambda>_ _. False) p"
proof -
  obtain k where n: "n = Suc k" using assms(3) by (cases n) auto
  have "vc (parse_expression n) (\<lambda>_ _. False) p"
    using parse_assignment_at_equals [OF assms(1,2), of k "parse_expression k"] assms(3) parse_expression_ok
    by (simp add: n wp_def)
  then have "vc (parse_statement n) Q p" for Q
    unfolding n parse_knots(1) parse_statement_body_def parse_expression_statement_def
    by (simp add: vc_match_other [OF assms(1,2)] wp_or_null) (rule wp_mono, assumption, simp)
  then show ?thesis
    unfolding n parse_knots(2) parse_declaration_body_def
    by (simp add: vc_match_other [OF assms(1,2)]) (simp add: wp_andthen vc_match_other [OF assms(1,2)])
qed

lemma parse_loop_unfold:
  "parse_loop n statements =
     andthen parser_is_at_end (\<lambda>at_end.
     if at_end then ret statements
     else
       andthen (parse_declaration n) (\<lambda>statement.
       case n of 0 \<Rightarrow> exhaust
       | Suc k \<Rightarrow> parse_loop k (case statement of None \<Rightarrow> statements | Some s \<Rightarrow> statements @ [s])))"
  by (rule ext) (rule parse_loop.simps)

lemma parser_parse_at_equals:
  assumes "tokens_ok ts" and "heap_wf heap" and "kind ts 0 TOKEN_EQUAL"
  shows "parser_parse (parser_new ts heap con) = Fault Null_Dereference"
proof -
  let ?p = "parser_new ts heap con"
  have inv: "p_inv ?p" using assms by (auto simp: p_inv_def parser_new_def tokens_ok_def)
  have kind: "kind (p_tokens ?p) (p_current ?p) TOKEN_EQUAL" using assms(3) by (simp add: parser_new_def)
  have "ts \<noteq> []" using assms(1) by (simp add: tokens_ok_def)
  then have "left ?p < length ts" by (simp add: left_def parser_new_def)
  then have "vc (parse_declaration (length ts)) (\<lambda>_ _. False) ?p"
    using inv kind by (intro parse_statement_at_equals)
  then have "vc (parse_declaration (length ts)) Q ?p" for Q by (rule wp_mono) simp
  then have "vc (parse_loop (length ts) []) (\<lambda>_ _. False) ?p"
    unfolding parse_loop_unfold [of "length ts" "[]"] using inv kind_left [OF inv kind] by (simp add: vc_simps)
  then have "vc parser_parse (\<lambda>_ _. False) ?p"
    by (simp add: parser_parse_def wp_simps) (simp add: parser_new_def)
  then show ?thesis by (auto simp: wp_def null_only_def split: outcome.splits)
qed

section \<open>Properties\<close>

text \<open>
  C5. On every token list that ends with its only end token (which is what the scanner
  produces) the parser ends: it never runs out of its fuel, never reads outside the token array
  and never fails an assertion. The only way not to return is one NULL dereference.
\<close>

theorem parser_parse_ends:
  assumes "tokens_ok ts" and "heap_wf heap"
  shows "parser_parse (parser_new ts heap con) = Fault Null_Dereference \<or>
    (\<exists>p' statements. parser_parse (parser_new ts heap con) = Done p' statements)"
  using parser_parse_ok [OF assms, of con] by (auto simp: wp_def null_only_def split: outcome.splits)

text \<open>The tokens of \<open>x;\<close> and of \<open>= 1;\<close>.\<close>

definition token_of :: "token_type \<Rightarrow> string \<Rightarrow> object \<Rightarrow> token" where
  "token_of type lexeme literal = \<lparr>t_type = type, t_lexeme = lexeme, t_literal = literal, t_line = 1\<rparr>"

definition sample_tokens :: "token list" where
  "sample_tokens = [token_of TOKEN_IDENTIFIER ''x'' OBJECT_NULL, token_of TOKEN_SEMICOLON '';'' OBJECT_NULL,
     token_of TOKEN_EOF [] OBJECT_NULL]"

definition equals_tokens :: "token list" where
  "equals_tokens = [token_of TOKEN_EQUAL ''='' OBJECT_NULL, token_of TOKEN_NUMBER ''1'' (OBJECT_NUMBER (d_of_int 1)),
     token_of TOKEN_SEMICOLON '';'' OBJECT_NULL, token_of TOKEN_EOF [] OBJECT_NULL]"

lemma sample_tokens_ok [simp]: "tokens_ok sample_tokens" "tokens_ok equals_tokens"
  by (simp_all add: sample_tokens_def equals_tokens_def tokens_ok_def token_of_def literals_plain_def)

theorem parser_parse_ends_witness:
  "tokens_ok sample_tokens \<and> heap_wf [] \<and>
   (parser_parse (parser_new sample_tokens [] console_new) = Fault Null_Dereference \<or>
    (\<exists>p' statements. parser_parse (parser_new sample_tokens [] console_new) = Done p' statements))"
  using parser_parse_ends [of sample_tokens "[]" console_new] by simp

text \<open>
  C2. The parser is sound for the grammar: when it returns and no error was reported, the
  statements it returns are a derivation of the whole token list, with the precedence and
  associativity of the grammar, every \<open>for\<close> loop replaced by its meaning as a \<open>while\<close> loop and
  every function declaration placed in the heap. It writes nothing to the standard output.
\<close>

theorem parser_parse_sound:
  assumes "tokens_ok ts" and "heap_wf heap"
    and "parser_parse (parser_new ts heap con) = Done p' statements" and "\<not> HadError (p_console p')"
  shows "program_at ts (p_heap p') statements \<and> (\<exists>ext. p_heap p' = heap @ ext) \<and>
    con_out (p_console p') = con_out con"
  using parser_parse_ok [OF assms(1,2), of con] assms(3,4)
  by (auto simp: wp_def reaches_def parser_new_def)

lemma sample_parse:
  "\<exists>p'. parser_parse (parser_new sample_tokens [] console_new) =
     Done p' [STMT_EXPRESSION (EXPR_VARIABLE (token_of TOKEN_IDENTIFIER ''x'' OBJECT_NULL))] \<and>
     \<not> HadError (p_console p')"
proof -
  have "case parser_parse (parser_new sample_tokens [] console_new) of
      Done p' ss \<Rightarrow> ss = [STMT_EXPRESSION (EXPR_VARIABLE (token_of TOKEN_IDENTIFIER ''x'' OBJECT_NULL))] \<and>
        \<not> HadError (p_console p')
    | _ \<Rightarrow> False"
    by code_simp
  then show ?thesis by (auto split: outcome.splits)
qed

theorem parser_parse_sound_witness:
  "\<exists>p' statements. parser_parse (parser_new sample_tokens [] console_new) = Done p' statements \<and>
     \<not> HadError (p_console p') \<and> program_at sample_tokens (p_heap p') statements"
  using sample_parse parser_parse_sound [of sample_tokens "[]" console_new] by fastforce

text \<open>
  C31. When no error was reported, the trees the parser hands to the interpreter are well formed:
  no child is NULL, literals are not functions, every operator is one that the interpreter knows, calls and declarations
  have at most 255 arguments and parameters, and every function statement refers to a declared
  function whose body is itself well formed.
\<close>

theorem parser_parse_well_formed:
  assumes "tokens_ok ts" and "heap_wf heap"
    and "parser_parse (parser_new ts heap con) = Done p' statements" and "\<not> HadError (p_console p')"
  shows "list_all (stmt_wf (length (p_heap p'))) statements \<and> heap_wf (p_heap p')"
proof -
  have "reaches (parser_new ts heap con) p'" "program_at ts (p_heap p') statements"
    using parser_parse_ok [OF assms(1,2), of con] assms(3,4) by (auto simp: wp_def)
  then show ?thesis
    using assms(1,4) reaches_inv statement_wf(3) by (auto simp: program_at_def p_inv_def tokens_ok_def)
qed

theorem parser_parse_well_formed_witness:
  "\<exists>p' statements. parser_parse (parser_new sample_tokens [] console_new) = Done p' statements \<and>
     \<not> HadError (p_console p') \<and> list_all (stmt_wf (length (p_heap p'))) statements"
  using sample_parse parser_parse_well_formed [of sample_tokens "[]" console_new] by fastforce

text \<open>
  C40. A program whose first token is \<open>=\<close> crashes the parser: the left-hand side of the assignment
  could not be parsed and is NULL, and \<open>parse_assignment\<close> reads its type all the same. A syntax
  error in a Lox program becomes a crash of the interpreter instead of an error message.
\<close>

theorem parser_crashes_on_leading_equals:
  assumes "tokens_ok ts" and "heap_wf heap" and "kind ts 0 TOKEN_EQUAL"
  shows "parser_parse (parser_new ts heap con) = Fault Null_Dereference"
  using assms by (rule parser_parse_at_equals)

theorem parser_crashes_on_leading_equals_witness:
  "parser_parse (parser_new equals_tokens [] console_new) = Fault Null_Dereference"
  by (rule parser_crashes_on_leading_equals, simp, simp) (simp add: kind_def equals_tokens_def token_of_def)

end
