(* ===== verification/Environment.thy ===== *)
theory Environment
  imports Console Hash_Table
begin

text \<open>
  The environments of \<open>source/private/environment.c\<close>. An environment has an address, an index
  into the store of all environments, because closures and the interpreter share environments
  and see each other's assignments. \<open>environment_get\<close> and \<open>environment_assign\<close> follow the
  \<open>enclosing\<close> pointers; they are \<open>partial_function\<close>s whose value \<open>None\<close> is "does not return"
  (a cycle of environments, a dangling pointer or a search of a table that does not end).

  Under \<open>store_ok\<close> an environment is only enclosed by older ones, every table is well formed,
  and all operations return. What a search sees of one environment is the partial map
  \<open>env_frame\<close>; the search resolves a name in the frames of the \<open>scope\<close>, from the inside out.
\<close>

section \<open>The model\<close>

record environment =
  env_enclosing :: "nat option"
  env_values :: "object hash_table"

type_synonym store = "environment list"

datatype lookup_result = ENVIRONMENT_LOOKUP_OK object | ENVIRONMENT_LOOKUP_ERROR runtime_error

definition environment_new :: "store \<Rightarrow> nat \<times> store" where
  "environment_new st = (length st, st @ [\<lparr>env_enclosing = None, env_values = hash_table_new hash_fnv1a\<rparr>])"

definition environment_new_enclosed :: "nat \<Rightarrow> store \<Rightarrow> nat \<times> store" where
  "environment_new_enclosed enclosing st =
     (length st, st @ [\<lparr>env_enclosing = Some enclosing, env_values = hash_table_new hash_fnv1a\<rparr>])"

definition environment_define :: "store \<Rightarrow> nat \<Rightarrow> string \<Rightarrow> object \<Rightarrow> store option" where
  "environment_define st a name value =
     (if a < length st then do {
        table \<leftarrow> hash_table_insert (env_values (st ! a)) name value;
        Some (st[a := (st ! a)\<lparr>env_values := table\<rparr>])
      } else None)"

definition undefined_variable :: "token \<Rightarrow> runtime_error" where
  "undefined_variable name =
     runtime_error_new name (''Undefined variable '' @ [CHR 0x27] @ t_lexeme name @ [CHR 0x27] @ ''.'')"

partial_function (option) environment_get :: "store \<Rightarrow> nat \<Rightarrow> token \<Rightarrow> lookup_result option" where
  "environment_get st a name =
     (if a < length st then do {
        result \<leftarrow> hash_table_lookup (env_values (st ! a)) (t_lexeme name);
        (case result of
           Some value \<Rightarrow> Some (ENVIRONMENT_LOOKUP_OK value)
         | None \<Rightarrow>
             (case env_enclosing (st ! a) of
                Some enclosing \<Rightarrow> environment_get st enclosing name
              | None \<Rightarrow> Some (ENVIRONMENT_LOOKUP_ERROR (undefined_variable name))))
      } else None)"

partial_function (option) environment_assign ::
  "store \<Rightarrow> nat \<Rightarrow> token \<Rightarrow> object \<Rightarrow> (runtime_error option \<times> store) option" where
  "environment_assign st a name value =
     (if a < length st then do {
        loc \<leftarrow> hash_table_try_get (env_values (st ! a)) (t_lexeme name);
        (case loc of
           Some i \<Rightarrow> Some (None, st[a := (st ! a)\<lparr>env_values := slot_store (env_values (st ! a)) i value\<rparr>])
         | None \<Rightarrow>
             (case env_enclosing (st ! a) of
                Some enclosing \<Rightarrow> environment_assign st enclosing name value
              | None \<Rightarrow> Some (Some (undefined_variable name), st)))
      } else None)"

declare environment_get.simps [code] environment_assign.simps [code]

text \<open>The bindings of one environment in the order of its buckets, as \<open>environment_dump\<close> prints them.\<close>

fun dump_buckets :: "declarations \<Rightarrow> object hash_bucket list \<Rightarrow> string" where
  "dump_buckets heap [] = []"
| "dump_buckets heap (None # buckets) = dump_buckets heap buckets"
| "dump_buckets heap (Some (key, value) # buckets) =
     key @ '': '' @ OBJECT_PRINT heap value @ [newline] @ dump_buckets heap buckets"

partial_function (option) environment_dump :: "declarations \<Rightarrow> store \<Rightarrow> nat \<Rightarrow> string option" where
  "environment_dump heap st a =
     (if a < length st then do {
        outer \<leftarrow> (case env_enclosing (st ! a) of
                    None \<Rightarrow> Some []
                  | Some enclosing \<Rightarrow> do {
                      text \<leftarrow> environment_dump heap st enclosing;
                      Some (''--- ENCLOSING ---'' @ [newline] @ text @ ''--- END ENCLOSING ---'' @ [newline])
                    });
        Some (''--- ENVIRONMENT ---'' @ [newline] @ dump_buckets heap (ht_data (env_values (st ! a))) @
              outer @ ''--- END ENVIRONMENT ---'' @ [newline])
      } else None)"

declare environment_dump.simps [code]

section \<open>Invariant and abstraction\<close>

definition store_ok :: "store \<Rightarrow> bool" where
  "store_ok st \<longleftrightarrow>
     (\<forall>a < length st. ht_inv (env_values (st ! a)) \<and> ht_function (env_values (st ! a)) = hash_fnv1a \<and>
        (case env_enclosing (st ! a) of None \<Rightarrow> True | Some b \<Rightarrow> b < a))"

text \<open>What a search in one environment finds.\<close>

definition env_frame :: "store \<Rightarrow> nat \<Rightarrow> string \<rightharpoonup> object" where
  "env_frame st a k = (case hash_table_lookup (env_values (st ! a)) k of None \<Rightarrow> None | Some r \<Rightarrow> r)"

text \<open>The environments a search visits, from the inside out.\<close>

function scope :: "store \<Rightarrow> nat \<Rightarrow> nat list" where
  "scope st a =
     a # (case env_enclosing (st ! a) of None \<Rightarrow> [] | Some b \<Rightarrow> if b < a then scope st b else [])"
  by pat_completeness auto
termination by (relation "measure snd") auto

declare scope.simps [simp del]

fun resolve :: "store \<Rightarrow> string \<Rightarrow> nat list \<Rightarrow> nat option" where
  "resolve st k [] = None"
| "resolve st k (a # as) = (if env_frame st a k \<noteq> None then Some a else resolve st k as)"

lemma store_okD:
  assumes "store_ok st" and "a < length st"
  shows "ht_inv (env_values (st ! a))" and "ht_function (env_values (st ! a)) = hash_fnv1a"
    and "env_enclosing (st ! a) = Some b \<Longrightarrow> b < a"
  using assms by (auto simp: store_ok_def split: option.splits)

lemma frame_lookup:
  assumes "store_ok st" and "a < length st"
  shows "hash_table_lookup (env_values (st ! a)) k = Some (env_frame st a k)"
  using hash_table_lookup_ok [OF store_okD(1) [OF assms], of k] by (auto simp: env_frame_def)

lemma frame_try_get:
  assumes "store_ok st" and "a < length st"
  shows "\<exists>r. hash_table_try_get (env_values (st ! a)) k = Some r \<and> (r = None \<longleftrightarrow> env_frame st a k = None)"
proof -
  obtain r where r: "hash_table_try_get (env_values (st ! a)) k = Some r"
      "case r of None \<Rightarrow> k \<notin> bound_keys (env_values (st ! a))
       | Some i \<Rightarrow> i < length (ht_data (env_values (st ! a))) \<and> (\<exists>v. ht_data (env_values (st ! a)) ! i = Some (k, v))"
    using hash_table_try_get_ok [OF store_okD(1) [OF assms], of k] by blast
  then show ?thesis
    by (cases r) (auto simp: env_frame_def hash_table_lookup_def slot_value_def)
qed

section \<open>Searching\<close>

lemma environment_get_ok:
  assumes "store_ok st" and "a < length st"
  shows "environment_get st a name = Some (case resolve st (t_lexeme name) (scope st a) of
     Some b \<Rightarrow> ENVIRONMENT_LOOKUP_OK (the (env_frame st b (t_lexeme name)))
   | None \<Rightarrow> ENVIRONMENT_LOOKUP_ERROR (undefined_variable name))"
  using assms(2)
proof (induction a rule: less_induct)
  case (less a)
  show ?case
  proof (cases "env_frame st a (t_lexeme name)")
    case None
    with less assms(1) store_okD(3) [OF assms(1) less.prems] show ?thesis
      by (subst environment_get.simps, subst scope.simps)
         (auto simp: frame_lookup split: option.splits)
  next
    case (Some v)
    with less.prems assms(1) show ?thesis
      by (subst environment_get.simps, subst scope.simps) (simp add: frame_lookup)
  qed
qed

section \<open>Assignment\<close>

lemma resolve_SomeD: "resolve st k as = Some b \<Longrightarrow> b \<in> set as \<and> env_frame st b k \<noteq> None"
  by (induction as) (auto split: if_splits)

lemma scope_bound:
  assumes "store_ok st" and "a < length st" and "b \<in> set (scope st a)"
  shows "b \<le> a"
  using assms(2,3)
proof (induction a rule: less_induct)
  case (less a)
  show ?case
  proof (cases "env_enclosing (st ! a)")
    case None
    with less.prems show ?thesis by (subst (asm) scope.simps) simp
  next
    case (Some c)
    have c: "c < a" using store_okD(3) [OF assms(1) less.prems(1) Some] .
    with Some less.prems have "b = a \<or> b \<in> set (scope st c)" by (subst (asm) scope.simps) simp
    with less.IH [OF c] c less.prems(1) show ?thesis by auto
  qed
qed

text \<open>Writing one table of the store, with the same pointers.\<close>

definition put_table :: "store \<Rightarrow> nat \<Rightarrow> object hash_table \<Rightarrow> store" where
  "put_table st a t = st[a := (st ! a)\<lparr>env_values := t\<rparr>]"

lemma length_put_table [simp]: "length (put_table st a t) = length st"
  by (simp add: put_table_def)

lemma env_enclosing_put_table [simp]: "env_enclosing (put_table st a t ! b) = env_enclosing (st ! b)"
  by (cases "a < length st") (auto simp: put_table_def nth_list_update list_update_beyond)

lemma env_values_put_table [simp]:
  "a < length st \<Longrightarrow> env_values (put_table st a t ! b) = (if b = a then t else env_values (st ! b))"
  by (auto simp: put_table_def)

lemma store_ok_put_table:
  "store_ok st \<Longrightarrow> ht_inv t \<Longrightarrow> ht_function t = hash_fnv1a \<Longrightarrow> store_ok (put_table st a t)"
  by (cases "a < length st") (auto simp: store_ok_def put_table_def nth_list_update)

lemma environment_assign_ok:
  assumes "store_ok st" and "a < length st"
  shows "case resolve st (t_lexeme name) (scope st a) of
      Some b \<Rightarrow> \<exists>i. hash_table_try_get (env_values (st ! b)) (t_lexeme name) = Some (Some i) \<and>
         environment_assign st a name v = Some (None, put_table st b (slot_store (env_values (st ! b)) i v))
    | None \<Rightarrow> environment_assign st a name v = Some (Some (undefined_variable name), st)"
  using assms(2)
proof (induction a rule: less_induct)
  case (less a)
  obtain r where r: "hash_table_try_get (env_values (st ! a)) (t_lexeme name) = Some r"
      "r = None \<longleftrightarrow> env_frame st a (t_lexeme name) = None"
    using frame_try_get [OF assms(1) less.prems] by blast
  show ?case
  proof (cases r)
    case None
    show ?thesis
    proof (cases "env_enclosing (st ! a)")
      case (Some c)
      have c: "c < a" using store_okD(3) [OF assms(1) less.prems Some] .
      have "environment_assign st a name v = environment_assign st c name v"
        using None r less.prems Some by (subst environment_assign.simps) simp
      moreover have "resolve st (t_lexeme name) (scope st a) = resolve st (t_lexeme name) (scope st c)"
        using None r Some c by (subst scope.simps) simp
      ultimately show ?thesis using less.IH [OF c] c less.prems by (simp cong: option.case_cong)
    qed (use None r less.prems in \<open>subst environment_assign.simps, subst scope.simps, simp\<close>)
  next
    case (Some i)
    with r less.prems show ?thesis
      by (subst environment_assign.simps, subst scope.simps) (auto simp: put_table_def)
  qed
qed

lemma environment_assign_store:
  assumes "store_ok st" and "a < length st" and "resolve st (t_lexeme name) (scope st a) = Some b"
  shows "\<exists>st'. environment_assign st a name v = Some (None, st') \<and> store_ok st' \<and> length st' = length st \<and>
    (\<forall>c. env_enclosing (st' ! c) = env_enclosing (st ! c)) \<and>
    (\<forall>c k. env_frame st' c k = (if c = b \<and> k = t_lexeme name then Some v else env_frame st c k))"
proof -
  obtain i where i: "hash_table_try_get (env_values (st ! b)) (t_lexeme name) = Some (Some i)"
      "environment_assign st a name v = Some (None, put_table st b (slot_store (env_values (st ! b)) i v))"
    using environment_assign_ok [OF assms(1,2), of name v] assms(3) by auto
  have b: "b < length st" using resolve_SomeD [OF assms(3)] scope_bound [OF assms(1,2)] assms(2) by fastforce
  note inv = store_okD(1,2) [OF assms(1) b]
  obtain w where w: "i < length (ht_data (env_values (st ! b)))"
      "ht_data (env_values (st ! b)) ! i = Some (t_lexeme name, w)"
    using hash_table_try_get_ok [OF inv(1), of "t_lexeme name"] i(1) by auto
  let ?st = "put_table st b (slot_store (env_values (st ! b)) i v)"
  have "store_ok ?st"
    by (rule store_ok_put_table [OF assms(1)]) (use inv slot_store_ok [OF inv(1) w] in auto)
  moreover have "env_frame ?st c k = (if c = b \<and> k = t_lexeme name then Some v else env_frame st c k)" for c k
    using lookup_slot_store [OF inv(1) i(1), of v k] b by (auto simp: env_frame_def)
  ultimately show ?thesis using i(2) by simp
qed

section \<open>Definition\<close>

text \<open>In a table without conflicting bindings a search is determined by the bindings.\<close>

definition consistent :: "object hash_table \<Rightarrow> bool" where
  "consistent t \<longleftrightarrow> (\<forall>k v w. (k, v) \<in># entries t \<longrightarrow> (k, w) \<in># entries t \<longrightarrow> v = w)"

lemma consistent_lookup:
  assumes "ht_inv t" and "consistent t"
  shows "hash_table_lookup t k = Some (Some v) \<longleftrightarrow> (k, v) \<in># entries t"
  using hash_table_lookup_ok [OF assms(1), of k] assms(2)
  by (force simp: consistent_def bound_keys_def split: option.splits)

lemma lookup_cong:
  assumes "ht_inv t" and "ht_inv u"
    and "\<And>w. hash_table_lookup t k = Some (Some w) \<longleftrightarrow> hash_table_lookup u k = Some (Some w)"
  shows "hash_table_lookup t k = hash_table_lookup u k"
proof -
  obtain r q where "hash_table_lookup t k = Some r" "hash_table_lookup u k = Some q"
    using hash_table_lookup_ok [OF assms(1), of k] hash_table_lookup_ok [OF assms(2), of k] by blast
  with assms(3) show ?thesis by (metis option.exhaust option.inject)
qed

lemma environment_define_ok:
  assumes "store_ok st" and "a < length st"
  shows "\<exists>t. hash_table_insert (env_values (st ! a)) name v = Some t \<and>
    environment_define st a name v = Some (put_table st a t) \<and> store_ok (put_table st a t) \<and> ht_inv t \<and>
    entries t = add_mset (c_str name, v) (entries (env_values (st ! a)))"
proof -
  note inv = store_okD(1,2) [OF assms]
  obtain t where t: "hash_table_insert (env_values (st ! a)) name v = Some t" "ht_inv t"
      "ht_function t = hash_fnv1a" "entries t = add_mset (c_str name, v) (entries (env_values (st ! a)))"
    using hash_table_insert_ok [OF inv(1), of name v] inv(2) by auto
  then have "store_ok (put_table st a t)" using store_ok_put_table [OF assms(1)] by simp
  with t assms(2) show ?thesis by (simp add: environment_define_def put_table_def)
qed

lemma environment_define_new:
  assumes "store_ok st" and "a < length st" and "no_nul name" and "env_frame st a name = None"
    and "consistent (env_values (st ! a))"
  shows "\<exists>st'. environment_define st a name v = Some st' \<and> store_ok st' \<and> length st' = length st \<and>
    (\<forall>c. env_enclosing (st' ! c) = env_enclosing (st ! c)) \<and> consistent (env_values (st' ! a)) \<and>
    (\<forall>c. env_frame st' c = (if c = a then (env_frame st a)(name \<mapsto> v) else env_frame st c))"
proof -
  note inv = store_okD(1) [OF assms(1,2)]
  obtain t where t: "environment_define st a name v = Some (put_table st a t)" "store_ok (put_table st a t)"
      "ht_inv t" "entries t = add_mset (name, v) (entries (env_values (st ! a)))"
    using environment_define_ok [OF assms(1,2), of name v] assms(3) by auto
  have fresh: "(name, w) \<notin># entries (env_values (st ! a))" for w
    using assms(4) consistent_lookup [OF inv assms(5), of name w]
    by (auto simp: env_frame_def)
  have con: "consistent t" using assms(5) fresh t(4) by (auto simp: consistent_def)
  have "env_frame (put_table st a t) a k = ((env_frame st a)(name \<mapsto> v)) k" for k
  proof (cases "k = name")
    case True
    then show ?thesis
      using consistent_lookup [OF t(3) con, of name v] t(4) assms(2) by (simp add: env_frame_def)
  next
    case False
    have "hash_table_lookup t k = hash_table_lookup (env_values (st ! a)) k"
    proof (rule lookup_cong [OF t(3) inv])
      show "hash_table_lookup t k = Some (Some w) \<longleftrightarrow>
          hash_table_lookup (env_values (st ! a)) k = Some (Some w)" for w
        using consistent_lookup [OF t(3) con, of k w] consistent_lookup [OF inv assms(5), of k w] t(4) False
        by simp
    qed
    with False assms(2) show ?thesis by (simp add: env_frame_def)
  qed
  then have "env_frame (put_table st a t) c = (if c = a then (env_frame st a)(name \<mapsto> v) else env_frame st c)" for c
    using assms(2) by (auto simp: env_frame_def)
  with t(1,2) con assms(2) show ?thesis by auto
qed

section \<open>The contract of the environments\<close>

text \<open>
  What the interpreter relies on, for any representation of the store: operations on existing
  environments return and keep the store valid, environments are never freed, and the values
  that come out are values that were put in.
\<close>

locale environment_contract =
  fixes valid :: "'s \<Rightarrow> bool"
    and count_envs :: "'s \<Rightarrow> nat"
    and contents :: "'s \<Rightarrow> object set"
    and enclosed :: "nat \<Rightarrow> 's \<Rightarrow> nat \<times> 's"
    and define_var :: "'s \<Rightarrow> nat \<Rightarrow> string \<Rightarrow> object \<Rightarrow> 's option"
    and get_var :: "'s \<Rightarrow> nat \<Rightarrow> token \<Rightarrow> lookup_result option"
    and assign_var :: "'s \<Rightarrow> nat \<Rightarrow> token \<Rightarrow> object \<Rightarrow> (runtime_error option \<times> 's) option"
  assumes enclosed_ok: "valid s \<Longrightarrow> a < count_envs s \<Longrightarrow>
      \<exists>b s'. enclosed a s = (b, s') \<and> valid s' \<and> b < count_envs s' \<and> count_envs s \<le> count_envs s' \<and>
        contents s' = contents s"
    and define_ok: "valid s \<Longrightarrow> a < count_envs s \<Longrightarrow>
      \<exists>s'. define_var s a k v = Some s' \<and> valid s' \<and> count_envs s' = count_envs s \<and>
        contents s' \<subseteq> insert v (contents s)"
    and get_ok: "valid s \<Longrightarrow> a < count_envs s \<Longrightarrow>
      \<exists>r. get_var s a n = Some r \<and> (case r of ENVIRONMENT_LOOKUP_OK v \<Rightarrow> v \<in> contents s | _ \<Rightarrow> True)"
    and assign_ok: "valid s \<Longrightarrow> a < count_envs s \<Longrightarrow>
      \<exists>e s'. assign_var s a n v = Some (e, s') \<and> valid s' \<and> count_envs s' = count_envs s \<and>
        contents s' \<subseteq> insert v (contents s)"
begin

text \<open>Binding the parameters of a call, one after the other.\<close>

fun define_all :: "'s \<Rightarrow> nat \<Rightarrow> (string \<times> object) list \<Rightarrow> 's option" where
  "define_all s a [] = Some s"
| "define_all s a ((k, v) # kvs) = (case define_var s a k v of None \<Rightarrow> None | Some s' \<Rightarrow> define_all s' a kvs)"

lemma define_all_ok:
  assumes "valid s" and "a < count_envs s"
  shows "\<exists>s'. define_all s a kvs = Some s' \<and> valid s' \<and> count_envs s' = count_envs s \<and>
    contents s' \<subseteq> contents s \<union> snd ` set kvs"
  using assms
proof (induction kvs arbitrary: s)
  case (Cons kv kvs)
  obtain k v where kv: "kv = (k, v)" by fastforce
  obtain s' where s': "define_var s a k v = Some s'" "valid s'" "count_envs s' = count_envs s"
      "contents s' \<subseteq> insert v (contents s)"
    using define_ok [OF Cons.prems, of k v] by blast
  from Cons.IH [OF s'(2)] Cons.prems(2) s' obtain s'' where
    "define_all s' a kvs = Some s''" "valid s''" "count_envs s'' = count_envs s"
    "contents s'' \<subseteq> contents s' \<union> snd ` set kvs" by auto
  with s' kv show ?case by auto
qed auto

end

definition store_contents :: "store \<Rightarrow> object set" where
  "store_contents st = (\<Union>e \<in> set st. snd ` set_mset (entries (env_values e)))"

lemma store_contents_put_table:
  assumes "a < length st"
  shows "store_contents (put_table st a t) \<subseteq> store_contents st \<union> snd ` set_mset (entries t)"
  using assms set_update_subset_insert [of st a "(st ! a)\<lparr>env_values := t\<rparr>"]
  by (fastforce simp: store_contents_def put_table_def)

lemma entries_contents: "a < length st \<Longrightarrow> kv \<in># entries (env_values (st ! a)) \<Longrightarrow> snd kv \<in> store_contents st"
  unfolding store_contents_def by (metis UN_I image_eqI nth_mem)

lemma store_ok_snoc:
  assumes "store_ok st" and "case outer of None \<Rightarrow> True | Some a \<Rightarrow> a < length st"
  shows "store_ok (st @ [\<lparr>env_enclosing = outer, env_values = hash_table_new hash_fnv1a\<rparr>])"
  using assms by (auto simp: store_ok_def nth_append less_Suc_eq ht_inv_new split: option.splits)
    (auto simp: hash_table_new_def)

lemma frame_contents:
  assumes "store_ok st" and "a < length st" and "env_frame st a k = Some v"
  shows "v \<in> store_contents st"
  using hash_table_lookup_ok [OF store_okD(1) [OF assms(1,2)], of k] assms(3) entries_contents [OF assms(2)]
  by (fastforce simp: env_frame_def)

lemma store_define:
  assumes "store_ok st" and "a < length st"
  shows "\<exists>st'. environment_define st a k v = Some st' \<and> store_ok st' \<and> length st' = length st \<and>
    store_contents st' \<subseteq> insert v (store_contents st)"
proof -
  obtain t where t: "environment_define st a k v = Some (put_table st a t)" "store_ok (put_table st a t)"
      "entries t = add_mset (c_str k, v) (entries (env_values (st ! a)))"
    using environment_define_ok [OF assms, of k v] by blast
  have "store_contents (put_table st a t) \<subseteq> insert v (store_contents st)"
    using store_contents_put_table [OF assms(2), of t] entries_contents [OF assms(2)] t(3) by auto
  with t show ?thesis by simp
qed

lemma store_get:
  assumes "store_ok st" and "a < length st"
  shows "\<exists>r. environment_get st a n = Some r \<and>
    (case r of ENVIRONMENT_LOOKUP_OK v \<Rightarrow> v \<in> store_contents st | _ \<Rightarrow> True)"
proof (cases "resolve st (t_lexeme n) (scope st a)")
  case (Some b)
  have "b < length st" using resolve_SomeD [OF Some] scope_bound [OF assms] assms(2) by fastforce
  with Some resolve_SomeD [OF Some] frame_contents [OF assms(1)] environment_get_ok [OF assms, of n]
  show ?thesis by auto
qed (simp add: environment_get_ok [OF assms])

lemma store_assign:
  assumes "store_ok st" and "a < length st"
  shows "\<exists>e st'. environment_assign st a n v = Some (e, st') \<and> store_ok st' \<and> length st' = length st \<and>
    store_contents st' \<subseteq> insert v (store_contents st)"
proof (cases "resolve st (t_lexeme n) (scope st a)")
  case None
  then show ?thesis using environment_assign_ok [OF assms, of n v] assms(1) by auto
next
  case (Some b)
  obtain i where i: "hash_table_try_get (env_values (st ! b)) (t_lexeme n) = Some (Some i)"
      "environment_assign st a n v = Some (None, put_table st b (slot_store (env_values (st ! b)) i v))"
    using environment_assign_ok [OF assms, of n v] Some by auto
  have b: "b < length st" using resolve_SomeD [OF Some] scope_bound [OF assms] assms(2) by fastforce
  note inv = store_okD(1,2) [OF assms(1) b]
  obtain w where w: "i < length (ht_data (env_values (st ! b)))"
      "ht_data (env_values (st ! b)) ! i = Some (t_lexeme n, w)"
    using hash_table_try_get_ok [OF inv(1), of "t_lexeme n"] i(1) by auto
  let ?t = "slot_store (env_values (st ! b)) i v"
  have "snd ` set_mset (entries ?t) \<subseteq> insert v (store_contents st)"
    using slot_store_ok(2) [OF inv(1) w, of v] entries_contents [OF b] by (auto dest: in_diffD)
  then have "store_contents (put_table st b ?t) \<subseteq> insert v (store_contents st)"
    using store_contents_put_table [OF b, of ?t] by blast
  moreover have "store_ok (put_table st b ?t)"
    by (rule store_ok_put_table [OF assms(1)]) (use inv slot_store_ok [OF inv(1) w] in auto)
  ultimately show ?thesis using i(2) by simp
qed

interpretation env: environment_contract store_ok length store_contents environment_new_enclosed
  environment_define environment_get environment_assign
proof unfold_locales
  fix s :: store and a
  assume "store_ok s" and "a < length s"
  then show "\<exists>b s'. environment_new_enclosed a s = (b, s') \<and> store_ok s' \<and> b < length s' \<and>
      length s \<le> length s' \<and> store_contents s' = store_contents s"
    by (auto simp: environment_new_enclosed_def store_contents_def entries_new intro!: store_ok_snoc)
qed (use store_define store_get store_assign in auto)

section \<open>Enclosed environments\<close>

lemma env_frame_append [simp]: "a < length st \<Longrightarrow> env_frame (st @ st') a = env_frame st a"
  by (rule ext) (simp add: env_frame_def nth_append)

lemma env_frame_new [simp]:
  "env_frame (st @ [\<lparr>env_enclosing = outer, env_values = hash_table_new f\<rparr>]) (length st) = Map.empty"
  by (rule ext)
     (simp add: env_frame_def hash_table_lookup_def hash_table_try_get_def hash_table_new_def)

lemma consistent_new [simp]: "consistent (hash_table_new f)"
  by (simp add: consistent_def entries_new)

lemma scope_append:
  assumes "a < length st"
  shows "scope (st @ st') a = scope st a"
  using assms
proof (induction a rule: less_induct)
  case (less a)
  then show ?case
    by (subst (1 2) scope.simps) (auto simp: nth_append split: option.splits)
qed

lemma scope_cong:
  assumes "\<And>c. env_enclosing (st' ! c) = env_enclosing (st ! c)"
  shows "scope st' a = scope st a"
  by (induction a rule: less_induct) (subst (1 2) scope.simps, auto simp: assms split: option.splits)

lemma resolve_cong:
  "(\<And>b. b \<in> set as \<Longrightarrow> env_frame st' b k = env_frame st b k) \<Longrightarrow> resolve st' k as = resolve st k as"
  by (induction as) auto

text \<open>A store with one environment of the globals and one block inside it, and a token that names \<open>a\<close>.\<close>

definition sample_store :: store where
  "sample_store = snd (environment_new_enclosed 0 (snd (environment_new [])))"

definition name_a :: token where
  "name_a = \<lparr>t_type = TOKEN_IDENTIFIER, t_lexeme = ''a'', t_literal = OBJECT_NULL, t_line = 1\<rparr>"

lemma sample_store_ok: "store_ok sample_store" "length sample_store = 2"
  by (auto simp: sample_store_def environment_new_enclosed_def environment_new_def store_ok_def
    nth_append less_Suc_eq numeral_2_eq_2 ht_inv_new hash_table_new_def [of hash_fnv1a] split: option.splits)
    (auto simp: ht_inv_new hash_table_new_def [symmetric])

lemma sample_store_enclosing: "env_enclosing (sample_store ! 0) = None" "env_enclosing (sample_store ! 1) = Some 0"
  by (simp_all add: sample_store_def environment_new_enclosed_def environment_new_def)

lemma sample_store_scope: "scope sample_store (Suc 0) = [Suc 0, 0]"
  using sample_store_enclosing by (simp add: scope.simps [of _ "Suc 0"] scope.simps [of _ 0])

lemma sample_store_frame: "a < 2 \<Longrightarrow> env_frame sample_store a = Map.empty"
  using env_frame_new [of "[]" None hash_fnv1a]
  by (auto simp: sample_store_def environment_new_enclosed_def environment_new_def less_Suc_eq
    numeral_2_eq_2) (metis append_Nil list.size(3) env_frame_append env_frame_new length_Cons
    lessI One_nat_def append_Cons)+

section \<open>Properties\<close>

text \<open>
  C9. Looking a variable up always returns, and it resolves the name lexically: it yields the
  value that the innermost environment of the scope chain binds to the name, or the error
  "Undefined variable" when no environment of the chain binds it.
\<close>

theorem environment_get_resolves:
  assumes "store_ok st" and "a < length st"
  shows "environment_get st a name = Some (case resolve st (t_lexeme name) (scope st a) of
     Some b \<Rightarrow> ENVIRONMENT_LOOKUP_OK (the (env_frame st b (t_lexeme name)))
   | None \<Rightarrow> ENVIRONMENT_LOOKUP_ERROR (undefined_variable name))"
  using assms by (rule environment_get_ok)

theorem environment_get_resolves_witness:
  "store_ok sample_store \<and> (1::nat) < length sample_store \<and>
   environment_get sample_store 1 name_a = Some (ENVIRONMENT_LOOKUP_ERROR (undefined_variable name_a))"
  using environment_get_resolves [OF sample_store_ok(1), of 1 name_a]
  by (simp add: sample_store_ok sample_store_frame sample_store_scope)

text \<open>
  C7. Assignment always returns. If some environment of the scope chain binds the name, the
  innermost such environment is the only one that changes, and it changes at that name only;
  scope chains stay as they are. Otherwise the store is untouched and the error is "Undefined
  variable". No assignment ever creates a binding.
\<close>

theorem environment_assign_updates_nearest:
  assumes "store_ok st" and "a < length st"
  shows "case resolve st (t_lexeme name) (scope st a) of
      None \<Rightarrow> environment_assign st a name v = Some (Some (undefined_variable name), st)
    | Some b \<Rightarrow> \<exists>st'. environment_assign st a name v = Some (None, st') \<and> store_ok st' \<and>
        length st' = length st \<and> (\<forall>c. scope st' c = scope st c) \<and>
        (\<forall>c k. env_frame st' c k = (if c = b \<and> k = t_lexeme name then Some v else env_frame st c k))"
proof (cases "resolve st (t_lexeme name) (scope st a)")
  case None
  with environment_assign_ok [OF assms, of name v] show ?thesis by simp
next
  case (Some b)
  with environment_assign_store [OF assms Some, of v] show ?thesis
    by simp (metis scope_cong)
qed

theorem environment_assign_updates_nearest_witness:
  "store_ok sample_store \<and> (1::nat) < length sample_store \<and>
   environment_assign sample_store 1 name_a OBJECT_NULL = Some (Some (undefined_variable name_a), sample_store)"
  using environment_assign_updates_nearest [OF sample_store_ok(1), of 1 name_a OBJECT_NULL]
  by (simp add: sample_store_ok sample_store_frame sample_store_scope)

text \<open>
  C32. Shadowing. Entering a block and defining a name in it changes no environment outside the
  block: inside, the name has the new value and every other name its old meaning; outside,
  every name keeps its meaning.
\<close>

theorem environment_define_shadows:
  assumes "store_ok st" and "a < length st" and "no_nul (t_lexeme name)"
  shows "case environment_new_enclosed a st of (b, st1) \<Rightarrow>
    \<exists>st2. environment_define st1 b (t_lexeme name) v = Some st2 \<and> store_ok st2 \<and>
      (\<forall>n. environment_get st2 b n =
         (if t_lexeme n = t_lexeme name then Some (ENVIRONMENT_LOOKUP_OK v) else environment_get st a n)) \<and>
      (\<forall>c n. c < length st \<longrightarrow> environment_get st2 c n = environment_get st c n)"
proof -
  let ?st1 = "st @ [\<lparr>env_enclosing = Some a, env_values = hash_table_new hash_fnv1a\<rparr>]" and ?b = "length st"
  have ok1: "store_ok ?st1" using store_ok_snoc [OF assms(1), of "Some a"] assms(2) by simp
  obtain st2 where st2: "environment_define ?st1 ?b (t_lexeme name) v = Some st2" "store_ok st2"
      "length st2 = Suc (length st)" "\<And>c. env_enclosing (st2 ! c) = env_enclosing (?st1 ! c)"
      "\<And>c. env_frame st2 c = (if c = ?b then [t_lexeme name \<mapsto> v] else env_frame ?st1 c)"
    using environment_define_new [OF ok1, of ?b "t_lexeme name" v] assms(3) by auto
  have chain: "scope st2 c = scope st c" if "c < ?b" for c
    using scope_cong [of st2 ?st1 c] st2(4) scope_append [OF that] by simp
  have same: "resolve st2 k (scope st c) = resolve st k (scope st c)" if "c < ?b" for c k
    by (rule resolve_cong) (use st2(5) scope_bound [OF assms(1) that] that in fastforce)
  have outer: "environment_get st2 c n = environment_get st c n" if c: "c < ?b" for c n
  proof -
    have "env_frame st2 d = env_frame st d" if "resolve st k (scope st c) = Some d" for d k
      using resolve_SomeD [OF that] scope_bound [OF assms(1) c] c st2(5) by fastforce
    then show ?thesis using c st2(3)
      by (auto simp: environment_get_ok [OF st2(2)] environment_get_ok [OF assms(1) c] chain same
        split: option.split)
  qed
  have "scope st2 ?b = ?b # scope st a"
    using st2(4) [of ?b] assms(2) chain [OF assms(2)] by (subst scope.simps) simp
  then have "environment_get st2 ?b n =
      (if t_lexeme n = t_lexeme name then Some (ENVIRONMENT_LOOKUP_OK v) else environment_get st2 a n)" for n
    using st2(3,5) assms(2) by (simp add: environment_get_ok [OF st2(2)] chain)
  with outer [OF assms(2)] outer st2(1,2) show ?thesis
    by (auto simp: environment_new_enclosed_def)
qed

theorem environment_define_shadows_witness:
  "store_ok sample_store \<and> (\<exists>st2. environment_define (snd (environment_new_enclosed 1 sample_store)) 2 ''a'' OBJECT_NULL = Some st2 \<and>
     environment_get st2 2 name_a = Some (ENVIRONMENT_LOOKUP_OK OBJECT_NULL))"
  using environment_define_shadows [OF sample_store_ok(1), of 1 name_a OBJECT_NULL]
  by (auto simp: sample_store_ok environment_new_enclosed_def name_a_def NUL_def)

text \<open>
  Defining a variable again in the same environment leaves the old value in place: unless
  the definition rehashes the table, every later lookup from that environment goes on finding
  the value the variable had.
\<close>

theorem environment_redefine_keeps_value:
  assumes "store_ok st" and "a < length st" and "no_nul (t_lexeme name)"
    and "env_frame st a (t_lexeme name) = Some v"
    and "\<not> over_max_load (ht_len (env_values (st ! a))) (ht_cap (env_values (st ! a)))"
  shows "\<exists>st'. environment_define st a (t_lexeme name) w = Some st' \<and>
    environment_get st' a name = Some (ENVIRONMENT_LOOKUP_OK v)"
proof -
  note inv = store_okD(1) [OF assms(1,2)]
  have bound: "t_lexeme name \<in> bound_keys (env_values (st ! a))"
    using hash_table_lookup_ok [OF inv, of "t_lexeme name"] assms(4)
    by (force simp: env_frame_def bound_keys_def)
  obtain t where t: "hash_table_insert (env_values (st ! a)) (t_lexeme name) w = Some t"
      "hash_table_lookup t (t_lexeme name) = hash_table_lookup (env_values (st ! a)) (t_lexeme name)"
    using insert_again_lookup [OF inv assms(3) bound assms(5)] by blast
  have "environment_define st a (t_lexeme name) w = Some (put_table st a t)"
    using t(1) assms(2) by (simp add: environment_define_def put_table_def)
  moreover have "environment_get (put_table st a t) a name = Some (ENVIRONMENT_LOOKUP_OK v)"
    using t(2) assms(2,4) frame_lookup [OF assms(1,2), of "t_lexeme name"]
    by (subst environment_get.simps) simp
  ultimately show ?thesis by blast
qed

theorem environment_redefine_keeps_value_witness:
  "\<exists>st st'. store_ok st \<and> env_frame st 1 ''a'' = Some (OBJECT_BOOL True) \<and>
     environment_define st 1 ''a'' OBJECT_NULL = Some st' \<and>
     environment_get st' 1 name_a = Some (ENVIRONMENT_LOOKUP_OK (OBJECT_BOOL True))"
proof -
  have one: "1 < length sample_store" by (simp add: sample_store_ok)
  obtain t where t: "environment_define sample_store 1 ''a'' (OBJECT_BOOL True) = Some (put_table sample_store 1 t)"
      "store_ok (put_table sample_store 1 t)" "ht_inv t"
      "entries t = add_mset (c_str ''a'', OBJECT_BOOL True) (entries (env_values (sample_store ! 1)))"
    using environment_define_ok [OF sample_store_ok(1) one, of "''a''" "OBJECT_BOOL True"] by blast
  have e: "entries t = {#(''a'', OBJECT_BOOL True)#}"
    using t(4) by (simp add: sample_store_def environment_new_enclosed_def environment_new_def entries_new NUL_def)
  have "consistent t" using e by (simp add: consistent_def)
  then have fr: "env_frame (put_table sample_store 1 t) 1 ''a'' = Some (OBJECT_BOOL True)"
    using consistent_lookup [OF t(3), of "''a''" "OBJECT_BOOL True"] e one by (simp add: env_frame_def)
  have "\<not> over_max_load (ht_len t) (ht_cap t)"
    using ht_len_entries [OF t(3)] e ht_inv_cap [OF t(3)] t(3) by (auto simp: over_max_load_def ht_inv_def)
  with environment_redefine_keeps_value [OF t(2), of 1 name_a "OBJECT_BOOL True" OBJECT_NULL] fr t(2) one
  show ?thesis by (auto simp: name_a_def NUL_def)
qed

text \<open>
  Printing an environment ends: the chain of enclosing environments that
  \<open>environment_dump\<close> follows is finite.
\<close>

theorem environment_dump_ends:
  assumes "store_ok st" and "a < length st"
  shows "\<exists>text. environment_dump heap st a = Some (''--- ENVIRONMENT ---'' @ text)"
  using assms(2)
proof (induction a rule: less_induct)
  case (less a)
  then show ?case using store_okD(3) [OF assms(1) less.prems]
    by (subst environment_dump.simps) (fastforce split: option.split)
qed

theorem environment_dump_ends_witness:
  "store_ok sample_store \<and> (\<exists>text. environment_dump [] sample_store 1 = Some (''--- ENVIRONMENT ---'' @ text))"
  using environment_dump_ends [OF sample_store_ok(1), of 1 "[]"] by (simp add: sample_store_ok)

end
