(* ===== verification/Interpreter.thy ===== *)
theory Interpreter
  imports Environment
begin

text \<open>
  The tree-walking interpreter of \<open>source/private/interpreter.c\<close> and \<open>object_arity\<close>.

  The state joins \<open>struct interpreter\<close> with the memory its operations reach: the store of
  environments, the heap of function declarations, the console, and the readings of
  \<open>time(NULL)\<close>, which come from the operating system and are a parameter: the \<open>n\<close>-th call reads
  \<open>it_time n\<close>. Runtime errors and \<open>return\<close> are values, as in the source; failed assertions and
  bad pointers are faults.

  The visitor functions are written over the functions they call back, \<open>evaluate\<close> and
  \<open>interpreter_execute\<close>, and \<open>evaluate n\<close> and \<open>interpreter_execute n\<close> tie the knot with a bound
  \<open>n\<close> on the depth of the recursion and on the iterations of one loop. A Lox program may run
  forever; \<open>Exhausted\<close> says that the bound was too small.
\<close>

section \<open>State and results\<close>

record interpreter =
  it_globals :: nat
  it_environment :: nat
  it_init_time :: int
  it_store :: store
  it_heap :: declarations
  it_console :: console
  it_time :: "nat \<Rightarrow> int"
  it_reads :: nat

type_synonym 'a interp = "(interpreter, 'a) run"

datatype interpret_result = INTERPRET_OK object | INTERPRET_ERROR runtime_error

datatype execution_result =
    EXECUTION_RESULT_NONE
  | EXECUTION_RESULT_RUNTIME_ERROR runtime_error
  | EXECUTION_RESULT_RETURN object

type_synonym evaluator = "expr \<Rightarrow> interpret_result interp"
type_synonym executor = "stmt \<Rightarrow> execution_result interp"

text \<open>\<open>time(NULL)\<close>\<close>

definition time_now :: "int interp" where
  "time_now = (\<lambda>s. Done (s\<lparr>it_reads := Suc (it_reads s)\<rparr>) (it_time s (it_reads s)))"

definition native_clock :: "object interp" where
  "native_clock = andthen time_now (\<lambda>t. reads (\<lambda>s. object_new_number (d_of_int (t - it_init_time s))))"

text \<open>The operations on environments, lifted to the state. A search that does not return is \<open>exhaust\<close>.\<close>

definition get_variable :: "token \<Rightarrow> lookup_result interp" where
  "get_variable name = (\<lambda>s.
     case environment_get (it_store s) (it_environment s) name of
       None \<Rightarrow> Exhausted | Some r \<Rightarrow> Done s r)"

definition assign_variable :: "token \<Rightarrow> object \<Rightarrow> runtime_error option interp" where
  "assign_variable name v = (\<lambda>s.
     case environment_assign (it_store s) (it_environment s) name v of
       None \<Rightarrow> Exhausted | Some (err, st) \<Rightarrow> Done (s\<lparr>it_store := st\<rparr>) err)"

definition define_in :: "nat \<Rightarrow> string \<Rightarrow> object \<Rightarrow> unit interp" where
  "define_in a name v = (\<lambda>s.
     case environment_define (it_store s) a name v of
       None \<Rightarrow> Exhausted | Some st \<Rightarrow> Done (s\<lparr>it_store := st\<rparr>) ())"

definition new_enclosed :: "nat \<Rightarrow> nat interp" where
  "new_enclosed enclosing = (\<lambda>s.
     case environment_new_enclosed enclosing (it_store s) of (a, st) \<Rightarrow> Done (s\<lparr>it_store := st\<rparr>) a)"

definition declaration_of :: "nat \<Rightarrow> function_stmt interp" where
  "declaration_of a = (\<lambda>s.
     case declaration_at (it_heap s) a of None \<Rightarrow> Fault Out_Of_Bounds | Some d \<Rightarrow> Done s d)"

section \<open>Objects\<close>

text \<open>\<open>None\<close> is the failed assertion at the end of \<open>stringify\<close>, which has no case for functions.\<close>

fun stringify :: "object \<Rightarrow> string option" where
  "stringify (OBJECT_STRING s) = Some s"
| "stringify (OBJECT_NUMBER d) = Some (format_lg d)"
| "stringify (OBJECT_BOOL b) = Some (if b then ''true'' else ''false'')"
| "stringify OBJECT_NULL = Some ''nil''"
| "stringify (OBJECT_NATIVE_FUNCTION arity func) = Some ''<native fn>''"
| "stringify (OBJECT_FUNCTION f) = None"

fun is_truthy :: "object \<Rightarrow> bool" where
  "is_truthy OBJECT_NULL = False"
| "is_truthy (OBJECT_BOOL b) = b"
| "is_truthy _ = True"

definition NUMBER_DELTA :: double where
  "NUMBER_DELTA = strtod_decimal ''0.000001''"

fun is_equal :: "object \<Rightarrow> object \<Rightarrow> bool" where
  "is_equal OBJECT_NULL r = (r = OBJECT_NULL)"
| "is_equal (OBJECT_BOOL a) r = (case r of OBJECT_BOOL b \<Rightarrow> a = b | _ \<Rightarrow> False)"
| "is_equal (OBJECT_STRING a) r = (case r of OBJECT_STRING b \<Rightarrow> a = b | _ \<Rightarrow> False)"
| "is_equal (OBJECT_NUMBER a) r =
     (case r of OBJECT_NUMBER b \<Rightarrow> d_less (d_abs (d_sub a b)) NUMBER_DELTA | _ \<Rightarrow> False)"
| "is_equal (OBJECT_NATIVE_FUNCTION arity f) r =
     (case r of OBJECT_NATIVE_FUNCTION arity' g \<Rightarrow> f = g | _ \<Rightarrow> False)"
| "is_equal (OBJECT_FUNCTION f) r =
     (case r of OBJECT_FUNCTION g \<Rightarrow> fn_declaration f = fn_declaration g | _ \<Rightarrow> False)"

fun OBJECT_IS_NUMBER :: "object \<Rightarrow> bool" where
  "OBJECT_IS_NUMBER (OBJECT_NUMBER d) = True"
| "OBJECT_IS_NUMBER _ = False"

definition check_number_operand :: "token \<Rightarrow> object \<Rightarrow> runtime_error option" where
  "check_number_operand op operand =
     (if OBJECT_IS_NUMBER operand then None else Some (runtime_error_new op ''Operand must be a number.''))"

definition check_number_operands :: "token \<Rightarrow> object \<Rightarrow> object \<Rightarrow> runtime_error option" where
  "check_number_operands op left right =
     (if OBJECT_IS_NUMBER left \<and> OBJECT_IS_NUMBER right then None
      else Some (runtime_error_new op ''Operands must be numbers.''))"

fun OBJECT_AS_NUMBER :: "object \<Rightarrow> double" where
  "OBJECT_AS_NUMBER (OBJECT_NUMBER d) = d"
| "OBJECT_AS_NUMBER _ = d_zero False"

fun object_arity :: "object \<Rightarrow> int interp" where
  "object_arity (OBJECT_NATIVE_FUNCTION arity func) = ret arity"
| "object_arity (OBJECT_FUNCTION f) =
     andthen (declaration_of (fn_declaration f)) (\<lambda>d. ret (int (length (fs_params d))))"
| "object_arity _ = raise_fault Assert_Unreachable"

section \<open>Expressions\<close>

text \<open>The idiom \<open>r = evaluate(...); if (r.type == INTERPRET_RESULT_ERROR) return r;\<close>\<close>

definition on_ok :: "interpret_result interp \<Rightarrow> (object \<Rightarrow> interpret_result interp) \<Rightarrow> interpret_result interp" where
  "on_ok m f = andthen m (\<lambda>r. case r of INTERPRET_ERROR err \<Rightarrow> ret (INTERPRET_ERROR err) | INTERPRET_OK v \<Rightarrow> f v)"

text \<open>Visiting a child through a pointer that may be NULL.\<close>

definition visit :: "('a \<Rightarrow> 'b interp) \<Rightarrow> 'a option \<Rightarrow> 'b interp" where
  "visit f p = (case p of None \<Rightarrow> raise_fault Null_Dereference | Some x \<Rightarrow> f x)"

definition interpreter_visit_assign_expr :: "evaluator \<Rightarrow> token \<Rightarrow> expr option \<Rightarrow> interpret_result interp" where
  "interpreter_visit_assign_expr ev name e =
     on_ok (visit ev e) (\<lambda>v.
     andthen (assign_variable name v) (\<lambda>err.
     case err of Some x \<Rightarrow> ret (INTERPRET_ERROR x) | None \<Rightarrow> ret (INTERPRET_OK v)))"

definition number_operation ::
  "(double \<Rightarrow> double \<Rightarrow> object) \<Rightarrow> token \<Rightarrow> object \<Rightarrow> object \<Rightarrow> interpret_result interp" where
  "number_operation f op left right =
     (case check_number_operands op left right of
        Some err \<Rightarrow> ret (INTERPRET_ERROR err)
      | None \<Rightarrow> ret (INTERPRET_OK (f (OBJECT_AS_NUMBER left) (OBJECT_AS_NUMBER right))))"

definition add_operation :: "token \<Rightarrow> object \<Rightarrow> object \<Rightarrow> interpret_result interp" where
  "add_operation op left right =
     (case (left, right) of
        (OBJECT_NUMBER a, OBJECT_NUMBER b) \<Rightarrow> ret (INTERPRET_OK (object_new_number (d_add a b)))
      | (OBJECT_STRING a, OBJECT_STRING b) \<Rightarrow> ret (INTERPRET_OK (object_new_string (a @ b)))
      | _ \<Rightarrow> ret (INTERPRET_ERROR (runtime_error_new op ''Operands must be two numbers or two strings.'')))"

definition binary_operation :: "token \<Rightarrow> object \<Rightarrow> object \<Rightarrow> interpret_result interp" where
  "binary_operation op left right =
     (case t_type op of
        TOKEN_BANG_EQUAL \<Rightarrow> ret (INTERPRET_OK (object_new_bool (\<not> is_equal left right)))
      | TOKEN_EQUAL_EQUAL \<Rightarrow> ret (INTERPRET_OK (object_new_bool (is_equal left right)))
      | TOKEN_GREATER \<Rightarrow> number_operation (\<lambda>a b. object_new_bool (d_less b a)) op left right
      | TOKEN_GREATER_EQUAL \<Rightarrow> number_operation (\<lambda>a b. object_new_bool (d_less_eq b a)) op left right
      | TOKEN_LESS \<Rightarrow> number_operation (\<lambda>a b. object_new_bool (d_less a b)) op left right
      | TOKEN_LESS_EQUAL \<Rightarrow> number_operation (\<lambda>a b. object_new_bool (d_less_eq a b)) op left right
      | TOKEN_MINUS \<Rightarrow> number_operation (\<lambda>a b. object_new_number (d_sub a b)) op left right
      | TOKEN_PLUS \<Rightarrow> add_operation op left right
      | TOKEN_SLASH \<Rightarrow> number_operation (\<lambda>a b. object_new_number (d_div a b)) op left right
      | TOKEN_STAR \<Rightarrow> number_operation (\<lambda>a b. object_new_number (d_mul a b)) op left right
      | _ \<Rightarrow> raise_fault Assert_Unreachable)"

definition interpreter_visit_binary_expr :: "evaluator \<Rightarrow> expr \<Rightarrow> token \<Rightarrow> expr \<Rightarrow> interpret_result interp" where
  "interpreter_visit_binary_expr ev l op r = on_ok (ev l) (\<lambda>left. on_ok (ev r) (\<lambda>right. binary_operation op left right))"

definition interpreter_visit_grouping_expr :: "evaluator \<Rightarrow> expr option \<Rightarrow> interpret_result interp" where
  "interpreter_visit_grouping_expr ev e = visit ev e"

definition interpreter_visit_literal_expr :: "object \<Rightarrow> interpret_result interp" where
  "interpreter_visit_literal_expr v = ret (INTERPRET_OK v)"

definition interpreter_visit_logical_expr ::
  "evaluator \<Rightarrow> expr option \<Rightarrow> token \<Rightarrow> expr option \<Rightarrow> interpret_result interp" where
  "interpreter_visit_logical_expr ev l op r =
     on_ok (visit ev l) (\<lambda>left.
     if t_type op = TOKEN_OR
     then (if is_truthy left then ret (INTERPRET_OK left) else visit ev r)
     else (if \<not> is_truthy left then ret (INTERPRET_OK left) else visit ev r))"

definition interpreter_visit_unary_expr :: "evaluator \<Rightarrow> token \<Rightarrow> expr \<Rightarrow> interpret_result interp" where
  "interpreter_visit_unary_expr ev op e =
     on_ok (ev e) (\<lambda>right.
     case t_type op of
       TOKEN_BANG \<Rightarrow> ret (INTERPRET_OK (object_new_bool (\<not> is_truthy right)))
     | TOKEN_MINUS \<Rightarrow>
         (case check_number_operand op right of
            Some err \<Rightarrow> ret (INTERPRET_ERROR err)
          | None \<Rightarrow> ret (INTERPRET_OK (object_new_number (d_neg (OBJECT_AS_NUMBER right)))))
     | _ \<Rightarrow> raise_fault Assert_Unreachable)"

definition interpreter_visit_variable_expr :: "token \<Rightarrow> interpret_result interp" where
  "interpreter_visit_variable_expr name =
     andthen (get_variable name) (\<lambda>r.
     case r of
       ENVIRONMENT_LOOKUP_OK v \<Rightarrow> ret (INTERPRET_OK v)
     | ENVIRONMENT_LOOKUP_ERROR err \<Rightarrow> ret (INTERPRET_ERROR err))"

section \<open>Blocks and calls\<close>

text \<open>Statements up to the first one that does not fall through.\<close>

fun statement_loop :: "executor \<Rightarrow> stmt list \<Rightarrow> execution_result interp" where
  "statement_loop ex [] = ret EXECUTION_RESULT_NONE"
| "statement_loop ex (st # sts) =
     andthen (ex st) (\<lambda>r. if r \<noteq> EXECUTION_RESULT_NONE then ret r else statement_loop ex sts)"

definition interpreter_execute_block :: "executor \<Rightarrow> stmt list \<Rightarrow> nat \<Rightarrow> execution_result interp" where
  "interpreter_execute_block ex statements environment =
     andthen (reads it_environment) (\<lambda>previous.
     andthen (modifies (\<lambda>s. s\<lparr>it_environment := environment\<rparr>)) (\<lambda>_.
     andthen (statement_loop ex statements) (\<lambda>r.
     andthen (modifies (\<lambda>s. s\<lparr>it_environment := previous\<rparr>)) (\<lambda>_. ret r))))"

text \<open>The arguments from left to right, up to the first error.\<close>

fun evaluate_arguments :: "evaluator \<Rightarrow> expr list \<Rightarrow> object list \<Rightarrow> (runtime_error + object list) interp" where
  "evaluate_arguments ev [] vs = ret (Inr vs)"
| "evaluate_arguments ev (e # es) vs =
     andthen (ev e) (\<lambda>r.
     case r of INTERPRET_ERROR err \<Rightarrow> ret (Inl err) | INTERPRET_OK v \<Rightarrow> evaluate_arguments ev es (vs @ [v]))"

fun bind_parameters :: "nat \<Rightarrow> token list \<Rightarrow> object list \<Rightarrow> unit interp" where
  "bind_parameters a [] vs = ret ()"
| "bind_parameters a (p # ps) [] = raise_fault Out_Of_Bounds"
| "bind_parameters a (p # ps) (v # vs) =
     andthen (define_in a (t_lexeme p) v) (\<lambda>_. bind_parameters a ps vs)"

fun call_result :: "execution_result \<Rightarrow> interpret_result" where
  "call_result (EXECUTION_RESULT_RUNTIME_ERROR err) = INTERPRET_ERROR err"
| "call_result (EXECUTION_RESULT_RETURN v) = INTERPRET_OK v"
| "call_result EXECUTION_RESULT_NONE = INTERPRET_OK object_new_null"

fun interpreter_call :: "executor \<Rightarrow> object \<Rightarrow> object list \<Rightarrow> interpret_result interp" where
  "interpreter_call ex (OBJECT_NATIVE_FUNCTION arity lox_clock) vs =
     andthen native_clock (\<lambda>v. ret (INTERPRET_OK v))"
| "interpreter_call ex (OBJECT_FUNCTION f) vs =
     andthen (new_enclosed (fn_closure f)) (\<lambda>a.
     andthen (declaration_of (fn_declaration f)) (\<lambda>d.
     andthen (bind_parameters a (fs_params d) vs) (\<lambda>_.
     andthen (visit (\<lambda>body. interpreter_execute_block ex body a) (fs_body d)) (\<lambda>r. ret (call_result r)))))"
| "interpreter_call ex _ vs = raise_fault Assert_Unreachable"

definition arity_error :: "token \<Rightarrow> int \<Rightarrow> int \<Rightarrow> runtime_error" where
  "arity_error paren expected got =
     runtime_error_new paren
       (''Expected '' @ decimal_signed expected @ '' arguments but got '' @ decimal_signed got @ ''.'')"

text \<open>The end of \<open>interpreter_visit_call_expr\<close>, once the callee and the arguments are values.\<close>

definition checked_call :: "executor \<Rightarrow> object \<Rightarrow> token \<Rightarrow> object list \<Rightarrow> interpret_result interp" where
  "checked_call ex callee paren vs =
     (if \<not> OBJECT_IS_CALLABLE callee
      then ret (INTERPRET_ERROR (runtime_error_new paren ''Can only call functions and classes.''))
      else
        andthen (object_arity callee) (\<lambda>n.
        if n \<noteq> int (length vs) then ret (INTERPRET_ERROR (arity_error paren n (int (length vs))))
        else interpreter_call ex callee vs))"

definition interpreter_visit_call_expr ::
  "evaluator \<Rightarrow> executor \<Rightarrow> expr \<Rightarrow> token \<Rightarrow> expr list \<Rightarrow> interpret_result interp" where
  "interpreter_visit_call_expr ev ex callee_expr paren arguments =
     on_ok (ev callee_expr) (\<lambda>callee.
     andthen (evaluate_arguments ev arguments []) (\<lambda>r.
     case r of
       Inl err \<Rightarrow> ret (INTERPRET_ERROR err)
     | Inr vs \<Rightarrow> checked_call ex callee paren vs))"

fun expr_accept_interpreter :: "evaluator \<Rightarrow> executor \<Rightarrow> expr \<Rightarrow> interpret_result interp" where
  "expr_accept_interpreter ev ex (EXPR_ASSIGN name e) = interpreter_visit_assign_expr ev name e"
| "expr_accept_interpreter ev ex (EXPR_BINARY l op r) = interpreter_visit_binary_expr ev l op r"
| "expr_accept_interpreter ev ex (EXPR_CALL callee paren arguments) = interpreter_visit_call_expr ev ex callee paren arguments"
| "expr_accept_interpreter ev ex (EXPR_GROUPING e) = interpreter_visit_grouping_expr ev e"
| "expr_accept_interpreter ev ex (EXPR_LITERAL v) = interpreter_visit_literal_expr v"
| "expr_accept_interpreter ev ex (EXPR_LOGICAL l op r) = interpreter_visit_logical_expr ev l op r"
| "expr_accept_interpreter ev ex (EXPR_UNARY op e) = interpreter_visit_unary_expr ev op e"
| "expr_accept_interpreter ev ex (EXPR_VARIABLE name) = interpreter_visit_variable_expr name"

section \<open>Statements\<close>

text \<open>The idiom of the statements: a runtime error of an expression ends the statement with it.\<close>

definition with_value :: "interpret_result interp \<Rightarrow> (object \<Rightarrow> execution_result interp) \<Rightarrow> execution_result interp" where
  "with_value m f = andthen m (\<lambda>r.
     case r of INTERPRET_ERROR err \<Rightarrow> ret (EXECUTION_RESULT_RUNTIME_ERROR err) | INTERPRET_OK v \<Rightarrow> f v)"

definition interpreter_visit_block_stmt :: "executor \<Rightarrow> stmt list \<Rightarrow> execution_result interp" where
  "interpreter_visit_block_stmt ex statements =
     andthen (reads it_environment) (\<lambda>current.
     andthen (new_enclosed current) (\<lambda>a. interpreter_execute_block ex statements a))"

definition interpreter_visit_print_stmt :: "evaluator \<Rightarrow> expr \<Rightarrow> execution_result interp" where
  "interpreter_visit_print_stmt ev e =
     with_value (ev e) (\<lambda>v.
     case stringify v of
       None \<Rightarrow> raise_fault Assert_Stringify
     | Some text \<Rightarrow>
         andthen (modifies (\<lambda>s. s\<lparr>it_console := print_out (text @ [newline]) (it_console s)\<rparr>)) (\<lambda>_.
         ret EXECUTION_RESULT_NONE))"

definition interpreter_visit_return_stmt :: "evaluator \<Rightarrow> expr option \<Rightarrow> execution_result interp" where
  "interpreter_visit_return_stmt ev value_expr =
     (case value_expr of
        None \<Rightarrow> ret (EXECUTION_RESULT_RETURN object_new_null)
      | Some e \<Rightarrow> with_value (ev e) (\<lambda>v. ret (EXECUTION_RESULT_RETURN v)))"

definition interpreter_visit_expression_stmt :: "evaluator \<Rightarrow> expr \<Rightarrow> execution_result interp" where
  "interpreter_visit_expression_stmt ev e = with_value (ev e) (\<lambda>_. ret EXECUTION_RESULT_NONE)"

definition define_here :: "string \<Rightarrow> object \<Rightarrow> execution_result interp" where
  "define_here name v =
     andthen (reads it_environment) (\<lambda>a. andthen (define_in a name v) (\<lambda>_. ret EXECUTION_RESULT_NONE))"

definition interpreter_visit_function_stmt :: "nat \<Rightarrow> execution_result interp" where
  "interpreter_visit_function_stmt a =
     andthen (reads it_environment) (\<lambda>closure.
     andthen (declaration_of a) (\<lambda>d.
     define_here (t_lexeme (fs_name d)) (object_new_function \<lparr>fn_declaration = a, fn_closure = closure\<rparr>)))"

definition interpreter_visit_if_stmt :: "evaluator \<Rightarrow> executor \<Rightarrow> expr \<Rightarrow> stmt \<Rightarrow> stmt option \<Rightarrow> execution_result interp" where
  "interpreter_visit_if_stmt ev ex condition then_branch else_branch =
     with_value (ev condition) (\<lambda>v.
     if is_truthy v then ex then_branch
     else (case else_branch of Some st \<Rightarrow> ex st | None \<Rightarrow> ret EXECUTION_RESULT_NONE))"

definition interpreter_visit_var_stmt :: "evaluator \<Rightarrow> token \<Rightarrow> expr option \<Rightarrow> execution_result interp" where
  "interpreter_visit_var_stmt ev name initializer =
     (case initializer of
        None \<Rightarrow> define_here (t_lexeme name) object_new_null
      | Some e \<Rightarrow> with_value (ev e) (\<lambda>v. define_here (t_lexeme name) v))"

text \<open>The result of the body is dropped, whatever it is.\<close>

fun interpreter_visit_while_stmt :: "evaluator \<Rightarrow> executor \<Rightarrow> nat \<Rightarrow> expr \<Rightarrow> stmt \<Rightarrow> execution_result interp" where
  "interpreter_visit_while_stmt ev ex n condition body s =
    (with_value (ev condition) (\<lambda>v.
     if \<not> is_truthy v then ret EXECUTION_RESULT_NONE
     else
       andthen (ex body) (\<lambda>_.
       case n of 0 \<Rightarrow> exhaust | Suc k \<Rightarrow> interpreter_visit_while_stmt ev ex k condition body))) s"

declare interpreter_visit_while_stmt.simps [simp del]

fun stmt_accept_interpreter :: "evaluator \<Rightarrow> executor \<Rightarrow> nat \<Rightarrow> stmt \<Rightarrow> execution_result interp" where
  "stmt_accept_interpreter ev ex n (STMT_BLOCK statements) = interpreter_visit_block_stmt ex statements"
| "stmt_accept_interpreter ev ex n (STMT_EXPRESSION e) = interpreter_visit_expression_stmt ev e"
| "stmt_accept_interpreter ev ex n (STMT_FUNCTION a) = interpreter_visit_function_stmt a"
| "stmt_accept_interpreter ev ex n (STMT_IF c t e) = interpreter_visit_if_stmt ev ex c t e"
| "stmt_accept_interpreter ev ex n (STMT_PRINT e) = interpreter_visit_print_stmt ev e"
| "stmt_accept_interpreter ev ex n (STMT_RETURN tok e) = interpreter_visit_return_stmt ev e"
| "stmt_accept_interpreter ev ex n (STMT_VAR name e) = interpreter_visit_var_stmt ev name e"
| "stmt_accept_interpreter ev ex n (STMT_WHILE c body) = interpreter_visit_while_stmt ev ex n c body"

section \<open>The interpreter\<close>

fun evaluate :: "nat \<Rightarrow> expr \<Rightarrow> interpret_result interp"
and interpreter_execute :: "nat \<Rightarrow> stmt \<Rightarrow> execution_result interp" where
  "evaluate 0 e s = exhaust s"
| "evaluate (Suc n) e s = expr_accept_interpreter (evaluate n) (interpreter_execute n) e s"
| "interpreter_execute 0 st s = exhaust s"
| "interpreter_execute (Suc n) st s = stmt_accept_interpreter (evaluate n) (interpreter_execute n) n st s"

text \<open>The new interpreter, or \<open>None\<close> if the definition of \<open>clock\<close> did not return.\<close>

definition interpreter_new :: "(nat \<Rightarrow> int) \<Rightarrow> nat \<Rightarrow> declarations \<Rightarrow> console \<Rightarrow> interpreter option" where
  "interpreter_new time k heap con =
     (case environment_new [] of
        (globals, st) \<Rightarrow>
          (case environment_define st globals ''clock'' (object_new_native_function 0 lox_clock) of
             None \<Rightarrow> None
           | Some st' \<Rightarrow> Some \<lparr>it_globals = globals, it_environment = globals, it_init_time = time k,
                it_store = st', it_heap = heap, it_console = con, it_time = time, it_reads = Suc k\<rparr>))"

fun interpret_stmts :: "nat \<Rightarrow> stmt list \<Rightarrow> unit interp" where
  "interpret_stmts n [] = ret ()"
| "interpret_stmts n (st # sts) =
     andthen (interpreter_execute n st) (\<lambda>r.
     case r of
       EXECUTION_RESULT_RUNTIME_ERROR err \<Rightarrow>
         modifies (\<lambda>s. s\<lparr>it_console := library_runtime_error err (it_console s)\<rparr>)
     | EXECUTION_RESULT_RETURN v \<Rightarrow> raise_fault Assert_Unreachable
     | EXECUTION_RESULT_NONE \<Rightarrow> interpret_stmts n sts)"

end
