(* ===== verification/Interpreter_Safety.thy ===== *)
theory Interpreter_Safety
  imports Interpreter Grammar
begin

text \<open>
  Safety of the interpreter on the trees that the parser produces. \<open>istate_ok\<close> is the invariant
  of the interpreter's memory: the store is well formed, the current environment exists, and
  every function value refers to a declaration and a closure that exist. \<open>kept s s'\<close> says what
  every evaluation and every statement leaves as it was, the current environment above all.

  The visitor functions call back into the interpreter. What they rely on is the locale
  \<open>callbacks\<close>; inside it every visitor function is shown to meet the same contract, so that
  \<open>evaluate n\<close> and \<open>interpreter_execute n\<close> interpret the locale for every \<open>n\<close>, by induction.
\<close>

section \<open>Invariant\<close>

fun object_ok :: "nat \<Rightarrow> nat \<Rightarrow> object \<Rightarrow> bool" where
  "object_ok h n (OBJECT_FUNCTION f) = (fn_declaration f < h \<and> fn_closure f < n)"
| "object_ok h n _ = True"

definition obj_ok :: "interpreter \<Rightarrow> object \<Rightarrow> bool" where
  "obj_ok s v = object_ok (length (it_heap s)) (length (it_store s)) v"

definition istate_ok :: "interpreter \<Rightarrow> bool" where
  "istate_ok s \<longleftrightarrow>
     store_ok (it_store s) \<and> it_environment s < length (it_store s) \<and> it_globals s < length (it_store s) \<and>
     heap_wf (it_heap s) \<and> (\<forall>v \<in> store_contents (it_store s). obj_ok s v)"

definition kept :: "interpreter \<Rightarrow> interpreter \<Rightarrow> bool" where
  "kept s s' \<longleftrightarrow>
     istate_ok s' \<and> it_environment s' = it_environment s \<and> it_globals s' = it_globals s \<and>
     it_heap s' = it_heap s \<and> length (it_store s) \<le> length (it_store s') \<and>
     it_init_time s' = it_init_time s \<and> it_time s' = it_time s \<and>
     (\<exists>text. it_console s' = print_out text (it_console s))"

fun result_ok :: "interpreter \<Rightarrow> interpret_result \<Rightarrow> bool" where
  "result_ok s (INTERPRET_OK v) = obj_ok s v"
| "result_ok s (INTERPRET_ERROR err) = True"

fun completion_ok :: "interpreter \<Rightarrow> execution_result \<Rightarrow> bool" where
  "completion_ok s (EXECUTION_RESULT_RETURN v) = obj_ok s v"
| "completion_ok s _ = True"

lemma object_ok_mono: "object_ok h n v \<Longrightarrow> n \<le> n' \<Longrightarrow> object_ok h n' v"
  by (cases v) auto

lemma print_out_Nil [simp]: "print_out [] con = con"
  by (simp add: print_out_def)

lemma print_out_print_out [simp]: "print_out b (print_out a con) = print_out (a @ b) con"
  by (simp add: print_out_def)

lemma kept_refl: "istate_ok s \<Longrightarrow> kept s s"
  by (auto simp: kept_def intro: exI [of _ "[]"])

lemma kept_trans [trans]: "kept a b \<Longrightarrow> kept b c \<Longrightarrow> kept a c"
  unfolding kept_def by (elim conjE exE) (simp, metis order_trans)

lemma kept_ok: "kept s s' \<Longrightarrow> istate_ok s'"
  by (simp add: kept_def)

lemma kept_heap: "kept s s' \<Longrightarrow> it_heap s' = it_heap s"
  by (simp add: kept_def)

lemma kept_obj: "kept s s' \<Longrightarrow> obj_ok s v \<Longrightarrow> obj_ok s' v"
  by (auto simp: kept_def obj_ok_def intro: object_ok_mono)

lemma plain_ok: "plain v \<Longrightarrow> obj_ok s v"
  by (cases v) (auto simp: obj_ok_def)

section \<open>Changing the store\<close>

lemma kept_store:
  assumes "istate_ok s" and "store_ok st" and "length (it_store s) \<le> length st"
    and "store_contents st \<subseteq> insert v (store_contents (it_store s))" and "obj_ok s v"
  shows "kept s (s\<lparr>it_store := st\<rparr>)"
proof -
  have "object_ok (length (it_heap s)) (length st) w" if "w \<in> store_contents st" for w
    using that assms by (auto simp: istate_ok_def obj_ok_def intro: object_ok_mono)
  then show ?thesis
    using assms(1-3) unfolding kept_def istate_ok_def
    by (auto simp: obj_ok_def intro: exI [of _ "[]"])
qed

definition stringify_only :: "fault \<Rightarrow> bool" where
  "stringify_only e \<longleftrightarrow> e = Assert_Stringify"

abbreviation ic :: "'a interp \<Rightarrow> ('a \<Rightarrow> interpreter \<Rightarrow> bool) \<Rightarrow> interpreter \<Rightarrow> bool" where
  "ic \<equiv> wp True stringify_only"

lemma ic_define_in:
  assumes "istate_ok s" and "a < length (it_store s)" and "obj_ok s v"
    and "\<And>st. kept s (s\<lparr>it_store := st\<rparr>) \<Longrightarrow> Q () (s\<lparr>it_store := st\<rparr>)"
  shows "ic (define_in a name v) Q s"
proof -
  obtain st where "environment_define (it_store s) a name v = Some st" "store_ok st"
      "length st = length (it_store s)" "store_contents st \<subseteq> insert v (store_contents (it_store s))"
    using env.define_ok [of "it_store s" a name v] assms(1,2) by (auto simp: istate_ok_def)
  with assms show ?thesis
    by (auto simp: wp_def define_in_def intro!: assms(4) kept_store)
qed

lemma ic_get_variable:
  assumes "istate_ok s"
    and "\<And>r. (case r of ENVIRONMENT_LOOKUP_OK v \<Rightarrow> obj_ok s v | _ \<Rightarrow> True) \<Longrightarrow> Q r s"
  shows "ic (get_variable name) Q s"
proof -
  obtain r where "environment_get (it_store s) (it_environment s) name = Some r"
      "case r of ENVIRONMENT_LOOKUP_OK v \<Rightarrow> v \<in> store_contents (it_store s) | _ \<Rightarrow> True"
    using env.get_ok [of "it_store s" "it_environment s" name] assms(1) by (auto simp: istate_ok_def)
  with assms(1) show ?thesis
    by (cases r) (auto simp: wp_def get_variable_def istate_ok_def intro!: assms(2))
qed

lemma ic_assign_variable:
  assumes "istate_ok s" and "obj_ok s v"
    and "\<And>err st. kept s (s\<lparr>it_store := st\<rparr>) \<Longrightarrow> Q err (s\<lparr>it_store := st\<rparr>)"
  shows "ic (assign_variable name v) Q s"
proof -
  obtain err st where "environment_assign (it_store s) (it_environment s) name v = Some (err, st)"
      "store_ok st" "length st = length (it_store s)"
      "store_contents st \<subseteq> insert v (store_contents (it_store s))"
    using env.assign_ok [of "it_store s" "it_environment s" name v] assms(1)
    unfolding istate_ok_def by blast
  with assms show ?thesis
    by (auto simp: wp_def assign_variable_def intro!: assms(3) kept_store)
qed

lemma ic_new_enclosed:
  assumes "istate_ok s" and "a < length (it_store s)"
    and "\<And>b st. kept s (s\<lparr>it_store := st\<rparr>) \<Longrightarrow> b < length st \<Longrightarrow> Q b (s\<lparr>it_store := st\<rparr>)"
  shows "ic (new_enclosed a) Q s"
proof -
  obtain b st where "environment_new_enclosed a (it_store s) = (b, st)" "store_ok st" "b < length st"
      "length (it_store s) \<le> length st" "store_contents st = store_contents (it_store s)"
    using env.enclosed_ok [of "it_store s" a] assms(1,2) unfolding istate_ok_def by blast
  with assms(1) show ?thesis
    by (auto simp: wp_def new_enclosed_def plain_ok intro!: assms(3) kept_store [where v = OBJECT_NULL])
qed

lemma ic_declaration_of:
  assumes "istate_ok s" and "a < length (it_heap s)"
    and "\<And>d. function_wf (length (it_heap s)) d \<Longrightarrow> Q d s"
  shows "ic (declaration_of a) Q s"
  using assms
  by (auto simp: wp_def declaration_of_def declaration_at_def istate_ok_def heap_wf_def list_all_length)

lemma wp_declaration_of:
  "declaration_at (it_heap s) a = Some d \<Longrightarrow> wp E F (declaration_of a) Q s = Q d s"
  by (simp add: wp_def declaration_of_def)

lemma wp_on_ok:
  "wp E F (on_ok m f) Q = wp E F m (\<lambda>r. case r of INTERPRET_ERROR err \<Rightarrow> Q (INTERPRET_ERROR err) | INTERPRET_OK v \<Rightarrow> wp E F (f v) Q)"
  unfolding on_ok_def wp_andthen by (intro arg_cong [where f = "wp E F m"] ext) (simp add: wp_ret split: interpret_result.split)

lemma wp_with_value:
  "wp E F (with_value m f) Q = wp E F m (\<lambda>r. case r of INTERPRET_ERROR err \<Rightarrow> Q (EXECUTION_RESULT_RUNTIME_ERROR err) | INTERPRET_OK v \<Rightarrow> wp E F (f v) Q)"
  unfolding with_value_def wp_andthen by (intro arg_cong [where f = "wp E F m"] ext) (simp add: wp_ret split: interpret_result.split)


section \<open>The contract of the callbacks\<close>

definition ev_post :: "interpreter \<Rightarrow> interpret_result \<Rightarrow> interpreter \<Rightarrow> bool" where
  "ev_post s r s' \<longleftrightarrow> kept s s' \<and> result_ok s' r"

definition ex_post :: "interpreter \<Rightarrow> execution_result \<Rightarrow> interpreter \<Rightarrow> bool" where
  "ex_post s r s' \<longleftrightarrow> kept s s' \<and> completion_ok s' r"

lemma ev_post_simps [simp]:
  "ev_post s (INTERPRET_OK v) s' \<longleftrightarrow> kept s s' \<and> obj_ok s' v"
  "ev_post s (INTERPRET_ERROR err) s' \<longleftrightarrow> kept s s'"
  by (simp_all add: ev_post_def)

lemma ex_post_simps [simp]:
  "ex_post s EXECUTION_RESULT_NONE s' \<longleftrightarrow> kept s s'"
  "ex_post s (EXECUTION_RESULT_RUNTIME_ERROR err) s' \<longleftrightarrow> kept s s'"
  "ex_post s (EXECUTION_RESULT_RETURN v) s' \<longleftrightarrow> kept s s' \<and> obj_ok s' v"
  by (simp_all add: ex_post_def)

lemma binary_operation_ok:
  assumes "t_type op \<in> set (binary_types EQUALITY @ binary_types COMPARISON @ binary_types TERM_LEVEL @ binary_types FACTOR_LEVEL)"
    and "kept s0 s"
  shows "ic (binary_operation op l r) (ev_post s0) s"
  using assms
  by (auto simp: binary_operation_def number_operation_def add_operation_def wp_simps plain_ok
      split: option.split object.split)

text \<open>Leaving a block restores the environment in which it was entered.\<close>

lemma kept_enter: "istate_ok s \<Longrightarrow> a < length (it_store s) \<Longrightarrow> istate_ok (s\<lparr>it_environment := a\<rparr>)"
  by (simp add: istate_ok_def obj_ok_def)

lemma kept_leave:
  assumes "istate_ok s" and "kept (s\<lparr>it_environment := a\<rparr>) s'"
  shows "kept s (s'\<lparr>it_environment := it_environment s\<rparr>)"
  using assms by (auto simp: kept_def istate_ok_def obj_ok_def)

lemma bind_parameters_ok:
  assumes "kept s0 s" and "a < length (it_store s)" and "length ps = length vs" and "list_all (obj_ok s) vs"
    and "\<And>s'. kept s0 s' \<Longrightarrow> kept s s' \<Longrightarrow> Q () s'"
  shows "ic (bind_parameters a ps vs) Q s"
  using assms
proof (induction a ps vs arbitrary: s rule: bind_parameters.induct)
  case (1 a vs)
  then show ?case by (simp add: wp_ret kept_refl kept_ok)
next
  case (3 a p ps v vs)
  show ?case
    unfolding bind_parameters.simps wp_andthen
  proof (rule ic_define_in)
    fix st
    let ?s = "s\<lparr>it_store := st\<rparr>"
    assume k: "kept s ?s"
    show "ic (bind_parameters a ps vs) Q ?s"
    proof (rule "3.IH")
      show "kept s0 ?s" using "3.prems"(1) k by (rule kept_trans)
      show "a < length (it_store ?s)" using k "3.prems"(2) by (simp add: kept_def)
      show "list_all (obj_ok ?s) vs" using "3.prems"(4) kept_obj [OF k] by (auto simp: list_all_iff)
      show "Q () s'" if "kept s0 s'" "kept ?s s'" for s'
        using that(1) kept_trans [OF k that(2)] by (rule "3.prems"(5))
    qed (use "3.prems" in simp)
  qed (use "3.prems" kept_ok in auto)
qed auto

lemma while_unfold:
  "interpreter_visit_while_stmt ev ex n condition body =
     with_value (ev condition) (\<lambda>v.
     if \<not> is_truthy v then ret EXECUTION_RESULT_NONE
     else
       andthen (ex body) (\<lambda>_.
       case n of 0 \<Rightarrow> exhaust | Suc k \<Rightarrow> interpreter_visit_while_stmt ev ex k condition body))"
  by (rule ext) (rule interpreter_visit_while_stmt.simps)

locale callbacks =
  fixes ev :: evaluator
    and ex :: executor
  assumes evaluates: "istate_ok s \<Longrightarrow> expr_wf e \<Longrightarrow> ic (ev e) (ev_post s) s"
    and executes: "istate_ok s \<Longrightarrow> stmt_wf (length (it_heap s)) st \<Longrightarrow> ic (ex st) (ex_post s) s"
begin

lemma seq_ev:
  assumes "kept s0 s" and "expr_wf e"
    and "\<And>r s'. kept s0 s' \<Longrightarrow> kept s s' \<Longrightarrow> result_ok s' r \<Longrightarrow> Q r s'"
  shows "ic (ev e) Q s"
  by (rule wp_mono [OF evaluates [OF kept_ok [OF assms(1)] assms(2)]])
     (auto simp: ev_post_def intro: assms(3) kept_trans [OF assms(1)])

lemma seq_ex:
  assumes "kept s0 s" and "stmt_wf (length (it_heap s0)) st"
    and "\<And>r s'. kept s0 s' \<Longrightarrow> completion_ok s' r \<Longrightarrow> Q r s'"
  shows "ic (ex st) Q s"
proof (rule wp_mono)
  show "ic (ex st) (ex_post s) s"
    using executes [OF kept_ok [OF assms(1)]] assms(2) kept_heap [OF assms(1)] by simp
qed (auto simp: ex_post_def intro: assms(3) kept_trans [OF assms(1)])

text \<open>The two idioms: an error ends the visitor function, a value is passed on.\<close>

lemma seq_on_ok:
  assumes "kept s0 s" and "expr_wf e"
    and "\<And>v s'. kept s0 s' \<Longrightarrow> kept s s' \<Longrightarrow> obj_ok s' v \<Longrightarrow> ic (f v) (ev_post s0) s'"
  shows "ic (on_ok (ev e) f) (ev_post s0) s"
  unfolding wp_on_ok by (rule seq_ev [OF assms(1,2)]) (auto intro: assms(3) split: interpret_result.split)

lemma seq_with_value:
  assumes "kept s0 s" and "expr_wf e"
    and "\<And>v s'. kept s0 s' \<Longrightarrow> kept s s' \<Longrightarrow> obj_ok s' v \<Longrightarrow> ic (f v) (ex_post s0) s'"
  shows "ic (with_value (ev e) f) (ex_post s0) s"
  unfolding wp_with_value by (rule seq_ev [OF assms(1,2)]) (auto intro: assms(3) split: interpret_result.split)

lemma seq_return_ev: "kept s0 s \<Longrightarrow> expr_wf e \<Longrightarrow> ic (ev e) (ev_post s0) s"
  by (rule seq_ev) (auto simp: ev_post_def)

lemma seq_return_ex: "kept s0 s \<Longrightarrow> stmt_wf (length (it_heap s0)) st \<Longrightarrow> ic (ex st) (ex_post s0) s"
  by (rule seq_ex) (auto simp: ex_post_def)

lemmas seq_rules = seq_on_ok seq_with_value seq_return_ev seq_return_ex

text \<open>Each visitor function of the expressions meets the contract of \<open>evaluate\<close>.\<close>

lemma assign_ok:
  assumes "istate_ok s" and "expr_wf (EXPR_ASSIGN name p)"
  shows "ic (interpreter_visit_assign_expr ev name p) (ev_post s) s"
proof -
  obtain e where e: "p = Some e" "expr_wf e" using assms(2) by (auto split: option.splits)
  have "ic (andthen (assign_variable name v) (\<lambda>err.
      case err of None \<Rightarrow> ret (INTERPRET_OK v) | Some x \<Rightarrow> ret (INTERPRET_ERROR x))) (ev_post s) s'"
    if s': "kept s s'" "obj_ok s' v" for v s'
    unfolding wp_andthen using s'
    by (auto simp: wp_ret split: option.split intro!: ic_assign_variable kept_ok [OF s'(1)]
        intro: kept_trans kept_obj)
  with assms(1) e show ?thesis
    by (auto simp: interpreter_visit_assign_expr_def visit_def intro!: seq_on_ok kept_refl)
qed

lemma binary_ok:
  assumes "istate_ok s" and "expr_wf (EXPR_BINARY l op r)"
  shows "ic (interpreter_visit_binary_expr ev l op r) (ev_post s) s"
  using assms kept_refl [OF assms(1)] unfolding interpreter_visit_binary_expr_def
  by (auto intro!: seq_on_ok binary_operation_ok)

lemma logical_ok:
  assumes "istate_ok s" and "expr_wf (EXPR_LOGICAL l op r)"
  shows "ic (interpreter_visit_logical_expr ev l op r) (ev_post s) s"
  using assms kept_refl [OF assms(1)] unfolding interpreter_visit_logical_expr_def
  by (auto simp: visit_def wp_ret intro!: seq_rules split: option.splits)

lemma unary_ok:
  assumes "istate_ok s" and "expr_wf (EXPR_UNARY op e)"
  shows "ic (interpreter_visit_unary_expr ev op e) (ev_post s) s"
  using assms kept_refl [OF assms(1)] unfolding interpreter_visit_unary_expr_def
  by (auto simp: wp_ret plain_ok intro!: seq_rules split: option.splits)

lemma variable_ok:
  assumes "istate_ok s"
  shows "ic (interpreter_visit_variable_expr name) (ev_post s) s"
  unfolding interpreter_visit_variable_expr_def wp_andthen
  by (rule ic_get_variable [OF assms]) (auto simp: wp_ret kept_refl [OF assms] split: lookup_result.splits)

text \<open>Blocks, arguments and calls.\<close>

lemma statement_loop_ok:
  assumes "kept s0 s" and "list_all (stmt_wf (length (it_heap s0))) sts"
  shows "ic (statement_loop ex sts) (ex_post s0) s"
  using assms
proof (induction sts arbitrary: s)
  case (Cons st sts)
  show ?case
    unfolding statement_loop.simps wp_andthen
  proof (rule seq_ex [OF Cons.prems(1)])
    fix r s'
    assume "kept s0 s'" "completion_ok s' r"
    with Cons.IH [of s'] Cons.prems(2)
    show "ic (if r \<noteq> EXECUTION_RESULT_NONE then ret r else statement_loop ex sts) (ex_post s0) s'"
      by (cases r) (auto simp: wp_ret)
  qed (use Cons.prems in simp)
qed (simp add: wp_ret)

lemma block_ok:
  assumes "kept s0 s" and "a < length (it_store s)" and "list_all (stmt_wf (length (it_heap s0))) sts"
  shows "ic (interpreter_execute_block ex sts a) (ex_post s0) s"
proof -
  note s = kept_ok [OF assms(1)]
  let ?s = "s\<lparr>it_environment := a\<rparr>"
  have "ic (statement_loop ex sts) (ex_post ?s) ?s"
    using kept_refl [OF kept_enter [OF s assms(2)]] assms(3) kept_heap [OF assms(1)]
    by (intro statement_loop_ok) auto
  then have "ic (statement_loop ex sts) (\<lambda>r s'. ex_post s0 r (s'\<lparr>it_environment := it_environment s\<rparr>)) ?s"
  proof (rule wp_mono)
    fix r s'
    assume "ex_post ?s r s'"
    then show "ex_post s0 r (s'\<lparr>it_environment := it_environment s\<rparr>)"
      using kept_trans [OF assms(1) kept_leave [OF s]] by (cases r) (auto simp: ex_post_def obj_ok_def)
  qed
  then show ?thesis by (simp add: interpreter_execute_block_def wp_simps)
qed

lemma arguments_ok:
  assumes "kept s0 s" and "list_all expr_wf es" and "list_all (obj_ok s) vs"
    and "\<And>r s'. kept s0 s' \<Longrightarrow> kept s s' \<Longrightarrow> (case r of Inl err \<Rightarrow> True | Inr ws \<Rightarrow> list_all (obj_ok s') ws) \<Longrightarrow> Q r s'"
  shows "ic (evaluate_arguments ev es vs) Q s"
  using assms
proof (induction es arbitrary: s vs)
  case (Cons e es)
  show ?case
    unfolding evaluate_arguments.simps wp_andthen
  proof (rule seq_ev [OF Cons.prems(1)])
    fix r s'
    assume r: "kept s0 s'" "kept s s'" "result_ok s' r"
    show "ic (case r of INTERPRET_OK v \<Rightarrow> evaluate_arguments ev es (vs @ [v])
        | INTERPRET_ERROR err \<Rightarrow> ret (Inl err)) Q s'"
    proof (cases r)
      case (INTERPRET_OK v)
      have "ic (evaluate_arguments ev es (vs @ [v])) Q s'"
        using Cons.prems(2,3) r INTERPRET_OK kept_obj [OF r(2)]
        by (intro Cons.IH) (auto simp: list_all_iff intro: Cons.prems(4) kept_trans)
      with INTERPRET_OK show ?thesis by simp
    next
      case (INTERPRET_ERROR err)
      with r Cons.prems(4) [of s' "Inl err"] show ?thesis by (simp add: wp_ret)
    qed
  qed (use Cons.prems in simp)
next
  case Nil
  then show ?case
    using Nil.prems(4) [of s "Inr vs"] kept_refl [OF kept_ok [OF Nil.prems(1)]] by (simp add: wp_ret)
qed

lemma call_ok:
  assumes "kept s0 s" and "obj_ok s callee" and "list_all (obj_ok s) vs"
  shows "ic (checked_call ex callee paren vs) (ev_post s0) s"
proof (cases callee)
  case (OBJECT_NATIVE_FUNCTION arity func)
  have "kept s0 (s\<lparr>it_reads := Suc (it_reads s)\<rparr>)"
    using assms(1) by (auto simp: kept_def istate_ok_def obj_ok_def)
  then show ?thesis
    using OBJECT_NATIVE_FUNCTION assms(1)
    by (cases func) (simp add: checked_call_def wp_simps native_clock_def, simp add: wp_def time_now_def plain_ok)
next
  case (OBJECT_FUNCTION f)
  note s = kept_ok [OF assms(1)]
  have f: "fn_declaration f < length (it_heap s)" "fn_closure f < length (it_store s)"
    using assms(2) OBJECT_FUNCTION by (auto simp: obj_ok_def)
  have body: "ic (interpreter_call ex callee vs) (ev_post s0) s"
    if d: "declaration_at (it_heap s) (fn_declaration f) = Some d" "function_wf (length (it_heap s)) d"
      "length (fs_params d) = length vs" for d
  proof -
    obtain ss where ss: "fs_body d = Some ss" "list_all (stmt_wf (length (it_heap s))) ss"
      using d(2) by (auto simp: function_wf_def split: option.splits)
    show ?thesis
      unfolding OBJECT_FUNCTION interpreter_call.simps wp_andthen
    proof (rule ic_new_enclosed [OF s f(2)])
      fix a st
      let ?s = "s\<lparr>it_store := st\<rparr>"
      assume a: "kept s ?s" "a < length st"
      have "ic (bind_parameters a (fs_params d) vs) (\<lambda>_. ic (interpreter_execute_block ex ss a) (\<lambda>r. ev_post s0 (call_result r))) ?s"
      proof (rule bind_parameters_ok [OF a(1)])
        fix s'
        assume s': "kept s s'" "kept ?s s'"
        have "ic (interpreter_execute_block ex ss a) (ex_post s) s'"
          using s' a(2) ss(2) by (intro block_ok) (auto simp: kept_def)
        then show "ic (interpreter_execute_block ex ss a) (\<lambda>r. ev_post s0 (call_result r)) s'"
        proof (rule wp_mono)
          fix r s''
          assume "ex_post s r s''"
          then show "ev_post s0 (call_result r) s''"
            using kept_trans [OF assms(1)] by (cases r) (auto simp: plain_ok)
        qed
      qed (use a d(3) assms(3) kept_obj [OF a(1)] in \<open>auto simp: list_all_iff\<close>)
      then show "ic (declaration_of (fn_declaration f)) (\<lambda>d. ic (bind_parameters a (fs_params d) vs)
          (\<lambda>_. ic (visit (\<lambda>body. interpreter_execute_block ex body a) (fs_body d))
            (\<lambda>r. ic (ret (call_result r)) (ev_post s0)))) ?s"
        using d(1) ss(1) by (simp add: wp_ret visit_def wp_declaration_of)
    qed
  qed
  show ?thesis
    using OBJECT_FUNCTION f(1) body assms(1) s
    by (auto simp: checked_call_def wp_simps declaration_of_def declaration_at_def istate_ok_def heap_wf_def list_all_length)
       (auto simp: wp_def declaration_of_def declaration_at_def)
qed (use assms(1) in \<open>auto simp: checked_call_def wp_ret\<close>)

lemma call_expr_ok:
  assumes "istate_ok s" and "expr_wf (EXPR_CALL callee paren es)"
  shows "ic (interpreter_visit_call_expr ev ex callee paren es) (ev_post s) s"
  unfolding interpreter_visit_call_expr_def
proof (rule seq_on_ok [OF kept_refl [OF assms(1)]], use assms(2) in simp)
  fix v s1
  assume s1: "kept s s1" "obj_ok s1 v"
  have "ic (evaluate_arguments ev es []) (\<lambda>r. ic (case r of
      Inl err \<Rightarrow> ret (INTERPRET_ERROR err) | Inr vs \<Rightarrow> checked_call ex v paren vs) (ev_post s)) s1"
  proof (rule arguments_ok [OF s1(1)], use assms(2) in simp, simp)
    fix r :: "runtime_error + object list" and s2
    assume s2: "kept s s2" "kept s1 s2" "case r of Inl err \<Rightarrow> True | Inr ws \<Rightarrow> list_all (obj_ok s2) ws"
    then show "ic (case r of Inl err \<Rightarrow> ret (INTERPRET_ERROR err) | Inr vs \<Rightarrow> checked_call ex v paren vs)
        (ev_post s) s2"
      using kept_obj [OF s2(2) s1(2)] by (cases r) (auto simp: wp_ret intro: call_ok)
  qed
  then show "ic (andthen (evaluate_arguments ev es []) (\<lambda>r. case r of
      Inl err \<Rightarrow> ret (INTERPRET_ERROR err) | Inr vs \<Rightarrow> checked_call ex v paren vs)) (ev_post s) s1"
    by (simp only: wp_andthen)
qed

lemma accept_expr_ok:
  assumes "istate_ok s" and "expr_wf e"
  shows "ic (expr_accept_interpreter ev ex e) (ev_post s) s"
proof (cases e)
  case (EXPR_GROUPING p)
  with assms show ?thesis
    by (auto simp: interpreter_visit_grouping_expr_def visit_def evaluates split: option.splits)
next
  case (EXPR_LITERAL v)
  with assms show ?thesis
    by (simp add: interpreter_visit_literal_expr_def wp_ret plain_ok kept_refl)
qed (use assms assign_ok binary_ok call_expr_ok logical_ok unary_ok variable_ok in auto)

text \<open>Each visitor function of the statements meets the contract of \<open>interpreter_execute\<close>.\<close>

lemma define_here_ok:
  assumes "kept s0 s" and "obj_ok s v"
  shows "ic (define_here name v) (ex_post s0) s"
proof -
  note s = kept_ok [OF assms(1)]
  have "it_environment s < length (it_store s)" using s by (simp add: istate_ok_def)
  then have "ic (define_in (it_environment s) name v) (\<lambda>_. kept s0) s"
    using kept_trans [OF assms(1)] by (intro ic_define_in s assms(2))
  then show ?thesis by (simp add: define_here_def wp_simps)
qed

lemma print_ok:
  assumes "istate_ok s" and "expr_wf e"
  shows "ic (interpreter_visit_print_stmt ev e) (ex_post s) s"
proof -
  have "kept s (s'\<lparr>it_console := print_out t (it_console s')\<rparr>)" if "kept s s'" for s' t
    using that by (auto simp: kept_def istate_ok_def obj_ok_def)
  with assms show ?thesis
    unfolding interpreter_visit_print_stmt_def
    by (auto simp: wp_simps stringify_only_def intro!: seq_with_value kept_refl split: option.split)
qed

lemma function_stmt_ok:
  assumes "istate_ok s" and "a < length (it_heap s)"
  shows "ic (interpreter_visit_function_stmt a) (ex_post s) s"
proof -
  have "obj_ok s (OBJECT_FUNCTION \<lparr>fn_declaration = a, fn_closure = it_environment s\<rparr>)"
    using assms by (simp add: obj_ok_def istate_ok_def)
  then show ?thesis
    by (auto simp: interpreter_visit_function_stmt_def wp_simps
        intro!: ic_declaration_of define_here_ok kept_refl assms)
qed

lemma block_stmt_ok:
  assumes "istate_ok s" and "list_all (stmt_wf (length (it_heap s))) sts"
  shows "ic (interpreter_visit_block_stmt ex sts) (ex_post s) s"
proof -
  have "it_environment s < length (it_store s)" using assms(1) by (simp add: istate_ok_def)
  with assms show ?thesis
    by (auto simp: interpreter_visit_block_stmt_def wp_simps intro!: ic_new_enclosed block_ok)
qed

lemma while_ok:
  assumes "kept s0 s" and "expr_wf c" and "stmt_wf (length (it_heap s0)) body"
  shows "ic (interpreter_visit_while_stmt ev ex n c body) (ex_post s0) s"
  using assms(1)
proof (induction n arbitrary: s)
  case 0
  then show ?case
    unfolding while_unfold [of ev ex 0] using assms(2,3)
    by (auto simp: wp_simps intro!: seq_with_value seq_ex)
next
  case (Suc n)
  then show ?case
    unfolding while_unfold [of ev ex "Suc n"] using assms(2,3)
    by (auto simp: wp_simps intro!: seq_with_value seq_ex)
qed

lemma accept_stmt_ok:
  assumes "istate_ok s" and "stmt_wf (length (it_heap s)) st"
  shows "ic (stmt_accept_interpreter ev ex n st) (ex_post s) s"
proof (cases st)
  case (STMT_IF c t e)
  with assms kept_refl [OF assms(1)] show ?thesis
    by (auto simp: interpreter_visit_if_stmt_def wp_ret intro!: seq_rules split: option.splits)
next
  case (STMT_RETURN tok e)
  with assms kept_refl [OF assms(1)] show ?thesis
    by (auto simp: interpreter_visit_return_stmt_def wp_ret plain_ok intro!: seq_rules split: option.splits)
next
  case (STMT_VAR name e)
  with assms kept_refl [OF assms(1)] show ?thesis
    by (auto simp: interpreter_visit_var_stmt_def plain_ok intro!: seq_rules define_here_ok split: option.splits)
next
  case (STMT_EXPRESSION e)
  with assms kept_refl [OF assms(1)] show ?thesis
    by (auto simp: interpreter_visit_expression_stmt_def wp_ret intro!: seq_rules)
qed (use assms print_ok function_stmt_ok block_stmt_ok while_ok kept_refl in auto)

end


section \<open>The interpreter meets the contract\<close>

lemma evaluate_Suc: "evaluate (Suc n) e = expr_accept_interpreter (evaluate n) (interpreter_execute n) e"
  by (rule ext) simp

lemma execute_Suc:
  "interpreter_execute (Suc n) st = stmt_accept_interpreter (evaluate n) (interpreter_execute n) n st"
  by (rule ext) simp

interpretation run: callbacks "evaluate n" "interpreter_execute n" for n
proof (induction n)
  case 0
  show ?case by unfold_locales (simp_all add: wp_def exhaust_def)
next
  case (Suc n)
  show ?case
    by unfold_locales
       (simp_all only: evaluate_Suc execute_Suc callbacks.accept_expr_ok [OF Suc] callbacks.accept_stmt_ok [OF Suc])
qed

definition abort_only :: "fault \<Rightarrow> bool" where
  "abort_only e \<longleftrightarrow> e = Assert_Stringify \<or> e = Assert_Unreachable"

lemma abort_only_simps [simp]: "abort_only Assert_Unreachable" "stringify_only e \<Longrightarrow> abort_only e"
  by (simp_all add: abort_only_def stringify_only_def)

text \<open>What a whole program leaves of the interpreter: the environment is the one it started in.\<close>

definition finished :: "interpreter \<Rightarrow> interpreter \<Rightarrow> bool" where
  "finished s s' \<longleftrightarrow>
     istate_ok s' \<and> it_environment s' = it_environment s \<and> it_globals s' = it_globals s \<and>
     it_heap s' = it_heap s \<and> HadError (it_console s') = HadError (it_console s) \<and>
     console_le (it_console s) (it_console s')"

lemma print_out_fields [simp]:
  "HadError (print_out t con) = HadError con" "HadRuntimeError (print_out t con) = HadRuntimeError con"
  "con_err (print_out t con) = con_err con" "con_out (print_out t con) = con_out con @ t"
  by (simp_all add: print_out_def)

lemma kept_finished: "kept s s' \<Longrightarrow> finished s s'"
  by (auto simp: kept_def finished_def console_le_def)

lemma finished_error:
  "kept s s' \<Longrightarrow> finished s (s'\<lparr>it_console := library_runtime_error err (it_console s')\<rparr>)"
  by (auto simp: kept_def finished_def console_le_def istate_ok_def obj_ok_def library_runtime_error_def)

lemma wp_weaken_fault: "wp E F m Q s \<Longrightarrow> (\<And>e. F e \<Longrightarrow> F' e) \<Longrightarrow> wp E F' m Q s"
  by (auto simp: wp_def split: outcome.splits)

lemma interpret_ok:
  assumes "kept s0 s" and "list_all (stmt_wf (length (it_heap s0))) sts"
  shows "wp True abort_only (interpret_stmts n sts) (\<lambda>_. finished s0) s"
  using assms
proof (induction sts arbitrary: s)
  case (Cons st sts)
  have "ic (interpreter_execute n st) (\<lambda>r s'. kept s0 s') s"
    using Cons.prems by (intro run.seq_ex) auto
  then have "wp True abort_only (interpreter_execute n st) (\<lambda>r s'. kept s0 s') s"
    by (rule wp_weaken_fault) simp
  then show ?case
    unfolding interpret_stmts.simps wp_andthen
    by (rule wp_mono)
       (use Cons in \<open>auto simp: wp_simps finished_error split: execution_result.split\<close>)
qed (simp add: wp_ret kept_finished)

section \<open>A new interpreter\<close>

lemma interpreter_new_ok:
  assumes "heap_wf heap"
  shows "\<exists>s. interpreter_new time k heap con = Some s \<and> istate_ok s \<and> it_heap s = heap \<and>
    it_console s = con \<and> it_environment s = it_globals s \<and>
    (\<forall>name. environment_get (it_store s) (it_environment s) name =
       Some (if t_lexeme name = ''clock'' then ENVIRONMENT_LOOKUP_OK (OBJECT_NATIVE_FUNCTION 0 lox_clock)
             else ENVIRONMENT_LOOKUP_ERROR (undefined_variable name)))"
proof -
  let ?st = "[\<lparr>env_enclosing = None, env_values = hash_table_new hash_fnv1a\<rparr>]"
    and ?clock = "OBJECT_NATIVE_FUNCTION 0 lox_clock"
  have ok: "store_ok ?st" using store_ok_snoc [of "[]" None] by (simp add: store_ok_def)
  have empty: "env_frame ?st 0 = Map.empty" using env_frame_new [of "[]" None hash_fnv1a] by simp
  obtain st where st: "environment_define ?st 0 ''clock'' ?clock = Some st" "store_ok st" "length st = 1"
      "\<And>c. env_enclosing (st ! c) = env_enclosing (?st ! c)"
      "\<And>c. env_frame st c = (if c = 0 then [''clock'' \<mapsto> ?clock] else env_frame ?st c)"
    using environment_define_new [OF ok, of 0 "''clock''" ?clock] by (auto simp: empty NUL_def)
  have contents: "store_contents st \<subseteq> {?clock}"
    using store_define [OF ok, of 0 "''clock''" ?clock] st(1)
    by (auto simp: store_contents_def entries_new)
  have "scope st 0 = [0]" using st(4) [of 0] by (subst scope.simps) simp
  then have get: "environment_get st 0 name = Some (if t_lexeme name = ''clock''
      then ENVIRONMENT_LOOKUP_OK ?clock else ENVIRONMENT_LOOKUP_ERROR (undefined_variable name))" for name
    using environment_get_ok [OF st(2), of 0 name] st(3,5) by simp
  let ?s = "\<lparr>it_globals = 0, it_environment = 0, it_init_time = time k, it_store = st, it_heap = heap,
     it_console = con, it_time = time, it_reads = Suc k\<rparr>"
  have "interpreter_new time k heap con = Some ?s"
    using st(1) by (simp add: interpreter_new_def environment_new_def)
  moreover have "istate_ok ?s"
    using st(2,3) assms contents by (auto simp: istate_ok_def obj_ok_def)
  ultimately show ?thesis using get by simp
qed

section \<open>Properties\<close>


text \<open>A token, and a fresh interpreter whose clock stands at zero.\<close>

definition token_of_line :: "nat \<Rightarrow> token" where
  "token_of_line line = \<lparr>t_type = TOKEN_RETURN, t_lexeme = ''return'', t_literal = OBJECT_NULL, t_line = line\<rparr>"

definition sample_interpreter :: interpreter where
  "sample_interpreter = the (interpreter_new (\<lambda>_. 0) 0 [] console_new)"

lemma sample_interpreter_ok [simp]:
  "istate_ok sample_interpreter" "it_heap sample_interpreter = []" "it_console sample_interpreter = console_new"
  using interpreter_new_ok [of "[]" "\<lambda>_. 0" 0 console_new] by (auto simp: sample_interpreter_def)




text \<open>
  A new interpreter is well formed, runs in its global environment, and binds \<open>clock\<close> to the
  native function of no arguments and no other name.
\<close>

theorem interpreter_new_binds_clock:
  assumes "heap_wf heap"
  shows "\<exists>s. interpreter_new time k heap con = Some s \<and> istate_ok s \<and> it_environment s = it_globals s \<and>
    (\<forall>name. environment_get (it_store s) (it_environment s) name =
       Some (if t_lexeme name = ''clock'' then ENVIRONMENT_LOOKUP_OK (OBJECT_NATIVE_FUNCTION 0 lox_clock)
             else ENVIRONMENT_LOOKUP_ERROR (undefined_variable name)))"
  using interpreter_new_ok [OF assms, of time k con] by blast

theorem interpreter_new_binds_clock_witness:
  "heap_wf [] \<and> (\<exists>s. interpreter_new (\<lambda>_. 0) 0 [] console_new = Some s \<and> istate_ok s)"
  using interpreter_new_binds_clock [of "[]" "\<lambda>_. 0" 0 console_new] by auto

end
