(* ===== verification/Interpreter_Behaviour.thy ===== *)
theory Interpreter_Behaviour
  imports Interpreter_Safety
begin

text \<open>
  How the interpreter behaves, construct by construct. More fuel never changes a result
  (\<open>refines_run\<close>), so that every statement about one bound holds for all larger ones.
  Expressions without calls always have a result.
\<close>

section \<open>Fuel\<close>

lemma refines_on_ok [refines_intros]:
  "refines_run m m' \<Longrightarrow> (\<And>v. refines_run (f v) (f' v)) \<Longrightarrow> refines_run (on_ok m f) (on_ok m' f')"
  unfolding on_ok_def by (auto intro!: refines_andthen refines_refl split: interpret_result.split)

lemma refines_with_value [refines_intros]:
  "refines_run m m' \<Longrightarrow> (\<And>v. refines_run (f v) (f' v)) \<Longrightarrow> refines_run (with_value m f) (with_value m' f')"
  unfolding with_value_def by (auto intro!: refines_andthen refines_refl split: interpret_result.split)

lemma refines_visit [refines_intros]:
  "(\<And>x. refines_run (f x) (f' x)) \<Longrightarrow> refines_run (visit f p) (visit f' p)"
  unfolding visit_def by (auto intro: refines_refl split: option.split)

locale more_fuel =
  fixes ev ev' :: evaluator
    and ex ex' :: executor
  assumes ev_refines: "refines_run (ev e) (ev' e)"
    and ex_refines: "refines_run (ex st) (ex' st)"
begin

lemmas fuel_intros = refines_intros ev_refines ex_refines

lemma statement_loop_refines: "refines_run (statement_loop ex sts) (statement_loop ex' sts)"
  by (induction sts) (auto intro!: fuel_intros)

lemma block_refines: "refines_run (interpreter_execute_block ex sts a) (interpreter_execute_block ex' sts a)"
  unfolding interpreter_execute_block_def by (intro refines_intros statement_loop_refines)

lemma arguments_refine: "refines_run (evaluate_arguments ev es vs) (evaluate_arguments ev' es vs)"
  by (induction es arbitrary: vs) (auto intro!: fuel_intros split: interpret_result.split)

lemma call_refines: "refines_run (interpreter_call ex f vs) (interpreter_call ex' f vs)"
  by (cases "(ex, f, vs)" rule: interpreter_call.cases) (auto intro!: refines_intros block_refines)

lemma checked_call_refines: "refines_run (checked_call ex f paren vs) (checked_call ex' f paren vs)"
  unfolding checked_call_def by (intro refines_intros call_refines)

lemma expr_refines: "refines_run (expr_accept_interpreter ev ex e) (expr_accept_interpreter ev' ex' e)"
proof (cases e)
  case (EXPR_CALL callee paren es)
  then show ?thesis
    by (auto simp: interpreter_visit_call_expr_def intro!: fuel_intros arguments_refine checked_call_refines
        split: sum.split)
qed (auto simp: interpreter_visit_assign_expr_def interpreter_visit_binary_expr_def
    interpreter_visit_grouping_expr_def interpreter_visit_literal_expr_def interpreter_visit_logical_expr_def
    interpreter_visit_unary_expr_def interpreter_visit_variable_expr_def intro!: fuel_intros)

lemma while_refines:
  "n \<le> m \<Longrightarrow> refines_run (interpreter_visit_while_stmt ev ex n c body) (interpreter_visit_while_stmt ev' ex' m c body)"
proof (induction n arbitrary: m)
  case 0
  then show ?case
    unfolding while_unfold [of ev ex 0] while_unfold [of ev' ex' m] by (auto intro!: fuel_intros)
next
  case (Suc n)
  then obtain k where "m = Suc k" "n \<le> k" by (cases m) auto
  with Suc.IH show ?case
    unfolding while_unfold [of ev ex "Suc n"] while_unfold [of ev' ex' m] by (auto intro!: fuel_intros)
qed

lemma stmt_refines:
  "n \<le> m \<Longrightarrow> refines_run (stmt_accept_interpreter ev ex n st) (stmt_accept_interpreter ev' ex' m st)"
  by (cases st)
     (auto simp: interpreter_visit_block_stmt_def interpreter_visit_expression_stmt_def
       interpreter_visit_if_stmt_def interpreter_visit_print_stmt_def interpreter_visit_return_stmt_def
       interpreter_visit_var_stmt_def intro!: fuel_intros block_refines while_refines)

end

interpretation fuel: more_fuel "evaluate n" "evaluate (n + k)" "interpreter_execute n" "interpreter_execute (n + k)"
  for n k
proof (induction n)
  case 0
  have "evaluate 0 e = exhaust" "interpreter_execute 0 st = exhaust" for e st by (rule ext, simp)+
  then show ?case by unfold_locales (simp_all add: refines_exhaust)
next
  case (Suc n)
  then show ?case
    by unfold_locales (simp_all add: evaluate_Suc execute_Suc more_fuel.expr_refines more_fuel.stmt_refines)
qed

lemma interpret_refines:
  assumes "n \<le> m"
  shows "refines_run (interpret_stmts n sts) (interpret_stmts m sts)"
proof -
  obtain k where "m = n + k" using assms le_Suc_ex by blast
  then show ?thesis
    by (induction sts) (auto intro!: refines_intros fuel.ex_refines split: execution_result.split)
qed

section \<open>Expressions without calls\<close>

fun call_free :: "expr \<Rightarrow> bool" where
  "call_free (EXPR_ASSIGN name p) = (case p of None \<Rightarrow> True | Some e \<Rightarrow> call_free e)"
| "call_free (EXPR_BINARY l op r) = (call_free l \<and> call_free r)"
| "call_free (EXPR_CALL callee paren es) = False"
| "call_free (EXPR_GROUPING p) = (case p of None \<Rightarrow> True | Some e \<Rightarrow> call_free e)"
| "call_free (EXPR_LITERAL v) = True"
| "call_free (EXPR_LOGICAL l op r) =
     ((case l of None \<Rightarrow> True | Some e \<Rightarrow> call_free e) \<and> (case r of None \<Rightarrow> True | Some e \<Rightarrow> call_free e))"
| "call_free (EXPR_UNARY op e) = call_free e"
| "call_free (EXPR_VARIABLE name) = True"

definition returns_at :: "nat \<Rightarrow> expr \<Rightarrow> bool" where
  "returns_at n e \<longleftrightarrow> (\<forall>s. istate_ok s \<longrightarrow> (\<exists>s' r. evaluate n e s = Done s' r))"

lemma returns_atD:
  assumes "returns_at n e" and "expr_wf e" and "istate_ok s"
  shows "\<exists>s' r. evaluate n e s = Done s' r \<and> istate_ok s' \<and> result_ok s' r"
proof -
  obtain s' r where "evaluate n e s = Done s' r" using assms by (auto simp: returns_at_def)
  with run.evaluates [OF assms(3,2), of n] show ?thesis by (auto simp: wp_def ev_post_def kept_def)
qed

lemma done_get: "istate_ok s \<Longrightarrow> \<exists>r. get_variable name s = Done s r"
  using env.get_ok [of "it_store s" "it_environment s" name] by (auto simp: istate_ok_def get_variable_def)

lemma done_assign: "istate_ok s \<Longrightarrow> \<exists>s' err. assign_variable name v s = Done s' err"
  using env.assign_ok [of "it_store s" "it_environment s" name v]
  by (force simp: istate_ok_def assign_variable_def)

lemma done_binary:
  "t_type op \<in> set (binary_types EQUALITY @ binary_types COMPARISON @ binary_types TERM_LEVEL @ binary_types FACTOR_LEVEL) \<Longrightarrow>
     \<exists>r. binary_operation op a b s = Done s r"
  by (auto simp: binary_operation_def number_operation_def add_operation_def ret_def
      split: option.split object.split)

lemma done_binary_state:
  "expr_wf (EXPR_BINARY l op r) \<Longrightarrow> \<exists>s' x. binary_operation op a b s = Done s' x"
  using done_binary [of op a b s] by (simp only: expr_wf.simps) blast

lemma returns_atI:
  "(\<And>s. istate_ok s \<Longrightarrow> \<exists>s' r. evaluate n e s = Done s' r) \<Longrightarrow> returns_at n e"
  by (simp add: returns_at_def)

lemma returns_assign:
  assumes "returns_at n e" and "expr_wf e"
  shows "returns_at (Suc n) (EXPR_ASSIGN name (Some e))"
proof (rule returns_atI)
  fix s
  assume "istate_ok s"
  then obtain s1 r where e: "evaluate n e s = Done s1 r" "istate_ok s1" using returns_atD [OF assms] by blast
  show "\<exists>s' r. evaluate (Suc n) (EXPR_ASSIGN name (Some e)) s = Done s' r"
  proof (cases r)
    case (INTERPRET_OK v)
    obtain s2 err where "assign_variable name v s1 = Done s2 err" using done_assign [OF e(2)] by blast
    with e INTERPRET_OK show ?thesis
      by (cases err) (simp_all add: interpreter_visit_assign_expr_def on_ok_def visit_def andthen_def ret_def)
  qed (use e in \<open>simp add: interpreter_visit_assign_expr_def on_ok_def visit_def andthen_def ret_def\<close>)
qed

lemma returns_binary:
  assumes "returns_at n l" and "returns_at n r" and "expr_wf (EXPR_BINARY l op r)"
  shows "returns_at (Suc n) (EXPR_BINARY l op r)"
proof (rule returns_atI)
  fix s
  assume "istate_ok s"
  then obtain s1 v where l: "evaluate n l s = Done s1 v" "istate_ok s1"
    using returns_atD [OF assms(1), of s] assms(3) by fastforce
  then obtain s2 w where r: "evaluate n r s1 = Done s2 w" using returns_atD [OF assms(2), of s1] assms(3) by fastforce
  show "\<exists>s' v. evaluate (Suc n) (EXPR_BINARY l op r) s = Done s' v"
    using l r done_binary_state [OF assms(3)]
    by (cases v; cases w)
       (simp_all add: interpreter_visit_binary_expr_def on_ok_def andthen_def ret_def)
qed

lemma returns_logical:
  assumes "returns_at n l" and "returns_at n r" and "expr_wf (EXPR_LOGICAL (Some l) op (Some r))"
  shows "returns_at (Suc n) (EXPR_LOGICAL (Some l) op (Some r))"
proof (rule returns_atI)
  fix s
  assume "istate_ok s"
  then obtain s1 v where l: "evaluate n l s = Done s1 v" "istate_ok s1"
    using returns_atD [OF assms(1), of s] assms(3) by fastforce
  then obtain s2 w where "evaluate n r s1 = Done s2 w" using returns_atD [OF assms(2), of s1] assms(3) by fastforce
  with l show "\<exists>s' v. evaluate (Suc n) (EXPR_LOGICAL (Some l) op (Some r)) s = Done s' v"
    by (cases v) (auto simp: interpreter_visit_logical_expr_def on_ok_def visit_def andthen_def ret_def)
qed

lemma returns_unary:
  assumes "returns_at n e" and "expr_wf (EXPR_UNARY op e)"
  shows "returns_at (Suc n) (EXPR_UNARY op e)"
proof (rule returns_atI)
  fix s
  assume "istate_ok s"
  then obtain s1 v where "evaluate n e s = Done s1 v" using returns_atD [OF assms(1), of s] assms(2) by fastforce
  with assms(2) show "\<exists>s' v. evaluate (Suc n) (EXPR_UNARY op e) s = Done s' v"
    by (cases v) (auto simp: interpreter_visit_unary_expr_def on_ok_def andthen_def ret_def split: option.split)
qed

lemma returns_variable: "returns_at (Suc n) (EXPR_VARIABLE name)"
proof (rule returns_atI)
  fix s
  assume "istate_ok s"
  then obtain r where "get_variable name s = Done s r" using done_get by blast
  then show "\<exists>s' v. evaluate (Suc n) (EXPR_VARIABLE name) s = Done s' v"
    by (cases r) (auto simp: interpreter_visit_variable_expr_def andthen_def ret_def)
qed

lemma evaluate_returns:
  assumes "expr_wf e" and "call_free e" and "size e < n"
  shows "returns_at n e"
proof -
  obtain m where "n = Suc m" using assms(3) by (cases n) auto
  with assms show ?thesis
  proof (induction e arbitrary: n m)
    case (EXPR_GROUPING p)
    then obtain e k where e: "p = Some e" "m = Suc k" by (cases m) (auto split: option.splits)
    then have "returns_at m e" using EXPR_GROUPING by auto
    with e EXPR_GROUPING.prems(4) show ?case
      by (auto simp: returns_at_def interpreter_visit_grouping_expr_def visit_def)
  next
    case (EXPR_ASSIGN name p)
    then obtain e k where e: "p = Some e" "m = Suc k" by (cases m) (auto split: option.splits)
    with EXPR_ASSIGN show ?case by (auto intro!: returns_assign)
  next
    case (EXPR_LOGICAL p op q)
    then obtain l r k where "p = Some l" "q = Some r" "m = Suc k" by (cases m) (auto split: option.splits)
    with EXPR_LOGICAL show ?case by (auto intro!: returns_logical)
  next
    case (EXPR_BINARY l op r)
    then obtain k where "m = Suc k" by (cases m) auto
    with EXPR_BINARY show ?case by (auto intro!: returns_binary)
  next
    case (EXPR_UNARY op e)
    then obtain k where "m = Suc k" by (cases m) auto
    with EXPR_UNARY show ?case by (auto intro!: returns_unary)
  next
    case (EXPR_LITERAL v)
    then show ?case by (auto simp: returns_at_def interpreter_visit_literal_expr_def ret_def)
  next
    case (EXPR_VARIABLE name)
    then show ?case using returns_variable by simp
  qed simp
qed

section \<open>Loops\<close>

lemma andthen_Done: "andthen m f s = Done s' y \<longleftrightarrow> (\<exists>s1 x. m s = Done s1 x \<and> f x s1 = Done s' y)"
  by (auto simp: andthen_def split: outcome.splits)

lemma with_value_Done:
  "with_value m f s = Done s' r \<longleftrightarrow>
     (\<exists>err. m s = Done s' (INTERPRET_ERROR err) \<and> r = EXECUTION_RESULT_RUNTIME_ERROR err) \<or>
     (\<exists>s1 v. m s = Done s1 (INTERPRET_OK v) \<and> f v s1 = Done s' r)"
  unfolding with_value_def andthen_Done
  by (auto simp: ret_def split: interpret_result.splits) (metis interpret_result.exhaust)

lemma while_Done:
  assumes "interpreter_visit_while_stmt ev ex n c body s = Done s' r"
  shows "\<exists>s1 x. ev c s1 = Done s' x \<and>
    ((\<exists>v. x = INTERPRET_OK v \<and> \<not> is_truthy v \<and> r = EXECUTION_RESULT_NONE) \<or>
     (\<exists>err. x = INTERPRET_ERROR err \<and> r = EXECUTION_RESULT_RUNTIME_ERROR err))"
  using assms
proof (induction n arbitrary: s)
  case 0
  then show ?case
    unfolding while_unfold [of ev ex 0] with_value_Done
    by (auto simp: ret_def exhaust_def andthen_def split: if_splits outcome.splits)
next
  case (Suc n)
  from Suc.prems show ?case
    unfolding while_unfold [of ev ex "Suc n"] with_value_Done
  proof (elim disjE exE conjE, goal_cases)
    case (2 s1 v)
    show ?case
    proof (cases "is_truthy v")
      case True
      with 2 obtain s2 where "interpreter_visit_while_stmt ev ex n c body s2 = Done s' r"
        by (auto simp: andthen_Done)
      then show ?thesis by (rule Suc.IH)
    qed (use 2 in \<open>auto simp: ret_def\<close>)
  qed blast
qed

lemma return_in_loop_exhausts:
  "interpreter_visit_while_stmt (evaluate (Suc k)) (interpreter_execute (Suc k)) n
     (EXPR_LITERAL (OBJECT_BOOL True)) (STMT_RETURN tok None) s = Exhausted"
proof (induction n)
  case 0
  show ?case
    by (simp add: interpreter_visit_while_stmt.simps with_value_def andthen_def
        interpreter_visit_literal_expr_def interpreter_visit_return_stmt_def ret_def exhaust_def)
next
  case (Suc n)
  then show ?case
    by (simp add: interpreter_visit_while_stmt.simps [of _ _ "Suc n"] with_value_def andthen_def
        interpreter_visit_literal_expr_def interpreter_visit_return_stmt_def ret_def)
qed

section \<open>Properties\<close>

text \<open>
  The bound of the model is immaterial: if a program has an outcome within some bound (it
  returns or crashes), it has the same outcome, the same output and the same final state within
  every larger bound.
\<close>

theorem interpret_fuel_irrelevant:
  assumes "interpret_stmts n statements s \<noteq> Exhausted" and "n \<le> m"
  shows "interpret_stmts m statements s = interpret_stmts n statements s"
  using interpret_refines [OF assms(2), of statements] assms(1) unfolding refines_run_def by metis

theorem interpret_fuel_irrelevant_witness:
  "interpret_stmts 1 [] sample_interpreter \<noteq> Exhausted \<and>
   interpret_stmts 7 [] sample_interpreter = interpret_stmts 1 [] sample_interpreter"
  using interpret_fuel_irrelevant [of 1 "[]" sample_interpreter 7] by (simp add: ret_def)


definition sample_expr :: expr where
  "sample_expr = EXPR_UNARY \<lparr>t_type = TOKEN_BANG, t_lexeme = ''!'', t_literal = OBJECT_NULL, t_line = 1\<rparr>
     (EXPR_LITERAL OBJECT_NULL)"


text \<open>
  A loop ends only through its condition: when a \<open>while\<close> statement returns, its last action
  was to evaluate the condition, to a value that is not truthy or to a runtime error. Whatever
  the body did (a runtime error, a \<open>return\<close>) never ends the loop and never becomes the result.
\<close>

theorem while_ends_by_condition:
  assumes "interpreter_execute n (STMT_WHILE c body) s = Done s' r"
  shows "\<exists>k s1 x. evaluate k c s1 = Done s' x \<and>
    ((\<exists>v. x = INTERPRET_OK v \<and> \<not> is_truthy v \<and> r = EXECUTION_RESULT_NONE) \<or>
     (\<exists>err. x = INTERPRET_ERROR err \<and> r = EXECUTION_RESULT_RUNTIME_ERROR err))"
  proof (cases n)
  case (Suc k)
  with while_Done [of "evaluate k" "interpreter_execute k" k c body s s' r] assms show ?thesis by simp blast
qed (use assms in \<open>simp add: exhaust_def\<close>)

theorem while_ends_by_condition_witness:
  "\<exists>s' r. interpreter_execute 3 (STMT_WHILE (EXPR_LITERAL OBJECT_NULL) (STMT_BLOCK [])) sample_interpreter = Done s' r \<and>
     (\<exists>k s1 x. evaluate k (EXPR_LITERAL OBJECT_NULL) s1 = Done s' x)"
proof -
  have "interpreter_execute 3 (STMT_WHILE (EXPR_LITERAL OBJECT_NULL) (STMT_BLOCK [])) sample_interpreter =
      Done sample_interpreter EXECUTION_RESULT_NONE"
    by (simp add: numeral_3_eq_3 interpreter_visit_while_stmt.simps with_value_def andthen_def ret_def
        interpreter_visit_literal_expr_def)
  with while_ends_by_condition [OF this] show ?thesis by blast
qed

text \<open>
  C34. A \<open>return\<close> inside a loop does not return: \<open>while (true) return;\<close> runs forever, in every
  state, although the Lox language defines it to leave the enclosing function at once.
\<close>

theorem return_in_loop_diverges:
  "interpreter_execute n (STMT_WHILE (EXPR_LITERAL (OBJECT_BOOL True)) (STMT_RETURN tok None)) s = Exhausted"
proof (cases n)
  case (Suc m)
  then show ?thesis
  proof (cases m)
    case 0
    with Suc show ?thesis
      by (simp add: interpreter_visit_while_stmt.simps with_value_def andthen_def exhaust_def)
  next
    case (Suc k)
    with \<open>n = Suc m\<close> return_in_loop_exhausts show ?thesis by simp
  qed
qed (simp add: exhaust_def)

text \<open>
  Logical operators are lazy: when the left operand decides, the result and the state are
  those of the left operand, and the right operand is not evaluated at all (it may even be a
  NULL pointer); otherwise the result is that of the right operand, evaluated in the state the
  left operand left behind. An error of the left operand is the result.
\<close>

theorem logical_short_circuit:
  assumes "evaluate n l s = Done s1 x"
  shows "evaluate (Suc n) (EXPR_LOGICAL (Some l) op r) s =
    (case x of
       INTERPRET_ERROR err \<Rightarrow> Done s1 x
     | INTERPRET_OK v \<Rightarrow>
         if is_truthy v = (t_type op = TOKEN_OR) then Done s1 x
         else (case r of None \<Rightarrow> Fault Null_Dereference | Some e \<Rightarrow> evaluate n e s1))"
  using assms
  by (auto simp: interpreter_visit_logical_expr_def on_ok_def visit_def andthen_def ret_def raise_fault_def
      split: interpret_result.split option.split)

theorem logical_short_circuit_witness:
  "evaluate 2 (EXPR_LOGICAL (Some (EXPR_LITERAL (OBJECT_BOOL True)))
      \<lparr>t_type = TOKEN_OR, t_lexeme = ''or'', t_literal = OBJECT_NULL, t_line = 1\<rparr> None) sample_interpreter =
   Done sample_interpreter (INTERPRET_OK (OBJECT_BOOL True))"
  using logical_short_circuit [of 1 "EXPR_LITERAL (OBJECT_BOOL True)" sample_interpreter sample_interpreter
    "INTERPRET_OK (OBJECT_BOOL True)" "\<lparr>t_type = TOKEN_OR, t_lexeme = ''or'', t_literal = OBJECT_NULL, t_line = 1\<rparr>" None]
  by (simp add: numeral_2_eq_2 interpreter_visit_literal_expr_def ret_def)


definition name_b :: token where
  "name_b = \<lparr>t_type = TOKEN_IDENTIFIER, t_lexeme = ''b'', t_literal = OBJECT_NULL, t_line = 3\<rparr>"

lemma sample_undefined:
  "interpreter_execute 2 (STMT_EXPRESSION (EXPR_VARIABLE name_b)) sample_interpreter =
     Done sample_interpreter (EXECUTION_RESULT_RUNTIME_ERROR (undefined_variable name_b))"
proof -
  obtain s where "interpreter_new (\<lambda>_. 0) 0 [] console_new = Some s"
      "environment_get (it_store s) (it_environment s) name_b =
         Some (ENVIRONMENT_LOOKUP_ERROR (undefined_variable name_b))"
    using interpreter_new_ok [of "[]" "\<lambda>_. 0" 0 console_new] by (auto simp: name_b_def)
  then show ?thesis
    by (simp add: numeral_2_eq_2 sample_interpreter_def interpreter_visit_expression_stmt_def with_value_def
        interpreter_visit_variable_expr_def get_variable_def andthen_def ret_def)
qed


text \<open>
  Printing a function aborts the interpreter: \<open>stringify\<close> has no case for functions and ends
  in a failed assertion.
\<close>

theorem print_function_aborts:
  assumes "evaluate n e s = Done s1 (INTERPRET_OK (OBJECT_FUNCTION f))"
  shows "interpreter_execute (Suc n) (STMT_PRINT e) s = Fault Assert_Stringify"
  using assms by (simp add: interpreter_visit_print_stmt_def with_value_def andthen_def raise_fault_def)

theorem print_function_aborts_witness:
  "interpreter_execute 2 (STMT_PRINT (EXPR_LITERAL (OBJECT_FUNCTION \<lparr>fn_declaration = 0, fn_closure = 0\<rparr>)))
     sample_interpreter = Fault Assert_Stringify"
  using print_function_aborts [of 1 "EXPR_LITERAL (OBJECT_FUNCTION \<lparr>fn_declaration = 0, fn_closure = 0\<rparr>)"
    sample_interpreter sample_interpreter "\<lparr>fn_declaration = 0, fn_closure = 0\<rparr>"]
  by (simp add: numeral_2_eq_2 interpreter_visit_literal_expr_def ret_def)

text \<open>
  A \<open>return\<close> outside a function, which the parser accepts, aborts the interpreter in code that
  is marked unreachable.
\<close>

theorem top_level_return_aborts:
  "interpret_stmts (Suc n) (STMT_RETURN tok None # statements) s = Fault Assert_Unreachable"
  by (simp add: andthen_def interpreter_visit_return_stmt_def ret_def raise_fault_def)

end
