(* ===== verification/Ast_Debug.thy ===== *)
theory Ast_Debug
  imports Grammar
begin

text \<open>
  The debug printer of \<open>source/private/ast/debug.c\<close>, which \<open>library_run\<close> uses to show every parsed
  program. It writes to standard output and keeps the depth of the indentation in a global
  variable. Each case of the two functions is the sequence of its calls.

  The reference \<open>expr_text\<close> and \<open>stmt_text\<close> is a layout without state: a title, and the fields one
  level deeper. The lemmas show that the printer writes this layout, that it leaves the global
  depth as it found it, and that it crashes exactly on trees with a NULL child. Functions and
  \<open>return\<close> statements have no case in the source and print nothing.
\<close>

section \<open>The model\<close>

record debug_state =
  AstDebugIndentLevel :: nat
  dbg_out :: string

type_synonym debug = "(debug_state, unit) run"

definition puts :: "string \<Rightarrow> debug" where
  "puts t = modifies (\<lambda>s. s\<lparr>dbg_out := dbg_out s @ t\<rparr>)"

definition indent_more :: debug where
  "indent_more = modifies (\<lambda>s. s\<lparr>AstDebugIndentLevel := AstDebugIndentLevel s + 1\<rparr>)"

definition indent_less :: debug where
  "indent_less = modifies (\<lambda>s. s\<lparr>AstDebugIndentLevel := AstDebugIndentLevel s - 1\<rparr>)"

fun print_indent_loop :: "nat \<Rightarrow> debug" where
  "print_indent_loop 0 = ret ()"
| "print_indent_loop (Suc i) = andthen (puts ''  '') (\<lambda>_. print_indent_loop i)"

definition ast_debug_print_indent :: debug where
  "ast_debug_print_indent = andthen (reads AstDebugIndentLevel) print_indent_loop"

definition token_print :: "declarations \<Rightarrow> token \<Rightarrow> debug" where
  "token_print heap tok = puts (snd (token_fprint heap tok []))"

definition object_print :: "declarations \<Rightarrow> object \<Rightarrow> debug" where
  "object_print heap obj = puts (snd (object_fprint heap obj []))"

text \<open>Actions one after the other.\<close>

fun in_order :: "debug list \<Rightarrow> debug" where
  "in_order [] = ret ()"
| "in_order (m # ms) = andthen m (\<lambda>_. in_order ms)"

definition nl :: "string \<Rightarrow> string" where
  "nl t = t @ [newline]"

fun expr_debug :: "declarations \<Rightarrow> expr \<Rightarrow> debug"
and exprs_debug :: "declarations \<Rightarrow> expr list \<Rightarrow> debug" where
  "expr_debug heap (EXPR_ASSIGN name v) = in_order
     [puts (nl ''ASSIGN_EXPR {''), indent_more,
      ast_debug_print_indent, puts ''.name = '', token_print heap name, puts (nl '',''),
      ast_debug_print_indent, puts ''.value = '',
      (case v of None \<Rightarrow> raise_fault Null_Dereference | Some e \<Rightarrow> expr_debug heap e), puts (nl '',''),
      indent_less, ast_debug_print_indent, puts ''}'']"
| "expr_debug heap (EXPR_BINARY l op r) = in_order
     [puts (nl ''BINARY_EXPR {''), indent_more,
      ast_debug_print_indent, puts ''.left = '', expr_debug heap l, puts (nl '',''),
      ast_debug_print_indent, puts ''.operator = '', token_print heap op, puts (nl '',''),
      ast_debug_print_indent, puts ''.right = '', expr_debug heap r, puts (nl '',''),
      indent_less, ast_debug_print_indent, puts ''}'']"
| "expr_debug heap (EXPR_CALL callee paren arguments) = in_order
     [puts (nl ''CALL_EXPR {''), indent_more,
      ast_debug_print_indent, puts ''.callee = '', expr_debug heap callee, puts (nl '',''),
      ast_debug_print_indent, puts (nl ''.arguments = [''), indent_more,
      exprs_debug heap arguments,
      indent_less, ast_debug_print_indent, puts (nl ''],''),
      indent_less, ast_debug_print_indent, puts ''}'']"
| "expr_debug heap (EXPR_GROUPING v) = in_order
     [puts (nl ''GROUPING_EXPR {''), indent_more,
      ast_debug_print_indent, puts ''.expression = '',
      (case v of None \<Rightarrow> raise_fault Null_Dereference | Some e \<Rightarrow> expr_debug heap e), puts (nl '',''),
      indent_less, ast_debug_print_indent, puts ''}'']"
| "expr_debug heap (EXPR_LITERAL obj) = in_order
     [puts (nl ''LITERAL_EXPR {''), indent_more,
      ast_debug_print_indent, puts ''.value = '', object_print heap obj, puts (nl '',''),
      indent_less, ast_debug_print_indent, puts ''}'']"
| "expr_debug heap (EXPR_LOGICAL l op r) = in_order
     [puts (nl ''LOGICAL_EXPR {''), indent_more,
      ast_debug_print_indent, puts ''.left = '',
      (case l of None \<Rightarrow> raise_fault Null_Dereference | Some e \<Rightarrow> expr_debug heap e), puts (nl '',''),
      ast_debug_print_indent, puts ''.op = '', token_print heap op, puts (nl '',''),
      ast_debug_print_indent, puts ''.right = '',
      (case r of None \<Rightarrow> raise_fault Null_Dereference | Some e \<Rightarrow> expr_debug heap e), puts (nl '',''),
      indent_less, ast_debug_print_indent, puts ''}'']"
| "expr_debug heap (EXPR_UNARY op e) = in_order
     [puts (nl ''UNARY_EXPR {''), indent_more,
      ast_debug_print_indent, puts ''.op = '', token_print heap op, puts (nl '',''),
      ast_debug_print_indent, puts ''.right = '', expr_debug heap e, puts (nl '',''),
      indent_less, ast_debug_print_indent, puts ''}'']"
| "expr_debug heap (EXPR_VARIABLE name) = in_order
     [puts (nl ''VARIABLE_EXPR {''), indent_more,
      ast_debug_print_indent, puts ''.name = '', token_print heap name, puts (nl '',''),
      indent_less, ast_debug_print_indent, puts ''}'']"
| "exprs_debug heap [] = ret ()"
| "exprs_debug heap (e # es) = in_order
     [ast_debug_print_indent, expr_debug heap e, puts (nl '',''), exprs_debug heap es]"

fun stmt_debug :: "declarations \<Rightarrow> stmt \<Rightarrow> debug"
and stmts_debug :: "declarations \<Rightarrow> stmt list \<Rightarrow> debug" where
  "stmt_debug heap (STMT_BLOCK statements) = in_order
     [puts (nl ''BLOCK_STMT {''), indent_more,
      ast_debug_print_indent, puts (nl ''.statements = {''), indent_more,
      stmts_debug heap statements,
      indent_less, ast_debug_print_indent, puts (nl ''},''),
      indent_less, ast_debug_print_indent, puts ''}'']"
| "stmt_debug heap (STMT_EXPRESSION e) = in_order
     [puts (nl ''EXPRESSION_STMT {''), indent_more,
      ast_debug_print_indent, puts ''.expression = '', expr_debug heap e, puts (nl '',''),
      indent_less, ast_debug_print_indent, puts ''}'']"
| "stmt_debug heap (STMT_FUNCTION a) = in_order []"
| "stmt_debug heap (STMT_IF c t e) = in_order
     [puts (nl ''IF_STMT {''), indent_more,
      ast_debug_print_indent, puts ''.condition = '', expr_debug heap c, puts (nl '',''),
      ast_debug_print_indent, puts ''.then_branch = '', stmt_debug heap t, puts (nl '',''),
      ast_debug_print_indent, puts ''.else_branch = '',
      (case e of Some st \<Rightarrow> stmt_debug heap st | None \<Rightarrow> puts ''NULL''), puts (nl '',''),
      indent_less, ast_debug_print_indent, puts ''}'']"
| "stmt_debug heap (STMT_PRINT e) = in_order
     [puts (nl ''PRINT_STMT {''), indent_more,
      ast_debug_print_indent, puts ''.expression = '', expr_debug heap e, puts (nl '',''),
      indent_less, ast_debug_print_indent, puts ''}'']"
| "stmt_debug heap (STMT_RETURN keyword e) = in_order []"
| "stmt_debug heap (STMT_VAR name v) = in_order
     [puts (nl ''VAR_STMT {''), indent_more,
      ast_debug_print_indent, puts ''.name = '', token_print heap name, puts (nl '',''),
      (case v of
         None \<Rightarrow> ret ()
       | Some e \<Rightarrow> in_order
           [ast_debug_print_indent, puts ''.initializer = '', expr_debug heap e, puts (nl '','')]),
      indent_less, ast_debug_print_indent, puts ''}'']"
| "stmt_debug heap (STMT_WHILE c body) = in_order
     [puts (nl ''WHILE_STMT {''), indent_more,
      ast_debug_print_indent, puts ''.condition = '', expr_debug heap c, puts (nl '',''),
      ast_debug_print_indent, puts ''.body = '', stmt_debug heap body, puts (nl '',''),
      indent_less, ast_debug_print_indent, puts ''}'']"
| "stmts_debug heap [] = ret ()"
| "stmts_debug heap (st # sts) = in_order
     [ast_debug_print_indent, stmt_debug heap st, puts (nl '',''), stmts_debug heap sts]"

section \<open>The layout\<close>

definition indent :: "nat \<Rightarrow> string" where
  "indent n = concat (replicate n ''  '')"

text \<open>Lines of items at depth \<open>n\<close>, and a node with its fields.\<close>

definition items :: "nat \<Rightarrow> string list \<Rightarrow> string" where
  "items n ts = concat (map (\<lambda>t. indent n @ t @ nl '','') ts)"

definition node :: "nat \<Rightarrow> string \<Rightarrow> string list \<Rightarrow> string" where
  "node n title fs = nl (title @ '' {'') @ items (Suc n) fs @ indent n @ ''}''"

definition token_text :: "declarations \<Rightarrow> token \<Rightarrow> string" where
  "token_text heap tok = token_prefix tok @ OBJECT_PRINT heap (t_literal tok)"

fun expr_text :: "declarations \<Rightarrow> nat \<Rightarrow> expr \<Rightarrow> string" where
  "expr_text heap n (EXPR_ASSIGN name v) = node n ''ASSIGN_EXPR''
     [''.name = '' @ token_text heap name,
      ''.value = '' @ (case v of None \<Rightarrow> [] | Some e \<Rightarrow> expr_text heap (Suc n) e)]"
| "expr_text heap n (EXPR_BINARY l op r) = node n ''BINARY_EXPR''
     [''.left = '' @ expr_text heap (Suc n) l, ''.operator = '' @ token_text heap op,
      ''.right = '' @ expr_text heap (Suc n) r]"
| "expr_text heap n (EXPR_CALL callee paren arguments) = node n ''CALL_EXPR''
     [''.callee = '' @ expr_text heap (Suc n) callee,
      nl ''.arguments = ['' @ items (Suc (Suc n)) (map (expr_text heap (Suc (Suc n))) arguments) @ indent (Suc n) @ '']'']"
| "expr_text heap n (EXPR_GROUPING v) = node n ''GROUPING_EXPR''
     [''.expression = '' @ (case v of None \<Rightarrow> [] | Some e \<Rightarrow> expr_text heap (Suc n) e)]"
| "expr_text heap n (EXPR_LITERAL obj) = node n ''LITERAL_EXPR'' [''.value = '' @ OBJECT_PRINT heap obj]"
| "expr_text heap n (EXPR_LOGICAL l op r) = node n ''LOGICAL_EXPR''
     [''.left = '' @ (case l of None \<Rightarrow> [] | Some e \<Rightarrow> expr_text heap (Suc n) e),
      ''.op = '' @ token_text heap op,
      ''.right = '' @ (case r of None \<Rightarrow> [] | Some e \<Rightarrow> expr_text heap (Suc n) e)]"
| "expr_text heap n (EXPR_UNARY op e) = node n ''UNARY_EXPR''
     [''.op = '' @ token_text heap op, ''.right = '' @ expr_text heap (Suc n) e]"
| "expr_text heap n (EXPR_VARIABLE name) = node n ''VARIABLE_EXPR'' [''.name = '' @ token_text heap name]"

fun stmt_text :: "declarations \<Rightarrow> nat \<Rightarrow> stmt \<Rightarrow> string" where
  "stmt_text heap n (STMT_BLOCK statements) = node n ''BLOCK_STMT''
     [nl ''.statements = {'' @ items (Suc (Suc n)) (map (stmt_text heap (Suc (Suc n))) statements) @ indent (Suc n) @ ''}'']"
| "stmt_text heap n (STMT_EXPRESSION e) = node n ''EXPRESSION_STMT'' [''.expression = '' @ expr_text heap (Suc n) e]"
| "stmt_text heap n (STMT_FUNCTION a) = []"
| "stmt_text heap n (STMT_IF c t e) = node n ''IF_STMT''
     [''.condition = '' @ expr_text heap (Suc n) c, ''.then_branch = '' @ stmt_text heap (Suc n) t,
      ''.else_branch = '' @ (case e of None \<Rightarrow> ''NULL'' | Some st \<Rightarrow> stmt_text heap (Suc n) st)]"
| "stmt_text heap n (STMT_PRINT e) = node n ''PRINT_STMT'' [''.expression = '' @ expr_text heap (Suc n) e]"
| "stmt_text heap n (STMT_RETURN keyword e) = []"
| "stmt_text heap n (STMT_VAR name v) = node n ''VAR_STMT''
     ((''.name = '' @ token_text heap name) #
      (case v of None \<Rightarrow> [] | Some e \<Rightarrow> [''.initializer = '' @ expr_text heap (Suc n) e]))"
| "stmt_text heap n (STMT_WHILE c body) = node n ''WHILE_STMT''
     [''.condition = '' @ expr_text heap (Suc n) c, ''.body = '' @ stmt_text heap (Suc n) body]"

section \<open>The printer writes the layout\<close>

text \<open>\<open>writes m t\<close>: at every depth \<open>n\<close>, \<open>m\<close> appends \<open>t n\<close> to the output and nothing else changes.\<close>

definition writes :: "debug \<Rightarrow> (nat \<Rightarrow> string) \<Rightarrow> bool" where
  "writes m t \<longleftrightarrow> (\<forall>s. m s = Done (s\<lparr>dbg_out := dbg_out s @ t (AstDebugIndentLevel s)\<rparr>) ())"

lemma writes_run: "writes m t \<Longrightarrow> m s = Done (s\<lparr>dbg_out := dbg_out s @ t (AstDebugIndentLevel s)\<rparr>) ()"
  by (simp add: writes_def)

lemma run_puts: "puts t s = Done (s\<lparr>dbg_out := dbg_out s @ t\<rparr>) ()"
  by (simp add: puts_def modifies_def)

lemma run_indent_more: "indent_more s = Done (s\<lparr>AstDebugIndentLevel := Suc (AstDebugIndentLevel s)\<rparr>) ()"
  by (simp add: indent_more_def modifies_def)

lemma run_indent_less: "indent_less s = Done (s\<lparr>AstDebugIndentLevel := AstDebugIndentLevel s - 1\<rparr>) ()"
  by (simp add: indent_less_def modifies_def)

lemma run_indent_loop: "print_indent_loop n s = Done (s\<lparr>dbg_out := dbg_out s @ indent n\<rparr>) ()"
  by (induction n arbitrary: s) (simp_all add: ret_def andthen_def run_puts indent_def)

lemma run_print_indent:
  "ast_debug_print_indent s = Done (s\<lparr>dbg_out := dbg_out s @ indent (AstDebugIndentLevel s)\<rparr>) ()"
  by (simp add: ast_debug_print_indent_def andthen_def reads_def run_indent_loop)

lemma run_token_print: "token_print heap tok s = Done (s\<lparr>dbg_out := dbg_out s @ token_text heap tok\<rparr>) ()"
  by (simp add: token_print_def run_puts token_fprint_def object_fprint_def token_text_def Let_def)

lemma run_object_print: "object_print heap obj s = Done (s\<lparr>dbg_out := dbg_out s @ OBJECT_PRINT heap obj\<rparr>) ()"
  by (simp add: object_print_def run_puts object_fprint_def Let_def)

lemmas debug_runs =
  andthen_def ret_def run_puts run_indent_more run_indent_less run_print_indent run_token_print run_object_print

lemmas layout_defs = node_def items_def nl_def

text \<open>Trees without NULL children.\<close>

fun complete :: "expr \<Rightarrow> bool" where
  "complete (EXPR_ASSIGN name v) = (case v of None \<Rightarrow> False | Some e \<Rightarrow> complete e)"
| "complete (EXPR_BINARY l op r) = (complete l \<and> complete r)"
| "complete (EXPR_CALL callee paren es) = (complete callee \<and> list_all complete es)"
| "complete (EXPR_GROUPING v) = (case v of None \<Rightarrow> False | Some e \<Rightarrow> complete e)"
| "complete (EXPR_LITERAL obj) = True"
| "complete (EXPR_LOGICAL l op r) =
     ((case l of None \<Rightarrow> False | Some e \<Rightarrow> complete e) \<and> (case r of None \<Rightarrow> False | Some e \<Rightarrow> complete e))"
| "complete (EXPR_UNARY op e) = complete e"
| "complete (EXPR_VARIABLE name) = True"

lemma complete_wf: "expr_wf e \<Longrightarrow> complete e"
  by (induction e rule: expr_wf.induct) (auto simp: list_all_iff split: option.splits)

lemma expr_debug_writes:
  "complete e \<Longrightarrow> writes (expr_debug heap e) (\<lambda>n. expr_text heap n e)"
  "list_all complete es \<Longrightarrow> writes (exprs_debug heap es) (\<lambda>n. items n (map (expr_text heap n) es))"
proof (induction heap e and heap es rule: expr_debug_exprs_debug.induct)
  case (1 heap name v)
  then show ?case
    by (cases v) (simp_all add: writes_def debug_runs layout_defs)
qed (auto simp: writes_def debug_runs layout_defs split: option.splits)

text \<open>Where the tree has a NULL child, printing reaches it.\<close>

definition crashes :: "debug \<Rightarrow> bool" where
  "crashes m \<longleftrightarrow> (\<forall>s. m s = Fault Null_Dereference)"

lemma expr_debug_crashes:
  "\<not> complete e \<Longrightarrow> crashes (expr_debug heap e)"
  "\<not> list_all complete es \<Longrightarrow> crashes (exprs_debug heap es)"
proof (induction heap e and heap es rule: expr_debug_exprs_debug.induct)
  case (2 heap l op r)
  then show ?case
    using expr_debug_writes(1) [of l heap]
    by (cases "complete l") (simp_all add: crashes_def writes_def debug_runs)
next
  case (3 heap callee paren arguments)
  then show ?case
    using expr_debug_writes(1) [of callee heap]
    by (cases "complete callee") (simp_all add: crashes_def writes_def debug_runs)
next
  case (6 heap l op r)
  show ?case
  proof (cases "\<exists>e. l = Some e \<and> complete e")
    case True
    then obtain e where e: "l = Some e" "complete e" by blast
    with 6 expr_debug_writes(1) [OF e(2), of heap] show ?thesis
      by (cases r) (simp_all add: crashes_def writes_def debug_runs raise_fault_def)
  next
    case False
    with 6 show ?thesis by (cases l) (simp_all add: crashes_def debug_runs raise_fault_def)
  qed
next
  case (10 heap e es)
  then show ?case
    using expr_debug_writes(1) [of e heap]
    by (cases "complete e") (simp_all add: crashes_def writes_def debug_runs)
qed (auto simp: crashes_def debug_runs raise_fault_def split: option.splits)

lemma stmt_debug_writes:
  "stmt_wf k st \<Longrightarrow> writes (stmt_debug heap st) (\<lambda>n. stmt_text heap n st)"
  "list_all (stmt_wf k) sts \<Longrightarrow> writes (stmts_debug heap sts) (\<lambda>n. items n (map (stmt_text heap n) sts))"
proof (induction heap st and heap sts rule: stmt_debug_stmts_debug.induct)
  case (4 heap c t e)
  then show ?case
    using expr_debug_writes(1) [OF complete_wf, of c heap]
    by (cases e) (simp_all add: writes_def debug_runs layout_defs)
next
  case (7 heap name v)
  then show ?case
    using expr_debug_writes(1) [OF complete_wf, of _ heap]
    by (cases v) (simp_all add: writes_def debug_runs layout_defs)
qed (use expr_debug_writes(1) [OF complete_wf] in \<open>auto simp: writes_def debug_runs layout_defs split: option.splits\<close>)

section \<open>Properties\<close>

text \<open>
  C35. The debug printer refines the layout: on a well-formed statement it returns, appends the
  nested layout at the current depth to the output, and leaves the global depth as it was,
  although every level of the tree increments and decrements it.
\<close>

theorem stmt_debug_layout:
  assumes "stmt_wf k st"
  shows "stmt_debug heap st s = Done (s\<lparr>dbg_out := dbg_out s @ stmt_text heap (AstDebugIndentLevel s) st\<rparr>) ()"
  using stmt_debug_writes(1) [OF assms, of heap] by (rule writes_run)

theorem stmt_debug_layout_witness:
  "stmt_wf 0 (STMT_PRINT (EXPR_LITERAL OBJECT_NULL)) \<and>
   stmt_debug [] (STMT_PRINT (EXPR_LITERAL OBJECT_NULL)) \<lparr>AstDebugIndentLevel = 0, dbg_out = []\<rparr> =
     Done \<lparr>AstDebugIndentLevel = 0, dbg_out =
       nl ''PRINT_STMT {'' @ nl ''  .expression = LITERAL_EXPR {'' @ nl ''    .value = NULL,'' @ nl ''  },'' @ ''}''\<rparr> ()"
  using stmt_debug_layout [of 0 "STMT_PRINT (EXPR_LITERAL OBJECT_NULL)" "[]" "\<lparr>AstDebugIndentLevel = 0, dbg_out = []\<rparr>"]
  by (simp add: layout_defs indent_def)

text \<open>
  Printing an expression crashes exactly on the trees with a NULL child; on all others it
  appends the layout of the whole expression.
\<close>

theorem expr_debug_total:
  "expr_debug heap e s =
     (if complete e then Done (s\<lparr>dbg_out := dbg_out s @ expr_text heap (AstDebugIndentLevel s) e\<rparr>) ()
      else Fault Null_Dereference)"
  using expr_debug_writes(1) [of e heap] expr_debug_crashes(1) [of e heap]
  by (simp add: writes_def crashes_def)

end
