(* ===== verification/Driver.thy ===== *)
theory Driver
  imports Scanner_Proofs Parser_Properties Interpreter_Behaviour Ast_Debug
begin

text \<open>
  The driver: \<open>library_run\<close>, \<open>library_run_file\<close> and \<open>library_run_prompt\<close> of \<open>source/lib.c\<close>, and
  \<open>main\<close> of \<open>source/main.c\<close>. The state is the process memory that survives between two programs of
  the interactive prompt: the interpreter, the keyword table, the declarations that the
  environments refer to, the console with the two error flags, the depth of the debug printer.

  What the operating system answers is a parameter: the outcome of reading the file, and the
  lines typed at the prompt. Exit codes are those of \<open>sysexits.h\<close>.

  The lemmas join the components: the scanner's tokens satisfy what the parser relies on, the
  parser's trees satisfy what the interpreter relies on, and the invariant \<open>lib_ok\<close> holds between
  the programs of one process.
\<close>

section \<open>State\<close>

record library =
  lib_interpreter :: "interpreter option"
  lib_keywords :: "token_type hash_table option"
  lib_heap :: declarations
  lib_console :: console
  lib_time :: "nat \<Rightarrow> int"
  lib_reads :: nat
  lib_level :: nat

type_synonym 'a lib = "(library, 'a) run"

definition library_new :: "(nat \<Rightarrow> int) \<Rightarrow> library" where
  "library_new time = \<lparr>lib_interpreter = None, lib_keywords = None, lib_heap = [], lib_console = console_new,
     lib_time = time, lib_reads = 0, lib_level = 0\<rparr>"

definition lib_print :: "string \<Rightarrow> unit lib" where
  "lib_print t = modifies (\<lambda>lb. lb\<lparr>lib_console := print_out t (lib_console lb)\<rparr>)"

definition lib_eprint :: "string \<Rightarrow> unit lib" where
  "lib_eprint t = modifies (\<lambda>lb. lb\<lparr>lib_console := (lib_console lb)\<lparr>con_err := con_err (lib_console lb) @ t\<rparr>\<rparr>)"

section \<open>Running one program\<close>

definition ensure_interpreter :: "unit lib" where
  "ensure_interpreter = (\<lambda>lb.
     case lib_interpreter lb of
       Some it \<Rightarrow> Done lb ()
     | None \<Rightarrow>
         (case interpreter_new (lib_time lb) (lib_reads lb) (lib_heap lb) (lib_console lb) of
            None \<Rightarrow> Exhausted
          | Some it \<Rightarrow> Done (lb\<lparr>lib_interpreter := Some it, lib_reads := it_reads it\<rparr>) ()))"

definition scan_text :: "string \<Rightarrow> token list lib" where
  "scan_text source =
     embed (\<lambda>lb. scanner_new source (lib_keywords lb) (lib_console lb))
       (\<lambda>sc lb. lb\<lparr>lib_keywords := sc_keywords sc, lib_console := sc_console sc\<rparr>) scanner_scan_tokens"

definition parse_tokens :: "token list \<Rightarrow> stmt list lib" where
  "parse_tokens tokens =
     embed (\<lambda>lb. parser_new tokens (lib_heap lb) (lib_console lb))
       (\<lambda>p lb. lb\<lparr>lib_heap := p_heap p, lib_console := p_console p\<rparr>) parser_parse"

definition lib_stmt_debug :: "stmt \<Rightarrow> unit lib" where
  "lib_stmt_debug st = (\<lambda>lb.
     embed (\<lambda>lb. \<lparr>AstDebugIndentLevel = lib_level lb, dbg_out = con_out (lib_console lb)\<rparr>)
       (\<lambda>d lb. lb\<lparr>lib_level := AstDebugIndentLevel d,
          lib_console := (lib_console lb)\<lparr>con_out := dbg_out d\<rparr>\<rparr>) (stmt_debug (lib_heap lb) st) lb)"

fun show_loop :: "stmt list \<Rightarrow> unit lib" where
  "show_loop [] = ret ()"
| "show_loop (st # sts) =
     andthen (lib_stmt_debug st) (\<lambda>_. andthen (lib_print [newline]) (\<lambda>_. show_loop sts))"

definition show_statements :: "stmt list \<Rightarrow> unit lib" where
  "show_statements statements =
     andthen (lib_print (nl ''--- STATEMENTS ---'')) (\<lambda>_.
     andthen (show_loop statements) (\<lambda>_.
     lib_print (nl ''--- END STATEMENTS ---'')))"

text \<open>The interpreter works on the shared memory.\<close>

definition share :: "library \<Rightarrow> interpreter \<Rightarrow> interpreter" where
  "share lb it = it\<lparr>it_heap := lib_heap lb, it_console := lib_console lb, it_time := lib_time lb,
     it_reads := lib_reads lb\<rparr>"

definition lib_interpret :: "nat \<Rightarrow> stmt list \<Rightarrow> unit lib" where
  "lib_interpret n statements = (\<lambda>lb.
     case lib_interpreter lb of
       None \<Rightarrow> Fault Null_Dereference
     | Some it \<Rightarrow>
         embed (\<lambda>lb. share lb it)
           (\<lambda>it' lb. lb\<lparr>lib_interpreter := Some it', lib_console := it_console it', lib_reads := it_reads it'\<rparr>)
           (interpret_stmts n statements) lb)"

text \<open>
  The statements of a program with an error are dropped. Nothing refers to the functions that
  were declared in it; they are garbage, and the heap is the one before.
\<close>

definition library_run :: "nat \<Rightarrow> string \<Rightarrow> unit lib" where
  "library_run n source =
     andthen ensure_interpreter (\<lambda>_.
     andthen (scan_text source) (\<lambda>tokens.
     andthen (reads lib_heap) (\<lambda>heap.
     andthen (parse_tokens tokens) (\<lambda>statements.
     andthen (reads (\<lambda>lb. HadError (lib_console lb))) (\<lambda>had_error.
     if had_error then modifies (\<lambda>lb. lb\<lparr>lib_heap := heap\<rparr>)
     else andthen (show_statements statements) (\<lambda>_. lib_interpret n statements))))))"

section \<open>Files\<close>

definition EX_USAGE :: int where "EX_USAGE = 64"
definition EX_DATAERR :: int where "EX_DATAERR = 65"
definition EX_NOINPUT :: int where "EX_NOINPUT = 66"
definition EX_SOFTWARE :: int where "EX_SOFTWARE = 70"
definition EX_OSERR :: int where "EX_OSERR = 71"

datatype errno = No_Error | EINVAL | ESPIPE | Other_Errno

text \<open>What the operating system answers: the first call that fails, or the contents.\<close>

datatype file_read =
    Open_Failed
  | Seek_Failed errno
  | Allocation_Failed
  | Short_Read bool nat
  | Contents string

fun library_run_file :: "nat \<Rightarrow> string \<Rightarrow> file_read \<Rightarrow> int lib" where
  "library_run_file n filename Open_Failed = ret EX_NOINPUT"
| "library_run_file n filename (Seek_Failed e) =
     (if e = EINVAL \<or> e = ESPIPE then raise_fault Assert_Errno else ret EX_OSERR)"
| "library_run_file n filename Allocation_Failed =
     andthen (lib_eprint (nl ''Could not allocate enough memory for file contents'')) (\<lambda>_.
     andthen (lib_eprint (nl (''  (file name: '' @ filename @ '')''))) (\<lambda>_. ret EX_OSERR))"
| "library_run_file n filename (Short_Read at_eof nread) =
     andthen (lib_eprint
       (if at_eof
        then nl ''EOF encountered early when reading file. Probably the file was modified during execution.''
        else nl (''Error occurred while reading file (code '' @ decimal (int nread) @ '')''))) (\<lambda>_.
     andthen (lib_eprint (nl (''  (file name: '' @ filename @ '')''))) (\<lambda>_. ret EX_OSERR))"
| "library_run_file n filename (Contents contents) =
     andthen (library_run n contents) (\<lambda>_.
     reads (\<lambda>lb.
       if HadError (lib_console lb) then EX_DATAERR
       else if HadRuntimeError (lib_console lb) then EX_SOFTWARE
       else 0))"

section \<open>The prompt and the program\<close>

definition reset_flags :: "unit lib" where
  "reset_flags =
     modifies (\<lambda>lb. lb\<lparr>lib_console := (lib_console lb)\<lparr>HadError := False, HadRuntimeError := False\<rparr>\<rparr>)"

text \<open>The lines that \<open>getline\<close> returns, and the \<open>errno\<close> with which it fails at the end.\<close>

fun library_run_prompt :: "nat \<Rightarrow> string list \<Rightarrow> errno \<Rightarrow> int lib" where
  "library_run_prompt n [] e =
     andthen (lib_print ''> '') (\<lambda>_.
     if e = EINVAL then raise_fault Assert_Errno
     else if e = No_Error then andthen (lib_print [newline]) (\<lambda>_. ret 0)
     else andthen (lib_eprint (nl ''Couldn't allocate enough memory for line input.'')) (\<lambda>_. ret EX_OSERR))"
| "library_run_prompt n (line # lines) e =
     andthen (lib_print ''> '') (\<lambda>_.
     andthen (library_run n (c_str line)) (\<lambda>_.
     andthen reset_flags (\<lambda>_. library_run_prompt n lines e)))"

definition main_program :: "nat \<Rightarrow> string list \<Rightarrow> (string \<Rightarrow> file_read) \<Rightarrow> string list \<Rightarrow> errno \<Rightarrow> int lib" where
  "main_program n argv read_file lines e =
     (if 2 < length argv
      then andthen (lib_eprint (nl (''Usage: '' @ argv ! 0 @ '' [script]''))) (\<lambda>_. ret EX_USAGE)
      else if length argv = 2 then library_run_file n (argv ! 1) (read_file (argv ! 1))
      else library_run_prompt n lines e)"

section \<open>The scanner feeds the parser\<close>

lemma token_at_plain: "token_at source i j t \<Longrightarrow> plain (t_literal t)"
  by (auto simp: token_at_def lexeme_class_def)

lemma lexed_tokens_ok:
  assumes "lexed source i ts errors" and "t_type eof = TOKEN_EOF" and "t_literal eof = OBJECT_NULL"
  shows "tokens_ok (ts @ [eof])"
proof -
  have "plain (t_literal t) \<and> t_type t \<noteq> TOKEN_EOF" if "t \<in> set ts" for t
    using lexed_tokens [OF assms(1) that] token_at_plain token_at_not_EOF by blast
  then have "TOKEN_EOF \<notin> t_type ` set ts" "list_all (\<lambda>t. plain (t_literal t)) ts"
    by (metis imageE, simp add: list_all_iff)
  with assms(2,3) show ?thesis by (simp add: tokens_ok_def literals_plain_def)
qed

definition lexes :: "string \<Rightarrow> token list \<Rightarrow> nat \<Rightarrow> bool" where
  "lexes source ts errors \<longleftrightarrow>
     (\<exists>us. lexed source (length source) us errors \<and>
       ts = us @ [\<lparr>t_type = TOKEN_EOF, t_lexeme = [], t_literal = OBJECT_NULL, t_line = line_at source (length source)\<rparr>])"

definition keywords_inv :: "library \<Rightarrow> bool" where
  "keywords_inv lb \<longleftrightarrow> (\<forall>table. lib_keywords lb = Some table \<longrightarrow> keywords_ok table)"

section \<open>The invariant of the process\<close>

definition lib_ok :: "library \<Rightarrow> bool" where
  "lib_ok lb \<longleftrightarrow>
     keywords_inv lb \<and> heap_wf (lib_heap lb) \<and>
     (case lib_interpreter lb of None \<Rightarrow> True | Some it \<Rightarrow> istate_ok (share lb it))"

lemma object_ok_grows: "object_ok h n v \<Longrightarrow> object_ok (h + k) n v"
  by (cases v) auto

definition lib_fault :: "fault \<Rightarrow> bool" where
  "lib_fault e \<longleftrightarrow> e = Null_Dereference \<or> e = Assert_Stringify \<or> e = Assert_Unreachable"

abbreviation lc :: "'a lib \<Rightarrow> ('a \<Rightarrow> library \<Rightarrow> bool) \<Rightarrow> library \<Rightarrow> bool" where
  "lc \<equiv> wp True lib_fault"

lemma lc_ensure:
  assumes "lib_ok lb"
    and "\<And>it k. lib_ok (lb\<lparr>lib_interpreter := Some it, lib_reads := k\<rparr>) \<Longrightarrow>
      (lib_interpreter lb \<noteq> None \<Longrightarrow> lib_interpreter lb = Some it) \<Longrightarrow>
      Q () (lb\<lparr>lib_interpreter := Some it, lib_reads := k\<rparr>)"
  shows "lc ensure_interpreter Q lb"
proof (cases "lib_interpreter lb")
  case None
  obtain it where it: "interpreter_new (lib_time lb) (lib_reads lb) (lib_heap lb) (lib_console lb) = Some it"
      "istate_ok it" "it_heap it = lib_heap lb"
    using interpreter_new_ok [of "lib_heap lb" "lib_time lb" "lib_reads lb" "lib_console lb"] assms(1)
    by (auto simp: lib_ok_def)
  have "lib_ok (lb\<lparr>lib_interpreter := Some it, lib_reads := it_reads it\<rparr>)"
    using assms(1) it(2,3) by (simp add: lib_ok_def keywords_inv_def share_def istate_ok_def obj_ok_def)
  with assms(2) [where it = it and k = "it_reads it"] None it(1) show ?thesis by (simp add: wp_def ensure_interpreter_def)
next
  case (Some it)
  then have lb: "lb\<lparr>lib_interpreter := Some it, lib_reads := lib_reads lb\<rparr> = lb" by (cases lb) simp
  have "Q () (lb\<lparr>lib_interpreter := Some it, lib_reads := lib_reads lb\<rparr>)"
    by (rule assms(2)) (simp_all only: lb assms(1) Some)
  then have "Q () lb" by (simp only: lb)
  with Some show ?thesis by (simp add: wp_def ensure_interpreter_def)
qed

lemma lc_scan:
  assumes "keywords_inv lb"
    and "\<And>kw con ts errors. lexes source ts errors \<Longrightarrow> tokens_ok ts \<Longrightarrow> \<forall>table. kw = Some table \<longrightarrow> keywords_ok table \<Longrightarrow>
      (HadError con \<longleftrightarrow> HadError (lib_console lb) \<or> 0 < errors) \<Longrightarrow> con_out con = con_out (lib_console lb) \<Longrightarrow>
      HadRuntimeError con = HadRuntimeError (lib_console lb) \<Longrightarrow>
      Q ts (lb\<lparr>lib_keywords := kw, lib_console := con\<rparr>)"
  shows "lc (scan_text source) Q lb"
proof -
  obtain s us errors where s: "scanner_scan_tokens (scanner_new source (lib_keywords lb) (lib_console lb)) = Done s
         (us @ [\<lparr>t_type = TOKEN_EOF, t_lexeme = [], t_literal = OBJECT_NULL, t_line = line_at source (length source)\<rparr>])"
      "lexed source (length source) us errors"
      "HadError (sc_console s) \<longleftrightarrow> HadError (lib_console lb) \<or> 0 < errors"
      "con_out (sc_console s) = con_out (lib_console lb)"
      "HadRuntimeError (sc_console s) = HadRuntimeError (lib_console lb)"
      "\<forall>table. sc_keywords s = Some table \<longrightarrow> keywords_ok table"
    using scanner_scan_tokens_ok [of "lib_keywords lb" source "lib_console lb"] assms(1)
    by (auto simp: keywords_inv_def)
  have "tokens_ok (us @ [\<lparr>t_type = TOKEN_EOF, t_lexeme = [], t_literal = OBJECT_NULL, t_line = line_at source (length source)\<rparr>])"
    by (rule lexed_tokens_ok [OF s(2)]) simp_all
  with s show ?thesis
    unfolding scan_text_def wp_embed by (simp add: wp_def) (rule assms(2), auto simp: lexes_def)
qed

lemma lc_parse:
  assumes "tokens_ok ts" and "heap_wf (lib_heap lb)"
    and "\<And>heap con statements. \<exists>ext. heap = lib_heap lb @ ext \<Longrightarrow> con_out con = con_out (lib_console lb) \<Longrightarrow>
      HadRuntimeError con = HadRuntimeError (lib_console lb) \<Longrightarrow> (HadError (lib_console lb) \<Longrightarrow> HadError con) \<Longrightarrow>
      (\<not> HadError con \<Longrightarrow> heap_wf heap \<and> program_at ts heap statements \<and> list_all (stmt_wf (length heap)) statements) \<Longrightarrow>
      Q statements (lb\<lparr>lib_heap := heap, lib_console := con\<rparr>)"
  shows "lc (parse_tokens ts) Q lb"
proof -
  let ?p = "parser_new ts (lib_heap lb) (lib_console lb)"
  have "wp True lib_fault parser_parse (\<lambda>ss p'. reaches ?p p' \<and>
      (\<not> HadError (p_console p') \<longrightarrow> program_at ts (p_heap p') ss)) ?p"
    using parser_parse_ok [OF assms(1,2), of "lib_console lb"]
    by (auto simp: wp_def lib_fault_def null_only_def split: outcome.splits)
  then have "wp True lib_fault parser_parse (\<lambda>ss p. Q ss (lb\<lparr>lib_heap := p_heap p, lib_console := p_console p\<rparr>)) ?p"
  proof (rule wp_mono)
    fix ss p
    assume "reaches ?p p \<and> (\<not> HadError (p_console p) \<longrightarrow> program_at ts (p_heap p) ss)"
    then show "Q ss (lb\<lparr>lib_heap := p_heap p, lib_console := p_console p\<rparr>)"
      using assms(1) statement_wf(3) [of ts "p_heap p" ss]
      by (intro assms(3))
         (auto simp: reaches_def p_inv_def parser_new_def console_le_def program_at_def tokens_ok_def)
  qed
  then show ?thesis by (simp add: parse_tokens_def wp_embed)
qed

lemma lc_show_loop:
  assumes "list_all (stmt_wf k) sts"
    and "\<And>t. Q () (lb\<lparr>lib_console := print_out t (lib_console lb)\<rparr>)"
  shows "lc (show_loop sts) Q lb"
  using assms
proof (induction sts arbitrary: lb)
  case Nil
  from Nil.prems(2) [of "[]"] show ?case by (simp add: wp_ret)
next
  case (Cons st sts)
  let ?t = "stmt_text (lib_heap lb) (lib_level lb) st"
  have "lib_stmt_debug st lb = Done (lb\<lparr>lib_console := print_out ?t (lib_console lb)\<rparr>) ()"
    using stmt_debug_writes(1) [of k st "lib_heap lb"] Cons.prems(1)
    by (simp add: lib_stmt_debug_def embed_def writes_def print_out_def)
  moreover have "lc (show_loop sts) Q (lb\<lparr>lib_console := print_out (?t @ [newline]) (lib_console lb)\<rparr>)"
    by (rule Cons.IH) (use Cons.prems in auto)
  ultimately show ?case
    by (simp add: wp_simps lib_print_def) (simp add: wp_def)
qed

lemma lc_show:
  assumes "list_all (stmt_wf k) sts"
    and "\<And>t. Q () (lb\<lparr>lib_console := print_out t (lib_console lb)\<rparr>)"
  shows "lc (show_statements sts) Q lb"
  unfolding show_statements_def
  by (simp add: wp_simps lib_print_def) (rule lc_show_loop [OF assms(1)], simp, rule assms(2))

lemma lc_interpret:
  assumes "lib_ok lb" and "lib_interpreter lb = Some it" and "list_all (stmt_wf (length (lib_heap lb))) sts"
    and "\<And>it con k. lib_ok (lb\<lparr>lib_interpreter := Some it, lib_console := con, lib_reads := k\<rparr>) \<Longrightarrow>
      HadError con = HadError (lib_console lb) \<Longrightarrow>
      Q () (lb\<lparr>lib_interpreter := Some it, lib_console := con, lib_reads := k\<rparr>)"
  shows "lc (lib_interpret n sts) Q lb"
proof -
  let ?s = "share lb it"
  have s: "istate_ok ?s" "it_heap ?s = lib_heap lb" using assms(1,2) by (simp_all add: lib_ok_def share_def)
  have "wp True abort_only (interpret_stmts n sts) (\<lambda>_. finished ?s) ?s"
    using interpret_ok [OF kept_refl [OF s(1)]] assms(3) s(2) by simp
  then have "wp True lib_fault (interpret_stmts n sts) (\<lambda>_. finished ?s) ?s"
    by (rule wp_weaken_fault) (auto simp: abort_only_def lib_fault_def)
  then have "wp True lib_fault (interpret_stmts n sts) (\<lambda>_ it'. Q () (lb\<lparr>lib_interpreter := Some it',
      lib_console := it_console it', lib_reads := it_reads it'\<rparr>)) ?s"
  proof (rule wp_mono)
    fix u it'
    assume "finished ?s it'"
    then show "Q () (lb\<lparr>lib_interpreter := Some it', lib_console := it_console it', lib_reads := it_reads it'\<rparr>)"
      using assms(1) s(2)
      by (intro assms(4))
         (auto simp: finished_def lib_ok_def keywords_inv_def share_def istate_ok_def obj_ok_def)
  qed
  then show ?thesis using assms(2) by (simp add: lib_interpret_def wp_def embed_def split: outcome.splits)
qed

text \<open>
  What one program does to the process: a program with an error changes neither the
  declarations nor an existing interpreter and prints nothing to standard output; any other
  program is the derivation of a text without lexical errors.
\<close>

definition ran_program :: "library \<Rightarrow> string \<Rightarrow> library \<Rightarrow> bool" where
  "ran_program lb source lb' \<longleftrightarrow>
     (\<exists>ts errors. lexes source ts errors \<and>
       (if HadError (lib_console lb')
        then con_out (lib_console lb') = con_out (lib_console lb) \<and> lib_heap lb' = lib_heap lb \<and>
          HadRuntimeError (lib_console lb') = HadRuntimeError (lib_console lb) \<and>
          (lib_interpreter lb \<noteq> None \<longrightarrow> lib_interpreter lb' = lib_interpreter lb)
        else errors = 0 \<and> \<not> HadError (lib_console lb) \<and> (\<exists>statements. program_at ts (lib_heap lb') statements)))"

lemma lib_ok_parts:
  "lib_ok lb \<Longrightarrow> keywords_inv lb" "lib_ok lb \<Longrightarrow> heap_wf (lib_heap lb)"
  by (simp_all add: lib_ok_def)

lemma lib_ok_grow:
  assumes "lib_ok lb" and "heap_wf heap" and "\<exists>ext. heap = lib_heap lb @ ext"
    and "\<forall>table. kw = Some table \<longrightarrow> keywords_ok table"
  shows "lib_ok (lb\<lparr>lib_keywords := kw, lib_heap := heap, lib_console := con\<rparr>)"
proof -
  obtain ext where ext: "heap = lib_heap lb @ ext" using assms(3) by blast
  have "istate_ok (share (lb\<lparr>lib_keywords := kw, lib_heap := heap, lib_console := con\<rparr>) it)"
    if "istate_ok (share lb it)" for it
    using that assms(2) object_ok_grows [of "length (lib_heap lb)" _ _ "length ext"]
    by (simp add: share_def istate_ok_def obj_ok_def ext)
  with assms(1,2,4) show ?thesis by (auto simp: lib_ok_def keywords_inv_def split: option.split)
qed

lemma lc_finish:
  assumes lb: "lib_ok lb" and l1: "lib_ok (lb\<lparr>lib_interpreter := Some it, lib_reads := k\<rparr>)"
      "lib_interpreter lb \<noteq> None \<Longrightarrow> lib_interpreter lb = Some it"
    and l2: "lexes source ts errors" "\<forall>table. kw = Some table \<longrightarrow> keywords_ok table"
      "HadError con \<longleftrightarrow> HadError (lib_console lb) \<or> 0 < errors" "con_out con = con_out (lib_console lb)"
      "HadRuntimeError con = HadRuntimeError (lib_console lb)"
    and l3: "\<exists>ext. heap = lib_heap lb @ ext" "con_out con' = con_out con"
      "HadRuntimeError con' = HadRuntimeError con" "HadError con \<Longrightarrow> HadError con'"
      "\<not> HadError con' \<Longrightarrow> heap_wf heap \<and> program_at ts heap sts \<and> list_all (stmt_wf (length heap)) sts"
  shows "lc (if HadError con' then modifies (\<lambda>lb'. lb'\<lparr>lib_heap := lib_heap lb\<rparr>)
      else andthen (show_statements sts) (\<lambda>_. lib_interpret n sts))
    (\<lambda>_ lb'. lib_ok lb' \<and> ran_program lb source lb')
    (lb\<lparr>lib_interpreter := Some it, lib_reads := k, lib_keywords := kw, lib_heap := heap, lib_console := con'\<rparr>)"
proof (cases "HadError con'")
  case True
  let ?l = "lb\<lparr>lib_interpreter := Some it, lib_reads := k, lib_keywords := kw, lib_heap := lib_heap lb, lib_console := con'\<rparr>"
  have "lib_ok ?l"
    by (rule lib_ok_grow [OF l1(1) lib_ok_parts(2) [OF lb] _ l2(2)]) simp
  moreover have "ran_program lb source ?l"
    using True l1(2) l2 l3 unfolding ran_program_def by auto
  ultimately show ?thesis using True by (simp add: wp_modifies)
next
  case False
  note p = l3(5) [OF False]
  let ?l = "\<lambda>c. lb\<lparr>lib_interpreter := Some it, lib_reads := k, lib_keywords := kw, lib_heap := heap, lib_console := c\<rparr>"
  have ok: "lib_ok (?l c)" for c
    by (rule lib_ok_grow [OF l1(1) _ _ l2(2)]) (use p l3(1) in simp_all)
  have "lc (lib_interpret n sts) (\<lambda>_ lb'. lib_ok lb' \<and> ran_program lb source lb') (?l (print_out t con'))" for t
  proof (rule lc_interpret [OF ok])
    fix it' c k'
    assume "lib_ok ((?l (print_out t con'))\<lparr>lib_interpreter := Some it', lib_console := c, lib_reads := k'\<rparr>)"
      "HadError c = HadError (lib_console (?l (print_out t con')))"
    then show "lib_ok ((?l (print_out t con'))\<lparr>lib_interpreter := Some it', lib_console := c, lib_reads := k'\<rparr>) \<and>
        ran_program lb source ((?l (print_out t con'))\<lparr>lib_interpreter := Some it', lib_console := c, lib_reads := k'\<rparr>)"
      using False l2(1,3) l3(4) p unfolding ran_program_def by auto
  qed (use p in simp_all)
  then have "lc (andthen (show_statements sts) (\<lambda>_. lib_interpret n sts))
      (\<lambda>_ lb'. lib_ok lb' \<and> ran_program lb source lb') (?l con')"
    unfolding wp_andthen using p by (intro lc_show) auto
  with False show ?thesis by simp
qed

lemma library_run_ok:
  assumes "lib_ok lb"
  shows "lc (library_run n source) (\<lambda>_ lb'. lib_ok lb' \<and> ran_program lb source lb') lb"
  unfolding library_run_def wp_andthen wp_reads
proof (rule lc_ensure [OF assms], rule lc_scan, goal_cases)
  case (1 it k)
  show ?case by (rule lib_ok_parts(1) [OF 1(1)])
next
  case (2 it k kw con ts errors)
  note run = this
  show ?case
  proof (rule lc_parse [OF run(4)], goal_cases)
    case 1
    then show ?case using lib_ok_parts(2) [OF assms] by simp
  next
    case (2 heap con' sts)
    then show ?case
      using lc_finish [OF assms run(1,2,3,5), of con heap con' sts n] run(6-)
      by (cases "HadError con'") auto
  qed
qed

lemma lib_ok_new: "lib_ok (library_new time)"
  by (simp add: lib_ok_def library_new_def keywords_inv_def)

lemma lib_ok_console [simp]: "lib_ok (lb\<lparr>lib_console := con\<rparr>) \<longleftrightarrow> lib_ok lb"
  by (simp add: lib_ok_def keywords_inv_def share_def istate_ok_def obj_ok_def split: option.split)

definition prompt_fault :: "fault \<Rightarrow> bool" where
  "prompt_fault e \<longleftrightarrow> lib_fault e \<or> e = Assert_Errno"

lemma prompt_ok:
  assumes "lib_ok lb"
  shows "wp True prompt_fault (library_run_prompt n lines e)
    (\<lambda>code lb'. lib_ok lb' \<and> (code = 0 \<and> e = No_Error \<or> code = EX_OSERR \<and> e \<noteq> No_Error)) lb"
  using assms
proof (induction lines arbitrary: lb)
  case Nil
  then show ?case by (auto simp: wp_simps lib_print_def lib_eprint_def prompt_fault_def)
next
  case (Cons line lines)
  let ?lb = "lb\<lparr>lib_console := print_out ''> '' (lib_console lb)\<rparr>"
  have "lc (library_run n (c_str line)) (\<lambda>_. lib_ok) ?lb"
    using library_run_ok [of ?lb n "c_str line"] Cons.prems by (auto intro: wp_mono)
  then have "wp True prompt_fault (library_run n (c_str line)) (\<lambda>_. lib_ok) ?lb"
    by (rule wp_weaken_fault) (simp add: prompt_fault_def)
  then have "wp True prompt_fault (library_run n (c_str line)) (\<lambda>_ lb'.
      wp True prompt_fault (library_run_prompt n lines e) (\<lambda>code lb'. lib_ok lb' \<and>
        (code = 0 \<and> e = No_Error \<or> code = EX_OSERR \<and> e \<noteq> No_Error))
        (lb'\<lparr>lib_console := (lib_console lb')\<lparr>HadError := False, HadRuntimeError := False\<rparr>\<rparr>)) ?lb"
    by (rule wp_mono) (simp add: Cons.IH)
  then show ?case by (simp add: wp_simps lib_print_def reset_flags_def)
qed

section \<open>Properties\<close>



text \<open>
  C10. A program with a lexical or syntax error is not executed at all: nothing is printed to
  standard output, no runtime error is flagged, and the variables and functions of an earlier
  program of the same process are untouched.
\<close>

theorem syntax_error_runs_nothing:
  assumes "lib_ok lb" and "library_run n source lb = Done lb' ()" and "HadError (lib_console lb')"
  shows "con_out (lib_console lb') = con_out (lib_console lb) \<and> lib_heap lb' = lib_heap lb \<and>
    HadRuntimeError (lib_console lb') = HadRuntimeError (lib_console lb) \<and>
    (lib_interpreter lb \<noteq> None \<longrightarrow> lib_interpreter lb' = lib_interpreter lb)"
  using library_run_ok [OF assms(1), of n source] assms(2,3) by (auto simp: wp_def ran_program_def)

definition lone_eof :: "token list" where
  "lone_eof = [\<lparr>t_type = TOKEN_EOF, t_lexeme = [], t_literal = OBJECT_NULL, t_line = 1\<rparr>]"

lemma sample_error_run:
  "\<exists>lb'. library_run 1 ''@'' (library_new (\<lambda>_. 0)) = Done lb' () \<and> HadError (lib_console lb')"
proof -
  let ?lb = "library_new (\<lambda>_. 0)"
  have "case scanner_scan_tokens (scanner_new ''@'' None console_new) of
      Done sc ts \<Rightarrow> ts = lone_eof \<and> HadError (sc_console sc) | _ \<Rightarrow> False" by code_simp
  then obtain sc where scan: "scanner_scan_tokens (scanner_new ''@'' None console_new) = Done sc lone_eof"
      "HadError (sc_console sc)" by (auto split: outcome.splits)
  have parse: "parser_parse (parser_new lone_eof heap con) = Done (parser_new lone_eof heap con) []" for heap con
    by (simp add: parser_parse_def parse_loop.simps andthen_def reads_def parser_is_at_end_def parser_peek_def
        deref_def parser_new_def ret_def lone_eof_def)
  obtain it where it: "interpreter_new (\<lambda>_. 0) 0 [] console_new = Some it"
    using interpreter_new_ok [of "[]" "\<lambda>_. 0" 0 console_new] by auto
  show ?thesis
    using scan(2)
    by (simp add: library_run_def andthen_def ensure_interpreter_def library_new_def it scan_text_def embed_def
        scan(1) reads_def parse_tokens_def parse modifies_def) (simp add: parser_new_def)
qed

theorem syntax_error_runs_nothing_witness:
  "\<exists>lb'. library_run 1 ''@'' (library_new (\<lambda>_. 0)) = Done lb' () \<and> HadError (lib_console lb') \<and>
     con_out (lib_console lb') = []"
  using sample_error_run syntax_error_runs_nothing [OF lib_ok_new, of 1 "''@''" "\<lambda>_. 0"]
  by (force simp: library_new_def console_new_def)





end
