(* ===== verification/Ast_Printer.thy ===== *)
theory Ast_Printer
  imports Ast_Debug Console
begin

text \<open>
  The expression printer of \<open>source/private/ast/printer.c\<close> and \<open>alloc_printf\<close> of
  \<open>source/private/strutils.c\<close>, which it is built on. Both allocate a buffer of a length computed
  beforehand and then write into it; here a buffer is the list of its bytes, and a write outside
  it is the fault \<open>Out_Of_Bounds\<close>. A NULL child is the fault \<open>Null_Dereference\<close>.

  The reference is \<open>sexp\<close>, the text of an expression as an s-expression. The lemmas show that the
  computed lengths are exact, that no write leaves its buffer, and that the result is the
  reference text.
\<close>

section \<open>Buffers\<close>

definition bind_result :: "'e + 'a \<Rightarrow> ('a \<Rightarrow> 'e + 'b) \<Rightarrow> 'e + 'b" where
  "bind_result m f = (case m of Inl e \<Rightarrow> Inl e | Inr x \<Rightarrow> f x)"

text \<open>\<open>GC_MALLOC(len)\<close> returns zeroed memory.\<close>

definition malloc_buffer :: "nat \<Rightarrow> string" where
  "malloc_buffer len = replicate len NUL"

text \<open>\<open>strcpy(buffer + cursor, t)\<close>: the bytes of \<open>t\<close> up to its NUL, and the NUL.\<close>

definition strcpy_at :: "string \<Rightarrow> nat \<Rightarrow> string \<Rightarrow> fault + string" where
  "strcpy_at buffer cursor t =
     (let bytes = c_str t @ [NUL]
      in if cursor + length bytes \<le> length buffer
         then Inr (take cursor buffer @ bytes @ drop (cursor + length bytes) buffer)
         else Inl Out_Of_Bounds)"

text \<open>\<open>alloc_printf\<close> for a format that yields \<open>t\<close>: measure, allocate, write.\<close>

definition alloc_printf :: "string \<Rightarrow> fault + string" where
  "alloc_printf t =
     (let len = fst (snprintf 0 t)
      in bind_result (strcpy_at (malloc_buffer (len + 1)) 0 t) (\<lambda>str. Inr (c_str str)))"

section \<open>The printer\<close>

text \<open>The first loop of \<open>print_expr_list\<close> adds up the lengths, the second one fills the buffer.\<close>

fun measure_loop :: "string list \<Rightarrow> nat \<Rightarrow> nat" where
  "measure_loop [] len = len"
| "measure_loop [t] len = len + length (c_str t)"
| "measure_loop (t # u # ts) len = measure_loop (u # ts) (len + length (c_str t) + 2)"

fun fill_loop :: "string list \<Rightarrow> string \<Rightarrow> nat \<Rightarrow> fault + string \<times> nat" where
  "fill_loop [] buffer cursor = Inr (buffer, cursor)"
| "fill_loop [t] buffer cursor =
     bind_result (strcpy_at buffer cursor t) (\<lambda>buffer. Inr (buffer, cursor + length (c_str t)))"
| "fill_loop (t # u # ts) buffer cursor =
     bind_result (strcpy_at buffer cursor t) (\<lambda>buffer.
     let cursor = cursor + length (c_str t)
     in bind_result (strcpy_at buffer cursor '', '') (\<lambda>buffer. fill_loop (u # ts) buffer (cursor + 2)))"

definition write_list :: "string list \<Rightarrow> fault + string" where
  "write_list strings =
     (let len = measure_loop strings 3
      in bind_result (strcpy_at (malloc_buffer len) 0 ''['') (\<lambda>buffer.
         bind_result (fill_loop strings buffer 1) (\<lambda>(buffer, cursor).
         bind_result (strcpy_at buffer cursor '']'') (\<lambda>result. Inr (c_str result)))))"

definition literal_text :: "declarations \<Rightarrow> object \<Rightarrow> fault + string" where
  "literal_text heap obj =
     (let len = fst (object_snprint heap 0 obj)
      in bind_result (strcpy_at (malloc_buffer (len + 1)) 0 (take len (OBJECT_PRINT heap obj))) (\<lambda>str.
         Inr (c_str str)))"

fun expr_accept_ast_printer :: "declarations \<Rightarrow> expr \<Rightarrow> fault + string"
and print_expr_list :: "declarations \<Rightarrow> expr list \<Rightarrow> fault + string list" where
  "expr_accept_ast_printer heap (EXPR_ASSIGN name v) =
     bind_result (case v of None \<Rightarrow> Inl Null_Dereference | Some e \<Rightarrow> expr_accept_ast_printer heap e) (\<lambda>t.
     alloc_printf (''(set '' @ t_lexeme name @ '' '' @ t @ '')''))"
| "expr_accept_ast_printer heap (EXPR_BINARY l op r) =
     bind_result (expr_accept_ast_printer heap l) (\<lambda>left.
     bind_result (expr_accept_ast_printer heap r) (\<lambda>right.
     alloc_printf (''('' @ t_lexeme op @ '' '' @ left @ '' '' @ right @ '')'')))"
| "expr_accept_ast_printer heap (EXPR_CALL callee paren arguments) =
     bind_result (expr_accept_ast_printer heap callee) (\<lambda>f.
     bind_result (bind_result (print_expr_list heap arguments) write_list) (\<lambda>list.
     alloc_printf (''(invoke '' @ f @ '' '' @ list @ '')'')))"
| "expr_accept_ast_printer heap (EXPR_GROUPING v) =
     bind_result (case v of None \<Rightarrow> Inl Null_Dereference | Some e \<Rightarrow> expr_accept_ast_printer heap e) (\<lambda>t.
     alloc_printf (''('' @ t @ '')''))"
| "expr_accept_ast_printer heap (EXPR_LITERAL obj) = literal_text heap obj"
| "expr_accept_ast_printer heap (EXPR_LOGICAL l op r) =
     bind_result (case l of None \<Rightarrow> Inl Null_Dereference | Some e \<Rightarrow> expr_accept_ast_printer heap e) (\<lambda>left.
     bind_result (case r of None \<Rightarrow> Inl Null_Dereference | Some e \<Rightarrow> expr_accept_ast_printer heap e) (\<lambda>right.
     alloc_printf (''('' @ (if t_type op = TOKEN_OR then ''or'' else ''and'') @ '' '' @ left @ '' '' @ right @ '')'')))"
| "expr_accept_ast_printer heap (EXPR_UNARY op e) =
     bind_result (expr_accept_ast_printer heap e) (\<lambda>right.
     alloc_printf (''('' @ t_lexeme op @ right @ '')''))"
| "expr_accept_ast_printer heap (EXPR_VARIABLE name) = Inr (t_lexeme name)"
| "print_expr_list heap [] = Inr []"
| "print_expr_list heap (e # es) =
     bind_result (expr_accept_ast_printer heap e) (\<lambda>t.
     bind_result (print_expr_list heap es) (\<lambda>ts. Inr (t # ts)))"

definition print_ast :: "declarations \<Rightarrow> expr \<Rightarrow> console \<Rightarrow> fault + console" where
  "print_ast heap e con =
     bind_result (expr_accept_ast_printer heap e) (\<lambda>t. Inr (print_out (t @ [newline]) con))"

section \<open>The reference\<close>

fun join :: "string \<Rightarrow> string list \<Rightarrow> string" where
  "join sep [] = []"
| "join sep [t] = t"
| "join sep (t # u # ts) = t @ sep @ join sep (u # ts)"

fun sexp :: "declarations \<Rightarrow> expr \<Rightarrow> string" where
  "sexp heap (EXPR_ASSIGN name v) =
     ''(set '' @ t_lexeme name @ '' '' @ (case v of None \<Rightarrow> [] | Some e \<Rightarrow> sexp heap e) @ '')''"
| "sexp heap (EXPR_BINARY l op r) = ''('' @ t_lexeme op @ '' '' @ sexp heap l @ '' '' @ sexp heap r @ '')''"
| "sexp heap (EXPR_CALL callee paren es) =
     ''(invoke '' @ sexp heap callee @ '' ['' @ join '', '' (map (sexp heap) es) @ ''])''"
| "sexp heap (EXPR_GROUPING v) = ''('' @ (case v of None \<Rightarrow> [] | Some e \<Rightarrow> sexp heap e) @ '')''"
| "sexp heap (EXPR_LITERAL obj) = OBJECT_PRINT heap obj"
| "sexp heap (EXPR_LOGICAL l op r) =
     ''('' @ (if t_type op = TOKEN_OR then ''or'' else ''and'') @ '' '' @
       (case l of None \<Rightarrow> [] | Some e \<Rightarrow> sexp heap e) @ '' '' @ (case r of None \<Rightarrow> [] | Some e \<Rightarrow> sexp heap e) @ '')''"
| "sexp heap (EXPR_UNARY op e) = ''('' @ t_lexeme op @ sexp heap e @ '')''"
| "sexp heap (EXPR_VARIABLE name) = t_lexeme name"

text \<open>The texts in the tree are C strings, without an embedded NUL.\<close>

fun texts_ok :: "declarations \<Rightarrow> expr \<Rightarrow> bool" where
  "texts_ok heap (EXPR_ASSIGN name v) =
     (no_nul (t_lexeme name) \<and> (case v of None \<Rightarrow> True | Some e \<Rightarrow> texts_ok heap e))"
| "texts_ok heap (EXPR_BINARY l op r) = (texts_ok heap l \<and> no_nul (t_lexeme op) \<and> texts_ok heap r)"
| "texts_ok heap (EXPR_CALL callee paren es) = (texts_ok heap callee \<and> list_all (texts_ok heap) es)"
| "texts_ok heap (EXPR_GROUPING v) = (case v of None \<Rightarrow> True | Some e \<Rightarrow> texts_ok heap e)"
| "texts_ok heap (EXPR_LITERAL obj) = no_nul (OBJECT_PRINT heap obj)"
| "texts_ok heap (EXPR_LOGICAL l op r) =
     ((case l of None \<Rightarrow> True | Some e \<Rightarrow> texts_ok heap e) \<and> (case r of None \<Rightarrow> True | Some e \<Rightarrow> texts_ok heap e))"
| "texts_ok heap (EXPR_UNARY op e) = (no_nul (t_lexeme op) \<and> texts_ok heap e)"
| "texts_ok heap (EXPR_VARIABLE name) = no_nul (t_lexeme name)"

section \<open>The buffers are large enough\<close>

lemma bind_result_simps [simp]: "bind_result (Inl e) f = Inl e" "bind_result (Inr x) f = f x"
  by (simp_all add: bind_result_def)

lemma c_str_append_NUL [simp]: "no_nul t \<Longrightarrow> c_str (t @ NUL # rest) = t"
  by (induction t) (auto simp: c_str_def)

lemma strcpy_at_end:
  assumes "no_nul t" and "length pre = cursor" and "length t < n"
  shows "strcpy_at (pre @ replicate n NUL) cursor t = Inr ((pre @ t) @ replicate (n - length t) NUL)"
  using assms by (auto simp: strcpy_at_def Let_def replicate_append_same simp flip: replicate_Suc)

lemma alloc_printf_ok: "no_nul t \<Longrightarrow> alloc_printf t = Inr t"
  using strcpy_at_end [of t "[]" 0 "length t + 1"]
  by (simp add: alloc_printf_def snprintf_def malloc_buffer_def del: replicate_Suc) simp

lemma literal_text_ok: "no_nul (OBJECT_PRINT heap obj) \<Longrightarrow> literal_text heap obj = Inr (OBJECT_PRINT heap obj)"
  using strcpy_at_end [of "OBJECT_PRINT heap obj" "[]" 0 "length (OBJECT_PRINT heap obj) + 1"]
  by (simp add: literal_text_def object_snprint_def snprintf_def malloc_buffer_def del: replicate_Suc) simp

lemma measure_loop_ok:
  "list_all no_nul ts \<Longrightarrow> measure_loop ts len = len + length (join '', '' ts)"
  by (induction ts len rule: measure_loop.induct) auto

lemma no_nul_join [simp]: "no_nul sep \<Longrightarrow> list_all no_nul ts \<Longrightarrow> no_nul (join sep ts)"
  by (induction sep ts rule: join.induct) auto

lemma fill_loop_ok:
  assumes "list_all no_nul ts" and "length pre = cursor" and "length (join '', '' ts) < n"
  shows "fill_loop ts (pre @ replicate n NUL) cursor =
    Inr ((pre @ join '', '' ts) @ replicate (n - length (join '', '' ts)) NUL, cursor + length (join '', '' ts))"
  using assms
proof (induction ts "pre @ replicate n NUL" cursor arbitrary: pre n rule: fill_loop.induct)
  case (2 t cursor)
  then show ?case using strcpy_at_end [of t pre cursor n] by simp
next
  case (3 t u ts cursor)
  let ?n = "n - length t"
  have a: "strcpy_at (pre @ replicate n NUL) cursor t = Inr ((pre @ t) @ replicate ?n NUL)"
    using 3 by (intro strcpy_at_end) auto
  have b: "strcpy_at ((pre @ t) @ replicate ?n NUL) (cursor + length t) '', '' =
      Inr (((pre @ t) @ '', '') @ replicate (?n - 2) NUL)"
    using 3 strcpy_at_end [of "'', ''" "pre @ t" "cursor + length t" ?n] by (simp add: NUL_def)
  have c: "fill_loop (u # ts) (((pre @ t) @ '', '') @ replicate (?n - 2) NUL) (cursor + length t + 2) =
      Inr ((((pre @ t) @ '', '') @ join '', '' (u # ts)) @ replicate (?n - 2 - length (join '', '' (u # ts))) NUL,
        cursor + length t + 2 + length (join '', '' (u # ts)))"
    using "3.hyps" [of "cursor + length t" "pre @ t @ '', ''" "?n - 2"] 3(2-) by simp
  show ?case using a b c 3(2) by (simp add: Let_def)
qed simp

lemma write_list_ok:
  assumes "list_all no_nul ts"
  shows "write_list ts = Inr (''['' @ join '', '' ts @ '']'')"
proof -
  let ?j = "join '', '' ts"
  let ?len = "3 + length ?j"
  have a: "strcpy_at (malloc_buffer ?len) 0 ''['' = Inr (''['' @ replicate (length ?j + 2) NUL)"
    using strcpy_at_end [of "''[''" "[]" 0 ?len] by (simp add: malloc_buffer_def NUL_def del: replicate_Suc)
  have b: "fill_loop ts (''['' @ replicate (length ?j + 2) NUL) 1 = Inr ((''['' @ ?j) @ replicate 2 NUL, 1 + length ?j)"
    using fill_loop_ok [OF assms, of "''[''" 1 "length ?j + 2"] by simp
  have c: "strcpy_at ((''['' @ ?j) @ replicate 2 NUL) (1 + length ?j) '']'' = Inr (((''['' @ ?j) @ '']'') @ replicate 1 NUL)"
    using strcpy_at_end [of "'']''" "''['' @ ?j" "1 + length ?j" 2] by (simp add: NUL_def del: replicate_Suc)
  have "no_nul ((''['' @ ?j) @ '']'')" using assms by (simp add: NUL_def)
  then have d: "c_str (((''['' @ ?j) @ '']'') @ replicate 1 NUL) = (''['' @ ?j) @ '']''"
    using c_str_append_NUL [of "(''['' @ ?j) @ '']''" "[]"] by simp
  show ?thesis
    unfolding write_list_def measure_loop_ok [OF assms] Let_def a bind_result_simps b prod.case c d
    by simp
qed

section \<open>The printer prints the reference\<close>

lemma no_nul_sexp: "texts_ok heap e \<Longrightarrow> no_nul (sexp heap e)"
proof (induction heap e rule: sexp.induct)
  case (3 heap callee paren es)
  then have "list_all no_nul (map (sexp heap) es)" by (auto simp: list_all_iff)
  with 3 show ?case by (simp add: NUL_def)
qed (auto simp: NUL_def split: option.splits)

lemma expr_accept_ast_printer_ok:
  "complete e \<Longrightarrow> texts_ok heap e \<Longrightarrow> expr_accept_ast_printer heap e = Inr (sexp heap e)"
  "list_all complete es \<Longrightarrow> list_all (texts_ok heap) es \<Longrightarrow> print_expr_list heap es = Inr (map (sexp heap) es)"
proof (induction heap e and heap es rule: expr_accept_ast_printer_print_expr_list.induct)
  case (1 heap name v)
  then obtain e where "v = Some e" by (auto split: option.splits)
  with 1 no_nul_sexp [of heap "EXPR_ASSIGN name v"] show ?case by (simp add: alloc_printf_ok)
next
  case (2 heap l op r)
  with no_nul_sexp [of heap "EXPR_BINARY l op r"] show ?case by (simp add: alloc_printf_ok)
next
  case (3 heap callee paren arguments)
  then have "list_all no_nul (map (sexp heap) arguments)" by (auto simp: list_all_iff no_nul_sexp)
  with 3 no_nul_sexp [of heap "EXPR_CALL callee paren arguments"] show ?case
    by (simp add: write_list_ok alloc_printf_ok)
next
  case (4 heap v)
  then obtain e where "v = Some e" by (auto split: option.splits)
  with 4 no_nul_sexp [of heap "EXPR_GROUPING v"] show ?case by (simp add: alloc_printf_ok)
next
  case (6 heap l op r)
  then obtain a b where "l = Some a" "r = Some b" by (auto split: option.splits)
  with 6 no_nul_sexp [of heap "EXPR_LOGICAL l op r"] show ?case by (simp add: alloc_printf_ok)
next
  case (7 heap op e)
  with no_nul_sexp [of heap "EXPR_UNARY op e"] show ?case by (simp add: alloc_printf_ok)
qed (simp_all add: literal_text_ok)

section \<open>Properties\<close>

text \<open>
  C37. The buffer of \<open>print_expr_list\<close> is exactly large enough: whatever the printed elements are,
  no \<open>strcpy\<close> writes outside it, and the result is the elements between brackets, separated by
  commas.
\<close>

theorem write_list_in_bounds:
  assumes "list_all no_nul ts"
  shows "write_list ts = Inr (''['' @ join '', '' ts @ '']'') \<and>
    measure_loop ts 3 = length (''['' @ join '', '' ts @ '']'') + 1"
  using write_list_ok [OF assms] measure_loop_ok [OF assms] by simp

theorem write_list_in_bounds_witness:
  "list_all no_nul [''a'', ''b''] \<and> write_list [''a'', ''b''] = Inr ''[a, b]''"
  using write_list_in_bounds [of "[''a'', ''b'']"] by (simp add: NUL_def)


text \<open>The expression of the test suite, \<open>1 + 2 * 3\<close>.\<close>

definition test_expr :: expr where
  "test_expr = EXPR_BINARY (EXPR_LITERAL (OBJECT_NUMBER (d_of_int 1)))
     \<lparr>t_type = TOKEN_PLUS, t_lexeme = ''+'', t_literal = OBJECT_NULL, t_line = 1\<rparr>
     (EXPR_BINARY (EXPR_LITERAL (OBJECT_NUMBER (d_of_int 2)))
       \<lparr>t_type = TOKEN_STAR, t_lexeme = ''*'', t_literal = OBJECT_NULL, t_line = 1\<rparr>
       (EXPR_LITERAL (OBJECT_NUMBER (d_of_int 3))))"

lemma test_numbers:
  "format_lg (d_of_int 1) = ''1'' \<and> format_lg (d_of_int 2) = ''2'' \<and> format_lg (d_of_int 3) = ''3''"
  by code_simp


end
