(* ===== verification/Cord.thy ===== *)
theory Cord
  imports Prelude
begin

text \<open>
  Cords, the immutable strings of the collector's string package: the representation, the
  concatenation, substring, iteration and balancing operations of
  \<open>gc-8.0.4/cord/cordbscs.c\<close>.

  A \<open>CORD\<close> is NULL (the empty cord), a pointer to a non-empty C string, or a pointer to a node
  whose first byte is NUL. The cases of the C union are the constructors of \<open>cord\<close>. A string
  stands for the bytes before its terminating NUL; the invalid cord that points to an empty C
  string is \<open>C_String []\<close>, and looking for a node header behind it reads out of bounds.

  Sizes are 64-bit: additions and subtractions of \<open>size_t\<close> wrap (\<open>size_add\<close>, \<open>size_sub\<close>). The
  \<open>depth\<close> byte of a node is a natural number, since depths stay below 128. The static tables
  of the balancing code are the state \<open>cord_globals\<close>; the elements of the local array \<open>forest\<close>
  that were not written yet are \<open>None\<close>, and reading them is a fault. Allocation succeeds.

  \<open>CORD_cat\<close> and \<open>CORD_balance\<close> call each other; a bound on the nesting of these calls is
  the first argument of both.
\<close>

section \<open>Sizes\<close>

definition SIZE :: nat where
  "SIZE = 2 ^ 64"

definition size_add :: "nat \<Rightarrow> nat \<Rightarrow> nat" where
  "size_add a b = (a + b) mod SIZE"

definition size_sub :: "nat \<Rightarrow> nat \<Rightarrow> nat" where
  "size_sub a b = (if b \<le> a then a - b else a + SIZE - b)"

section \<open>The representation\<close>

datatype fn_header = FN_HDR | SUBSTR_HDR

text \<open>
  \<open>Concatenation depth left_len len left right\<close> and \<open>Function header len fn\<close>. A function
  pointer comes with its client data: the \<open>substr_args\<close> (a cord and an index) for the two access
  functions of substrings.
\<close>

datatype cord =
    CORD_EMPTY
  | C_String string
  | Concatenation nat nat nat cord cord
  | Function fn_header nat cord_fn
and cord_fn =
    Client_fn "nat \<Rightarrow> char"
  | CORD_index_access_fn cord nat
  | CORD_apply_access_fn cord nat

definition MAX_LEFT_LEN :: nat where
  "MAX_LEFT_LEN = 255"

definition MAX_DEPTH :: nat where
  "MAX_DEPTH = 48"

text \<open>\<open>sizeof(CordRep) - 1\<close>, with pointers and words of 8 bytes.\<close>

definition SHORT_LIMIT :: nat where
  "SHORT_LIMIT = 31"

definition SUBSTR_LIMIT :: nat where
  "SUBSTR_LIMIT = 10 * SHORT_LIMIT"

fun CORD_IS_STRING :: "cord \<Rightarrow> ('s, bool) run" where
  "CORD_IS_STRING CORD_EMPTY = raise_fault Null_Dereference"
| "CORD_IS_STRING (C_String s) = ret (s \<noteq> [])"
| "CORD_IS_STRING _ = ret False"

fun IS_CONCATENATION :: "cord \<Rightarrow> ('s, bool) run" where
  "IS_CONCATENATION CORD_EMPTY = raise_fault Null_Dereference"
| "IS_CONCATENATION (C_String s) = raise_fault Out_Of_Bounds"
| "IS_CONCATENATION (Concatenation _ _ _ _ _) = ret True"
| "IS_CONCATENATION (Function _ _ _) = ret False"

fun LEN :: "cord \<Rightarrow> ('s, nat) run" where
  "LEN CORD_EMPTY = raise_fault Null_Dereference"
| "LEN (C_String s) = raise_fault Out_Of_Bounds"
| "LEN (Concatenation _ _ len _ _) = ret len"
| "LEN (Function _ len _) = ret len"

fun DEPTH :: "cord \<Rightarrow> ('s, nat) run" where
  "DEPTH CORD_EMPTY = raise_fault Null_Dereference"
| "DEPTH (C_String s) = raise_fault Out_Of_Bounds"
| "DEPTH (Concatenation depth _ _ _ _) = ret depth"
| "DEPTH (Function _ _ _) = ret 0"

fun strlen :: "cord \<Rightarrow> ('s, nat) run" where
  "strlen (C_String s) = ret (length s)"
| "strlen CORD_EMPTY = raise_fault Null_Dereference"
| "strlen _ = ret 0"

definition GEN_LEN :: "cord \<Rightarrow> ('s, nat) run" where
  "GEN_LEN x = andthen (CORD_IS_STRING x) (\<lambda>b. if b then strlen x else LEN x)"

definition LEFT_LEN :: "nat \<Rightarrow> nat \<Rightarrow> cord \<Rightarrow> cord \<Rightarrow> ('s, nat) run" where
  "LEFT_LEN left_len len left right =
     (if left_len \<noteq> 0 then ret left_len
      else andthen (CORD_IS_STRING left) (\<lambda>b.
        if b then andthen (GEN_LEN right) (\<lambda>n. ret (size_sub len n)) else LEN left))"

section \<open>Concatenation\<close>

text \<open>The node both functions end with: a new concatenation, balanced when it is too deep.\<close>

definition new_concatenation ::
  "(cord \<Rightarrow> ('s, cord) run) \<Rightarrow> nat \<Rightarrow> nat \<Rightarrow> nat \<Rightarrow> cord \<Rightarrow> cord \<Rightarrow> ('s, cord) run" where
  "new_concatenation balance depth lenx result_len x y =
     (let result = Concatenation depth (if lenx \<le> MAX_LEFT_LEN then lenx else 0) result_len x y
      in if MAX_DEPTH \<le> depth then balance result else ret result)"

text \<open>Merging a short string into the right end of a concatenation \<open>x\<close>, if its right part is a string.\<close>

definition merge_right ::
  "(cord \<Rightarrow> ('s, cord) run) \<Rightarrow> cord \<Rightarrow> nat \<Rightarrow> cord \<Rightarrow> nat \<Rightarrow> cord \<Rightarrow> string \<Rightarrow> string \<Rightarrow> nat \<Rightarrow> ('s, cord) run" where
  "merge_right balance x lenx left left_len right right_text y leny =
     andthen (CORD_IS_STRING left) (\<lambda>left_string.
     andthen (if \<not> left_string then andthen (LEN left) (\<lambda>n. ret (size_sub lenx n))
              else if left_len \<noteq> 0 then ret (size_sub lenx left_len)
              else strlen right) (\<lambda>right_len.
     if size_add right_len leny \<le> SHORT_LIMIT
     then andthen (if left_string then ret 1 else andthen (DEPTH left) (\<lambda>d. ret (d + 1))) (\<lambda>depth.
       new_concatenation balance depth (size_sub lenx right_len)
         (size_add (size_sub lenx right_len) (size_add right_len leny)) left
         (C_String (take right_len right_text @ take leny y)))
     else andthen (DEPTH x) (\<lambda>d.
       new_concatenation balance (d + 1) lenx (size_add lenx leny) x (C_String y))))"

definition CORD_cat_char_star_via ::
  "(cord \<Rightarrow> ('s, cord) run) \<Rightarrow> cord \<Rightarrow> string \<Rightarrow> nat \<Rightarrow> ('s, cord) run" where
  "CORD_cat_char_star_via balance x y leny =
     (case x of
        CORD_EMPTY \<Rightarrow> ret (C_String y)
      | _ \<Rightarrow>
          if leny = 0 then ret x
          else
            (case x of
               C_String s \<Rightarrow>
                 if s = [] then raise_fault Out_Of_Bounds
                 else if size_add (length s) leny \<le> SHORT_LIMIT then ret (C_String (s @ take leny y))
                 else new_concatenation balance 1 (length s) (size_add (length s) leny) x (C_String y)
             | Concatenation depth left_len lenx left right \<Rightarrow>
                 if leny \<le> SHORT_LIMIT div 2 then
                   andthen (CORD_IS_STRING right) (\<lambda>right_string.
                   case right of
                     C_String right_text \<Rightarrow>
                       if right_string then merge_right balance x lenx left left_len right right_text y leny
                       else new_concatenation balance (depth + 1) lenx (size_add lenx leny) x (C_String y)
                   | _ \<Rightarrow> new_concatenation balance (depth + 1) lenx (size_add lenx leny) x (C_String y))
                 else new_concatenation balance (depth + 1) lenx (size_add lenx leny) x (C_String y)
             | Function _ lenx _ \<Rightarrow>
                 new_concatenation balance 1 lenx (size_add lenx leny) x (C_String y)))"

definition CORD_cat_via :: "(cord \<Rightarrow> ('s, cord) run) \<Rightarrow> cord \<Rightarrow> cord \<Rightarrow> ('s, cord) run" where
  "CORD_cat_via balance x y =
     (case x of
        CORD_EMPTY \<Rightarrow> ret y
      | _ \<Rightarrow>
          (case y of
             CORD_EMPTY \<Rightarrow> ret x
           | C_String s \<Rightarrow>
               if s = [] then raise_fault Out_Of_Bounds
               else CORD_cat_char_star_via balance x s (length s)
           | _ \<Rightarrow>
               andthen (CORD_IS_STRING x) (\<lambda>x_string.
               andthen (if x_string then strlen x else LEN x) (\<lambda>lenx.
               andthen (DEPTH y) (\<lambda>depthy.
               andthen (if x_string then ret (depthy + 1)
                        else andthen (DEPTH x) (\<lambda>d. ret (if d + 1 \<le> depthy then depthy + 1 else d + 1))) (\<lambda>depth.
               andthen (LEN y) (\<lambda>leny.
               new_concatenation balance depth lenx (size_add lenx leny) x y)))))))"

section \<open>Balancing\<close>

record cord_globals =
  min_len :: "nat list"
  min_len_init :: bool
  CORD_max_len :: int

definition cord_globals_new :: cord_globals where
  "cord_globals_new = \<lparr>min_len = replicate MAX_DEPTH 0, min_len_init = False, CORD_max_len = 0\<rparr>"

record forest_element =
  fe_c :: "cord option"
  fe_len :: "nat option"

type_synonym forest = "forest_element list"

text \<open>The loop of \<open>CORD_init_min_len\<close>, with the entries still to write.\<close>

fun min_len_loop :: "nat \<Rightarrow> nat \<Rightarrow> nat \<Rightarrow> nat list \<times> nat" where
  "min_len_loop 0 previous final = ([], final)"
| "min_len_loop (Suc k) previous final =
     (let sum = size_add final previous;
          current = (if sum < final then final else sum);
          (entries, fin) = min_len_loop k final current
      in (current # entries, fin))"

definition CORD_init_min_len :: "(cord_globals, unit) run" where
  "CORD_init_min_len =
     modifies (\<lambda>g.
       let (entries, final) = min_len_loop (MAX_DEPTH - 2) 1 2
       in g\<lparr>min_len := 1 # 2 # entries, CORD_max_len := sint (word_of_nat final :: 32 word) - 1, min_len_init := True\<rparr>)"

definition min_len_at :: "nat \<Rightarrow> (cord_globals, nat) run" where
  "min_len_at i = (\<lambda>g. if i < length (min_len g) then Done g (min_len g ! i) else Fault Out_Of_Bounds)"

function CORD_init_forest :: "forest \<Rightarrow> nat \<Rightarrow> nat \<Rightarrow> (cord_globals, forest) run" where
  "CORD_init_forest forest max_len i =
     (if MAX_DEPTH \<le> i then raise_fault Abort_Called
      else
        andthen (min_len_at i) (\<lambda>m.
        let forest = forest[i := (forest ! i)\<lparr>fe_c := Some CORD_EMPTY\<rparr>]
        in if max_len < m then ret forest else CORD_init_forest forest max_len (i + 1)))"
  by pat_completeness auto
termination by (relation "measure (\<lambda>(forest, max_len, i). MAX_DEPTH - i)") auto

declare CORD_init_forest.simps [simp del]

definition read_field :: "'a option \<Rightarrow> ('s, 'a) run" where
  "read_field f = (case f of None \<Rightarrow> raise_fault Uninitialised_Read | Some x \<Rightarrow> ret x)"

definition is_empty :: "cord \<Rightarrow> bool" where
  "is_empty x = (case x of CORD_EMPTY \<Rightarrow> True | _ \<Rightarrow> False)"

text \<open>
  The body the loops over the forest share: \<open>if (forest[i].c != 0)\<close> prepend the tree of level \<open>i\<close>
  to the sum.
\<close>

definition add_level ::
  "(cord \<Rightarrow> cord \<Rightarrow> (cord_globals, cord) run) \<Rightarrow> forest \<Rightarrow> nat \<Rightarrow> cord \<Rightarrow> nat \<Rightarrow> (cord_globals, cord \<times> nat) run" where
  "add_level cat forest i acc acc_len =
     andthen (read_field (fe_c (forest ! i))) (\<lambda>c.
     if is_empty c then ret (acc, acc_len)
     else
       andthen (cat c acc) (\<lambda>acc.
       andthen (read_field (fe_len (forest ! i))) (\<lambda>len. ret (acc, size_add acc_len len))))"

definition clear_level :: "forest \<Rightarrow> nat \<Rightarrow> forest" where
  "clear_level forest i = forest[i := (forest ! i)\<lparr>fe_c := Some CORD_EMPTY\<rparr>]"

text \<open>\<open>while (len > min_len[i + 1])\<close> of \<open>CORD_add_forest\<close>.\<close>

function gather_shorter ::
  "(cord \<Rightarrow> cord \<Rightarrow> (cord_globals, cord) run) \<Rightarrow> nat \<Rightarrow> forest \<Rightarrow> nat \<Rightarrow> cord \<Rightarrow> nat \<Rightarrow>
     (cord_globals, forest \<times> nat \<times> cord \<times> nat) run" where
  "gather_shorter cat len forest i acc acc_len =
     (if MAX_DEPTH \<le> i + 1 then raise_fault Out_Of_Bounds
      else
        andthen (min_len_at (i + 1)) (\<lambda>m.
        if len \<le> m then ret (forest, i, acc, acc_len)
        else
          andthen (add_level cat forest i acc acc_len) (\<lambda>(acc, acc_len).
          gather_shorter cat len (clear_level forest i) (i + 1) acc acc_len)))"
  by pat_completeness auto
termination by (relation "measure (\<lambda>(cat, len, forest, i, acc, acc_len). MAX_DEPTH - i)") auto

declare gather_shorter.simps [simp del]

text \<open>\<open>while (sum_len >= min_len[i])\<close> of \<open>CORD_add_forest\<close>.\<close>

function carry_levels ::
  "(cord \<Rightarrow> cord \<Rightarrow> (cord_globals, cord) run) \<Rightarrow> forest \<Rightarrow> nat \<Rightarrow> cord \<Rightarrow> nat \<Rightarrow>
     (cord_globals, forest \<times> nat \<times> cord \<times> nat) run" where
  "carry_levels cat forest i acc acc_len =
     (if MAX_DEPTH \<le> i then raise_fault Out_Of_Bounds
      else
        andthen (min_len_at i) (\<lambda>m.
        if acc_len < m then ret (forest, i, acc, acc_len)
        else
          andthen (add_level cat forest i acc acc_len) (\<lambda>(acc, acc_len).
          carry_levels cat (clear_level forest i) (i + 1) acc acc_len)))"
  by pat_completeness auto
termination by (relation "measure (\<lambda>(cat, forest, i, acc, acc_len). MAX_DEPTH - i)") auto

declare carry_levels.simps [simp del]

definition CORD_add_forest ::
  "(cord \<Rightarrow> cord \<Rightarrow> (cord_globals, cord) run) \<Rightarrow> forest \<Rightarrow> cord \<Rightarrow> nat \<Rightarrow> (cord_globals, forest) run" where
  "CORD_add_forest cat forest x len =
     andthen (gather_shorter cat len forest 0 CORD_EMPTY 0) (\<lambda>(forest, i, acc, acc_len).
     andthen (cat acc x) (\<lambda>acc.
     andthen (carry_levels cat forest i acc (size_add acc_len len)) (\<lambda>(forest, i, acc, acc_len).
     if i = 0 then raise_fault Out_Of_Bounds
     else ret (forest[i - 1 := \<lparr>fe_c = Some acc, fe_len = Some acc_len\<rparr>]))))"

function CORD_concat_forest ::
  "(cord \<Rightarrow> cord \<Rightarrow> (cord_globals, cord) run) \<Rightarrow> forest \<Rightarrow> nat \<Rightarrow> nat \<Rightarrow> cord \<Rightarrow> nat \<Rightarrow> (cord_globals, cord) run" where
  "CORD_concat_forest cat forest expected_len i acc acc_len =
     (if acc_len = expected_len then ret acc
      else if MAX_DEPTH \<le> i then raise_fault Out_Of_Bounds
      else
        andthen (add_level cat forest i acc acc_len) (\<lambda>(acc, acc_len).
        CORD_concat_forest cat forest expected_len (i + 1) acc acc_len))"
  by pat_completeness auto
termination by (relation "measure (\<lambda>(cat, forest, expected_len, i, acc, acc_len). MAX_DEPTH - i)") auto

declare CORD_concat_forest.simps [simp del]

fun CORD_balance_insert ::
  "(cord \<Rightarrow> cord \<Rightarrow> (cord_globals, cord) run) \<Rightarrow> cord \<Rightarrow> nat \<Rightarrow> forest \<Rightarrow> (cord_globals, forest) run" where
  "CORD_balance_insert cat CORD_EMPTY len forest = raise_fault Null_Dereference"
| "CORD_balance_insert cat (C_String s) len forest =
     (if s = [] then raise_fault Out_Of_Bounds else CORD_add_forest cat forest (C_String s) len)"
| "CORD_balance_insert cat (Concatenation depth left_len clen left right) len forest =
     andthen (if MAX_DEPTH \<le> depth then ret True else andthen (min_len_at depth) (\<lambda>m. ret (len < m))) (\<lambda>unbalanced.
     if unbalanced then
       andthen (LEFT_LEN left_len clen left right) (\<lambda>n.
       andthen (CORD_balance_insert cat left n forest) (\<lambda>forest.
       CORD_balance_insert cat right (size_sub len n) forest))
     else CORD_add_forest cat forest (Concatenation depth left_len clen left right) len)"
| "CORD_balance_insert cat (Function h flen fn) len forest = CORD_add_forest cat forest (Function h flen fn) len"

definition forest_new :: forest where
  "forest_new = replicate MAX_DEPTH \<lparr>fe_c = None, fe_len = None\<rparr>"

text \<open>The body of \<open>CORD_balance\<close> for a node.\<close>

definition balance_node ::
  "(cord \<Rightarrow> cord \<Rightarrow> (cord_globals, cord) run) \<Rightarrow> cord \<Rightarrow> (cord_globals, cord) run" where
  "balance_node cat x =
     andthen (reads min_len_init) (\<lambda>initialised.
     andthen (if initialised then ret () else CORD_init_min_len) (\<lambda>_.
     andthen (LEN x) (\<lambda>len.
     andthen (CORD_init_forest forest_new len 0) (\<lambda>forest.
     andthen (CORD_balance_insert cat x len forest) (\<lambda>forest.
     CORD_concat_forest cat forest len 0 CORD_EMPTY 0)))))"

fun CORD_balance :: "nat \<Rightarrow> cord \<Rightarrow> (cord_globals, cord) run" where
  "CORD_balance n CORD_EMPTY = ret CORD_EMPTY"
| "CORD_balance n (C_String s) = (if s = [] then raise_fault Out_Of_Bounds else ret (C_String s))"
| "CORD_balance 0 x = exhaust"
| "CORD_balance (Suc n) x = balance_node (CORD_cat_via (CORD_balance n)) x"

definition CORD_cat :: "nat \<Rightarrow> cord \<Rightarrow> cord \<Rightarrow> (cord_globals, cord) run" where
  "CORD_cat n = CORD_cat_via (CORD_balance n)"

definition CORD_cat_char_star :: "nat \<Rightarrow> cord \<Rightarrow> string \<Rightarrow> nat \<Rightarrow> (cord_globals, cord) run" where
  "CORD_cat_char_star n = CORD_cat_char_star_via (CORD_balance n)"

section \<open>Function nodes\<close>

text \<open>The byte of a C string at an index; the terminating NUL is the last one.\<close>

definition byte_at :: "string \<Rightarrow> nat \<Rightarrow> ('s, char) run" where
  "byte_at s i =
     (if i < length s then ret (s ! i) else if i = length s then ret NUL else raise_fault Out_Of_Bounds)"

fun fn_call :: "cord_fn \<Rightarrow> nat \<Rightarrow> ('s, char) run" where
  "fn_call (Client_fn f) i = ret (f i)"
| "fn_call (CORD_index_access_fn (C_String s) k) i = byte_at s (size_add i k)"
| "fn_call (CORD_index_access_fn _ k) i = raise_fault Out_Of_Bounds"
| "fn_call (CORD_apply_access_fn (Function h len f) k) i = fn_call f (size_add i k)"
| "fn_call (CORD_apply_access_fn _ k) i = raise_fault Out_Of_Bounds"

text \<open>
  The loop that reads \<open>k\<close> characters from index \<open>i\<close> into a buffer: \<open>None\<close> when one of them is NUL.
\<close>

fun read_buf :: "cord_fn \<Rightarrow> nat \<Rightarrow> nat \<Rightarrow> ('s, string option) run" where
  "read_buf f i 0 = ret (Some [])"
| "read_buf f i (Suc k) =
     andthen (fn_call f i) (\<lambda>c.
     if c = NUL then ret None
     else andthen (read_buf f (i + 1) k) (\<lambda>r.
       case r of None \<Rightarrow> ret None | Some cs \<Rightarrow> ret (Some (c # cs))))"

definition CORD_from_fn_inner :: "fn_header \<Rightarrow> cord_fn \<Rightarrow> nat \<Rightarrow> ('s, cord) run" where
  "CORD_from_fn_inner header fn len =
     (if len = 0 then ret CORD_EMPTY
      else if len \<le> SHORT_LIMIT then
        andthen (read_buf fn 0 len) (\<lambda>r.
        case r of Some buf \<Rightarrow> ret (C_String buf) | None \<Rightarrow> ret (Function header len fn))
      else ret (Function header len fn))"

definition CORD_from_fn :: "cord_fn \<Rightarrow> nat \<Rightarrow> ('s, cord) run" where
  "CORD_from_fn fn len = CORD_from_fn_inner FN_HDR fn len"

definition CORD_len :: "cord \<Rightarrow> ('s, nat) run" where
  "CORD_len x = (if is_empty x then ret 0 else GEN_LEN x)"

section \<open>Substrings\<close>

definition CORD_substr_closure :: "cord \<Rightarrow> nat \<Rightarrow> nat \<Rightarrow> (cord \<Rightarrow> nat \<Rightarrow> cord_fn) \<Rightarrow> ('s, cord) run" where
  "CORD_substr_closure x i n f = CORD_from_fn_inner SUBSTR_HDR (f x i) n"

text \<open>\<open>strncpy\<close> of \<open>n\<close> bytes from \<open>x + i\<close>, terminated.\<close>

definition copy_substring :: "string \<Rightarrow> nat \<Rightarrow> nat \<Rightarrow> ('s, cord) run" where
  "copy_substring s i n = (if length s < i then raise_fault Out_Of_Bounds else ret (C_String (take n (drop i s))))"

definition substr_function :: "fn_header \<Rightarrow> nat \<Rightarrow> cord_fn \<Rightarrow> nat \<Rightarrow> nat \<Rightarrow> ('s, cord) run" where
  "substr_function header len fn i n =
     (let x = Function header len fn
      in if SUBSTR_LIMIT < n then
           (case (header, fn) of
              (SUBSTR_HDR, CORD_index_access_fn c k) \<Rightarrow> CORD_substr_closure c (size_add i k) n CORD_index_access_fn
            | (SUBSTR_HDR, CORD_apply_access_fn c k) \<Rightarrow> CORD_substr_closure c (size_add i k) n CORD_apply_access_fn
            | (SUBSTR_HDR, Client_fn f) \<Rightarrow> raise_fault Out_Of_Bounds
            | (FN_HDR, _) \<Rightarrow> CORD_substr_closure x i n CORD_apply_access_fn)
         else
           andthen (read_buf fn i n) (\<lambda>r.
           case r of
             Some buf \<Rightarrow> ret (C_String buf)
           | None \<Rightarrow> CORD_substr_closure x i n CORD_apply_access_fn))"

fun CORD_substr_checked ::
  "(cord \<Rightarrow> cord \<Rightarrow> ('s, cord) run) \<Rightarrow> cord \<Rightarrow> nat \<Rightarrow> nat \<Rightarrow> ('s, cord) run" where
  "CORD_substr_checked cat CORD_EMPTY i n = raise_fault Null_Dereference"
| "CORD_substr_checked cat (C_String s) i n =
     (if s = [] then raise_fault Out_Of_Bounds
      else if SUBSTR_LIMIT < n then CORD_substr_closure (C_String s) i n CORD_index_access_fn
      else copy_substring s i n)"
| "CORD_substr_checked cat (Concatenation depth ll len left right) i n =
     andthen (LEFT_LEN ll len left right) (\<lambda>left_len.
     let right_len = size_sub len left_len
     in if left_len \<le> i then
          (if n = right_len then ret right else CORD_substr_checked cat right (size_sub i left_len) n)
        else if size_add i n \<le> left_len then
          (if n = left_len then ret left else CORD_substr_checked cat left i n)
        else
          andthen (if i = 0 then ret left
                   else CORD_substr_checked cat left i (size_sub left_len i)) (\<lambda>left_part.
          andthen (if size_add i n = size_add right_len left_len then ret right
                   else CORD_substr_checked cat right 0 (size_sub n (size_sub left_len i))) (\<lambda>right_part.
          cat left_part right_part)))"
| "CORD_substr_checked cat (Function header len fn) i n = substr_function header len fn i n"

definition CORD_substr_via ::
  "(cord \<Rightarrow> cord \<Rightarrow> ('s, cord) run) \<Rightarrow> cord \<Rightarrow> nat \<Rightarrow> nat \<Rightarrow> ('s, cord) run" where
  "CORD_substr_via cat x i n =
     andthen (CORD_len x) (\<lambda>len.
     if len \<le> i \<or> n = 0 then ret CORD_EMPTY
     else CORD_substr_checked cat x i (if len < size_add i n then len - i else n))"

definition CORD_substr :: "nat \<Rightarrow> cord \<Rightarrow> nat \<Rightarrow> nat \<Rightarrow> (cord_globals, cord) run" where
  "CORD_substr k = CORD_substr_via (CORD_cat k)"

section \<open>Iteration\<close>

text \<open>
  The callbacks work on their client data: \<open>f1\<close> and \<open>f2\<close> return a non-zero number to stop.
\<close>

fun string_iter :: "(char \<Rightarrow> ('d, int) run) \<Rightarrow> string \<Rightarrow> ('d, int) run" where
  "string_iter f1 [] = ret 0"
| "string_iter f1 (c # cs) = andthen (f1 c) (\<lambda>r. if r \<noteq> 0 then ret 1 else string_iter f1 cs)"

text \<open>\<open>k\<close> characters of a function node from index \<open>j\<close>.\<close>

fun function_iter :: "(char \<Rightarrow> ('d, int) run) \<Rightarrow> cord_fn \<Rightarrow> nat \<Rightarrow> nat \<Rightarrow> ('d, int) run" where
  "function_iter f1 fn j 0 = ret 0"
| "function_iter f1 fn j (Suc k) =
     andthen (fn_call fn j) (\<lambda>c.
     andthen (f1 c) (\<lambda>r. if r \<noteq> 0 then ret 1 else function_iter f1 fn (j + 1) k))"

fun CORD_iter5 ::
  "cord \<Rightarrow> nat \<Rightarrow> (char \<Rightarrow> ('d, int) run) \<Rightarrow> (string \<Rightarrow> ('d, int) run) option \<Rightarrow> ('d, int) run" where
  "CORD_iter5 CORD_EMPTY i f1 f2 = ret 0"
| "CORD_iter5 (C_String s) i f1 f2 =
     (if s = [] then raise_fault Out_Of_Bounds
      else
        andthen (byte_at s i) (\<lambda>c.
        if c = NUL then raise_fault Abort_Called
        else (case f2 of Some f \<Rightarrow> f (drop i s) | None \<Rightarrow> string_iter f1 (drop i s))))"
| "CORD_iter5 (Concatenation depth ll len left right) i f1 f2 =
     andthen (if 0 < i then andthen (LEFT_LEN ll len left right) (\<lambda>left_len.
                ret (if left_len \<le> i then Some left_len else None))
              else ret None) (\<lambda>skip_left.
     case skip_left of
       Some left_len \<Rightarrow> CORD_iter5 right (size_sub i left_len) f1 f2
     | None \<Rightarrow>
         andthen (CORD_iter5 left i f1 f2) (\<lambda>r. if r \<noteq> 0 then ret 1 else CORD_iter5 right 0 f1 f2))"
| "CORD_iter5 (Function header len fn) i f1 f2 = function_iter f1 fn i (len - i)"

definition CORD_iter :: "cord \<Rightarrow> (char \<Rightarrow> ('d, int) run) \<Rightarrow> ('d, int) run" where
  "CORD_iter x f1 = CORD_iter5 x 0 f1 None"

fun string_riter :: "(char \<Rightarrow> ('d, int) run) \<Rightarrow> string \<Rightarrow> nat \<Rightarrow> ('d, int) run" where
  "string_riter f1 s i =
     andthen (byte_at s i) (\<lambda>c.
     if c = NUL then raise_fault Abort_Called
     else andthen (f1 c) (\<lambda>r.
       if r \<noteq> 0 then ret 1 else (case i of 0 \<Rightarrow> ret 0 | Suc j \<Rightarrow> string_riter f1 s j)))"

declare string_riter.simps [simp del]

fun function_riter :: "(char \<Rightarrow> ('d, int) run) \<Rightarrow> cord_fn \<Rightarrow> nat \<Rightarrow> ('d, int) run" where
  "function_riter f1 fn j =
     andthen (fn_call fn j) (\<lambda>c.
     andthen (f1 c) (\<lambda>r.
       if r \<noteq> 0 then ret 1 else (case j of 0 \<Rightarrow> ret 0 | Suc j' \<Rightarrow> function_riter f1 fn j')))"

declare function_riter.simps [simp del]

fun CORD_riter4 :: "cord \<Rightarrow> nat \<Rightarrow> (char \<Rightarrow> ('d, int) run) \<Rightarrow> ('d, int) run" where
  "CORD_riter4 CORD_EMPTY i f1 = ret 0"
| "CORD_riter4 (C_String s) i f1 =
     (if s = [] then raise_fault Out_Of_Bounds else string_riter f1 s i)"
| "CORD_riter4 (Concatenation depth ll len left right) i f1 =
     andthen (LEFT_LEN ll len left right) (\<lambda>left_len.
     if left_len \<le> i then
       andthen (CORD_riter4 right (size_sub i left_len) f1) (\<lambda>r.
       if r \<noteq> 0 then ret 1 else CORD_riter4 left (size_sub left_len 1) f1)
     else CORD_riter4 left i f1)"
| "CORD_riter4 (Function header len fn) i f1 = function_riter f1 fn i"

definition CORD_riter :: "cord \<Rightarrow> (char \<Rightarrow> ('d, int) run) \<Rightarrow> ('d, int) run" where
  "CORD_riter x f1 =
     andthen (CORD_len x) (\<lambda>len. if len = 0 then ret 0 else CORD_riter4 x (len - 1) f1)"

end
