(* ===== verification/Cord_Concatenation.thy ===== *)
theory Cord_Concatenation
  imports Cord
begin

text \<open>
  What a cord stands for (\<open>chars\<close>), when it is well formed (\<open>cord_wf\<close>: stored lengths, left lengths
  and depths are the real ones, children are not empty, strings have no NUL, substring nodes stay
  inside the cord they refer to), and the contract of concatenation before any balancing: the
  result is well formed and stands for the two texts one after the other (\<open>joined\<close>).
\<close>

section \<open>The text of a cord\<close>

fun fn_char :: "cord_fn \<Rightarrow> nat \<Rightarrow> char" where
  "fn_char (Client_fn f) i = f i"
| "fn_char (CORD_index_access_fn (C_String s) k) i = s ! (i + k)"
| "fn_char (CORD_index_access_fn _ k) i = NUL"
| "fn_char (CORD_apply_access_fn (Function h len f) k) i = fn_char f (i + k)"
| "fn_char (CORD_apply_access_fn _ k) i = NUL"

fun chars :: "cord \<Rightarrow> string" where
  "chars CORD_EMPTY = []"
| "chars (C_String s) = s"
| "chars (Concatenation _ _ _ left right) = chars left @ chars right"
| "chars (Function _ len fn) = map (fn_char fn) [0..<len]"

fun dep :: "cord \<Rightarrow> nat" where
  "dep (Concatenation depth _ _ _ _) = depth"
| "dep _ = 0"

fun cord_wf :: "cord \<Rightarrow> bool"
and fn_wf :: "nat \<Rightarrow> cord_fn \<Rightarrow> bool" where
  "cord_wf CORD_EMPTY = True"
| "cord_wf (C_String s) = (s \<noteq> [] \<and> no_nul s \<and> length s < SIZE)"
| "cord_wf (Concatenation depth left_len len left right) =
     (cord_wf left \<and> cord_wf right \<and> \<not> is_empty left \<and> \<not> is_empty right \<and>
      depth = Suc (max (dep left) (dep right)) \<and>
      len = length (chars left) + length (chars right) \<and> len < SIZE \<and>
      left_len = (if length (chars left) \<le> MAX_LEFT_LEN then length (chars left) else 0))"
| "cord_wf (Function h len fn) =
     (0 < len \<and> len < SIZE \<and> fn_wf len fn \<and>
      (h = SUBSTR_HDR \<longrightarrow> (case fn of Client_fn _ \<Rightarrow> False | _ \<Rightarrow> True)))"
| "fn_wf len (Client_fn f) = True"
| "fn_wf len (CORD_index_access_fn c k) =
     (case c of C_String s \<Rightarrow> cord_wf c \<and> k + len \<le> length s | _ \<Rightarrow> False)"
| "fn_wf len (CORD_apply_access_fn c k) =
     (case c of Function h clen f \<Rightarrow> cord_wf c \<and> k + len \<le> clen | _ \<Rightarrow> False)"

lemma andthen_ret [simp]: "andthen (ret x) f = f x"
  by (simp add: run_defs)

lemma is_empty_simps [simp]:
  "is_empty CORD_EMPTY" "\<not> is_empty (C_String s)" "\<not> is_empty (Concatenation d ll n l r)" "\<not> is_empty (Function h n f)"
  by (simp_all add: is_empty_def)

lemma is_empty_iff: "is_empty x \<longleftrightarrow> x = CORD_EMPTY"
  by (cases x) simp_all

lemma chars_empty: "cord_wf x \<Longrightarrow> chars x = [] \<longleftrightarrow> is_empty x"
  by (induction x rule: chars.induct) auto

lemma chars_pos: "cord_wf x \<Longrightarrow> \<not> is_empty x \<Longrightarrow> 0 < length (chars x)"
  using chars_empty by auto

lemma length_chars: "cord_wf x \<Longrightarrow> length (chars x) < SIZE"
  by (cases x) (auto simp: SIZE_def)

lemma size_add_small [simp]: "a + b < SIZE \<Longrightarrow> size_add a b = a + b"
  by (simp add: size_add_def)

lemma size_sub_small [simp]: "b \<le> a \<Longrightarrow> size_sub a b = a - b"
  by (simp add: size_sub_def)

section \<open>Stored lengths\<close>

definition is_string :: "cord \<Rightarrow> bool" where
  "is_string x = (case x of C_String _ \<Rightarrow> True | _ \<Rightarrow> False)"

lemma header_wf:
  assumes "cord_wf x" and "\<not> is_empty x"
  shows "CORD_IS_STRING x = ret (is_string x)"
    and "\<not> is_string x \<Longrightarrow> LEN x = ret (length (chars x))"
    and "\<not> is_string x \<Longrightarrow> DEPTH x = ret (dep x)"
    and "is_string x \<Longrightarrow> strlen x = ret (length (chars x))"
    and "is_string x \<Longrightarrow> dep x = 0"
  using assms by (cases x; simp add: is_string_def)+

lemma GEN_LEN_wf [simp]: "cord_wf x \<Longrightarrow> \<not> is_empty x \<Longrightarrow> GEN_LEN x = ret (length (chars x))"
  by (cases x) (simp_all add: GEN_LEN_def)

lemma CORD_len_wf: "cord_wf x \<Longrightarrow> CORD_len x = ret (length (chars x))"
  using GEN_LEN_wf by (cases "is_empty x") (auto simp: CORD_len_def is_empty_iff)

lemma LEFT_LEN_wf:
  assumes "cord_wf (Concatenation d ll n l r)"
  shows "LEFT_LEN ll n l r = ret (length (chars l))"
proof (cases "ll = 0")
  case True
  with assms show ?thesis by (cases l) (auto simp: LEFT_LEN_def)
next
  case False
  with assms show ?thesis by (auto simp: LEFT_LEN_def split: if_splits)
qed

section \<open>Concatenation\<close>

definition joined :: "cord \<Rightarrow> cord \<Rightarrow> cord \<Rightarrow> bool" where
  "joined x y z \<longleftrightarrow>
     cord_wf z \<and> chars z = chars x @ chars y \<and> dep z \<le> Suc (max (dep x) (dep y)) \<and>
     (is_empty x \<longrightarrow> z = y) \<and> (is_empty y \<longrightarrow> z = x)"

text \<open>The outcome of a concatenation: the node itself, or the balanced node when it is too deep.\<close>

definition joins :: "(cord \<Rightarrow> ('s, cord) run) \<Rightarrow> cord \<Rightarrow> cord \<Rightarrow> ('s, cord) run \<Rightarrow> bool" where
  "joins bal x y m \<longleftrightarrow>
     (\<exists>z. joined x y z \<and>
       (m = ret z \<and> (dep z < MAX_DEPTH \<or> z = x \<or> z = y) \<or>
        m = bal z \<and> MAX_DEPTH \<le> dep z \<and> \<not> is_empty x \<and> \<not> is_empty y))"

lemma joins_node:
  assumes "cord_wf l" and "cord_wf r" and "\<not> is_empty l" and "\<not> is_empty r"
    and "length (chars l) + length (chars r) < SIZE"
    and "chars l @ chars r = chars x @ chars y" and "\<not> is_empty x" and "\<not> is_empty y"
    and "d = Suc (max (dep l) (dep r))" and "max (dep l) (dep r) \<le> max (dep x) (dep y)"
    and "n = length (chars l)" and "k = length (chars l) + length (chars r)"
  shows "joins bal x y (new_concatenation bal d n k l r)"
proof -
  let ?z = "Concatenation d (if n \<le> MAX_LEFT_LEN then n else 0) k l r"
  have "joined x y ?z"
    using assms by (simp add: joined_def)
  moreover have "dep ?z = d" by simp
  ultimately show ?thesis
    using assms(7,8) by (simp only: joins_def new_concatenation_def Let_def) (metis linorder_not_le)
qed

lemma joins_ret: "joined x y z \<Longrightarrow> dep z < MAX_DEPTH \<or> z = x \<or> z = y \<Longrightarrow> joins bal x y (ret z)"
  by (auto simp: joins_def)

lemma merge_right_joins:
  assumes "cord_wf (Concatenation d ll n l (C_String s))" and "y \<noteq> []" and "no_nul y"
    and "n + length y < SIZE"
  shows "joins bal (Concatenation d ll n l (C_String s)) (C_String y)
    (merge_right bal (Concatenation d ll n l (C_String s)) n l ll (C_String s) s y (length y))"
    (is "joins bal ?x ?y (merge_right _ _ _ _ _ ?r _ _ _)")
proof -
  note wf = assms(1) [simplified]
  have l: "cord_wf l" "\<not> is_empty l" and n: "n = length (chars l) + length s" using wf by auto
  have rlen: "(if \<not> is_string l then andthen (LEN l) (\<lambda>k. ret (size_sub n k))
      else if ll \<noteq> 0 then ret (size_sub n ll) else strlen ?r) = ret (length s)"
    using wf by (simp add: header_wf(2) [OF l])
  have dep: "(if is_string l then ret 1 else andthen (DEPTH l) (\<lambda>d. ret (d + 1))) = ret (Suc (dep l))"
    by (simp add: header_wf(3,5) [OF l])
  have "joins bal ?x ?y (new_concatenation bal (Suc (dep l)) (length (chars l))
      (length (chars l) + (length s + length y)) l (C_String (s @ y)))"
    using wf assms(2-4) by (intro joins_node) (auto simp: SIZE_def)
  moreover have "joins bal ?x ?y (new_concatenation bal (d + 1) n (n + length y) ?x ?y)"
    using assms by (intro joins_node) auto
  moreover have "merge_right bal ?x n l ll ?r s y (length y) =
      (if length s + length y \<le> SHORT_LIMIT
       then new_concatenation bal (Suc (dep l)) (length (chars l)) (length (chars l) + (length s + length y)) l (C_String (s @ y))
       else new_concatenation bal (d + 1) n (n + length y) ?x ?y)"
    unfolding merge_right_def header_wf(1) [OF l] andthen_ret rlen dep using n assms(4) by simp
  ultimately show ?thesis by simp
qed

lemma CORD_cat_char_star_joins:
  assumes "cord_wf x" and "y \<noteq> []" and "no_nul y" and "length (chars x) + length y < SIZE"
  shows "joins bal x (C_String y) (CORD_cat_char_star_via bal x y (length y))"
proof (cases x)
  case CORD_EMPTY
  with assms show ?thesis by (auto simp: CORD_cat_char_star_via_def joined_def intro!: joins_ret)
next
  case (C_String s)
  have "joins bal x (C_String y) (new_concatenation bal 1 (length s) (length s + length y) x (C_String y))"
    using assms C_String by (intro joins_node) auto
  with C_String assms show ?thesis
    by (auto simp: CORD_cat_char_star_via_def joined_def MAX_DEPTH_def intro!: joins_ret)
next
  case (Concatenation d ll n l r)
  have "joins bal x (C_String y) (new_concatenation bal (d + 1) n (n + length y) x (C_String y))"
    using assms Concatenation by (intro joins_node) auto
  with Concatenation assms merge_right_joins [of d ll n l _ y bal] show ?thesis
    by (cases r) (auto simp: CORD_cat_char_star_via_def)
next
  case (Function h n f)
  have "joins bal x (C_String y) (new_concatenation bal 1 n (n + length y) x (C_String y))"
    using assms Function by (intro joins_node) auto
  with Function assms show ?thesis by (simp add: CORD_cat_char_star_via_def)
qed

text \<open>Both arguments are nodes or the left one is a string.\<close>

lemma CORD_cat_node_joins:
  assumes "cord_wf x" and "\<not> is_empty x" and "cord_wf y" and "\<not> is_empty y" and "\<nexists>s. y = C_String s"
    and "length (chars x) + length (chars y) < SIZE"
  shows "joins bal x y (CORD_cat_via bal x y)"
proof -
  have depth: "(if Suc (dep x) \<le> dep y then dep y + 1 else dep x + 1) = Suc (max (dep x) (dep y))"
    by simp
  have y: "\<not> is_string y" using assms(5) by (cases y) (auto simp: is_string_def)
  have "CORD_cat_via bal x y =
      andthen (CORD_IS_STRING x) (\<lambda>x_string.
      andthen (if x_string then strlen x else LEN x) (\<lambda>lenx.
      andthen (DEPTH y) (\<lambda>depthy.
      andthen (if x_string then ret (depthy + 1)
               else andthen (DEPTH x) (\<lambda>d. ret (if d + 1 \<le> depthy then depthy + 1 else d + 1))) (\<lambda>depth.
      andthen (LEN y) (\<lambda>leny.
      new_concatenation bal depth lenx (size_add lenx leny) x y)))))"
    using assms(2,4,5) by (cases x; cases y) (simp_all add: CORD_cat_via_def)
  then have "CORD_cat_via bal x y =
      new_concatenation bal (Suc (max (dep x) (dep y))) (length (chars x)) (length (chars x) + length (chars y)) x y"
    by (cases "is_string x")
       (simp_all add: header_wf [OF assms(1,2)] header_wf [OF assms(3,4)] y assms(6) depth)
  moreover have "joins bal x y
      (new_concatenation bal (Suc (max (dep x) (dep y))) (length (chars x)) (length (chars x) + length (chars y)) x y)"
    using assms by (intro joins_node) auto
  ultimately show ?thesis by simp
qed

lemma CORD_cat_joins:
  assumes "cord_wf x" and "cord_wf y" and "length (chars x) + length (chars y) < SIZE"
  shows "joins bal x y (CORD_cat_via bal x y)"
proof -
  consider "is_empty x" | "\<not> is_empty x" "is_empty y" | s where "\<not> is_empty x" "y = C_String s"
    | "\<not> is_empty x" "\<not> is_empty y" "\<nexists>s. y = C_String s"
    by blast
  then show ?thesis
  proof cases
    case 1
    with assms show ?thesis by (auto simp: is_empty_iff CORD_cat_via_def joined_def intro!: joins_ret)
  next
    case 2
    with assms show ?thesis
      by (cases x) (auto simp: is_empty_iff CORD_cat_via_def joined_def intro!: joins_ret)
  next
    case 3
    with assms CORD_cat_char_star_joins [of x s bal] show ?thesis
      by (cases x) (auto simp: CORD_cat_via_def)
  next
    case 4
    with assms show ?thesis by (intro CORD_cat_node_joins)
  qed
qed

lemma CORD_cat_shallow:
  assumes "cord_wf x" and "cord_wf y" and "length (chars x) + length (chars y) < SIZE"
    and "Suc (max (dep x) (dep y)) < MAX_DEPTH"
  shows "\<exists>z. CORD_cat_via bal x y = ret z \<and> joined x y z"
  using CORD_cat_joins [OF assms(1-3), of bal] assms(4) by (auto simp: joins_def joined_def)

end
