(* ===== verification/Cord_Balance.thy ===== *)
theory Cord_Balance
  imports Cord_Concatenation
begin

text \<open>
  The balancing of cords. The table of minimal lengths is a Fibonacci sequence (\<open>mlen\<close>); the forest
  keeps, level by level, trees whose length is at least the entry of their level and whose depth
  exceeds the level by at most two. From these invariants: for cords shorter than \<open>mlen 45\<close>
  (2971215073 characters) the balancing terminates without ever balancing recursively, stays inside
  its two arrays, reads no uninitialised element of the forest, keeps the text, and returns a tree of
  logarithmic depth.
\<close>

section \<open>The table of minimal lengths\<close>

fun mlen :: "nat \<Rightarrow> nat" where
  "mlen 0 = 1"
| "mlen (Suc 0) = 2"
| "mlen (Suc (Suc n)) = mlen (Suc n) + mlen n"

lemma mlen_pos [simp]: "0 < mlen i"
  by (induction i rule: mlen.induct) auto

lemma mlen_less_Suc: "mlen i < mlen (Suc i)"
  by (cases i) auto

lemma mlen_Suc_le: "mlen (Suc i) \<le> 2 * mlen i"
  by (induction i rule: mlen.induct) auto

lemma mlen_strict: "i < j \<Longrightarrow> mlen i < mlen j"
  by (rule lift_Suc_mono_less [of mlen]) (simp add: mlen_less_Suc)

lemma mlen_less_iff [simp]: "mlen i < mlen j \<longleftrightarrow> i < j"
  using mlen_strict by (metis linorder_neqE_nat order_less_asym order_less_irrefl)

lemma mlen_le_iff [simp]: "mlen i \<le> mlen j \<longleftrightarrow> i \<le> j"
  using mlen_less_iff linorder_not_le by metis

lemma mlen_less_SIZE: "i < MAX_DEPTH \<Longrightarrow> mlen i < SIZE"
proof -
  have "mlen i \<le> 2 ^ Suc i" for i by (induction i rule: mlen.induct) auto
  moreover assume "i < MAX_DEPTH"
  then have "(2::nat) ^ Suc i \<le> 2 ^ 48" by (intro power_increasing) (auto simp: MAX_DEPTH_def)
  ultimately show ?thesis by (rule le_less_trans [OF order_trans]) (simp add: SIZE_def)
qed

lemma min_len_loop_mlen:
  "Suc i + k < MAX_DEPTH \<Longrightarrow>
   min_len_loop k (mlen i) (mlen (Suc i)) = (map mlen [Suc (Suc i)..<Suc (Suc (i + k))], mlen (Suc (i + k)))"
proof (induction k arbitrary: i)
  case (Suc k)
  then have "size_add (mlen (Suc i)) (mlen i) = mlen (Suc (Suc i))"
    using mlen_less_SIZE [of "Suc (Suc i)"] by simp
  with Suc show ?case
    using mlen_less_Suc [of "Suc i"] by (simp add: upt_conv_Cons del: mlen.simps upt_Suc)
qed simp

definition ready :: "cord_globals \<Rightarrow> bool" where
  "ready g \<longleftrightarrow> min_len g = map mlen [0..<MAX_DEPTH]"

definition globals_ok :: "cord_globals \<Rightarrow> bool" where
  "globals_ok g \<longleftrightarrow> (min_len_init g \<longrightarrow> ready g)"

lemma min_len_loop_table: "min_len_loop (MAX_DEPTH - 2) 1 2 = (map mlen [2..<MAX_DEPTH], mlen 47)"
  using min_len_loop_mlen [of 0 46] by (simp add: MAX_DEPTH_def numeral_2_eq_2 del: upt_rec_numeral)

lemma CORD_init_min_len_ready:
  "\<exists>g'. CORD_init_min_len g = Done g' () \<and> ready g' \<and> min_len_init g'"
proof -
  note min_len_loop_table
  moreover have "1 # 2 # map mlen [2..<MAX_DEPTH] = map mlen [0..<MAX_DEPTH]"
  proof -
    have "[0..<MAX_DEPTH] = 0 # 1 # [2..<MAX_DEPTH]" by code_simp
    then show ?thesis by simp
  qed
  ultimately show ?thesis
    by (simp add: CORD_init_min_len_def modifies_def ready_def)
qed

lemma min_len_at_ready: "ready g \<Longrightarrow> i < MAX_DEPTH \<Longrightarrow> andthen (min_len_at i) f g = f (mlen i) g"
  by (simp add: min_len_at_def andthen_def ready_def)

section \<open>The forest\<close>

definition tree :: "forest \<Rightarrow> nat \<Rightarrow> cord" where
  "tree fo j = (case fe_c (fo ! j) of None \<Rightarrow> CORD_EMPTY | Some c \<Rightarrow> c)"

definition level_ok :: "forest \<Rightarrow> nat \<Rightarrow> bool" where
  "level_ok fo j \<longleftrightarrow>
     fe_c (fo ! j) \<noteq> None \<and> cord_wf (tree fo j) \<and>
     (\<not> is_empty (tree fo j) \<longrightarrow>
        fe_len (fo ! j) = Some (length (chars (tree fo j))) \<and>
        mlen j \<le> length (chars (tree fo j)) \<and> dep (tree fo j) \<le> j + 2)"

definition forest_ok :: "nat \<Rightarrow> forest \<Rightarrow> bool" where
  "forest_ok M fo \<longleftrightarrow>
     length fo = MAX_DEPTH \<and>
     (\<forall>j < MAX_DEPTH. if mlen j \<le> M then level_ok fo j else is_empty (tree fo j))"

text \<open>The text of the levels from \<open>i\<close> up, the highest first.\<close>

definition upper :: "forest \<Rightarrow> nat \<Rightarrow> string" where
  "upper fo i = concat (map (\<lambda>j. chars (tree fo j)) (rev [i..<MAX_DEPTH]))"

definition cleared :: "forest \<Rightarrow> nat \<Rightarrow> bool" where
  "cleared fo i \<longleftrightarrow> (\<forall>j < i. is_empty (tree fo j))"

lemma forest_okD: "forest_ok M fo \<Longrightarrow> j < MAX_DEPTH \<Longrightarrow> mlen j \<le> M \<Longrightarrow> level_ok fo j"
  by (auto simp: forest_ok_def)

lemma upper_Suc: "i < MAX_DEPTH \<Longrightarrow> upper fo i = upper fo (Suc i) @ chars (tree fo i)"
  by (simp add: upper_def upt_conv_Cons)

lemma upper_update: "i < k \<Longrightarrow> upper (fo[i := e]) k = upper fo k"
  unfolding upper_def by (rule arg_cong [where f = concat], rule map_cong) (auto simp: tree_def)

lemma upper_cleared: "cleared fo i \<Longrightarrow> i \<le> MAX_DEPTH \<Longrightarrow> upper fo 0 = upper fo i"
proof (induction i)
  case (Suc i)
  then have "upper fo 0 = upper fo i" and "is_empty (tree fo i)" by (auto simp: cleared_def)
  with upper_Suc [of i fo] Suc.prems show ?case by (simp add: is_empty_iff)
qed simp

lemma tree_update: "tree (fo[i := e]) j = (if i = j \<and> j < length fo then tree [e] 0 else tree fo j)"
  by (cases "i = j") (simp_all add: tree_def list_update_beyond)

lemma tree_clear: "tree (clear_level fo i) j = (if i = j \<and> j < length fo then CORD_EMPTY else tree fo j)"
  by (simp add: clear_level_def tree_update) (simp add: tree_def)

lemma forest_ok_update:
  assumes "forest_ok M fo"
    and "i < MAX_DEPTH \<Longrightarrow> length fo = MAX_DEPTH \<Longrightarrow>
      if mlen i \<le> M then level_ok (fo[i := e]) i else is_empty (tree (fo[i := e]) i)"
  shows "forest_ok M (fo[i := e])"
  unfolding forest_ok_def
proof (intro conjI allI impI)
  show "length (fo[i := e]) = MAX_DEPTH" using assms(1) by (simp add: forest_ok_def)
  fix j assume j: "j < MAX_DEPTH"
  show "if mlen j \<le> M then level_ok (fo[i := e]) j else is_empty (tree (fo[i := e]) j)"
  proof (cases "i = j")
    case False
    then have "level_ok (fo[i := e]) j = level_ok fo j" by (simp add: level_ok_def tree_update)
    with False assms(1) j show ?thesis by (simp add: forest_ok_def tree_update)
  next
    case True
    with assms(2) [unfolded True] assms(1) j show ?thesis by (auto simp: forest_ok_def)
  qed
qed

lemma clear_level_ok: "forest_ok M fo \<Longrightarrow> forest_ok M (clear_level fo i)"
  unfolding clear_level_def by (rule forest_ok_update) (simp_all add: level_ok_def tree_def)

lemma cleared_clear: "cleared fo i \<Longrightarrow> length fo = MAX_DEPTH \<Longrightarrow> i < MAX_DEPTH \<Longrightarrow> cleared (clear_level fo i) (Suc i)"
  by (auto simp: cleared_def tree_clear less_Suc_eq)

lemma store_level_ok:
  assumes "forest_ok M fo" and "cord_wf c" and "mlen j \<le> length (chars c)" and "length (chars c) \<le> M"
    and "dep c \<le> j + 2"
  shows "forest_ok M (fo[j := \<lparr>fe_c = Some c, fe_len = Some (length (chars c))\<rparr>])"
  using assms by (intro forest_ok_update) (auto simp: level_ok_def tree_def)

lemma upper_store:
  assumes "cleared fo (Suc j)" and "j < MAX_DEPTH" and "length fo = MAX_DEPTH"
  shows "upper (fo[j := \<lparr>fe_c = Some c, fe_len = l\<rparr>]) 0 = upper fo (Suc j) @ chars c"
proof -
  let ?fo = "fo[j := \<lparr>fe_c = Some c, fe_len = l\<rparr>]"
  have "cleared ?fo j" using assms by (auto simp: cleared_def tree_update)
  then have "upper ?fo 0 = upper ?fo (Suc j) @ chars (tree ?fo j)"
    using upper_cleared [of ?fo j] upper_Suc assms(2) by simp
  with assms(2,3) show ?thesis by (simp add: upper_update tree_update) (simp add: tree_def)
qed

section \<open>The loops over the forest\<close>

text \<open>The depth of the sum while \<open>CORD_add_forest\<close> gathers the shorter trees, and afterwards.\<close>

definition gathered :: "nat \<Rightarrow> cord \<Rightarrow> bool" where
  "gathered i acc \<longleftrightarrow>
     dep acc \<le> i + 1 \<or> (0 < i \<and> dep acc \<le> i + 2 \<and> mlen (i - 1) \<le> length (chars acc))"

definition carried :: "nat \<Rightarrow> cord \<Rightarrow> bool" where
  "carried i acc \<longleftrightarrow>
     mlen i \<le> length (chars acc) \<and> dep acc \<le> i + 2 \<or>
     mlen (Suc i) \<le> length (chars acc) \<and> dep acc \<le> i + 3 \<or>
     0 < i \<and> length (chars acc) < mlen i \<and> mlen (i - 1) \<le> length (chars acc) \<and> dep acc \<le> i + 1"

lemma gathered_Suc:
  assumes "joined (tree fo i) acc z" and "level_ok fo i" and "gathered i acc"
  shows "gathered (Suc i) z"
  using assms by (cases "is_empty (tree fo i)") (auto simp: gathered_def joined_def level_ok_def)

lemma carried_Suc:
  assumes "joined (tree fo i) acc z" and "level_ok fo i" and "carried i acc" and "mlen i \<le> length (chars acc)"
  shows "carried (Suc i) z"
proof (cases "is_empty (tree fo i)")
  case True
  with assms have "z = acc" by (simp add: joined_def)
  with assms(3,4) show ?thesis by (auto simp: carried_def)
next
  case False
  with assms(1,2) have "length (chars z) = length (chars (tree fo i)) + length (chars acc)"
      "dep z \<le> Suc (max (i + 2) (dep acc))" "mlen i \<le> length (chars (tree fo i))"
    by (auto simp: joined_def level_ok_def)
  with assms(3,4) mlen_Suc_le [of i] show ?thesis by (auto simp: carried_def)
qed

text \<open>
  What the loops rely on: a concatenation that returns a node for arguments whose result is not too
  deep.
\<close>

locale shallow_cat =
  fixes cat :: "cord \<Rightarrow> cord \<Rightarrow> (cord_globals, cord) run"
  assumes cat_shallow:
    "\<lbrakk>cord_wf x; cord_wf y; length (chars x) + length (chars y) < SIZE; Suc (max (dep x) (dep y)) < MAX_DEPTH\<rbrakk> \<Longrightarrow>
     \<exists>z. cat x y = ret z \<and> joined x y z"
begin

lemma add_level_joins:
  assumes "level_ok fo i" and "cord_wf acc" and "length (chars (tree fo i)) + length (chars acc) < SIZE"
    and "is_empty (tree fo i) \<or> Suc (max (dep (tree fo i)) (dep acc)) < MAX_DEPTH"
  shows "\<exists>z. add_level cat fo i acc (length (chars acc)) = ret (z, length (chars z)) \<and> joined (tree fo i) acc z"
proof -
  obtain c where c: "fe_c (fo ! i) = Some c" and t: "tree fo i = c"
    using assms(1) by (auto simp: level_ok_def tree_def)
  show ?thesis
  proof (cases "is_empty c")
    case True
    with c t assms(2) show ?thesis
      by (intro exI [of _ acc]) (auto simp: add_level_def read_field_def joined_def is_empty_iff)
  next
    case False
    then obtain z where "cat c acc = ret z" "joined c acc z"
      using cat_shallow [of c acc] assms t by (auto simp: level_ok_def)
    moreover from False have "fe_len (fo ! i) = Some (length (chars c))"
      using assms(1) t by (simp add: level_ok_def)
    ultimately show ?thesis
      using c t assms(3) False by (intro exI [of _ z]) (auto simp: add_level_def read_field_def joined_def add.commute)
  qed
qed

lemma gather_shorter_ok:
  assumes "ready g" and "M < mlen 45" and "forest_ok M fo" and "cleared fo i" and "cord_wf acc" and "gathered i acc"
    and "length (upper fo i) + length (chars acc) + len \<le> M" and "i = 0 \<or> mlen i < len"
  shows "\<exists>fo' i' acc'. gather_shorter cat len fo i acc (length (chars acc)) g = Done g (fo', i', acc', length (chars acc')) \<and>
    forest_ok M fo' \<and> cleared fo' i' \<and> cord_wf acc' \<and> gathered i' acc' \<and>
    upper fo' i' @ chars acc' = upper fo i @ chars acc \<and> len \<le> mlen (Suc i') \<and> (i' = 0 \<or> mlen i' < len)"
  using assms
proof (induction k \<equiv> "MAX_DEPTH - i" arbitrary: i fo acc rule: less_induct)
  case less
  have i: "i < 45" using less.prems(2,7,8) le_less_trans [of "mlen i" M "mlen 45"] by auto
  have M: "M < SIZE" using less.prems(2) mlen_less_SIZE [of 45] by (simp add: MAX_DEPTH_def)
  show ?case
  proof (cases "len \<le> mlen (Suc i)")
    case True
    with less.prems i show ?thesis
      by (subst gather_shorter.simps) (auto simp: min_len_at_ready MAX_DEPTH_def ret_def)
  next
    case False
    then have Suc_i: "Suc i < 45"
      using less.prems(2,7) le_less_trans [of "mlen (Suc i)" M "mlen 45"] by auto
    have lev: "level_ok fo i"
    proof (rule forest_okD [OF less.prems(3)])
      show "mlen i \<le> M" using mlen_less_Suc [of i] False less.prems(7) by linarith
    qed (use i in \<open>simp add: MAX_DEPTH_def\<close>)
    have upper: "upper fo i = upper fo (Suc i) @ chars (tree fo i)"
      using i by (intro upper_Suc) (simp add: MAX_DEPTH_def)
    obtain z where z: "add_level cat fo i acc (length (chars acc)) = ret (z, length (chars z))" "joined (tree fo i) acc z"
      using add_level_joins [OF lev less.prems(5)] less.prems(6,7) lev Suc_i upper M
      by (force simp: level_ok_def gathered_def MAX_DEPTH_def)
    have eq: "gather_shorter cat len fo i acc (length (chars acc)) g =
        gather_shorter cat len (clear_level fo i) (Suc i) z (length (chars z)) g"
      using less.prems(1) i False by (subst gather_shorter.simps) (simp add: min_len_at_ready MAX_DEPTH_def z(1))
    have up: "upper (clear_level fo i) (Suc i) @ chars z = upper fo i @ chars acc"
      using upper z(2) by (simp add: clear_level_def upper_update joined_def)
    then have "length (upper (clear_level fo i) (Suc i)) + length (chars z) = length (upper fo i) + length (chars acc)"
      by (metis length_append)
    then show ?thesis
      using less.hyps [of "Suc i" "clear_level fo i" z] less.prems i False z(2) up eq
        gathered_Suc [OF z(2) lev less.prems(6)] clear_level_ok [OF less.prems(3)] cleared_clear [OF less.prems(4)]
      by (simp add: joined_def forest_ok_def MAX_DEPTH_def)
  qed
qed

lemma carry_levels_ok:
  assumes "ready g" and "M < mlen 45" and "forest_ok M fo" and "cleared fo i" and "cord_wf acc" and "carried i acc"
    and "length (upper fo i) + length (chars acc) \<le> M"
  shows "\<exists>fo' i' acc'. carry_levels cat fo i acc (length (chars acc)) g = Done g (fo', Suc i', acc', length (chars acc')) \<and>
    forest_ok M fo' \<and> cleared fo' (Suc i') \<and> cord_wf acc' \<and> upper fo' (Suc i') @ chars acc' = upper fo i @ chars acc \<and>
    mlen i' \<le> length (chars acc') \<and> dep acc' \<le> i' + 2"
  using assms
proof (induction k \<equiv> "MAX_DEPTH - i" arbitrary: i fo acc rule: less_induct)
  case less
  have M: "M < SIZE" using less.prems(2) mlen_less_SIZE [of 45] by (simp add: MAX_DEPTH_def)
  have below_45: "j < 45" if "mlen j \<le> length (chars acc)" for j
    using that less.prems(2,7) le_less_trans [of "mlen j" M "mlen 45"] by auto
  show ?case
  proof (cases "length (chars acc) < mlen i")
    case True
    then obtain j where j: "i = Suc j" "mlen j \<le> length (chars acc)" "dep acc \<le> j + 2"
      using less.prems(6) mlen_less_Suc [of i] by (cases i) (auto simp: carried_def)
    with True less.prems below_45 [OF j(2)] show ?thesis
      by (subst carry_levels.simps) (auto simp: min_len_at_ready MAX_DEPTH_def ret_def)
  next
    case False
    then have i: "i < 45" using below_45 [of i] by simp
    have lev: "level_ok fo i"
      by (rule forest_okD [OF less.prems(3)]) (use i False less.prems(7) in \<open>auto simp: MAX_DEPTH_def\<close>)
    have upper: "upper fo i = upper fo (Suc i) @ chars (tree fo i)"
      using i by (intro upper_Suc) (simp add: MAX_DEPTH_def)
    have "is_empty (tree fo i) \<or> Suc (max (dep (tree fo i)) (dep acc)) < MAX_DEPTH"
    proof (cases "is_empty (tree fo i)")
      case nonempty: False
      with lev have "dep (tree fo i) \<le> i + 2" by (simp add: level_ok_def)
      moreover have "dep acc \<le> 46"
        using less.prems(6) False below_45 [of i] below_45 [of "Suc i"] by (auto simp: carried_def)
      ultimately show ?thesis using i by (simp add: MAX_DEPTH_def)
    qed simp
    then obtain z where z: "add_level cat fo i acc (length (chars acc)) = ret (z, length (chars z))" "joined (tree fo i) acc z"
      using add_level_joins [OF lev less.prems(5)] less.prems(7) upper M by auto
    have eq: "carry_levels cat fo i acc (length (chars acc)) g =
        carry_levels cat (clear_level fo i) (Suc i) z (length (chars z)) g"
      using less.prems(1) i False by (subst carry_levels.simps) (simp add: min_len_at_ready MAX_DEPTH_def z(1))
    have up: "upper (clear_level fo i) (Suc i) @ chars z = upper fo i @ chars acc"
      using upper z(2) by (simp add: clear_level_def upper_update joined_def)
    then have "length (upper (clear_level fo i) (Suc i)) + length (chars z) = length (upper fo i) + length (chars acc)"
      by (metis length_append)
    then show ?thesis
      using less.hyps [of "Suc i" "clear_level fo i" z] less.prems i False z(2) up eq
        carried_Suc [OF z(2) lev less.prems(6)] clear_level_ok [OF less.prems(3)] cleared_clear [OF less.prems(4)]
      by (simp add: joined_def forest_ok_def MAX_DEPTH_def)
  qed
qed

lemma CORD_add_forest_ok:
  assumes "ready g" and "M < mlen 45" and "forest_ok M fo" and "cord_wf x" and "mlen (dep x) \<le> length (chars x)"
    and "length (upper fo 0) + length (chars x) \<le> M"
  shows "\<exists>fo'. CORD_add_forest cat fo x (length (chars x)) g = Done g fo' \<and> forest_ok M fo' \<and>
    upper fo' 0 = upper fo 0 @ chars x"
proof -
  have M: "M < SIZE" using assms(2) mlen_less_SIZE [of 45] by (simp add: MAX_DEPTH_def)
  obtain fo1 i acc where g1: "gather_shorter cat (length (chars x)) fo 0 CORD_EMPTY 0 g = Done g (fo1, i, acc, length (chars acc))"
      "forest_ok M fo1" "cleared fo1 i" "cord_wf acc" "gathered i acc" "upper fo1 i @ chars acc = upper fo 0"
      "length (chars x) \<le> mlen (Suc i)" "i = 0 \<or> mlen i < length (chars x)"
    using gather_shorter_ok [OF assms(1-3), of 0 CORD_EMPTY "length (chars x)"] assms(6)
    by (auto simp: cleared_def gathered_def)
  have dx: "dep x \<le> Suc i" using assms(5) g1(7) by (metis mlen_le_iff order_trans)
  have i: "i < 45" using g1(8) assms(2,6) le_less_trans [of "mlen i" M "mlen 45"] by auto
  have da: "dep acc \<le> i + 2" using g1(5) by (auto simp: gathered_def)
  have len: "length (upper fo1 i) + length (chars acc) = length (upper fo 0)"
    using g1(6) by (metis length_append)
  obtain z where z: "cat acc x = ret z" "joined acc x z"
  proof -
    have "i = 0 \<or> Suc i < 46" using i by simp
    then show ?thesis using cat_shallow [of acc x] g1(4) assms(4,6) len M dx da i that by (force simp: MAX_DEPTH_def)
  qed
  have mi: "mlen i \<le> length (chars x)"
    using g1(8) assms(5) mlen_le_iff [of 0 "dep x"] by (auto simp del: mlen_le_iff)
  have "carried i z"
  proof (cases "is_empty acc")
    case True
    with z(2) have "z = x" by (simp add: joined_def)
    with dx mi show ?thesis by (simp add: carried_def)
  next
    case False
    have "length (chars z) = length (chars acc) + length (chars x)" "dep z \<le> Suc (max (dep acc) (dep x))"
      using z(2) by (auto simp: joined_def)
    moreover have "mlen (Suc i) = mlen i + mlen (i - 1)" if "0 < i" using that by (cases i) simp_all
    ultimately show ?thesis using g1(5,8) dx mi by (auto simp: gathered_def carried_def)
  qed
  moreover have zlen: "length (chars z) = length (chars acc) + length (chars x)" using z(2) by (simp add: joined_def)
  ultimately obtain fo2 j w where g2: "carry_levels cat fo1 i z (length (chars z)) g = Done g (fo2, Suc j, w, length (chars w))"
      "forest_ok M fo2" "cleared fo2 (Suc j)" "cord_wf w" "upper fo2 (Suc j) @ chars w = upper fo1 i @ chars z"
      "mlen j \<le> length (chars w)" "dep w \<le> j + 2"
    using carry_levels_ok [OF assms(1,2) g1(2,3), of z] z(2) len assms(6) by (auto simp: joined_def)
  have wlen: "length (upper fo2 (Suc j)) + length (chars w) \<le> M"
    using arg_cong [OF g2(5), of length] zlen len assms(6) by simp
  then have j: "j < 45" using g2(6) assms(2) le_less_trans [of "mlen j" M "mlen 45"] by auto
  have "CORD_add_forest cat fo x (length (chars x)) g =
      Done g (fo2[j := \<lparr>fe_c = Some w, fe_len = Some (length (chars w))\<rparr>])"
    using g1(1) g2(1) len assms(6) M zlen
    by (simp add: CORD_add_forest_def andthen_def z(1)) (simp add: ret_def)
  moreover have "upper fo2 (Suc j) @ chars w = upper fo 0 @ chars x"
    using g2(5) g1(6) z(2) by (simp add: joined_def)
  moreover have "j < MAX_DEPTH" "length fo2 = MAX_DEPTH" using j g2(2) by (simp_all add: forest_ok_def MAX_DEPTH_def)
  ultimately show ?thesis
    using store_level_ok [OF g2(2,4,6) _ g2(7)] wlen upper_store [OF g2(3)] by simp
qed

lemma CORD_balance_insert_ok:
  assumes "ready g" and "M < mlen 45" and "forest_ok M fo" and "cord_wf x" and "\<not> is_empty x"
    and "length (upper fo 0) + length (chars x) \<le> M"
  shows "\<exists>fo'. CORD_balance_insert cat x (length (chars x)) fo g = Done g fo' \<and> forest_ok M fo' \<and>
    upper fo' 0 = upper fo 0 @ chars x"
  using assms(3-)
proof (induction x arbitrary: fo rule: chars.induct)
  case (2 s)
  with CORD_add_forest_ok [OF assms(1,2), of fo "C_String s"] show ?case by (auto simp: Suc_le_eq)
next
  case (4 h n f)
  with CORD_add_forest_ok [OF assms(1,2), of fo "Function h n f"] show ?case by auto
next
  case (3 d ll n l r)
  note wf = "3.prems"(2)
  let ?len = "length (chars l) + length (chars r)"
  have test: "andthen (if MAX_DEPTH \<le> d then ret True else andthen (min_len_at d) (\<lambda>m. ret (?len < m))) f g =
      f (MAX_DEPTH \<le> d \<or> ?len < mlen d) g" for f :: "bool \<Rightarrow> (cord_globals, forest) run"
    using min_len_at_ready [OF assms(1), of d "\<lambda>m. ret (?len < m)"]
    by (cases "MAX_DEPTH \<le> d") (simp_all add: andthen_run ret_def)
  show ?case
  proof (cases "MAX_DEPTH \<le> d \<or> ?len < mlen d")
    case True
    obtain fo1 where fo1: "CORD_balance_insert cat l (length (chars l)) fo g = Done g fo1" "forest_ok M fo1"
        "upper fo1 0 = upper fo 0 @ chars l"
      using "3.IH"(1) [of fo] "3.prems" by auto
    obtain fo2 where fo2: "CORD_balance_insert cat r (length (chars r)) fo1 g = Done g fo2" "forest_ok M fo2"
        "upper fo2 0 = upper fo1 0 @ chars r"
      using "3.IH"(2) [of fo1] fo1(2,3) "3.prems" by auto
    have "CORD_balance_insert cat (Concatenation d ll n l r) ?len fo g = Done g fo2"
      unfolding CORD_balance_insert.simps LEFT_LEN_wf [OF wf] test
      using True by (simp add: andthen_run fo1(1) fo2(1))
    with fo2 fo1(3) show ?thesis by simp
  next
    case False
    then obtain fo1 where "CORD_add_forest cat fo (Concatenation d ll n l r) ?len g = Done g fo1" "forest_ok M fo1"
        "upper fo1 0 = upper fo 0 @ chars l @ chars r"
      using CORD_add_forest_ok [OF assms(1,2) "3.prems"(1) wf] "3.prems"(4) by auto
    moreover have "CORD_balance_insert cat (Concatenation d ll n l r) ?len fo g =
        CORD_add_forest cat fo (Concatenation d ll n l r) ?len g"
      unfolding CORD_balance_insert.simps test using False by simp
    ultimately show ?thesis by simp
  qed
qed simp_all

lemma upper_beyond:
  assumes "forest_ok M fo" and "i < MAX_DEPTH \<longrightarrow> M < mlen i"
  shows "upper fo i = []"
proof -
  have "chars (tree fo j) = []" if "j \<in> set [i..<MAX_DEPTH]" for j
  proof -
    from that have "j < MAX_DEPTH" "mlen i \<le> mlen j" and "M < mlen i" using assms(2) by auto
    then have "\<not> mlen j \<le> M" by linarith
    with \<open>j < MAX_DEPTH\<close> assms(1) have "is_empty (tree fo j)" by (auto simp: forest_ok_def)
    then show ?thesis by (simp add: is_empty_iff)
  qed
  then show ?thesis by (simp add: upper_def)
qed

lemma CORD_concat_forest_ok:
  assumes "M < mlen 45" and "forest_ok M fo" and "cord_wf acc" and "length (upper fo i) + length (chars acc) = M"
    and "is_empty acc \<or> (\<exists>j<i. mlen j \<le> M \<and> dep acc \<le> j + 3)"
  shows "\<exists>z. CORD_concat_forest cat fo M i acc (length (chars acc)) = ret z \<and> cord_wf z \<and>
    chars z = upper fo i @ chars acc \<and> (is_empty z \<or> (\<exists>j. mlen j \<le> M \<and> dep z \<le> j + 3))"
  using assms
proof (induction k \<equiv> "MAX_DEPTH - i" arbitrary: i acc rule: less_induct)
  case less
  show ?case
  proof (cases "length (chars acc) = M")
    case True
    with less.prems show ?thesis by (subst CORD_concat_forest.simps) auto
  next
    case False
    then have "upper fo i \<noteq> []" using less.prems(4) by auto
    then have "i < MAX_DEPTH" and mi: "mlen i \<le> M"
      using upper_beyond [OF less.prems(2), of i] linorder_not_le by blast+
    have M: "M < SIZE" using less.prems(1) mlen_less_SIZE [of 45] by (simp add: MAX_DEPTH_def)
    have i: "i < 45" using mi less.prems(1) le_less_trans [of "mlen i" M "mlen 45"] by auto
    have lev: "level_ok fo i" by (rule forest_okD [OF less.prems(2) \<open>i < MAX_DEPTH\<close> mi])
    have upper: "upper fo i = upper fo (Suc i) @ chars (tree fo i)"
      by (rule upper_Suc [OF \<open>i < MAX_DEPTH\<close>])
    have da: "dep acc \<le> i + 2" using less.prems(5) by (auto simp: is_empty_iff)
    have "is_empty (tree fo i) \<or> Suc (max (dep (tree fo i)) (dep acc)) < MAX_DEPTH"
      using lev da i by (auto simp: level_ok_def MAX_DEPTH_def)
    then obtain z where z: "add_level cat fo i acc (length (chars acc)) = ret (z, length (chars z))" "joined (tree fo i) acc z"
      using add_level_joins [OF lev less.prems(3)] less.prems(4) upper M by auto
    have "is_empty z \<or> (\<exists>j<Suc i. mlen j \<le> M \<and> dep z \<le> j + 3)"
    proof (cases "is_empty (tree fo i)")
      case True
      with z(2) less.prems(5) show ?thesis by (auto simp: joined_def less_Suc_eq)
    next
      case False
      with z(2) lev da have "dep z \<le> i + 3" by (auto simp: joined_def level_ok_def)
      with mi show ?thesis by blast
    qed
    moreover have "CORD_concat_forest cat fo M i acc (length (chars acc)) =
        CORD_concat_forest cat fo M (Suc i) z (length (chars z))"
      using False \<open>i < MAX_DEPTH\<close> by (subst CORD_concat_forest.simps) (simp add: z(1))
    ultimately show ?thesis
      using less.hyps [of "Suc i" z] less.prems z(2) \<open>i < MAX_DEPTH\<close> upper by (simp add: joined_def)
  qed
qed

end

lemma CORD_init_forest_ok:
  assumes "ready g" and "M < mlen 45" and "i \<le> 45" and "length fo = MAX_DEPTH"
    and "\<forall>j<MAX_DEPTH. is_empty (tree fo j)" and "\<forall>j<i. fe_c (fo ! j) \<noteq> None"
  shows "\<exists>fo'. CORD_init_forest fo M i g = Done g fo' \<and> forest_ok M fo' \<and> upper fo' 0 = []"
  using assms
proof (induction k \<equiv> "MAX_DEPTH - i" arbitrary: i fo rule: less_induct)
  case less
  let ?fo = "fo[i := (fo ! i)\<lparr>fe_c := Some CORD_EMPTY\<rparr>]"
  have i: "i < MAX_DEPTH" using less.prems(3) by (simp add: MAX_DEPTH_def)
  have fo: "length ?fo = MAX_DEPTH" "\<forall>j<MAX_DEPTH. is_empty (tree ?fo j)" "\<forall>j<Suc i. fe_c (?fo ! j) \<noteq> None"
    using less.prems(4-6) i by (auto simp: tree_update less_Suc_eq nth_list_update) (simp add: tree_def)
  show ?case
  proof (cases "M < mlen i")
    case True
    have "forest_ok M ?fo"
      unfolding forest_ok_def
    proof (intro conjI allI impI)
      fix j assume "j < MAX_DEPTH"
      moreover have "j < Suc i" if "mlen j \<le> M" using that True mlen_less_iff [of j i] by linarith
      ultimately show "if mlen j \<le> M then level_ok ?fo j else is_empty (tree ?fo j)"
        using fo by (auto simp: level_ok_def is_empty_iff)
    qed (rule fo(1))
    moreover have "upper ?fo 0 = []" using fo(2) by (auto simp: upper_def is_empty_iff)
    moreover have "CORD_init_forest fo M i g = Done g ?fo"
      using less.prems(1) i True by (subst CORD_init_forest.simps) (simp add: min_len_at_ready ret_def)
    ultimately show ?thesis by blast
  next
    case False
    then have "i < 45" using less.prems(2) le_less_trans [of "mlen i" M "mlen 45"] by auto
    moreover have "CORD_init_forest fo M i g = CORD_init_forest ?fo M (Suc i) g"
      using less.prems(1) i False by (subst CORD_init_forest.simps) (simp add: min_len_at_ready)
    ultimately show ?thesis using less.hyps [of "Suc i" ?fo] less.prems(1,2) fo i by simp
  qed
qed

section \<open>Balancing and concatenation\<close>

context shallow_cat
begin

lemma balance_node_ok:
  assumes "globals_ok g" and "cord_wf x" and "\<not> is_empty x" and "\<not> is_string x" and "length (chars x) < mlen 45"
  shows "\<exists>g' z. balance_node cat x g = Done g' z \<and> globals_ok g' \<and> cord_wf z \<and> chars z = chars x \<and>
    mlen (dep z - 3) \<le> length (chars x)"
proof -
  let ?M = "length (chars x)"
  obtain g1 where g1: "(if min_len_init g then ret () else CORD_init_min_len) g = Done g1 ()" "ready g1" "min_len_init g1"
    using assms(1) CORD_init_min_len_ready [of g]
    by (cases "min_len_init g") (auto simp: globals_ok_def ret_def)
  obtain fo where fo: "CORD_init_forest forest_new ?M 0 g1 = Done g1 fo" "forest_ok ?M fo" "upper fo 0 = []"
    using CORD_init_forest_ok [OF g1(2) assms(5), of 0 forest_new]
    by (auto simp: forest_new_def tree_def)
  obtain fo1 where fo1: "CORD_balance_insert cat x ?M fo g1 = Done g1 fo1" "forest_ok ?M fo1" "upper fo1 0 = chars x"
    using CORD_balance_insert_ok [OF g1(2) assms(5) fo(2) assms(2,3)] fo(3) by auto
  obtain z where z: "CORD_concat_forest cat fo1 ?M 0 CORD_EMPTY 0 = ret z" "cord_wf z" "chars z = chars x"
      "is_empty z \<or> (\<exists>j. mlen j \<le> ?M \<and> dep z \<le> j + 3)"
    using CORD_concat_forest_ok [OF assms(5) fo1(2), of CORD_EMPTY 0] fo1(3) by auto
  have "mlen (dep z - 3) \<le> ?M"
  proof -
    obtain j where "mlen j \<le> ?M" "dep z \<le> j + 3"
      using z(2-4) chars_empty [OF z(2)] chars_pos [OF assms(2,3)] by auto
    moreover from this have "mlen (dep z - 3) \<le> mlen j" by simp
    ultimately show ?thesis by linarith
  qed
  moreover have "balance_node cat x g = Done g1 z"
    using g1(1) fo(1) fo1(1)
    by (simp add: balance_node_def header_wf(2) [OF assms(2-4)] z(1) andthen_run reads_def split: if_splits) (simp_all add: ret_def)
  ultimately show ?thesis using z g1(2) by (auto simp: globals_ok_def)
qed

end

interpretation via: shallow_cat "CORD_cat_via bal" for bal
  by unfold_locales (rule CORD_cat_shallow)

definition cord_ok :: "cord \<Rightarrow> bool" where
  "cord_ok x \<longleftrightarrow> cord_wf x \<and> dep x < MAX_DEPTH"

text \<open>The values of the table, computed from pairs of neighbours.\<close>

fun mlen_pair :: "nat \<Rightarrow> nat \<times> nat" where
  "mlen_pair 0 = (1, 2)"
| "mlen_pair (Suc n) = (case mlen_pair n of (a, b) \<Rightarrow> (b, b + a))"

lemma mlen_pair: "mlen_pair n = (mlen n, mlen (Suc n))"
  by (induction n) simp_all

lemma mlen_pair_numeral: "mlen_pair (numeral k) = (case mlen_pair (pred_numeral k) of (a, b) \<Rightarrow> (b, b + a))"
  by (simp add: numeral_eq_Suc)

lemma mlen_45: "mlen 45 = 2971215073"
  and mlen_47: "mlen 47 = 7778742049"
proof -
  have *: "mlen n = fst (mlen_pair n)" for n by (simp add: mlen_pair)
  show "mlen 45 = 2971215073" "mlen 47 = 7778742049" unfolding * by (simp_all add: mlen_pair_numeral)
qed

lemma balance_ok:
  assumes "globals_ok g" and "cord_wf x" and "length (chars x) < mlen 45"
  shows "\<exists>g' z. CORD_balance (Suc n) x g = Done g' z \<and> globals_ok g' \<and> cord_ok z \<and> chars z = chars x \<and>
    (is_empty z \<or> mlen (dep z - 3) \<le> length (chars z))"
proof (cases "is_empty x \<or> is_string x")
  case True
  with assms show ?thesis
    by (cases x) (auto simp: ret_def cord_ok_def MAX_DEPTH_def is_string_def Suc_le_eq)
next
  case False
  then have "CORD_balance (Suc n) x = balance_node (CORD_cat_via (CORD_balance n)) x"
    by (cases x) (simp_all add: is_string_def)
  moreover obtain g' z where z: "balance_node (CORD_cat_via (CORD_balance n)) x g = Done g' z" "globals_ok g'" "cord_wf z"
      "chars z = chars x" "mlen (dep z - 3) \<le> length (chars x)"
    using via.balance_node_ok [OF assms(1,2) _ _ assms(3)] False by blast
  moreover have "dep z - 3 < 45" using z(5) assms(3) le_less_trans [of _ _ "mlen 45"] by (metis mlen_less_iff)
  ultimately show ?thesis by (auto simp: cord_ok_def MAX_DEPTH_def)
qed

lemma joins_ok:
  assumes "joins (CORD_balance (Suc n)) x y m" and "globals_ok g" and "cord_ok x" and "cord_ok y"
    and "length (chars x) + length (chars y) < mlen 45"
  shows "\<exists>g' z. m g = Done g' z \<and> globals_ok g' \<and> cord_ok z \<and> chars z = chars x @ chars y"
proof -
  obtain z where z: "joined x y z"
      "m = ret z \<and> (dep z < MAX_DEPTH \<or> z = x \<or> z = y) \<or> m = CORD_balance (Suc n) z"
    using assms(1) by (auto simp: joins_def)
  from z(2) show ?thesis
  proof
    assume "m = ret z \<and> (dep z < MAX_DEPTH \<or> z = x \<or> z = y)"
    with z(1) assms(2-4) show ?thesis by (auto simp: ret_def cord_ok_def joined_def)
  next
    assume "m = CORD_balance (Suc n) z"
    with balance_ok [OF assms(2), of z n] z(1) assms(5) show ?thesis by (auto simp: joined_def)
  qed
qed

lemma CORD_cat_ok:
  assumes "globals_ok g" and "cord_ok x" and "cord_ok y" and "length (chars x) + length (chars y) < mlen 45"
  shows "\<exists>g' z. CORD_cat (Suc n) x y g = Done g' z \<and> globals_ok g' \<and> cord_ok z \<and> chars z = chars x @ chars y"
proof (rule joins_ok [OF _ assms])
  have "mlen 45 < SIZE" using mlen_less_SIZE [of 45] by (simp add: MAX_DEPTH_def)
  with assms show "joins (CORD_balance (Suc n)) x y (CORD_cat (Suc n) x y)"
    unfolding CORD_cat_def by (intro CORD_cat_joins) (auto simp: cord_ok_def)
qed

section \<open>Properties\<close>

text \<open>
  C19. Balancing keeps the text and makes the tree shallow. On every well-formed cord of fewer than
  2971215073 characters, however deep, \<open>CORD_balance\<close> returns without balancing recursively: it
  stays inside the table and the forest, reads no uninitialised element, does not abort, and its
  result is a well-formed cord with the same text whose depth is below the maximum and logarithmic in
  the length (a depth of \<open>d + 3\<close> needs a text of at least Fibonacci(d + 2) characters).
\<close>

theorem CORD_balance_keeps_text:
  assumes "globals_ok g" and "cord_wf x" and "length (chars x) < 2971215073"
  shows "\<exists>g' z. CORD_balance (Suc n) x g = Done g' z \<and> globals_ok g' \<and> cord_ok z \<and> chars z = chars x \<and>
    (is_empty z \<or> mlen (dep z - 3) \<le> length (chars z))"
  using balance_ok assms by (simp add: mlen_45)

lemma globals_ok_new [simp]: "globals_ok cord_globals_new"
  by (simp add: globals_ok_def cord_globals_new_def)

theorem CORD_balance_keeps_text_witness:
  "\<exists>g' z. CORD_balance 1 (Concatenation 1 1 3 (C_String ''a'') (C_String ''bc'')) cord_globals_new = Done g' z \<and>
     cord_ok z \<and> chars z = ''abc''"
  using CORD_balance_keeps_text [of cord_globals_new "Concatenation 1 1 3 (C_String ''a'') (C_String ''bc'')" 0]
  by (auto simp: MAX_LEFT_LEN_def SIZE_def NUL_def)

text \<open>
  C20. Concatenation refines the concatenation of texts: for cords of fewer than 2971215073
  characters together it returns a well-formed cord, not deeper than allowed, that stands for the
  text of the first followed by the text of the second, whatever sharing, merging of short strings
  and balancing happens on the way.
\<close>

theorem CORD_cat_appends:
  assumes "globals_ok g" and "cord_ok x" and "cord_ok y" and "length (chars x) + length (chars y) < 2971215073"
  shows "\<exists>g' z. CORD_cat (Suc n) x y g = Done g' z \<and> globals_ok g' \<and> cord_ok z \<and> chars z = chars x @ chars y"
  using CORD_cat_ok assms by (simp add: mlen_45)

theorem CORD_cat_appends_witness:
  "\<exists>g' z. CORD_cat 1 (C_String ''ab'') (C_String ''c'') cord_globals_new = Done g' z \<and> cord_ok z \<and> chars z = ''abc''"
  using CORD_cat_appends [of cord_globals_new "C_String ''ab''" "C_String ''c''" 0]
  by (auto simp: cord_ok_def MAX_DEPTH_def SIZE_def NUL_def)

text \<open>
  The table of minimal lengths holds 48 Fibonacci numbers without overflow. The largest one does
  not fit an \<open>int\<close>: the published maximal length \<open>CORD_max_len\<close> becomes a negative number.
\<close>

theorem CORD_init_min_len_table:
  "\<exists>g'. CORD_init_min_len g = Done g' () \<and> min_len g' = map mlen [0..<48] \<and> min_len_init g' \<and>
     CORD_max_len g' = - 811192544"
proof -
  have "sint (word_of_nat 7778742049 :: 32 word) = - 811192543" by simp
  moreover have "CORD_init_min_len g = Done (g\<lparr>min_len := 1 # 2 # map mlen [2..<MAX_DEPTH],
      CORD_max_len := sint (word_of_nat (mlen 47) :: 32 word) - 1, min_len_init := True\<rparr>) ()"
    by (simp only: CORD_init_min_len_def modifies_def min_len_loop_table Let_def prod.case)
  ultimately show ?thesis
    using CORD_init_min_len_ready [of g] by (auto simp: ready_def mlen_47 MAX_DEPTH_def simp del: upt_rec_numeral)
qed

text \<open>
  The empty string is not a cord: appending it to the empty cord returns a pointer to an empty C
  string instead of NULL, and the length of that result is read behind the end of the string.
\<close>

theorem CORD_cat_char_star_empty:
  "CORD_cat_char_star n CORD_EMPTY [] 0 g = Done g (C_String []) \<and> CORD_len (C_String []) g = Fault Out_Of_Bounds"
  by (simp add: CORD_cat_char_star_def CORD_cat_char_star_via_def ret_def CORD_len_def GEN_LEN_def andthen_def raise_fault_def)

end
