(* ===== verification/Cord_Substring.thy ===== *)
theory Cord_Substring
  imports Cord_Balance
begin

text \<open>
  Substrings and iteration. Substrings are proved against an interface of concatenation, the
  locale \<open>appender\<close>, which is interpreted by \<open>CORD_cat\<close>; forward and backward iteration visit
  the characters of the text in order, whatever the shape of the cord.
\<close>

section \<open>Function nodes\<close>

lemma ret_inject [simp]: "ret x = ret y \<longleftrightarrow> x = y"
  by (auto simp: ret_def fun_eq_iff)

lemma fn_call_wf: "fn_wf len fn \<Longrightarrow> i < len \<Longrightarrow> fn_call fn i = ret (fn_char fn i)"
proof (induction fn i arbitrary: len rule: fn_call.induct)
  case (2 s k i)
  then show ?case by (simp add: byte_at_def)
next
  case (4 h clen f k i)
  then have "size_add i k = i + k" and "fn_wf clen f" and "i + k < clen" by auto
  with "4.IH" [of clen] show ?case by simp
qed simp_all

lemma read_buf_wf:
  "fn_wf len fn \<Longrightarrow> i + k \<le> len \<Longrightarrow>
   read_buf fn i k =
     (let cs = map (fn_char fn) [i..<i + k] in ret (if NUL \<in> set cs then None else Some cs))"
proof (induction k arbitrary: i)
  case (Suc k)
  define cs where "cs = map (fn_char fn) [Suc i..<Suc i + k]"
  have "map (fn_char fn) [i..<i + Suc k] = fn_char fn i # cs"
    by (simp add: cs_def upt_conv_Cons del: upt_Suc)
  with Suc.IH [of "Suc i", folded cs_def] Suc.prems show ?case
    by (simp add: Let_def fn_call_wf [of len] del: upt_Suc)
qed simp

definition fn_text :: "cord_fn \<Rightarrow> nat \<Rightarrow> string" where
  "fn_text fn len = map (fn_char fn) [0..<len]"

lemma length_fn_text [simp]: "length (fn_text fn len) = len"
  by (simp add: fn_text_def)

lemma no_nul_iff: "no_nul cs \<longleftrightarrow> NUL \<notin> set cs"
  by (simp add: no_nul_def)

lemma CORD_from_fn_inner_ok:
  assumes "fn_wf len fn" and "len < SIZE" and "h = SUBSTR_HDR \<longrightarrow> (case fn of Client_fn _ \<Rightarrow> False | _ \<Rightarrow> True)"
  shows "\<exists>z. CORD_from_fn_inner h fn len = (ret z :: ('s, cord) run) \<and> cord_ok z \<and> chars z = fn_text fn len"
  using assms
  by (auto simp: CORD_from_fn_inner_def read_buf_wf [of len] Let_def fn_text_def cord_ok_def MAX_DEPTH_def no_nul_iff)

lemma fn_text_index:
  "i + n \<le> length s \<Longrightarrow> fn_text (CORD_index_access_fn (C_String s) i) n = take n (drop i s)"
  by (rule nth_equalityI) (auto simp: fn_text_def add.commute)

lemma fn_text_apply:
  "i + n \<le> len \<Longrightarrow> fn_text (CORD_apply_access_fn (Function h len f) i) n = take n (drop i (fn_text f len))"
  by (rule nth_equalityI) (auto simp: fn_text_def add.commute)

lemma chars_Function: "chars (Function h len fn) = fn_text fn len"
  by (simp add: fn_text_def)

lemma closure_index_ok:
  assumes "cord_wf (C_String s)" and "i + n \<le> length s"
  shows "\<exists>z. CORD_substr_closure (C_String s) i n CORD_index_access_fn = (ret z :: ('s, cord) run) \<and> cord_ok z \<and> chars z = take n (drop i s)"
  using CORD_from_fn_inner_ok [where 's = 's, of n "CORD_index_access_fn (C_String s) i" SUBSTR_HDR] assms fn_text_index [OF assms(2)]
  by (simp add: CORD_substr_closure_def)

lemma closure_apply_ok:
  assumes "cord_wf (Function h len f)" and "i + n \<le> len"
  shows "\<exists>z. CORD_substr_closure (Function h len f) i n CORD_apply_access_fn = (ret z :: ('s, cord) run) \<and> cord_ok z \<and>
    chars z = take n (drop i (fn_text f len))"
  using CORD_from_fn_inner_ok [where 's = 's, of n "CORD_apply_access_fn (Function h len f) i" SUBSTR_HDR] assms
    fn_text_apply [OF assms(2), of h f]
  by (simp add: CORD_substr_closure_def)

lemma fn_text_buf:
  "i + n \<le> len \<Longrightarrow> map (fn_char fn) [i..<i + n] = take n (drop i (fn_text fn len))"
  by (rule nth_equalityI) (auto simp: fn_text_def)

lemma take_drop_inner: "i + n \<le> len \<Longrightarrow> take n (drop i (take len (drop k s))) = take n (drop (i + k) s)"
  by (simp add: drop_take)

lemma substr_function_ok:
  assumes "cord_wf (Function h len fn)" and "0 < n" and "i + n \<le> len"
  shows "\<exists>z. substr_function h len fn i n = (ret z :: ('s, cord) run) \<and> cord_ok z \<and> chars z = take n (drop i (fn_text fn len))"
proof (cases "SUBSTR_LIMIT < n")
  case True
  show ?thesis
  proof (cases h)
    case FN_HDR
    with True closure_apply_ok [where 's = 's, OF assms(1,3)] show ?thesis by (simp add: substr_function_def)
  next
    case SUBSTR_HDR
    show ?thesis
    proof (cases fn)
      case (CORD_index_access_fn c k)
      with assms obtain s where s: "c = C_String s" "cord_wf (C_String s)" "k + len \<le> length s" "length s < SIZE"
        by (auto split: cord.splits)
      with assms(3) have "size_add i k = i + k" "(i + k) + n \<le> length s" by auto
      with closure_index_ok [where 's = 's, OF s(2), of "i + k" n] True SUBSTR_HDR CORD_index_access_fn s fn_text_index [OF s(3)] assms(3)
      show ?thesis by (simp add: substr_function_def take_drop_inner)
    next
      case (CORD_apply_access_fn c k)
      with assms obtain h' clen f where f: "c = Function h' clen f" "cord_wf (Function h' clen f)" "k + len \<le> clen" "clen < SIZE"
        by (auto split: cord.splits)
      with assms(3) have "size_add i k = i + k" "(i + k) + n \<le> clen" by auto
      with closure_apply_ok [where 's = 's, OF f(2), of "i + k" n] True SUBSTR_HDR CORD_apply_access_fn f fn_text_apply [OF f(3)] assms(3)
      show ?thesis by (simp add: substr_function_def take_drop_inner)
    qed (use assms(1) SUBSTR_HDR in simp)
  qed
next
  case False
  have "fn_wf len fn" "len < SIZE" using assms(1) by auto
  have buf: "cord_ok (C_String (map (fn_char fn) [i..<i + n]))" if "NUL \<notin> set (map (fn_char fn) [i..<i + n])"
    using that assms(2,3) \<open>len < SIZE\<close> by (simp add: cord_ok_def MAX_DEPTH_def no_nul_iff)
  note read = read_buf_wf [OF \<open>fn_wf len fn\<close> assms(3)]
  from False buf closure_apply_ok [where 's = 's, OF assms(1,3)] fn_text_buf [OF assms(3), of fn] show ?thesis
    by (cases "NUL \<in> set (map (fn_char fn) [i..<i + n])") (simp_all add: substr_function_def read Let_def del: set_map)
qed

section \<open>Substrings\<close>

text \<open>What substrings rely on: a concatenation of texts that keeps an invariant of its state.\<close>

locale appender =
  fixes cat :: "cord \<Rightarrow> cord \<Rightarrow> ('s, cord) run" and inv :: "'s \<Rightarrow> bool" and limit :: nat
  assumes cat_ok: "\<lbrakk>inv g; cord_ok x; cord_ok y; length (chars x) + length (chars y) < limit\<rbrakk> \<Longrightarrow>
      \<exists>g' z. cat x y g = Done g' z \<and> inv g' \<and> cord_ok z \<and> chars z = chars x @ chars y"
    and limit: "limit \<le> SIZE"
begin

lemma substr_checked_ok:
  assumes "inv g" and "cord_ok x" and "0 < n" and "i + n \<le> length (chars x)" and "length (chars x) < limit"
  shows "\<exists>g' z. CORD_substr_checked cat x i n g = Done g' z \<and> inv g' \<and> cord_ok z \<and> chars z = take n (drop i (chars x))"
  using assms
proof (induction x arbitrary: i n g rule: chars.induct)
  case (2 s)
  then have "cord_ok (C_String (take n (drop i s)))"
    by (auto simp: cord_ok_def no_nul_def dest: in_set_takeD in_set_dropD)
  with 2 closure_index_ok [where 's = 's, of s i n] show ?case
    by (cases "SUBSTR_LIMIT < n") (auto simp: cord_ok_def copy_substring_def ret_def)
next
  case (4 h len fn)
  with substr_function_ok [where 's = 's, of h len fn n i] show ?case by (auto simp: cord_ok_def ret_def chars_Function simp del: chars.simps)
next
  case (3 d ll len l r)
  then have wf: "cord_wf (Concatenation d ll len l r)" and ok: "cord_ok l" "cord_ok r" by (auto simp: cord_ok_def)
  let ?l = "length (chars l)" and ?r = "length (chars r)"
  have len: "len = ?l + ?r" "?l + ?r < limit" "?l + ?r < SIZE" using wf "3.prems"(5) by auto
  have n: "i + n \<le> ?l + ?r" "i + n < SIZE" using "3.prems"(4) len by auto
  note run = CORD_substr_checked.simps LEFT_LEN_wf [OF wf] andthen_ret Let_def
  consider "?l \<le> i" | "i < ?l" "i + n \<le> ?l" | "i < ?l" "?l < i + n" by linarith
  then show ?case
  proof cases
    case 1
    then have rest: "take n (drop i (chars l @ chars r)) = take n (drop (i - ?l) (chars r))" by simp
    have "CORD_substr_checked cat (Concatenation d ll len l r) i n g =
        (if n = ?r then ret r else CORD_substr_checked cat r (i - ?l) n) g"
      unfolding run using 1 len by simp
    moreover have "\<exists>g' z. CORD_substr_checked cat r (i - ?l) n g = Done g' z \<and> inv g' \<and> cord_ok z \<and>
        chars z = take n (drop (i - ?l) (chars r))"
      using "3.IH"(2) [of g n "i - ?l"] "3.prems" ok 1 n len by auto
    ultimately show ?thesis
      using "3.prems"(1) ok(2) 1 n by (cases "n = ?r") (auto simp: ret_def rest)
  next
    case 2
    then have rest: "take n (drop i (chars l @ chars r)) = take n (drop i (chars l))" by simp
    have "CORD_substr_checked cat (Concatenation d ll len l r) i n g =
        (if n = ?l then ret l else CORD_substr_checked cat l i n) g"
      unfolding run using 2 len n by simp
    moreover have "\<exists>g' z. CORD_substr_checked cat l i n g = Done g' z \<and> inv g' \<and> cord_ok z \<and>
        chars z = take n (drop i (chars l))"
      using "3.IH"(1) [of g n i] "3.prems" ok 2 n len by auto
    ultimately show ?thesis
      using "3.prems"(1) ok(1) 2 n by (cases "n = ?l") (auto simp: ret_def rest)
  next
    case 3
    let ?lp = "if i = 0 then ret l else CORD_substr_checked cat l i (?l - i)"
    let ?rp = "if i + n = ?r + ?l then ret r else CORD_substr_checked cat r 0 (n - (?l - i))"
    obtain g1 lp where lp: "?lp g = Done g1 lp" "inv g1" "cord_ok lp" "chars lp = drop i (chars l)"
      using "3.IH"(1) [of g "?l - i" i] "3.prems" ok 3 len by (cases "i = 0") (auto simp: ret_def)
    obtain g2 rp where rp: "?rp g1 = Done g2 rp" "inv g2" "cord_ok rp" "chars rp = take (n - (?l - i)) (chars r)"
    proof (cases "i + n = ?r + ?l")
      case True
      with lp(2) ok(2) 3 show ?thesis by (intro that [of g1 r]) (auto simp: ret_def)
    next
      case False
      have "0 + (n - (?l - i)) \<le> ?r" "0 < n - (?l - i)" "?r < limit" using 3 n len by linarith+
      with "3.IH"(2) [OF lp(2) ok(2), of "n - (?l - i)" 0] False show ?thesis by (auto intro: that)
    qed
    have "CORD_substr_checked cat (Concatenation d ll len l r) i n g = andthen ?lp (\<lambda>lp. andthen ?rp (cat lp)) g"
      unfolding run using 3 len n by (simp add: add.commute)
    also have "\<dots> = cat lp rp g2"
      unfolding andthen_run [of ?lp g g1 lp, OF lp(1)] andthen_run [of ?rp g1 g2 rp, OF rp(1)] by (rule refl)
    finally show ?thesis
      using cat_ok [OF rp(2) lp(3) rp(3)] lp(4) rp(4) 3 n len by auto
  qed
qed simp

lemma substr_ok:
  assumes "inv g" and "cord_ok x" and "length (chars x) < limit" and "i + n < SIZE"
  shows "\<exists>g' z. CORD_substr_via cat x i n g = Done g' z \<and> inv g' \<and> cord_ok z \<and> chars z = take n (drop i (chars x))"
proof (cases "length (chars x) \<le> i \<or> n = 0")
  case True
  with assms(2) have "CORD_substr_via cat x i n = ret CORD_EMPTY"
    by (simp add: CORD_substr_via_def CORD_len_wf cord_ok_def)
  with assms(1) True show ?thesis by (auto simp: ret_def cord_ok_def MAX_DEPTH_def)
next
  case False
  let ?n = "if length (chars x) < i + n then length (chars x) - i else n"
  have "CORD_substr_via cat x i n = CORD_substr_checked cat x i ?n"
    using False assms by (simp add: CORD_substr_via_def CORD_len_wf cord_ok_def)
  moreover have "take ?n (drop i (chars x)) = take n (drop i (chars x))" by simp
  ultimately show ?thesis
    using substr_checked_ok [OF assms(1,2), of ?n i] assms(3) False by (simp split: if_splits)
qed

end

interpretation cords: appender "CORD_cat (Suc k)" globals_ok "mlen 45" for k
proof
  show "mlen 45 \<le> SIZE" using mlen_less_SIZE [of 45] by (simp add: MAX_DEPTH_def)
qed (rule CORD_cat_ok)

section \<open>Iteration\<close>

lemma string_iter_append:
  "string_iter f1 (a @ b) = andthen (string_iter f1 a) (\<lambda>r. if r \<noteq> 0 then ret 1 else string_iter f1 b)"
proof (induction a)
  case (Cons c a)
  have "andthen (if r \<noteq> 0 then ret 1 else string_iter f1 a) (\<lambda>r. if r \<noteq> 0 then ret 1 else string_iter f1 b) =
      (if r \<noteq> 0 then ret 1 else string_iter f1 (a @ b))" for r :: int
    by (simp add: Cons.IH)
  then show ?case by (simp add: andthen_assoc)
qed simp

lemma function_iter_wf:
  "fn_wf len fn \<Longrightarrow> j + k \<le> len \<Longrightarrow> function_iter f1 fn j k = string_iter f1 (map (fn_char fn) [j..<j + k])"
proof (induction k arbitrary: j)
  case (Suc k)
  define cs where "cs = map (fn_char fn) [Suc j..<Suc j + k]"
  have "map (fn_char fn) [j..<j + Suc k] = fn_char fn j # cs"
    by (simp add: cs_def upt_conv_Cons del: upt_Suc)
  with Suc.IH [of "Suc j", folded cs_def] Suc.prems show ?case
    by (simp add: fn_call_wf [of len] del: upt_Suc cong: if_cong)
qed simp

lemma byte_at_wf: "i < length s \<Longrightarrow> byte_at s i = ret (s ! i)"
  by (simp add: byte_at_def)

lemma nth_not_NUL: "no_nul s \<Longrightarrow> i < length s \<Longrightarrow> s ! i \<noteq> NUL"
  by (metis no_nul_def nth_mem)

lemma iter5_ok:
  assumes "\<And>f s. f2 = Some f \<Longrightarrow> s \<noteq> [] \<Longrightarrow> no_nul s \<Longrightarrow> f s = string_iter f1 s"
    and "cord_wf x" and "\<not> is_empty x" and "i < length (chars x)"
  shows "CORD_iter5 x i f1 f2 = string_iter f1 (drop i (chars x))"
  using assms(2-)
proof (induction x arbitrary: i rule: chars.induct)
  case (2 s)
  moreover from 2 have "no_nul (drop i s)" by (auto simp: no_nul_def dest: in_set_dropD)
  ultimately show ?case using nth_not_NUL [of s i] assms(1) by (cases f2) (simp_all add: byte_at_wf)
next
  case (4 h len fn)
  have "drop i (map (fn_char fn) [0..<len]) = map (fn_char fn) [i..<len]" by (simp add: drop_map)
  with 4 function_iter_wf [of len fn i "len - i" f1] show ?case by simp
next
  case (3 d ll len l r)
  then have wf: "cord_wf (Concatenation d ll len l r)" and l: "0 < length (chars l)" and r: "0 < length (chars r)"
    using chars_pos by auto
  have left: "(if 0 < i then andthen (LEFT_LEN ll len l r) (\<lambda>left_len. ret (if left_len \<le> i then Some left_len else None))
      else ret None) = ret (if length (chars l) \<le> i then Some (length (chars l)) else None)"
    using l by (auto simp: LEFT_LEN_wf [OF wf])
  have ih: "CORD_iter5 l k f1 f2 = string_iter f1 (drop k (chars l))" if "k < length (chars l)" for k
    using "3.IH"(1) wf that by simp
  have ih': "CORD_iter5 r k f1 f2 = string_iter f1 (drop k (chars r))" if "k < length (chars r)" for k
    using "3.IH"(2) wf that by simp
  show ?case
    unfolding CORD_iter5.simps left andthen_ret using "3.prems"(3) l r
    by (auto simp: ih ih' string_iter_append cong: if_cong)
qed simp

lemma string_riter_wf:
  "no_nul s \<Longrightarrow> i < length s \<Longrightarrow> string_riter f1 s i = string_iter f1 (rev (take (Suc i) s))"
proof (induction i)
  case 0
  with nth_not_NUL [of s 0] show ?case
    by (subst string_riter.simps) (simp add: take_Suc_conv_app_nth byte_at_wf cong: if_cong)
next
  case (Suc i)
  then have "rev (take (Suc (Suc i)) s) = s ! Suc i # rev (take (Suc i) s)"
    by (simp add: take_Suc_conv_app_nth [of "Suc i"])
  with Suc nth_not_NUL [of s "Suc i"] show ?case by (subst string_riter.simps) (simp add: byte_at_wf cong: if_cong)
qed

lemma function_riter_wf:
  "fn_wf len fn \<Longrightarrow> i < len \<Longrightarrow> function_riter f1 fn i = string_iter f1 (rev (map (fn_char fn) [0..<Suc i]))"
proof (induction i)
  case 0
  then show ?case by (subst function_riter.simps) (simp add: fn_call_wf [of len] cong: if_cong)
next
  case (Suc i)
  have "rev (map (fn_char fn) [0..<Suc (Suc i)]) = fn_char fn (Suc i) # rev (map (fn_char fn) [0..<Suc i])" by simp
  with Suc show ?case by (subst function_riter.simps) (simp add: fn_call_wf [of len] del: upt_Suc cong: if_cong)
qed

lemma riter4_ok:
  assumes "cord_wf x" and "\<not> is_empty x" and "i < length (chars x)"
  shows "CORD_riter4 x i f1 = string_iter f1 (rev (take (Suc i) (chars x)))"
  using assms
proof (induction x arbitrary: i rule: chars.induct)
  case (2 s)
  then show ?case by (simp add: string_riter_wf)
next
  case (4 h len fn)
  then have "take (Suc i) (map (fn_char fn) [0..<len]) = map (fn_char fn) [0..<Suc i]"
    by (simp add: take_map)
  with 4 show ?case by (simp add: function_riter_wf [of len] del: upt_Suc)
next
  case (3 d ll len l r)
  then have wf: "cord_wf (Concatenation d ll len l r)" and l: "0 < length (chars l)"
    using chars_pos by auto
  have ih: "CORD_riter4 l k f1 = string_iter f1 (rev (take (Suc k) (chars l)))" if "k < length (chars l)" for k
    using "3.IH"(1) wf that by simp
  have ih': "CORD_riter4 r k f1 = string_iter f1 (rev (take (Suc k) (chars r)))" if "k < length (chars r)" for k
    using "3.IH"(2) wf that by simp
  have whole: "CORD_riter4 l (size_sub (length (chars l)) 1) f1 = string_iter f1 (rev (chars l))"
    using ih [of "length (chars l) - 1"] l by (simp add: Suc_le_eq)
  show ?case
    unfolding CORD_riter4.simps LEFT_LEN_wf [OF wf] andthen_ret using "3.prems"(3) l
    by (auto simp: ih ih' whole [simplified] string_iter_append Suc_diff_le cong: if_cong)
qed simp

section \<open>Properties\<close>

text \<open>
  C24. Substrings: for a cord of fewer than 2971215073 characters and a position and length whose
  sum does not overflow, \<open>CORD_substr\<close> returns a well-formed cord for the characters from
  position \<open>i\<close>, at most \<open>n\<close> of them and none behind the end, whatever the shape of the cord.
\<close>

theorem CORD_substr_takes:
  assumes "globals_ok g" and "cord_ok x" and "length (chars x) < 2971215073" and "i + n < SIZE"
  shows "\<exists>g' z. CORD_substr (Suc k) x i n g = Done g' z \<and> globals_ok g' \<and> cord_ok z \<and>
    chars z = take n (drop i (chars x))"
  using cords.substr_ok [OF assms(1,2) _ assms(4)] assms(3) by (simp add: CORD_substr_def mlen_45)

theorem CORD_substr_takes_witness:
  "\<exists>g' z. CORD_substr 1 (C_String ''abcd'') 1 2 cord_globals_new = Done g' z \<and> cord_ok z \<and> chars z = ''bc''"
  using CORD_substr_takes [of cord_globals_new "C_String ''abcd''" 1 2 0]
  by (auto simp: cord_ok_def MAX_DEPTH_def SIZE_def NUL_def)


text \<open>
  Forward iteration visits the characters of the text from position \<open>i\<close> on, in order, up to the
  first one for which the callback stops it, and tells whether it was stopped. A batched callback
  that does for a C string what the other does for its characters changes nothing.
\<close>

theorem CORD_iter5_visits:
  assumes "cord_wf x" and "i < length (chars x)" and "\<forall>f s. f2 = Some f \<and> s \<noteq> [] \<and> no_nul s \<longrightarrow> f s = string_iter f1 s"
  shows "CORD_iter5 x i f1 f2 = string_iter f1 (drop i (chars x))"
proof (rule iter5_ok)
  show "\<not> is_empty x" using assms(2) by (auto simp: is_empty_iff)
qed (use assms in auto)

theorem CORD_iter5_visits_witness:
  "CORD_iter5 (Concatenation 1 1 3 (C_String ''a'') (C_String ''bc'')) 1 (\<lambda>c cs. Done (cs @ [c]) 0) None [] = Done ''bc'' 0"
  using CORD_iter5_visits [of "Concatenation 1 1 3 (C_String ''a'') (C_String ''bc'')" 1 None "\<lambda>c cs. Done (cs @ [c]) 0"]
  by (simp add: MAX_LEFT_LEN_def SIZE_def NUL_def andthen_def ret_def)

text \<open>Backward iteration over a whole cord visits the reversed text.\<close>

theorem CORD_riter_visits:
  assumes "cord_wf x"
  shows "CORD_riter x f1 = string_iter f1 (rev (chars x))"
proof (cases "is_empty x")
  case True
  then show ?thesis by (simp add: CORD_riter_def CORD_len_def is_empty_iff)
next
  case False
  with assms chars_pos [OF assms] riter4_ok [OF assms, of "length (chars x) - 1" f1] show ?thesis
    by (simp add: CORD_riter_def CORD_len_wf)
qed

theorem CORD_riter_visits_witness:
  "CORD_riter (C_String ''ab'') (\<lambda>c cs. Done (cs @ [c]) 0) [] = Done ''ba'' 0"
  using CORD_riter_visits [of "C_String ''ab''" "\<lambda>c cs. Done (cs @ [c]) 0"]
  by (simp add: SIZE_def NUL_def andthen_def ret_def)

end
