(* ===== verification/Cord_Position.thy ===== *)
theory Cord_Position
  imports Cord_Substring
begin

text \<open>
  Cord positions: the structure \<open>CORD_Pos\<close> of \<open>gc-8.0.4/include/cord_pos.h\<close> and the functions of
  \<open>cordbscs.c\<close> that move it and fetch the current character.

  A position holds the path from the root of the cord to the current leaf, in an array of
  \<open>MAX_DEPTH + 1\<close> entries that are \<open>None\<close> until they are written, and a pointer \<open>cur_leaf\<close> to a run
  of characters around the current one: the string of the leaf, or the position's own buffer with
  the next few characters of a function node. A non-zero \<open>cur_end\<close> says that \<open>cur_leaf\<close> is usable.

  Moving forward is proved to visit the text of the cord. Moving backward is not correct on function
  nodes: the buffer is not given up when the position leaves it to the left.
\<close>

section \<open>Positions\<close>

datatype leaf_pointer = Null_Leaf | String_Leaf string | Function_Buf

type_synonym path_entry = "cord \<times> nat"

record cord_pos =
  cur_pos :: nat
  path_len :: nat
  cur_leaf :: leaf_pointer
  cur_start :: nat
  cur_end :: nat
  path :: "path_entry option list"
  function_buf :: string

definition CORD_POS_INVALID :: nat where
  "CORD_POS_INVALID = 0x55555555"

definition FUNCTION_BUF_SZ :: nat where
  "FUNCTION_BUF_SZ = 8"

text \<open>A position before it is set: a local variable with unspecified contents.\<close>

definition fresh_pos :: "cord_pos \<Rightarrow> bool" where
  "fresh_pos p \<longleftrightarrow> length (path p) = MAX_DEPTH + 1 \<and> length (function_buf p) = FUNCTION_BUF_SZ"

type_synonym 'a pos_op = "(cord_pos, 'a) run"

definition path_at :: "nat \<Rightarrow> path_entry pos_op" where
  "path_at k = (\<lambda>p.
     if length (path p) \<le> k then Fault Out_Of_Bounds
     else (case path p ! k of None \<Rightarrow> Fault Uninitialised_Read | Some e \<Rightarrow> Done p e))"

definition set_path :: "nat \<Rightarrow> path_entry \<Rightarrow> unit pos_op" where
  "set_path k e = (\<lambda>p.
     if length (path p) \<le> k then Fault Out_Of_Bounds else Done (p\<lparr>path := (path p)[k := Some e]\<rparr>) ())"

section \<open>Extending the path\<close>

text \<open>The loop of \<open>CORD__extend_path\<close>: the leaf, its start and its length.\<close>

fun extend_loop :: "cord \<Rightarrow> nat \<Rightarrow> nat \<Rightarrow> nat \<Rightarrow> (cord \<times> nat \<times> nat) pos_op" where
  "extend_loop (Concatenation depth ll len left right) pos top_pos top_len =
     andthen (LEFT_LEN ll len left right) (\<lambda>left_len.
     andthen (reads path_len) (\<lambda>k.
     if size_add top_pos left_len \<le> pos then
       andthen (set_path (k + 1) (right, size_add top_pos left_len)) (\<lambda>_.
       andthen (modifies (\<lambda>p. p\<lparr>path_len := k + 1\<rparr>)) (\<lambda>_.
       extend_loop right pos (size_add top_pos left_len) (size_sub top_len left_len)))
     else
       andthen (set_path (k + 1) (left, top_pos)) (\<lambda>_.
       andthen (modifies (\<lambda>p. p\<lparr>path_len := k + 1\<rparr>)) (\<lambda>_.
       extend_loop left pos top_pos left_len))))"
| "extend_loop node pos top_pos top_len = ret (node, top_pos, top_len)"

text \<open>The end of \<open>CORD__extend_path\<close>: the description of the leaf, and the check for the end.\<close>

definition set_leaf :: "nat \<Rightarrow> cord \<Rightarrow> nat \<Rightarrow> nat \<Rightarrow> unit pos_op" where
  "set_leaf pos node top_pos top_len =
     andthen (CORD_IS_STRING node) (\<lambda>b.
     andthen (modifies (\<lambda>p.
       case node of
         C_String s \<Rightarrow> if b then p\<lparr>cur_leaf := String_Leaf s, cur_start := top_pos, cur_end := size_add top_pos top_len\<rparr>
                       else p\<lparr>cur_end := 0\<rparr>
       | _ \<Rightarrow> p\<lparr>cur_end := 0\<rparr>)) (\<lambda>_.
     if size_add top_pos top_len \<le> pos then modifies (\<lambda>p. p\<lparr>path_len := CORD_POS_INVALID\<rparr>) else ret ()))"

definition CORD__extend_path :: "unit pos_op" where
  "CORD__extend_path =
     andthen (reads path_len) (\<lambda>k.
     andthen (path_at k) (\<lambda>(node, top_pos).
     andthen (reads cur_pos) (\<lambda>pos.
     andthen (GEN_LEN node) (\<lambda>top_len.
     andthen (extend_loop node pos top_pos top_len) (\<lambda>(node, top_pos, top_len).
     set_leaf pos node top_pos top_len)))))"

definition CORD_set_pos :: "cord \<Rightarrow> nat \<Rightarrow> unit pos_op" where
  "CORD_set_pos x i =
     (if is_empty x then modifies (\<lambda>p. p\<lparr>path_len := CORD_POS_INVALID\<rparr>)
      else
        andthen (set_path 0 (x, 0)) (\<lambda>_.
        andthen (modifies (\<lambda>p. p\<lparr>path_len := 0, cur_pos := i\<rparr>)) (\<lambda>_.
        CORD__extend_path)))"

definition CORD_pos_valid :: "cord_pos \<Rightarrow> bool" where
  "CORD_pos_valid p \<longleftrightarrow> path_len p \<noteq> CORD_POS_INVALID"

definition CORD_pos_to_index :: "nat pos_op" where
  "CORD_pos_to_index = reads cur_pos"

definition CORD_pos_to_cord :: "cord pos_op" where
  "CORD_pos_to_cord = andthen (path_at 0) (\<lambda>e. ret (fst e))"

section \<open>Fetching\<close>

definition CORD__pos_fetch :: "char pos_op" where
  "CORD__pos_fetch =
     andthen (reads CORD_pos_valid) (\<lambda>valid.
     if \<not> valid then raise_fault Abort_Called
     else
       andthen (reads path_len) (\<lambda>k.
       andthen (path_at k) (\<lambda>(leaf, start).
       andthen (reads cur_pos) (\<lambda>pos.
       case leaf of
         CORD_EMPTY \<Rightarrow> raise_fault Null_Dereference
       | C_String s \<Rightarrow> raise_fault Out_Of_Bounds
       | Concatenation _ _ _ _ _ \<Rightarrow> raise_fault Abort_Called
       | Function h len fn \<Rightarrow> fn_call fn (size_sub pos start)))))"

text \<open>\<open>cur_leaf[cur_pos - cur_start]\<close>: an index outside the array is a fault.\<close>

definition leaf_char :: "char pos_op" where
  "leaf_char = (\<lambda>p.
     case cur_leaf p of
       Null_Leaf \<Rightarrow> Fault Null_Dereference
     | String_Leaf s \<Rightarrow> byte_at s (size_sub (cur_pos p) (cur_start p)) p
     | Function_Buf \<Rightarrow>
         (if size_sub (cur_pos p) (cur_start p) < FUNCTION_BUF_SZ
          then Done p (function_buf p ! size_sub (cur_pos p) (cur_start p)) else Fault Out_Of_Bounds))"

definition CORD_pos_fetch :: "char pos_op" where
  "CORD_pos_fetch = andthen (reads cur_end) (\<lambda>e. if e \<noteq> 0 then leaf_char else CORD__pos_fetch)"

section \<open>Moving forward\<close>

text \<open>The characters \<open>[i, limit)\<close> of a function node, read into the buffer from index \<open>k\<close>.\<close>

fun fill_buf :: "cord_fn \<Rightarrow> nat \<Rightarrow> nat \<Rightarrow> nat \<Rightarrow> unit pos_op" where
  "fill_buf fn i k 0 = ret ()"
| "fill_buf fn i k (Suc n) =
     andthen (fn_call fn i) (\<lambda>c.
     andthen (\<lambda>p. if length (function_buf p) \<le> k then Fault Out_Of_Bounds
                  else Done (p\<lparr>function_buf := (function_buf p)[k := c]\<rparr>) ()) (\<lambda>_.
     fill_buf fn (i + 1) (k + 1) n))"

text \<open>
  The loop that pops the path while the entry is a right child: it stops at the root or at an entry
  with the start position of its parent.
\<close>

fun pop_right :: "nat \<Rightarrow> nat pos_op" where
  "pop_right 0 = ret 0"
| "pop_right (Suc k) =
     andthen (path_at (Suc k)) (\<lambda>e.
     andthen (path_at k) (\<lambda>parent. if snd e \<noteq> snd parent then pop_right k else ret (Suc k)))"

definition leave_leaf :: "nat \<Rightarrow> unit pos_op" where
  "leave_leaf k =
     andthen (pop_right k) (\<lambda>k'.
     if k' = 0 then modifies (\<lambda>p. p\<lparr>path_len := CORD_POS_INVALID\<rparr>)
     else
       andthen (modifies (\<lambda>p. p\<lparr>path_len := k' - 1\<rparr>)) (\<lambda>_. CORD__extend_path))"

definition CORD__next :: "unit pos_op" where
  "CORD__next =
     andthen (reads CORD_pos_valid) (\<lambda>valid.
     if \<not> valid then raise_fault Abort_Called
     else
       andthen (reads (\<lambda>p. size_add (cur_pos p) 1)) (\<lambda>pos.
       andthen (reads path_len) (\<lambda>k.
       andthen (path_at k) (\<lambda>(leaf, start).
       andthen (modifies (\<lambda>p. p\<lparr>cur_pos := pos\<rparr>)) (\<lambda>_.
       andthen (CORD_IS_STRING leaf) (\<lambda>b.
       case leaf of
         Function h len fn \<Rightarrow>
           if pos < size_add start len then
             (let limit = (if size_add start len < size_add pos FUNCTION_BUF_SZ then size_add start len
                           else size_add pos FUNCTION_BUF_SZ)
              in andthen (fill_buf fn (size_sub pos start) 0 (limit - pos)) (\<lambda>_.
                 modifies (\<lambda>p. p\<lparr>cur_start := pos, cur_leaf := Function_Buf, cur_end := limit\<rparr>)))
           else leave_leaf k
       | _ \<Rightarrow> leave_leaf k))))))"

definition CORD_next :: "unit pos_op" where
  "CORD_next =
     andthen (reads (\<lambda>p. size_add (cur_pos p) 1 < cur_end p)) (\<lambda>inside.
     if inside then modifies (\<lambda>p. p\<lparr>cur_pos := size_add (cur_pos p) 1\<rparr>) else CORD__next)"

section \<open>Moving backward\<close>

text \<open>The loop that pops the path while the entry is a left child.\<close>

fun pop_left :: "nat \<Rightarrow> nat pos_op" where
  "pop_left 0 = ret 0"
| "pop_left (Suc k) =
     andthen (path_at (Suc k)) (\<lambda>e.
     andthen (path_at k) (\<lambda>parent. if snd e = snd parent then pop_left k else ret (Suc k)))"

definition CORD__prev :: "unit pos_op" where
  "CORD__prev =
     andthen (reads cur_pos) (\<lambda>pos.
     if pos = 0 then modifies (\<lambda>p. p\<lparr>path_len := CORD_POS_INVALID\<rparr>)
     else
       andthen (modifies (\<lambda>p. p\<lparr>cur_pos := pos - 1\<rparr>)) (\<lambda>_.
       andthen (reads path_len) (\<lambda>k.
       andthen (path_at k) (\<lambda>(leaf, start).
       if start \<le> pos - 1 then ret ()
       else
         andthen (pop_left k) (\<lambda>k'.
         if k' = 0 then raise_fault Out_Of_Bounds
         else andthen (modifies (\<lambda>p. p\<lparr>path_len := k' - 1\<rparr>)) (\<lambda>_. CORD__extend_path))))))"

definition CORD_prev :: "unit pos_op" where
  "CORD_prev =
     andthen (reads (\<lambda>p. cur_end p \<noteq> 0 \<and> cur_start p < cur_pos p)) (\<lambda>inside.
     if inside then modifies (\<lambda>p. p\<lparr>cur_pos := cur_pos p - 1\<rparr>) else CORD__prev)"

section \<open>The loop over a cord\<close>

text \<open>
  The macro \<open>CORD_FOR\<close> with a body that appends the current character to a buffer: the buffer at
  the end. The first argument bounds the iterations.
\<close>

fun for_loop :: "nat \<Rightarrow> string \<Rightarrow> string pos_op" where
  "for_loop 0 buf = exhaust"
| "for_loop (Suc n) buf =
     andthen (reads CORD_pos_valid) (\<lambda>valid.
     if \<not> valid then ret buf
     else andthen CORD_pos_fetch (\<lambda>c. andthen CORD_next (\<lambda>_. for_loop n (buf @ [c]))))"

definition CORD_FOR :: "nat \<Rightarrow> cord \<Rightarrow> string pos_op" where
  "CORD_FOR n x = andthen (CORD_set_pos x 0) (\<lambda>_. for_loop n [])"

section \<open>The invariant of positions\<close>

text \<open>The text of \<open>c\<close> is the part of the text of \<open>x\<close> from \<open>t\<close>.\<close>

definition segment :: "cord \<Rightarrow> cord \<Rightarrow> nat \<Rightarrow> bool" where
  "segment x c t \<longleftrightarrow>
     cord_wf c \<and> \<not> is_empty c \<and> t + length (chars c) \<le> length (chars x) \<and>
     (\<forall>i < length (chars c). chars x ! (t + i) = chars c ! i)"

definition child :: "path_entry \<Rightarrow> path_entry \<Rightarrow> bool" where
  "child e e' \<longleftrightarrow>
     (case e of
        (Concatenation d ll n l r, t) \<Rightarrow> e' = (l, t) \<or> e' = (r, t + length (chars l))
      | _ \<Rightarrow> False)"

definition path_ok :: "cord \<Rightarrow> path_entry option list \<Rightarrow> nat \<Rightarrow> bool" where
  "path_ok x ps K \<longleftrightarrow>
     length ps = MAX_DEPTH + 1 \<and> ps ! 0 = Some (x, 0) \<and> K < MAX_DEPTH \<and>
     (\<forall>k \<le> K. \<exists>c t. ps ! k = Some (c, t) \<and> segment x c t \<and> dep c + k < MAX_DEPTH) \<and>
     (\<forall>k < K. child (the (ps ! k)) (the (ps ! Suc k)))"

lemma segment_children:
  assumes "segment x (Concatenation d ll n l r) t"
  shows "segment x l t" and "segment x r (t + length (chars l))"
proof -
  have char: "chars x ! (t + i) = (chars l @ chars r) ! i" if "i < length (chars l) + length (chars r)" for i
    using assms that by (simp add: segment_def)
  show "segment x l t"
    using assms char by (auto simp: segment_def nth_append)
  have "chars x ! (t + length (chars l) + i) = chars r ! i" if "i < length (chars r)" for i
    using char [of "length (chars l) + i"] that by (simp add: nth_append add.assoc)
  with assms show "segment x r (t + length (chars l))" by (simp add: segment_def)
qed

lemma path_ok_entry: "path_ok x ps K \<Longrightarrow> k \<le> K \<Longrightarrow> \<exists>c t. ps ! k = Some (c, t) \<and> segment x c t \<and> dep c + k < MAX_DEPTH"
  by (simp add: path_ok_def)

lemma path_ok_shorter: "path_ok x ps K \<Longrightarrow> k \<le> K \<Longrightarrow> path_ok x ps k"
  by (auto simp: path_ok_def)

lemma path_ok_extend:
  assumes "path_ok x ps K" and "ps ! K = Some e" and "child e (c, t)" and "segment x c t" and "dep c + Suc K < MAX_DEPTH"
  shows "path_ok x (ps[Suc K := Some (c, t)]) (Suc K)"
  using assms by (auto simp: path_ok_def nth_list_update le_Suc_eq less_Suc_eq)

lemma path_at_ok: "path_ok x (path p) K \<Longrightarrow> k \<le> K \<Longrightarrow> path_at k p = Done p (the (path p ! k))"
  by (force simp: path_at_def path_ok_def)

abbreviation runs :: "'a pos_op \<Rightarrow> ('a \<Rightarrow> cord_pos \<Rightarrow> bool) \<Rightarrow> cord_pos \<Rightarrow> bool" where
  "runs \<equiv> wp False (\<lambda>_. False)"

lemma runs_path_at: "path_ok x (path p) K \<Longrightarrow> k \<le> K \<Longrightarrow> runs (path_at k) Q p = Q (the (path p ! k)) p"
  by (simp add: wp_def path_at_ok)

lemma runs_set_path: "k < length (path p) \<Longrightarrow> runs (set_path k e) Q p = Q () (p\<lparr>path := (path p)[k := Some e]\<rparr>)"
  by (simp add: wp_def set_path_def)

definition is_node :: "cord \<Rightarrow> bool" where
  "is_node c = (case c of Concatenation _ _ _ _ _ \<Rightarrow> True | _ \<Rightarrow> False)"

lemma extend_loop_ok:
  assumes "path_ok x (path p) (path_len p)" and "path p ! path_len p = Some (c, t)" and "t \<le> pos"
    and "length (chars x) < SIZE"
  shows "runs (extend_loop c pos t (length (chars c))) (\<lambda>(c', t', n) p'.
    \<exists>ps K. p' = p\<lparr>path := ps, path_len := K\<rparr> \<and> path_ok x ps K \<and> ps ! K = Some (c', t') \<and> n = length (chars c') \<and>
      \<not> is_node c' \<and> t' \<le> pos \<and> (pos < t + length (chars c) \<longleftrightarrow> pos < t' + n)) p"
  using assms(1-3)
proof (induction c arbitrary: t p rule: chars.induct)
  case (3 d ll n l r)
  let ?l = "length (chars l)"
  obtain c' t' where "path p ! path_len p = Some (c', t')" "segment x c' t'" "dep c' + path_len p < MAX_DEPTH"
    using path_ok_entry [OF "3.prems"(1)] by blast
  with "3.prems"(2) have seg: "segment x (Concatenation d ll n l r) t" and dep: "d + path_len p < MAX_DEPTH" by auto
  have wf: "cord_wf (Concatenation d ll n l r)" and fits: "t + ?l + length (chars r) < SIZE"
    using seg assms(4) by (auto simp: segment_def)
  have deps: "dep l < d" "dep r < d" using wf by auto
  have len: "Suc (path_len p) < length (path p)" using "3.prems"(1) dep deps by (simp add: path_ok_def)
  show ?case
  proof (cases "t + ?l \<le> pos")
    case True
    let ?p = "p\<lparr>path := (path p)[Suc (path_len p) := Some (r, t + ?l)], path_len := Suc (path_len p)\<rparr>"
    have "path_ok x (path ?p) (path_len ?p)"
      using path_ok_extend [OF "3.prems"(1,2), of r "t + ?l"] segment_children(2) [OF seg] dep deps
      by (simp add: child_def)
    from "3.IH"(2) [OF this, of "t + ?l"] True len
    have "runs (extend_loop r pos (t + ?l) (length (chars r))) (\<lambda>(c', t', n) p'.
        \<exists>ps K. p' = ?p\<lparr>path := ps, path_len := K\<rparr> \<and> path_ok x ps K \<and> ps ! K = Some (c', t') \<and> n = length (chars c') \<and>
          \<not> is_node c' \<and> t' \<le> pos \<and> (pos < t + ?l + length (chars r) \<longleftrightarrow> pos < t' + n)) ?p"
      by simp
    then show ?thesis
      using True fits len by (simp add: LEFT_LEN_wf [OF wf] wp_simps runs_set_path add.assoc)
  next
    case False
    let ?p = "p\<lparr>path := (path p)[Suc (path_len p) := Some (l, t)], path_len := Suc (path_len p)\<rparr>"
    have "path_ok x (path ?p) (path_len ?p)"
      using path_ok_extend [OF "3.prems"(1,2), of l t] segment_children(1) [OF seg] dep deps
      by (simp add: child_def)
    from "3.IH"(1) [OF this, of t] False len "3.prems"(3)
    have "runs (extend_loop l pos t ?l) (\<lambda>(c', t', n) p'.
        \<exists>ps K. p' = ?p\<lparr>path := ps, path_len := K\<rparr> \<and> path_ok x ps K \<and> ps ! K = Some (c', t') \<and> n = length (chars c') \<and>
          \<not> is_node c' \<and> t' \<le> pos \<and> (pos < t + ?l \<longleftrightarrow> pos < t' + n)) ?p"
      by simp
    moreover have "pos < t + ?l" using False by simp
    ultimately show ?thesis
      using False fits len by (simp add: LEFT_LEN_wf [OF wf] wp_simps runs_set_path trans_less_add1)
  qed
qed (auto simp: wp_simps is_node_def intro!: exI [of _ "path p" for p] exI [of _ "path_len p" for p])

text \<open>The position stands at index \<open>i\<close> of \<open>x\<close>, and what it caches is the text there.\<close>

definition cache_ok :: "cord \<Rightarrow> cord_pos \<Rightarrow> cord \<Rightarrow> nat \<Rightarrow> bool" where
  "cache_ok x p c t \<longleftrightarrow>
     (case c of
        C_String s \<Rightarrow> cur_leaf p = String_Leaf s \<and> cur_start p = t \<and> cur_end p = t + length s
      | Function h n fn \<Rightarrow>
          cur_end p = 0 \<or>
          cur_leaf p = Function_Buf \<and> t < cur_start p \<and> cur_start p \<le> cur_pos p \<and> cur_pos p < cur_end p \<and> cur_end p \<le> t + n \<and>
          cur_end p \<le> cur_start p + FUNCTION_BUF_SZ \<and>
          (\<forall>i < cur_end p - cur_start p. function_buf p ! i = chars x ! (cur_start p + i))
      | _ \<Rightarrow> False)"

definition stands_at :: "cord \<Rightarrow> nat \<Rightarrow> cord_pos \<Rightarrow> bool" where
  "stands_at x i p \<longleftrightarrow>
     path_ok x (path p) (path_len p) \<and> length (function_buf p) = FUNCTION_BUF_SZ \<and> cur_pos p = i \<and>
     length (chars x) + FUNCTION_BUF_SZ < SIZE \<and>
     (\<exists>c t. path p ! path_len p = Some (c, t) \<and> t \<le> i \<and> i < t + length (chars c) \<and> cache_ok x p c t)"

lemma stands_at_valid: "stands_at x i p \<Longrightarrow> CORD_pos_valid p"
  by (auto simp: stands_at_def path_ok_def CORD_pos_valid_def CORD_POS_INVALID_def MAX_DEPTH_def)

lemma stands_at_less: "stands_at x i p \<Longrightarrow> i < length (chars x)"
  by (force simp: stands_at_def path_ok_def segment_def)

lemma set_leaf_ok:
  assumes "path_ok x (path p) (path_len p)" and "path p ! path_len p = Some (c, t)" and "\<not> is_node c" and "t \<le> cur_pos p"
    and "length (chars x) + FUNCTION_BUF_SZ < SIZE" and "length (function_buf p) = FUNCTION_BUF_SZ"
  shows "runs (set_leaf (cur_pos p) c t (length (chars c))) (\<lambda>_ p'.
    if cur_pos p < t + length (chars c) then stands_at x (cur_pos p) p' else \<not> CORD_pos_valid p') p"
proof -
  have "segment x c t" using path_ok_entry [OF assms(1) order_refl] assms(2) by auto
  then have "cord_wf c" "\<not> is_empty c" "t + length (chars c) < SIZE" using assms(5) by (simp_all add: segment_def)
  with assms show ?thesis
    by (cases c) (auto simp: set_leaf_def wp_simps is_node_def stands_at_def cache_ok_def CORD_pos_valid_def)
qed

lemma CORD__extend_path_ok:
  assumes "path_ok x (path p) (path_len p)" and "path p ! path_len p = Some (c, t)" and "t \<le> cur_pos p"
    and "length (chars x) + FUNCTION_BUF_SZ < SIZE" and "length (function_buf p) = FUNCTION_BUF_SZ"
  shows "runs CORD__extend_path (\<lambda>_ p'.
    if cur_pos p < t + length (chars c) then stands_at x (cur_pos p) p' else \<not> CORD_pos_valid p') p"
proof -
  have "segment x c t" using path_ok_entry [OF assms(1) order_refl] assms(2) by auto
  then have len: "GEN_LEN c = (ret (length (chars c)) :: (cord_pos, nat) run)" by (simp add: segment_def)
  have "runs (extend_loop c (cur_pos p) t (length (chars c))) (\<lambda>(c', t', n). runs (set_leaf (cur_pos p) c' t' n) (\<lambda>_ p'.
      if cur_pos p < t + length (chars c) then stands_at x (cur_pos p) p' else \<not> CORD_pos_valid p')) p"
  proof (rule wp_mono [OF extend_loop_ok [OF assms(1-3)]], use assms(4) in simp, clarify)
    fix c' t' ps K
    assume "path_ok x ps K" "ps ! K = Some (c', t')" "\<not> is_node c'" "t' \<le> cur_pos p"
      and "cur_pos p < t + length (chars c) \<longleftrightarrow> cur_pos p < t' + length (chars c')"
    then show "runs (set_leaf (cur_pos p) c' t' (length (chars c'))) (\<lambda>_ p'.
        if cur_pos p < t + length (chars c) then stands_at x (cur_pos p) p' else \<not> CORD_pos_valid p')
        (p\<lparr>path := ps, path_len := K\<rparr>)"
      using set_leaf_ok [of x "p\<lparr>path := ps, path_len := K\<rparr>" c' t'] assms(4,5) by (simp cong: if_cong)
  qed
  then show ?thesis
    by (simp add: CORD__extend_path_def wp_simps runs_path_at [OF assms(1)] assms(2) len case_prod_unfold)
qed

lemma CORD_set_pos_ok:
  assumes "cord_ok x" and "\<not> is_empty x" and "fresh_pos p" and "length (chars x) + FUNCTION_BUF_SZ < SIZE"
  shows "runs (CORD_set_pos x i) (\<lambda>_ p'. if i < length (chars x) then stands_at x i p' else \<not> CORD_pos_valid p') p"
proof -
  let ?p = "p\<lparr>path := (path p)[0 := Some (x, 0)], path_len := 0, cur_pos := i\<rparr>"
  have "path_ok x (path ?p) (path_len ?p)" and "path ?p ! path_len ?p = Some (x, 0)"
    using assms by (auto simp: path_ok_def fresh_pos_def segment_def cord_ok_def MAX_DEPTH_def)
  from CORD__extend_path_ok [OF this] assms show ?thesis
    by (simp add: CORD_set_pos_def wp_simps runs_set_path fresh_pos_def cong: if_cong)
qed

lemma CORD_pos_fetch_ok:
  assumes "stands_at x i p"
  shows "CORD_pos_fetch p = Done p (chars x ! i)"
proof -
  obtain c t where c: "path p ! path_len p = Some (c, t)" "t \<le> i" "i < t + length (chars c)" "cache_ok x p c t"
      "path_ok x (path p) (path_len p)" "cur_pos p = i" "length (chars x) + FUNCTION_BUF_SZ < SIZE"
    using assms by (auto simp: stands_at_def)
  have seg: "segment x c t" using path_ok_entry [OF c(5) order_refl] c(1) by auto
  then have char: "chars x ! i = chars c ! (i - t)"
    using c(2,3) by (auto simp: segment_def dest!: spec [of _ "i - t"])
  show ?thesis
  proof (cases c)
    case (C_String s)
    with c(2,3) have "i - t < length s" "0 < t + length s" by auto
    with C_String c char show ?thesis
      by (simp add: CORD_pos_fetch_def andthen_def reads_def cache_ok_def leaf_char_def byte_at_def ret_def)
  next
    case (Function h n fn)
    then have wf: "fn_wf n fn" using seg by (simp add: segment_def)
    show ?thesis
    proof (cases "cur_end p = 0")
      case True
      with Function c char wf show ?thesis
        by (simp add: CORD_pos_fetch_def CORD__pos_fetch_def andthen_def reads_def stands_at_valid [OF assms]
            path_at_ok [OF c(5)] fn_call_wf [of n]) (simp add: ret_def)
    next
      case False
      with Function c(4,6) show ?thesis
        by (auto simp: CORD_pos_fetch_def andthen_def reads_def cache_ok_def leaf_char_def dest!: spec [of _ "i - cur_start p"])
    qed
  qed (use c(4) in \<open>simp_all add: cache_ok_def\<close>)
qed

section \<open>Moving forward\<close>

text \<open>Popping stops at the root, at the end of the text, or below the node whose right child comes next.\<close>

definition popped :: "cord \<Rightarrow> cord_pos \<Rightarrow> nat \<Rightarrow> nat \<Rightarrow> bool" where
  "popped x p i k \<longleftrightarrow>
     (if k = 0 then i = length (chars x)
      else \<exists>d ll n l r s. path p ! (k - 1) = Some (Concatenation d ll n l r, s) \<and> s + length (chars l) = i)"

lemma pop_right_ok:
  assumes "path_ok x (path p) K" and "path p ! K = Some (c, t)"
  shows "\<exists>k \<le> K. pop_right K p = Done p k \<and> popped x p (t + length (chars c)) k"
  using assms
proof (induction K arbitrary: c t)
  case 0
  then have "c = x" "t = 0" by (auto simp: path_ok_def)
  then show ?case by (simp add: ret_def popped_def)
next
  case (Suc K)
  have path: "path_ok x (path p) K" by (rule path_ok_shorter [OF Suc.prems(1)]) simp
  obtain a s where parent: "path p ! K = Some (a, s)" "segment x a s"
    using path_ok_entry [OF Suc.prems(1), of K] by auto
  have "child (a, s) (c, t)"
    using Suc.prems parent(1) by (auto simp: path_ok_def dest!: spec [of _ K])
  then obtain d ll n l r where a: "a = Concatenation d ll n l r" and ct: "(c, t) = (l, s) \<or> (c, t) = (r, s + length (chars l))"
    by (auto simp: child_def split: cord.splits)
  have "0 < length (chars l)" using parent(2) a chars_pos [of l] by (auto simp: segment_def)
  then have test: "t = s \<longleftrightarrow> (c, t) = (l, s)" using ct by auto
  have run: "pop_right (Suc K) p = (if t \<noteq> s then pop_right K p else Done p (Suc K))"
    using Suc.prems(2) parent(1)
    by (simp add: andthen_def path_at_ok [OF Suc.prems(1)]) (simp add: ret_def)
  show ?case
  proof (cases "t = s")
    case True
    with test have "c = l" by simp
    with True parent(1) a have "popped x p (t + length (chars c)) (Suc K)" by (auto simp: popped_def)
    moreover have "pop_right (Suc K) p = Done p (Suc K)" using run True by (simp only: if_False simp_thms)
    ultimately show ?thesis by blast
  next
    case False
    with ct test have "c = r" "t = s + length (chars l)" by blast+
    then have same: "s + length (chars a) = t + length (chars c)" by (simp add: a)
    obtain k where k: "k \<le> K" "pop_right K p = Done p k" "popped x p (s + length (chars a)) k"
      using Suc.IH [OF path parent(1)] by blast
    have "pop_right (Suc K) p = Done p k" using run False k(2) by (simp only: if_True not_False_eq_True)
    with k(1,3) same show ?thesis by (intro exI [of _ k] conjI) (simp_all only: le_SucI)
  qed
qed

lemma leave_leaf_ok:
  assumes "path_ok x (path p) (path_len p)" and "path p ! path_len p = Some (c, t)" and "cur_pos p = t + length (chars c)"
    and "length (chars x) + FUNCTION_BUF_SZ < SIZE" and "length (function_buf p) = FUNCTION_BUF_SZ"
  shows "runs (leave_leaf (path_len p)) (\<lambda>_ p'.
    if cur_pos p < length (chars x) then stands_at x (cur_pos p) p' else \<not> CORD_pos_valid p') p"
proof -
  obtain k where k: "k \<le> path_len p" "pop_right (path_len p) p = Done p k" "popped x p (t + length (chars c)) k"
    using pop_right_ok [OF assms(1,2)] by blast
  show ?thesis
  proof (cases k)
    case 0
    with k assms(3) show ?thesis
      by (simp add: popped_def leave_leaf_def wp_def andthen_def modifies_def CORD_pos_valid_def)
  next
    case (Suc j)
    then obtain d ll n l r s where node: "path p ! j = Some (Concatenation d ll n l r, s)" "s + length (chars l) = cur_pos p"
      using k(3) assms(3) by (auto simp: popped_def)
    have path: "path_ok x (path p) j" by (rule path_ok_shorter [OF assms(1)]) (use k(1) Suc in simp)
    then have seg: "segment x (Concatenation d ll n l r) s" using path_ok_entry [of x "path p" j j] node(1) by auto
    then have "0 < length (chars r)" "s + length (chars l) + length (chars r) \<le> length (chars x)"
      using chars_pos [of r] by (auto simp: segment_def)
    then have "0 < length (chars r)" "cur_pos p < length (chars x)" using node(2) by linarith+
    with CORD__extend_path_ok [of x "p\<lparr>path_len := j\<rparr>" "Concatenation d ll n l r" s] path node assms(4,5) k(2) Suc
    show ?thesis by (simp add: leave_leaf_def wp_simps wp_Done [of "pop_right (path_len p)"] cong: if_cong)
  qed
qed

lemma fill_buf_ok:
  assumes "fn_wf len fn" and "i + n \<le> len" and "k + n \<le> length (function_buf p)"
  shows "\<exists>buf. fill_buf fn i k n p = Done (p\<lparr>function_buf := buf\<rparr>) () \<and> length buf = length (function_buf p) \<and>
    (\<forall>j<k. buf ! j = function_buf p ! j) \<and> (\<forall>j<n. buf ! (k + j) = fn_char fn (i + j))"
  using assms(2,3)
proof (induction n arbitrary: i k p)
  case 0
  then show ?case by (intro exI [of _ "function_buf p"]) (simp add: ret_def)
next
  case (Suc n)
  let ?p = "p\<lparr>function_buf := (function_buf p)[k := fn_char fn i]\<rparr>"
  obtain buf where buf: "fill_buf fn (Suc i) (Suc k) n ?p = Done (?p\<lparr>function_buf := buf\<rparr>) ()"
      "length buf = length (function_buf p)" "\<forall>j<Suc k. buf ! j = (function_buf p)[k := fn_char fn i] ! j"
      "\<forall>j<n. buf ! (Suc k + j) = fn_char fn (Suc i + j)"
    using Suc.IH [of "Suc i" "Suc k" ?p] Suc.prems by auto
  have "fill_buf fn i k (Suc n) p = Done (p\<lparr>function_buf := buf\<rparr>) ()"
    using buf(1) Suc.prems assms(1) by (simp add: fn_call_wf [of len]) (simp add: andthen_def)
  moreover have "\<forall>j<Suc n. buf ! (k + j) = fn_char fn (i + j)"
  proof (intro allI impI)
    fix j assume "j < Suc n"
    with buf(3,4) Suc.prems(2) show "buf ! (k + j) = fn_char fn (i + j)"
      by (cases j) (auto dest: spec [of _ k])
  qed
  ultimately show ?case using buf(2,3) by (auto simp: less_Suc_eq intro!: exI [of _ buf])
qed

lemma CORD__next_string:
  assumes "stands_at x i p" and "path p ! path_len p = Some (C_String s, t)" and "i + 1 = t + length s"
  shows "runs CORD__next (\<lambda>_ p'. if i + 1 < length (chars x) then stands_at x (i + 1) p' else \<not> CORD_pos_valid p') p"
proof -
  have at: "path_ok x (path p) (path_len p)" "length (function_buf p) = FUNCTION_BUF_SZ" "cur_pos p = i" "length (chars x) + FUNCTION_BUF_SZ < SIZE"
    using assms(1) by (auto simp: stands_at_def)
  have s: "s \<noteq> []" using path_ok_entry [OF at(1) order_refl] assms(2) by (auto simp: segment_def)
  have "i + 1 < SIZE" using stands_at_less [OF assms(1)] at(4) by simp
  with leave_leaf_ok [of x "p\<lparr>cur_pos := i + 1\<rparr>" "C_String s" t] at assms(2,3) s stands_at_valid [OF assms(1)]
  show ?thesis by (simp add: CORD__next_def wp_simps runs_path_at [OF at(1)] cong: if_cong)
qed

lemma CORD__next_function_end:
  assumes "stands_at x i p" and "path p ! path_len p = Some (Function h n fn, t)" and "i + 1 = t + n"
  shows "runs CORD__next (\<lambda>_ p'. if i + 1 < length (chars x) then stands_at x (i + 1) p' else \<not> CORD_pos_valid p') p"
proof -
  have at: "path_ok x (path p) (path_len p)" "length (function_buf p) = FUNCTION_BUF_SZ" "cur_pos p = i" "length (chars x) + FUNCTION_BUF_SZ < SIZE"
    using assms(1) by (auto simp: stands_at_def)
  have fits: "i + 1 < SIZE" "t + n < SIZE" using stands_at_less [OF assms(1)] at(4) assms(3) by auto
  with leave_leaf_ok [of x "p\<lparr>cur_pos := i + 1\<rparr>" "Function h n fn" t] at assms(2,3) stands_at_valid [OF assms(1)]
  show ?thesis by (simp add: CORD__next_def wp_simps runs_path_at [OF at(1)] cong: if_cong)
qed

lemma CORD__next_function:
  assumes "stands_at x i p" and "path p ! path_len p = Some (Function h n fn, t)" and "i + 1 < t + n"
  shows "runs CORD__next (\<lambda>_. stands_at x (i + 1)) p"
proof -
  have at: "path_ok x (path p) (path_len p)" "length (function_buf p) = FUNCTION_BUF_SZ" "cur_pos p = i" "length (chars x) + FUNCTION_BUF_SZ < SIZE"
    and t: "t \<le> i" using assms(1,2) by (auto simp: stands_at_def)
  have seg: "segment x (Function h n fn) t" using path_ok_entry [OF at(1) order_refl] assms(2) by auto
  then have wf: "fn_wf n fn" and tn: "t + n \<le> length (chars x)"
    and char: "\<And>j. j < n \<Longrightarrow> chars x ! (t + j) = fn_char fn j" by (auto simp: segment_def)
  define limit where "limit = (if t + n < i + 1 + FUNCTION_BUF_SZ then t + n else i + 1 + FUNCTION_BUF_SZ)"
  have limit: "limit \<le> t + n" "limit \<le> i + 1 + FUNCTION_BUF_SZ" "i + 1 < limit"
    using assms(3) by (auto simp: limit_def FUNCTION_BUF_SZ_def)
  have "size_add i 1 = i + 1" "size_add t n = t + n" "size_add (i + 1) FUNCTION_BUF_SZ = i + 1 + FUNCTION_BUF_SZ"
    using assms(3) tn at(4) by (auto simp: FUNCTION_BUF_SZ_def)
  note sizes = this
  let ?k = "limit - (i + 1)"
  obtain buf where buf: "fill_buf fn (i + 1 - t) 0 ?k (p\<lparr>cur_pos := i + 1\<rparr>) = Done (p\<lparr>cur_pos := i + 1, function_buf := buf\<rparr>) ()"
      "length buf = FUNCTION_BUF_SZ" "\<forall>j<?k. buf ! j = fn_char fn (i + 1 - t + j)"
    using fill_buf_ok [OF wf, of "i + 1 - t" ?k 0 "p\<lparr>cur_pos := i + 1\<rparr>"] at(2) t limit
    by (auto simp: le_diff_conv)
  let ?p = "p\<lparr>cur_pos := i + 1, function_buf := buf, cur_start := i + 1, cur_leaf := Function_Buf, cur_end := limit\<rparr>"
  have "buf ! j = chars x ! (i + 1 + j)" if "j < ?k" for j
    using buf(3) that char [of "i + 1 - t + j"] t limit(1) by (simp add: add.assoc)
  then have "stands_at x (i + 1) ?p"
    using at buf(2) t assms(2,3) limit by (auto simp: stands_at_def cache_ok_def)
  moreover have "CORD__next p = Done ?p ()"
    using assms(2,3) sizes buf(1) t stands_at_valid [OF assms(1)] at(3)
    by (cases "t + n < Suc (i + FUNCTION_BUF_SZ)")
       (simp_all add: CORD__next_def andthen_def reads_def modifies_def path_at_ok [OF at(1)] ret_def limit_def Let_def)
  ultimately show ?thesis by (simp add: wp_def)
qed

lemma CORD_next_ok:
  assumes "stands_at x i p"
  shows "runs CORD_next (\<lambda>_ p'. if i + 1 < length (chars x) then stands_at x (i + 1) p' else \<not> CORD_pos_valid p') p"
proof -
  obtain c t where at: "path_ok x (path p) (path_len p)" "cur_pos p = i" "length (chars x) + FUNCTION_BUF_SZ < SIZE"
      and c: "path p ! path_len p = Some (c, t)" "t \<le> i" "i < t + length (chars c)" "cache_ok x p c t"
    using assms by (auto simp: stands_at_def)
  have "segment x c t" using path_ok_entry [OF at(1) order_refl] c(1) by auto
  then have end_x: "t + length (chars c) \<le> length (chars x)" by (simp add: segment_def)
  have size: "size_add i 1 = i + 1" using stands_at_less [OF assms] at(3) by simp
  show ?thesis
  proof (cases "i + 1 < cur_end p")
    case True
    have cur_end: "cur_end p \<le> t + length (chars c)" using c(4) True by (auto simp: cache_ok_def split: cord.splits)
    have "cache_ok x (p\<lparr>cur_pos := i + 1\<rparr>) c t"
      using c(4) True at(2) by (auto simp: cache_ok_def split: cord.splits)
    with assms c(1,2) True cur_end have "stands_at x (i + 1) (p\<lparr>cur_pos := i + 1\<rparr>)"
      by (auto simp: stands_at_def)
    with True size at(2) cur_end end_x show ?thesis by (simp add: CORD_next_def wp_simps)
  next
    case False
    then have step: "runs CORD_next Q p = runs CORD__next Q p" for Q
      using size at(2) by (simp add: CORD_next_def wp_simps)
    show ?thesis
    proof (cases c)
      case (C_String s)
      with False c have "i + 1 = t + length s" by (auto simp: cache_ok_def)
      with CORD__next_string [OF assms] C_String c(1) step show ?thesis by simp
    next
      case (Function h n fn)
      show ?thesis
      proof (cases "i + 1 < t + n")
        case True
        with CORD__next_function [OF assms, of h n fn t] Function c(1) step end_x show ?thesis by simp
      next
        case False
        with c(3) Function have "i + 1 = t + n" by simp
        with CORD__next_function_end [OF assms, of h n fn t] Function c(1) step show ?thesis by simp
      qed
    qed (use c(4) in \<open>simp_all add: cache_ok_def\<close>)
  qed
qed

lemma for_loop_ok:
  "stands_at x i p \<Longrightarrow> length (chars x) < i + n \<Longrightarrow>
   \<exists>p'. for_loop n (take i (chars x)) p = Done p' (chars x) \<and> \<not> CORD_pos_valid p'"
proof (induction n arbitrary: i p)
  case 0
  then show ?case using stands_at_less by force
next
  case (Suc n)
  have i: "i < length (chars x)" by (rule stands_at_less [OF Suc.prems(1)])
  obtain p' where p': "CORD_next p = Done p' ()"
      "if i + 1 < length (chars x) then stands_at x (i + 1) p' else \<not> CORD_pos_valid p'"
    using CORD_next_ok [OF Suc.prems(1)] by (auto simp: wp_def split: outcome.splits)
  have buf: "take i (chars x) @ [chars x ! i] = take (i + 1) (chars x)" using i by (simp add: take_Suc_conv_app_nth)
  have run: "for_loop (Suc n) (take i (chars x)) p = for_loop n (take (i + 1) (chars x)) p'"
    using stands_at_valid [OF Suc.prems(1)] CORD_pos_fetch_ok [OF Suc.prems(1)] p'(1) buf
    by (simp add: andthen_def reads_def)
  show ?case
  proof (cases "i + 1 < length (chars x)")
    case True
    with Suc.IH [of "i + 1" p'] p'(2) Suc.prems(2) run show ?thesis by simp
  next
    case False
    with i Suc.prems(2) obtain m where "n = Suc m" by (cases n) auto
    with False p'(2) run i show ?thesis by (simp add: andthen_def reads_def ret_def)
  qed
qed

section \<open>Moving backward\<close>

lemma pop_left_ok:
  assumes "path_ok x (path p) K" and "path p ! K = Some (c, t)" and "0 < t"
  shows "\<exists>k < K. pop_left K p = Done p (Suc k) \<and>
    (\<exists>d ll n l r s. path p ! k = Some (Concatenation d ll n l r, s) \<and> s + length (chars l) = t)"
  using assms
proof (induction K arbitrary: c t)
  case 0
  then show ?case by (auto simp: path_ok_def)
next
  case (Suc K)
  have path: "path_ok x (path p) K" by (rule path_ok_shorter [OF Suc.prems(1)]) simp
  obtain a s where parent: "path p ! K = Some (a, s)" "segment x a s"
    using path_ok_entry [OF Suc.prems(1), of K] by auto
  have "child (a, s) (c, t)"
    using Suc.prems parent(1) by (auto simp: path_ok_def dest!: spec [of _ K])
  then obtain d ll n l r where a: "a = Concatenation d ll n l r" and ct: "(c, t) = (l, s) \<or> (c, t) = (r, s + length (chars l))"
    by (auto simp: child_def split: cord.splits)
  have "0 < length (chars l)" using parent(2) a chars_pos [of l] by (auto simp: segment_def)
  have run: "pop_left (Suc K) p = (if t = s then pop_left K p else Done p (Suc K))"
    using Suc.prems(2) parent(1)
    by (simp add: andthen_def path_at_ok [OF Suc.prems(1)]) (simp add: ret_def)
  show ?case
  proof (cases "t = s")
    case True
    obtain k where "k < K" "pop_left K p = Done p (Suc k)"
        "\<exists>d ll n l r s. path p ! k = Some (Concatenation d ll n l r, s) \<and> s + length (chars l) = t"
      using Suc.IH [OF path parent(1)] Suc.prems(3) True by blast
    with run True show ?thesis by (metis less_SucI)
  next
    case False
    with ct have "s + length (chars l) = t" by auto
    moreover have "pop_left (Suc K) p = Done p (Suc K)" using run False by (simp only: if_False)
    ultimately show ?thesis using parent(1) a by blast
  qed
qed

lemma CORD_prev_ok:
  assumes "stands_at x i p" and "cur_leaf p = Function_Buf \<longrightarrow> cur_end p = 0 \<or> cur_start p < i"
  shows "runs CORD_prev (\<lambda>_ p'. if i = 0 then \<not> CORD_pos_valid p' else stands_at x (i - 1) p') p"
proof -
  obtain c t where at: "path_ok x (path p) (path_len p)" "cur_pos p = i" "length (chars x) + FUNCTION_BUF_SZ < SIZE"
        "length (function_buf p) = FUNCTION_BUF_SZ"
      and c: "path p ! path_len p = Some (c, t)" "t \<le> i" "i < t + length (chars c)" "cache_ok x p c t"
    using assms(1) by (auto simp: stands_at_def)
  consider "i = 0" | "0 < i" "cur_end p \<noteq> 0" "cur_start p < i" | "0 < i" "cur_end p = 0 \<or> i \<le> cur_start p" "t < i"
    | "0 < i" "cur_end p = 0 \<or> i \<le> cur_start p" "t = i" using c(2) by linarith
  then show ?thesis
  proof cases
    case 1
    with at(2) show ?thesis by (simp add: CORD_prev_def CORD__prev_def wp_simps CORD_pos_valid_def)
  next
    case 2
    have "t \<le> i - 1" and "cache_ok x (p\<lparr>cur_pos := i - 1\<rparr>) c t"
      using c(4) 2 at(2) by (auto simp: cache_ok_def split: cord.splits)
    with assms(1) c(1,3) 2 have "stands_at x (i - 1) (p\<lparr>cur_pos := i - 1\<rparr>)" by (auto simp: stands_at_def)
    with 2 at(2) show ?thesis by (simp add: CORD_prev_def wp_simps)
  next
    case 3
    have "cur_end p = 0" using c(4) 3 assms(2) by (auto simp: cache_ok_def split: cord.splits)
    then have "cache_ok x (p\<lparr>cur_pos := i - 1\<rparr>) c t"
      using c(3,4) 3 by (auto simp: cache_ok_def split: cord.splits)
    with assms(1) c(1,3) 3 have "stands_at x (i - 1) (p\<lparr>cur_pos := i - 1\<rparr>)" by (auto simp: stands_at_def)
    moreover have "t \<le> i - 1" using 3 by simp
    ultimately show ?thesis using 3 at(1,2) c(1) \<open>cur_end p = 0\<close>
      by (simp add: CORD_prev_def CORD__prev_def wp_simps runs_path_at [of x _ "path_len p"])
  next
    case 4
    let ?q = "p\<lparr>cur_pos := i - 1\<rparr>"
    obtain k d ll n l r s where k: "k < path_len p" "pop_left (path_len p) ?q = Done ?q (Suc k)"
        "path p ! k = Some (Concatenation d ll n l r, s)" "s + length (chars l) = t"
      using pop_left_ok [of x ?q "path_len p" c t] at(1) c(1) 4 by auto
    have path: "path_ok x (path p) k" by (rule path_ok_shorter [OF at(1)]) (use k(1) in simp)
    then have seg: "segment x (Concatenation d ll n l r) s" using path_ok_entry [of x "path p" k k] k(3) by auto
    then have "0 < length (chars l)" using chars_pos [of l] by (auto simp: segment_def)
    then have "s \<le> i - 1" "i - 1 < s + length (chars (Concatenation d ll n l r))"
      using k(4) 4(3) unfolding chars.simps length_append by linarith+
    with CORD__extend_path_ok [of x "?q\<lparr>path_len := k\<rparr>" "Concatenation d ll n l r" s] path k(3) at(3,4)
    have "runs CORD__extend_path (\<lambda>_. stands_at x (i - 1)) (?q\<lparr>path_len := k\<rparr>)" by simp
    moreover have "\<not> t \<le> i - 1" using 4 by simp
    ultimately show ?thesis
      using 4 at(1,2) c(1) k(2)
      by (auto simp: CORD_prev_def CORD__prev_def wp_simps runs_path_at [of x _ "path_len p"] wp_Done [of "pop_left (path_len p)"])
  qed
qed

section \<open>Properties\<close>

text \<open>
  C23. Reading a cord through a position gives its text: the loop \<open>CORD_FOR\<close> over any well-formed cord
  ends, fetches every character once and in order, never leaves the path array or the buffer, and
  reads no entry of the path that was not written.
\<close>

theorem CORD_FOR_reads_text:
  assumes "cord_ok x" and "length (chars x) + FUNCTION_BUF_SZ < SIZE" and "fresh_pos p"
  shows "\<exists>p'. CORD_FOR (length (chars x) + 1) x p = Done p' (chars x) \<and> \<not> CORD_pos_valid p'"
proof (cases "is_empty x")
  case True
  then show ?thesis
    by (simp add: is_empty_iff CORD_FOR_def CORD_set_pos_def andthen_def modifies_def reads_def ret_def CORD_pos_valid_def)
next
  case False
  then have "0 < length (chars x)" using assms(1) chars_pos by (simp add: cord_ok_def)
  with CORD_set_pos_ok [OF assms(1) False assms(3,2), of 0] obtain p' where "CORD_set_pos x 0 p = Done p' ()" "stands_at x 0 p'"
    by (auto simp: wp_def split: outcome.splits)
  with for_loop_ok [of x 0 p' "length (chars x) + 1"] show ?thesis by (simp add: CORD_FOR_def andthen_def)
qed

definition blank_pos :: cord_pos where
  "blank_pos = \<lparr>cur_pos = 0, path_len = 0, cur_leaf = Null_Leaf, cur_start = 0, cur_end = 0,
     path = replicate (MAX_DEPTH + 1) None, function_buf = replicate FUNCTION_BUF_SZ NUL\<rparr>"

lemma fresh_blank [simp]: "fresh_pos blank_pos"
  by (simp add: fresh_pos_def blank_pos_def)

theorem CORD_FOR_reads_text_witness:
  "\<exists>p'. CORD_FOR 4 (Concatenation 1 1 3 (C_String ''a'') (C_String ''bc'')) blank_pos = Done p' ''abc''"
proof -
  let ?x = "Concatenation 1 1 3 (C_String ''a'') (C_String ''bc'')"
  have "cord_ok ?x" "length (chars ?x) + FUNCTION_BUF_SZ < SIZE" "length (chars ?x) + 1 = 4" "chars ?x = ''abc''"
    by (simp_all add: cord_ok_def MAX_DEPTH_def MAX_LEFT_LEN_def SIZE_def NUL_def FUNCTION_BUF_SZ_def)
  with CORD_FOR_reads_text [of ?x blank_pos] show ?thesis by (simp only: fresh_blank) blast
qed

text \<open>
  Random access: setting a position to an index inside the cord and fetching gives the
  character of the text at that index; an index at or behind the end gives an invalid position.
\<close>

theorem CORD_set_pos_fetches:
  assumes "cord_ok x" and "length (chars x) + FUNCTION_BUF_SZ < SIZE" and "fresh_pos p"
  shows "\<exists>p'. CORD_set_pos x i p = Done p' () \<and>
    (if i < length (chars x) then CORD_pos_fetch p' = Done p' (chars x ! i) \<and> CORD_pos_to_index p' = Done p' i
     else \<not> CORD_pos_valid p')"
proof (cases "is_empty x")
  case True
  then show ?thesis by (simp add: is_empty_iff CORD_set_pos_def modifies_def CORD_pos_valid_def)
next
  case False
  have "cur_pos p' = i" if "stands_at x i p'" for p' using that by (simp add: stands_at_def)
  with CORD_set_pos_ok [OF assms(1) False assms(3,2), of i] CORD_pos_fetch_ok [of x i] show ?thesis
    by (auto simp: wp_def CORD_pos_to_index_def reads_def split: outcome.splits if_splits)
qed

theorem CORD_set_pos_fetches_witness:
  "\<exists>p'. CORD_set_pos (C_String ''abc'') 1 blank_pos = Done p' () \<and> CORD_pos_fetch p' = Done p' CHR ''b''"
  using CORD_set_pos_fetches [of "C_String ''abc''" blank_pos 1]
  by (auto simp: cord_ok_def MAX_DEPTH_def SIZE_def NUL_def FUNCTION_BUF_SZ_def)

text \<open>
  Moving backward works on strings: from a position whose current character does not come from
  the first place of the buffer for function nodes, \<open>CORD_prev\<close> moves to the preceding character,
  or makes the position invalid at the beginning.
\<close>

theorem CORD_prev_moves_back:
  assumes "stands_at x i p" and "cur_leaf p = Function_Buf \<longrightarrow> cur_end p = 0 \<or> cur_start p < i"
  shows "\<exists>p'. CORD_prev p = Done p' () \<and>
    (if i = 0 then \<not> CORD_pos_valid p' else CORD_pos_fetch p' = Done p' (chars x ! (i - 1)))"
  using CORD_prev_ok [OF assms] CORD_pos_fetch_ok [of x "i - 1"]
  by (auto simp: wp_def split: outcome.splits if_splits)

lemma sample_position: "\<exists>p. stands_at (C_String ''ab'') 1 p \<and> cur_leaf p \<noteq> Function_Buf"
proof -
  obtain p where "CORD_set_pos (C_String ''ab'') 1 blank_pos = Done p ()" "stands_at (C_String ''ab'') 1 p"
    using CORD_set_pos_ok [of "C_String ''ab''" blank_pos 1]
    by (auto simp: wp_def cord_ok_def MAX_DEPTH_def SIZE_def NUL_def FUNCTION_BUF_SZ_def split: outcome.splits)
  moreover from this have "path p ! path_len p = Some (C_String ''ab'', 0)"
    by (auto simp: CORD_set_pos_def CORD__extend_path_def set_leaf_def set_path_def path_at_def blank_pos_def GEN_LEN_def
        andthen_def modifies_def reads_def ret_def MAX_DEPTH_def size_add_def SIZE_def split: if_splits)
  ultimately show ?thesis by (auto simp: stands_at_def cache_ok_def)
qed

theorem CORD_prev_moves_back_witness:
  "\<exists>p p'. stands_at (C_String ''ab'') 1 p \<and> CORD_prev p = Done p' () \<and> CORD_pos_fetch p' = Done p' CHR ''a''"
  using sample_position CORD_prev_moves_back [of "C_String ''ab''" 1] by fastforce

text \<open>
  Moving backward fails on function nodes: a step forward and a step back from the first
  character of a function node, and the next fetch reads outside the buffer of the position.
\<close>

theorem CORD_prev_reads_outside_buffer:
  assumes "fresh_pos p"
  shows "andthen (CORD_set_pos (Function FN_HDR 2 (Client_fn f)) 0) (\<lambda>_. andthen CORD_next (\<lambda>_.
    andthen CORD_prev (\<lambda>_. CORD_pos_fetch))) p = Fault Out_Of_Bounds"
proof -
  have "size_sub 0 1 = SIZE - 1" by (simp add: size_sub_def)
  with assms show ?thesis
    by (simp add: fresh_pos_def MAX_DEPTH_def FUNCTION_BUF_SZ_def SIZE_def andthen_def modifies_def reads_def ret_def
        CORD_set_pos_def CORD__extend_path_def set_leaf_def set_path_def path_at_def GEN_LEN_def size_add_def size_sub_def
        CORD_next_def CORD__next_def CORD_pos_valid_def CORD_POS_INVALID_def Let_def CORD_prev_def CORD__prev_def
        CORD_pos_fetch_def leaf_char_def)
qed

theorem CORD_prev_reads_outside_buffer_witness:
  "andthen (CORD_set_pos (Function FN_HDR 2 (Client_fn (\<lambda>i. CHR ''a''))) 0) (\<lambda>_. andthen CORD_next (\<lambda>_.
    andthen CORD_prev (\<lambda>_. CORD_pos_fetch))) blank_pos = Fault Out_Of_Bounds"
  by (rule CORD_prev_reads_outside_buffer) simp

end
