(* ===== verification/Cord_Extra.thy ===== *)
theory Cord_Extra
  imports Cord_Position
begin

text \<open>
  The convenience functions of \<open>gc-8.0.4/cord/cordxtra.c\<close> that build, convert and search cords:
  repeated characters, appending a character, concatenating many cords, copying a cord into a C
  string, fetching a character, and looking for a character from either end.

  Memory that is allocated without clearing is a list of bytes that are \<open>None\<close> until they are written.
  The iteration callbacks are proved against an interface, the locale \<open>visitor\<close>: what holds of the
  client data after a piece of the text, for single characters and for batches.
\<close>

section \<open>Building cords\<close>

text \<open>\<open>CORD_nul_func\<close> returns the character in its client data, for every index.\<close>

definition CORD_chars :: "char \<Rightarrow> nat \<Rightarrow> ('s, cord) run" where
  "CORD_chars c i = CORD_from_fn (Client_fn (\<lambda>_. c)) i"

definition CORD_nul :: "nat \<Rightarrow> ('s, cord) run" where
  "CORD_nul i = CORD_chars NUL i"

definition CORD_cat_char :: "nat \<Rightarrow> cord \<Rightarrow> char \<Rightarrow> (cord_globals, cord) run" where
  "CORD_cat_char k x c =
     (if c = NUL then andthen (CORD_nul 1) (\<lambda>y. CORD_cat k x y) else CORD_cat_char_star k x [c] 1)"

fun catn_loop :: "nat \<Rightarrow> cord \<Rightarrow> cord list \<Rightarrow> (cord_globals, cord) run" where
  "catn_loop k result [] = ret result"
| "catn_loop k result (x # xs) = andthen (CORD_cat k result x) (\<lambda>result. catn_loop k result xs)"

definition CORD_catn :: "nat \<Rightarrow> cord list \<Rightarrow> (cord_globals, cord) run" where
  "CORD_catn k xs = catn_loop k CORD_EMPTY xs"

section \<open>Copying into memory\<close>

type_synonym memory = "char option list"

record CORD_fill_data =
  fd_len :: nat
  fd_count :: nat
  fd_buf :: memory

definition fd_write :: "nat \<Rightarrow> char \<Rightarrow> (CORD_fill_data, unit) run" where
  "fd_write i c = (\<lambda>d.
     if length (fd_buf d) \<le> i then Fault Out_Of_Bounds else Done (d\<lparr>fd_buf := (fd_buf d)[i := Some c]\<rparr>) ())"

definition CORD_fill_proc :: "char \<Rightarrow> (CORD_fill_data, int) run" where
  "CORD_fill_proc c =
     andthen (reads fd_count) (\<lambda>n.
     andthen (fd_write n c) (\<lambda>_.
     andthen (modifies (\<lambda>d. d\<lparr>fd_count := n + 1\<rparr>)) (\<lambda>_.
     reads (\<lambda>d. if fd_len d \<le> n + 1 then 1 else 0))))"

text \<open>The loop of \<open>CORD_batched_fill_proc\<close>: the bytes of the string and its NUL, unless the buffer is full.\<close>

fun fill_string :: "string \<Rightarrow> nat \<Rightarrow> nat \<Rightarrow> (CORD_fill_data, nat \<times> int) run" where
  "fill_string [] n limit = andthen (fd_write n NUL) (\<lambda>_. ret (n, 0))"
| "fill_string (c # cs) n limit =
     andthen (fd_write n c) (\<lambda>_. if limit \<le> n + 1 then ret (n + 1, 1) else fill_string cs (n + 1) limit)"

definition CORD_batched_fill_proc :: "string \<Rightarrow> (CORD_fill_data, int) run" where
  "CORD_batched_fill_proc s =
     andthen (reads fd_count) (\<lambda>n.
     andthen (reads fd_len) (\<lambda>limit.
     andthen (fill_string s n limit) (\<lambda>(n', r).
     andthen (modifies (\<lambda>d. d\<lparr>fd_count := n'\<rparr>)) (\<lambda>_. ret r))))"

definition CORD_fill_buf :: "cord \<Rightarrow> nat \<Rightarrow> nat \<Rightarrow> memory \<Rightarrow> (CORD_fill_data, int) outcome" where
  "CORD_fill_buf x i len buf =
     CORD_iter5 x i CORD_fill_proc (Some CORD_batched_fill_proc) \<lparr>fd_len = len, fd_count = 0, fd_buf = buf\<rparr>"

definition terminate :: "memory \<Rightarrow> nat \<Rightarrow> ('s, memory) run" where
  "terminate buf len = (if length buf \<le> len then raise_fault Out_Of_Bounds else ret (buf[len := Some NUL]))"

definition CORD_to_char_star :: "cord \<Rightarrow> ('s, memory) run" where
  "CORD_to_char_star x =
     andthen (CORD_len x) (\<lambda>len.
     let result = replicate (size_add len 1) None
     in if 0 < len then
          (case CORD_fill_buf x 0 len result of
             Done d r \<Rightarrow> if r \<noteq> 1 then raise_fault Abort_Called else terminate (fd_buf d) len
           | Fault e \<Rightarrow> raise_fault e
           | Exhausted \<Rightarrow> exhaust)
        else terminate result len)"

text \<open>The array that holds a C string.\<close>

definition c_array :: "string \<Rightarrow> memory" where
  "c_array s = map Some s @ [Some NUL]"

definition CORD_from_char_star :: "string \<Rightarrow> ('s, cord) run" where
  "CORD_from_char_star s = ret (if length s = 0 then CORD_EMPTY else C_String s)"

definition CORD_to_const_char_star :: "cord \<Rightarrow> ('s, memory) run" where
  "CORD_to_const_char_star x =
     (case x of
        CORD_EMPTY \<Rightarrow> ret (c_array [])
      | _ \<Rightarrow>
          andthen (CORD_IS_STRING x) (\<lambda>b.
          case x of
            C_String s \<Rightarrow> if b then ret (c_array s) else CORD_to_char_star x
          | _ \<Rightarrow> CORD_to_char_star x))"

definition CORD_fetch :: "cord \<Rightarrow> nat \<Rightarrow> char pos_op" where
  "CORD_fetch x i =
     andthen (CORD_set_pos x i) (\<lambda>_.
     andthen (reads CORD_pos_valid) (\<lambda>valid. if \<not> valid then raise_fault Abort_Called else CORD_pos_fetch))"

section \<open>Searching\<close>

record chr_data =
  chr_pos :: nat
  chr_target :: char

definition CORD_chr_proc :: "char \<Rightarrow> (chr_data, int) run" where
  "CORD_chr_proc c =
     andthen (reads chr_target) (\<lambda>target.
     if c = target then ret 1
     else andthen (modifies (\<lambda>d. d\<lparr>chr_pos := size_add (chr_pos d) 1\<rparr>)) (\<lambda>_. ret 0))"

definition CORD_rchr_proc :: "char \<Rightarrow> (chr_data, int) run" where
  "CORD_rchr_proc c =
     andthen (reads chr_target) (\<lambda>target.
     if c = target then ret 1
     else andthen (modifies (\<lambda>d. d\<lparr>chr_pos := size_sub (chr_pos d) 1\<rparr>)) (\<lambda>_. ret 0))"

text \<open>The offset at which \<open>strchr\<close> finds a character: the terminating NUL is part of the string.\<close>

fun strchr :: "string \<Rightarrow> char \<Rightarrow> nat option" where
  "strchr [] c = (if c = NUL then Some 0 else None)"
| "strchr (x # xs) c = (if x = c then Some 0 else map_option Suc (strchr xs c))"

definition CORD_batched_chr_proc :: "string \<Rightarrow> (chr_data, int) run" where
  "CORD_batched_chr_proc s =
     andthen (reads chr_target) (\<lambda>target.
     case strchr s target of
       None \<Rightarrow> andthen (modifies (\<lambda>d. d\<lparr>chr_pos := size_add (chr_pos d) (length s)\<rparr>)) (\<lambda>_. ret 0)
     | Some k \<Rightarrow> andthen (modifies (\<lambda>d. d\<lparr>chr_pos := size_add (chr_pos d) k\<rparr>)) (\<lambda>_. ret 1))"

definition CORD_NOT_FOUND :: nat where
  "CORD_NOT_FOUND = SIZE - 1"

definition found_pos :: "(chr_data, int) outcome \<Rightarrow> ('s, nat) run" where
  "found_pos o' =
     (case o' of
        Done d r \<Rightarrow> ret (if r \<noteq> 0 then chr_pos d else CORD_NOT_FOUND)
      | Fault e \<Rightarrow> raise_fault e
      | Exhausted \<Rightarrow> exhaust)"

definition CORD_chr :: "cord \<Rightarrow> nat \<Rightarrow> char \<Rightarrow> ('s, nat) run" where
  "CORD_chr x i c =
     found_pos (CORD_iter5 x i CORD_chr_proc (Some CORD_batched_chr_proc) \<lparr>chr_pos = i, chr_target = c\<rparr>)"

definition CORD_rchr :: "cord \<Rightarrow> nat \<Rightarrow> char \<Rightarrow> ('s, nat) run" where
  "CORD_rchr x i c = found_pos (CORD_riter4 x i CORD_rchr_proc \<lparr>chr_pos = i, chr_target = c\<rparr>)"

section \<open>Callbacks\<close>

text \<open>
  What an iteration relies on: \<open>Inv t\<close> holds of the client data after the text \<open>t\<close> while the
  iteration goes on, and \<open>Fin t\<close> once a callback has stopped it inside \<open>t\<close>.
\<close>

locale visitor =
  fixes f1 :: "char \<Rightarrow> ('d, int) run" and f2 :: "(string \<Rightarrow> ('d, int) run) option"
    and Inv Fin :: "string \<Rightarrow> 'd \<Rightarrow> bool"
  assumes single: "Inv t d \<Longrightarrow> \<exists>d' r. f1 c d = Done d' r \<and> (r = 0 \<and> Inv (t @ [c]) d' \<or> r = 1 \<and> Fin (t @ [c]) d')"
    and batch: "\<lbrakk>f2 = Some f; Inv t d; s \<noteq> []; no_nul s\<rbrakk> \<Longrightarrow>
      \<exists>d' r. f s d = Done d' r \<and> (r = 0 \<and> Inv (t @ s) d' \<or> r = 1 \<and> Fin (t @ s) d')"
    and stopped: "Fin t d \<Longrightarrow> Fin (t @ s) d"
begin

definition visits :: "('d, int) run \<Rightarrow> string \<Rightarrow> bool" where
  "visits m s \<longleftrightarrow> (\<forall>t d. Inv t d \<longrightarrow>
     (\<exists>d' r. m d = Done d' r \<and> (r = 0 \<and> Inv (t @ s) d' \<or> r = 1 \<and> Fin (t @ s) d')))"

lemma visits_run:
  "visits m s \<Longrightarrow> Inv [] d \<Longrightarrow> \<exists>d' r. m d = Done d' r \<and> (r = 0 \<and> Inv s d' \<or> r = 1 \<and> Fin s d')"
  unfolding visits_def by (metis append_Nil)

lemma visits_ret: "visits (ret 0) []"
  by (simp add: visits_def ret_def)

lemma visits_andthen:
  assumes "visits m s" and "visits n t"
  shows "visits (andthen m (\<lambda>r. if r \<noteq> 0 then ret 1 else n)) (s @ t)"
  unfolding visits_def
proof (intro allI impI)
  fix u d assume "Inv u d"
  then obtain d1 r1 where m: "m d = Done d1 r1" "r1 = 0 \<and> Inv (u @ s) d1 \<or> r1 = 1 \<and> Fin (u @ s) d1"
    using assms(1) unfolding visits_def by blast
  from m(2) show "\<exists>d' r. andthen m (\<lambda>r. if r \<noteq> 0 then ret 1 else n) d = Done d' r \<and>
      (r = 0 \<and> Inv (u @ s @ t) d' \<or> r = 1 \<and> Fin (u @ s @ t) d')"
  proof
    assume "r1 = 0 \<and> Inv (u @ s) d1"
    then obtain d2 r2 where "n d1 = Done d2 r2" "r2 = 0 \<and> Inv ((u @ s) @ t) d2 \<or> r2 = 1 \<and> Fin ((u @ s) @ t) d2"
      using assms(2) unfolding visits_def by blast
    with m(1) \<open>r1 = 0 \<and> Inv (u @ s) d1\<close> show ?thesis by (auto simp: andthen_run)
  next
    assume "r1 = 1 \<and> Fin (u @ s) d1"
    with m(1) stopped [of "u @ s" d1 t] show ?thesis by (simp add: andthen_run ret_def)
  qed
qed

lemma visits_single: "visits (f1 c) [c]"
  using single by (auto simp: visits_def)

lemma visits_string: "visits (string_iter f1 s) s"
proof (induction s)
  case (Cons c s)
  from visits_andthen [OF visits_single [of c] this] show ?case by simp
qed (simp add: visits_ret)

lemma visits_batch: "f2 = Some f \<Longrightarrow> s \<noteq> [] \<Longrightarrow> no_nul s \<Longrightarrow> visits (f s) s"
  using batch by (simp add: visits_def)

lemma visits_iter5:
  assumes "cord_wf x" and "\<not> is_empty x" and "i < length (chars x)"
  shows "visits (CORD_iter5 x i f1 f2) (drop i (chars x))"
  using assms
proof (induction x arbitrary: i rule: chars.induct)
  case (2 s)
  then have "no_nul (drop i s)" "drop i s \<noteq> []" by (auto simp: no_nul_def dest: in_set_dropD)
  with 2 nth_not_NUL [of s i] visits_batch visits_string show ?case
    by (cases f2) (simp_all add: byte_at_wf)
next
  case (4 h len fn)
  have "drop i (map (fn_char fn) [0..<len]) = map (fn_char fn) [i..<len]" by (simp add: drop_map)
  with 4 function_iter_wf [of len fn i "len - i" f1] visits_string show ?case by simp
next
  case (3 d ll len l r)
  then have wf: "cord_wf (Concatenation d ll len l r)" and l: "0 < length (chars l)" and r: "0 < length (chars r)"
    using chars_pos by auto
  have left: "(if 0 < i then andthen (LEFT_LEN ll len l r) (\<lambda>left_len. ret (if left_len \<le> i then Some left_len else None))
      else ret None) = ret (if length (chars l) \<le> i then Some (length (chars l)) else None)"
    using l by (auto simp: LEFT_LEN_wf [OF wf])
  have ih: "visits (CORD_iter5 l k f1 f2) (drop k (chars l))" if "k < length (chars l)" for k
    using "3.IH"(1) wf that by simp
  have ih': "visits (CORD_iter5 r k f1 f2) (drop k (chars r))" if "k < length (chars r)" for k
    using "3.IH"(2) wf that by simp
  show ?case
    unfolding CORD_iter5.simps left andthen_ret
    using "3.prems"(3) l r ih [of i] ih' [of "i - length (chars l)"] visits_andthen [OF ih [of i] ih' [of 0]]
    by (cases "length (chars l) \<le> i") simp_all
qed simp

end

section \<open>Copying\<close>

definition filling :: "nat \<Rightarrow> string \<Rightarrow> CORD_fill_data \<Rightarrow> bool" where
  "filling len t d \<longleftrightarrow>
     fd_len d = len \<and> fd_count d = length t \<and> length t < len \<and> length (fd_buf d) = len + 1 \<and>
     take (length t) (fd_buf d) = map Some t"

definition filled :: "nat \<Rightarrow> string \<Rightarrow> CORD_fill_data \<Rightarrow> bool" where
  "filled len t d \<longleftrightarrow>
     len \<le> length t \<and> length (fd_buf d) = len + 1 \<and> take len (fd_buf d) = map Some (take len t)"

lemma take_write: "n < length b \<Longrightarrow> take (Suc n) (b[n := y]) = take n b @ [y]"
  by (simp add: take_Suc_conv_app_nth)

lemma fill_string_ok:
  assumes "filling len t (d\<lparr>fd_count := length t\<rparr>)"
  shows "\<exists>d' n r. fill_string s (length t) len d = Done d' (n, r) \<and>
    (r = 0 \<and> filling len (t @ s) (d'\<lparr>fd_count := n\<rparr>) \<or> r = 1 \<and> filled len (t @ s) (d'\<lparr>fd_count := n\<rparr>))"
  using assms
proof (induction s arbitrary: t d)
  case Nil
  then show ?case by (simp add: filling_def fd_write_def andthen_def ret_def)
next
  case (Cons c s)
  let ?d = "d\<lparr>fd_buf := (fd_buf d)[length t := Some c]\<rparr>"
  have wr: "fd_write (length t) c d = Done ?d ()" using Cons.prems by (simp add: fd_write_def filling_def)
  have pre: "take (Suc (length t)) (fd_buf ?d) = map Some (t @ [c])"
    using Cons.prems by (simp add: filling_def take_write)
  show ?case
  proof (cases "len \<le> length t + 1")
    case True
    with Cons.prems have "len = Suc (length t)" by (simp add: filling_def)
    with pre Cons.prems have "filled len (t @ c # s) (?d\<lparr>fd_count := Suc (length t)\<rparr>)"
      by (simp add: filled_def filling_def)
    with True wr show ?thesis by (simp add: andthen_run) (simp add: ret_def)
  next
    case False
    with pre Cons.prems have "filling len (t @ [c]) (?d\<lparr>fd_count := length (t @ [c])\<rparr>)" by (simp add: filling_def)
    from Cons.IH [OF this] False wr show ?thesis by (simp add: andthen_run)
  qed
qed

interpretation filler: visitor CORD_fill_proc "Some CORD_batched_fill_proc" "filling len" "filled len" for len
proof
  fix t d c assume inv: "filling len t d"
  then have "take (Suc (length t)) ((fd_buf d)[length t := Some c]) = map Some (t @ [c])"
    by (simp add: filling_def take_write)
  moreover have "len = Suc (length t) \<or> \<not> len \<le> Suc (length t)" using inv by (auto simp: filling_def)
  ultimately show "\<exists>d' r. CORD_fill_proc c d = Done d' r \<and>
      (r = 0 \<and> filling len (t @ [c]) d' \<or> r = 1 \<and> filled len (t @ [c]) d')"
    using inv by (auto simp: CORD_fill_proc_def andthen_def reads_def modifies_def fd_write_def filling_def filled_def)
next
  fix f t d s assume f: "Some CORD_batched_fill_proc = Some f" and inv: "filling len t d"
  then have "d\<lparr>fd_count := length t\<rparr> = d" by (simp add: filling_def)
  with fill_string_ok [of len t d s] inv obtain d' n r where "fill_string s (length t) len d = Done d' (n, r)"
      "r = 0 \<and> filling len (t @ s) (d'\<lparr>fd_count := n\<rparr>) \<or> r = 1 \<and> filled len (t @ s) (d'\<lparr>fd_count := n\<rparr>)" by auto
  with f inv show "\<exists>d' r. f s d = Done d' r \<and> (r = 0 \<and> filling len (t @ s) d' \<or> r = 1 \<and> filled len (t @ s) d')"
    by (auto simp: CORD_batched_fill_proc_def andthen_def reads_def modifies_def ret_def filling_def)
next
  fix t d s assume "filled len t d"
  then show "filled len (t @ s) d" by (simp add: filled_def)
qed

lemma CORD_to_char_star_ok:
  assumes "cord_wf x" and "length (chars x) + 1 < SIZE"
  shows "CORD_to_char_star x = ret (c_array (chars x))"
proof (cases "is_empty x")
  case True
  then show ?thesis
    by (simp add: is_empty_iff CORD_to_char_star_def CORD_len_def terminate_def c_array_def size_add_def SIZE_def)
next
  case False
  let ?len = "length (chars x)"
  have pos: "0 < ?len" by (rule chars_pos [OF assms(1) False])
  let ?d = "\<lparr>fd_len = ?len, fd_count = 0, fd_buf = replicate (?len + 1) None\<rparr>"
  have "filling ?len [] ?d" using pos by (simp add: filling_def)
  from filler.visits_run [OF filler.visits_iter5 [OF assms(1) False pos] this] obtain d r where d:
      "CORD_fill_buf x 0 ?len (replicate (?len + 1) None) = Done d r"
      "r = 0 \<and> filling ?len (chars x) d \<or> r = 1 \<and> filled ?len (chars x) d"
    by (auto simp: CORD_fill_buf_def)
  then have r: "r = 1" and buf: "length (fd_buf d) = ?len + 1" "take ?len (fd_buf d) = map Some (chars x)"
    by (auto simp: filling_def filled_def)
  have "(fd_buf d)[?len := Some NUL] = c_array (chars x)"
    using buf take_write [of ?len "fd_buf d" "Some NUL"] by (simp add: c_array_def)
  with d(1) r buf pos assms(2) show ?thesis
    by (simp add: CORD_to_char_star_def CORD_len_wf [OF assms(1)] terminate_def)
qed

section \<open>Searching\<close>

fun first_index :: "char \<Rightarrow> string \<Rightarrow> nat option" where
  "first_index c [] = None"
| "first_index c (x # xs) = (if x = c then Some 0 else map_option Suc (first_index c xs))"

lemma first_index_append:
  "first_index c (t @ s) =
     (case first_index c t of Some k \<Rightarrow> Some k | None \<Rightarrow> map_option (\<lambda>k. length t + k) (first_index c s))"
  by (induction t; cases "first_index c s") (auto split: option.splits)

lemma first_index_less: "first_index c s = Some k \<Longrightarrow> k < length s"
  by (induction s arbitrary: k) (auto split: if_splits)

lemma strchr_first_index: "c \<noteq> NUL \<Longrightarrow> strchr s c = first_index c s"
  by (induction s) auto

definition searching :: "char \<Rightarrow> nat \<Rightarrow> string \<Rightarrow> chr_data \<Rightarrow> bool" where
  "searching c i t d \<longleftrightarrow>
     c \<noteq> NUL \<and> chr_target d = c \<and> first_index c t = None \<and> chr_pos d = (i + length t) mod SIZE"

definition spotted :: "char \<Rightarrow> nat \<Rightarrow> string \<Rightarrow> chr_data \<Rightarrow> bool" where
  "spotted c i t d \<longleftrightarrow> (\<exists>k. first_index c t = Some k \<and> chr_pos d = (i + k) mod SIZE)"

lemma size_add_mod: "size_add (a mod SIZE) b = (a + b) mod SIZE"
  by (simp add: size_add_def mod_add_left_eq)

interpretation seeker: visitor CORD_chr_proc "Some CORD_batched_chr_proc" "searching c i" "spotted c i" for c i
proof
  fix t d x assume "searching c i t d"
  then show "\<exists>d' r. CORD_chr_proc x d = Done d' r \<and>
      (r = 0 \<and> searching c i (t @ [x]) d' \<or> r = 1 \<and> spotted c i (t @ [x]) d')"
    by (auto simp: CORD_chr_proc_def andthen_def reads_def modifies_def ret_def searching_def spotted_def
        first_index_append size_add_mod)
next
  fix f t d s assume "Some CORD_batched_chr_proc = Some f" and "searching c i t d"
  then show "\<exists>d' r. f s d = Done d' r \<and> (r = 0 \<and> searching c i (t @ s) d' \<or> r = 1 \<and> spotted c i (t @ s) d')"
    by (cases "first_index c s")
       (auto simp: CORD_batched_chr_proc_def andthen_def reads_def modifies_def ret_def searching_def spotted_def
        first_index_append size_add_mod strchr_first_index add.assoc)
next
  fix t d s assume "spotted c i t d"
  then show "spotted c i (t @ s) d" by (auto simp: spotted_def first_index_append)
qed

text \<open>The position while searching backward, which wraps below zero at the end.\<close>

definition rsearching :: "char \<Rightarrow> nat \<Rightarrow> string \<Rightarrow> chr_data \<Rightarrow> bool" where
  "rsearching c i t d \<longleftrightarrow>
     chr_target d = c \<and> first_index c t = None \<and> chr_pos d = nat ((int i - int (length t)) mod int SIZE)"

definition rspotted :: "char \<Rightarrow> nat \<Rightarrow> string \<Rightarrow> chr_data \<Rightarrow> bool" where
  "rspotted c i t d \<longleftrightarrow>
     (\<exists>k. first_index c t = Some k \<and> chr_pos d = nat ((int i - int k) mod int SIZE))"

lemma size_sub_mod: "size_sub (nat (z mod int SIZE)) (Suc 0) = nat ((z - 1) mod int SIZE)"
proof -
  let ?r = "z mod int SIZE"
  have r: "0 \<le> ?r" "?r < int SIZE" by (simp_all add: SIZE_def)
  have "(z - 1) mod int SIZE = (?r - 1) mod int SIZE" by (simp add: mod_diff_left_eq)
  also have "\<dots> = (if 1 \<le> ?r then ?r - 1 else int SIZE - 1)"
  proof (cases "1 \<le> ?r")
    case True
    with r show ?thesis by (simp add: mod_pos_pos_trivial)
  next
    case False
    with r have "?r = 0" by linarith
    then show ?thesis by (simp add: SIZE_def)
  qed
  finally show ?thesis using r by (auto simp: size_sub_def SIZE_def nat_diff_distrib)
qed

interpretation rseeker: visitor CORD_rchr_proc None "rsearching c i" "rspotted c i" for c i
proof
  fix t d x assume "rsearching c i t d"
  then show "\<exists>d' r. CORD_rchr_proc x d = Done d' r \<and>
      (r = 0 \<and> rsearching c i (t @ [x]) d' \<or> r = 1 \<and> rspotted c i (t @ [x]) d')"
    by (auto simp: CORD_rchr_proc_def andthen_def reads_def modifies_def ret_def rsearching_def rspotted_def
        first_index_append size_sub_mod algebra_simps)
next
  fix t d s assume "rspotted c i t d"
  then show "rspotted c i (t @ s) d" by (auto simp: rspotted_def first_index_append)
qed simp

section \<open>Building cords\<close>

lemma CORD_chars_ok:
  assumes "i < SIZE"
  shows "\<exists>z. CORD_chars c i = (ret z :: ('s, cord) run) \<and> cord_ok z \<and> chars z = replicate i c"
proof -
  have "fn_text (Client_fn (\<lambda>_. c)) i = replicate i c" by (rule nth_equalityI) (auto simp: fn_text_def)
  with CORD_from_fn_inner_ok [where 's = 's, of i "Client_fn (\<lambda>_. c)" FN_HDR] assms show ?thesis
    by (simp add: CORD_chars_def CORD_from_fn_def)
qed

lemma CORD_cat_char_star_ok:
  assumes "globals_ok g" and "cord_ok x" and "y \<noteq> []" and "no_nul y" and "length (chars x) + length y < mlen 45"
  shows "\<exists>g' z. CORD_cat_char_star (Suc n) x y (length y) g = Done g' z \<and> globals_ok g' \<and> cord_ok z \<and> chars z = chars x @ y"
proof -
  have size: "mlen 45 < SIZE" using mlen_less_SIZE [of 45] by (simp add: MAX_DEPTH_def)
  with assms have "joins (CORD_balance (Suc n)) x (C_String y) (CORD_cat_char_star (Suc n) x y (length y))"
    unfolding CORD_cat_char_star_def by (intro CORD_cat_char_star_joins) (auto simp: cord_ok_def)
  from joins_ok [OF this assms(1,2)] assms(3-5) size show ?thesis by (auto simp: cord_ok_def MAX_DEPTH_def)
qed

lemma CORD_cat_char_ok:
  assumes "globals_ok g" and "cord_ok x" and "length (chars x) + 1 < mlen 45"
  shows "\<exists>g' z. CORD_cat_char (Suc n) x c g = Done g' z \<and> globals_ok g' \<and> cord_ok z \<and> chars z = chars x @ [c]"
proof (cases "c = NUL")
  case True
  obtain y where y: "CORD_nul 1 = (ret y :: (cord_globals, cord) run)" "cord_ok y" "chars y = [NUL]"
    using CORD_chars_ok [where 's = cord_globals, of 1 NUL] by (auto simp: CORD_nul_def SIZE_def)
  with CORD_cat_ok [OF assms(1,2) y(2), of n] assms(3) True show ?thesis by (simp add: CORD_cat_char_def)
next
  case False
  with CORD_cat_char_star_ok [OF assms(1,2), of "[c]" n] assms(3) show ?thesis by (simp add: CORD_cat_char_def)
qed

lemma catn_loop_ok:
  assumes "globals_ok g" and "cord_ok x" and "list_all cord_ok xs"
    and "length (chars x) + sum_list (map (length \<circ> chars) xs) < mlen 45"
  shows "\<exists>g' z. catn_loop (Suc n) x xs g = Done g' z \<and> globals_ok g' \<and> cord_ok z \<and>
    chars z = chars x @ concat (map chars xs)"
  using assms
proof (induction xs arbitrary: g x)
  case Nil
  then show ?case by (simp add: ret_def)
next
  case (Cons y ys)
  then obtain g1 z1 where z1: "CORD_cat (Suc n) x y g = Done g1 z1" "globals_ok g1" "cord_ok z1" "chars z1 = chars x @ chars y"
    using CORD_cat_ok [of g x y n] by auto
  with Cons.IH [OF z1(2,3)] Cons.prems show ?case by (simp add: andthen_run add.assoc)
qed

section \<open>Properties\<close>

text \<open>
  C27. A cord copied into a C string is its text: the copy fits the allocated array exactly, every byte
  of it is written, and the callbacks never report a short copy. In particular a C string that was made
  a cord comes back unchanged.
\<close>

theorem CORD_to_char_star_copies:
  assumes "cord_wf x" and "length (chars x) + 1 < SIZE" and "no_nul s" and "length s + 1 < SIZE"
  shows "CORD_to_char_star x = (ret (c_array (chars x)) :: ('s, memory) run) \<and>
    andthen (CORD_from_char_star s) CORD_to_char_star = (ret (c_array s) :: ('s, memory) run)"
  using assms by (cases "s = []") (simp_all add: CORD_to_char_star_ok CORD_from_char_star_def)

theorem CORD_to_char_star_copies_witness:
  "CORD_to_char_star (Concatenation 1 1 3 (C_String ''a'') (C_String ''bc'')) () = Done () (c_array ''abc'')"
  using CORD_to_char_star_copies [where 's = unit, of "Concatenation 1 1 3 (C_String ''a'') (C_String ''bc'')" "''x''"]
  by (simp add: MAX_LEFT_LEN_def SIZE_def NUL_def ret_def)

text \<open>
  Searching finds the first occurrence of a character other than NUL at or behind the given
  position, and the last one at or before it, whatever the shape of the cord; otherwise the answer is
  the reserved number.
\<close>

theorem CORD_chr_finds:
  assumes "cord_wf x" and "i < length (chars x)" and "c \<noteq> NUL"
  shows "CORD_chr x i c = (ret (case first_index c (drop i (chars x)) of None \<Rightarrow> CORD_NOT_FOUND | Some k \<Rightarrow> i + k) :: ('s, nat) run) \<and>
    CORD_rchr x i c = (ret (case first_index c (rev (take (Suc i) (chars x))) of None \<Rightarrow> CORD_NOT_FOUND | Some k \<Rightarrow> i - k) :: ('t, nat) run)"
proof
  have nonempty: "\<not> is_empty x" using assms(2) by (auto simp: is_empty_iff)
  have size: "length (chars x) < SIZE" by (rule length_chars [OF assms(1)])
  let ?d = "\<lparr>chr_pos = i, chr_target = c\<rparr>"
  have "searching c i [] ?d" using assms(2,3) size by (simp add: searching_def)
  from seeker.visits_run [OF seeker.visits_iter5 [OF assms(1) nonempty assms(2)] this]
  obtain d r where d: "CORD_iter5 x i CORD_chr_proc (Some CORD_batched_chr_proc) ?d = Done d r"
      "r = 0 \<and> searching c i (drop i (chars x)) d \<or> r = 1 \<and> spotted c i (drop i (chars x)) d" by blast
  moreover have "(i + k) mod SIZE = i + k" if "first_index c (drop i (chars x)) = Some k" for k
    using first_index_less [OF that] size by simp
  ultimately show "CORD_chr x i c = ret (case first_index c (drop i (chars x)) of None \<Rightarrow> CORD_NOT_FOUND | Some k \<Rightarrow> i + k)"
    by (auto simp: CORD_chr_def found_pos_def searching_def spotted_def)
  have "rsearching c i [] ?d" using assms(2) size by (simp add: rsearching_def)
  from rseeker.visits_run [OF rseeker.visits_string this, of "rev (take (Suc i) (chars x))"]
  obtain d r where d: "CORD_riter4 x i CORD_rchr_proc ?d = Done d r"
      "r = 0 \<and> rsearching c i (rev (take (Suc i) (chars x))) d \<or> r = 1 \<and> rspotted c i (rev (take (Suc i) (chars x))) d"
    unfolding riter4_ok [OF assms(1) nonempty assms(2)] by blast
  moreover have "nat ((int i - int k) mod int SIZE) = i - k" if "first_index c (rev (take (Suc i) (chars x))) = Some k" for k
    using first_index_less [OF that] size assms(2) by (simp add: mod_pos_pos_trivial nat_diff_distrib)
  ultimately show "CORD_rchr x i c = ret (case first_index c (rev (take (Suc i) (chars x))) of None \<Rightarrow> CORD_NOT_FOUND | Some k \<Rightarrow> i - k)"
    by (auto simp: CORD_rchr_def found_pos_def rsearching_def rspotted_def)
qed

theorem CORD_chr_finds_witness:
  "CORD_chr (Concatenation 1 1 3 (C_String ''a'') (C_String ''ba'')) 1 CHR ''a'' () = Done () 2 \<and>
   CORD_rchr (Concatenation 1 1 3 (C_String ''a'') (C_String ''ba'')) 1 CHR ''a'' () = Done () 0"
  using CORD_chr_finds [where 's = unit and 't = unit, of "Concatenation 1 1 3 (C_String ''a'') (C_String ''ba'')" 1 "CHR ''a''"]
  by (simp add: MAX_LEFT_LEN_def SIZE_def NUL_def ret_def)

text \<open>
  Searching for NUL goes wrong in a string node: \<open>strchr\<close> finds the terminator of the string, so
  that the position behind the last character is reported although the cord has no such character,
  where the header promises the reserved number.
\<close>

theorem CORD_chr_finds_terminator:
  assumes "no_nul s" and "i < length s" and "length s < SIZE"
  shows "CORD_chr (C_String s) i NUL = (ret (length s) :: ('s, nat) run) \<and> NUL \<notin> set (chars (C_String s))"
proof -
  have strchr: "strchr t NUL = Some (length t)" if "no_nul t" for t
    using that by (induction t) (auto simp: no_nul_def)
  have "no_nul (drop i s)" "s \<noteq> []" using assms(1,2) by (auto simp: no_nul_def dest: in_set_dropD)
  with assms nth_not_NUL [of s i] show ?thesis
    by (simp add: CORD_chr_def byte_at_wf CORD_batched_chr_proc_def strchr found_pos_def andthen_def reads_def
        modifies_def ret_def no_nul_def size_add_def)
qed

theorem CORD_chr_finds_terminator_witness:
  "CORD_chr (C_String ''ab'') 0 NUL () = Done () 2"
  using CORD_chr_finds_terminator [where 's = unit, of "''ab''" 0] by (simp add: SIZE_def NUL_def no_nul_def ret_def)

text \<open>
  Concatenating many cords, and appending a character to a cord (NUL included), refine the
  concatenation of the texts, as long as the result has fewer than 2971215073 characters.
\<close>

theorem CORD_catn_appends:
  assumes "globals_ok g" and "list_all cord_ok xs" and "length (concat (map chars xs)) + 1 < 2971215073"
  shows "\<exists>g' z. andthen (CORD_catn (Suc n) xs) (\<lambda>x. CORD_cat_char (Suc n) x c) g = Done g' z \<and>
    globals_ok g' \<and> cord_ok z \<and> chars z = concat (map chars xs) @ [c]"
proof -
  obtain g1 z1 where z1: "CORD_catn (Suc n) xs g = Done g1 z1" "globals_ok g1" "cord_ok z1" "chars z1 = concat (map chars xs)"
    using catn_loop_ok [OF assms(1) _ assms(2), of CORD_EMPTY n] assms(3)
    by (auto simp: CORD_catn_def cord_ok_def MAX_DEPTH_def mlen_45 length_concat comp_def)
  with CORD_cat_char_ok [OF z1(2,3), of n c] assms(3) show ?thesis by (simp add: andthen_run mlen_45)
qed

theorem CORD_catn_appends_witness:
  "\<exists>g' z. andthen (CORD_catn 1 [C_String ''ab'', C_String ''c'']) (\<lambda>x. CORD_cat_char 1 x NUL) cord_globals_new = Done g' z \<and>
     chars z = ''abc'' @ [NUL]"
  using CORD_catn_appends [of cord_globals_new "[C_String ''ab'', C_String ''c'']" 0 NUL]
  by (auto simp: cord_ok_def MAX_DEPTH_def SIZE_def NUL_def)

text \<open>
  Fetching by index gives the character of the text and aborts for every other index.
\<close>

theorem CORD_fetch_indexes:
  assumes "cord_ok x" and "length (chars x) + FUNCTION_BUF_SZ < SIZE" and "fresh_pos p"
  shows "if i < length (chars x) then \<exists>p'. CORD_fetch x i p = Done p' (chars x ! i)
    else CORD_fetch x i p = Fault Abort_Called"
proof (cases "is_empty x")
  case True
  then show ?thesis
    by (simp add: is_empty_iff CORD_fetch_def CORD_set_pos_def modifies_def reads_def andthen_def raise_fault_def CORD_pos_valid_def)
next
  case False
  obtain p' where p': "CORD_set_pos x i p = Done p' ()"
      "if i < length (chars x) then stands_at x i p' else \<not> CORD_pos_valid p'"
    using CORD_set_pos_ok [OF assms(1) False assms(3,2), of i] by (auto simp: wp_def split: outcome.splits)
  then show ?thesis
    using stands_at_valid [of x i p'] CORD_pos_fetch_ok [of x i p']
    by (auto simp: CORD_fetch_def andthen_def reads_def raise_fault_def)
qed

theorem CORD_fetch_indexes_witness:
  "CORD_fetch (C_String ''abc'') 7 blank_pos = Fault Abort_Called"
  using CORD_fetch_indexes [of "C_String ''abc''" blank_pos 7]
  by (simp add: cord_ok_def MAX_DEPTH_def SIZE_def NUL_def FUNCTION_BUF_SZ_def)

end
