(* ===== verification/Cord_File.thy ===== *)
theory Cord_File
  imports Cord_Extra
begin

text \<open>
  Extensible cords (\<open>gc-8.0.4/include/ec.h\<close>) and cords made from files (the last part of
  \<open>gc-8.0.4/cord/cordxtra.c\<close>): a file is read character by character into an extensible cord, or,
  when it is long, stays open behind a function node that reads lines into a direct-mapped cache.

  A \<open>FILE\<close> is a stream that is open for reading: its bytes, the file position, and whether it can be
  positioned at all (\<open>fseek\<close> and \<open>ftell\<close> fail on a pipe). An extensible cord is a record that the
  reader extends by the file, so that its operations run on either. The bounds of the loops count
  reads of the file.
\<close>

section \<open>Extensible cords\<close>

definition CORD_BUFSZ :: nat where
  "CORD_BUFSZ = 128"

record CORD_ec =
  ec_globals :: cord_globals
  ec_cord :: cord
  ec_bufptr :: nat
  ec_buf :: memory

type_synonym ('e, 'a) ec_op = "('e CORD_ec_scheme, 'a) run"

definition on_globals :: "(cord_globals, 'a) run \<Rightarrow> ('e, 'a) ec_op" where
  "on_globals = embed ec_globals (\<lambda>g x. x\<lparr>ec_globals := g\<rparr>)"

text \<open>Reading bytes that may not have been written.\<close>

fun initialised :: "memory \<Rightarrow> string option" where
  "initialised [] = Some []"
| "initialised (None # m) = None"
| "initialised (Some c # m) = map_option (Cons c) (initialised m)"

definition CORD_ec_flush_buf :: "nat \<Rightarrow> ('e, unit) ec_op" where
  "CORD_ec_flush_buf k =
     andthen (reads ec_bufptr) (\<lambda>len.
     if len = 0 then ret ()
     else
       andthen (reads (\<lambda>x. initialised (take len (ec_buf x)))) (\<lambda>bytes.
       case bytes of
         None \<Rightarrow> raise_fault Uninitialised_Read
       | Some s \<Rightarrow>
           andthen (reads ec_cord) (\<lambda>x.
           andthen (on_globals (CORD_cat_char_star k x s len)) (\<lambda>z.
           modifies (\<lambda>x. x\<lparr>ec_cord := z, ec_bufptr := 0\<rparr>)))))"

definition CORD_ec_to_cord :: "nat \<Rightarrow> ('e, cord) ec_op" where
  "CORD_ec_to_cord k = andthen (CORD_ec_flush_buf k) (\<lambda>_. reads ec_cord)"

definition CORD_ec_init :: "('e, unit) ec_op" where
  "CORD_ec_init = modifies (\<lambda>x. x\<lparr>ec_cord := CORD_EMPTY, ec_bufptr := 0\<rparr>)"

definition CORD_ec_append :: "nat \<Rightarrow> char \<Rightarrow> ('e, unit) ec_op" where
  "CORD_ec_append k c =
     andthen (reads (\<lambda>x. ec_bufptr x = CORD_BUFSZ)) (\<lambda>full.
     andthen (if full then CORD_ec_flush_buf k else ret ()) (\<lambda>_.
     andthen (reads (\<lambda>x. length (ec_buf x) \<le> ec_bufptr x)) (\<lambda>outside.
     if outside then raise_fault Out_Of_Bounds
     else modifies (\<lambda>x. x\<lparr>ec_buf := (ec_buf x)[ec_bufptr x := Some c], ec_bufptr := ec_bufptr x + 1\<rparr>))))"

definition CORD_ec_append_cord :: "nat \<Rightarrow> cord \<Rightarrow> ('e, unit) ec_op" where
  "CORD_ec_append_cord k s =
     andthen (CORD_ec_flush_buf k) (\<lambda>_.
     andthen (reads ec_cord) (\<lambda>x.
     andthen (on_globals (CORD_cat k x s)) (\<lambda>z.
     modifies (\<lambda>x. x\<lparr>ec_cord := z\<rparr>))))"

section \<open>Files\<close>

record FILE =
  fl_data :: string
  fl_pos :: nat
  fl_seekable :: bool
  fl_open :: bool

text \<open>\<open>getc\<close>: \<open>None\<close> stands for \<open>EOF\<close>.\<close>

definition getc :: "(FILE, char option) run" where
  "getc = (\<lambda>f.
     if fl_pos f < length (fl_data f) then Done (f\<lparr>fl_pos := fl_pos f + 1\<rparr>) (Some (fl_data f ! fl_pos f))
     else Done f None)"

text \<open>\<open>fseek\<close> to a position of the file, and to its end: zero on success.\<close>

definition fseek :: "nat \<Rightarrow> (FILE, int) run" where
  "fseek pos = (\<lambda>f. if fl_seekable f then Done (f\<lparr>fl_pos := pos\<rparr>) 0 else Done f (- 1))"

definition fseek_end :: "(FILE, int) run" where
  "fseek_end = (\<lambda>f. if fl_seekable f then Done (f\<lparr>fl_pos := length (fl_data f)\<rparr>) 0 else Done f (- 1))"

definition ftell :: "(FILE, int) run" where
  "ftell = reads (\<lambda>f. if fl_seekable f then int (fl_pos f) else - 1)"

text \<open>\<open>fread\<close> of bytes: what was read, its length being the returned count.\<close>

definition fread :: "nat \<Rightarrow> (FILE, string) run" where
  "fread n = (\<lambda>f.
     let s = take n (drop (fl_pos f) (fl_data f)) in Done (f\<lparr>fl_pos := fl_pos f + length s\<rparr>) s)"

definition fclose :: "(FILE, int) run" where
  "fclose = (\<lambda>f. Done (f\<lparr>fl_open := False\<rparr>) 0)"

section \<open>Reading a file eagerly\<close>

record reader = CORD_ec +
  rd_file :: FILE

definition on_file :: "(FILE, 'a) run \<Rightarrow> (reader, 'a) run" where
  "on_file = embed rd_file (\<lambda>f r. r\<lparr>rd_file := f\<rparr>)"

text \<open>The inner loop: the number of NULs, and the character behind them.\<close>

fun count_nuls :: "nat \<Rightarrow> nat \<Rightarrow> (reader, nat \<times> char option) run" where
  "count_nuls 0 n = exhaust"
| "count_nuls (Suc fuel) n =
     andthen (on_file getc) (\<lambda>c. if c = Some NUL then count_nuls fuel (size_add n 1) else ret (n, c))"

text \<open>A run of NULs becomes one function node.\<close>

definition nul_branch :: "nat \<Rightarrow> nat \<Rightarrow> (reader, char option) run" where
  "nul_branch fuel k =
     andthen (CORD_ec_flush_buf k) (\<lambda>_.
     andthen (count_nuls fuel 1) (\<lambda>(n, c).
     andthen (CORD_nul n) (\<lambda>nuls.
     andthen (reads ec_cord) (\<lambda>x.
     andthen (on_globals (CORD_cat k x nuls)) (\<lambda>z.
     andthen (modifies (\<lambda>x. x\<lparr>ec_cord := z\<rparr>)) (\<lambda>_. ret c))))))"

text \<open>The append and the test for the end of the file that follow it.\<close>

fun eager_loop :: "nat \<Rightarrow> nat \<Rightarrow> (reader, unit) run" where
  "eager_loop 0 k = exhaust"
| "eager_loop (Suc fuel) k =
     andthen (on_file getc) (\<lambda>c.
     andthen
       (if c = Some NUL then nul_branch fuel k else ret c) (\<lambda>c.
     case c of
       None \<Rightarrow> ret ()
     | Some c \<Rightarrow> andthen (CORD_ec_append k c) (\<lambda>_. eager_loop fuel k)))"

definition CORD_from_file_eager :: "nat \<Rightarrow> nat \<Rightarrow> (reader, cord) run" where
  "CORD_from_file_eager fuel k =
     andthen CORD_ec_init (\<lambda>_.
     andthen (eager_loop fuel k) (\<lambda>_.
     andthen (on_file fclose) (\<lambda>_.
     andthen (CORD_ec_to_cord k) (\<lambda>x.
     on_globals (CORD_balance k x)))))"

section \<open>Reading a file lazily\<close>

definition LOG_CACHE_SZ :: nat where
  "LOG_CACHE_SZ = 14"

definition CACHE_SZ :: nat where
  "CACHE_SZ = push_bit LOG_CACHE_SZ 1"

definition LOG_LINE_SZ :: nat where
  "LOG_LINE_SZ = 9"

definition LINE_SZ :: nat where
  "LINE_SZ = push_bit LOG_LINE_SZ 1"

record cache_line =
  cl_tag :: nat
  cl_data :: memory

record lf_state =
  lf_file :: FILE
  lf_current :: nat
  lf_cache :: "cache_line option list"

text \<open>In \<open>LINE_START\<close> the complement of an \<open>int\<close> is converted to \<open>size_t\<close>.\<close>

definition MOD_CACHE_SZ :: "nat \<Rightarrow> nat" where
  "MOD_CACHE_SZ n = and n (CACHE_SZ - 1)"

definition MOD_LINE_SZ :: "nat \<Rightarrow> nat" where
  "MOD_LINE_SZ n = and n (LINE_SZ - 1)"

definition DIV_LINE_SZ :: "nat \<Rightarrow> nat" where
  "DIV_LINE_SZ n = drop_bit LOG_LINE_SZ n"

definition LINE_START :: "nat \<Rightarrow> nat" where
  "LINE_START n = and n (SIZE - LINE_SZ)"

definition on_lf_file :: "(FILE, 'a) run \<Rightarrow> (lf_state, 'a) run" where
  "on_lf_file = embed lf_file (\<lambda>f st. st\<lparr>lf_file := f\<rparr>)"

text \<open>A byte of an array that may not have been written.\<close>

definition memory_at :: "memory \<Rightarrow> nat \<Rightarrow> ('s, char) run" where
  "memory_at m i =
     (if length m \<le> i then raise_fault Out_Of_Bounds
      else (case m ! i of None \<Rightarrow> raise_fault Uninitialised_Read | Some c \<Rightarrow> ret c))"

text \<open>The lines of the cache, by their number.\<close>

definition get_line :: "nat \<Rightarrow> (lf_state, cache_line option) run" where
  "get_line j = (\<lambda>st. if length (lf_cache st) \<le> j then Fault Out_Of_Bounds else Done st (lf_cache st ! j))"

definition put_line :: "nat \<Rightarrow> cache_line \<Rightarrow> (lf_state, unit) run" where
  "put_line j cl = (\<lambda>st.
     if length (lf_cache st) \<le> j then Fault Out_Of_Bounds
     else Done (st\<lparr>lf_cache := (lf_cache st)[j := Some cl]\<rparr>) ())"

text \<open>The second half of \<open>refill_cache\<close>: reading the line at the file position into a new line of the cache.\<close>

definition read_line :: "nat \<Rightarrow> nat \<Rightarrow> (lf_state, char) run" where
  "read_line file_pos line_start =
     andthen (on_lf_file (fread LINE_SZ)) (\<lambda>s.
     if length s \<le> size_sub file_pos line_start then raise_fault Abort_Called
     else
       (let line = \<lparr>cl_tag = DIV_LINE_SZ file_pos, cl_data = map Some s @ replicate (LINE_SZ - length s) None\<rparr>
        in andthen (put_line (DIV_LINE_SZ (MOD_CACHE_SZ file_pos)) line) (\<lambda>_.
           andthen (modifies (\<lambda>st. st\<lparr>lf_current := size_add line_start LINE_SZ\<rparr>)) (\<lambda>_.
           memory_at (cl_data line) (MOD_LINE_SZ file_pos)))))"

definition refill_cache :: "nat \<Rightarrow> (lf_state, char) run" where
  "refill_cache file_pos =
     (let line_start = LINE_START file_pos
      in andthen (reads lf_current) (\<lambda>current.
         andthen (if line_start \<noteq> current then on_lf_file (fseek line_start) else ret 0) (\<lambda>r.
         if r \<noteq> 0 then raise_fault Abort_Called else read_line file_pos line_start)))"

definition CORD_lf_func :: "nat \<Rightarrow> (lf_state, char) run" where
  "CORD_lf_func i =
     andthen (get_line (DIV_LINE_SZ (MOD_CACHE_SZ i))) (\<lambda>cl.
     case cl of
       None \<Rightarrow> refill_cache i
     | Some cl \<Rightarrow> if cl_tag cl \<noteq> DIV_LINE_SZ i then refill_cache i else memory_at (cl_data cl) (MOD_LINE_SZ i))"

definition CORD_lf_close_proc :: "(lf_state, unit) run" where
  "CORD_lf_close_proc = andthen (on_lf_file fclose) (\<lambda>r. if r \<noteq> 0 then raise_fault Abort_Called else ret ())"

text \<open>
  A function node calls \<open>CORD_lf_func\<close> with its state whenever a character is needed. The node made
  here has the function that the state answers at first; that every later call answers the same is
  a theorem.
\<close>

definition lf_view :: "lf_state \<Rightarrow> nat \<Rightarrow> char" where
  "lf_view st i = (case CORD_lf_func i st of Done st' c \<Rightarrow> c | _ \<Rightarrow> NUL)"

definition CORD_from_file_lazy_inner :: "nat \<Rightarrow> (FILE, lf_state \<times> cord) run" where
  "CORD_from_file_lazy_inner len =
     andthen
       (if len \<noteq> 0 then
          andthen (fread 1) (\<lambda>buf. if 1 < length buf then raise_fault Abort_Called
          else andthen (fseek 0) (\<lambda>r. if r \<noteq> 0 then raise_fault Abort_Called else ret ()))
        else ret ()) (\<lambda>_.
     andthen (reads (\<lambda>f. \<lparr>lf_file = f, lf_current = 0, lf_cache = replicate (CACHE_SZ div LINE_SZ) None\<rparr>)) (\<lambda>st.
     andthen (CORD_from_fn (Client_fn (lf_view st)) len) (\<lambda>x. ret (st, x))))"

text \<open>The length of a file, positioned at its beginning again.\<close>

definition file_length :: "(FILE, nat) run" where
  "file_length =
     andthen fseek_end (\<lambda>r. if r \<noteq> 0 then raise_fault Abort_Called
     else andthen ftell (\<lambda>len. if len < 0 then raise_fault Abort_Called
     else andthen (fseek 0) (\<lambda>r. if r \<noteq> 0 then raise_fault Abort_Called else ret (nat len))))"

definition CORD_from_file_lazy :: "(FILE, lf_state \<times> cord) run" where
  "CORD_from_file_lazy = andthen file_length CORD_from_file_lazy_inner"

definition LAZY_THRESHOLD :: nat where
  "LAZY_THRESHOLD = 128 * 1024 + 1"

definition CORD_from_file :: "nat \<Rightarrow> nat \<Rightarrow> (reader, lf_state option \<times> cord) run" where
  "CORD_from_file fuel k =
     andthen (on_file file_length) (\<lambda>len.
     if len < LAZY_THRESHOLD then andthen (CORD_from_file_eager fuel k) (\<lambda>x. ret (None, x))
     else andthen (on_file (CORD_from_file_lazy_inner len)) (\<lambda>(st, x). ret (Some st, x)))"

section \<open>The invariant of extensible cords\<close>

text \<open>The extensible cord stands for the text \<open>t\<close>, of which the last part is still in the buffer.\<close>

definition ec_holds :: "string \<Rightarrow> 'e CORD_ec_scheme \<Rightarrow> bool" where
  "ec_holds t x \<longleftrightarrow>
     globals_ok (ec_globals x) \<and> cord_ok (ec_cord x) \<and> length (ec_buf x) = CORD_BUFSZ + 1 \<and>
     ec_bufptr x \<le> CORD_BUFSZ \<and>
     (\<exists>u. take (ec_bufptr x) (ec_buf x) = map Some u \<and> no_nul u \<and> t = chars (ec_cord x) @ u)"

lemma initialised_map [simp]: "initialised (map Some s) = Some s"
  by (induction s) simp_all

abbreviation ends :: "('s, 'a) run \<Rightarrow> ('a \<Rightarrow> 's \<Rightarrow> bool) \<Rightarrow> 's \<Rightarrow> bool" where
  "ends \<equiv> wp False (\<lambda>_. False)"

lemma endsI: "\<exists>s' x. m s = Done s' x \<and> Q x s' \<Longrightarrow> ends m Q s"
  by (auto simp: wp_def)

lemma endsD: "ends m Q s \<Longrightarrow> \<exists>s' x. m s = Done s' x \<and> Q x s'"
  by (auto simp: wp_def split: outcome.splits)

lemma ends_on_globals:
  assumes "\<exists>g' z. m (ec_globals x) = Done g' z \<and> globals_ok g' \<and> R z"
    and "\<And>g' z. globals_ok g' \<Longrightarrow> R z \<Longrightarrow> Q z (x\<lparr>ec_globals := g'\<rparr>)"
  shows "ends (on_globals m) Q x"
  using assms by (auto simp: on_globals_def wp_simps intro!: endsI)

lemma wp_fclose [wp_simps]: "wp E F fclose Q = (\<lambda>f. Q 0 (f\<lparr>fl_open := False\<rparr>))"
  by (rule ext) (simp add: wp_def fclose_def)

lemma wp_fread [wp_simps]:
  "wp E F (fread n) Q = (\<lambda>f. Q (take n (drop (fl_pos f) (fl_data f)))
     (f\<lparr>fl_pos := fl_pos f + length (take n (drop (fl_pos f) (fl_data f)))\<rparr>))"
  by (rule ext) (simp add: wp_def fread_def Let_def)

lemma wp_fseek [wp_simps]:
  "wp E F (fseek pos) Q = (\<lambda>f. if fl_seekable f then Q 0 (f\<lparr>fl_pos := pos\<rparr>) else Q (- 1) f)"
  by (rule ext) (simp add: wp_def fseek_def)

lemma wp_get_line [wp_simps]:
  "wp E F (get_line j) Q = (\<lambda>st. if length (lf_cache st) \<le> j then F Out_Of_Bounds else Q (lf_cache st ! j) st)"
  by (rule ext) (simp add: wp_def get_line_def)

lemma wp_put_line [wp_simps]:
  "wp E F (put_line j cl) Q = (\<lambda>st. if length (lf_cache st) \<le> j then F Out_Of_Bounds
     else Q () (st\<lparr>lf_cache := (lf_cache st)[j := Some cl]\<rparr>))"
  by (rule ext) (simp add: wp_def put_line_def)

definition same_rest :: "'e CORD_ec_scheme \<Rightarrow> 'e CORD_ec_scheme \<Rightarrow> bool" where
  "same_rest x y \<longleftrightarrow> CORD_ec.more x = CORD_ec.more y"

lemma same_rest_file: "same_rest (x :: reader) y \<Longrightarrow> rd_file x = rd_file y"
  by (cases x, cases y) (simp add: same_rest_def)

lemma flush_ok:
  assumes "ec_holds t x" and "length t < mlen 45"
  shows "ends (CORD_ec_flush_buf (Suc k)) (\<lambda>_ x'. ec_holds t x' \<and> ec_bufptr x' = 0 \<and> same_rest x' x) x"
proof -
  obtain u where u: "take (ec_bufptr x) (ec_buf x) = map Some u" "no_nul u" "t = chars (ec_cord x) @ u"
    using assms(1) by (auto simp: ec_holds_def)
  have len: "length u = ec_bufptr x" using assms(1) arg_cong [OF u(1), of length] by (simp add: ec_holds_def)
  show ?thesis
  proof (cases "ec_bufptr x = 0")
    case True
    with assms(1) show ?thesis by (simp add: CORD_ec_flush_buf_def wp_simps same_rest_def)
  next
    case False
    with len have "u \<noteq> []" by auto
    with CORD_cat_char_star_ok [of "ec_globals x" "ec_cord x" u k] assms u len
    have "\<exists>g' z. CORD_cat_char_star (Suc k) (ec_cord x) u (ec_bufptr x) (ec_globals x) = Done g' z \<and> globals_ok g' \<and>
        (cord_ok z \<and> chars z = t)"
      by (simp add: ec_holds_def)
    then have "ends (on_globals (CORD_cat_char_star (Suc k) (ec_cord x) u (ec_bufptr x)))
        (\<lambda>z x'. ec_holds t (x'\<lparr>ec_cord := z, ec_bufptr := 0\<rparr>) \<and> same_rest x' x) x"
      by (rule ends_on_globals) (use assms(1) in \<open>auto simp: ec_holds_def same_rest_def no_nul_def\<close>)
    with False u(1) show ?thesis
      by (simp add: CORD_ec_flush_buf_def wp_simps same_rest_def)
  qed
qed

lemma flushed_text: "ec_holds t x \<Longrightarrow> ec_bufptr x = 0 \<Longrightarrow> chars (ec_cord x) = t"
  by (auto simp: ec_holds_def)

lemma append_ok:
  assumes "ec_holds t x" and "length t < mlen 45" and "c \<noteq> NUL"
  shows "ends (CORD_ec_append (Suc k) c) (\<lambda>_ x'. ec_holds (t @ [c]) x' \<and> same_rest x' x) x"
proof -
  have put: "ec_holds (t @ [c]) (y\<lparr>ec_buf := (ec_buf y)[ec_bufptr y := Some c], ec_bufptr := ec_bufptr y + 1\<rparr>)"
    if y: "ec_holds t y" "ec_bufptr y < CORD_BUFSZ" for y :: "'a CORD_ec_scheme"
  proof -
    obtain u where u: "take (ec_bufptr y) (ec_buf y) = map Some u" "no_nul u" "t = chars (ec_cord y) @ u"
      using y(1) by (auto simp: ec_holds_def)
    with y assms(3) take_write [of "ec_bufptr y" "ec_buf y" "Some c"] show ?thesis
      by (auto simp: ec_holds_def no_nul_def intro!: exI [of _ "u @ [c]"])
  qed
  have "ends (if ec_bufptr x = CORD_BUFSZ then CORD_ec_flush_buf (Suc k) else ret ())
      (\<lambda>_ y. ec_holds t y \<and> ec_bufptr y < CORD_BUFSZ \<and> same_rest y x) x"
  proof (cases "ec_bufptr x = CORD_BUFSZ")
    case True
    then show ?thesis using wp_mono [OF flush_ok [OF assms(1,2)]] by (simp add: CORD_BUFSZ_def)
  next
    case False
    with assms(1) show ?thesis by (simp add: wp_simps ec_holds_def same_rest_def)
  qed
  then have "ends (if ec_bufptr x = CORD_BUFSZ then CORD_ec_flush_buf (Suc k) else ret ())
      (\<lambda>_ y. \<not> length (ec_buf y) \<le> ec_bufptr y \<and>
        ec_holds (t @ [c]) (y\<lparr>ec_buf := (ec_buf y)[ec_bufptr y := Some c], ec_bufptr := ec_bufptr y + 1\<rparr>) \<and> same_rest y x) x"
    by (rule wp_mono) (use put in \<open>auto simp: ec_holds_def\<close>)
  then show ?thesis
    unfolding CORD_ec_append_def wp_andthen wp_reads by (rule wp_mono) (simp add: wp_simps same_rest_def)
qed

lemma cat_ec_ok:
  assumes "ec_holds t x" and "ec_bufptr x = 0" and "cord_ok y" and "length t + length (chars y) < mlen 45"
  shows "ends (andthen (reads ec_cord) (\<lambda>x. andthen (on_globals (CORD_cat (Suc k) x y)) (\<lambda>z. modifies (\<lambda>x. x\<lparr>ec_cord := z\<rparr>))))
    (\<lambda>_ x'. ec_holds (t @ chars y) x' \<and> same_rest x' x) x"
proof -
  have t: "chars (ec_cord x) = t" by (rule flushed_text [OF assms(1,2)])
  have "\<exists>g' z. CORD_cat (Suc k) (ec_cord x) y (ec_globals x) = Done g' z \<and> globals_ok g' \<and> (cord_ok z \<and> chars z = t @ chars y)"
    using CORD_cat_ok [of "ec_globals x" "ec_cord x" y k] assms t by (simp add: ec_holds_def)
  then have "ends (on_globals (CORD_cat (Suc k) (ec_cord x) y))
      (\<lambda>z x'. ec_holds (t @ chars y) (x'\<lparr>ec_cord := z\<rparr>) \<and> same_rest x' x) x"
    by (rule ends_on_globals) (use assms(1,2) in \<open>auto simp: ec_holds_def same_rest_def no_nul_def\<close>)
  then show ?thesis by (simp add: wp_simps same_rest_def)
qed

section \<open>Reading eagerly\<close>

definition remaining :: "reader \<Rightarrow> string" where
  "remaining r = drop (fl_pos (rd_file r)) (fl_data (rd_file r))"

lemma ec_holds_file [simp]: "ec_holds t (r\<lparr>rd_file := f\<rparr>) = ec_holds t r"
  by (simp add: ec_holds_def)

lemma remaining_same: "same_rest r r' \<Longrightarrow> remaining r = remaining r'"
  by (simp add: remaining_def same_rest_file)

lemma ends_getc:
  "ends (on_file getc) (\<lambda>c r'. (\<exists>f. r' = r\<lparr>rd_file := f\<rparr>) \<and>
     (case c of None \<Rightarrow> remaining r = [] \<and> remaining r' = [] | Some d \<Rightarrow> remaining r = d # remaining r')) r"
  by (auto simp: on_file_def wp_simps wp_def getc_def remaining_def Cons_nth_drop_Suc
      intro: exI [of _ "rd_file r"])

lemma count_nuls_ok:
  assumes "length (remaining r) < fuel" and "n + length (remaining r) < SIZE"
  shows "ends (count_nuls fuel n) (\<lambda>(m, c) r'. \<exists>f j. r' = r\<lparr>rd_file := f\<rparr> \<and> m = n + j \<and> c \<noteq> Some NUL \<and>
    remaining r = replicate j NUL @ (case c of None \<Rightarrow> [] | Some d \<Rightarrow> d # remaining r')) r"
  using assms
proof (induction fuel n arbitrary: r rule: count_nuls.induct)
  case (2 fuel n)
  show ?case
    unfolding count_nuls.simps wp_andthen
  proof (rule wp_mono [OF ends_getc], elim conjE exE)
    fix c r' f assume r': "r' = r\<lparr>rd_file := f\<rparr>"
      and c: "case c of None \<Rightarrow> remaining r = [] \<and> remaining r' = [] | Some d \<Rightarrow> remaining r = d # remaining r'"
    show "ends (if c = Some NUL then count_nuls fuel (size_add n 1) else ret (n, c)) (\<lambda>(m, c) r'. \<exists>f j. r' = r\<lparr>rd_file := f\<rparr> \<and>
        m = n + j \<and> c \<noteq> Some NUL \<and> remaining r = replicate j NUL @ (case c of None \<Rightarrow> [] | Some d \<Rightarrow> d # remaining r')) r'"
    proof (cases "c = Some NUL")
      case True
      with c 2 have "length (remaining r') < fuel" "size_add n 1 + length (remaining r') < SIZE" "size_add n 1 = n + 1"
        by (simp_all add: size_add_def)
      with "2.IH" [OF True, of r'] True c r' show ?thesis
        by simp (erule wp_mono, force intro: exI [of _ "Suc j" for j])
    next
      case False
      with c r' show ?thesis by (auto simp: wp_simps intro!: exI [of _ 0] split: option.splits)
    qed
  qed
qed simp

text \<open>What holds when the loop has a character to append, or has met the end of the file.\<close>

definition loop_holds :: "string \<Rightarrow> char option \<Rightarrow> reader \<Rightarrow> bool" where
  "loop_holds t c r \<longleftrightarrow>
     (case c of
        None \<Rightarrow> ec_holds t r
      | Some d \<Rightarrow> d \<noteq> NUL \<and> (\<exists>u. ec_holds u r \<and> u @ d # remaining r = t))"

lemma nul_branch_ok:
  assumes "ec_holds t r" and "length (remaining r) < fuel" and "length t + 1 + length (remaining r) < mlen 45"
  shows "ends (nul_branch fuel (Suc k)) (\<lambda>c r'. loop_holds (t @ NUL # remaining r) c r' \<and> (c = None \<or> length (remaining r') < fuel)) r"
proof -
  have size: "mlen 45 < SIZE" using mlen_less_SIZE [of 45] by (simp add: MAX_DEPTH_def)
  have last: "ends (andthen (CORD_nul n) (\<lambda>nuls. andthen (reads ec_cord) (\<lambda>x. andthen (on_globals (CORD_cat (Suc k) x nuls)) (\<lambda>z.
      andthen (modifies (\<lambda>x. x\<lparr>ec_cord := z\<rparr>)) (\<lambda>_. ret c)))))
      (\<lambda>c r'. loop_holds (t @ NUL # remaining r) c r' \<and> (c = None \<or> length (remaining r') < fuel)) y"
    if y: "ec_holds t y" "ec_bufptr y = 0" and n: "n = 1 + j" and c: "c \<noteq> Some NUL"
      and rem: "remaining r = replicate j NUL @ (case c of None \<Rightarrow> [] | Some d \<Rightarrow> d # remaining y)" for n c y j
  proof -
    obtain nuls where nuls: "CORD_nul n = (ret nuls :: (reader, cord) run)" "cord_ok nuls" "chars nuls = replicate n NUL"
      using CORD_chars_ok [where 's = reader, of n NUL] assms(3) rem n size by (auto simp: CORD_nul_def)
    have "ends (andthen (reads ec_cord) (\<lambda>x. andthen (on_globals (CORD_cat (Suc k) x nuls)) (\<lambda>z. modifies (\<lambda>x. x\<lparr>ec_cord := z\<rparr>))))
        (\<lambda>_ x'. ec_holds (t @ chars nuls) x' \<and> same_rest x' y) y"
      by (rule cat_ec_ok [OF y nuls(2)]) (use nuls(3) assms(3) rem n in simp)
    then have "ends (andthen (reads ec_cord) (\<lambda>x. andthen (on_globals (CORD_cat (Suc k) x nuls)) (\<lambda>z. modifies (\<lambda>x. x\<lparr>ec_cord := z\<rparr>))))
        (\<lambda>_ r'. loop_holds (t @ NUL # remaining r) c r' \<and> (c = None \<or> length (remaining r') < fuel)) y"
      by (rule wp_mono) (use nuls(3) n c rem assms(2) in \<open>auto simp: loop_holds_def dest: remaining_same split: option.splits\<close>)
    then show ?thesis by (simp add: nuls(1) wp_simps)
  qed
  have "ends (count_nuls fuel 1) (\<lambda>(n, c). ends (andthen (CORD_nul n) (\<lambda>nuls. andthen (reads ec_cord) (\<lambda>x.
      andthen (on_globals (CORD_cat (Suc k) x nuls)) (\<lambda>z. andthen (modifies (\<lambda>x. x\<lparr>ec_cord := z\<rparr>)) (\<lambda>_. ret c)))))
      (\<lambda>c r'. loop_holds (t @ NUL # remaining r) c r' \<and> (c = None \<or> length (remaining r') < fuel))) x"
    if x: "ec_holds t x" "ec_bufptr x = 0" "same_rest x r" for x
  proof -
    have rem: "remaining x = remaining r" by (rule remaining_same [OF x(3)])
    show ?thesis
      by (rule wp_mono [OF count_nuls_ok [of x fuel 1]]) (use x rem assms size in \<open>auto intro!: last\<close>)
  qed
  then show ?thesis
    unfolding nul_branch_def wp_andthen [of _ _ "CORD_ec_flush_buf (Suc k)"]
    by (intro wp_mono [OF flush_ok [OF assms(1)]])
      (use assms(3) in \<open>auto simp: wp_andthen case_prod_unfold\<close>)
qed

lemma eager_loop_ok:
  assumes "ec_holds t r" and "length (remaining r) < fuel" and "length t + length (remaining r) < mlen 45"
  shows "ends (eager_loop fuel (Suc k)) (\<lambda>_ r'. ec_holds (t @ remaining r) r') r"
  using assms
proof (induction fuel arbitrary: t r)
  case (Suc fuel)
  have tail: "ends (case c of None \<Rightarrow> ret () | Some c \<Rightarrow> andthen (CORD_ec_append (Suc k) c) (\<lambda>_. eager_loop fuel (Suc k)))
      (\<lambda>_ r'. ec_holds (t @ remaining r) r') r'"
    if h: "loop_holds (t @ remaining r) c r' \<and> (c = None \<or> length (remaining r') < fuel)" for c r'
  proof (cases c)
    case None
    with h show ?thesis by (simp add: wp_simps loop_holds_def)
  next
    case (Some d)
    with h obtain u where u: "d \<noteq> NUL" "ec_holds u r'" "u @ d # remaining r' = t @ remaining r" "length (remaining r') < fuel"
      by (auto simp: loop_holds_def)
    have len: "length u + 1 + length (remaining r') < mlen 45"
      using Suc.prems(3) arg_cong [OF u(3), of length] by simp
    have "ends (eager_loop fuel (Suc k)) (\<lambda>_ r'. ec_holds (t @ remaining r) r') y"
      if "ec_holds (u @ [d]) y" "same_rest y r'" for y
      using Suc.IH [OF that(1)] remaining_same [OF that(2)] u(3,4) len by simp
    with append_ok [OF u(2) _ u(1), of k] len Some show ?thesis
      by (auto simp: wp_andthen elim!: wp_mono)
  qed
  have body: "ends (if c = Some NUL then nul_branch fuel (Suc k) else ret c)
      (\<lambda>c r'. loop_holds (t @ remaining r) c r' \<and> (c = None \<or> length (remaining r') < fuel)) y"
    if y: "\<exists>f. y = r\<lparr>rd_file := f\<rparr>"
      and c: "case c of None \<Rightarrow> remaining r = [] \<and> remaining y = [] | Some d \<Rightarrow> remaining r = d # remaining y" for c y
  proof (cases "c = Some NUL")
    case True
    with y c Suc.prems nul_branch_ok [of t y fuel k] show ?thesis by auto
  next
    case False
    with y c Suc.prems show ?thesis by (auto simp: wp_simps loop_holds_def split: option.splits)
  qed
  show ?case
    unfolding eager_loop.simps wp_andthen
    by (rule wp_mono [OF ends_getc], elim conjE, rule wp_mono [OF body tail])
qed simp

lemma from_file_eager_ok:
  assumes "globals_ok (ec_globals r)" and "length (ec_buf r) = CORD_BUFSZ + 1"
    and "length (remaining r) < fuel" and "length (remaining r) < mlen 45"
  shows "ends (CORD_from_file_eager fuel (Suc k))
    (\<lambda>z r'. globals_ok (ec_globals r') \<and> cord_ok z \<and> chars z = remaining r \<and> \<not> fl_open (rd_file r')) r"
proof -
  let ?t = "remaining r"
  let ?r = "r\<lparr>ec_cord := CORD_EMPTY, ec_bufptr := 0\<rparr>"
  have rem: "remaining ?r = ?t" by (simp add: remaining_def)
  have "ec_holds [] ?r" using assms(1,2) by (simp add: ec_holds_def cord_ok_def MAX_DEPTH_def no_nul_def)
  from eager_loop_ok [OF this, of fuel k] have loop: "ends (eager_loop fuel (Suc k)) (\<lambda>_ x. ec_holds ?t x) ?r"
    using assms(3,4) by (simp add: rem)
  have balance: "ends (on_globals (CORD_balance (Suc k) (ec_cord x)))
      (\<lambda>z r'. globals_ok (ec_globals r') \<and> cord_ok z \<and> chars z = ?t \<and> \<not> fl_open (rd_file r')) x"
    if x: "ec_holds ?t x \<and> ec_bufptr x = 0 \<and> same_rest x y" and y: "\<not> fl_open (rd_file y)" for x y :: reader
  proof (rule ends_on_globals [where R = "\<lambda>z. cord_ok z \<and> chars z = ?t"])
    have "globals_ok (ec_globals x)" "cord_wf (ec_cord x)" "chars (ec_cord x) = ?t"
      using x by (auto simp: ec_holds_def cord_ok_def)
    with balance_ok [of "ec_globals x" "ec_cord x" k] assms(4)
    show "\<exists>g z. CORD_balance (Suc k) (ec_cord x) (ec_globals x) = Done g z \<and> globals_ok g \<and> (cord_ok z \<and> chars z = ?t)" by auto
  qed (use x y same_rest_file [of x y] in simp)
  have flush: "ends (CORD_ec_flush_buf (Suc k)) (\<lambda>_ x. ends (on_globals (CORD_balance (Suc k) (ec_cord x)))
      (\<lambda>z r'. globals_ok (ec_globals r') \<and> cord_ok z \<and> chars z = ?t \<and> \<not> fl_open (rd_file r')) x) y"
    if "ec_holds ?t y" "\<not> fl_open (rd_file y)" for y :: reader
    by (rule wp_mono [OF flush_ok [OF that(1) assms(4)]]) (rule balance [OF _ that(2)])
  show ?thesis
    unfolding CORD_from_file_eager_def CORD_ec_init_def wp_andthen wp_modifies
    by (rule wp_mono [OF loop]) (simp add: on_file_def wp_simps CORD_ec_to_cord_def flush)
qed

section \<open>The cache of a lazily read file\<close>

lemma line_numbers:
  "MOD_CACHE_SZ n = n mod 2 ^ 14" "MOD_LINE_SZ n = n mod 512" "DIV_LINE_SZ n = n div 512"
  "CACHE_SZ = 16384" "LINE_SZ = 512"
proof -
  show "CACHE_SZ = 16384" "LINE_SZ = 512"
    by (simp_all add: CACHE_SZ_def LINE_SZ_def LOG_CACHE_SZ_def LOG_LINE_SZ_def push_bit_eq_mult)
  show "MOD_CACHE_SZ n = n mod 2 ^ 14" "MOD_LINE_SZ n = n mod 512" "DIV_LINE_SZ n = n div 512"
    using and_mask_nat [of n 14] and_mask_nat [of n 9]
    by (simp_all add: MOD_CACHE_SZ_def MOD_LINE_SZ_def DIV_LINE_SZ_def CACHE_SZ_def LINE_SZ_def LOG_CACHE_SZ_def
        LOG_LINE_SZ_def push_bit_eq_mult drop_bit_eq_div)
qed

lemma LINE_START_eq:
  assumes "n < SIZE"
  shows "LINE_START n = 512 * (n div 512)"
proof -
  have "SIZE - LINE_SZ = push_bit 9 (mask 55)"
    by (simp add: SIZE_def line_numbers push_bit_eq_mult mask_eq_exp_minus_1)
  moreover have "and n (push_bit 9 (mask 55)) = push_bit 9 (drop_bit 9 n)"
  proof (rule bit_eqI)
    fix k
    have "take_bit 64 n = n" using assms by (simp add: SIZE_def take_bit_nat_eq_self)
    then have "bit n k \<Longrightarrow> k < 64" by (metis bit_take_bit_iff)
    then show "bit (and n (push_bit 9 (mask 55))) k = bit (push_bit 9 (drop_bit 9 n)) k"
      by (auto simp: bit_simps)
  qed
  ultimately show ?thesis by (simp add: LINE_START_def push_bit_eq_mult drop_bit_eq_div)
qed

text \<open>
  A line of the cache holds the part of the file that its tag names, and the recorded file position
  is the real one as long as it lies inside the file: a short read leaves the recorded one behind the
  end.
\<close>

definition line_ok :: "string \<Rightarrow> cache_line \<Rightarrow> bool" where
  "line_ok content cl \<longleftrightarrow>
     length (cl_data cl) = LINE_SZ \<and>
     (\<forall>k < LINE_SZ. cl_tag cl * LINE_SZ + k < length content \<longrightarrow> cl_data cl ! k = Some (content ! (cl_tag cl * LINE_SZ + k)))"

definition lf_ok :: "string \<Rightarrow> lf_state \<Rightarrow> bool" where
  "lf_ok content st \<longleftrightarrow>
     fl_data (lf_file st) = content \<and> fl_seekable (lf_file st) \<and> length content + LINE_SZ < SIZE \<and>
     length (lf_cache st) = 32 \<and> (\<forall>cl. Some cl \<in> set (lf_cache st) \<longrightarrow> line_ok content cl) \<and>
     (lf_current st = fl_pos (lf_file st) \<or> length content \<le> lf_current st)"

lemma line_no_less: "DIV_LINE_SZ (MOD_CACHE_SZ i) < 32"
  by (simp add: line_numbers)

lemma memory_at_line:
  assumes "line_ok content cl" and "cl_tag cl = DIV_LINE_SZ i" and "i < length content"
  shows "memory_at (cl_data cl) (MOD_LINE_SZ i) = (ret (content ! i) :: ('s, char) run)"
proof -
  have "i div 512 * 512 + i mod 512 = i" "i mod 512 < 512" "\<not> 512 \<le> i mod 512" by (simp_all add: not_le)
  with assms show ?thesis by (simp add: memory_at_def line_ok_def line_numbers)
qed

lemma refill_cache_ok:
  assumes "lf_ok content st" and "i < length content"
  shows "ends (refill_cache i) (\<lambda>c st'. c = content ! i \<and> lf_ok content st' \<and> fl_open (lf_file st') = fl_open (lf_file st)) st"
proof -
  let ?ls = "512 * (i div 512)"
  let ?s = "take 512 (drop ?ls content)"
  let ?line = "\<lparr>cl_tag = DIV_LINE_SZ i, cl_data = map Some ?s @ replicate (LINE_SZ - length ?s) None\<rparr>"
  have i: "?ls \<le> i" "i - ?ls < 512" by (simp_all add: minus_mult_div_eq_mod)
  have size: "i < SIZE" using assms by (simp add: lf_ok_def)
  have ls: "LINE_START i = ?ls" by (rule LINE_START_eq [OF size])
  have line: "line_ok content ?line"
    by (auto simp: line_ok_def line_numbers nth_append algebra_simps)
  have seek: "ends (if ?ls \<noteq> lf_current st then on_lf_file (fseek ?ls) else ret 0)
      (\<lambda>r st'. r = 0 \<and> (\<exists>f. st' = st\<lparr>lf_file := f\<rparr> \<and> f = (lf_file st)\<lparr>fl_pos := ?ls\<rparr>)) st"
    using assms i by (auto simp: wp_simps on_lf_file_def wp_def fseek_def lf_ok_def)
  have step: "lf_ok content (st\<lparr>lf_file := (lf_file st)\<lparr>fl_pos := ?ls + length ?s\<rparr>,
      lf_cache := (lf_cache st)[DIV_LINE_SZ (MOD_CACHE_SZ i) := Some ?line], lf_current := size_add ?ls LINE_SZ\<rparr>)"
    using assms i line set_update_subset_insert [of "lf_cache st" "DIV_LINE_SZ (MOD_CACHE_SZ i)" "Some ?line"]
    by (auto simp: lf_ok_def size_add_def line_numbers)
  have short: "\<not> length ?s \<le> i - ?ls" using assms(2) i by auto
  have at: "memory_at (cl_data ?line) (MOD_LINE_SZ i) = (ret (content ! i) :: (lf_state, char) run)"
    by (rule memory_at_line [OF line]) (use assms(2) in simp_all)
  have data: "fl_data (lf_file st) = content" "length (lf_cache st) = 32" using assms(1) by (simp_all add: lf_ok_def)
  have sub: "size_sub i ?ls = i - ?ls" using i size by (simp add: size_sub_def)
  have fill: "ends (read_line i ?ls)
      (\<lambda>c st'. c = content ! i \<and> lf_ok content st' \<and> fl_open (lf_file st') = fl_open (lf_file st))
      (st\<lparr>lf_file := (lf_file st)\<lparr>fl_pos := ?ls\<rparr>\<rparr>)"
    unfolding read_line_def wp_andthen on_lf_file_def wp_embed wp_fread
    using step short at line_no_less [of i] data sub
    by (simp add: wp_simps Let_def line_numbers(5) del: length_take length_drop)
  show ?thesis
    unfolding refill_cache_def Let_def wp_andthen wp_reads ls
    by (rule wp_mono [OF seek]) (use fill in auto)
qed

lemma CORD_lf_func_ok:
  assumes "lf_ok content st" and "i < length content"
  shows "ends (CORD_lf_func i) (\<lambda>c st'. c = content ! i \<and> lf_ok content st' \<and> fl_open (lf_file st') = fl_open (lf_file st)) st"
proof -
  let ?j = "DIV_LINE_SZ (MOD_CACHE_SZ i)"
  have j: "?j < length (lf_cache st)" using assms(1) line_no_less by (simp add: lf_ok_def)
  moreover have "line_ok content cl" if "lf_cache st ! ?j = Some cl" for cl
    using assms(1) nth_mem [OF j] that by (simp add: lf_ok_def)
  ultimately show ?thesis
    using refill_cache_ok [OF assms] memory_at_line [where 's = lf_state, of content _ i] assms
    by (auto simp: CORD_lf_func_def wp_simps split: option.split)
qed

text \<open>A sequence of accesses, in any order.\<close>

fun lf_reads :: "nat list \<Rightarrow> (lf_state, string) run" where
  "lf_reads [] = ret []"
| "lf_reads (i # is) = andthen (CORD_lf_func i) (\<lambda>c. andthen (lf_reads is) (\<lambda>cs. ret (c # cs)))"

lemma lf_reads_ok:
  assumes "lf_ok content st" and "\<forall>i \<in> set is. i < length content"
  shows "ends (lf_reads is) (\<lambda>cs st'. cs = map ((!) content) is \<and> lf_ok content st') st"
  using assms
proof (induction "is" arbitrary: st)
  case (Cons i "is")
  have "ends (lf_reads is) (\<lambda>cs st'. content ! i # cs = map ((!) content) (i # is) \<and> lf_ok content st') st'"
    if "lf_ok content st'" for st'
    using Cons.IH [OF that] Cons.prems(2) by simp
  with CORD_lf_func_ok [OF Cons.prems(1), of i] Cons.prems(2) show ?case
    by (auto simp: wp_simps elim!: wp_mono)
qed (simp add: wp_simps)

lemma lf_view_ok: "lf_ok content st \<Longrightarrow> i < length content \<Longrightarrow> lf_view st i = content ! i"
  using CORD_lf_func_ok [of content st i] by (auto simp: lf_view_def wp_def split: outcome.splits)

definition lf_new :: "FILE \<Rightarrow> lf_state" where
  "lf_new f = \<lparr>lf_file = f, lf_current = 0, lf_cache = replicate 32 None\<rparr>"

lemma lf_new_ok:
  "fl_data f = content \<Longrightarrow> fl_seekable f \<Longrightarrow> fl_pos f = 0 \<Longrightarrow> length content + LINE_SZ < SIZE \<Longrightarrow> lf_ok content (lf_new f)"
  by (simp add: lf_ok_def lf_new_def)

lemma lazy_inner_ok:
  assumes "fl_seekable f" and "fl_pos f = 0" and "length (fl_data f) + LINE_SZ < SIZE"
  shows "ends (CORD_from_file_lazy_inner (length (fl_data f)))
    (\<lambda>(st, x) f'. st = lf_new f \<and> cord_ok x \<and> chars x = fl_data f \<and> f' = f) f"
proof -
  let ?len = "length (fl_data f)"
  have start: "ends (if ?len \<noteq> 0 then
          andthen (fread 1) (\<lambda>buf. if 1 < length buf then raise_fault Abort_Called
          else andthen (fseek 0) (\<lambda>r. if r \<noteq> 0 then raise_fault Abort_Called else ret ()))
        else ret ()) (\<lambda>_ f'. f' = f) f"
    using assms by (auto simp: wp_simps)
  have new: "\<lparr>lf_file = f, lf_current = 0, lf_cache = replicate (CACHE_SZ div LINE_SZ) None\<rparr> = lf_new f"
    by (simp add: lf_new_def line_numbers)
  have "fn_text (Client_fn (lf_view (lf_new f))) ?len = fl_data f"
    using lf_view_ok [OF lf_new_ok [OF refl assms]] by (intro nth_equalityI) (auto simp: fn_text_def)
  with CORD_from_fn_inner_ok [where 's = FILE, of ?len "Client_fn (lf_view (lf_new f))" FN_HDR] assms(3)
  obtain z where "CORD_from_fn (Client_fn (lf_view (lf_new f))) ?len = (ret z :: (FILE, cord) run)" "cord_ok z" "chars z = fl_data f"
    by (auto simp: CORD_from_fn_def)
  then have "ends (andthen (reads (\<lambda>f. \<lparr>lf_file = f, lf_current = 0, lf_cache = replicate (CACHE_SZ div LINE_SZ) None\<rparr>)) (\<lambda>st.
      andthen (CORD_from_fn (Client_fn (lf_view st)) ?len) (\<lambda>x. ret (st, x))))
      (\<lambda>(st, x) f'. st = lf_new f \<and> cord_ok x \<and> chars x = fl_data f \<and> f' = f) f"
    by (simp add: wp_simps new)
  then show ?thesis
    unfolding CORD_from_file_lazy_inner_def wp_andthen [of _ _ "if _ then _ else _"] by (intro wp_mono [OF start]) simp
qed

lemma file_length_ok:
  "file_length f = (if fl_seekable f then Done (f\<lparr>fl_pos := 0\<rparr>) (length (fl_data f)) else Fault Abort_Called)"
  by (simp add: file_length_def andthen_def fseek_end_def ftell_def reads_def fseek_def ret_def raise_fault_def)

section \<open>Properties\<close>

text \<open>
  Reading a file eagerly gives a cord with exactly the bytes that remained in the file, NULs
  included, for files of fewer than 2971215073 bytes; the file is closed, and the loop ends after at
  most one read more than there are bytes.
\<close>

theorem CORD_from_file_eager_reads:
  assumes "globals_ok (ec_globals r)" and "length (ec_buf r) = CORD_BUFSZ + 1"
    and "length (remaining r) < fuel" and "length (remaining r) < 2971215073"
  shows "\<exists>r' z. CORD_from_file_eager fuel (Suc k) r = Done r' z \<and> cord_ok z \<and> chars z = remaining r \<and> \<not> fl_open (rd_file r')"
  using endsD [OF from_file_eager_ok [OF assms(1-3), of k]] assms(4) by (auto simp: mlen_45)

definition sample_reader :: "string \<Rightarrow> bool \<Rightarrow> reader" where
  "sample_reader s seekable =
     \<lparr>ec_globals = cord_globals_new, ec_cord = CORD_EMPTY, ec_bufptr = 0, ec_buf = replicate (CORD_BUFSZ + 1) None,
      rd_file = \<lparr>fl_data = s, fl_pos = 0, fl_seekable = seekable, fl_open = True\<rparr>\<rparr>"

theorem CORD_from_file_eager_reads_witness:
  "\<exists>r' z. CORD_from_file_eager 6 1 (sample_reader (''ab'' @ [NUL, NUL] @ ''c'') False) = Done r' z \<and> chars z = ''ab'' @ [NUL, NUL] @ ''c''"
  using CORD_from_file_eager_reads [of "sample_reader (''ab'' @ [NUL, NUL] @ ''c'') False" 6 0]
  by (auto simp: sample_reader_def remaining_def)

text \<open>
  C26. The cache of a lazily read file is transparent: from every state that satisfies the invariant of
  the cache, any sequence of accesses inside the file, in any order, gives the bytes of the file and
  keeps the invariant.
\<close>

theorem CORD_lf_func_transparent:
  assumes "lf_ok content st" and "\<forall>i \<in> set is. i < length content"
  shows "\<exists>st'. lf_reads is st = Done st' (map ((!) content) is) \<and> lf_ok content st'"
  using endsD [OF lf_reads_ok [OF assms]] by auto

theorem CORD_lf_func_transparent_witness:
  "\<exists>st'. lf_reads [2, 0, 2] (lf_new \<lparr>fl_data = ''abc'', fl_pos = 0, fl_seekable = True, fl_open = True\<rparr>) = Done st' ''cac''"
  using CORD_lf_func_transparent [of "''abc''" "lf_new \<lparr>fl_data = ''abc'', fl_pos = 0, fl_seekable = True, fl_open = True\<rparr>" "[2, 0, 2]"]
    lf_new_ok [of "\<lparr>fl_data = ''abc'', fl_pos = 0, fl_seekable = True, fl_open = True\<rparr>" "''abc''"]
  by (auto simp: line_numbers SIZE_def)

text \<open>
  C25. A file of fewer than 2971215073 bytes becomes a cord with the bytes of the file, whether it is
  read eagerly or, from 131073 bytes on, lazily; the lazy cord starts from a state that satisfies
  the invariant of the cache, and leaves the file open. A stream that cannot be positioned aborts.
\<close>

theorem CORD_from_file_reads:
  assumes "globals_ok (ec_globals r)" and "length (ec_buf r) = CORD_BUFSZ + 1"
    and "length (fl_data (rd_file r)) < fuel" and "length (fl_data (rd_file r)) < 2971215073"
  shows "if fl_seekable (rd_file r) then
      \<exists>r' st x. CORD_from_file fuel (Suc k) r = Done r' (st, x) \<and> cord_ok x \<and> chars x = fl_data (rd_file r) \<and>
        (case st of None \<Rightarrow> length (chars x) < 131073 \<and> \<not> fl_open (rd_file r')
         | Some st \<Rightarrow> 131073 \<le> length (chars x) \<and> lf_ok (chars x) st \<and> fl_open (rd_file r') = fl_open (rd_file r))
    else CORD_from_file fuel (Suc k) r = Fault Abort_Called"
proof (cases "fl_seekable (rd_file r)")
  case False
  then show ?thesis by (simp add: CORD_from_file_def andthen_def on_file_def embed_def file_length_ok)
next
  case True
  let ?f = "(rd_file r)\<lparr>fl_pos := 0\<rparr>" and ?data = "fl_data (rd_file r)"
  have len: "on_file file_length r = Done (r\<lparr>rd_file := ?f\<rparr>) (length ?data)"
    using True by (simp add: on_file_def embed_def file_length_ok)
  note run = andthen_run [of "on_file file_length" r, OF len]
  show ?thesis
  proof (cases "length ?data < 131073")
    case small: True
    have "remaining (r\<lparr>rd_file := ?f\<rparr>) = ?data" by (simp add: remaining_def)
    with endsD [OF from_file_eager_ok [of "r\<lparr>rd_file := ?f\<rparr>" fuel k]] assms small
    obtain r' z where "CORD_from_file_eager fuel (Suc k) (r\<lparr>rd_file := ?f\<rparr>) = Done r' z" "cord_ok z" "chars z = ?data" "\<not> fl_open (rd_file r')"
      by (auto simp: mlen_45)
    with small True show ?thesis
      by (simp add: CORD_from_file_def run LAZY_THRESHOLD_def) (simp add: andthen_run ret_def)
  next
    case False
    have size: "length ?data + LINE_SZ < SIZE" using assms(4) by (simp add: line_numbers SIZE_def)
    with endsD [OF lazy_inner_ok [of ?f]] True obtain x where
        x: "CORD_from_file_lazy_inner (length ?data) ?f = Done ?f (lf_new ?f, x)" "cord_ok x" "chars x = ?data" by auto
    then have "on_file (CORD_from_file_lazy_inner (length ?data)) (r\<lparr>rd_file := ?f\<rparr>) = Done (r\<lparr>rd_file := ?f\<rparr>) (lf_new ?f, x)"
      by (simp add: on_file_def embed_def)
    with x(2,3) False True lf_new_ok [of ?f ?data] size show ?thesis
      by (simp add: CORD_from_file_def run LAZY_THRESHOLD_def) (simp add: andthen_run ret_def)
  qed
qed

theorem CORD_from_file_reads_witness:
  "\<exists>r' st x. CORD_from_file 4 1 (sample_reader ''abc'' True) = Done r' (st, x) \<and> chars x = ''abc''"
  using CORD_from_file_reads [of "sample_reader ''abc'' True" 4 0] by (auto simp: sample_reader_def)

end
