(* ===== verification/Gc_Headers.thy ===== *)
theory Gc_Headers
  imports Prelude "HOL-Library.Word"
begin

text \<open>
  Heap blocks and their headers: \<open>gc-8.0.4/headers.c\<close>, \<open>include/private/gc_hdrs.h\<close>, the part of
  \<open>obj_map.c\<close> that headers use, and the types of \<open>gc_priv.h\<close> they are made of, in the configuration of
  the build: 64-bit words, \<open>USE_MUNMAP\<close>, \<open>ENABLE_DISCLAIM\<close>, \<open>MARK_BIT_PER_GRANULE\<close>, no threads.

  A \<open>struct hblk *\<close> is the number of a block, its address divided by the block size. The two-level tree
  maps every block to an entry: a small number (zero is the null pointer, any other a distance back
  towards the first block) or a header. A header is named by its block: no two blocks share one. The
  tree is the map together with the sorted keys of the bottom indices that exist; writing an
  entry without bottom index would overwrite the shared empty index and is a fault, except for the
  null pointer, which is there already. Memory for the
  tree and for headers comes from the operating system, whose answers are a component of the state.
\<close>

section \<open>Constants\<close>

definition LOG_HBLKSIZE :: nat where
  "LOG_HBLKSIZE = 12"

definition HBLKSIZE :: nat where
  "HBLKSIZE = 4096"

definition MAXOBJBYTES :: nat where
  "MAXOBJBYTES = HBLKSIZE div 2"

definition GRANULE_BYTES :: nat where
  "GRANULE_BYTES = 16"

definition MAX_JUMP :: nat where
  "MAX_JUMP = HBLKSIZE - 1"

definition BOTTOM_SZ :: nat where
  "BOTTOM_SZ = 1024"

definition GC_WORD_MAX :: nat where
  "GC_WORD_MAX = 2 ^ 64 - 1"

definition divHBLKSZ :: "nat \<Rightarrow> nat" where
  "divHBLKSZ n = drop_bit LOG_HBLKSIZE n"

definition BYTES_TO_GRANULES :: "nat \<Rightarrow> nat" where
  "BYTES_TO_GRANULES n = drop_bit 4 n"

definition word_add :: "nat \<Rightarrow> nat \<Rightarrow> nat" where
  "word_add a b = (a + b) mod 2 ^ 64"

definition word_sub :: "nat \<Rightarrow> nat \<Rightarrow> nat" where
  "word_sub a b = (if b \<le> a then a - b else 2 ^ 64 + a - b)"

definition SIZET_SAT_ADD :: "nat \<Rightarrow> nat \<Rightarrow> nat" where
  "SIZET_SAT_ADD a b = (if a < GC_WORD_MAX - b then a + b else GC_WORD_MAX)"

definition OBJ_SZ_TO_BLOCKS :: "nat \<Rightarrow> nat" where
  "OBJ_SZ_TO_BLOCKS lb = divHBLKSZ (word_add lb (HBLKSIZE - 1))"

definition OBJ_SZ_TO_BLOCKS_CHECKED :: "nat \<Rightarrow> nat" where
  "OBJ_SZ_TO_BLOCKS_CHECKED lb = divHBLKSZ (SIZET_SAT_ADD lb (HBLKSIZE - 1))"

text \<open>A word that is read as a \<open>signed_word\<close>.\<close>

definition signed_pos :: "nat \<Rightarrow> bool" where
  "signed_pos w \<longleftrightarrow> 0 < w \<and> w < 2 ^ 63"

section \<open>Headers\<close>

type_synonym hblk = nat

record hdr =
  hb_next :: "hblk option"
  hb_prev :: "hblk option"
  hb_block :: hblk
  hb_obj_kind :: nat
  hb_flags :: "8 word"
  hb_last_reclaimed :: "16 word"
  hb_sz :: nat
  hb_descr :: nat
  hb_map :: "nat list option"
  hb_n_marks :: nat
  hb_marks :: "nat \<Rightarrow> bool"

definition IGNORE_OFF_PAGE :: "8 word" where
  "IGNORE_OFF_PAGE = 1"

definition WAS_UNMAPPED :: "8 word" where
  "WAS_UNMAPPED = 2"

definition FREE_BLK :: "8 word" where
  "FREE_BLK = 4"

definition HAS_DISCLAIM :: "8 word" where
  "HAS_DISCLAIM = 8"

definition MARK_UNCONDITIONALLY :: "8 word" where
  "MARK_UNCONDITIONALLY = 0x10"

definition LARGE_BLOCK :: "8 word" where
  "LARGE_BLOCK = 0x20"

definition HBLK_IS_FREE :: "hdr \<Rightarrow> bool" where
  "HBLK_IS_FREE hhdr \<longleftrightarrow> and (hb_flags hhdr) FREE_BLK \<noteq> 0"

definition IS_MAPPED :: "hdr \<Rightarrow> bool" where
  "IS_MAPPED hhdr \<longleftrightarrow> and (hb_flags hhdr) WAS_UNMAPPED = 0"

datatype hdr_entry = Jump nat | Header hdr

abbreviation NIL :: hdr_entry where
  "NIL \<equiv> Jump 0"

record obj_kind =
  ok_descriptor :: nat
  ok_relocate_descr :: bool
  ok_mark_unconditionally :: bool
  ok_disclaim_proc :: bool

section \<open>The state\<close>

record gc_state =
  bottom_indices :: "nat list"
  hdr_map :: "hblk \<Rightarrow> hdr_entry"
  hdr_free_list :: "hdr list"
  mem_answers :: "nat \<Rightarrow> bool"
  mem_requests :: nat
  mem_mapped :: "hblk \<Rightarrow> bool"
  GC_obj_map :: "nat list option list"
  GC_obj_kinds :: "obj_kind list"
  GC_gc_no :: nat
  GC_hblkfreelist :: "hblk option list"
  GC_free_bytes :: "nat list"
  GC_large_free_bytes :: nat
  GC_bytes_dropped :: nat
  GC_fail_count :: nat
  GC_large_alloc_warn_suppressed :: nat
  GC_large_alloc_warn_interval :: nat
  GC_find_leak :: bool
  GC_black_list_spacing :: nat
  drop_count :: nat
  GC_all_interior_pointers :: bool
  GC_modws_valid_offsets :: "bool list"
  GC_old_normal_bl :: "nat \<Rightarrow> 64 word"
  GC_incomplete_normal_bl :: "nat \<Rightarrow> 64 word"
  GC_old_stack_bl :: "nat \<Rightarrow> 64 word"
  GC_incomplete_stack_bl :: "nat \<Rightarrow> 64 word"
  GC_total_stack_black_listed :: nat
  GC_heapsize :: nat
  GC_heap_sects :: "(hblk \<times> nat) list"
  GC_collect_at_heapsize :: nat
  GC_least_plausible_heap_addr :: nat
  GC_greatest_plausible_heap_addr :: nat

type_synonym 'a gc_op = "(gc_state, 'a) run"

text \<open>
  The initial values of the global variables, with the four predefined kinds of objects
  (\<open>PTRFREE\<close>, \<open>NORMAL\<close>, \<open>UNCOLLECTABLE\<close>, \<open>AUNCOLLECTABLE\<close>).
\<close>

definition gc_start :: gc_state where
  "gc_start =
     \<lparr>bottom_indices = [], hdr_map = \<lambda>_. NIL, hdr_free_list = [], mem_answers = \<lambda>_. True, mem_requests = 0,
      mem_mapped = \<lambda>_. False, GC_obj_map = replicate 129 None,
      GC_obj_kinds =
        [\<lparr>ok_descriptor = 0, ok_relocate_descr = False, ok_mark_unconditionally = False, ok_disclaim_proc = False\<rparr>,
         \<lparr>ok_descriptor = 0, ok_relocate_descr = True, ok_mark_unconditionally = False, ok_disclaim_proc = False\<rparr>,
         \<lparr>ok_descriptor = 0, ok_relocate_descr = True, ok_mark_unconditionally = False, ok_disclaim_proc = False\<rparr>,
         \<lparr>ok_descriptor = 0, ok_relocate_descr = False, ok_mark_unconditionally = False, ok_disclaim_proc = False\<rparr>],
      GC_gc_no = 0, GC_hblkfreelist = replicate 61 None, GC_free_bytes = replicate 61 0, GC_large_free_bytes = 0,
      GC_bytes_dropped = 0, GC_fail_count = 0, GC_large_alloc_warn_suppressed = 0, GC_large_alloc_warn_interval = 5,
      GC_find_leak = False, GC_black_list_spacing = 16 * HBLKSIZE, drop_count = 0, GC_all_interior_pointers = True,
      GC_modws_valid_offsets = replicate 8 False, GC_old_normal_bl = \<lambda>_. 0, GC_incomplete_normal_bl = \<lambda>_. 0,
      GC_old_stack_bl = \<lambda>_. 0, GC_incomplete_stack_bl = \<lambda>_. 0, GC_total_stack_black_listed = 0, GC_heapsize = 0,
      GC_heap_sects = [], GC_collect_at_heapsize = GC_WORD_MAX, GC_least_plausible_heap_addr = GC_WORD_MAX,
      GC_greatest_plausible_heap_addr = 0\<rparr>"

text \<open>Whether the operating system has more memory for the structures of the collector.\<close>

definition GC_scratch_alloc :: "bool gc_op" where
  "GC_scratch_alloc = (\<lambda>st. Done (st\<lparr>mem_requests := mem_requests st + 1\<rparr>) (mem_answers st (mem_requests st)))"

section \<open>The map from blocks to headers\<close>

definition HDR :: "hblk \<Rightarrow> hdr_entry gc_op" where
  "HDR h = reads (\<lambda>st. hdr_map st h)"

definition has_index :: "gc_state \<Rightarrow> hblk \<Rightarrow> bool" where
  "has_index st h \<longleftrightarrow> h div BOTTOM_SZ \<in> set (bottom_indices st)"

definition SET_HDR :: "hblk \<Rightarrow> hdr_entry \<Rightarrow> unit gc_op" where
  "SET_HDR h e = (\<lambda>st.
     if has_index st h then Done (st\<lparr>hdr_map := (hdr_map st)(h := e)\<rparr>) ()
     else case e of Jump d \<Rightarrow> if d = 0 then Done st () else Fault Out_Of_Bounds | Header _ \<Rightarrow> Fault Out_Of_Bounds)"

text \<open>Access through a header pointer.\<close>

definition get_hdr :: "hblk \<Rightarrow> hdr gc_op" where
  "get_hdr h = (\<lambda>st. case hdr_map st h of Header hhdr \<Rightarrow> Done st hhdr | Jump _ \<Rightarrow> Fault Null_Dereference)"

definition upd_hdr :: "hblk \<Rightarrow> (hdr \<Rightarrow> hdr) \<Rightarrow> unit gc_op" where
  "upd_hdr h f = (\<lambda>st.
     case hdr_map st h of
       Header hhdr \<Rightarrow> Done (st\<lparr>hdr_map := (hdr_map st)(h := Header (f hhdr))\<rparr>) ()
     | Jump _ \<Rightarrow> Fault Null_Dereference)"

definition get_index :: "hblk \<Rightarrow> bool gc_op" where
  "get_index h =
     andthen (reads (\<lambda>st. has_index st h)) (\<lambda>found.
     if found then ret True
     else
       andthen GC_scratch_alloc (\<lambda>ok.
       if \<not> ok then ret False
       else
         andthen (modifies (\<lambda>st. st\<lparr>bottom_indices := insort (h div BOTTOM_SZ) (bottom_indices st)\<rparr>)) (\<lambda>_. ret True)))"

text \<open>A header has the contents it had when it was freed; new memory is zero.\<close>

definition zero_hdr :: hdr where
  "zero_hdr = \<lparr>hb_next = None, hb_prev = None, hb_block = 0, hb_obj_kind = 0, hb_flags = 0, hb_last_reclaimed = 0,
     hb_sz = 0, hb_descr = 0, hb_map = None, hb_n_marks = 0, hb_marks = \<lambda>_. False\<rparr>"

definition alloc_hdr :: "hdr option gc_op" where
  "alloc_hdr =
     andthen (reads hdr_free_list) (\<lambda>free.
     case free of
       [] \<Rightarrow> andthen GC_scratch_alloc (\<lambda>ok. ret (if ok then Some zero_hdr else None))
     | hhdr # rest \<Rightarrow> andthen (modifies (\<lambda>st. st\<lparr>hdr_free_list := rest\<rparr>)) (\<lambda>_. ret (Some hhdr)))"

definition GC_install_header :: "hblk \<Rightarrow> bool gc_op" where
  "GC_install_header h =
     andthen (get_index h) (\<lambda>ok.
     if \<not> ok then ret False
     else
       andthen alloc_hdr (\<lambda>r.
       case r of
         None \<Rightarrow> ret False
       | Some hhdr \<Rightarrow>
           andthen (SET_HDR h (Header hhdr)) (\<lambda>_.
           andthen (reads GC_gc_no) (\<lambda>gc_no.
           andthen (upd_hdr h (\<lambda>hhdr. hhdr\<lparr>hb_last_reclaimed := of_nat gc_no\<rparr>)) (\<lambda>_. ret True)))))"

text \<open>The first loop of \<open>GC_install_counts\<close>: bottom indices for the blocks \<open>h\<close>, \<open>h + BOTTOM_SZ\<close>, \<dots>\<close>

fun index_loop :: "nat \<Rightarrow> hblk \<Rightarrow> hblk \<Rightarrow> nat \<Rightarrow> bool gc_op" where
  "index_loop 0 hbp h sz = exhaust"
| "index_loop (Suc fuel) hbp h sz =
     (if \<not> hbp * HBLKSIZE < h * HBLKSIZE + sz then ret True
      else
        andthen (get_index hbp) (\<lambda>ok.
        if \<not> ok then ret False
        else if GC_WORD_MAX - BOTTOM_SZ * HBLKSIZE < hbp * HBLKSIZE then ret True
        else index_loop fuel (hbp + BOTTOM_SZ) h sz))"

fun count_loop :: "hblk \<Rightarrow> nat \<Rightarrow> nat \<Rightarrow> unit gc_op" where
  "count_loop h k 0 = ret ()"
| "count_loop h k (Suc n) =
     andthen (SET_HDR (h + k) (Jump (if MAX_JUMP < k then MAX_JUMP else k))) (\<lambda>_. count_loop h (k + 1) n)"

definition blocks_of_bytes :: "nat \<Rightarrow> nat" where
  "blocks_of_bytes sz = (sz + HBLKSIZE - 1) div HBLKSIZE"

definition GC_install_counts :: "hblk \<Rightarrow> nat \<Rightarrow> bool gc_op" where
  "GC_install_counts h sz =
     andthen (index_loop (sz + 1) h h sz) (\<lambda>ok.
     if \<not> ok then ret False
     else
       andthen (get_index ((h * HBLKSIZE + sz - 1) div HBLKSIZE)) (\<lambda>ok.
       if \<not> ok then ret False
       else andthen (count_loop h 1 (blocks_of_bytes sz - 1)) (\<lambda>_. ret True)))"

definition GC_remove_header :: "hblk \<Rightarrow> unit gc_op" where
  "GC_remove_header h =
     andthen (get_hdr h) (\<lambda>hhdr.
     andthen (modifies (\<lambda>st. st\<lparr>hdr_free_list := hhdr # hdr_free_list st\<rparr>)) (\<lambda>_.
     SET_HDR h NIL))"

fun clear_loop :: "hblk \<Rightarrow> nat \<Rightarrow> nat \<Rightarrow> unit gc_op" where
  "clear_loop h k 0 = ret ()"
| "clear_loop h k (Suc n) = andthen (SET_HDR (h + k) NIL) (\<lambda>_. clear_loop h (k + 1) n)"

definition GC_remove_counts :: "hblk \<Rightarrow> nat \<Rightarrow> unit gc_op" where
  "GC_remove_counts h sz = clear_loop h 1 (blocks_of_bytes sz - 1)"

section \<open>Finding blocks\<close>

text \<open>One bottom index, downward from the entry before the given one.\<close>

function prev_in_index :: "(hblk \<Rightarrow> hdr_entry) \<Rightarrow> nat \<Rightarrow> nat \<Rightarrow> hblk option" where
  "prev_in_index m key 0 = None"
| "prev_in_index m key (Suc j) =
     (case m (key * BOTTOM_SZ + j) of
        Header _ \<Rightarrow> Some (key * BOTTOM_SZ + j)
      | Jump d \<Rightarrow> if d = 0 then prev_in_index m key j else prev_in_index m key (Suc j - d))"
  by pat_completeness auto
termination by (relation "measure (\<lambda>(m, key, j). j)") auto

fun prev_in_indices :: "(hblk \<Rightarrow> hdr_entry) \<Rightarrow> nat list \<Rightarrow> nat \<Rightarrow> hblk option" where
  "prev_in_indices m [] j = None"
| "prev_in_indices m (key # keys) j =
     (case prev_in_index m key j of Some p \<Rightarrow> Some p | None \<Rightarrow> prev_in_indices m keys BOTTOM_SZ)"

definition GC_prev_block :: "hblk \<Rightarrow> hblk option gc_op" where
  "GC_prev_block h =
     reads (\<lambda>st.
       let hi = h div BOTTOM_SZ; keys = rev (filter (\<lambda>k. k \<le> hi) (bottom_indices st))
       in prev_in_indices (hdr_map st) keys (if has_index st h then h mod BOTTOM_SZ + 1 else BOTTOM_SZ))"

text \<open>Following the counts back from a block to a header, or to a block without entry.\<close>

function forwarded :: "(hblk \<Rightarrow> hdr_entry) \<Rightarrow> hblk \<Rightarrow> hblk option" where
  "forwarded m p =
     (case m p of
        Header _ \<Rightarrow> Some p
      | Jump d \<Rightarrow> if d = 0 \<or> p < d then None else forwarded m (p - d))"
  by pat_completeness auto
termination by (relation "measure (\<lambda>(m, p). p)") auto

declare forwarded.simps [simp del]

end
