(* ===== verification/Gc_Black_List.thy ===== *)
theory Gc_Black_List
  imports Gc_Headers
begin

text \<open>
  The black lists of \<open>gc-8.0.4/blacklst.c\<close>: sets of blocks that false pointers were seen to
  point to, as hash tables of one bit per block (\<open>page_hash_table\<close> of \<open>gc_priv.h\<close>). A table is
  the function from the index of a word of it to the word; all indices stay below \<open>PHT_SIZE\<close>.
\<close>

section \<open>The model\<close>

definition LOG_PHT_ENTRIES :: nat where
  "LOG_PHT_ENTRIES = 18"

definition PHT_ENTRIES :: nat where
  "PHT_ENTRIES = push_bit LOG_PHT_ENTRIES 1"

definition divWORDSZ :: "nat \<Rightarrow> nat" where
  "divWORDSZ n = drop_bit 6 n"

definition modWORDSZ :: "nat \<Rightarrow> nat" where
  "modWORDSZ n = and n 0x3f"

type_synonym page_hash_table = "nat \<Rightarrow> 64 word"

text \<open>The hash of the address of a block: the low bits of its number.\<close>

definition PHT_HASH :: "hblk \<Rightarrow> nat" where
  "PHT_HASH h = and h (PHT_ENTRIES - 1)"

definition get_pht_entry_from_index :: "page_hash_table \<Rightarrow> nat \<Rightarrow> bool" where
  "get_pht_entry_from_index bl index \<longleftrightarrow> and (drop_bit (modWORDSZ index) (bl (divWORDSZ index))) 1 \<noteq> 0"

definition set_pht_entry_from_index :: "page_hash_table \<Rightarrow> nat \<Rightarrow> page_hash_table" where
  "set_pht_entry_from_index bl index =
     bl(divWORDSZ index := or (bl (divWORDSZ index)) (push_bit (modWORDSZ index) 1))"

definition GC_clear_bl :: page_hash_table where
  "GC_clear_bl = (\<lambda>_. 0)"

text \<open>The loop of \<open>GC_is_black_listed\<close>, from the block \<open>h + i\<close>.\<close>

lemma modWORDSZ_less [simp]: "modWORDSZ i < 64"
  using and_mask_nat [of i 6] by (simp add: modWORDSZ_def)

function black_list_loop :: "page_hash_table \<Rightarrow> page_hash_table \<Rightarrow> hblk \<Rightarrow> nat \<Rightarrow> nat \<Rightarrow> hblk option" where
  "black_list_loop old_bl new_bl h nblocks i =
     (let index = PHT_HASH (h + i)
      in if old_bl (divWORDSZ index) = 0 \<and> new_bl (divWORDSZ index) = 0 then
           (if nblocks \<le> i + (64 - modWORDSZ index) then None
            else black_list_loop old_bl new_bl h nblocks (i + (64 - modWORDSZ index)))
         else if get_pht_entry_from_index old_bl index \<or> get_pht_entry_from_index new_bl index then Some (h + i + 1)
         else if nblocks \<le> i + 1 then None
         else black_list_loop old_bl new_bl h nblocks (i + 1))"
  by pat_completeness auto
termination
proof (relation "measure (\<lambda>(old_bl, new_bl, h, nblocks, i). nblocks - i)")
  fix old_bl new_bl :: page_hash_table and h nblocks i index
  assume "\<not> nblocks \<le> i + (64 - modWORDSZ index)"
  then show "((old_bl, new_bl, h, nblocks, i + (64 - modWORDSZ index)), old_bl, new_bl, h, nblocks, i)
      \<in> measure (\<lambda>(old_bl, new_bl, h, nblocks, i). nblocks - i)"
    using modWORDSZ_less [of index] by (simp del: modWORDSZ_less)
qed auto

declare black_list_loop.simps [simp del]

definition GC_is_black_listed :: "gc_state \<Rightarrow> hblk \<Rightarrow> nat \<Rightarrow> hblk option" where
  "GC_is_black_listed st h len =
     (if \<not> GC_all_interior_pointers st \<and>
         (get_pht_entry_from_index (GC_old_normal_bl st) (PHT_HASH h) \<or>
          get_pht_entry_from_index (GC_incomplete_normal_bl st) (PHT_HASH h))
      then Some (h + 1)
      else black_list_loop (GC_old_stack_bl st) (GC_incomplete_stack_bl st) h (divHBLKSZ len) 0)"

text \<open>Adding the block of an address.\<close>

definition GC_add_to_black_list_normal :: "nat \<Rightarrow> unit gc_op" where
  "GC_add_to_black_list_normal p =
     andthen (reads GC_modws_valid_offsets) (\<lambda>valid.
     if length valid \<le> p mod 8 then raise_fault Out_Of_Bounds
     else if \<not> valid ! (p mod 8) then ret ()
     else
       (let index = PHT_HASH (divHBLKSZ p)
        in andthen (HDR (divHBLKSZ p)) (\<lambda>e.
           modifies (\<lambda>st.
             if e = NIL \<or> get_pht_entry_from_index (GC_old_normal_bl st) index
             then st\<lparr>GC_incomplete_normal_bl := set_pht_entry_from_index (GC_incomplete_normal_bl st) index\<rparr>
             else st))))"

definition GC_add_to_black_list_stack :: "nat \<Rightarrow> unit gc_op" where
  "GC_add_to_black_list_stack p =
     (let index = PHT_HASH (divHBLKSZ p)
      in andthen (HDR (divHBLKSZ p)) (\<lambda>e.
         modifies (\<lambda>st.
           if e = NIL \<or> get_pht_entry_from_index (GC_old_stack_bl st) index
           then st\<lparr>GC_incomplete_stack_bl := set_pht_entry_from_index (GC_incomplete_stack_bl st) index\<rparr>
           else st)))"

definition GC_number_stack_black_listed :: "gc_state \<Rightarrow> hblk \<Rightarrow> hblk \<Rightarrow> nat" where
  "GC_number_stack_black_listed st start endp1 =
     length (filter (\<lambda>h. get_pht_entry_from_index (GC_old_stack_bl st) (PHT_HASH h)) [start..<endp1])"

definition total_stack_black_listed :: "gc_state \<Rightarrow> nat" where
  "total_stack_black_listed st =
     sum_list (map (\<lambda>(start, bytes). GC_number_stack_black_listed st start (start + divHBLKSZ bytes)) (GC_heap_sects st)) * HBLKSIZE"

definition MAXHINCR :: nat where
  "MAXHINCR = 2048"

definition new_spacing :: "gc_state \<Rightarrow> nat" where
  "new_spacing st =
     (let total = GC_total_stack_black_listed st;
          spacing = (if total \<noteq> 0 then HBLKSIZE * (GC_heapsize st div total) else GC_black_list_spacing st);
          spacing = (if spacing < 3 * HBLKSIZE then 3 * HBLKSIZE else spacing)
      in if MAXHINCR * HBLKSIZE < spacing then MAXHINCR * HBLKSIZE else spacing)"

definition GC_promote_black_lists :: "unit gc_op" where
  "GC_promote_black_lists =
     andthen (modifies (\<lambda>st. st\<lparr>
       GC_old_normal_bl := GC_incomplete_normal_bl st,
       GC_old_stack_bl := GC_incomplete_stack_bl st,
       GC_incomplete_normal_bl := (if GC_all_interior_pointers st then GC_old_normal_bl st else GC_clear_bl),
       GC_incomplete_stack_bl := GC_clear_bl\<rparr>)) (\<lambda>_.
     andthen (modifies (\<lambda>st. st\<lparr>GC_total_stack_black_listed := total_stack_black_listed st\<rparr>)) (\<lambda>_.
     modifies (\<lambda>st. st\<lparr>GC_black_list_spacing := new_spacing st\<rparr>)))"

definition GC_unpromote_black_lists :: "unit gc_op" where
  "GC_unpromote_black_lists = modifies (\<lambda>st. st\<lparr>
     GC_incomplete_normal_bl := (if GC_all_interior_pointers st then GC_incomplete_normal_bl st else GC_old_normal_bl st),
     GC_incomplete_stack_bl := GC_old_stack_bl st\<rparr>)"

section \<open>Tables as sets\<close>

lemma hash_arith:
  "PHT_HASH h = h mod 262144" "modWORDSZ i = i mod 64" "divWORDSZ i = i div 64" "divHBLKSZ n = n div 4096"
proof -
  show "PHT_HASH h = h mod 262144" "modWORDSZ i = i mod 64" "divWORDSZ i = i div 64" "divHBLKSZ n = n div 4096"
    using and_mask_nat [of h 18] and_mask_nat [of i 6]
    by (simp_all add: PHT_HASH_def PHT_ENTRIES_def LOG_PHT_ENTRIES_def modWORDSZ_def divWORDSZ_def divHBLKSZ_def
        LOG_HBLKSIZE_def push_bit_eq_mult drop_bit_eq_div)
qed

text \<open>The block \<open>h\<close> is in the set that a table represents.\<close>

definition listed :: "page_hash_table \<Rightarrow> hblk \<Rightarrow> bool" where
  "listed bl h \<longleftrightarrow> get_pht_entry_from_index bl (PHT_HASH h)"

lemma get_pht_bit: "get_pht_entry_from_index bl i \<longleftrightarrow> bit (bl (divWORDSZ i)) (modWORDSZ i)"
  by (simp add: get_pht_entry_from_index_def and_one_eq odd_iff_mod_2_eq_one [symmetric] even_drop_bit_iff_not_bit)

lemma listed_set: "listed (set_pht_entry_from_index bl (PHT_HASH h)) g \<longleftrightarrow> PHT_HASH g = PHT_HASH h \<or> listed bl g"
proof -
  have "PHT_HASH g = PHT_HASH h \<longleftrightarrow> divWORDSZ (PHT_HASH g) = divWORDSZ (PHT_HASH h) \<and> modWORDSZ (PHT_HASH g) = modWORDSZ (PHT_HASH h)"
    unfolding hash_arith(2,3) by (metis div_mult_mod_eq)
  then show ?thesis
    using modWORDSZ_less [of "PHT_HASH g"]
    by (auto simp: listed_def get_pht_bit set_pht_entry_from_index_def bit_simps)
qed

lemma listed_clear [simp]: "\<not> listed GC_clear_bl h"
  by (simp add: listed_def get_pht_bit GC_clear_bl_def)

lemma word_clear:
  assumes "bl (divWORDSZ (PHT_HASH (h + i))) = 0" and "k < 64 - modWORDSZ (PHT_HASH (h + i))"
  shows "\<not> listed bl (h + i + k)"
proof -
  let ?x = "(h + i) mod 262144"
  have lt: "?x < 262144" by simp
  have k: "?x mod 64 + k < 64" using assms(2) by (simp add: hash_arith)
  have "?x + k = 64 * (?x div 64) + (?x mod 64 + k)" by simp
  with k have d: "(?x + k) div 64 = ?x div 64" by (metis add_0_right div_less div_mult_self4 zero_neq_numeral)
  have "?x + k < 262144"
  proof -
    have "?x div 64 < 4096" using lt by linarith
    with d show ?thesis by linarith
  qed
  then have "(h + i + k) mod 262144 = ?x + k" by (metis mod_add_left_eq mod_less)
  with d assms(1) show ?thesis by (simp add: listed_def get_pht_bit hash_arith)
qed

lemma black_list_loop_Some:
  "black_list_loop old_bl new_bl h nblocks i = Some r \<Longrightarrow>
     h + i < r \<and> (r \<le> h + nblocks \<or> r = h + i + 1) \<and> (listed old_bl (r - 1) \<or> listed new_bl (r - 1))"
proof (induction old_bl new_bl h nblocks i rule: black_list_loop.induct)
  case (1 old_bl new_bl h nblocks i)
  let ?index = "PHT_HASH (h + i)"
  let ?easy = "old_bl (divWORDSZ ?index) = 0 \<and> new_bl (divWORDSZ ?index) = 0"
  let ?here = "get_pht_entry_from_index old_bl ?index \<or> get_pht_entry_from_index new_bl ?index"
  note loop = black_list_loop.simps [of old_bl new_bl h nblocks i, unfolded Let_def]
  consider (easy) "?easy" | (here) "\<not> ?easy" "?here" | (step) "\<not> ?easy" "\<not> ?here" by blast
  then show ?case
  proof cases
    case easy
    with "1.prems" have more: "\<not> nblocks \<le> i + (64 - modWORDSZ ?index)"
      and rec: "black_list_loop old_bl new_bl h nblocks (i + (64 - modWORDSZ ?index)) = Some r"
      unfolding loop by (simp_all split: if_splits)
    from "1.IH"(1) [OF refl easy more rec] modWORDSZ_less [of ?index] more show ?thesis
      by (auto simp del: modWORDSZ_less)
  next
    case here
    with "1.prems" have "r = h + i + 1" unfolding loop by simp
    with here show ?thesis by (simp add: listed_def)
  next
    case step
    with "1.prems" have more: "\<not> nblocks \<le> i + 1" and rec: "black_list_loop old_bl new_bl h nblocks (i + 1) = Some r"
      unfolding loop by (simp_all split: if_splits)
    from "1.IH"(2) [OF refl step more rec] more show ?thesis by auto
  qed
qed

lemma black_list_loop_None:
  "black_list_loop old_bl new_bl h nblocks i = None \<Longrightarrow> i \<le> j \<Longrightarrow> j < nblocks \<or> j = i \<Longrightarrow>
     \<not> listed old_bl (h + j) \<and> \<not> listed new_bl (h + j)"
proof (induction old_bl new_bl h nblocks i rule: black_list_loop.induct)
  case (1 old_bl new_bl h nblocks i)
  let ?index = "PHT_HASH (h + i)"
  let ?easy = "old_bl (divWORDSZ ?index) = 0 \<and> new_bl (divWORDSZ ?index) = 0"
  note loop = black_list_loop.simps [of old_bl new_bl h nblocks i, unfolded Let_def]
  show ?case
  proof (cases ?easy)
    case easy: True
    show ?thesis
    proof (cases "j < i + (64 - modWORDSZ ?index)")
      case True
      obtain k where j: "j = i + k" using "1.prems"(2) le_Suc_ex by blast
      with True have "k < 64 - modWORDSZ ?index" by simp
      with word_clear [of old_bl h i k] word_clear [of new_bl h i k] easy j show ?thesis by (simp add: add.assoc)
    next
      case False
      with "1.prems"(2,3) modWORDSZ_less [of ?index] have "j < nblocks" by (auto simp del: modWORDSZ_less)
      with False have more: "\<not> nblocks \<le> i + (64 - modWORDSZ ?index)" by simp
      with "1.prems"(1) easy have "black_list_loop old_bl new_bl h nblocks (i + (64 - modWORDSZ ?index)) = None"
        unfolding loop by simp
      with "1.IH"(1) [OF refl easy more] False \<open>j < nblocks\<close> show ?thesis by simp
    qed
  next
    case False
    with "1.prems"(1) have here: "\<not> listed old_bl (h + i)" "\<not> listed new_bl (h + i)"
      unfolding loop by (simp_all add: listed_def split: if_splits)
    show ?thesis
    proof (cases "j = i")
      case False
      with "1.prems"(2,3) have more: "\<not> nblocks \<le> i + 1" "i + 1 \<le> j" "j < nblocks" by auto
      with "1.prems"(1) \<open>\<not> ?easy\<close> here have "black_list_loop old_bl new_bl h nblocks (i + 1) = None"
        unfolding loop by (simp add: listed_def)
      with "1.IH"(2) [OF refl \<open>\<not> ?easy\<close> _ more(1)] here more show ?thesis by (auto simp: listed_def)
    qed (use here in simp)
  qed
qed

lemma GC_is_black_listed_Some:
  assumes "GC_is_black_listed st h len = Some r"
  shows "h < r" and "r \<le> h + max 1 (divHBLKSZ len)"
  using assms black_list_loop_Some [of "GC_old_stack_bl st" "GC_incomplete_stack_bl st" h "divHBLKSZ len" 0 r]
  by (auto simp: GC_is_black_listed_def split: if_splits)

lemma stack_listed_found:
  assumes "listed (GC_old_stack_bl st) h \<or> listed (GC_incomplete_stack_bl st) h"
  shows "GC_is_black_listed st h HBLKSIZE \<noteq> None"
  using assms black_list_loop_None [of "GC_old_stack_bl st" "GC_incomplete_stack_bl st" h "divHBLKSZ HBLKSIZE" 0 0]
  by (auto simp: GC_is_black_listed_def)

section \<open>Properties\<close>

text \<open>
  The search for black-listed blocks, which skips whole words of the tables, decides exactly: it
  finds nothing only when no block of the range is on a stack list (and, without interior
  pointers, the first block is on no normal list), and otherwise returns the block behind a black-listed
  block of the range.
\<close>

theorem GC_is_black_listed_decides:
  "case GC_is_black_listed st h len of
     None \<Rightarrow>
       (\<forall>j < max 1 (divHBLKSZ len). \<not> listed (GC_old_stack_bl st) (h + j) \<and> \<not> listed (GC_incomplete_stack_bl st) (h + j)) \<and>
       (GC_all_interior_pointers st \<or> \<not> listed (GC_old_normal_bl st) h \<and> \<not> listed (GC_incomplete_normal_bl st) h)
   | Some r \<Rightarrow>
       h < r \<and> r \<le> h + max 1 (divHBLKSZ len) \<and>
       (listed (GC_old_stack_bl st) (r - 1) \<or> listed (GC_incomplete_stack_bl st) (r - 1) \<or>
        \<not> GC_all_interior_pointers st \<and> (listed (GC_old_normal_bl st) (r - 1) \<or> listed (GC_incomplete_normal_bl st) (r - 1)))"
proof (cases "GC_is_black_listed st h len")
  case None
  then have "black_list_loop (GC_old_stack_bl st) (GC_incomplete_stack_bl st) h (divHBLKSZ len) 0 = None"
    by (simp add: GC_is_black_listed_def split: if_splits)
  then have "\<forall>j < max 1 (divHBLKSZ len). \<not> listed (GC_old_stack_bl st) (h + j) \<and> \<not> listed (GC_incomplete_stack_bl st) (h + j)"
    using black_list_loop_None by (metis le0 less_max_iff_disj less_one)
  with None show ?thesis by (auto simp: GC_is_black_listed_def listed_def split: if_splits)
next
  case (Some r)
  with GC_is_black_listed_Some [OF Some] black_list_loop_Some [of _ _ h "divHBLKSZ len" 0 r] show ?thesis
    by (auto simp: GC_is_black_listed_def listed_def split: if_splits)
qed

theorem GC_is_black_listed_decides_witness:
  "GC_is_black_listed (gc_start\<lparr>GC_old_stack_bl := set_pht_entry_from_index GC_clear_bl (PHT_HASH 5)\<rparr>) 5 HBLKSIZE = Some 6"
proof -
  let ?st = "gc_start\<lparr>GC_old_stack_bl := set_pht_entry_from_index GC_clear_bl (PHT_HASH 5)\<rparr>"
  have "max 1 (divHBLKSZ HBLKSIZE) = 1" by (simp add: hash_arith HBLKSIZE_def)
  with GC_is_black_listed_decides [where st = ?st and h = 5 and len = HBLKSIZE] stack_listed_found [of ?st 5]
  show ?thesis by (auto simp: listed_set)
qed

text \<open>
  A false pointer from the stack into a block without header makes the block black-listed at
  once; it stays so through the next collection, and is forgotten by the one after unless it is seen again.
\<close>

theorem black_list_ages:
  assumes "hdr_map st (divHBLKSZ p) = NIL" and "GC_all_interior_pointers st"
  shows "\<exists>s1 s2 s3. GC_add_to_black_list_stack p st = Done s1 () \<and> GC_promote_black_lists s1 = Done s2 () \<and>
    GC_promote_black_lists s2 = Done s3 () \<and>
    GC_is_black_listed s1 (divHBLKSZ p) HBLKSIZE \<noteq> None \<and> GC_is_black_listed s2 (divHBLKSZ p) HBLKSIZE \<noteq> None \<and>
    GC_is_black_listed s3 (divHBLKSZ p) HBLKSIZE = None"
proof -
  let ?h = "divHBLKSZ p"
  let ?s1 = "st\<lparr>GC_incomplete_stack_bl := set_pht_entry_from_index (GC_incomplete_stack_bl st) (PHT_HASH ?h)\<rparr>"
  have s1: "GC_add_to_black_list_stack p st = Done ?s1 ()"
    using assms(1) by (simp add: GC_add_to_black_list_stack_def Let_def andthen_def HDR_def reads_def modifies_def)
  have promote: "\<exists>s'. GC_promote_black_lists s = Done s' () \<and> GC_old_stack_bl s' = GC_incomplete_stack_bl s \<and>
      GC_incomplete_stack_bl s' = GC_clear_bl \<and> GC_all_interior_pointers s' = GC_all_interior_pointers s" for s
    by (simp add: GC_promote_black_lists_def andthen_def modifies_def)
  obtain s2 where s2: "GC_promote_black_lists ?s1 = Done s2 ()" "GC_old_stack_bl s2 = GC_incomplete_stack_bl ?s1"
      "GC_incomplete_stack_bl s2 = GC_clear_bl" "GC_all_interior_pointers s2"
    using promote [of ?s1] assms(2) by auto
  obtain s3 where s3: "GC_promote_black_lists s2 = Done s3 ()" "GC_old_stack_bl s3 = GC_clear_bl"
      "GC_incomplete_stack_bl s3 = GC_clear_bl" "GC_all_interior_pointers s3"
    using promote [of s2] s2 by auto
  have "GC_is_black_listed s3 ?h HBLKSIZE = None"
    using black_list_loop_Some [of GC_clear_bl GC_clear_bl ?h "divHBLKSZ HBLKSIZE" 0] s3
    by (cases "GC_is_black_listed s3 ?h HBLKSIZE") (simp_all add: GC_is_black_listed_def)
  with s1 s2 s3 stack_listed_found [of ?s1 ?h] stack_listed_found [of s2 ?h] show ?thesis
    by (auto simp: listed_set)
qed

theorem black_list_ages_witness:
  "\<exists>s1. GC_add_to_black_list_stack 0x5008 gc_start = Done s1 () \<and> GC_is_black_listed s1 5 HBLKSIZE \<noteq> None"
  using black_list_ages [of gc_start "0x5008"] by (auto simp: gc_start_def hash_arith)

end
