(* ===== verification/Gc_Blocks.thy ===== *)
theory Gc_Blocks
  imports Gc_Black_List
begin

text \<open>
  The allocator of heap blocks, \<open>gc-8.0.4/allchblk.c\<close>: free blocks are kept on 61 doubly linked lists by
  size; allocation splits a block, avoids black-listed addresses and maps memory that was given
  back; freeing coalesces a block with its free neighbours.

  Assertions are not compiled in this configuration. Mapping and unmapping of memory change the set of
  mapped blocks. Write protection of pages and the printing of warnings have no effect here.
\<close>

section \<open>Sizes and lists\<close>

definition MAX_BLACK_LIST_ALLOC :: nat where
  "MAX_BLACK_LIST_ALLOC = 2 * HBLKSIZE"

definition UNIQUE_THRESHOLD :: nat where
  "UNIQUE_THRESHOLD = 32"

definition HUGE_THRESHOLD :: nat where
  "HUGE_THRESHOLD = 256"

definition FL_COMPRESSION :: nat where
  "FL_COMPRESSION = 8"

definition N_HBLK_FLS :: nat where
  "N_HBLK_FLS = (HUGE_THRESHOLD - UNIQUE_THRESHOLD) div FL_COMPRESSION + UNIQUE_THRESHOLD"

definition PTRFREE :: nat where
  "PTRFREE = 0"

definition IS_UNCOLLECTABLE :: "nat \<Rightarrow> bool" where
  "IS_UNCOLLECTABLE k \<longleftrightarrow> k div 2 * 2 = 2"

definition GC_hblk_fl_from_blocks :: "nat \<Rightarrow> nat" where
  "GC_hblk_fl_from_blocks blocks_needed =
     (if blocks_needed \<le> UNIQUE_THRESHOLD then blocks_needed
      else if HUGE_THRESHOLD \<le> blocks_needed then N_HBLK_FLS
      else (blocks_needed - UNIQUE_THRESHOLD) div FL_COMPRESSION + UNIQUE_THRESHOLD)"

text \<open>The highest list such that the lists from it on have enough bytes, or the first.\<close>

fun enough_loop :: "nat list \<Rightarrow> nat \<Rightarrow> nat \<Rightarrow> nat \<Rightarrow> nat" where
  "enough_loop free_bytes maximum bytes 0 = 0"
| "enough_loop free_bytes maximum bytes (Suc n) =
     (let bytes = word_add bytes (free_bytes ! n) in if maximum \<le> bytes then n else enough_loop free_bytes maximum bytes n)"

definition GC_enough_large_bytes_left :: "nat \<Rightarrow> nat \<Rightarrow> gc_state \<Rightarrow> nat" where
  "GC_enough_large_bytes_left large_allocd max_large_allocd st =
     enough_loop (GC_free_bytes st) max_large_allocd large_allocd (N_HBLK_FLS + 1)"

section \<open>Walking the free lists\<close>

fun sum_list_sizes :: "nat \<Rightarrow> hblk option \<Rightarrow> nat \<Rightarrow> nat gc_op" where
  "sum_list_sizes fuel None total_free = ret total_free"
| "sum_list_sizes 0 (Some h) total_free = exhaust"
| "sum_list_sizes (Suc fuel) (Some h) total_free =
     andthen (get_hdr h) (\<lambda>hhdr. sum_list_sizes fuel (hb_next hhdr) (word_add total_free (hb_sz hhdr)))"

fun sum_lists :: "nat \<Rightarrow> hblk option list \<Rightarrow> nat \<Rightarrow> nat gc_op" where
  "sum_lists fuel [] total_free = ret total_free"
| "sum_lists fuel (h # hs) total_free = andthen (sum_list_sizes fuel h total_free) (\<lambda>t. sum_lists fuel hs t)"

definition GC_compute_large_free_bytes :: "nat \<Rightarrow> nat gc_op" where
  "GC_compute_large_free_bytes fuel = andthen (reads GC_hblkfreelist) (\<lambda>fls. sum_lists fuel fls 0)"

section \<open>Headers of blocks in use\<close>

definition MARK_BITS_PER_HBLK :: nat where
  "MARK_BITS_PER_HBLK = HBLKSIZE div GRANULE_BYTES"

definition FINAL_MARK_BIT :: "nat \<Rightarrow> nat" where
  "FINAL_MARK_BIT sz =
     (if MAXOBJBYTES < sz then MARK_BITS_PER_HBLK else BYTES_TO_GRANULES (sz * (HBLKSIZE div sz)))"

definition GC_clear_hdr_marks :: "hblk \<Rightarrow> unit gc_op" where
  "GC_clear_hdr_marks h =
     upd_hdr h (\<lambda>hhdr. hhdr\<lparr>hb_marks := (\<lambda>i. i = FINAL_MARK_BIT (hb_sz hhdr)), hb_n_marks := 0\<rparr>)"

definition GC_add_map_entry :: "nat \<Rightarrow> bool gc_op" where
  "GC_add_map_entry granules =
     (let granules = (if BYTES_TO_GRANULES MAXOBJBYTES < granules then 0 else granules)
      in andthen (reads GC_obj_map) (\<lambda>obj_map.
         if length obj_map \<le> granules then raise_fault Out_Of_Bounds
         else if obj_map ! granules \<noteq> None then ret True
         else
           andthen GC_scratch_alloc (\<lambda>ok.
           if \<not> ok then ret False
           else
             andthen (modifies (\<lambda>st. st\<lparr>GC_obj_map := (GC_obj_map st)[granules := Some
               (map (\<lambda>displ. if granules = 0 then 1 else displ mod granules) [0..<BYTES_TO_GRANULES HBLKSIZE])]\<rparr>)) (\<lambda>_.
             ret True))))"

definition setup_header :: "hblk \<Rightarrow> hblk \<Rightarrow> nat \<Rightarrow> nat \<Rightarrow> 8 word \<Rightarrow> bool gc_op" where
  "setup_header hhdr block byte_sz kind flags =
     andthen (reads GC_obj_kinds) (\<lambda>kinds.
     if length kinds \<le> kind then raise_fault Out_Of_Bounds
     else
       (let ok = kinds ! kind;
            flags = (if MAXOBJBYTES < byte_sz then or flags LARGE_BLOCK else flags);
            flags = (if ok_disclaim_proc ok then or flags HAS_DISCLAIM else flags);
            flags = (if ok_mark_unconditionally ok then or flags MARK_UNCONDITIONALLY else flags);
            descr = (if ok_relocate_descr ok then word_add (ok_descriptor ok) byte_sz else ok_descriptor ok);
            granules = BYTES_TO_GRANULES byte_sz
        in andthen (upd_hdr hhdr (\<lambda>d. d\<lparr>hb_sz := byte_sz, hb_obj_kind := kind mod 256, hb_flags := flags, hb_block := block,
             hb_descr := descr\<rparr>)) (\<lambda>_.
           andthen (GC_add_map_entry granules) (\<lambda>added.
           if \<not> added then
             andthen (upd_hdr hhdr (\<lambda>d. d\<lparr>hb_sz := HBLKSIZE, hb_descr := 0, hb_flags := or (hb_flags d) LARGE_BLOCK,
               hb_map := None\<rparr>)) (\<lambda>_. ret False)
           else
             andthen (reads GC_obj_map) (\<lambda>obj_map.
             let k = (if and flags LARGE_BLOCK \<noteq> 0 then 0 else granules)
             in if length obj_map \<le> k then raise_fault Out_Of_Bounds
                else
                  andthen (upd_hdr hhdr (\<lambda>d. d\<lparr>hb_map := obj_map ! k\<rparr>)) (\<lambda>_.
                  andthen (GC_clear_hdr_marks hhdr) (\<lambda>_.
                  andthen (reads GC_gc_no) (\<lambda>gc_no.
                  andthen (upd_hdr hhdr (\<lambda>d. d\<lparr>hb_last_reclaimed := of_nat gc_no\<rparr>)) (\<lambda>_. ret True)))))))))"

section \<open>The free lists\<close>

text \<open>An element of one of the two arrays.\<close>

definition set_freelist :: "nat \<Rightarrow> hblk option \<Rightarrow> unit gc_op" where
  "set_freelist i h = (\<lambda>st.
     if length (GC_hblkfreelist st) \<le> i then Fault Out_Of_Bounds
     else Done (st\<lparr>GC_hblkfreelist := (GC_hblkfreelist st)[i := h]\<rparr>) ())"

definition get_freelist :: "nat \<Rightarrow> hblk option gc_op" where
  "get_freelist i = (\<lambda>st. if length (GC_hblkfreelist st) \<le> i then Fault Out_Of_Bounds else Done st (GC_hblkfreelist st ! i))"

definition upd_free_bytes :: "nat \<Rightarrow> (nat \<Rightarrow> nat) \<Rightarrow> unit gc_op" where
  "upd_free_bytes i f = (\<lambda>st.
     if length (GC_free_bytes st) \<le> i then Fault Out_Of_Bounds
     else Done (st\<lparr>GC_free_bytes := (GC_free_bytes st)[i := f (GC_free_bytes st ! i)]\<rparr>) ())"

definition GC_remove_from_fl_at :: "hblk \<Rightarrow> nat \<Rightarrow> unit gc_op" where
  "GC_remove_from_fl_at h index =
     andthen (get_hdr h) (\<lambda>hhdr.
     andthen (case hb_prev hhdr of
                None \<Rightarrow> set_freelist index (hb_next hhdr)
              | Some prev \<Rightarrow> upd_hdr prev (\<lambda>phdr. phdr\<lparr>hb_next := hb_next hhdr\<rparr>)) (\<lambda>_.
     andthen (upd_free_bytes index (\<lambda>b. word_sub b (hb_sz hhdr))) (\<lambda>_.
     case hb_next hhdr of
       None \<Rightarrow> ret ()
     | Some nxt \<Rightarrow> upd_hdr nxt (\<lambda>nhdr. nhdr\<lparr>hb_prev := hb_prev hhdr\<rparr>))))"

definition GC_remove_from_fl :: "hblk \<Rightarrow> unit gc_op" where
  "GC_remove_from_fl h =
     andthen (get_hdr h) (\<lambda>hhdr. GC_remove_from_fl_at h (GC_hblk_fl_from_blocks (divHBLKSZ (hb_sz hhdr))))"

definition GC_free_block_ending_at :: "hblk \<Rightarrow> hblk option gc_op" where
  "GC_free_block_ending_at h =
     andthen (reads (\<lambda>st. forwarded (hdr_map st) (h - 1))) (\<lambda>r.
     case r of
       Some p \<Rightarrow> andthen (get_hdr p) (\<lambda>phdr. ret (if HBLK_IS_FREE phdr then Some p else None))
     | None \<Rightarrow>
         andthen (GC_prev_block (h - 1)) (\<lambda>r.
         case r of
           None \<Rightarrow> ret None
         | Some p \<Rightarrow>
             andthen (get_hdr p) (\<lambda>phdr.
             ret (if HBLK_IS_FREE phdr \<and> p * HBLKSIZE + hb_sz phdr = h * HBLKSIZE then Some p else None))))"

definition GC_add_to_fl :: "hblk \<Rightarrow> unit gc_op" where
  "GC_add_to_fl h =
     andthen (get_hdr h) (\<lambda>hhdr.
     let index = GC_hblk_fl_from_blocks (divHBLKSZ (hb_sz hhdr))
     in andthen (get_freelist index) (\<lambda>second.
        andthen (set_freelist index (Some h)) (\<lambda>_.
        andthen (upd_free_bytes index (\<lambda>b. word_add b (hb_sz hhdr))) (\<lambda>_.
        andthen (upd_hdr h (\<lambda>d. d\<lparr>hb_next := second, hb_prev := None\<rparr>)) (\<lambda>_.
        andthen (case second of None \<Rightarrow> ret () | Some s \<Rightarrow> upd_hdr s (\<lambda>d. d\<lparr>hb_prev := Some h\<rparr>)) (\<lambda>_.
        upd_hdr h (\<lambda>d. d\<lparr>hb_flags := or (hb_flags d) FREE_BLK\<rparr>)))))))"

section \<open>Returning memory to the operating system\<close>

definition GC_unmap :: "hblk \<Rightarrow> nat \<Rightarrow> unit gc_op" where
  "GC_unmap h bytes = modifies (\<lambda>st. st\<lparr>mem_mapped := (\<lambda>b. if h \<le> b \<and> b < h + divHBLKSZ bytes then False else mem_mapped st b)\<rparr>)"

definition GC_remap :: "hblk \<Rightarrow> nat \<Rightarrow> unit gc_op" where
  "GC_remap h bytes = modifies (\<lambda>st. st\<lparr>mem_mapped := (\<lambda>b. if h \<le> b \<and> b < h + divHBLKSZ bytes then True else mem_mapped st b)\<rparr>)"

definition set_unmapped :: "hblk \<Rightarrow> unit gc_op" where
  "set_unmapped h = upd_hdr h (\<lambda>d. d\<lparr>hb_flags := or (hb_flags d) WAS_UNMAPPED\<rparr>)"

definition clear_unmapped :: "hblk \<Rightarrow> unit gc_op" where
  "clear_unmapped h = upd_hdr h (\<lambda>d. d\<lparr>hb_flags := and (hb_flags d) (not WAS_UNMAPPED)\<rparr>)"

fun unmap_list :: "nat \<Rightarrow> nat \<Rightarrow> hblk option \<Rightarrow> unit gc_op" where
  "unmap_list fuel threshold None = ret ()"
| "unmap_list 0 threshold (Some h) = exhaust"
| "unmap_list (Suc fuel) threshold (Some h) =
     andthen (get_hdr h) (\<lambda>hhdr.
     andthen (reads GC_gc_no) (\<lambda>gc_no.
     andthen (if IS_MAPPED hhdr \<and> (of_nat threshold :: 16 word) < of_nat gc_no - hb_last_reclaimed hhdr
              then andthen (GC_unmap h (hb_sz hhdr)) (\<lambda>_. set_unmapped h) else ret ()) (\<lambda>_.
     unmap_list fuel threshold (hb_next hhdr))))"

fun unmap_lists :: "nat \<Rightarrow> nat \<Rightarrow> nat \<Rightarrow> unit gc_op" where
  "unmap_lists fuel threshold 0 = ret ()"
| "unmap_lists fuel threshold (Suc k) =
     andthen (get_freelist (N_HBLK_FLS - k)) (\<lambda>h.
     andthen (unmap_list fuel threshold h) (\<lambda>_. unmap_lists fuel threshold k))"

definition GC_unmap_old :: "nat \<Rightarrow> nat \<Rightarrow> unit gc_op" where
  "GC_unmap_old fuel threshold = (if threshold = 0 then ret () else unmap_lists fuel threshold (N_HBLK_FLS + 1))"

text \<open>Two adjacent free blocks are made both mapped or both unmapped.\<close>

definition make_consistent :: "hblk \<Rightarrow> hdr \<Rightarrow> hblk \<Rightarrow> hdr \<Rightarrow> unit gc_op" where
  "make_consistent h hhdr nxt nexthdr =
     (let size = hb_sz hhdr; nextsize = hb_sz nexthdr
      in if IS_MAPPED hhdr \<and> \<not> IS_MAPPED nexthdr then
           (if nextsize < size then GC_remap nxt nextsize
            else andthen (GC_unmap h size) (\<lambda>_. set_unmapped h))
         else if IS_MAPPED nexthdr \<and> \<not> IS_MAPPED hhdr then
           (if nextsize < size then GC_unmap nxt nextsize
            else
              andthen (GC_remap h size) (\<lambda>_.
              andthen (clear_unmapped h) (\<lambda>_.
              upd_hdr h (\<lambda>d. d\<lparr>hb_last_reclaimed := hb_last_reclaimed nexthdr\<rparr>))))
         else ret ())"

fun merge_list :: "nat \<Rightarrow> nat \<Rightarrow> hblk option \<Rightarrow> unit gc_op" where
  "merge_list fuel i None = ret ()"
| "merge_list 0 i (Some h) = exhaust"
| "merge_list (Suc fuel) i (Some h) =
     andthen (get_hdr h) (\<lambda>hhdr.
     let nxt = h + divHBLKSZ (hb_sz hhdr)
     in andthen (HDR nxt) (\<lambda>e.
        case e of
          Jump d \<Rightarrow> if d = 0 then merge_list fuel i (hb_next hhdr) else raise_fault Null_Dereference
        | Header nexthdr \<Rightarrow>
            if HBLK_IS_FREE nexthdr \<and> signed_pos (word_add (hb_sz hhdr) (hb_sz nexthdr)) then
              andthen (make_consistent h hhdr nxt nexthdr) (\<lambda>_.
              andthen (GC_remove_from_fl_at h i) (\<lambda>_.
              andthen (GC_remove_from_fl nxt) (\<lambda>_.
              andthen (get_hdr nxt) (\<lambda>nexthdr.
              andthen (upd_hdr h (\<lambda>d. d\<lparr>hb_sz := word_add (hb_sz d) (hb_sz nexthdr)\<rparr>)) (\<lambda>_.
              andthen (GC_remove_header nxt) (\<lambda>_.
              andthen (GC_add_to_fl h) (\<lambda>_.
              andthen (get_freelist i) (\<lambda>first. merge_list fuel i first))))))))
            else merge_list fuel i (hb_next hhdr)))"

fun merge_lists :: "nat \<Rightarrow> nat \<Rightarrow> unit gc_op" where
  "merge_lists fuel 0 = ret ()"
| "merge_lists fuel (Suc k) =
     andthen (get_freelist (N_HBLK_FLS - k)) (\<lambda>h.
     andthen (merge_list fuel (N_HBLK_FLS - k) h) (\<lambda>_. merge_lists fuel k))"

definition GC_merge_unmapped :: "nat \<Rightarrow> unit gc_op" where
  "GC_merge_unmapped fuel = merge_lists fuel (N_HBLK_FLS + 1)"

section \<open>Splitting blocks\<close>

definition GC_get_first_part :: "hblk \<Rightarrow> nat \<Rightarrow> nat \<Rightarrow> hblk option gc_op" where
  "GC_get_first_part h bytes index =
     andthen (get_hdr h) (\<lambda>hhdr.
     let total_size = hb_sz hhdr
     in andthen (GC_remove_from_fl_at h index) (\<lambda>_.
        if total_size = bytes then ret (Some h)
        else
          (let rest_block = h + divHBLKSZ bytes
           in andthen (GC_install_header rest_block) (\<lambda>ok.
              if \<not> ok then ret None
              else
                andthen (upd_hdr rest_block (\<lambda>d. d\<lparr>hb_sz := word_sub total_size bytes, hb_flags := 0\<rparr>)) (\<lambda>_.
                andthen (GC_add_to_fl rest_block) (\<lambda>_. ret (Some h)))))))"

definition GC_split_block :: "hblk \<Rightarrow> hblk \<Rightarrow> nat \<Rightarrow> unit gc_op" where
  "GC_split_block h n index =
     andthen (get_hdr h) (\<lambda>hhdr.
     let total_size = hb_sz hhdr; h_size = (n - h) * HBLKSIZE; prev = hb_prev hhdr; nxt = hb_next hhdr
     in andthen (upd_hdr n (\<lambda>d. d\<lparr>hb_prev := prev, hb_next := nxt, hb_sz := word_sub total_size h_size, hb_flags := 0\<rparr>)) (\<lambda>_.
        andthen (case prev of Some p \<Rightarrow> upd_hdr p (\<lambda>d. d\<lparr>hb_next := Some n\<rparr>) | None \<Rightarrow> set_freelist index (Some n)) (\<lambda>_.
        andthen (case nxt of Some x \<Rightarrow> upd_hdr x (\<lambda>d. d\<lparr>hb_prev := Some n\<rparr>) | None \<Rightarrow> ret ()) (\<lambda>_.
        andthen (upd_free_bytes index (\<lambda>b. word_sub b h_size)) (\<lambda>_.
        andthen (reads GC_gc_no) (\<lambda>gc_no.
        andthen (upd_hdr h (\<lambda>d. d\<lparr>hb_last_reclaimed := of_nat gc_no, hb_sz := h_size\<rparr>)) (\<lambda>_.
        andthen (GC_add_to_fl h) (\<lambda>_.
        upd_hdr n (\<lambda>d. d\<lparr>hb_flags := or (hb_flags d) FREE_BLK\<rparr>)))))))))"

section \<open>Allocation\<close>

datatype may_split = No_Split | May_Split | AVOID_SPLIT_REMAPPED

text \<open>
  What the part of the search that looks at one block decides: go on with the next block, start
  the list again, or use a block with so many bytes available (too few of them mean going on, too).
\<close>

datatype candidate = Continue | Restart | Candidate hblk nat

lemma skip_black_measure:
  assumes "last_block * HBLKSIZE \<le> search_end" and "GC_is_black_listed st last_block len = Some r"
  shows "Suc search_end - r * HBLKSIZE < Suc search_end - last_block * HBLKSIZE"
proof -
  have "last_block < r" by (rule GC_is_black_listed_Some(1) [OF assms(2)])
  then have "last_block * HBLKSIZE < r * HBLKSIZE" by (simp add: HBLKSIZE_def)
  with assms(1) show ?thesis by linarith
qed

text \<open>The first block, from the given one up to an address, that is not black-listed, or one behind it.\<close>

function skip_black :: "gc_state \<Rightarrow> nat \<Rightarrow> nat \<Rightarrow> hblk \<Rightarrow> hblk" where
  "skip_black st search_end eff_size_needed lasthbp =
     (if lasthbp * HBLKSIZE \<le> search_end then
        (case GC_is_black_listed st lasthbp eff_size_needed of
           Some thishbp \<Rightarrow> skip_black st search_end eff_size_needed thishbp
         | None \<Rightarrow> lasthbp)
      else lasthbp)"
  by pat_completeness auto
termination
  by (relation "measure (\<lambda>(st, search_end, eff, lasthbp). search_end + 1 - lasthbp * HBLKSIZE)") (auto intro: skip_black_measure)

declare skip_black.simps [simp del]

text \<open>Dropping a completely black-listed block in pieces of one block each.\<close>

fun drop_loop :: "hblk \<Rightarrow> hblk \<Rightarrow> nat \<Rightarrow> unit gc_op" where
  "drop_loop hbp h 0 = ret ()"
| "drop_loop hbp h (Suc n) =
     andthen (if h \<noteq> hbp then GC_install_header h else ret True) (\<lambda>ok.
     andthen (if ok then andthen (setup_header h h HBLKSIZE PTRFREE 0) (\<lambda>_. ret ()) else ret ()) (\<lambda>_.
     drop_loop hbp (h + 1) n))"

definition drop_block :: "hblk \<Rightarrow> nat \<Rightarrow> candidate gc_op" where
  "drop_block hbp n =
     andthen (get_hdr hbp) (\<lambda>hhdr.
     let total_size = hb_sz hhdr
     in andthen (modifies (\<lambda>st. st\<lparr>GC_large_free_bytes := word_sub (GC_large_free_bytes st) total_size,
          GC_bytes_dropped := word_add (GC_bytes_dropped st) total_size\<rparr>)) (\<lambda>_.
        andthen (GC_remove_from_fl_at hbp n) (\<lambda>_.
        andthen (drop_loop hbp hbp (divHBLKSZ total_size)) (\<lambda>_.
        ret (case hb_prev hhdr of None \<Rightarrow> Restart | Some p \<Rightarrow> Candidate p 0)))))"

text \<open>The block is obviously worse than the next one on the list.\<close>

definition next_is_better :: "hdr \<Rightarrow> nat \<Rightarrow> may_split \<Rightarrow> bool gc_op" where
  "next_is_better hhdr size_needed may_split =
     (if hb_sz hhdr = size_needed then ret False
      else if may_split = No_Split then ret True
      else
        (case hb_next hhdr of
           None \<Rightarrow> ret False
         | Some thishbp \<Rightarrow>
             andthen (get_hdr thishbp) (\<lambda>thishdr.
             reads (\<lambda>st. hb_sz thishdr < hb_sz hhdr \<and> size_needed \<le> hb_sz thishdr \<and>
               GC_is_black_listed st thishbp size_needed = None))))"

text \<open>Moving to the first part of the block that is not black-listed.\<close>

definition move_to :: "hblk \<Rightarrow> hdr \<Rightarrow> hblk \<Rightarrow> nat \<Rightarrow> nat \<Rightarrow> may_split \<Rightarrow> candidate gc_op" where
  "move_to hbp hhdr thishbp size_avail n may_split =
     (if may_split = AVOID_SPLIT_REMAPPED \<and> \<not> IS_MAPPED hhdr then ret Continue
      else
        andthen (GC_install_header thishbp) (\<lambda>ok.
        if \<not> ok then ret (Candidate hbp size_avail)
        else
          andthen (if \<not> IS_MAPPED hhdr then andthen (GC_remap hbp (hb_sz hhdr)) (\<lambda>_. clear_unmapped hbp) else ret ()) (\<lambda>_.
          andthen (GC_split_block hbp thishbp n) (\<lambda>_.
          ret (Candidate thishbp size_avail)))))"

definition avoid_black_list :: "hblk \<Rightarrow> hdr \<Rightarrow> nat \<Rightarrow> nat \<Rightarrow> 8 word \<Rightarrow> nat \<Rightarrow> may_split \<Rightarrow> candidate gc_op" where
  "avoid_black_list hbp hhdr size_needed kind flags n may_split =
     (if \<not> IS_UNCOLLECTABLE kind \<and> (kind \<noteq> PTRFREE \<or> MAX_BLACK_LIST_ALLOC < size_needed) then
        andthen (reads (\<lambda>st. skip_black st (hbp * HBLKSIZE + hb_sz hhdr - size_needed)
          (if and flags IGNORE_OFF_PAGE \<noteq> 0 then HBLKSIZE else size_needed) hbp)) (\<lambda>thishbp.
        let orig_avail = hb_sz hhdr; size_avail = orig_avail - (thishbp - hbp) * HBLKSIZE
        in andthen (reads GC_black_list_spacing) (\<lambda>BL_LIMIT.
           andthen (reads GC_find_leak) (\<lambda>find_leak.
           if size_needed \<le> size_avail then
             if thishbp \<noteq> hbp then move_to hbp hhdr thishbp size_avail n may_split else ret (Candidate hbp size_avail)
           else if BL_LIMIT < size_needed \<and> BL_LIMIT < orig_avail - size_needed then
             andthen (modifies (\<lambda>st. st\<lparr>GC_large_alloc_warn_suppressed :=
               (if GC_large_alloc_warn_interval st \<le> GC_large_alloc_warn_suppressed st + 1 then 0
                else GC_large_alloc_warn_suppressed st + 1)\<rparr>)) (\<lambda>_.
             ret (Candidate hbp orig_avail))
           else if size_avail = 0 \<and> size_needed = HBLKSIZE \<and> IS_MAPPED hhdr \<and> \<not> find_leak then
             andthen (modifies (\<lambda>st. st\<lparr>drop_count := (drop_count st + 1) mod 2 ^ 32\<rparr>)) (\<lambda>_.
             andthen (reads drop_count) (\<lambda>count.
             if and count 3 = 0 then drop_block hbp n else ret (Candidate hbp size_avail)))
           else ret (Candidate hbp size_avail))))
      else ret (Candidate hbp (hb_sz hhdr)))"

text \<open>Taking the block off the list, mapped, and setting up its header.\<close>

definition take_block :: "hblk \<Rightarrow> nat \<Rightarrow> nat \<Rightarrow> nat \<Rightarrow> 8 word \<Rightarrow> nat \<Rightarrow> hblk option gc_op" where
  "take_block hbp size_needed sz kind flags n =
     andthen (get_hdr hbp) (\<lambda>hhdr.
     andthen (if \<not> IS_MAPPED hhdr then andthen (GC_remap hbp (hb_sz hhdr)) (\<lambda>_. clear_unmapped hbp) else ret ()) (\<lambda>_.
     andthen (GC_get_first_part hbp size_needed n) (\<lambda>r.
     case r of
       None \<Rightarrow> ret None
     | Some hbp \<Rightarrow>
         andthen (GC_install_counts hbp size_needed) (\<lambda>ok.
         if \<not> ok then ret None
         else
           andthen (setup_header hbp hbp sz kind flags) (\<lambda>ok.
           if \<not> ok then andthen (GC_remove_counts hbp size_needed) (\<lambda>_. ret None)
           else
             andthen (modifies (\<lambda>st. st\<lparr>GC_fail_count := 0,
               GC_large_free_bytes := word_sub (GC_large_free_bytes st) size_needed\<rparr>)) (\<lambda>_.
             ret (Some hbp)))))))"

fun nth_loop :: "nat \<Rightarrow> hblk option \<Rightarrow> nat \<Rightarrow> nat \<Rightarrow> nat \<Rightarrow> 8 word \<Rightarrow> nat \<Rightarrow> may_split \<Rightarrow> hblk option gc_op" where
  "nth_loop fuel None size_needed sz kind flags n may_split = ret None"
| "nth_loop 0 (Some hbp) size_needed sz kind flags n may_split = exhaust"
| "nth_loop (Suc fuel) (Some hbp) size_needed sz kind flags n may_split =
     andthen (get_hdr hbp) (\<lambda>hhdr.
     if hb_sz hhdr < size_needed then nth_loop fuel (hb_next hhdr) size_needed sz kind flags n may_split
     else
       andthen (next_is_better hhdr size_needed may_split) (\<lambda>better.
       if better then nth_loop fuel (hb_next hhdr) size_needed sz kind flags n may_split
       else
         andthen (avoid_black_list hbp hhdr size_needed kind flags n may_split) (\<lambda>c.
         case c of
           Continue \<Rightarrow> nth_loop fuel (hb_next hhdr) size_needed sz kind flags n may_split
         | Restart \<Rightarrow>
             andthen (get_freelist n) (\<lambda>first. nth_loop fuel first size_needed sz kind flags n may_split)
         | Candidate hbp size_avail \<Rightarrow>
             if size_needed \<le> size_avail then take_block hbp size_needed sz kind flags n
             else
               andthen (get_hdr hbp) (\<lambda>hhdr. nth_loop fuel (hb_next hhdr) size_needed sz kind flags n may_split))))"

definition GC_allochblk_nth :: "nat \<Rightarrow> nat \<Rightarrow> nat \<Rightarrow> 8 word \<Rightarrow> nat \<Rightarrow> may_split \<Rightarrow> hblk option gc_op" where
  "GC_allochblk_nth fuel sz kind flags n may_split =
     andthen (get_freelist n) (\<lambda>first.
     nth_loop fuel first (HBLKSIZE * OBJ_SZ_TO_BLOCKS_CHECKED sz) sz kind flags n may_split)"

fun lists_loop :: "nat \<Rightarrow> nat \<Rightarrow> nat \<Rightarrow> nat \<Rightarrow> 8 word \<Rightarrow> may_split \<Rightarrow> nat \<Rightarrow> hblk option gc_op" where
  "lists_loop fuel start_list sz kind flags may_split 0 = ret None"
| "lists_loop fuel start_list sz kind flags may_split (Suc k) =
     andthen (GC_allochblk_nth fuel sz kind flags start_list may_split) (\<lambda>result.
     if result \<noteq> None then ret result else lists_loop fuel (start_list + 1) sz kind flags may_split k)"

text \<open>
  How far \<open>GC_allochblk\<close> may split: the decisions about collecting are made elsewhere and are
  arguments (use the whole heap; much memory was freed by finalizers; the bytes in large objects
  now and at most).
\<close>

record split_policy =
  use_more_heap :: bool
  finalizers_freed_much :: bool
  GC_large_allocd_bytes :: nat
  GC_max_large_allocd_bytes :: nat

definition GC_allochblk :: "nat \<Rightarrow> split_policy \<Rightarrow> nat \<Rightarrow> nat \<Rightarrow> 8 word \<Rightarrow> hblk option gc_op" where
  "GC_allochblk fuel policy sz kind flags =
     (let blocks = OBJ_SZ_TO_BLOCKS_CHECKED sz
      in if 2 ^ 63 \<le> blocks * HBLKSIZE then ret None
         else
           (let start_list = GC_hblk_fl_from_blocks blocks
            in andthen (GC_allochblk_nth fuel sz kind flags start_list No_Split) (\<lambda>result.
               if result \<noteq> None then ret result
               else
                 andthen (reads (GC_enough_large_bytes_left (GC_large_allocd_bytes policy) (GC_max_large_allocd_bytes policy))) (\<lambda>enough.
                 let split_limit = (if use_more_heap policy then N_HBLK_FLS else if finalizers_freed_much policy then 0 else enough);
                     may_split = (if \<not> use_more_heap policy \<and> \<not> finalizers_freed_much policy \<and> 0 < enough
                                  then AVOID_SPLIT_REMAPPED else May_Split);
                     start_list = (if start_list < UNIQUE_THRESHOLD then start_list + 1 else start_list)
                 in lists_loop fuel start_list sz kind flags may_split (split_limit + 1 - start_list)))))"

section \<open>Freeing\<close>

definition merge_next :: "hblk \<Rightarrow> hblk \<Rightarrow> unit gc_op" where
  "merge_next hbp nxt =
     andthen (HDR nxt) (\<lambda>e.
     case e of
       Jump d \<Rightarrow> if d = 0 then ret () else raise_fault Null_Dereference
     | Header nexthdr \<Rightarrow>
         andthen (get_hdr hbp) (\<lambda>hhdr.
         if HBLK_IS_FREE nexthdr \<and> IS_MAPPED nexthdr \<and> signed_pos (word_add (hb_sz hhdr) (hb_sz nexthdr)) then
           andthen (GC_remove_from_fl nxt) (\<lambda>_.
           andthen (upd_hdr hbp (\<lambda>d. d\<lparr>hb_sz := word_add (hb_sz d) (hb_sz nexthdr)\<rparr>)) (\<lambda>_.
           GC_remove_header nxt))
         else ret ()))"

definition merge_prev :: "hblk \<Rightarrow> hblk option \<Rightarrow> hblk gc_op" where
  "merge_prev hbp prev =
     (case prev of
        None \<Rightarrow> ret hbp
      | Some p \<Rightarrow>
          andthen (get_hdr p) (\<lambda>prevhdr.
          andthen (get_hdr hbp) (\<lambda>hhdr.
          if IS_MAPPED prevhdr \<and> signed_pos (word_add (hb_sz hhdr) (hb_sz prevhdr)) then
            andthen (GC_remove_from_fl p) (\<lambda>_.
            andthen (reads GC_gc_no) (\<lambda>gc_no.
            andthen (upd_hdr p (\<lambda>d. d\<lparr>hb_sz := word_add (hb_sz d) (hb_sz hhdr), hb_last_reclaimed := of_nat gc_no\<rparr>)) (\<lambda>_.
            andthen (GC_remove_header hbp) (\<lambda>_. ret p))))
          else ret hbp)))"

definition GC_freehblk :: "hblk \<Rightarrow> unit gc_op" where
  "GC_freehblk hbp =
     andthen (get_hdr hbp) (\<lambda>hhdr.
     let size = HBLKSIZE * OBJ_SZ_TO_BLOCKS (hb_sz hhdr)
     in if \<not> signed_pos size then raise_fault Abort_Called
        else
          andthen (GC_remove_counts hbp size) (\<lambda>_.
          andthen (reads GC_gc_no) (\<lambda>gc_no.
          andthen (upd_hdr hbp (\<lambda>d. d\<lparr>hb_sz := size, hb_last_reclaimed := of_nat gc_no\<rparr>)) (\<lambda>_.
          if HBLK_IS_FREE hhdr then raise_fault Abort_Called
          else
            andthen (upd_hdr hbp (\<lambda>d. d\<lparr>hb_flags := or (hb_flags d) FREE_BLK\<rparr>)) (\<lambda>_.
            andthen (GC_free_block_ending_at hbp) (\<lambda>prev.
            andthen (merge_next hbp (hbp + divHBLKSZ size)) (\<lambda>_.
            andthen (merge_prev hbp prev) (\<lambda>hbp.
            andthen (modifies (\<lambda>st. st\<lparr>GC_large_free_bytes := word_add (GC_large_free_bytes st) size\<rparr>)) (\<lambda>_.
            GC_add_to_fl hbp)))))))))"

section \<open>Extending the heap\<close>

text \<open>
  \<open>GC_add_to_heap\<close> of \<open>alloc.c\<close>: memory that was obtained from the operating system becomes one free block. The first
  two blocks of the address space are not used.
\<close>

definition MAX_HEAP_SECTS :: nat where
  "MAX_HEAP_SECTS = 1024"

function skip_low :: "hblk \<Rightarrow> nat \<Rightarrow> (hblk \<times> nat) option" where
  "skip_low p bytes =
     (if p * HBLKSIZE \<le> HBLKSIZE then
        (let bytes = word_sub bytes HBLKSIZE in if bytes = 0 then None else skip_low (p + 1) bytes)
      else Some (p, bytes))"
  by pat_completeness auto
termination by (relation "measure (\<lambda>(p, bytes). 2 - p)") (auto simp: HBLKSIZE_def)

declare skip_low.simps [simp del]

definition heap_extended :: "hblk \<Rightarrow> nat \<Rightarrow> nat \<Rightarrow> gc_state \<Rightarrow> gc_state" where
  "heap_extended p bytes endp st =
     (let heapsize = word_add (GC_heapsize st) bytes; collect_at = word_add (GC_collect_at_heapsize st) bytes;
          addr = p * HBLKSIZE; least = GC_least_plausible_heap_addr st
      in st\<lparr>GC_heapsize := heapsize,
           GC_collect_at_heapsize := (if collect_at < heapsize then GC_WORD_MAX else collect_at),
           GC_least_plausible_heap_addr := (if addr \<le> least \<or> least = 0 then addr - 8 else least),
           GC_greatest_plausible_heap_addr :=
             (if GC_greatest_plausible_heap_addr st \<le> word_add addr bytes then endp else GC_greatest_plausible_heap_addr st)\<rparr>)"

definition GC_add_to_heap :: "hblk \<Rightarrow> nat \<Rightarrow> unit gc_op" where
  "GC_add_to_heap p bytes =
     andthen (reads GC_heap_sects) (\<lambda>sects.
     if MAX_HEAP_SECTS \<le> length sects then raise_fault Abort_Called
     else
       (case skip_low p bytes of
          None \<Rightarrow> ret ()
        | Some (p, bytes) \<Rightarrow>
            (let endp = word_add (p * HBLKSIZE) bytes; wrapped = endp \<le> p * HBLKSIZE;
                 bytes = (if wrapped then word_sub bytes HBLKSIZE else bytes);
                 endp = (if wrapped then word_sub endp HBLKSIZE else endp)
             in if wrapped \<and> bytes = 0 then ret ()
                else
                  andthen (GC_install_header p) (\<lambda>ok.
                  if \<not> ok then ret ()
                  else
                    andthen (modifies (\<lambda>st. st\<lparr>GC_heap_sects := GC_heap_sects st @ [(p, bytes)]\<rparr>)) (\<lambda>_.
                    andthen (upd_hdr p (\<lambda>d. d\<lparr>hb_sz := bytes, hb_flags := 0\<rparr>)) (\<lambda>_.
                    andthen (GC_freehblk p) (\<lambda>_.
                    modifies (heap_extended p bytes endp))))))))"

end
