(* ===== verification/Gc_Layout.thy ===== *)
theory Gc_Layout
  imports Gc_Blocks
begin

text \<open>
  The layout of the heap: every header describes a region of consecutive blocks; inside the region
  of a free block the map is empty, inside the region of a block in use it counts back. From this follow the
  disjointness of the regions and what the searches of \<open>headers.c\<close> find.
\<close>

section \<open>Sizes in blocks\<close>

lemma block_arith:
  "divHBLKSZ n = n div 4096" "HBLKSIZE = 4096" "MAX_JUMP = 4095" "BOTTOM_SZ = 1024" "blocks_of_bytes sz = (sz + 4095) div 4096"
  by (simp_all add: hash_arith HBLKSIZE_def MAX_JUMP_def BOTTOM_SZ_def blocks_of_bytes_def)

abbreviation nblocks :: "hdr \<Rightarrow> nat" where
  "nblocks d \<equiv> blocks_of_bytes (hb_sz d)"

lemma OBJ_SZ_TO_BLOCKS_eq: "sz < 2 ^ 63 \<Longrightarrow> OBJ_SZ_TO_BLOCKS sz = blocks_of_bytes sz"
  by (simp add: OBJ_SZ_TO_BLOCKS_def word_add_def block_arith)

lemma blocks_of_bytes_mult [simp]: "blocks_of_bytes (n * 4096) = n" "blocks_of_bytes (4096 * n) = n"
  by (simp_all add: block_arith)

lemma blocks_dvd: "HBLKSIZE dvd sz \<Longrightarrow> sz = blocks_of_bytes sz * HBLKSIZE"
  by (auto simp: block_arith elim!: dvdE)

section \<open>Regions\<close>

definition entry_ok :: "(hblk \<Rightarrow> hdr_entry) \<Rightarrow> hblk \<Rightarrow> hdr \<Rightarrow> bool" where
  "entry_ok m h d \<longleftrightarrow>
     0 < h \<and> 0 < hb_sz d \<and> hb_sz d < 2 ^ 63 \<and> h + nblocks d \<le> 2 ^ 52 \<and>
     (HBLK_IS_FREE d \<longrightarrow> HBLKSIZE dvd hb_sz d) \<and>
     (\<forall>k. 0 < k \<longrightarrow> k < nblocks d \<longrightarrow> m (h + k) = (if HBLK_IS_FREE d then NIL else Jump (min k MAX_JUMP)))"

definition inside_used :: "(hblk \<Rightarrow> hdr_entry) \<Rightarrow> hblk \<Rightarrow> bool" where
  "inside_used m p \<longleftrightarrow> (\<exists>h d. m h = Header d \<and> \<not> HBLK_IS_FREE d \<and> h < p \<and> p < h + nblocks d)"

definition layout :: "(hblk \<Rightarrow> hdr_entry) \<Rightarrow> bool" where
  "layout m \<longleftrightarrow> (\<forall>h d. m h = Header d \<longrightarrow> entry_ok m h d) \<and> (\<forall>p j. m p = Jump j \<longrightarrow> j \<noteq> 0 \<longrightarrow> inside_used m p)"

definition region :: "hblk \<Rightarrow> hdr \<Rightarrow> hblk set" where
  "region h d = {h..<h + nblocks d}"

lemma layout_entry: "layout m \<Longrightarrow> m h = Header d \<Longrightarrow> entry_ok m h d"
  by (simp add: layout_def)

lemma blocks_of_bytes_pos: "0 < sz \<Longrightarrow> 0 < blocks_of_bytes sz"
  by (simp add: block_arith div_greater_zero_iff)

lemma nblocks_pos: "entry_ok m h d \<Longrightarrow> 0 < nblocks d"
  by (simp add: entry_ok_def blocks_of_bytes_pos)

lemma inside_not_header:
  assumes "layout m" and "m h = Header d" and "h < p" and "p < h + nblocks d"
  shows "m p = (if HBLK_IS_FREE d then NIL else Jump (min (p - h) MAX_JUMP))"
proof -
  have ok: "entry_ok m h d" by (rule layout_entry [OF assms(1,2)])
  obtain k where "p = h + k" using assms(3) less_imp_add_positive by blast
  with ok assms(3,4) show ?thesis by (simp add: entry_ok_def)
qed

lemma header_outside:
  assumes "layout m" and "m h = Header d" and "m p = Header e" and "h < p"
  shows "h + nblocks d \<le> p"
proof (rule ccontr)
  assume "\<not> ?thesis"
  with inside_not_header [OF assms(1,2,4)] assms(3) show False by (auto split: if_splits)
qed

lemma regions_disjoint:
  assumes "layout m" and "m h = Header d" and "m p = Header e" and "h \<noteq> p"
  shows "region h d \<inter> region p e = {}"
  using header_outside [OF assms(1-3)] header_outside [OF assms(1,3,2)] assms(4)
  by (cases "h < p") (auto simp: region_def)

lemma inside_jump:
  assumes "layout m" and "m p = Jump j" and "j \<noteq> 0"
  obtains h d where "m h = Header d" and "\<not> HBLK_IS_FREE d" and "h < p" and "p < h + nblocks d" and "j = min (p - h) MAX_JUMP"
proof -
  from assms obtain h d where "m h = Header d" "\<not> HBLK_IS_FREE d" "h < p" "p < h + nblocks d"
    unfolding layout_def inside_used_def by blast
  with inside_not_header [OF assms(1) this(1,3,4)] assms(2) that show ?thesis by simp
qed

lemma layout_zero: "layout m \<Longrightarrow> m 0 = NIL"
proof (cases "m 0")
  case (Jump j)
  moreover assume "layout m"
  ultimately show ?thesis using inside_jump [of m 0 j] by auto
qed (auto simp: layout_def entry_ok_def)

section \<open>Following counts\<close>

lemma forwarded_inside:
  assumes "layout m" and "m h = Header d" and "\<not> HBLK_IS_FREE d" and "h \<le> p" and "p < h + nblocks d"
  shows "forwarded m p = Some h"
  using assms(4,5)
proof (induction p rule: less_induct)
  case (less p)
  show ?case
  proof (cases "p = h")
    case True
    with assms(2) show ?thesis by (simp add: forwarded.simps)
  next
    case False
    with less.prems have m: "m p = Jump (min (p - h) MAX_JUMP)" using inside_not_header [OF assms(1,2)] assms(3) by simp
    let ?q = "p - min (p - h) MAX_JUMP"
    have "?q < p" "h \<le> ?q" "?q < h + nblocks d" "min (p - h) MAX_JUMP \<noteq> 0" "\<not> p < min (p - h) MAX_JUMP"
      using False less.prems by (auto simp: block_arith)
    with less.IH [of ?q] m show ?thesis by (simp add: forwarded.simps [of m p])
  qed
qed

lemma forwarded_cases:
  assumes "layout m"
  shows "forwarded m p = (case m p of Header d \<Rightarrow> Some p | Jump j \<Rightarrow> if j = 0 then None else forwarded m p)"
  by (cases "m p") (simp_all add: forwarded.simps [of m p])

section \<open>The preceding block\<close>

text \<open>The last header before the block \<open>b\<close>, but not before \<open>a\<close>.\<close>

definition last_header :: "(hblk \<Rightarrow> hdr_entry) \<Rightarrow> hblk \<Rightarrow> hblk \<Rightarrow> hblk option \<Rightarrow> bool" where
  "last_header m a b r \<longleftrightarrow>
     (case r of
        None \<Rightarrow> \<forall>q d. a \<le> q \<longrightarrow> q < b \<longrightarrow> m q \<noteq> Header d
      | Some p \<Rightarrow> a \<le> p \<and> p < b \<and> (\<exists>d. m p = Header d) \<and> (\<forall>q d. p < q \<longrightarrow> q < b \<longrightarrow> m q \<noteq> Header d))"

lemma last_header_skip:
  assumes "last_header m a b r" and "\<And>q d. b \<le> q \<Longrightarrow> q < c \<Longrightarrow> m q \<noteq> Header d" and "b \<le> c"
  shows "last_header m a c r"
proof -
  have below: "q < b" if "q < c" "m q = Header d" for q d using assms(2) that not_less by blast
  show ?thesis
  proof (cases r)
    case None
    with assms(1) below show ?thesis by (auto simp: last_header_def)
  next
    case (Some p)
    with assms(1) have p: "a \<le> p" "p < b" "\<exists>d. m p = Header d" "\<forall>q d. p < q \<longrightarrow> q < b \<longrightarrow> m q \<noteq> Header d"
      by (simp_all add: last_header_def)
    then have "\<forall>q d. p < q \<longrightarrow> q < c \<longrightarrow> m q \<noteq> Header d" using below by blast
    with p assms(3) Some show ?thesis by (simp add: last_header_def)
  qed
qed

lemma last_header_lower:
  "last_header m b c None \<Longrightarrow> last_header m a b r \<Longrightarrow> b \<le> c \<Longrightarrow> last_header m a c r"
  by (rule last_header_skip) (auto simp: last_header_def)

lemma last_header_Some: "last_header m b c (Some p) \<Longrightarrow> a \<le> b \<Longrightarrow> last_header m a c (Some p)"
  by (auto simp: last_header_def)

lemma prev_in_index_ok:
  assumes "layout m"
  shows "last_header m (key * BOTTOM_SZ) (key * BOTTOM_SZ + j) (prev_in_index m key j)"
proof (induction j rule: less_induct)
  case (less j)
  show ?case
  proof (cases j)
    case 0
    then show ?thesis by (simp add: last_header_def)
  next
    case (Suc i)
    let ?p = "key * BOTTOM_SZ + i"
    show ?thesis
    proof (cases "m ?p")
      case (Header d)
      with Suc show ?thesis by (auto simp: last_header_def)
    next
      case (Jump n)
      show ?thesis
      proof (cases "n = 0")
        case True
        have "m q \<noteq> Header d" if "key * BOTTOM_SZ + i \<le> q" "q < key * BOTTOM_SZ + j" for q d
        proof -
          have "q = ?p" using that Suc by simp
          with Jump show ?thesis by simp
        qed
        with less.IH [of i] Jump True Suc show ?thesis
          by (auto intro!: last_header_skip [of m _ "key * BOTTOM_SZ + i"])
      next
        case False
        obtain h d where h: "m h = Header d" "h < ?p" "?p < h + nblocks d" "n = min (?p - h) MAX_JUMP"
          by (rule inside_jump [OF assms Jump False])
        have "m q \<noteq> Header e" if "key * BOTTOM_SZ + (Suc i - n) \<le> q" "q < key * BOTTOM_SZ + j" for q e
        proof -
          have "h < q" "q < h + nblocks d" using that Suc h by auto
          with inside_not_header [OF assms h(1)] show ?thesis by (auto split: if_splits)
        qed
        with less.IH [of "Suc i - n"] Jump False Suc show ?thesis
          by (auto intro!: last_header_skip [of m _ "key * BOTTOM_SZ + (Suc i - n)"])
      qed
    qed
  qed
qed

text \<open>The bottom indices, in descending order, below the block \<open>b\<close>; all headers are in them.\<close>

lemma prev_in_indices_ok:
  assumes "layout m" and "sorted_wrt (>) keys"
    and "\<And>h d. m h = Header d \<Longrightarrow> h div BOTTOM_SZ \<in> set keys \<or> b \<le> h"
    and "keys \<noteq> [] \<Longrightarrow> b = List.hd keys * BOTTOM_SZ + j" and "j \<le> BOTTOM_SZ"
  shows "last_header m 0 b (prev_in_indices m keys j)"
  using assms(2-5)
proof (induction keys arbitrary: j b)
  case Nil
  have "b \<le> h" if "m h = Header d" for h d using Nil.prems(2) [OF that] by simp
  then show ?case by (fastforce simp: last_header_def)
next
  case (Cons key keys)
  let ?a = "key * BOTTOM_SZ"
  have b: "b = ?a + j" using Cons.prems(3) by simp
  have here: "last_header m ?a b (prev_in_index m key j)" unfolding b by (rule prev_in_index_ok [OF assms(1)])
  show ?case
  proof (cases "prev_in_index m key j")
    case (Some p)
    with here last_header_Some show ?thesis by auto
  next
    case None
    let ?b = "if keys = [] then ?a else List.hd keys * BOTTOM_SZ + BOTTOM_SZ"
    have lower: "?b \<le> ?a"
    proof (cases keys)
      case (Cons k ks)
      with \<open>sorted_wrt (>) (key # keys)\<close> have "k + 1 \<le> key" by simp
      then have "(k + 1) * BOTTOM_SZ \<le> key * BOTTOM_SZ" by (rule mult_le_mono1)
      with Cons show ?thesis by simp
    qed simp
    have keys: "h div BOTTOM_SZ \<in> set keys \<or> ?b \<le> h" if "m h = Header d" for h d
    proof (cases "h div BOTTOM_SZ = key \<or> b \<le> h")
      case True
      then have "?a \<le> h" using b by (auto simp: div_times_less_eq_dividend mult.commute)
      with lower show ?thesis by linarith
    next
      case False
      with Cons.prems(2) [OF that] show ?thesis by auto
    qed
    have "last_header m 0 ?b (prev_in_indices m keys BOTTOM_SZ)"
      by (rule Cons.IH) (use Cons.prems(1) keys in auto)
    moreover have "last_header m ?b b None"
    proof -
      have "m q \<noteq> Header d" if "?b \<le> q" "q < ?a" for q d
      proof
        assume "m q = Header d"
        from Cons.prems(2) [OF this] that b have "q div BOTTOM_SZ \<in> set (key # keys)" by auto
        moreover have "q div BOTTOM_SZ \<noteq> key" using that by (auto simp: block_arith)
        ultimately have mem: "q div BOTTOM_SZ \<in> set keys" by simp
        then obtain k ks where ks: "keys = k # ks" by (cases keys) auto
        with mem Cons.prems(1) have "q div BOTTOM_SZ \<le> k" by auto
        with that ks show False by (auto simp: block_arith)
      qed
      with here None b show ?thesis by (auto simp: last_header_def) (metis not_less)
    qed
    moreover have "?b \<le> b" using lower b by linarith
    ultimately show ?thesis using None by (simp add: last_header_lower)
  qed
qed

text \<open>The keys of the bottom indices are sorted, and every entry that was ever set has one.\<close>

definition indexed :: "gc_state \<Rightarrow> bool" where
  "indexed st \<longleftrightarrow> sorted_wrt (<) (bottom_indices st) \<and> (\<forall>h. hdr_map st h \<noteq> NIL \<longrightarrow> has_index st h)"

lemma GC_prev_block_ok:
  assumes "layout (hdr_map st)" and "indexed st"
  shows "\<exists>r. GC_prev_block h st = Done st r \<and> last_header (hdr_map st) 0 (h + 1) r"
proof -
  let ?m = "hdr_map st" and ?hi = "h div BOTTOM_SZ"
  let ?keys = "rev (filter (\<lambda>k. k \<le> ?hi) (bottom_indices st))"
  let ?j = "if has_index st h then h mod BOTTOM_SZ + 1 else BOTTOM_SZ"
  let ?b = "if ?keys = [] then 0 else List.hd ?keys * BOTTOM_SZ + ?j"
  have sorted: "sorted_wrt (<) (bottom_indices st)" using assms(2) by (simp add: indexed_def)
  have desc: "sorted_wrt (>) ?keys"
    using sorted_wrt_filter [OF sorted, of "\<lambda>k. k \<le> ?hi"] by (simp add: sorted_wrt_rev)
  have key: "q div BOTTOM_SZ \<in> set ?keys" if "?m q = Header d" "q \<le> h" for q d
    using assms(2) that by (auto simp: indexed_def has_index_def div_le_mono)
  have first: "k \<le> List.hd ?keys" "?keys \<noteq> []" if "k \<in> set ?keys" for k
  proof -
    show "?keys \<noteq> []" using that by (metis empty_iff empty_set)
    then obtain x xs where "?keys = x # xs" by (cases ?keys) auto
    with that desc show "k \<le> List.hd ?keys" by auto
  qed
  have hd_hi: "List.hd ?keys = ?hi" if "has_index st h"
  proof -
    have mem: "?hi \<in> set ?keys" using that by (simp add: has_index_def)
    have "List.hd ?keys \<in> set ?keys" using first(2) [OF mem] by (rule list.set_sel(1))
    with first(1) [OF mem] show ?thesis by simp
  qed
  have last: "last_header ?m 0 ?b (prev_in_indices ?m ?keys ?j)"
  proof (rule prev_in_indices_ok [OF assms(1) desc])
    fix q d assume q: "?m q = Header d"
    show "q div BOTTOM_SZ \<in> set ?keys \<or> ?b \<le> q"
    proof (cases "q \<le> h")
      case False
      have "?b \<le> h + 1"
      proof (cases "?keys = []")
        case ne: False
        then have "List.hd ?keys \<in> set ?keys" by (rule list.set_sel(1))
        then have "List.hd ?keys \<le> ?hi" "has_index st h \<or> List.hd ?keys \<noteq> ?hi" by (auto simp: has_index_def)
        with hd_hi ne show ?thesis by (auto simp: block_arith)
      qed simp
      with False show ?thesis by simp
    qed (use key [OF q] in simp)
  qed (auto simp: block_arith Suc_le_eq)
  have "last_header ?m 0 (h + 1) (prev_in_indices ?m ?keys ?j)"
  proof (rule last_header_skip [OF last])
    fix q d assume q: "?b \<le> q" "q < h + 1"
    show "?m q \<noteq> Header d"
    proof
      assume "?m q = Header d"
      with key q have mem: "q div BOTTOM_SZ \<in> set ?keys" by simp
      from first [OF this] have "q div BOTTOM_SZ \<le> List.hd ?keys" "?b = List.hd ?keys * BOTTOM_SZ + ?j" by simp_all
      with q hd_hi show False by (auto simp: block_arith split: if_splits)
    qed
  next
    show "?b \<le> h + 1"
    proof (cases "?keys = []")
      case ne: False
      then have "List.hd ?keys \<in> set ?keys" by (rule list.set_sel(1))
      then have "List.hd ?keys \<le> ?hi" "has_index st h \<or> List.hd ?keys \<noteq> ?hi" by (auto simp: has_index_def)
      with hd_hi ne show ?thesis by (auto simp: block_arith)
    qed simp
  qed
  then show ?thesis by (auto simp: GC_prev_block_def reads_def Let_def)
qed

lemma free_block_ending_at_ok:
  assumes "layout (hdr_map st)" and "indexed st" and "hdr_map st h = Header d0"
  shows "\<exists>r. GC_free_block_ending_at h st = Done st r \<and>
    (\<forall>p. r = Some p \<longleftrightarrow> (\<exists>d. hdr_map st p = Header d \<and> HBLK_IS_FREE d \<and> p + nblocks d = h))"
proof -
  let ?m = "hdr_map st"
  have h: "0 < h" using layout_entry [OF assms(1,3)] by (simp add: entry_ok_def)
  have before: "p + nblocks d = h \<longleftrightarrow> h - 1 < p + nblocks d" if "?m p = Header d" "p < h" for p d
    using header_outside [OF assms(1) that(1) assms(3) that(2)] h by auto
  have ends: "p + nblocks d = h \<longleftrightarrow> p < h \<and> h - 1 < p + nblocks d" if "?m p = Header d" for p d
    using before [OF that] nblocks_pos [OF layout_entry [OF assms(1) that]] by auto
  have unique: "p = q" if "?m p = Header d" "?m q = Header e" "p \<le> h - 1" "h - 1 < p + nblocks d" "q \<le> h - 1" "h - 1 < q + nblocks e" for p q d e
    using header_outside [OF assms(1) that(1,2)] header_outside [OF assms(1) that(2,1)] that by (cases p q rule: linorder_cases) auto
  have at: "\<exists>r. GC_free_block_ending_at h st = Done st r \<and>
      (\<forall>q. r = Some q \<longleftrightarrow> (\<exists>d. ?m q = Header d \<and> HBLK_IS_FREE d \<and> q + nblocks d = h))"
    if f: "forwarded ?m (h - 1) = Some p" and p: "?m p = Header d" "p \<le> h - 1" "h - 1 < p + nblocks d" for p d
  proof -
    have "GC_free_block_ending_at h st = Done st (if HBLK_IS_FREE d then Some p else None)"
      using f p(1) by (simp add: GC_free_block_ending_at_def andthen_def reads_def get_hdr_def ret_def)
    moreover have "(if HBLK_IS_FREE d then Some p else None) = Some q \<longleftrightarrow> (\<exists>e. ?m q = Header e \<and> HBLK_IS_FREE e \<and> q + nblocks e = h)" for q
    proof
      assume "(if HBLK_IS_FREE d then Some p else None) = Some q"
      then have "q = p \<and> HBLK_IS_FREE d" by (simp split: if_splits)
      with p ends [OF p(1)] h show "\<exists>e. ?m q = Header e \<and> HBLK_IS_FREE e \<and> q + nblocks e = h" by auto
    next
      assume "\<exists>e. ?m q = Header e \<and> HBLK_IS_FREE e \<and> q + nblocks e = h"
      then obtain e where e: "?m q = Header e" "HBLK_IS_FREE e" "q + nblocks e = h" by blast
      with ends [OF e(1)] have "q \<le> h - 1" "h - 1 < q + nblocks e" by auto
      from unique [OF p(1) e(1) p(2,3) this] have "p = q" .
      with e p(1) show "(if HBLK_IS_FREE d then Some p else None) = Some q" by simp
    qed
    ultimately show ?thesis by blast
  qed
  show ?thesis
  proof (cases "?m (h - 1)")
    case (Header d)
    then have "forwarded ?m (h - 1) = Some (h - 1)" by (simp add: forwarded.simps)
    from at [OF this Header] nblocks_pos [OF layout_entry [OF assms(1) Header]] show ?thesis by simp
  next
    case (Jump j)
    show ?thesis
    proof (cases "j = 0")
      case False
      obtain p d where p: "?m p = Header d" "\<not> HBLK_IS_FREE d" "p < h - 1" "h - 1 < p + nblocks d"
        by (rule inside_jump [OF assms(1) Jump False])
      with forwarded_inside [OF assms(1) p(1,2), of "h - 1"] at [of p d] show ?thesis by simp
    next
      case True
      with Jump have none: "forwarded ?m (h - 1) = None" by (simp add: forwarded.simps)
      obtain r where r: "GC_prev_block (h - 1) st = Done st r" "last_header ?m 0 h r"
        using GC_prev_block_ok [OF assms(1,2), of "h - 1"] h by auto
      show ?thesis
      proof (cases r)
        case None
        have "\<not> (?m q = Header d \<and> q + nblocks d = h)" for q d
          using r(2) None ends [of q d] by (auto simp: last_header_def)
        with r None none show ?thesis
          by (auto simp: GC_free_block_ending_at_def andthen_def reads_def ret_def)
      next
        case (Some p)
        with r(2) obtain d where p: "?m p = Header d" "p < h" and gap: "\<And>q e. p < q \<Longrightarrow> q < h \<Longrightarrow> ?m q \<noteq> Header e"
          by (auto simp: last_header_def)
        have "HBLK_IS_FREE d \<Longrightarrow> p * HBLKSIZE + hb_sz d = h * HBLKSIZE \<longleftrightarrow> p + nblocks d = h"
          using layout_entry [OF assms(1) p(1)] blocks_dvd [of "hb_sz d"] by (simp add: entry_ok_def block_arith) (metis add_mult_distrib mult_cancel2 zero_neq_numeral)
        moreover have "q = p" if "?m q = Header e" "q + nblocks e = h" for q e
          using ends [OF that(1)] that gap [of q e] header_outside [OF assms(1) that(1) p(1)] p(2) by (cases p q rule: linorder_cases) auto
        ultimately show ?thesis using r(1) Some none p
          by (auto simp: GC_free_block_ending_at_def andthen_def reads_def ret_def get_hdr_def)
      qed
    qed
  qed
qed

end
