(* ===== verification/Gc_Free_Lists.thy ===== *)
theory Gc_Free_Lists
  imports Gc_Layout
begin

text \<open>
  The doubly linked free lists, as lists of blocks: removal and insertion of a block change the links of its
  neighbours only, and the byte counts stay the sums of the sizes.
\<close>

section \<open>Doubly linked lists\<close>

type_synonym links = "hblk \<Rightarrow> (hblk option \<times> hblk option) option"

fun dll :: "links \<Rightarrow> hblk option \<Rightarrow> hblk option \<Rightarrow> hblk list \<Rightarrow> bool" where
  "dll L first prev [] \<longleftrightarrow> first = None"
| "dll L first prev (h # hs) \<longleftrightarrow> first = Some h \<and> (\<exists>nxt. L h = Some (prev, nxt) \<and> dll L nxt (Some h) hs)"

fun dseg :: "links \<Rightarrow> hblk option \<Rightarrow> hblk option \<Rightarrow> hblk list \<Rightarrow> hblk option \<Rightarrow> bool" where
  "dseg L first prev [] mid \<longleftrightarrow> first = mid"
| "dseg L first prev (h # hs) mid \<longleftrightarrow> first = Some h \<and> (\<exists>nxt. L h = Some (prev, nxt) \<and> dseg L nxt (Some h) hs mid)"

definition last_opt :: "hblk option \<Rightarrow> hblk list \<Rightarrow> hblk option" where
  "last_opt prev xs = (if xs = [] then prev else Some (List.last xs))"

definition first_opt :: "hblk list \<Rightarrow> hblk option" where
  "first_opt xs = (case xs of [] \<Rightarrow> None | x # _ \<Rightarrow> Some x)"

lemma dll_append: "dll L first prev (xs @ ys) \<longleftrightarrow> (\<exists>mid. dseg L first prev xs mid \<and> dll L mid (last_opt prev xs) ys)"
  by (induction xs arbitrary: first prev) (auto simp: last_opt_def)

lemma dll_first: "dll L first prev xs \<Longrightarrow> first = first_opt xs"
  by (cases xs) (auto simp: first_opt_def)

lemma dll_frame: "(\<And>h. h \<in> set xs \<Longrightarrow> L h = L' h) \<Longrightarrow> dll L first prev xs = dll L' first prev xs"
  by (induction xs arbitrary: first prev) auto

lemma dseg_frame: "(\<And>h. h \<in> set xs \<Longrightarrow> L h = L' h) \<Longrightarrow> dseg L first prev xs mid = dseg L' first prev xs mid"
  by (induction xs arbitrary: first prev) auto

definition set_next :: "hblk option \<Rightarrow> hblk option \<Rightarrow> links \<Rightarrow> links" where
  "set_next p n L = (case p of None \<Rightarrow> L | Some h \<Rightarrow> L(h := map_option (\<lambda>(a, b). (a, n)) (L h)))"

definition set_prev :: "hblk option \<Rightarrow> hblk option \<Rightarrow> links \<Rightarrow> links" where
  "set_prev n p L = (case n of None \<Rightarrow> L | Some h \<Rightarrow> L(h := map_option (\<lambda>(a, b). (p, b)) (L h)))"

lemma set_next_other: "p \<noteq> Some h \<Longrightarrow> set_next p n L h = L h"
  by (auto simp: set_next_def split: option.split)

lemma set_prev_other: "n \<noteq> Some h \<Longrightarrow> set_prev n p L h = L h"
  by (auto simp: set_prev_def split: option.split)

lemma dseg_relink:
  assumes "dseg L first prev xs mid" and "distinct xs" and "xs \<noteq> []"
  shows "dseg (set_next (Some (List.last xs)) mid' L) first prev xs mid'"
  using assms
proof (induction xs arbitrary: first prev)
  case (Cons x xs)
  show ?case
  proof (cases "xs = []")
    case True
    with Cons.prems show ?thesis by (auto simp: set_next_def)
  next
    case False
    with Cons.prems(2) have "x \<noteq> List.last xs" by (metis distinct.simps(2) last_in_set)
    then have "set_next (Some (List.last xs)) mid' L x = L x" by (simp add: set_next_other)
    with Cons.IH Cons.prems False show ?thesis by auto
  qed
qed simp

lemma dll_relink:
  assumes "dll L first prev ys" and "distinct ys"
  shows "dll (set_prev (first_opt ys) prev' L) first prev' ys"
proof (cases ys)
  case (Cons y zs)
  with assms obtain nxt where y: "first = Some y" "L y = Some (prev, nxt)" "dll L nxt (Some y) zs" "y \<notin> set zs" by auto
  have "set_prev (Some y) prev' L z = L z" if "z \<in> set zs" for z
    using y(4) that by (intro set_prev_other) auto
  then have "dll (set_prev (Some y) prev' L) nxt (Some y) zs" using y(3) dll_frame by metis
  with y Cons show ?thesis by (simp add: first_opt_def set_prev_def)
qed (use assms in \<open>simp add: set_prev_def first_opt_def\<close>)

lemma dll_middle:
  assumes "dll L first prev (xs @ h # ys)"
  shows "L h = Some (last_opt prev xs, first_opt ys)"
  using assms by (auto simp: dll_append dest: dll_first)

lemma dll_remove:
  assumes "dll L first None (xs @ h # ys)" and "distinct (xs @ h # ys)"
  shows "dll (set_prev (first_opt ys) (last_opt None xs) (set_next (last_opt None xs) (first_opt ys) L))
    (if xs = [] then first_opt ys else first) None (xs @ ys)"
proof -
  let ?p = "last_opt None xs" and ?n = "first_opt ys"
  let ?L = "set_prev ?n ?p (set_next ?p ?n L)"
  obtain mid nxt where mid: "dseg L first None xs mid" "mid = Some h" "L h = Some (?p, nxt)" "dll L nxt (Some h) ys"
    using assms(1) by (auto simp: dll_append)
  have ys: "dll ?L ?n ?p ys"
  proof -
    have "set_next ?p ?n L y = L y" if "y \<in> set ys" for y
    proof (rule set_next_other)
      show "?p \<noteq> Some y" using assms(2) that by (cases "xs = []") (auto simp: last_opt_def dest: last_in_set)
    qed
    then have "dll (set_next ?p ?n L) nxt (Some h) ys" using mid(4) dll_frame by metis
    from dll_relink [OF this] dll_first [OF mid(4)] assms(2) show ?thesis by simp
  qed
  show ?thesis
  proof (cases "xs = []")
    case True
    with ys show ?thesis by (simp add: last_opt_def)
  next
    case False
    have "dseg (set_next ?p ?n L) first None xs ?n"
      using dseg_relink [OF mid(1)] assms(2) False by (simp add: last_opt_def)
    moreover have "?L x = set_next ?p ?n L x" if "x \<in> set xs" for x
    proof (rule set_prev_other)
      show "?n \<noteq> Some x" using assms(2) that by (cases ys) (auto simp: first_opt_def)
    qed
    ultimately have "dseg ?L first None xs ?n" using dseg_frame by metis
    with ys False show ?thesis by (auto simp: dll_append)
  qed
qed

lemma dll_insert:
  assumes "dll L first None xs" and "h \<notin> set xs" and "distinct xs"
  shows "dll ((set_prev first (Some h) L)(h := Some (None, first))) (Some h) None (h # xs)"
proof -
  have "dll (set_prev first (Some h) L) first (Some h) xs"
    using dll_relink [OF assms(1,3)] dll_first [OF assms(1)] by simp
  then have "dll ((set_prev first (Some h) L)(h := Some (None, first))) first (Some h) xs"
    using dll_frame [of xs "(set_prev first (Some h) L)(h := Some (None, first))" "set_prev first (Some h) L"] assms(2) by fastforce
  then show ?thesis by simp
qed

section \<open>Operations on headers\<close>

lemma wp_get_hdr [wp_simps]:
  "wp E F (get_hdr h) Q = (\<lambda>st. case hdr_map st h of Header d \<Rightarrow> Q d st | Jump _ \<Rightarrow> F Null_Dereference)"
  by (rule ext) (simp add: wp_def get_hdr_def split: hdr_entry.split)

lemma wp_upd_hdr [wp_simps]:
  "wp E F (upd_hdr h f) Q = (\<lambda>st. case hdr_map st h of
     Header d \<Rightarrow> Q () (st\<lparr>hdr_map := (hdr_map st)(h := Header (f d))\<rparr>) | Jump _ \<Rightarrow> F Null_Dereference)"
  by (rule ext) (simp add: wp_def upd_hdr_def split: hdr_entry.split)

lemma wp_HDR [wp_simps]: "wp E F (HDR h) Q = (\<lambda>st. Q (hdr_map st h) st)"
  by (simp add: HDR_def wp_simps)

lemma wp_SET_HDR [wp_simps]:
  "wp E F (SET_HDR h e) Q = (\<lambda>st. if has_index st h then Q () (st\<lparr>hdr_map := (hdr_map st)(h := e)\<rparr>)
     else if e = NIL then Q () st else F Out_Of_Bounds)"
  by (rule ext) (simp add: wp_def SET_HDR_def split: hdr_entry.split)

lemma wp_set_freelist [wp_simps]:
  "wp E F (set_freelist i x) Q = (\<lambda>st. if length (GC_hblkfreelist st) \<le> i then F Out_Of_Bounds
     else Q () (st\<lparr>GC_hblkfreelist := (GC_hblkfreelist st)[i := x]\<rparr>))"
  by (rule ext) (simp add: wp_def set_freelist_def)

lemma wp_get_freelist [wp_simps]:
  "wp E F (get_freelist i) Q = (\<lambda>st. if length (GC_hblkfreelist st) \<le> i then F Out_Of_Bounds else Q (GC_hblkfreelist st ! i) st)"
  by (rule ext) (simp add: wp_def get_freelist_def)

lemma wp_upd_free_bytes [wp_simps]:
  "wp E F (upd_free_bytes i f) Q = (\<lambda>st. if length (GC_free_bytes st) \<le> i then F Out_Of_Bounds
     else Q () (st\<lparr>GC_free_bytes := (GC_free_bytes st)[i := f (GC_free_bytes st ! i)]\<rparr>))"
  by (rule ext) (simp add: wp_def upd_free_bytes_def)

lemma andthen_HDR [run_steps]: "andthen (HDR h) f st = f (hdr_map st h) st"
  by (simp add: HDR_def run_steps)

lemma andthen_get_hdr [run_steps]: "hdr_map st h = Header d \<Longrightarrow> andthen (get_hdr h) f st = f d st"
  by (simp add: andthen_def get_hdr_def)

lemma andthen_upd_hdr [run_steps]:
  "hdr_map st h = Header d \<Longrightarrow> andthen (upd_hdr h g) f st = f () (st\<lparr>hdr_map := (hdr_map st)(h := Header (g d))\<rparr>)"
  by (simp add: andthen_def upd_hdr_def)

section \<open>The lists of a state\<close>

definition links_of :: "(hblk \<Rightarrow> hdr_entry) \<Rightarrow> links" where
  "links_of m h = (case m h of Header d \<Rightarrow> Some (hb_prev d, hb_next d) | Jump _ \<Rightarrow> None)"

text \<open>The map without the links, and the size of a block.\<close>

definition bare :: "(hblk \<Rightarrow> hdr_entry) \<Rightarrow> hblk \<Rightarrow> hdr_entry" where
  "bare m h = (case m h of Header d \<Rightarrow> Header (d\<lparr>hb_next := None, hb_prev := None\<rparr>) | Jump j \<Rightarrow> Jump j)"

definition bytes_at :: "(hblk \<Rightarrow> hdr_entry) \<Rightarrow> hblk \<Rightarrow> nat" where
  "bytes_at m h = (case m h of Header d \<Rightarrow> hb_sz d | Jump _ \<Rightarrow> 0)"

lemma bytes_at_bare: "bytes_at (bare m) = bytes_at m"
  by (rule ext) (simp add: bytes_at_def bare_def split: hdr_entry.split)

lemma links_next: "m h = Header d \<Longrightarrow> links_of (m(h := Header (d\<lparr>hb_next := n\<rparr>))) = set_next (Some h) n (links_of m)"
  by (rule ext) (simp add: links_of_def set_next_def)

lemma links_prev: "m h = Header d \<Longrightarrow> links_of (m(h := Header (d\<lparr>hb_prev := p\<rparr>))) = set_prev (Some h) p (links_of m)"
  by (rule ext) (simp add: links_of_def set_prev_def)

lemma bare_links:
  "m h = Header d \<Longrightarrow> bare (m(h := Header (d\<lparr>hb_next := n\<rparr>))) = bare m"
  "m h = Header d \<Longrightarrow> bare (m(h := Header (d\<lparr>hb_prev := n\<rparr>))) = bare m"
  by (rule ext, simp add: bare_def)+

definition lists_ok :: "gc_state \<Rightarrow> hblk list list \<Rightarrow> bool" where
  "lists_ok st Ls \<longleftrightarrow>
     length Ls = 61 \<and> length (GC_hblkfreelist st) = 61 \<and> length (GC_free_bytes st) = 61 \<and> distinct (concat Ls) \<and>
     (\<forall>i < 61. dll (links_of (hdr_map st)) (GC_hblkfreelist st ! i) None (Ls ! i) \<and>
        GC_free_bytes st ! i = sum_list (map (bytes_at (hdr_map st)) (Ls ! i)))"

text \<open>Two states that differ only in the free lists.\<close>

definition only_lists :: "gc_state \<Rightarrow> gc_state \<Rightarrow> bool" where
  "only_lists st st' \<longleftrightarrow>
     (\<exists>m fl fb. st' = st\<lparr>hdr_map := m, GC_hblkfreelist := fl, GC_free_bytes := fb\<rparr> \<and> bare m = bare (hdr_map st))"

lemma only_lists_refl: "only_lists st st"
  unfolding only_lists_def by (rule exI [of _ "hdr_map st"], rule exI [of _ "GC_hblkfreelist st"], rule exI [of _ "GC_free_bytes st"]) simp

lemma in_one_list:
  assumes "distinct (concat Ls)" and "i < length Ls" and "j < length Ls" and "h \<in> set (Ls ! i)" and "h \<in> set (Ls ! j)"
  shows "i = j"
  using assms
proof (induction Ls arbitrary: i j)
  case (Cons l Ls)
  have "h \<notin> set (Ls ! k)" if "h \<in> set l" "k < length Ls" for k
  proof -
    have "Ls ! k \<in> set Ls" by (rule nth_mem [OF that(2)])
    with Cons.prems(1) that(1) show ?thesis by auto
  qed
  with Cons show ?case by (cases i; cases j) auto
qed simp

lemma distinct_list: "distinct (concat Ls) \<Longrightarrow> i < length Ls \<Longrightarrow> distinct (Ls ! i)"
  by (induction Ls arbitrary: i) (auto simp: less_Suc_eq_0_disj)

lemma mset_concat_update:
  "i < length Ls \<Longrightarrow> mset (concat (Ls[i := l])) + mset (Ls ! i) = mset (concat Ls) + mset l"
proof (induction Ls arbitrary: i)
  case (Cons x Ls)
  then show ?case by (cases i) (auto simp: ac_simps)
qed simp

lemma links_header:
  assumes "lists_ok st Ls" and "i < 61" and "Ls ! i = xs @ h # ys"
  obtains d where "hdr_map st h = Header d" and "hb_prev d = last_opt None xs" and "hb_next d = first_opt ys"
proof -
  have "links_of (hdr_map st) h = Some (last_opt None xs, first_opt ys)"
    using assms by (intro dll_middle [of _ "GC_hblkfreelist st ! i"]) (auto simp: lists_ok_def)
  with that show ?thesis by (auto simp: links_of_def split: hdr_entry.splits)
qed

lemma list_member_header: "lists_ok st Ls \<Longrightarrow> i < 61 \<Longrightarrow> h \<in> set (Ls ! i) \<Longrightarrow> \<exists>d. hdr_map st h = Header d"
  by (metis in_set_conv_decomp links_header)

lemma last_opt_member: "last_opt None xs = Some p \<Longrightarrow> p \<in> set xs"
  by (auto simp: last_opt_def split: if_splits)

lemma first_opt_member: "first_opt ys = Some n \<Longrightarrow> n \<in> set ys"
  by (auto simp: first_opt_def split: list.splits)

section \<open>Removal and insertion\<close>

abbreviation completes :: "'a gc_op \<Rightarrow> ('a \<Rightarrow> gc_state \<Rightarrow> bool) \<Rightarrow> gc_state \<Rightarrow> bool" where
  "completes \<equiv> wp False (\<lambda>_. False)"

lemma completesD: "completes m Q s \<Longrightarrow> \<exists>s' x. m s = Done s' x \<and> Q x s'"
  by (auto simp: wp_def split: outcome.splits)

lemma member_index_less: "h \<in> set (Ls ! i) \<Longrightarrow> i < length Ls \<Longrightarrow> bytes_at m h \<le> sum_list (map (bytes_at m) (Ls ! i))"
  by (simp add: member_le_sum_list)

lemma lists_ok_update:
  assumes "lists_ok st Ls" and "i < 61" and "distinct (concat (Ls[i := l]))"
    and "bare m = bare (hdr_map st)"
    and "dll (links_of m) first None l" and "\<And>h. h \<notin> set (Ls ! i) \<Longrightarrow> h \<notin> set l \<Longrightarrow> links_of m h = links_of (hdr_map st) h"
    and "b = sum_list (map (bytes_at m) l)"
  shows "lists_ok (st\<lparr>hdr_map := m, GC_hblkfreelist := (GC_hblkfreelist st)[i := first], GC_free_bytes := (GC_free_bytes st)[i := b]\<rparr>) (Ls[i := l])"
proof -
  have bytes: "bytes_at m = bytes_at (hdr_map st)" by (metis assms(4) bytes_at_bare)
  have len: "length Ls = 61" using assms(1) by (simp add: lists_ok_def)
  have "dll (links_of m) (GC_hblkfreelist st ! j) None (Ls ! j)" if j: "j < 61" "j \<noteq> i" for j
  proof -
    have "links_of m h = links_of (hdr_map st) h" if "h \<in> set (Ls ! j)" for h
    proof (rule assms(6))
      show "h \<notin> set (Ls ! i)" using in_one_list [of Ls i j h] assms(1,2) j that by (auto simp: lists_ok_def)
      show "h \<notin> set l" using in_one_list [OF assms(3), of i j h] assms(2) j that len by auto
    qed
    moreover have "dll (links_of (hdr_map st)) (GC_hblkfreelist st ! j) None (Ls ! j)" using assms(1) j by (simp add: lists_ok_def)
    ultimately show ?thesis using dll_frame by metis
  qed
  with assms bytes show ?thesis by (auto simp: lists_ok_def nth_list_update)
qed

lemma remove_from_fl_at_ok:
  assumes "lists_ok st Ls" and "i < 61" and "Ls ! i = xs @ h # ys"
  shows "completes (GC_remove_from_fl_at h i) (\<lambda>_ st'. lists_ok st' (Ls[i := xs @ ys]) \<and> only_lists st st') st"
proof -
  let ?m = "hdr_map st" and ?p = "last_opt None xs" and ?n = "first_opt ys"
  obtain d where d: "?m h = Header d" "hb_prev d = ?p" "hb_next d = ?n" by (rule links_header [OF assms])
  have dist: "distinct (xs @ h # ys)" using assms distinct_list [of Ls i] by (simp add: lists_ok_def)
  have old: "dll (links_of ?m) (GC_hblkfreelist st ! i) None (xs @ h # ys)" using assms by (auto simp: lists_ok_def)
  have member: "\<exists>e. ?m q = Header e" if "q \<in> set xs \<or> q \<in> set ys" for q
    using list_member_header [OF assms(1,2), of q] assms(3) that by auto
  define m1 where "m1 = (case ?p of None \<Rightarrow> ?m | Some q \<Rightarrow> (case ?m q of Header e \<Rightarrow> ?m(q := Header (e\<lparr>hb_next := ?n\<rparr>)) | Jump _ \<Rightarrow> ?m))"
  define m2 where "m2 = (case ?n of None \<Rightarrow> m1 | Some q \<Rightarrow> (case m1 q of Header e \<Rightarrow> m1(q := Header (e\<lparr>hb_prev := ?p\<rparr>)) | Jump _ \<Rightarrow> m1))"
  have m1: "links_of m1 = set_next ?p ?n (links_of ?m)" "bare m1 = bare ?m"
    unfolding m1_def using member [OF disjI1 [OF last_opt_member]]
    by (auto simp: links_next bare_links set_next_def split: option.split hdr_entry.split)
  have head1: "\<exists>e. m1 q = Header e" if "?n = Some q" for q
  proof -
    have "bare m1 q = bare ?m q" using m1(2) by simp
    with member [OF disjI2 [OF first_opt_member [OF that]]] show ?thesis by (auto simp: bare_def split: hdr_entry.splits)
  qed
  have m2: "links_of m2 = set_prev ?n ?p (set_next ?p ?n (links_of ?m))" "bare m2 = bare ?m"
    unfolding m2_def using head1 m1
    by (auto simp: links_prev bare_links set_prev_def split: option.split hdr_entry.split)
  let ?first = "if xs = [] then ?n else GC_hblkfreelist st ! i"
  let ?st = "st\<lparr>hdr_map := m2, GC_hblkfreelist := (GC_hblkfreelist st)[i := ?first],
    GC_free_bytes := (GC_free_bytes st)[i := GC_free_bytes st ! i - hb_sz d]\<rparr>"
  have mset: "mset (concat (Ls[i := xs @ ys])) + {#h#} = mset (concat Ls)"
    using mset_concat_update [of i Ls "xs @ ys"] assms by (simp add: lists_ok_def)
  have bytes: "bytes_at m2 = bytes_at ?m" by (metis m2(2) bytes_at_bare)
  have total: "GC_free_bytes st ! i = sum_list (map (bytes_at ?m) (xs @ h # ys))" using assms by (simp add: lists_ok_def)
  have "lists_ok ?st (Ls[i := xs @ ys])"
  proof (rule lists_ok_update [OF assms(1,2) _ m2(2)])
    show "distinct (concat (Ls[i := xs @ ys]))"
      using mset assms(1) by (metis distinct.simps(2) lists_ok_def mset_eq_imp_distinct_iff mset.simps(2) union_mset_add_mset_right add.right_neutral)
    show "dll (links_of m2) ?first None (xs @ ys)" unfolding m2(1) by (rule dll_remove [OF old dist])
    show "links_of m2 q = links_of ?m q" if "q \<notin> set (Ls ! i)" for q
    proof -
      have "?p \<noteq> Some q" "?n \<noteq> Some q" using that assms(3) last_opt_member first_opt_member by auto
      then show ?thesis unfolding m2(1) by (simp add: set_prev_other set_next_other)
    qed
    show "GC_free_bytes st ! i - hb_sz d = sum_list (map (bytes_at m2) (xs @ ys))"
      using total d(1) by (simp add: bytes bytes_at_def)
  qed
  moreover have "only_lists st ?st" unfolding only_lists_def using m2(2) by blast
  moreover have "GC_remove_from_fl_at h i st = Done ?st ()"
  proof -
    have sub: "word_sub (GC_free_bytes st ! i) (hb_sz d) = GC_free_bytes st ! i - hb_sz d"
      using total d(1) by (simp add: bytes_at_def word_sub_def)
    have len: "\<not> length (GC_hblkfreelist st) \<le> i" "\<not> length (GC_free_bytes st) \<le> i" using assms by (simp_all add: lists_ok_def)
    have xs: "xs = [] \<longleftrightarrow> ?p = None" by (simp add: last_opt_def)
    have p: "case ?p of None \<Rightarrow> True | Some q \<Rightarrow> \<exists>e. ?m q = Header e"
      using member [OF disjI1 [OF last_opt_member]] by (simp split: option.split)
    have n: "case ?n of None \<Rightarrow> True | Some q \<Rightarrow> \<exists>e. m1 q = Header e"
      using head1 by (simp split: option.split)
    let ?st1 = "st\<lparr>hdr_map := m1, GC_hblkfreelist := (GC_hblkfreelist st)[i := ?first]\<rparr>"
    have unlink: "(case ?p of None \<Rightarrow> set_freelist i ?n | Some prev \<Rightarrow> upd_hdr prev (\<lambda>phdr. phdr\<lparr>hb_next := ?n\<rparr>)) st = Done ?st1 ()"
      using p len xs by (auto simp: set_freelist_def upd_hdr_def m1_def split: option.splits)
    have get: "get_hdr h st = Done st d" by (simp add: get_hdr_def d(1))
    have "GC_remove_from_fl_at h i st = andthen (upd_free_bytes i (\<lambda>b. word_sub b (hb_sz d)))
        (\<lambda>_. case ?n of None \<Rightarrow> ret () | Some nxt \<Rightarrow> upd_hdr nxt (\<lambda>nhdr. nhdr\<lparr>hb_prev := ?p\<rparr>)) ?st1"
      unfolding GC_remove_from_fl_at_def andthen_run [of "get_hdr h", OF get] d(2,3)
      by (subst andthen_run, rule unlink, rule refl)
    with n len sub show ?thesis
      by (cases ?n) (auto simp: andthen_def upd_free_bytes_def upd_hdr_def ret_def m2_def)
  qed
  ultimately show ?thesis by (simp add: wp_def)
qed

lemma fl_index_less: "GC_hblk_fl_from_blocks n < 61"
  by (simp add: GC_hblk_fl_from_blocks_def UNIQUE_THRESHOLD_def HUGE_THRESHOLD_def FL_COMPRESSION_def N_HBLK_FLS_def) linarith

definition mark_free :: "hblk \<Rightarrow> gc_state \<Rightarrow> gc_state" where
  "mark_free h st =
     (case hdr_map st h of
        Header d \<Rightarrow> st\<lparr>hdr_map := (hdr_map st)(h := Header (d\<lparr>hb_flags := or (hb_flags d) FREE_BLK\<rparr>))\<rparr>
      | Jump _ \<Rightarrow> st)"

text \<open>The headers of blocks that are on no list may change.\<close>

lemma member_concat: "lists_ok st Ls \<Longrightarrow> i < 61 \<Longrightarrow> h \<in> set (Ls ! i) \<Longrightarrow> h \<in> set (concat Ls)"
  unfolding lists_ok_def set_concat using nth_mem by fastforce

lemma lists_ok_others:
  assumes "lists_ok st Ls" and "\<And>g. g \<in> set (concat Ls) \<Longrightarrow> hdr_map st' g = hdr_map st g"
    and "GC_hblkfreelist st' = GC_hblkfreelist st" and "GC_free_bytes st' = GC_free_bytes st"
  shows "lists_ok st' Ls"
proof -
  let ?m = "hdr_map st'"
  have links: "links_of ?m g = links_of (hdr_map st) g" "bytes_at ?m g = bytes_at (hdr_map st) g" if "i < 61" "g \<in> set (Ls ! i)" for g i
    using assms(2) [OF member_concat [OF assms(1) that]] by (simp_all add: links_of_def bytes_at_def)
  have "dll (links_of ?m) (GC_hblkfreelist st ! i) None (Ls ! i) \<and>
      GC_free_bytes st ! i = sum_list (map (bytes_at ?m) (Ls ! i))" if "i < 61" for i
  proof -
    have "dll (links_of ?m) (GC_hblkfreelist st ! i) None (Ls ! i) = dll (links_of (hdr_map st)) (GC_hblkfreelist st ! i) None (Ls ! i)"
      by (rule dll_frame) (rule links(1) [OF that])
    moreover have "sum_list (map (bytes_at ?m) (Ls ! i)) = sum_list (map (bytes_at (hdr_map st)) (Ls ! i))"
      by (intro arg_cong [of _ _ sum_list] map_cong refl links(2) [OF that])
    ultimately show ?thesis using assms(1) that by (simp add: lists_ok_def)
  qed
  with assms(1,3,4) show ?thesis by (simp add: lists_ok_def)
qed

lemma lists_ok_other:
  assumes "lists_ok st Ls" and "h \<notin> set (concat Ls)" and "m = (hdr_map st)(h := e)"
  shows "lists_ok (st\<lparr>hdr_map := m\<rparr>) Ls"
proof (rule lists_ok_others [OF assms(1)])
  show "hdr_map (st\<lparr>hdr_map := m\<rparr>) g = hdr_map st g" if "g \<in> set (concat Ls)" for g
    using assms(2,3) that by (auto simp del: set_concat)
qed simp_all

lemma add_to_fl_ok:
  assumes "lists_ok st Ls" and "hdr_map st h = Header d" and "h \<notin> set (concat Ls)"
    and "i = GC_hblk_fl_from_blocks (divHBLKSZ (hb_sz d))"
    and "sum_list (map (bytes_at (hdr_map st)) (Ls ! i)) + hb_sz d < 2 ^ 64"
  shows "completes (GC_add_to_fl h) (\<lambda>_ st'. lists_ok st' (Ls[i := h # Ls ! i]) \<and> only_lists (mark_free h st) st') st"
proof -
  let ?m = "hdr_map st" and ?second = "GC_hblkfreelist st ! i"
  have i: "i < 61" using fl_index_less assms(4) by simp
  have len: "i < length Ls" "length Ls = 61" "length (GC_hblkfreelist st) = 61" "length (GC_free_bytes st) = 61"
    using assms(1) i by (simp_all add: lists_ok_def)
  have old: "dll (links_of ?m) ?second None (Ls ! i)" "distinct (Ls ! i)"
    using assms(1) i distinct_list [of Ls i] by (simp_all add: lists_ok_def)
  have "Ls ! i \<in> set Ls" using len by simp
  with assms(3) have new: "h \<notin> set (Ls ! i)" by auto
  have second: "?second = first_opt (Ls ! i)" by (rule dll_first [OF old(1)])
  have sec_hdr: "\<exists>e. ?m q = Header e \<and> q \<noteq> h" if "?second = Some q" for q
  proof -
    have "q \<in> set (Ls ! i)" using that second first_opt_member by metis
    with list_member_header [OF assms(1) i] new show ?thesis by blast
  qed
  let ?d = "d\<lparr>hb_next := ?second, hb_prev := None\<rparr>"
  define m1 where "m1 = (case ?second of None \<Rightarrow> ?m | Some q \<Rightarrow> (case ?m q of Header e \<Rightarrow> ?m(q := Header (e\<lparr>hb_prev := Some h\<rparr>)) | Jump _ \<Rightarrow> ?m))"
  define m2 where "m2 = m1(h := Header (?d\<lparr>hb_flags := or (hb_flags d) FREE_BLK\<rparr>))"
  have m1: "links_of m1 = set_prev ?second (Some h) (links_of ?m)" "bare m1 = bare ?m"
    unfolding m1_def using sec_hdr by (auto simp: links_prev bare_links set_prev_def split: option.split hdr_entry.split)
  have m1h: "m1 h = Header d" unfolding m1_def using sec_hdr assms(2) by (auto split: option.split hdr_entry.split)
  have m2: "links_of m2 = (set_prev ?second (Some h) (links_of ?m))(h := Some (None, ?second))"
    unfolding m2_def m1(1) [symmetric] by (rule ext) (simp add: links_of_def)
  have free: "mark_free h st = st\<lparr>hdr_map := ?m(h := Header (d\<lparr>hb_flags := or (hb_flags d) FREE_BLK\<rparr>))\<rparr>"
    using assms(2) by (simp add: mark_free_def)
  have bare: "bare m2 = bare (hdr_map (mark_free h st))"
    unfolding m2_def free using m1(2) by (auto simp: bare_def fun_eq_iff)
  let ?st = "(mark_free h st)\<lparr>hdr_map := m2, GC_hblkfreelist := (GC_hblkfreelist (mark_free h st))[i := Some h],
    GC_free_bytes := (GC_free_bytes (mark_free h st))[i := GC_free_bytes st ! i + hb_sz d]\<rparr>"
  have mset: "mset (concat (Ls[i := h # Ls ! i])) = add_mset h (mset (concat Ls))"
    using mset_concat_update [OF len(1), of "h # Ls ! i"] by simp
  have marked: "lists_ok (mark_free h st) Ls" unfolding free by (rule lists_ok_other [OF assms(1,3) refl])
  have bytes: "bytes_at m2 = bytes_at ?m"
    using assms(2) m1(2) bytes_at_bare [of m1] bytes_at_bare [of ?m]
    unfolding m2_def by (auto simp: bytes_at_def fun_eq_iff split: if_splits)
  have "lists_ok ?st (Ls[i := h # Ls ! i])"
  proof (rule lists_ok_update [OF marked i _ bare])
    show "distinct (concat (Ls[i := h # Ls ! i]))"
      using mset assms(1,3) by (metis distinct.simps(2) lists_ok_def mset.simps(2) mset_eq_imp_distinct_iff)
    show "dll (links_of m2) (Some h) None (h # Ls ! i)" unfolding m2 by (rule dll_insert [OF old(1) new old(2)])
    show "links_of m2 q = links_of (hdr_map (mark_free h st)) q" if "q \<notin> set (Ls ! i)" "q \<notin> set (h # Ls ! i)" for q
    proof -
      have "?second \<noteq> Some q" using that(1) second first_opt_member by metis
      with that(2) show ?thesis unfolding m2 free by (simp add: set_prev_other links_of_def)
    qed
    show "GC_free_bytes st ! i + hb_sz d = sum_list (map (bytes_at m2) (h # Ls ! i))"
      unfolding bytes using assms(1,2) i by (simp add: lists_ok_def bytes_at_def)
  qed
  moreover have "only_lists (mark_free h st) ?st" unfolding only_lists_def using bare by blast
  moreover have "GC_add_to_fl h st = Done ?st ()"
  proof -
    have "word_add (GC_free_bytes st ! i) (hb_sz d) = GC_free_bytes st ! i + hb_sz d"
      using assms(1,5) i by (simp add: word_add_def lists_ok_def)
    with sec_hdr assms(2,4) len i show ?thesis
      by (cases ?second) (auto simp: GC_add_to_fl_def andthen_def get_hdr_def Let_def get_freelist_def set_freelist_def
        upd_free_bytes_def upd_hdr_def ret_def free m2_def m1_def fun_upd_twist)
  qed
  ultimately show ?thesis by (simp add: wp_def)
qed

end
