(* ===== verification/Gc_Regions.thy ===== *)
theory Gc_Regions
  imports Gc_Free_Lists
begin

text \<open>
  Changes of the block map that keep the layout. Freeing, using, merging and splitting blocks each replace
  a row of consecutive blocks by another row that covers the same range; one lemma shows that the
  layout survives and which blocks are free afterwards.
\<close>

section \<open>Blocks in use and free cells\<close>

text \<open>The blocks in use with their headers (the links of a header matter for free blocks only).\<close>

definition used_at :: "(hblk \<Rightarrow> hdr_entry) \<Rightarrow> hblk \<Rightarrow> hdr option" where
  "used_at m h = (case bare m h of Header d \<Rightarrow> if HBLK_IS_FREE d then None else Some d | Jump _ \<Rightarrow> None)"

definition free_at :: "(hblk \<Rightarrow> hdr_entry) \<Rightarrow> hblk \<Rightarrow> bool" where
  "free_at m h \<longleftrightarrow> (\<exists>d. m h = Header d \<and> HBLK_IS_FREE d)"

definition free_cells :: "(hblk \<Rightarrow> hdr_entry) \<Rightarrow> hblk set" where
  "free_cells m = {p. \<exists>h d. m h = Header d \<and> HBLK_IS_FREE d \<and> p \<in> region h d}"

lemma region_start: "entry_ok m h d \<Longrightarrow> h \<in> region h d"
  using nblocks_pos by (simp add: region_def)

lemma region_used_not_free:
  assumes "layout m" and "m h = Header d" and "\<not> HBLK_IS_FREE d"
  shows "region h d \<inter> free_cells m = {}"
proof -
  have "region h d \<inter> region g e = {}" if "m g = Header e" "HBLK_IS_FREE e" for g e
    using regions_disjoint [OF assms(1,2) that(1)] that assms by (cases "g = h") auto
  then show ?thesis by (auto simp: free_cells_def)
qed

section \<open>Maps that differ in the links only\<close>

lemma bare_Header:
  assumes "bare m = bare m'" and "m h = Header d"
  obtains d' where "m' h = Header d'" and "hb_sz d' = hb_sz d" and "hb_flags d' = hb_flags d"
    and "d'\<lparr>hb_next := None, hb_prev := None\<rparr> = d\<lparr>hb_next := None, hb_prev := None\<rparr>"
proof -
  have "bare m' h = bare m h" using assms(1) by simp
  with assms(2) obtain d' where d': "m' h = Header d'" and eq: "d'\<lparr>hb_next := None, hb_prev := None\<rparr> = d\<lparr>hb_next := None, hb_prev := None\<rparr>"
    by (auto simp: bare_def split: hdr_entry.splits)
  from arg_cong [OF eq, of hb_sz] arg_cong [OF eq, of hb_flags] that [OF d' _ _ eq] show ?thesis by simp
qed

lemma bare_Jump: "bare m = bare m' \<Longrightarrow> m h = Jump j \<Longrightarrow> m' h = Jump j"
  by (drule fun_cong [of _ _ h]) (auto simp: bare_def split: hdr_entry.splits)

lemma free_same_flags: "hb_flags d = hb_flags e \<Longrightarrow> HBLK_IS_FREE d = HBLK_IS_FREE e"
  by (simp add: HBLK_IS_FREE_def)

lemma mapped_same_flags: "hb_flags d = hb_flags e \<Longrightarrow> IS_MAPPED d = IS_MAPPED e"
  by (simp add: IS_MAPPED_def)

text \<open>The layout depends on the sizes and on which blocks are free.\<close>

definition shape :: "(hblk \<Rightarrow> hdr_entry) \<Rightarrow> hblk \<Rightarrow> nat + (nat \<times> bool)" where
  "shape m h = (case m h of Jump j \<Rightarrow> Inl j | Header d \<Rightarrow> Inr (hb_sz d, HBLK_IS_FREE d))"

lemma shape_Header:
  assumes "shape m h = shape m' h" and "m h = Header d"
  obtains d' where "m' h = Header d'" and "hb_sz d' = hb_sz d" and "HBLK_IS_FREE d' = HBLK_IS_FREE d"
  using assms that by (auto simp: shape_def split: hdr_entry.splits)

lemma shape_Jump: "shape m h = shape m' h \<Longrightarrow> m h = Jump j \<Longrightarrow> m' h = Jump j"
  by (auto simp: shape_def split: hdr_entry.splits)

lemma shape_bare: "bare m h = bare m' h \<Longrightarrow> shape m h = shape m' h"
  by (auto simp: shape_def bare_def HBLK_IS_FREE_def split: hdr_entry.splits dest: arg_cong [of _ _ hb_sz] arg_cong [of _ _ hb_flags])

lemma layout_shape:
  assumes "shape m = shape m'" and "layout m"
  shows "layout m'"
  unfolding layout_def
proof (intro conjI allI impI)
  fix h d assume "m' h = Header d"
  then obtain e where e: "m h = Header e" "hb_sz e = hb_sz d" "HBLK_IS_FREE e = HBLK_IS_FREE d"
    using shape_Header [of m' h m d] fun_cong [OF assms(1), of h] by metis
  have ok: "entry_ok m h e" by (rule layout_entry [OF assms(2) e(1)])
  have "m' (h + k) = m (h + k)" if "0 < k" "k < nblocks e" for k
    using ok shape_Jump [OF fun_cong [OF assms(1)], of "h + k"] that by (auto simp: entry_ok_def split: if_splits)
  with ok e show "entry_ok m' h d" by (simp add: entry_ok_def)
next
  fix p j assume "m' p = Jump j" "j \<noteq> 0"
  from shape_Jump [OF fun_cong [OF assms(1) [symmetric]] this(1)] this(2) obtain h d
    where h: "m h = Header d" "\<not> HBLK_IS_FREE d" "h < p" "p < h + nblocks d" by (metis inside_jump [OF assms(2)])
  from shape_Header [OF fun_cong [OF assms(1)] h(1)] obtain e where "m' h = Header e" "hb_sz e = hb_sz d" "HBLK_IS_FREE e = HBLK_IS_FREE d" by metis
  with h show "inside_used m' p" unfolding inside_used_def by (intro exI [of _ h] exI [of _ e]) simp
qed

lemma view_shape:
  assumes "shape m = shape m'"
  shows "free_at m = free_at m'" and "free_cells m = free_cells m'"
proof -
  have "free_at n' h" if "shape n = shape n'" "free_at n h" for n n' h
  proof -
    from that(2) obtain d where d: "n h = Header d" "HBLK_IS_FREE d" by (auto simp: free_at_def)
    from shape_Header [OF fun_cong [OF that(1)] d(1)] d(2) show ?thesis unfolding free_at_def by metis
  qed
  from this [OF assms] this [OF assms [symmetric]] show "free_at m = free_at m'" by (intro ext iffI)
  have "free_cells n \<subseteq> free_cells n'" if "shape n = shape n'" for n n'
  proof
    fix p assume "p \<in> free_cells n"
    then obtain h d where h: "n h = Header d" "HBLK_IS_FREE d" "p \<in> region h d" by (auto simp: free_cells_def)
    from shape_Header [OF fun_cong [OF that] h(1)] obtain e where "n' h = Header e" "hb_sz e = hb_sz d" "HBLK_IS_FREE e = HBLK_IS_FREE d" by metis
    with h show "p \<in> free_cells n'"
      unfolding free_cells_def by (intro CollectI exI [of _ h] exI [of _ e]) (simp add: region_def)
  qed
  from this [OF assms] this [OF assms [symmetric]] show "free_cells m = free_cells m'" by (rule subset_antisym)
qed

lemma shape_bare_all: "bare m = bare m' \<Longrightarrow> shape m = shape m'"
  by (rule ext) (metis shape_bare)

lemma layout_bare: "bare m = bare m' \<Longrightarrow> layout m \<Longrightarrow> layout m'"
  by (rule layout_shape [OF shape_bare_all])

lemma view_bare:
  assumes "bare m = bare m'"
  shows "used_at m = used_at m'" and "free_at m = free_at m'" and "free_cells m = free_cells m'"
  using assms view_shape [OF shape_bare_all [OF assms]] by (simp_all add: used_at_def fun_eq_iff)

section \<open>Rows of blocks\<close>

definition closed_range :: "(hblk \<Rightarrow> hdr_entry) \<Rightarrow> hblk set \<Rightarrow> bool" where
  "closed_range m R \<longleftrightarrow> (\<forall>g e. m g = Header e \<longrightarrow> region g e \<subseteq> R \<or> region g e \<inter> R = {})"

lemma closed_region: "layout m \<Longrightarrow> m h = Header d \<Longrightarrow> closed_range m (region h d)"
  unfolding closed_range_def using regions_disjoint by (metis hdr_entry.inject(2) order_refl)

lemma closed_Un: "closed_range m R \<Longrightarrow> closed_range m S \<Longrightarrow> closed_range m (R \<union> S)"
  unfolding closed_range_def by blast

lemma outside_range:
  assumes "layout m" and "closed_range m R" and "m g = Header e" and "g \<notin> R"
  shows "region g e \<inter> R = {}"
  using assms region_start [OF layout_entry [OF assms(1,3)]] unfolding closed_range_def by blast

definition tile_ok :: "hdr \<Rightarrow> bool" where
  "tile_ok d \<longleftrightarrow> 0 < hb_sz d \<and> hb_sz d < 2 ^ 63 \<and> (HBLK_IS_FREE d \<longrightarrow> HBLKSIZE dvd hb_sz d)"

fun laid :: "(hblk \<Rightarrow> hdr_entry) \<Rightarrow> hblk \<Rightarrow> hdr list \<Rightarrow> bool" where
  "laid m h [] \<longleftrightarrow> True"
| "laid m h (d # ds) \<longleftrightarrow>
     m h = Header d \<and> (\<forall>k. 0 < k \<longrightarrow> k < nblocks d \<longrightarrow> m (h + k) = (if HBLK_IS_FREE d then NIL else Jump (min k MAX_JUMP))) \<and>
     laid m (h + nblocks d) ds"

abbreviation row_blocks :: "hdr list \<Rightarrow> nat" where
  "row_blocks ds \<equiv> sum_list (map nblocks ds)"

fun free_tiles :: "hblk \<Rightarrow> hdr list \<Rightarrow> hblk set" where
  "free_tiles h [] = {}"
| "free_tiles h (d # ds) = (if HBLK_IS_FREE d then region h d else {}) \<union> free_tiles (h + nblocks d) ds"

lemma row_entry:
  assumes "laid m h ds" and "\<forall>d \<in> set ds. tile_ok d" and "0 < h" and "h + row_blocks ds \<le> 2 ^ 52"
    and "h \<le> p" and "p < h + row_blocks ds" and "m p = Header e"
  shows "entry_ok m p e \<and> region p e \<subseteq> {h..<h + row_blocks ds} \<and> e \<in> set ds"
  using assms
proof (induction ds arbitrary: h)
  case (Cons d ds)
  show ?case
  proof (cases "p < h + nblocks d")
    case True
    have "p = h"
    proof (rule ccontr)
      assume "p \<noteq> h"
      with Cons.prems(5) obtain k where "p = h + k" "0 < k" by (metis le_neq_implies_less less_imp_add_positive)
      with True Cons.prems(1,7) show False by (auto split: if_splits)
    qed
    with Cons.prems True show ?thesis by (auto simp: entry_ok_def tile_ok_def region_def)
  next
    case False
    with Cons.prems have "entry_ok m p e \<and> region p e \<subseteq> {h + nblocks d..<h + nblocks d + row_blocks ds} \<and> e \<in> set ds"
      by (intro Cons.IH) auto
    then show ?thesis by (auto simp: add.assoc)
  qed
qed simp

lemma row_jump:
  assumes "laid m h ds" and "h \<le> p" and "p < h + row_blocks ds" and "m p = Jump j" and "j \<noteq> 0"
  shows "inside_used m p"
  using assms
proof (induction ds arbitrary: h)
  case (Cons d ds)
  show ?case
  proof (cases "p < h + nblocks d")
    case True
    have "p \<noteq> h" using Cons.prems by auto
    with Cons.prems(2) obtain k where k: "p = h + k" "0 < k" by (metis le_neq_implies_less less_imp_add_positive)
    with True Cons.prems(1,4,5) have "m h = Header d" "\<not> HBLK_IS_FREE d" by (auto split: if_splits)
    with k True show ?thesis unfolding inside_used_def by (intro exI [of _ h] exI [of _ d]) simp
  next
    case False
    with Cons.prems show ?thesis by (intro Cons.IH [of "h + nblocks d"]) auto
  qed
qed simp

lemma row_free:
  assumes "laid m h ds" and "\<forall>d \<in> set ds. tile_ok d"
  shows "p \<in> free_tiles h ds \<longleftrightarrow> (\<exists>g e. h \<le> g \<and> g < h + row_blocks ds \<and> m g = Header e \<and> HBLK_IS_FREE e \<and> p \<in> region g e)"
  using assms
proof (induction ds arbitrary: h)
  case (Cons d ds)
  have pos: "0 < nblocks d" using Cons.prems(2) by (simp add: tile_ok_def blocks_of_bytes_pos)
  have first: "g = h" if "h \<le> g" "g < h + nblocks d" "m g = Header e" for g e
  proof (rule ccontr)
    assume "g \<noteq> h"
    with that(1) obtain k where "g = h + k" "0 < k" by (metis le_neq_implies_less less_imp_add_positive)
    with that Cons.prems(1) show False by (auto split: if_splits)
  qed
  have IH: "p \<in> free_tiles (h + nblocks d) ds \<longleftrightarrow>
      (\<exists>g e. h + nblocks d \<le> g \<and> g < h + nblocks d + row_blocks ds \<and> m g = Header e \<and> HBLK_IS_FREE e \<and> p \<in> region g e)"
    using Cons.prems by (intro Cons.IH) auto
  have head: "m h = Header d" using Cons.prems(1) by simp
  show ?case
  proof
    assume "p \<in> free_tiles h (d # ds)"
    then consider "HBLK_IS_FREE d" "p \<in> region h d" | "p \<in> free_tiles (h + nblocks d) ds" by (auto split: if_splits)
    then show "\<exists>g e. h \<le> g \<and> g < h + row_blocks (d # ds) \<and> m g = Header e \<and> HBLK_IS_FREE e \<and> p \<in> region g e"
    proof cases
      case 1
      with head pos show ?thesis by (intro exI [of _ h] exI [of _ d]) simp
    next
      case 2
      with IH obtain g e where "h + nblocks d \<le> g" "g < h + nblocks d + row_blocks ds" "m g = Header e" "HBLK_IS_FREE e" "p \<in> region g e" by blast
      then show ?thesis by (intro exI [of _ g] exI [of _ e]) simp
    qed
  next
    assume "\<exists>g e. h \<le> g \<and> g < h + row_blocks (d # ds) \<and> m g = Header e \<and> HBLK_IS_FREE e \<and> p \<in> region g e"
    then obtain g e where g: "h \<le> g" "g < h + row_blocks (d # ds)" "m g = Header e" "HBLK_IS_FREE e" "p \<in> region g e" by blast
    show "p \<in> free_tiles h (d # ds)"
    proof (cases "g < h + nblocks d")
      case True
      from first [OF g(1) True g(3)] have "g = h" .
      with g head show ?thesis by simp
    next
      case False
      with g have "p \<in> free_tiles (h + nblocks d) ds" unfolding IH by (intro exI [of _ g] exI [of _ e]) simp
      then show ?thesis by simp
    qed
  qed
qed simp

text \<open>Replacing a range of blocks by a row.\<close>

lemma row_change:
  assumes "layout m" and "closed_range m {h..<h + n}" and "\<And>p. p < h \<or> h + n \<le> p \<Longrightarrow> m' p = m p"
    and "laid m' h ds" and "n = row_blocks ds" and "\<forall>d \<in> set ds. tile_ok d" and "0 < h" and "h + n \<le> 2 ^ 52"
  shows "layout m'" and "free_cells m' = free_cells m - {h..<h + n} \<union> free_tiles h ds"
proof -
  let ?R = "{h..<h + n}"
  have out: "m' p = m p" if "p \<notin> ?R" for p using assms(3) that by auto
  have row: "entry_ok m' p e" "region p e \<subseteq> ?R" if "p \<in> ?R" "m' p = Header e" for p e
    using row_entry [OF assms(4,6,7), of p e] assms(5,8) that by auto
  have same: "m' (g + k) = m (g + k)" if "m g = Header e" "g \<notin> ?R" "k < nblocks e" for g e k
  proof (rule out)
    have "g + k \<in> region g e" using that(3) by (simp add: region_def)
    with outside_range [OF assms(1,2) that(1,2)] show "g + k \<notin> ?R" by blast
  qed
  show lay: "layout m'"
    unfolding layout_def
  proof (intro conjI allI impI)
    fix g e assume g: "m' g = Header e"
    show "entry_ok m' g e"
    proof (cases "g \<in> ?R")
      case False
      then have mg: "m g = Header e" using g out by simp
      from layout_entry [OF assms(1) mg] same [OF mg False] show ?thesis by (auto simp: entry_ok_def)
    qed (rule row(1) [OF _ g])
  next
    fix p j assume p: "m' p = Jump j" "j \<noteq> 0"
    show "inside_used m' p"
    proof (cases "p \<in> ?R")
      case True
      with row_jump [OF assms(4) _ _ p] assms(5) show ?thesis by auto
    next
      case False
      with p out have "m p = Jump j" by simp
      from inside_jump [OF assms(1) this p(2)] obtain g e where g: "m g = Header e" "\<not> HBLK_IS_FREE e" "g < p" "p < g + nblocks e" by blast
      then have "p \<in> region g e" by (simp add: region_def)
      with False assms(2) g(1) have "region g e \<inter> ?R = {}" unfolding closed_range_def by blast
      with region_start [OF layout_entry [OF assms(1) g(1)]] have "g \<notin> ?R" by blast
      with g out show ?thesis unfolding inside_used_def by metis
    qed
  qed
  have "p \<in> free_cells m' \<longleftrightarrow> p \<in> free_cells m - ?R \<union> free_tiles h ds" for p
  proof
    assume "p \<in> free_cells m'"
    then obtain g e where g: "m' g = Header e" "HBLK_IS_FREE e" "p \<in> region g e" by (auto simp: free_cells_def)
    show "p \<in> free_cells m - ?R \<union> free_tiles h ds"
    proof (cases "g \<in> ?R")
      case True
      with g assms(5) have "p \<in> free_tiles h ds" unfolding row_free [OF assms(4,6)] by (intro exI [of _ g] exI [of _ e]) simp
      then show ?thesis ..
    next
      case False
      with g(1) out have mg: "m g = Header e" by simp
      from outside_range [OF assms(1,2) mg False] g mg show ?thesis unfolding free_cells_def by blast
    qed
  next
    assume "p \<in> free_cells m - ?R \<union> free_tiles h ds"
    then consider "p \<in> free_cells m" "p \<notin> ?R" | "p \<in> free_tiles h ds" by blast
    then show "p \<in> free_cells m'"
    proof cases
      case 1
      then obtain g e where g: "m g = Header e" "HBLK_IS_FREE e" "p \<in> region g e" by (auto simp: free_cells_def)
      with 1(2) assms(2) have "region g e \<inter> ?R = {}" unfolding closed_range_def by blast
      with region_start [OF layout_entry [OF assms(1) g(1)]] have "g \<notin> ?R" by blast
      with out g(1) have "m' g = Header e" by simp
      with g show ?thesis unfolding free_cells_def by blast
    next
      case 2
      then show ?thesis unfolding row_free [OF assms(4,6)] free_cells_def by blast
    qed
  qed
  then show "free_cells m' = free_cells m - ?R \<union> free_tiles h ds" by blast
qed

end
