(* ===== verification/Gc_Invariant.thy ===== *)
theory Gc_Invariant
  imports Gc_Regions
begin

text \<open>
  The invariant of the block allocator: the headers lay out the heap, the free blocks are exactly the members of the
  free lists, each on the list of its size, and the pages of a block are mapped as its header says.
  It has exceptions for the middle of an operation: free blocks that are on no list, and blocks
  on a list that does not fit their size.
\<close>

section \<open>Flags\<close>

lemma free_flag: "HBLK_IS_FREE d \<longleftrightarrow> bit (hb_flags d) 2"
  using and_exp_eq_0_iff_not_bit [of "hb_flags d" 2] by (simp add: HBLK_IS_FREE_def FREE_BLK_def)

lemma mapped_flag: "IS_MAPPED d \<longleftrightarrow> \<not> bit (hb_flags d) 1"
  using and_exp_eq_0_iff_not_bit [of "hb_flags d" 1] by (simp add: IS_MAPPED_def WAS_UNMAPPED_def)

lemma flag_bits: "bit FREE_BLK n \<longleftrightarrow> n = 2" "bit WAS_UNMAPPED n \<longleftrightarrow> n = 1"
  using bit_exp_iff [where 'a = "8 word", of 2 n] bit_exp_iff [where 'a = "8 word", of 1 n] by (auto simp: FREE_BLK_def WAS_UNMAPPED_def)

lemma or_free: "or w FREE_BLK = w" if "bit w 2" for w :: "8 word"
  using that by (auto intro!: bit_eqI simp: bit_simps flag_bits)

lemma free_or: "HBLK_IS_FREE (d\<lparr>hb_flags := or w FREE_BLK\<rparr>)"
  by (simp add: free_flag bit_simps flag_bits)

lemma mapped_or: "IS_MAPPED (d\<lparr>hb_flags := or w FREE_BLK\<rparr>) \<longleftrightarrow> \<not> bit w 1"
  by (simp add: mapped_flag bit_simps flag_bits)

section \<open>The invariant\<close>

definition fl_index :: "(hblk \<Rightarrow> hdr_entry) \<Rightarrow> hblk \<Rightarrow> nat" where
  "fl_index m h = GC_hblk_fl_from_blocks (divHBLKSZ (bytes_at m h))"

definition mapping_ok :: "gc_state \<Rightarrow> bool" where
  "mapping_ok st \<longleftrightarrow> (\<forall>h d. hdr_map st h = Header d \<longrightarrow>
     (HBLK_IS_FREE d \<or> IS_MAPPED d) \<and> (\<forall>p. p \<in> region h d \<longrightarrow> mem_mapped st p = IS_MAPPED d))"

definition blocks_inv :: "gc_state \<Rightarrow> hblk list list \<Rightarrow> hblk set \<Rightarrow> hblk set \<Rightarrow> bool" where
  "blocks_inv st Ls X W \<longleftrightarrow>
     layout (hdr_map st) \<and> indexed st \<and> lists_ok st Ls \<and> mapping_ok st \<and>
     X \<inter> set (concat Ls) = {} \<and> (\<forall>h. free_at (hdr_map st) h \<longleftrightarrow> h \<in> set (concat Ls) \<or> h \<in> X) \<and>
     (\<forall>i < 61. \<forall>h \<in> set (Ls ! i) - W. fl_index (hdr_map st) h = i)"

lemma blocks_invD:
  assumes "blocks_inv st Ls X W"
  shows "layout (hdr_map st)" and "indexed st" and "lists_ok st Ls" and "mapping_ok st" and "X \<inter> set (concat Ls) = {}"
    and "free_at (hdr_map st) h \<longleftrightarrow> h \<in> set (concat Ls) \<or> h \<in> X"
    and "i < 61 \<Longrightarrow> h \<in> set (Ls ! i) \<Longrightarrow> h \<notin> W \<Longrightarrow> fl_index (hdr_map st) h = i"
  using assms unfolding blocks_inv_def by blast+

subsection \<open>States that differ in the lists only\<close>

lemma only_lists_fields:
  assumes "only_lists st st'"
  shows "bare (hdr_map st') = bare (hdr_map st)" and "bottom_indices st' = bottom_indices st" and "mem_mapped st' = mem_mapped st"
  using assms by (auto simp: only_lists_def)

lemma bare_NIL: "bare m h = NIL \<longleftrightarrow> m h = NIL"
  by (simp add: bare_def split: hdr_entry.split)

lemma indexed_bare:
  assumes "bare (hdr_map st') = bare (hdr_map st)" and "bottom_indices st' = bottom_indices st"
  shows "indexed st' = indexed st"
proof -
  have "hdr_map st' h = NIL \<longleftrightarrow> hdr_map st h = NIL" for h using assms(1) by (metis bare_NIL)
  with assms(2) show ?thesis by (simp add: indexed_def has_index_def)
qed

lemma mapping_bare:
  assumes "bare (hdr_map st') = bare (hdr_map st)" and "mem_mapped st' = mem_mapped st" and "mapping_ok st"
  shows "mapping_ok st'"
  unfolding mapping_ok_def
proof (intro allI impI)
  fix h d assume "hdr_map st' h = Header d"
  from bare_Header [OF assms(1) this] obtain e where e: "hdr_map st h = Header e" "hb_sz e = hb_sz d" "hb_flags e = hb_flags d" by metis
  with assms(2,3) free_same_flags [OF e(3)] mapped_same_flags [OF e(3)]
  show "(HBLK_IS_FREE d \<or> IS_MAPPED d) \<and> (\<forall>p. p \<in> region h d \<longrightarrow> mem_mapped st' p = IS_MAPPED d)"
    by (auto simp: mapping_ok_def region_def)
qed

lemma fl_index_bare: "bare m' = bare m \<Longrightarrow> fl_index m' = fl_index m"
  unfolding fl_index_def by (metis bytes_at_bare)

lemma blocks_inv_lists:
  assumes "blocks_inv st Ls X W" and "only_lists st st'" and "lists_ok st' Ls'"
    and "set (concat Ls') \<union> X' = set (concat Ls) \<union> X" and "X' \<inter> set (concat Ls') = {}"
    and "\<And>i h. i < 61 \<Longrightarrow> h \<in> set (Ls' ! i) \<Longrightarrow> h \<notin> W' \<Longrightarrow> fl_index (hdr_map st) h = i"
  shows "blocks_inv st' Ls' X' W'"
proof -
  note f = only_lists_fields [OF assms(2)]
  have free: "free_at (hdr_map st') h \<longleftrightarrow> h \<in> set (concat Ls') \<or> h \<in> X'" for h
    unfolding view_bare(2) [OF f(1)] blocks_invD(6) [OF assms(1)] Un_iff [symmetric] assms(4) ..
  show ?thesis
    unfolding blocks_inv_def
  proof (intro conjI)
    show "layout (hdr_map st')" by (rule layout_bare [OF f(1) [symmetric] blocks_invD(1) [OF assms(1)]])
    show "indexed st'" using indexed_bare [OF f(1,2)] blocks_invD(2) [OF assms(1)] by simp
    show "mapping_ok st'" by (rule mapping_bare [OF f(1,3) blocks_invD(4) [OF assms(1)]])
    show "\<forall>i < 61. \<forall>h \<in> set (Ls' ! i) - W'. fl_index (hdr_map st') h = i"
      unfolding fl_index_bare [OF f(1)] using assms(6) by blast
  qed (use assms(3,5) free in blast)+
qed

section \<open>The lists as sets\<close>

lemma concat_update_remove:
  assumes "lists_ok st Ls" and "i < 61" and "Ls ! i = xs @ h # ys"
  shows "set (concat (Ls[i := xs @ ys])) = set (concat Ls) - {h}" and "h \<in> set (concat Ls)"
proof -
  have len: "i < length Ls" using assms by (simp add: lists_ok_def)
  have m: "add_mset h (mset (concat (Ls[i := xs @ ys]))) = mset (concat Ls)"
    using mset_concat_update [OF len, of "xs @ ys"] assms(3) by simp
  have dist: "distinct (concat Ls)" using assms by (simp add: lists_ok_def)
  have "distinct (h # concat (Ls[i := xs @ ys]))" using m dist by (metis mset.simps(2) mset_eq_imp_distinct_iff)
  moreover have "insert h (set (concat (Ls[i := xs @ ys]))) = set (concat Ls)" using arg_cong [OF m, of set_mset] by (simp del: set_concat)
  ultimately show "set (concat (Ls[i := xs @ ys])) = set (concat Ls) - {h}" by (auto simp del: set_concat)
  show "h \<in> set (concat Ls)" using \<open>insert h _ = _\<close> by blast
qed

lemma concat_update_add:
  assumes "i < length Ls"
  shows "set (concat (Ls[i := h # Ls ! i])) = insert h (set (concat Ls))"
proof -
  have "mset (concat (Ls[i := h # Ls ! i])) = add_mset h (mset (concat Ls))"
    using mset_concat_update [OF assms, of "h # Ls ! i"] by simp
  from arg_cong [OF this, of set_mset] show ?thesis by (simp del: set_concat)
qed

lemma list_of_free:
  assumes "blocks_inv st Ls X W" and "h \<in> set (concat Ls)"
  obtains i xs ys d where "i < 61" and "Ls ! i = xs @ h # ys" and "hdr_map st h = Header d" and "HBLK_IS_FREE d"
    and "h \<notin> W \<Longrightarrow> i = GC_hblk_fl_from_blocks (divHBLKSZ (hb_sz d))"
proof -
  have len: "length Ls = 61" using blocks_invD(3) [OF assms(1)] by (simp add: lists_ok_def)
  from assms(2) obtain l where "l \<in> set Ls" "h \<in> set l" by auto
  then obtain i where i: "i < 61" "h \<in> set (Ls ! i)" using len by (metis in_set_conv_nth)
  then obtain xs ys where xs: "Ls ! i = xs @ h # ys" by (meson split_list)
  from blocks_invD(6) [OF assms(1), of h] assms(2) obtain d where d: "hdr_map st h = Header d" "HBLK_IS_FREE d" by (auto simp: free_at_def)
  from blocks_invD(7) [OF assms(1) i] d(1) have "h \<notin> W \<Longrightarrow> i = GC_hblk_fl_from_blocks (divHBLKSZ (hb_sz d))" by (simp add: fl_index_def bytes_at_def)
  with that [OF i(1) xs d] show ?thesis by blast
qed

text \<open>The free blocks fit into the address space together; their sizes add up to the number of free cells.\<close>

lemma free_cells_range:
  assumes "layout m"
  shows "free_cells m \<subseteq> {1..<2 ^ 52}"
proof
  fix p assume "p \<in> free_cells m"
  then obtain h d where h: "m h = Header d" "p \<in> region h d" by (auto simp: free_cells_def)
  from layout_entry [OF assms h(1)] h(2) show "p \<in> {1..<2 ^ 52}" by (auto simp: entry_ok_def region_def)
qed

lemma free_cells_card:
  assumes "layout m"
  shows "finite (free_cells m)" and "card (free_cells m) < 2 ^ 52"
proof -
  show "finite (free_cells m)" using free_cells_range [OF assms] finite_subset by blast
  have "card (free_cells m) \<le> card {1..<2 ^ 52 :: nat}" by (rule card_mono [OF _ free_cells_range [OF assms]]) simp
  then show "card (free_cells m) < 2 ^ 52" by simp
qed

lemma free_sum:
  assumes "layout m" and "distinct hs" and "\<And>h. h \<in> set hs \<Longrightarrow> free_at m h"
  shows "sum_list (map (bytes_at m) hs) = card {p. \<exists>h d. h \<in> set hs \<and> m h = Header d \<and> p \<in> region h d} * HBLKSIZE"
proof -
  have "\<exists>d. m h = Header d \<and> HBLK_IS_FREE d" if "h \<in> set hs" for h using assms(3) [OF that] by (simp add: free_at_def)
  then obtain D where D: "\<And>h. h \<in> set hs \<Longrightarrow> m h = Header (D h) \<and> HBLK_IS_FREE (D h)" by metis
  have size: "bytes_at m h = card (region h (D h)) * HBLKSIZE" if "h \<in> set hs" for h
  proof -
    have "entry_ok m h (D h)" using layout_entry [OF assms(1)] D [OF that] by blast
    with D [OF that] blocks_dvd [of "hb_sz (D h)"] show ?thesis by (auto simp: entry_ok_def region_def bytes_at_def)
  qed
  have "sum_list (map (bytes_at m) hs) = (\<Sum>h \<in> set hs. bytes_at m h)" by (rule sum_list_distinct_conv_sum_set [OF assms(2)])
  also have "\<dots> = (\<Sum>h \<in> set hs. card (region h (D h))) * HBLKSIZE" unfolding sum_distrib_right by (rule sum.cong [OF refl size])
  also have "(\<Sum>h \<in> set hs. card (region h (D h))) = card (\<Union>h \<in> set hs. region h (D h))"
  proof (rule card_UN_disjoint [symmetric])
    show "\<forall>h\<in>set hs. \<forall>g\<in>set hs. h \<noteq> g \<longrightarrow> region h (D h) \<inter> region g (D g) = {}" using regions_disjoint [OF assms(1)] D by blast
  qed (simp_all add: region_def)
  also have "(\<Union>h \<in> set hs. region h (D h)) = {p. \<exists>h d. h \<in> set hs \<and> m h = Header d \<and> p \<in> region h d}"
  proof -
    have "d = D h" if "h \<in> set hs" "m h = Header d" for h d using D [OF that(1)] that(2) by simp
    with D show ?thesis by blast
  qed
  finally show ?thesis .
qed

lemma free_sum_bound:
  assumes "layout m" and "distinct hs" and "\<And>h. h \<in> set hs \<Longrightarrow> free_at m h"
  shows "sum_list (map (bytes_at m) hs) < 2 ^ 64"
proof -
  let ?S = "{p. \<exists>h d. h \<in> set hs \<and> m h = Header d \<and> p \<in> region h d}"
  have "?S \<subseteq> free_cells m" using assms(3) by (fastforce simp: free_cells_def free_at_def)
  then have "card ?S < 2 ^ 52" using card_mono [OF free_cells_card(1) [OF assms(1)]] free_cells_card(2) [OF assms(1)] le_less_trans by blast
  then have "card ?S * HBLKSIZE < 2 ^ 52 * HBLKSIZE" by (simp add: HBLKSIZE_def)
  moreover have "sum_list (map (bytes_at m) hs) = card ?S * HBLKSIZE" using assms by (rule free_sum)
  ultimately show ?thesis by (simp add: HBLKSIZE_def)
qed

section \<open>Removal and insertion\<close>

lemma inv_remove_at:
  assumes "blocks_inv st Ls X W" and "i < 61" and "Ls ! i = xs @ h # ys"
  shows "completes (GC_remove_from_fl_at h i)
    (\<lambda>_ st'. blocks_inv st' (Ls[i := xs @ ys]) (insert h X) (W - {h}) \<and> only_lists st st') st"
proof (rule wp_mono [OF remove_from_fl_at_ok [OF blocks_invD(3) [OF assms(1)] assms(2,3)]])
  fix x st' assume post: "lists_ok st' (Ls[i := xs @ ys]) \<and> only_lists st st'"
  note c = concat_update_remove [OF blocks_invD(3) [OF assms(1)] assms(2,3)]
  have "blocks_inv st' (Ls[i := xs @ ys]) (insert h X) (W - {h})"
  proof (rule blocks_inv_lists [OF assms(1)])
    show "set (concat (Ls[i := xs @ ys])) \<union> insert h X = set (concat Ls) \<union> X" unfolding c(1) using c(2) by blast
    show "insert h X \<inter> set (concat (Ls[i := xs @ ys])) = {}" unfolding c(1) using blocks_invD(5) [OF assms(1)] by blast
    fix j g assume j: "j < 61" "g \<in> set (Ls[i := xs @ ys] ! j)" "g \<notin> W - {h}"
    have "g \<in> set (concat (Ls[i := xs @ ys]))" using member_concat [of st'] post j(1,2) by blast
    with c(1) have "g \<noteq> h" by blast
    moreover have "g \<in> set (Ls ! j)" using j(1,2) assms(2,3) blocks_invD(3) [OF assms(1)] by (cases "i = j") (auto simp: lists_ok_def)
    ultimately show "fl_index (hdr_map st) g = j" using blocks_invD(7) [OF assms(1) j(1)] j(3) by blast
  qed (use post in simp_all)
  with post show "blocks_inv st' (Ls[i := xs @ ys]) (insert h X) (W - {h}) \<and> only_lists st st'" by blast
qed

lemma inv_remove:
  assumes "blocks_inv st Ls X W" and "h \<in> set (concat Ls)" and "h \<notin> W"
  shows "completes (GC_remove_from_fl h)
    (\<lambda>_ st'. (\<exists>Ls'. blocks_inv st' Ls' (insert h X) W \<and> set (concat Ls') = set (concat Ls) - {h}) \<and> only_lists st st') st"
proof -
  obtain i xs ys d where i: "i < 61" "Ls ! i = xs @ h # ys" "hdr_map st h = Header d" "i = GC_hblk_fl_from_blocks (divHBLKSZ (hb_sz d))"
    using list_of_free [OF assms(1,2)] assms(3) by metis
  have W: "W - {h} = W" using assms(3) by blast
  have run: "completes (GC_remove_from_fl h) Q st = completes (GC_remove_from_fl_at h i) Q st" for Q
    unfolding GC_remove_from_fl_def using i(3,4) by (simp add: wp_simps)
  show ?thesis
    unfolding run
    using concat_update_remove(1) [OF blocks_invD(3) [OF assms(1)] i(1,2)]
    by (intro wp_mono [OF inv_remove_at [OF assms(1) i(1,2)]]) (auto simp: W simp del: set_concat)
qed

lemma inv_add:
  assumes "blocks_inv (mark_free h st) Ls X W" and "h \<in> X" and "hdr_map st h = Header d"
  shows "completes (GC_add_to_fl h)
    (\<lambda>_ st'. (\<exists>Ls'. blocks_inv st' Ls' (X - {h}) W \<and> set (concat Ls') = insert h (set (concat Ls))) \<and> only_lists (mark_free h st) st') st"
proof -
  let ?i = "GC_hblk_fl_from_blocks (divHBLKSZ (hb_sz d))" and ?st = "mark_free h st"
  let ?Ls = "Ls[?i := h # Ls ! ?i]"
  have marked: "hdr_map ?st = (hdr_map st)(h := Header (d\<lparr>hb_flags := or (hb_flags d) FREE_BLK\<rparr>))"
    "GC_hblkfreelist ?st = GC_hblkfreelist st" "GC_free_bytes ?st = GC_free_bytes st" using assms(3) by (simp_all add: mark_free_def)
  have bytes: "bytes_at (hdr_map ?st) = bytes_at (hdr_map st)" unfolding marked using assms(3) by (auto simp: bytes_at_def)
  have new: "h \<notin> set (concat Ls)" using blocks_invD(5) [OF assms(1)] assms(2) by blast
  have ok: "lists_ok st Ls" by (rule lists_ok_others [OF blocks_invD(3) [OF assms(1)]]) (use marked new in auto)
  have len: "length Ls = 61" "?i < length Ls" using ok fl_index_less by (simp_all add: lists_ok_def)
  have "sum_list (map (bytes_at (hdr_map ?st)) (h # Ls ! ?i)) < 2 ^ 64"
  proof (rule free_sum_bound [OF blocks_invD(1) [OF assms(1)]])
    show "distinct (h # Ls ! ?i)" using new ok member_concat [OF ok fl_index_less] distinct_list [of Ls ?i] len by (auto simp: lists_ok_def simp del: set_concat)
    show "free_at (hdr_map ?st) g" if "g \<in> set (h # Ls ! ?i)" for g
      using that blocks_invD(6) [OF assms(1), of g] member_concat [OF ok fl_index_less] assms(2) by auto
  qed
  then have bound: "sum_list (map (bytes_at (hdr_map st)) (Ls ! ?i)) + hb_sz d < 2 ^ 64" using assms(3) unfolding bytes by (simp add: bytes_at_def)
  note c = concat_update_add [OF len(2), of h]
  have idx: "fl_index (hdr_map ?st) h = ?i" unfolding fl_index_def bytes using assms(3) by (simp add: bytes_at_def)
  show ?thesis
  proof (rule wp_mono [OF add_to_fl_ok [OF ok assms(3) new refl bound]])
    fix x st' assume post: "lists_ok st' ?Ls \<and> only_lists ?st st'"
    have "blocks_inv st' ?Ls (X - {h}) W"
    proof (rule blocks_inv_lists [OF assms(1)])
      show "set (concat ?Ls) \<union> (X - {h}) = set (concat Ls) \<union> X" unfolding c using assms(2) by blast
      show "(X - {h}) \<inter> set (concat ?Ls) = {}" unfolding c using blocks_invD(5) [OF assms(1)] by blast
      fix j g assume j: "j < 61" "g \<in> set (?Ls ! j)" "g \<notin> W"
      then show "fl_index (hdr_map ?st) g = j" using blocks_invD(7) [OF assms(1) j(1)] idx len
        by (cases "?i = j"; cases "g = h") auto
    qed (use post in simp_all)
    with post c show "(\<exists>Ls'. blocks_inv st' Ls' (X - {h}) W \<and> set (concat Ls') = insert h (set (concat Ls))) \<and> only_lists ?st st'" by blast
  qed
qed

text \<open>A block that is marked already.\<close>

lemma mark_free_id: "hdr_map st h = Header d \<Longrightarrow> HBLK_IS_FREE d \<Longrightarrow> mark_free h st = st"
  by (simp add: mark_free_def free_flag or_free fun_upd_idem)

section \<open>Replacing a range of blocks\<close>

lemma inv_row_lists:
  assumes "blocks_inv st Ls X W" and "closed_range (hdr_map st) {h..<h + n}"
    and "\<And>p. p < h \<or> h + n \<le> p \<Longrightarrow> bare (hdr_map st') p = bare (hdr_map st) p \<and> mem_mapped st' p = mem_mapped st p"
    and "laid (hdr_map st') h ds" and "n = row_blocks ds" and "\<forall>d \<in> set ds. tile_ok d" and "0 < h" and "h + n \<le> 2 ^ 52" and "indexed st'"
    and "\<And>p e. h \<le> p \<Longrightarrow> p < h + n \<Longrightarrow> hdr_map st' p = Header e \<Longrightarrow>
      (HBLK_IS_FREE e \<or> IS_MAPPED e) \<and> (\<forall>q. q \<in> region p e \<longrightarrow> mem_mapped st' q = IS_MAPPED e)"
    and "lists_ok st' Ls'" and "X' \<inter> set (concat Ls') = {}"
    and "\<And>p. p \<in> set (concat Ls') \<or> p \<in> X' \<longleftrightarrow>
      (if p < h \<or> h + n \<le> p then p \<in> set (concat Ls) \<or> p \<in> X else free_at (hdr_map st') p)"
    and "\<And>i g. i < 61 \<Longrightarrow> g \<in> set (Ls' ! i) \<Longrightarrow> g \<notin> W' \<Longrightarrow> fl_index (hdr_map st') g = i"
  shows "blocks_inv st' Ls' X' W'" and "free_cells (hdr_map st') = free_cells (hdr_map st) - {h..<h + n} \<union> free_tiles h ds"
proof -
  let ?m = "hdr_map st" and ?m' = "hdr_map st'"
  note inv = blocks_invD [OF assms(1)]
  define V where "V = (\<lambda>p. if p < h \<or> h + n \<le> p then ?m p else ?m' p)"
  have V: "bare V = bare ?m'" using assms(3) by (auto simp: V_def bare_def fun_eq_iff)
  have "laid V g ds'" if "laid ?m' g ds'" "h \<le> g" "g + row_blocks ds' \<le> h + n" "\<forall>d \<in> set ds'. tile_ok d" for g ds'
    using that
  proof (induction ds' arbitrary: g)
    case (Cons d ds')
    have "0 < nblocks d" using Cons.prems(4) by (simp add: tile_ok_def blocks_of_bytes_pos)
    with Cons show ?case by (auto simp: V_def)
  qed simp
  then have laid: "laid V h ds" using assms(4-6) by simp
  have outV: "V p = ?m p" if "p < h \<or> h + n \<le> p" for p using that by (simp add: V_def)
  note row = row_change [OF inv(1) assms(2) outV laid assms(5-8)]
  have lay: "layout ?m'" using layout_bare [OF V] row(1) by blast
  have free: "free_at ?m' p \<longleftrightarrow> p \<in> set (concat Ls') \<or> p \<in> X'" for p
  proof (cases "p < h \<or> h + n \<le> p")
    case True
    then have "free_at V p = free_at ?m p" using outV by (simp add: free_at_def)
    then have "free_at ?m' p = free_at ?m p" using view_bare(2) [OF V] by simp
    with True inv(6) [of p] assms(13) [of p] show ?thesis by simp
  next
    case False
    with assms(13) [of p] show ?thesis by simp
  qed
  show "blocks_inv st' Ls' X' W'"
    unfolding blocks_inv_def
  proof (intro conjI)
    show "\<forall>i<61. \<forall>g\<in>set (Ls' ! i) - W'. fl_index ?m' g = i" using assms(14) by blast
    show "mapping_ok st'"
      unfolding mapping_ok_def
    proof (intro allI impI)
      fix g e assume g: "?m' g = Header e"
      show "(HBLK_IS_FREE e \<or> IS_MAPPED e) \<and> (\<forall>p. p \<in> region g e \<longrightarrow> mem_mapped st' p = IS_MAPPED e)"
      proof (cases "g < h \<or> h + n \<le> g")
        case True
        obtain x where x: "V g = Header x" "hb_sz x = hb_sz e" "hb_flags x = hb_flags e" by (rule bare_Header [OF V [symmetric] g])
        with True have mg: "?m g = Header x" by (simp add: V_def)
        have "region g x \<inter> {h..<h + n} = {}" using True by (intro outside_range [OF inv(1) assms(2) mg]) auto
        then have "mem_mapped st' p = mem_mapped st p" if "p \<in> region g x" for p using that assms(3) [of p] by fastforce
        with inv(4) mg x free_same_flags [OF x(3)] mapped_same_flags [OF x(3)] show ?thesis by (auto simp: mapping_ok_def region_def)
      next
        case False
        with assms(10) [OF _ _ g] show ?thesis by simp
      qed
    qed
  qed (use lay assms(9,11,12) free in blast)+
  show "free_cells ?m' = free_cells ?m - {h..<h + n} \<union> free_tiles h ds" using row(2) view_bare(3) [OF V] by simp
qed

lemma inv_row:
  assumes "blocks_inv st Ls X W" and "closed_range (hdr_map st) {h..<h + n}"
    and "\<And>p. p < h \<or> h + n \<le> p \<Longrightarrow> hdr_map st' p = hdr_map st p \<and> mem_mapped st' p = mem_mapped st p"
    and "GC_hblkfreelist st' = GC_hblkfreelist st" and "GC_free_bytes st' = GC_free_bytes st"
    and "laid (hdr_map st') h ds" and "n = row_blocks ds" and "\<forall>d \<in> set ds. tile_ok d" and "0 < h" and "h + n \<le> 2 ^ 52"
    and "\<And>g. g \<in> set (concat Ls) \<Longrightarrow> g < h \<or> h + n \<le> g" and "indexed st'"
    and "\<And>p e. h \<le> p \<Longrightarrow> p < h + n \<Longrightarrow> hdr_map st' p = Header e \<Longrightarrow>
      (HBLK_IS_FREE e \<or> IS_MAPPED e) \<and> (\<forall>q. q \<in> region p e \<longrightarrow> mem_mapped st' q = IS_MAPPED e)"
    and "X' = {p. if p < h \<or> h + n \<le> p then p \<in> X else free_at (hdr_map st') p}"
  shows "blocks_inv st' Ls X' W" and "free_cells (hdr_map st') = free_cells (hdr_map st) - {h..<h + n} \<union> free_tiles h ds"
proof -
  let ?m = "hdr_map st" and ?m' = "hdr_map st'"
  note inv = blocks_invD [OF assms(1)]
  have out: "?m' p = ?m p" "mem_mapped st' p = mem_mapped st p" if "p < h \<or> h + n \<le> p" for p using assms(3) that by blast+
  have listed: "?m' g = ?m g" if "g \<in> set (concat Ls)" for g by (rule out(1) [OF assms(11) [OF that]])
  have outb: "bare ?m' p = bare ?m p \<and> mem_mapped st' p = mem_mapped st p" if "p < h \<or> h + n \<le> p" for p
    using out [OF that] by (simp add: bare_def)
  have lists: "lists_ok st' Ls" by (rule lists_ok_others [OF inv(3) listed assms(4,5)])
  have disj: "X' \<inter> set (concat Ls) = {}" using assms(11,14) inv(5) by (auto simp del: set_concat split: if_splits)
  have heads: "p \<in> set (concat Ls) \<or> p \<in> X' \<longleftrightarrow>
      (if p < h \<or> h + n \<le> p then p \<in> set (concat Ls) \<or> p \<in> X else free_at ?m' p)" for p
    using assms(11,14) by auto
  have index: "fl_index ?m' g = i" if "i < 61" "g \<in> set (Ls ! i)" "g \<notin> W" for i g
    using inv(7) [OF that] listed [OF member_concat [OF inv(3) that(1,2)]] by (simp add: fl_index_def bytes_at_def)
  note res = inv_row_lists [OF assms(1,2) outb assms(6-10,12,13) lists disj heads index]
  show "blocks_inv st' Ls X' W" by (rule res(1))
  show "free_cells ?m' = free_cells ?m - {h..<h + n} \<union> free_tiles h ds" by (rule res(2))
qed

text \<open>Merging two adjacent free blocks that are on no list.\<close>

lemma inv_join:
  assumes "blocks_inv st Ls X W" and "hdr_map st h = Header d" and "hdr_map st q = Header e" and "q = h + nblocks d"
    and "h \<in> X" and "q \<in> X" and "hb_sz d + hb_sz e < 2 ^ 63" and "IS_MAPPED e = IS_MAPPED d"
    and "hdr_map st' = (hdr_map st)(h := Header d', q := NIL)" and "hb_sz d' = hb_sz d + hb_sz e" and "hb_flags d' = hb_flags d"
    and "GC_hblkfreelist st' = GC_hblkfreelist st" and "GC_free_bytes st' = GC_free_bytes st"
    and "bottom_indices st' = bottom_indices st" and "mem_mapped st' = mem_mapped st"
  shows "blocks_inv st' Ls (X - {q}) W" and "free_cells (hdr_map st') = free_cells (hdr_map st)"
    and "used_at (hdr_map st') = used_at (hdr_map st)"
proof -
  let ?m = "hdr_map st" and ?m' = "hdr_map st'" and ?n = "nblocks d + nblocks e"
  note inv = blocks_invD [OF assms(1)]
  have okd: "entry_ok ?m h d" and oke: "entry_ok ?m q e" using layout_entry [OF inv(1)] assms(2,3) by auto
  have fd: "HBLK_IS_FREE d" and fe: "HBLK_IS_FREE e" using inv(6) [of h] inv(6) [of q] assms(2,3,5,6) by (auto simp: free_at_def)
  have fd': "HBLK_IS_FREE d'" using fd free_same_flags [OF assms(11)] by simp
  have "HBLKSIZE dvd hb_sz d" "HBLKSIZE dvd hb_sz e" using okd oke fd fe by (simp_all add: entry_ok_def)
  then have sz: "hb_sz d' = ?n * HBLKSIZE" using blocks_dvd [of "hb_sz d"] blocks_dvd [of "hb_sz e"] assms(10) by (simp add: add_mult_distrib)
  have n: "nblocks d' = ?n" unfolding sz by (metis block_arith(2) blocks_of_bytes_mult(1))
  have pos: "0 < nblocks d" "0 < nblocks e" using nblocks_pos okd oke by blast+
  have inner: "?m (h + k) = NIL" if "0 < k" "k < nblocks d" for k using okd fd that by (simp add: entry_ok_def)
  have inner': "?m (q + k) = NIL" if "0 < k" "k < nblocks e" for k using oke fe that by (simp add: entry_ok_def)
  have nil: "?m' (h + k) = NIL" if k: "0 < k" "k < ?n" for k
  proof (cases "k < nblocks d")
    case True
    with inner k assms(4,9) show ?thesis by simp
  next
    case False
    then obtain j where j: "k = nblocks d + j" by (metis le_Suc_ex not_less)
    with inner' [of j] k assms(4,9) show ?thesis by (cases "j = 0") (simp_all add: add.assoc)
  qed
  have head: "?m' h = Header d'" using assms(4,9) pos by simp
  have union: "{h..<h + ?n} = region h d \<union> region q e" using assms(4) by (auto simp: region_def)
  have listed: "g < h \<or> h + ?n \<le> g" if g: "g \<in> set (concat Ls)" for g
  proof -
    obtain x where x: "?m g = Header x" using inv(6) [of g] g by (auto simp: free_at_def)
    have "g \<noteq> h" "g \<noteq> q" using inv(5) g assms(5,6) by auto
    with regions_disjoint [OF inv(1) x assms(2)] regions_disjoint [OF inv(1) x assms(3)] region_start [OF layout_entry [OF inv(1) x]]
    have "g \<notin> {h..<h + ?n}" unfolding union by blast
    then show ?thesis by auto
  qed
  have inR: "p = h" if "h \<le> p" "p < h + ?n" "?m' p = Header x" for p x
  proof (rule ccontr)
    assume "p \<noteq> h"
    with that(1) obtain k where "p = h + k" "0 < k" by (metis le_neq_implies_less less_imp_add_positive)
    with that nil show False by auto
  qed
  have X': "X - {q} = {p. if p < h \<or> h + ?n \<le> p then p \<in> X else free_at ?m' p}"
  proof -
    have "p \<in> X - {q} \<longleftrightarrow> free_at ?m' p" if "\<not> (p < h \<or> h + ?n \<le> p)" for p
    proof (cases "p = h")
      case True
      with assms(4,5) head fd' pos show ?thesis by (auto simp: free_at_def)
    next
      case False
      have "p \<in> X \<Longrightarrow> p = q"
      proof (rule ccontr)
        assume p: "p \<in> X" "p \<noteq> q"
        then obtain x where x: "?m p = Header x" using inv(6) [of p] by (auto simp: free_at_def)
        with regions_disjoint [OF inv(1) x assms(2) False] regions_disjoint [OF inv(1) x assms(3) p(2)] region_start [OF layout_entry [OF inv(1) x]]
        have "p \<notin> {h..<h + ?n}" unfolding union by blast
        with that show False by auto
      qed
      moreover have "\<not> free_at ?m' p" using inR [of p] that False by (auto simp: free_at_def)
      ultimately show ?thesis by blast
    qed
    moreover have "p \<noteq> q" if "p < h \<or> h + ?n \<le> p" for p using that assms(4) pos by auto
    ultimately show ?thesis by auto
  qed
  have range: "0 < h" "h + ?n \<le> 2 ^ 52" using okd oke assms(4) by (simp_all add: entry_ok_def add.assoc)
  have out: "?m' p = ?m p" if "p < h \<or> h + ?n \<le> p" for p using that assms(4,9) pos by auto
  have closed: "closed_range ?m {h..<h + ?n}" unfolding union using closed_Un closed_region inv(1) assms(2,3) by blast
  have idx: "indexed st'"
    using inv(2) assms(2,9,14) unfolding indexed_def has_index_def by (auto split: if_splits)
  have tiles: "laid ?m' h [d']" "?n = row_blocks [d']" "\<forall>d \<in> set [d']. tile_ok d"
    using head nil n fd' sz pos assms(7,10) by (auto simp: tile_ok_def block_arith)
  have mapped: "(HBLK_IS_FREE x \<or> IS_MAPPED x) \<and> (\<forall>p'. p' \<in> region p x \<longrightarrow> mem_mapped st' p' = IS_MAPPED x)"
    if "h \<le> p" "p < h + ?n" "?m' p = Header x" for p x
  proof -
    have px: "p = h" "x = d'" using inR [OF that] that(3) head by auto
    have "region p x = region h d \<union> region q e" unfolding px using n union by (simp add: region_def)
    with inv(4) assms(2,3,8,15) fd' px mapped_same_flags [OF assms(11)] show ?thesis by (auto simp: mapping_ok_def)
  qed
  have step: "hdr_map st' p = hdr_map st p \<and> mem_mapped st' p = mem_mapped st p" if "p < h \<or> h + ?n \<le> p" for p
    using out [OF that] assms(15) by simp
  note res = inv_row [OF assms(1) closed step assms(12,13) tiles range listed idx mapped X']
  show "blocks_inv st' Ls (X - {q}) W" by (rule res(1))
  have cells: "{h..<h + ?n} \<subseteq> free_cells ?m" unfolding union using assms(2,3) fd fe by (auto simp: free_cells_def)
  have "free_tiles h [d'] = {h..<h + ?n}" using fd' n by (simp add: region_def)
  with res(2) cells show "free_cells ?m' = free_cells ?m" by blast
  show "used_at ?m' = used_at ?m"
  proof
    fix p
    consider "p = q" | "p = h" "p \<noteq> q" | "p \<noteq> h" "p \<noteq> q" by blast
    then show "used_at ?m' p = used_at ?m p"
      using assms(2,3,9) fd fe fd' by cases (simp_all add: used_at_def bare_def HBLK_IS_FREE_def)
  qed
qed

end
