(* ===== verification/Gc_Release.thy ===== *)
theory Gc_Release
  imports Gc_Invariant
begin

text \<open>
  Freeing a block: \<open>GC_freehblk\<close> of \<open>allchblk.c\<close>. The region of the block becomes free, whichever of its
  neighbours it is merged with, and nothing else changes.
\<close>

section \<open>What a client of the allocator sees\<close>

text \<open>The components that the allocator of blocks leaves alone.\<close>

definition elsewhere :: "gc_state \<Rightarrow> gc_state" where
  "elsewhere st = st\<lparr>hdr_map := \<lambda>_. NIL, hdr_free_list := [], bottom_indices := [], mem_requests := 0, mem_mapped := \<lambda>_. False,
     GC_hblkfreelist := [], GC_free_bytes := [], GC_large_free_bytes := 0, GC_bytes_dropped := 0,
     GC_fail_count := 0, GC_large_alloc_warn_suppressed := 0, drop_count := 0\<rparr>"

definition same_heap :: "gc_state \<Rightarrow> gc_state \<Rightarrow> bool" where
  "same_heap st st' \<longleftrightarrow>
     used_at (hdr_map st') = used_at (hdr_map st) \<and> free_cells (hdr_map st') = free_cells (hdr_map st) \<and>
     mem_mapped st' = mem_mapped st \<and> GC_large_free_bytes st' = GC_large_free_bytes st \<and> elsewhere st' = elsewhere st"

definition heap_ok :: "gc_state \<Rightarrow> bool" where
  "heap_ok st \<longleftrightarrow>
     (\<exists>Ls. blocks_inv st Ls {} {}) \<and> GC_large_free_bytes st = card (free_cells (hdr_map st)) * HBLKSIZE \<and>
     (\<forall>h d. used_at (hdr_map st) h = Some d \<longrightarrow> HBLKSIZE * nblocks d < 2 ^ 63)"

lemma blocks_inv_cong:
  assumes "hdr_map st' = hdr_map st" and "bottom_indices st' = bottom_indices st" and "mem_mapped st' = mem_mapped st"
    and "GC_hblkfreelist st' = GC_hblkfreelist st" and "GC_free_bytes st' = GC_free_bytes st"
  shows "blocks_inv st' Ls X W = blocks_inv st Ls X W"
  using assms by (simp add: blocks_inv_def indexed_def has_index_def lists_ok_def mapping_ok_def)

lemma heap_ok_cong:
  assumes "hdr_map st' = hdr_map st" and "bottom_indices st' = bottom_indices st" and "mem_mapped st' = mem_mapped st"
    and "GC_hblkfreelist st' = GC_hblkfreelist st" and "GC_free_bytes st' = GC_free_bytes st"
    and "GC_large_free_bytes st' = GC_large_free_bytes st"
  shows "heap_ok st' = heap_ok st"
  unfolding heap_ok_def blocks_inv_cong [OF assms(1-5)] assms(1,6) ..

lemma same_heap_refl: "same_heap st st"
  by (simp add: same_heap_def)

lemma same_heap_trans: "same_heap st st' \<Longrightarrow> same_heap st' st'' \<Longrightarrow> same_heap st st''"
  by (simp add: same_heap_def)

lemma only_lists_same:
  assumes "only_lists st st'"
  shows "same_heap st st'"
  using view_bare [OF only_lists_fields(1) [OF assms]] assms by (auto simp: same_heap_def only_lists_def elsewhere_def)

section \<open>Removing the counts\<close>

lemma clear_loop_run:
  assumes "indexed st"
  shows "clear_loop h k n st = Done (st\<lparr>hdr_map := (\<lambda>p. if h + k \<le> p \<and> p < h + k + n then NIL else hdr_map st p)\<rparr>) ()"
  using assms
proof (induction n arbitrary: k st)
  case 0
  have "(\<lambda>p. if h + k \<le> p \<and> p < h + k + 0 then NIL else hdr_map st p) = hdr_map st" by (rule ext) auto
  then show ?case by (simp add: ret_def)
next
  case (Suc n)
  let ?st = "st\<lparr>hdr_map := (hdr_map st)(h + k := NIL)\<rparr>"
  have "SET_HDR (h + k) NIL st = Done ?st ()"
  proof (cases "has_index st (h + k)")
    case False
    with Suc.prems have "hdr_map st (h + k) = NIL" unfolding indexed_def by blast
    then have "?st = st" by (simp add: fun_upd_idem)
    with False show ?thesis by (simp add: SET_HDR_def)
  qed (simp add: SET_HDR_def)
  moreover have "indexed ?st" using Suc.prems by (auto simp: indexed_def has_index_def)
  moreover have "(\<lambda>p. if h + (k + 1) \<le> p \<and> p < h + (k + 1) + n then NIL else hdr_map ?st p) =
      (\<lambda>p. if h + k \<le> p \<and> p < h + k + Suc n then NIL else hdr_map st p)" by (rule ext) auto
  ultimately show ?case using Suc.IH [of ?st "k + 1"] by (simp add: andthen_run)
qed

lemma remove_counts_run:
  assumes "indexed st" and "0 < n"
  shows "GC_remove_counts h (HBLKSIZE * n) st = Done (st\<lparr>hdr_map := (\<lambda>p. if h < p \<and> p < h + n then NIL else hdr_map st p)\<rparr>) ()"
proof -
  have "blocks_of_bytes (HBLKSIZE * n) = n" by (metis block_arith(2) blocks_of_bytes_mult(2))
  moreover have "(\<lambda>p. if h + 1 \<le> p \<and> p < h + 1 + (n - 1) then NIL else hdr_map st p) = (\<lambda>p. if h < p \<and> p < h + n then NIL else hdr_map st p)"
    using assms(2) by (auto simp: fun_eq_iff)
  ultimately show ?thesis using clear_loop_run [OF assms(1), of h 1 "n - 1"] by (simp add: GC_remove_counts_def)
qed

text \<open>The block has a header of a free block but is on no list yet.\<close>

lemma inv_release:
  assumes "blocks_inv st Ls {} {}" and "hdr_map st h = Header d" and "\<not> HBLK_IS_FREE d"
    and "hdr_map st' = (\<lambda>p. if h < p \<and> p < h + nblocks d then NIL else hdr_map st p)(h := Header d')"
    and "hb_sz d' = HBLKSIZE * nblocks d" and "hb_flags d' = or (hb_flags d) FREE_BLK" and "HBLKSIZE * nblocks d < 2 ^ 63"
    and "GC_hblkfreelist st' = GC_hblkfreelist st" and "GC_free_bytes st' = GC_free_bytes st"
    and "bottom_indices st' = bottom_indices st" and "mem_mapped st' = mem_mapped st"
  shows "blocks_inv st' Ls {h} {}" and "free_cells (hdr_map st') = free_cells (hdr_map st) \<union> region h d"
    and "used_at (hdr_map st') = (used_at (hdr_map st))(h := None)" and "HBLK_IS_FREE d'" and "IS_MAPPED d'"
proof -
  let ?m = "hdr_map st" and ?m' = "hdr_map st'" and ?n = "nblocks d"
  note inv = blocks_invD [OF assms(1)]
  have ok: "entry_ok ?m h d" by (rule layout_entry [OF inv(1) assms(2)])
  have pos: "0 < ?n" by (rule nblocks_pos [OF ok])
  have mapped: "IS_MAPPED d" using inv(4) assms(2,3) by (auto simp: mapping_ok_def)
  show free': "HBLK_IS_FREE d'" and mapped': "IS_MAPPED d'"
    using mapped assms(6) by (simp_all add: free_flag mapped_flag bit_simps flag_bits)
  have n: "nblocks d' = ?n" unfolding assms(5) by (metis block_arith(2) blocks_of_bytes_mult(2))
  have head: "?m' h = Header d'" unfolding assms(4) by simp
  have nil: "?m' p = NIL" if "h < p" "p < h + ?n" for p using that unfolding assms(4) by simp
  have inR: "p = h \<and> x = d'" if "h \<le> p" "p < h + ?n" "?m' p = Header x" for p x
    using nil [of p] that head by (cases "p = h") auto
  have listed: "g < h \<or> h + ?n \<le> g" if g: "g \<in> set (concat Ls)" for g
  proof -
    obtain x where x: "?m g = Header x" "HBLK_IS_FREE x" using inv(6) [of g] g by (auto simp: free_at_def)
    then have "g \<noteq> h" using assms(2,3) by auto
    from regions_disjoint [OF inv(1) x(1) assms(2) this] region_start [OF layout_entry [OF inv(1) x(1)]]
    show ?thesis by (auto simp: region_def)
  qed
  have X': "{h} = {p. if p < h \<or> h + ?n \<le> p then p \<in> {} else free_at ?m' p}"
    using head free' pos inR by (auto simp: free_at_def split: if_splits)
  have outm: "hdr_map st' p = hdr_map st p \<and> mem_mapped st' p = mem_mapped st p" if "p < h \<or> h + ?n \<le> p" for p
    using that pos unfolding assms(4,11) by auto
  have idx: "indexed st'"
    using inv(2) assms(2) unfolding indexed_def has_index_def assms(4,10) by auto
  have tiles: "laid ?m' h [d']" "?n = row_blocks [d']" "\<forall>d \<in> set [d']. tile_ok d"
    using head nil n free' assms(5,7) pos by (auto simp: tile_ok_def HBLKSIZE_def)
  have pages: "(HBLK_IS_FREE x \<or> IS_MAPPED x) \<and> (\<forall>q. q \<in> region p x \<longrightarrow> mem_mapped st' q = IS_MAPPED x)"
    if "h \<le> p" "p < h + ?n" "?m' p = Header x" for p x
    using inR [OF that] inv(4) assms(2,11) free' mapped mapped' n by (simp add: mapping_ok_def region_def)
  have closed: "closed_range ?m {h..<h + ?n}" using closed_region [OF inv(1) assms(2)] by (simp add: region_def)
  have range: "0 < h" "h + ?n \<le> 2 ^ 52" using ok by (simp_all add: entry_ok_def)
  note res = inv_row [OF assms(1) closed outm assms(8,9) tiles range listed idx pages X']
  show "blocks_inv st' Ls {h} {}" by (rule res(1))
  have row: "free_tiles h [d'] = region h d" "{h..<h + ?n} = region h d" using free' n by (simp_all add: region_def)
  have "free_cells ?m' = free_cells ?m - {h..<h + ?n} \<union> free_tiles h [d']" by (rule res(2))
  then show "free_cells ?m' = free_cells ?m \<union> region h d" unfolding row by blast
  show "used_at ?m' = (used_at ?m)(h := None)"
  proof
    fix p
    consider "p = h" | "h < p" "p < h + ?n" | "p < h \<or> h + ?n \<le> p" by fastforce
    then show "used_at ?m' p = ((used_at ?m)(h := None)) p"
    proof cases
      case 2
      then have "?m p = Jump (min (p - h) MAX_JUMP)" using inside_not_header [OF inv(1) assms(2)] assms(3) by simp
      with 2 nil [of p] show ?thesis by (simp add: used_at_def bare_def)
    next
      case 3
      then have "p \<noteq> h" using pos by auto
      with outm [OF 3] show ?thesis by (simp add: used_at_def bare_def)
    qed (use head free' in \<open>simp add: used_at_def bare_def HBLK_IS_FREE_def\<close>)
  qed
qed

section \<open>Merging with the neighbours\<close>

lemma word_add_sum: "signed_pos (word_add a b) \<Longrightarrow> a < 2 ^ 63 \<Longrightarrow> b < 2 ^ 63 \<Longrightarrow> word_add a b = a + b \<and> a + b < 2 ^ 63"
  by (simp add: signed_pos_def word_add_def)

lemma not_inside:
  assumes "layout m" and "m h = Header d" and "m (h + nblocks d) = Jump j"
  shows "j = 0"
proof (rule ccontr)
  assume "j \<noteq> 0"
  obtain g e where g: "m g = Header e" "g < h + nblocks d" "h + nblocks d < g + nblocks e" by (rule inside_jump [OF assms(1,3) \<open>j \<noteq> 0\<close>])
  have pos: "0 < nblocks d" by (rule nblocks_pos [OF layout_entry [OF assms(1,2)]])
  show False
  proof (cases "g = h")
    case True
    with g assms(2) show False by simp
  next
    case False
    from regions_disjoint [OF assms(1) g(1) assms(2) this] g(2,3) pos show False
      by (cases "g < h") (auto simp: region_def disjoint_iff)
  qed
qed

lemma next_in_list:
  assumes "blocks_inv st Ls {h} W" and "hdr_map st q = Header e" and "HBLK_IS_FREE e" and "q \<noteq> h"
  shows "q \<in> set (concat Ls)"
  using blocks_invD(6) [OF assms(1), of q] assms(2-4) by (auto simp: free_at_def)

lemma merge_next_ok:
  assumes "blocks_inv st Ls {h} {}" and "hdr_map st h = Header d" and "IS_MAPPED d"
  shows "completes (merge_next h (h + nblocks d))
    (\<lambda>_ st'. same_heap st st' \<and> (\<forall>p < h. bare (hdr_map st') p = bare (hdr_map st) p) \<and>
      (\<exists>Ls' d'. blocks_inv st' Ls' {h} {} \<and> hdr_map st' h = Header d' \<and> IS_MAPPED d')) st"
    (is "completes _ ?Q st")
proof -
  let ?q = "h + nblocks d"
  note inv = blocks_invD [OF assms(1)]
  have stay: "?Q () st" using assms same_heap_refl by blast
  have pos: "0 < nblocks d" by (rule nblocks_pos [OF layout_entry [OF inv(1) assms(2)]])
  show ?thesis
  proof (cases "hdr_map st ?q")
    case (Jump j)
    with not_inside [OF inv(1) assms(2)] stay show ?thesis by (simp add: merge_next_def wp_simps)
  next
    case (Header e)
    show ?thesis
    proof (cases "HBLK_IS_FREE e \<and> IS_MAPPED e \<and> signed_pos (word_add (hb_sz d) (hb_sz e))")
      case False
      with Header assms(2) have "merge_next h ?q st = Done st ()" by (auto simp: merge_next_def run_steps ret_def)
      with stay show ?thesis by (simp add: wp_Done)
    next
      case True
      have mem: "?q \<in> set (concat Ls)" using next_in_list [OF assms(1) Header] True pos by simp
      have sz: "hb_sz d < 2 ^ 63" "hb_sz e < 2 ^ 63" using layout_entry [OF inv(1)] assms(2) Header by (simp_all add: entry_ok_def)
      from True sz have add: "word_add (hb_sz d) (hb_sz e) = hb_sz d + hb_sz e" "hb_sz d + hb_sz e < 2 ^ 63" using word_add_sum by blast+
      let ?tail = "andthen (GC_remove_from_fl ?q) (\<lambda>_.
        andthen (upd_hdr h (\<lambda>d. d\<lparr>hb_sz := word_add (hb_sz d) (hb_sz e)\<rparr>)) (\<lambda>_. GC_remove_header ?q))"
      have run: "merge_next h ?q st = ?tail st"
        using True Header assms(2) by (simp add: merge_next_def run_steps)
      have "completes ?tail ?Q st"
        unfolding wp_andthen
      proof (rule wp_mono [OF inv_remove [OF assms(1) mem]], simp, elim conjE exE)
        fix st1 Ls1
        assume l: "only_lists st st1" and i1: "blocks_inv st1 Ls1 {?q, h} {}"
        note b = only_lists_fields [OF l]
        obtain d1 where d1: "hdr_map st1 h = Header d1" "hb_sz d1 = hb_sz d" "hb_flags d1 = hb_flags d"
          by (rule bare_Header [OF b(1) [symmetric] assms(2)])
        obtain e1 where e1: "hdr_map st1 ?q = Header e1" "hb_sz e1 = hb_sz e" "hb_flags e1 = hb_flags e"
          by (rule bare_Header [OF b(1) [symmetric] Header])
        let ?d = "d1\<lparr>hb_sz := hb_sz d + hb_sz e\<rparr>"
        let ?st = "st1\<lparr>hdr_map := (hdr_map st1)(h := Header ?d, ?q := NIL), hdr_free_list := e1 # hdr_free_list st1\<rparr>"
        have index: "has_index st1 ?q" using blocks_invD(2) [OF i1] e1(1) by (auto simp: indexed_def)
        have m: "IS_MAPPED e1 = IS_MAPPED d1" using mapped_same_flags [OF d1(3)] mapped_same_flags [OF e1(3)] True assms(3) by simp
        have join: "blocks_inv ?st Ls1 ({?q, h} - {?q}) {}" "free_cells (hdr_map ?st) = free_cells (hdr_map st1)"
            "used_at (hdr_map ?st) = used_at (hdr_map st1)"
          using d1 e1 add m pos by (intro inv_join [OF i1 d1(1) e1(1), where d' = ?d]; simp)+
        have "{?q, h} - {?q} = {h}" using pos by auto
        with join(1) have i2: "blocks_inv ?st Ls1 {h} {}" by simp
        have same: "same_heap st1 ?st" using join(2,3) by (simp add: same_heap_def elsewhere_def)
        have "IS_MAPPED ?d" using assms(3) mapped_same_flags [of ?d d] d1(3) by simp
        with i2 pos have ex: "\<exists>Ls' d'. blocks_inv ?st Ls' {h} {} \<and> hdr_map ?st h = Header d' \<and> IS_MAPPED d'"
          by (intro exI [of _ Ls1] exI [of _ ?d]) simp
        have below: "\<forall>p < h. bare (hdr_map ?st) p = bare (hdr_map st) p"
          using fun_cong [OF b(1)] by (simp add: bare_def)
        have "?Q () ?st" using same_heap_trans [OF only_lists_same [OF l] same] below ex by blast
        moreover have "andthen (upd_hdr h (\<lambda>d. d\<lparr>hb_sz := word_add (hb_sz d) (hb_sz e)\<rparr>)) (\<lambda>_. GC_remove_header ?q) st1 = Done ?st ()"
          using d1 e1 index pos add by (simp add: andthen_def upd_hdr_def GC_remove_header_def get_hdr_def modifies_def SET_HDR_def has_index_def)
        ultimately show "completes (upd_hdr h (\<lambda>d. d\<lparr>hb_sz := word_add (hb_sz d) (hb_sz e)\<rparr>))
            (\<lambda>_. completes (GC_remove_header ?q) ?Q) st1"
          unfolding wp_andthen [symmetric] by (simp add: wp_Done)
      qed
      with run show ?thesis by (simp only: wp_def)
    qed
  qed
qed

lemma merge_prev_ok:
  assumes "blocks_inv st Ls {h} {}" and "hdr_map st h = Header d" and "IS_MAPPED d"
    and "\<And>p. r = Some p \<Longrightarrow> \<exists>e. hdr_map st p = Header e \<and> HBLK_IS_FREE e \<and> p + nblocks e = h"
  shows "completes (merge_prev h r) (\<lambda>g st'. same_heap st st' \<and> (\<exists>Ls'. blocks_inv st' Ls' {g} {})) st"
    (is "completes _ ?Q st")
proof (cases r)
  case None
  with assms(1) same_heap_refl show ?thesis by (auto simp: merge_prev_def wp_simps)
next
  case (Some p)
  with assms(4) obtain e where e: "hdr_map st p = Header e" "HBLK_IS_FREE e" "p + nblocks e = h" by blast
  note inv = blocks_invD [OF assms(1)]
  have pos: "0 < nblocks e" by (rule nblocks_pos [OF layout_entry [OF inv(1) e(1)]])
  have ph: "p \<noteq> h" using pos e(3) by auto
  show ?thesis
  proof (cases "IS_MAPPED e \<and> signed_pos (word_add (hb_sz d) (hb_sz e))")
    case False
    with Some e(1) assms(2) have "merge_prev h r st = Done st h" by (auto simp: merge_prev_def run_steps ret_def)
    with assms(1) same_heap_refl show ?thesis by (auto simp: wp_Done)
  next
    case True
    have mem: "p \<in> set (concat Ls)" by (rule next_in_list [OF assms(1) e(1,2) ph])
    have sz: "hb_sz d < 2 ^ 63" "hb_sz e < 2 ^ 63" using layout_entry [OF inv(1)] assms(2) e(1) by (simp_all add: entry_ok_def)
    have add: "word_add (hb_sz e) (hb_sz d) = hb_sz e + hb_sz d" "hb_sz e + hb_sz d < 2 ^ 63"
      using word_add_sum [OF _ sz] True by (simp_all add: add.commute word_add_def)
    let ?upd = "\<lambda>gc_no. upd_hdr p (\<lambda>x. x\<lparr>hb_sz := word_add (hb_sz x) (hb_sz d), hb_last_reclaimed := of_nat gc_no\<rparr>)"
    let ?finish = "andthen (reads GC_gc_no) (\<lambda>gc_no. andthen (?upd gc_no) (\<lambda>_. andthen (GC_remove_header h) (\<lambda>_. ret p)))"
    let ?tail = "andthen (GC_remove_from_fl p) (\<lambda>_. ?finish)"
    have run: "merge_prev h r st = ?tail st" using True Some e(1) assms(2) by (simp add: merge_prev_def run_steps)
    have "completes ?tail ?Q st"
      unfolding wp_andthen [of _ _ "GC_remove_from_fl p"]
    proof (rule wp_mono [OF inv_remove [OF assms(1) mem]], simp, elim conjE exE)
      fix st1 Ls1
      assume l: "only_lists st st1" and i1: "blocks_inv st1 Ls1 {p, h} {}"
      note b = only_lists_fields [OF l]
      obtain d1 where d1: "hdr_map st1 h = Header d1" "hb_sz d1 = hb_sz d" "hb_flags d1 = hb_flags d"
        by (rule bare_Header [OF b(1) [symmetric] assms(2)])
      obtain e1 where e1: "hdr_map st1 p = Header e1" "hb_sz e1 = hb_sz e" "hb_flags e1 = hb_flags e"
        by (rule bare_Header [OF b(1) [symmetric] e(1)])
      let ?e = "e1\<lparr>hb_sz := hb_sz e + hb_sz d, hb_last_reclaimed := of_nat (GC_gc_no st1)\<rparr>"
      let ?st = "st1\<lparr>hdr_map := (hdr_map st1)(p := Header ?e, h := NIL), hdr_free_list := d1 # hdr_free_list st1\<rparr>"
      have index: "has_index st1 h" using blocks_invD(2) [OF i1] d1(1) by (auto simp: indexed_def)
      have m: "IS_MAPPED d1 = IS_MAPPED e1" using mapped_same_flags [OF d1(3)] mapped_same_flags [OF e1(3)] True assms(3) by simp
      have join: "blocks_inv ?st Ls1 ({p, h} - {h}) {}" "free_cells (hdr_map ?st) = free_cells (hdr_map st1)"
          "used_at (hdr_map ?st) = used_at (hdr_map st1)"
        using d1 e1 e(3) add m ph by (intro inv_join [OF i1 e1(1) d1(1), where d' = ?e]; simp)+
      have "{p, h} - {h} = {p}" using ph by auto
      with join(1) have i2: "blocks_inv ?st Ls1 {p} {}" by simp
      have "same_heap st1 ?st" using join(2,3) by (simp add: same_heap_def elsewhere_def)
      from same_heap_trans [OF only_lists_same [OF l] this] i2 have "?Q p ?st" by blast
      moreover have "?finish st1 = Done ?st p"
        using d1 e1 index ph add by (simp add: reads_def andthen_def upd_hdr_def GC_remove_header_def get_hdr_def modifies_def SET_HDR_def has_index_def ret_def)
      ultimately show "completes ?finish ?Q st1" by (simp add: wp_Done)
    qed
    with run show ?thesis by (simp only: wp_def)
  qed
qed

section \<open>Freeing a block\<close>

text \<open>The end of \<open>GC_freehblk\<close>, when the block has the header of a free block of \<open>n\<close> blocks but is on no list.\<close>

definition freehblk_end :: "hblk \<Rightarrow> nat \<Rightarrow> unit gc_op" where
  "freehblk_end h n =
     andthen (GC_free_block_ending_at h) (\<lambda>prev.
     andthen (merge_next h (h + n)) (\<lambda>_.
     andthen (merge_prev h prev) (\<lambda>hbp.
     andthen (modifies (\<lambda>st. st\<lparr>GC_large_free_bytes := word_add (GC_large_free_bytes st) (HBLKSIZE * n)\<rparr>)) (\<lambda>_.
     GC_add_to_fl hbp))))"

definition freed_hdr :: "gc_state \<Rightarrow> hdr \<Rightarrow> hdr" where
  "freed_hdr st d = d\<lparr>hb_sz := HBLKSIZE * nblocks d, hb_last_reclaimed := of_nat (GC_gc_no st), hb_flags := or (hb_flags d) FREE_BLK\<rparr>"

definition released :: "hblk \<Rightarrow> hdr \<Rightarrow> gc_state \<Rightarrow> gc_state" where
  "released h d st = st\<lparr>hdr_map := (\<lambda>p. if h < p \<and> p < h + nblocks d then NIL else hdr_map st p)(h := Header (freed_hdr st d))\<rparr>"

lemma freed_hdr_blocks: "nblocks (freed_hdr st d) = nblocks d"
  by (simp add: freed_hdr_def block_arith)

lemma freehblk_start:
  assumes "indexed st" and "hdr_map st h = Header d" and "\<not> HBLK_IS_FREE d"
    and "0 < hb_sz d" and "hb_sz d < 2 ^ 63" and "HBLKSIZE * nblocks d < 2 ^ 63"
  shows "GC_freehblk h st = freehblk_end h (nblocks d) (released h d st)"
proof -
  have blocks: "OBJ_SZ_TO_BLOCKS (hb_sz d) = nblocks d" using assms(5) by (rule OBJ_SZ_TO_BLOCKS_eq)
  have div: "divHBLKSZ (HBLKSIZE * nblocks d) = nblocks d" by (simp add: block_arith(1,2))
  have pos: "0 < nblocks d" by (rule blocks_of_bytes_pos [OF assms(4)])
  then have "signed_pos (HBLKSIZE * nblocks d)" using assms(6) by (simp add: signed_pos_def HBLKSIZE_def)
  with assms(2,3) show ?thesis
    unfolding GC_freehblk_def andthen_get_hdr [of st h, OF assms(2)] Let_def blocks div freehblk_end_def released_def freed_hdr_def
    by (simp add: andthen_run [of "GC_remove_counts _ _", OF remove_counts_run [OF assms(1) pos, of h]] run_steps)
qed

lemma free_header_bare:
  assumes "bare m' p = bare m p" and "m p = Header e" and "HBLK_IS_FREE e"
  shows "\<exists>e'. m' p = Header e' \<and> HBLK_IS_FREE e' \<and> hb_sz e' = hb_sz e"
proof -
  from assms(2) have "bare m p = Header (e\<lparr>hb_next := None, hb_prev := None\<rparr>)" by (simp add: bare_def)
  with assms(1) obtain e2 where e2: "m' p = Header e2" "e2\<lparr>hb_next := None, hb_prev := None\<rparr> = e\<lparr>hb_next := None, hb_prev := None\<rparr>"
    unfolding bare_def by (cases "m' p") auto
  from arg_cong [OF e2(2), of hb_sz] arg_cong [OF e2(2), of hb_flags] e2(1) assms(3) free_same_flags [of e2 e] show ?thesis by simp
qed

lemma freehblk_end_ok:
  assumes "blocks_inv st Ls {h} {}" and "hdr_map st h = Header d" and "IS_MAPPED d"
  shows "completes (freehblk_end h (nblocks d))
    (\<lambda>_ st'. (\<exists>Ls'. blocks_inv st' Ls' {} {}) \<and> used_at (hdr_map st') = used_at (hdr_map st) \<and>
      free_cells (hdr_map st') = free_cells (hdr_map st) \<and> mem_mapped st' = mem_mapped st \<and>
      GC_large_free_bytes st' = word_add (GC_large_free_bytes st) (HBLKSIZE * nblocks d) \<and> elsewhere st' = elsewhere st) st"
    (is "completes _ ?Q st")
proof -
  note inv = blocks_invD [OF assms(1)]
  obtain r where r: "GC_free_block_ending_at h st = Done st r"
      "\<And>p. r = Some p \<longleftrightarrow> (\<exists>e. hdr_map st p = Header e \<and> HBLK_IS_FREE e \<and> p + nblocks e = h)"
    using free_block_ending_at_ok [OF inv(1,2) assms(2)] by blast
  let ?rest = "\<lambda>st. st\<lparr>GC_large_free_bytes := word_add (GC_large_free_bytes st) (HBLKSIZE * nblocks d)\<rparr>"
  let ?tail = "andthen (merge_next h (h + nblocks d)) (\<lambda>_. andthen (merge_prev h r) (\<lambda>g. andthen (modifies ?rest) (\<lambda>_. GC_add_to_fl g)))"
  have run: "freehblk_end h (nblocks d) st = ?tail st"
    unfolding freehblk_end_def by (rule andthen_run [of "GC_free_block_ending_at h", OF r(1)])
  have "completes ?tail ?Q st"
    unfolding wp_andthen wp_modifies
  proof (rule wp_mono [OF merge_next_ok [OF assms]], elim conjE exE)
    fix x st2 Ls2 d2
    assume s2: "same_heap st st2" and below: "\<forall>p < h. bare (hdr_map st2) p = bare (hdr_map st) p"
      and i2: "blocks_inv st2 Ls2 {h} {}" and h2: "hdr_map st2 h = Header d2" "IS_MAPPED d2"
    have prev: "\<exists>e. hdr_map st2 p = Header e \<and> HBLK_IS_FREE e \<and> p + nblocks e = h" if "r = Some p" for p
    proof -
      from r(2) that obtain e where e: "hdr_map st p = Header e" "HBLK_IS_FREE e" "p + nblocks e = h" by blast
      from nblocks_pos [OF layout_entry [OF inv(1) e(1)]] e(3) have "p < h" by simp
      with below have "bare (hdr_map st2) p = bare (hdr_map st) p" by blast
      from free_header_bare [OF this e(1,2)] e(3) show ?thesis by auto
    qed
    show "completes (merge_prev h r) (\<lambda>g. \<lambda>st. completes (GC_add_to_fl g) ?Q (?rest st)) st2"
    proof (rule wp_mono [OF merge_prev_ok [OF i2 h2 prev]], assumption, elim conjE exE)
      fix g st3 Ls3
      assume s3: "same_heap st2 st3" and i3: "blocks_inv st3 Ls3 {g} {}"
      have i4: "blocks_inv (?rest st3) Ls3 {g} {}" by (rule blocks_inv_cong [THEN iffD2, OF _ _ _ _ _ i3]) simp_all
      from blocks_invD(6) [OF i3, of g] obtain dg where dg: "hdr_map st3 g = Header dg" "HBLK_IS_FREE dg" by (auto simp: free_at_def)
      then have mf: "mark_free g (?rest st3) = ?rest st3" by (intro mark_free_id [of _ _ dg]) simp_all
      show "completes (GC_add_to_fl g) ?Q (?rest st3)"
      proof (rule wp_mono [OF inv_add [OF _ _ _, of g "?rest st3" Ls3 "{g}" "{}" dg]], unfold mf)
        fix x st4
        assume post: "(\<exists>Ls'. blocks_inv st4 Ls' ({g} - {g}) {} \<and> set (concat Ls') = insert g (set (concat Ls3))) \<and> only_lists (?rest st3) st4"
        have "same_heap st st3" by (rule same_heap_trans [OF s2 s3])
        moreover have "same_heap (?rest st3) st4" using post only_lists_same by blast
        moreover have "elsewhere (?rest st3) = elsewhere st3" by (simp add: elsewhere_def)
        moreover have "\<exists>Ls'. blocks_inv st4 Ls' {} {}" using post by auto
        ultimately show "?Q x st4" by (simp add: same_heap_def)
      qed (use i4 dg in simp_all)
    qed
  qed
  with run show ?thesis by (simp only: wp_def)
qed

lemma freehblk_ok:
  assumes "heap_ok st" and "hdr_map st h = Header d" and "\<not> HBLK_IS_FREE d"
  shows "completes (GC_freehblk h)
    (\<lambda>_ st'. heap_ok st' \<and> used_at (hdr_map st') = (used_at (hdr_map st))(h := None) \<and>
      free_cells (hdr_map st') = free_cells (hdr_map st) \<union> region h d \<and> mem_mapped st' = mem_mapped st \<and>
      elsewhere st' = elsewhere st) st"
    (is "completes _ ?Q st")
proof -
  let ?m = "hdr_map st" and ?d = "freed_hdr st d" and ?st = "released h d st"
  from assms(1) obtain Ls where Ls: "blocks_inv st Ls {} {}" and bytes: "GC_large_free_bytes st = card (free_cells ?m) * HBLKSIZE"
    and small: "\<And>g e. used_at ?m g = Some e \<Longrightarrow> HBLKSIZE * nblocks e < 2 ^ 63" by (auto simp: heap_ok_def)
  note inv = blocks_invD [OF Ls]
  have ok: "entry_ok ?m h d" by (rule layout_entry [OF inv(1) assms(2)])
  have "used_at ?m h = Some (d\<lparr>hb_next := None, hb_prev := None\<rparr>)" using assms(2,3) by (simp add: used_at_def bare_def HBLK_IS_FREE_def)
  from small [OF this] have bound: "HBLKSIZE * nblocks d < 2 ^ 63" by simp
  have rel: "blocks_inv ?st Ls {h} {}" "free_cells (hdr_map ?st) = free_cells ?m \<union> region h d"
      "used_at (hdr_map ?st) = (used_at ?m)(h := None)" "HBLK_IS_FREE ?d" "IS_MAPPED ?d"
    using bound by (intro inv_release [OF Ls assms(2,3), where st' = ?st and d' = ?d]; simp add: released_def freed_hdr_def)+
  have run: "GC_freehblk h st = freehblk_end h (nblocks d) ?st"
    using ok bound by (intro freehblk_start [OF inv(2) assms(2,3)]) (simp_all add: entry_ok_def)
  have "completes (freehblk_end h (nblocks d)) ?Q ?st"
  proof (rule wp_mono [OF freehblk_end_ok [OF rel(1) _ rel(5), unfolded freed_hdr_blocks]], simp add: released_def, elim conjE exE)
    fix x st' Ls'
    assume i: "blocks_inv st' Ls' {} {}" and u: "used_at (hdr_map st') = used_at (hdr_map ?st)"
      and f: "free_cells (hdr_map st') = free_cells (hdr_map ?st)" and mem: "mem_mapped st' = mem_mapped ?st"
      and l: "GC_large_free_bytes st' = word_add (GC_large_free_bytes ?st) (HBLKSIZE * nblocks d)" and e: "elsewhere st' = elsewhere ?st"
    have "card (free_cells (hdr_map st')) = card (free_cells ?m) + nblocks d"
      using f rel(2) region_used_not_free [OF inv(1) assms(2,3)] free_cells_card(1) [OF inv(1)]
      by (subst f, subst rel(2), subst card_Un_disjoint) (auto simp: region_def)
    moreover have "card (free_cells (hdr_map st')) < 2 ^ 52" by (rule free_cells_card(2) [OF blocks_invD(1) [OF i]])
    ultimately have "GC_large_free_bytes st' = card (free_cells (hdr_map st')) * HBLKSIZE"
      using l bytes by (simp add: word_add_def released_def HBLKSIZE_def)
    moreover have "HBLKSIZE * nblocks y < 2 ^ 63" if "used_at (hdr_map st') g = Some y" for g y
      using that small [of g y] unfolding u rel(3) by (simp split: if_splits)
    ultimately have "heap_ok st'" using i unfolding heap_ok_def by blast
    with u f mem e rel(2,3) show "?Q x st'" by (simp add: released_def elsewhere_def)
  qed
  with run show ?thesis by (simp only: wp_def)
qed

end
