(* ===== verification/Gc_Heap.thy ===== *)
theory Gc_Heap
  imports Gc_Release
begin

text \<open>
  Extending the heap, and the empty heap: \<open>GC_add_to_heap\<close> of \<open>alloc.c\<close>. The memory for headers and bottom indices
  may run out; then the heap stays as it is.
\<close>

section \<open>Installing a header\<close>

lemma sorted_insort_key:
  fixes k :: nat
  shows "sorted_wrt (<) B \<Longrightarrow> k \<notin> set B \<Longrightarrow> sorted_wrt (<) (insort k B)"
  by (simp add: strict_sorted_iff sorted_insort distinct_insort)

lemma get_index_cases:
  assumes "sorted_wrt (<) (bottom_indices st)"
  obtains B r where "get_index h st = Done (st\<lparr>bottom_indices := B, mem_requests := r\<rparr>) True"
      and "sorted_wrt (<) B" and "set B = insert (h div BOTTOM_SZ) (set (bottom_indices st))"
  | r where "get_index h st = Done (st\<lparr>mem_requests := r\<rparr>) False" and "\<not> (\<forall>n. mem_answers st n)"
proof (cases "has_index st h")
  case True
  then have run: "get_index h st = Done (st\<lparr>bottom_indices := bottom_indices st, mem_requests := mem_requests st\<rparr>) True"
    by (simp add: get_index_def run_steps ret_def)
  from True have "set (bottom_indices st) = insert (h div BOTTOM_SZ) (set (bottom_indices st))" by (auto simp: has_index_def)
  with run assms that(1) show ?thesis by blast
next
  case False
  let ?B = "insort (h div BOTTOM_SZ) (bottom_indices st)" and ?r = "mem_requests st + 1"
  show ?thesis
  proof (cases "mem_answers st (mem_requests st)")
    case True
    with False have "get_index h st = Done (st\<lparr>bottom_indices := ?B, mem_requests := ?r\<rparr>) True"
      by (simp add: get_index_def andthen_def reads_def GC_scratch_alloc_def modifies_def ret_def)
    with that(1) sorted_insort_key [OF assms] False show ?thesis by (simp add: has_index_def set_insort_key)
  next
    case no: False
    with False have "get_index h st = Done (st\<lparr>mem_requests := ?r\<rparr>) False"
      by (simp add: get_index_def andthen_def reads_def GC_scratch_alloc_def ret_def)
    with no that(2) show ?thesis by blast
  qed
qed

lemma alloc_hdr_cases:
  obtains F r d where "alloc_hdr st = Done (st\<lparr>hdr_free_list := F, mem_requests := r\<rparr>) (Some d)"
  | r where "alloc_hdr st = Done (st\<lparr>mem_requests := r\<rparr>) None" and "\<not> (\<forall>n. mem_answers st n)"
proof (cases "hdr_free_list st")
  case (Cons d F)
  then have "alloc_hdr st = Done (st\<lparr>hdr_free_list := F, mem_requests := mem_requests st\<rparr>) (Some d)"
    by (simp add: alloc_hdr_def andthen_def reads_def modifies_def ret_def)
  with that(1) show ?thesis by blast
next
  case Nil
  show ?thesis
  proof (cases "mem_answers st (mem_requests st)")
    case True
    with Nil have "alloc_hdr st = Done (st\<lparr>hdr_free_list := hdr_free_list st, mem_requests := mem_requests st + 1\<rparr>) (Some zero_hdr)"
      by (simp add: alloc_hdr_def andthen_def reads_def GC_scratch_alloc_def ret_def)
    with that(1) show ?thesis by blast
  next
    case False
    with Nil have "alloc_hdr st = Done (st\<lparr>mem_requests := mem_requests st + 1\<rparr>) None"
      by (simp add: alloc_hdr_def andthen_def reads_def GC_scratch_alloc_def ret_def)
    with False that(2) show ?thesis by blast
  qed
qed

lemma install_header_cases:
  assumes "sorted_wrt (<) (bottom_indices st)"
  obtains B F r d where "GC_install_header h st =
      Done (st\<lparr>bottom_indices := B, hdr_free_list := F, mem_requests := r, hdr_map := (hdr_map st)(h := Header d)\<rparr>) True"
      and "sorted_wrt (<) B" and "set B = insert (h div BOTTOM_SZ) (set (bottom_indices st))"
  | B r where "GC_install_header h st = Done (st\<lparr>bottom_indices := B, mem_requests := r\<rparr>) False"
      and "sorted_wrt (<) B" and "set (bottom_indices st) \<subseteq> set B" and "\<not> (\<forall>n. mem_answers st n)"
proof (rule get_index_cases [OF assms, of h])
  fix r assume r: "get_index h st = Done (st\<lparr>mem_requests := r\<rparr>) False" "\<not> (\<forall>n. mem_answers st n)"
  then have "GC_install_header h st = Done (st\<lparr>bottom_indices := bottom_indices st, mem_requests := r\<rparr>) False"
    by (simp add: GC_install_header_def andthen_def ret_def)
  with assms r(2) that(2) show ?thesis by blast
next
  fix B r assume B: "get_index h st = Done (st\<lparr>bottom_indices := B, mem_requests := r\<rparr>) True"
    "sorted_wrt (<) B" "set B = insert (h div BOTTOM_SZ) (set (bottom_indices st))"
  let ?st = "st\<lparr>bottom_indices := B, mem_requests := r\<rparr>"
  show ?thesis
  proof (rule alloc_hdr_cases [of ?st])
    fix r' assume "alloc_hdr ?st = Done (?st\<lparr>mem_requests := r'\<rparr>) None" and no: "\<not> (\<forall>n. mem_answers ?st n)"
    with B(1) have "GC_install_header h st = Done (st\<lparr>bottom_indices := B, mem_requests := r'\<rparr>) False"
      by (simp add: GC_install_header_def andthen_def ret_def)
    with that(2) [OF this B(2)] B(3) no show ?thesis by auto
  next
    fix F r' d assume "alloc_hdr ?st = Done (?st\<lparr>hdr_free_list := F, mem_requests := r'\<rparr>) (Some d)"
    with B have "GC_install_header h st = Done (st\<lparr>bottom_indices := B, hdr_free_list := F, mem_requests := r',
        hdr_map := (hdr_map st)(h := Header (d\<lparr>hb_last_reclaimed := of_nat (GC_gc_no st)\<rparr>))\<rparr>) True"
      by (simp add: GC_install_header_def andthen_def ret_def SET_HDR_def has_index_def reads_def upd_hdr_def)
    with that(1) B(2,3) show ?thesis by blast
  qed
qed

text \<open>More bottom indices do no harm.\<close>

lemma heap_ok_indices:
  assumes "heap_ok st" and "sorted_wrt (<) B" and "set (bottom_indices st) \<subseteq> set B"
  shows "heap_ok (st\<lparr>bottom_indices := B, mem_requests := r\<rparr>)"
proof -
  from assms(1) obtain Ls where "blocks_inv st Ls {} {}" by (auto simp: heap_ok_def)
  with assms(2,3) have "blocks_inv (st\<lparr>bottom_indices := B, mem_requests := r\<rparr>) Ls {} {}"
    by (auto simp: blocks_inv_def indexed_def has_index_def lists_ok_def mapping_ok_def)
  with assms(1) show ?thesis by (auto simp: heap_ok_def)
qed

section \<open>The empty heap\<close>

lemma heap_ok_start: "heap_ok gc_start"
proof -
  let ?Ls = "replicate 61 [] :: hblk list list"
  have "layout (hdr_map gc_start)" "indexed gc_start" "mapping_ok gc_start"
    by (simp_all add: layout_def indexed_def mapping_ok_def gc_start_def)
  moreover have "lists_ok gc_start ?Ls" by (simp add: lists_ok_def gc_start_def concat_replicate_trivial)
  moreover have "\<not> free_at (hdr_map gc_start) h" for h by (simp add: free_at_def gc_start_def)
  ultimately have "blocks_inv gc_start ?Ls {} {}" by (simp add: blocks_inv_def concat_replicate_trivial)
  moreover have "free_cells (hdr_map gc_start) = {}" "used_at (hdr_map gc_start) h = None" for h
    by (simp_all add: free_cells_def gc_start_def used_at_def bare_def)
  moreover have "GC_large_free_bytes gc_start = 0" by (simp add: gc_start_def)
  ultimately show ?thesis unfolding heap_ok_def by fastforce
qed

section \<open>New memory\<close>

text \<open>A range of blocks that are mapped and belong to no block of the heap.\<close>

definition fresh_range :: "gc_state \<Rightarrow> hblk \<Rightarrow> nat \<Rightarrow> bool" where
  "fresh_range st p n \<longleftrightarrow>
     2 \<le> p \<and> 0 < n \<and> p + n < 2 ^ 52 \<and> HBLKSIZE * n < 2 ^ 63 \<and> (\<forall>q. p \<le> q \<and> q < p + n \<longrightarrow> mem_mapped st q) \<and>
     (\<forall>g e. hdr_map st g = Header e \<longrightarrow> region g e \<inter> {p..<p + n} = {})"

lemma fresh_empty:
  assumes "layout (hdr_map st)" and "fresh_range st p n" and "p \<le> q" and "q < p + n"
  shows "hdr_map st q = NIL"
proof (cases "hdr_map st q")
  case (Header e)
  with assms region_start [OF layout_entry [OF assms(1) Header]] show ?thesis by (fastforce simp: fresh_range_def)
next
  case (Jump j)
  show ?thesis
  proof (cases "j = 0")
    case False
    obtain g e where g: "hdr_map st g = Header e" "g < q" "q < g + nblocks e" by (rule inside_jump [OF assms(1) Jump False])
    then have "q \<in> region g e \<inter> {p..<p + n}" using assms(3,4) by (simp add: region_def)
    with assms(2) g(1) show ?thesis by (auto simp: fresh_range_def)
  qed (simp add: Jump)
qed

lemma inv_extend:
  assumes "blocks_inv st Ls {} {}" and "fresh_range st p n"
    and "hdr_map st' = (hdr_map st)(p := Header d)" and "hb_sz d = HBLKSIZE * n" and "HBLK_IS_FREE d" and "IS_MAPPED d"
    and "GC_hblkfreelist st' = GC_hblkfreelist st" and "GC_free_bytes st' = GC_free_bytes st" and "mem_mapped st' = mem_mapped st"
    and "sorted_wrt (<) (bottom_indices st')" and "set (bottom_indices st') = insert (p div BOTTOM_SZ) (set (bottom_indices st))"
  shows "blocks_inv st' Ls {p} {}" and "free_cells (hdr_map st') = free_cells (hdr_map st) \<union> {p..<p + n}"
    and "used_at (hdr_map st') = used_at (hdr_map st)"
proof -
  let ?m = "hdr_map st" and ?m' = "hdr_map st'"
  note inv = blocks_invD [OF assms(1)]
  note empty = fresh_empty [OF inv(1) assms(2)]
  have n: "nblocks d = n" "0 < n" "0 < p" "p + n \<le> 2 ^ 52" "HBLKSIZE * n < 2 ^ 63"
    using assms(2,4) by (simp_all add: fresh_range_def block_arith)
  have inR: "q = p \<and> x = d" if "p \<le> q" "q < p + n" "?m' q = Header x" for q x
    using empty [OF that(1,2)] that(3) unfolding assms(3) by (cases "q = p") auto
  have closed: "closed_range ?m {p..<p + n}" using assms(2) by (simp add: closed_range_def fresh_range_def)
  have out: "?m' q = ?m q \<and> mem_mapped st' q = mem_mapped st q" if "q < p \<or> p + n \<le> q" for q
    using that n(2) unfolding assms(3,9) by auto
  have inner: "?m' (p + k) = NIL" if "0 < k" "k < n" for k using empty [of "p + k"] that unfolding assms(3) by simp
  then have tiles: "laid ?m' p [d]" "n = row_blocks [d]" "\<forall>d \<in> set [d]. tile_ok d"
    using n assms(3-5) by (auto simp: tile_ok_def HBLKSIZE_def)
  have listed: "g < p \<or> p + n \<le> g" if g: "g \<in> set (concat Ls)" for g
  proof -
    obtain x where "?m g = Header x" using inv(6) [of g] g by (auto simp: free_at_def)
    with empty [of g] show ?thesis by fastforce
  qed
  have idx: "indexed st'" using inv(2) assms(10,11) unfolding indexed_def has_index_def assms(3) by auto
  have pages: "(HBLK_IS_FREE x \<or> IS_MAPPED x) \<and> (\<forall>r. r \<in> region q x \<longrightarrow> mem_mapped st' r = IS_MAPPED x)"
    if "p \<le> q" "q < p + n" "?m' q = Header x" for q x
    using inR [OF that] assms(2,5,6,9) n(1) by (simp add: fresh_range_def region_def)
  have X': "{p} = {q. if q < p \<or> p + n \<le> q then q \<in> {} else free_at ?m' q}"
  proof -
    have "free_at ?m' q \<longleftrightarrow> q = p" if "p \<le> q" "q < p + n" for q
    proof
      assume "free_at ?m' q"
      then obtain x where "?m' q = Header x" unfolding free_at_def by blast
      from inR [OF that this] show "q = p" ..
    next
      assume "q = p"
      with assms(3,5) show "free_at ?m' q" by (simp add: free_at_def)
    qed
    with n(2) show ?thesis by auto
  qed
  note res = inv_row [OF assms(1) closed out assms(7,8) tiles n(3,4) listed idx pages X']
  show "blocks_inv st' Ls {p} {}" by (rule res(1))
  have "free_cells ?m' = free_cells ?m - {p..<p + n} \<union> free_tiles p [d]" by (rule res(2))
  moreover have "free_tiles p [d] = {p..<p + n}" using assms(5) n(1) by (simp add: region_def)
  ultimately show "free_cells ?m' = free_cells ?m \<union> {p..<p + n}" by blast
  show "used_at ?m' = used_at ?m"
    using empty [of p] n(2) assms(5) unfolding assms(3) by (auto simp: used_at_def bare_def fun_eq_iff HBLK_IS_FREE_def)
qed

lemma skip_low_id: "2 \<le> p \<Longrightarrow> skip_low p bytes = Some (p, bytes)"
  by (simp add: skip_low.simps HBLKSIZE_def)

lemma add_to_heap_ok:
  assumes "heap_ok st" and "fresh_range st p n" and "length (GC_heap_sects st) < MAX_HEAP_SECTS"
  shows "completes (GC_add_to_heap p (HBLKSIZE * n))
    (\<lambda>_ st'. heap_ok st' \<and> used_at (hdr_map st') = used_at (hdr_map st) \<and> mem_mapped st' = mem_mapped st \<and> mem_answers st' = mem_answers st \<and>
      (if GC_heap_sects st' = GC_heap_sects st
       then free_cells (hdr_map st') = free_cells (hdr_map st) \<and> GC_heapsize st' = GC_heapsize st \<and> \<not> (\<forall>n. mem_answers st n)
       else free_cells (hdr_map st') = free_cells (hdr_map st) \<union> {p..<p + n} \<and> GC_heapsize st' = word_add (GC_heapsize st) (HBLKSIZE * n) \<and>
         GC_heap_sects st' = GC_heap_sects st @ [(p, HBLKSIZE * n)])) st"
    (is "completes _ ?Q st")
proof -
  let ?m = "hdr_map st" and ?b = "HBLKSIZE * n"
  from assms(1) obtain Ls where Ls: "blocks_inv st Ls {} {}" and bytes: "GC_large_free_bytes st = card (free_cells ?m) * HBLKSIZE"
    and small: "\<And>g e. used_at ?m g = Some e \<Longrightarrow> HBLKSIZE * nblocks e < 2 ^ 63" by (auto simp: heap_ok_def)
  note inv = blocks_invD [OF Ls]
  have p: "2 \<le> p" "0 < n" "p + n < 2 ^ 52" "?b < 2 ^ 63" using assms(2) by (simp_all add: fresh_range_def)
  let ?e = "p * HBLKSIZE + ?b"
  have endp: "word_add (p * HBLKSIZE) ?b = ?e" "\<not> ?e \<le> p * HBLKSIZE"
    using p by (simp_all add: word_add_def HBLKSIZE_def)
  let ?after = "\<lambda>ok. if \<not> ok then ret () else
    andthen (modifies (\<lambda>st. st\<lparr>GC_heap_sects := GC_heap_sects st @ [(p, ?b)]\<rparr>)) (\<lambda>_.
    andthen (upd_hdr p (\<lambda>d. d\<lparr>hb_sz := ?b, hb_flags := 0\<rparr>)) (\<lambda>_.
    andthen (GC_freehblk p) (\<lambda>_. modifies (heap_extended p ?b ?e))))"
  have start: "GC_add_to_heap p ?b st = andthen (GC_install_header p) ?after st"
    using assms(3) endp by (simp add: GC_add_to_heap_def run_steps skip_low_id [OF p(1)] Let_def cong: if_cong)
  show ?thesis
  proof (rule install_header_cases [of st p])
    show "sorted_wrt (<) (bottom_indices st)" using inv(2) by (simp add: indexed_def)
  next
    fix B r assume i: "GC_install_header p st = Done (st\<lparr>bottom_indices := B, mem_requests := r\<rparr>) False"
      "sorted_wrt (<) B" "set (bottom_indices st) \<subseteq> set B" "\<not> (\<forall>n. mem_answers st n)"
    have "GC_add_to_heap p ?b st = Done (st\<lparr>bottom_indices := B, mem_requests := r\<rparr>) ()"
      unfolding start andthen_run [of "GC_install_header p", OF i(1)] by (simp add: ret_def)
    with heap_ok_indices [OF assms(1) i(2,3)] i(4) show ?thesis by (auto simp: wp_Done)
  next
    fix B F r d assume i: "GC_install_header p st =
        Done (st\<lparr>bottom_indices := B, hdr_free_list := F, mem_requests := r, hdr_map := ?m(p := Header d)\<rparr>) True"
      "sorted_wrt (<) B" "set B = insert (p div BOTTOM_SZ) (set (bottom_indices st))"
    let ?d = "d\<lparr>hb_sz := ?b, hb_flags := 0\<rparr>"
    let ?st = "st\<lparr>bottom_indices := B, hdr_free_list := F, mem_requests := r, GC_heap_sects := GC_heap_sects st @ [(p, ?b)],
      hdr_map := ?m(p := Header ?d)\<rparr>"
    let ?st2 = "released p ?d ?st"
    have run: "GC_add_to_heap p ?b st = andthen (GC_freehblk p) (\<lambda>_. modifies (heap_extended p ?b ?e)) ?st"
      unfolding start andthen_run [of "GC_install_header p", OF i(1)] by (simp add: run_steps)
    have nd: "nblocks ?d = n" by (simp add: block_arith)
    have idx: "indexed ?st" using inv(2) i(2,3) by (auto simp: indexed_def has_index_def)
    have free: "GC_freehblk p ?st = freehblk_end p n ?st2"
      using freehblk_start [OF idx, of p ?d] p unfolding nd by (simp add: HBLK_IS_FREE_def HBLKSIZE_def)
    have clear: "hdr_map ?st2 = ?m(p := Header (freed_hdr ?st ?d))"
      using fresh_empty [OF inv(1) assms(2)] unfolding released_def nd by (auto simp: fun_eq_iff)
    have fh: "HBLK_IS_FREE (freed_hdr ?st ?d)" "IS_MAPPED (freed_hdr ?st ?d)" "hb_sz (freed_hdr ?st ?d) = ?b"
      using nd by (simp_all add: freed_hdr_def free_flag mapped_flag bit_simps flag_bits)
    have ext: "blocks_inv ?st2 Ls {p} {}" "free_cells (hdr_map ?st2) = free_cells ?m \<union> {p..<p + n}" "used_at (hdr_map ?st2) = used_at ?m"
      using i(2,3) by (intro inv_extend [OF Ls assms(2) clear fh(3,1,2)]; simp add: released_def)+
    have "completes (freehblk_end p n) (\<lambda>_ st'. ?Q () (heap_extended p ?b ?e st')) ?st2"
    proof (rule wp_mono [OF freehblk_end_ok [OF ext(1) _ fh(2), unfolded freed_hdr_blocks nd]], simp add: clear, elim conjE exE)
      fix x st' Ls'
      assume i': "blocks_inv st' Ls' {} {}" and u: "used_at (hdr_map st') = used_at (hdr_map ?st2)"
        and f: "free_cells (hdr_map st') = free_cells (hdr_map ?st2)" and mem: "mem_mapped st' = mem_mapped ?st2"
        and l: "GC_large_free_bytes st' = word_add (GC_large_free_bytes ?st2) ?b" and e: "elsewhere st' = elsewhere ?st2"
      have "free_cells ?m \<inter> {p..<p + n} = {}" using assms(2) by (fastforce simp: free_cells_def fresh_range_def)
      then have "card (free_cells (hdr_map st')) = card (free_cells ?m) + n"
        using free_cells_card(1) [OF inv(1)] unfolding f ext(2) by (simp add: card_Un_disjoint)
      moreover have "card (free_cells (hdr_map st')) < 2 ^ 52" by (rule free_cells_card(2) [OF blocks_invD(1) [OF i']])
      ultimately have "GC_large_free_bytes st' = card (free_cells (hdr_map st')) * HBLKSIZE"
        using l bytes by (simp add: word_add_def released_def HBLKSIZE_def)
      with i' small u ext(3) have ok: "heap_ok st'" unfolding heap_ok_def by metis
      have ok': "heap_ok (heap_extended p ?b ?e st')"
        by (rule heap_ok_cong [THEN iffD2, OF _ _ _ _ _ _ ok]) (simp_all add: heap_extended_def Let_def)
      have same: "mem_answers st' = mem_answers st" "GC_heapsize st' = GC_heapsize st" "GC_heap_sects st' = GC_heap_sects st @ [(p, ?b)]"
        using arg_cong [OF e, of mem_answers] arg_cong [OF e, of GC_heapsize] arg_cong [OF e, of GC_heap_sects]
        by (simp_all add: elsewhere_def released_def)
      with ok' u f mem ext(2,3) show "?Q () (heap_extended p ?b ?e st')"
        by (simp add: heap_extended_def Let_def released_def)
    qed
    then have "completes (andthen (GC_freehblk p) (\<lambda>_. modifies (heap_extended p ?b ?e))) ?Q ?st"
      using free unfolding wp_andthen wp_modifies by (simp only: wp_def)
    with run show ?thesis by (simp only: wp_def)
  qed
qed

end
