(* ===== verification/Gc_Counts.thy ===== *)
theory Gc_Counts
  imports Gc_Heap
begin

text \<open>
  The headers of blocks in use: \<open>GC_install_counts\<close> of \<open>headers.c\<close> and \<open>setup_header\<close> of \<open>allchblk.c\<close>, when the memory
  for the collector's own structures does not run out.
\<close>

definition supplied :: "gc_state \<Rightarrow> bool" where
  "supplied st \<longleftrightarrow> (\<forall>n. mem_answers st n) \<and> length (GC_obj_map st) = 129"

section \<open>Bottom indices for a range\<close>

lemma get_index_supplied:
  assumes "sorted_wrt (<) (bottom_indices st)" and "\<forall>n. mem_answers st n"
  obtains B r where "get_index h st = Done (st\<lparr>bottom_indices := B, mem_requests := r\<rparr>) True"
    and "sorted_wrt (<) B" and "set B = insert (h div BOTTOM_SZ) (set (bottom_indices st))"
  using get_index_cases [OF assms(1), of h] assms(2) by metis

text \<open>The loop visits every \<open>BOTTOM_SZ\<close>-th block of the range.\<close>

lemma index_loop_ok:
  assumes "sorted_wrt (<) (bottom_indices st)" and "\<forall>n. mem_answers st n"
    and "h + n \<le> 2 ^ 52" and "h + n < fuel + hbp" and "0 < fuel"
  shows "\<exists>B r. index_loop fuel hbp h (HBLKSIZE * n) st = Done (st\<lparr>bottom_indices := B, mem_requests := r\<rparr>) True \<and>
    sorted_wrt (<) B \<and> set (bottom_indices st) \<subseteq> set B \<and>
    (\<forall>i. hbp + BOTTOM_SZ * i < h + n \<longrightarrow> (hbp + BOTTOM_SZ * i) div BOTTOM_SZ \<in> set B)"
  using assms
proof (induction fuel arbitrary: hbp st)
  case 0
  then show ?case by simp
next
  case (Suc fuel)
  show ?case
  proof (cases "hbp < h + n")
    case False
    then have "index_loop (Suc fuel) hbp h (HBLKSIZE * n) st = Done (st\<lparr>bottom_indices := bottom_indices st, mem_requests := mem_requests st\<rparr>) True"
      by (simp add: block_arith ret_def)
    moreover have "\<not> hbp + BOTTOM_SZ * i < h + n" for i using False by simp
    ultimately show ?thesis using Suc.prems(1) by (intro exI [of _ "bottom_indices st"] exI [of _ "mem_requests st"]) auto
  next
    case True
    obtain B r where B: "get_index hbp st = Done (st\<lparr>bottom_indices := B, mem_requests := r\<rparr>) True"
        "sorted_wrt (<) B" "set B = insert (hbp div BOTTOM_SZ) (set (bottom_indices st))"
      by (rule get_index_supplied [OF Suc.prems(1,2)])
    let ?st = "st\<lparr>bottom_indices := B, mem_requests := r\<rparr>"
    have step: "index_loop (Suc fuel) hbp h (HBLKSIZE * n) st =
        (if GC_WORD_MAX - BOTTOM_SZ * HBLKSIZE < hbp * HBLKSIZE then ret True else index_loop fuel (hbp + BOTTOM_SZ) h (HBLKSIZE * n)) ?st"
      using True B(1) by (simp add: block_arith andthen_def)
    show ?thesis
    proof (cases "GC_WORD_MAX - BOTTOM_SZ * HBLKSIZE < hbp * HBLKSIZE")
      case last: True
      then have "h + n \<le> hbp + BOTTOM_SZ" using Suc.prems(3) by (simp add: GC_WORD_MAX_def block_arith)
      then have "i = 0" if "hbp + BOTTOM_SZ * i < h + n" for i using that by (cases i) auto
      then have keys: "\<forall>i. hbp + BOTTOM_SZ * i < h + n \<longrightarrow> (hbp + BOTTOM_SZ * i) div BOTTOM_SZ \<in> set B" using B(3) by fastforce
      have "index_loop (Suc fuel) hbp h (HBLKSIZE * n) st = Done ?st True" unfolding step using last by (simp add: ret_def)
      with B(2,3) keys show ?thesis by (intro exI [of _ B] exI [of _ r]) auto
    next
      case more: False
      have pre: "sorted_wrt (<) (bottom_indices ?st)" "\<forall>n. mem_answers ?st n" "h + n < fuel + (hbp + BOTTOM_SZ)" "0 < fuel"
        using Suc.prems B(2) True by (simp_all add: block_arith)
      from Suc.IH [OF pre(1,2) Suc.prems(3) pre(3,4)]
      obtain B' r' where B': "index_loop fuel (hbp + BOTTOM_SZ) h (HBLKSIZE * n) ?st = Done (?st\<lparr>bottom_indices := B', mem_requests := r'\<rparr>) True"
          "sorted_wrt (<) B'" "set B \<subseteq> set B'"
          "\<And>i. hbp + BOTTOM_SZ + BOTTOM_SZ * i < h + n \<Longrightarrow> (hbp + BOTTOM_SZ + BOTTOM_SZ * i) div BOTTOM_SZ \<in> set B'"
        by auto
      have "(hbp + BOTTOM_SZ * i) div BOTTOM_SZ \<in> set B'" if "hbp + BOTTOM_SZ * i < h + n" for i
        using that B'(3,4) B(3) by (cases i) (auto simp: add.assoc)
      moreover have "index_loop (Suc fuel) hbp h (HBLKSIZE * n) st = Done (st\<lparr>bottom_indices := B', mem_requests := r'\<rparr>) True"
        unfolding step using more B'(1) by simp
      ultimately show ?thesis using B'(2,3) B(3) by (intro exI [of _ B'] exI [of _ r']) auto
    qed
  qed
qed

lemma key_covered:
  assumes "\<And>i. h + BOTTOM_SZ * i < h + n \<Longrightarrow> (h + BOTTOM_SZ * i) div BOTTOM_SZ \<in> K" and "(h + n - 1) div BOTTOM_SZ \<in> K"
    and "h \<le> q" and "q < h + n"
  shows "q div BOTTOM_SZ \<in> K"
proof -
  let ?i = "(q - h) div 1024"
  have i: "h + 1024 * ?i \<le> q" "q < h + 1024 * (?i + 1)" using assms(3) by auto
  show ?thesis
  proof (cases "q div 1024 = (h + 1024 * ?i) div 1024")
    case True
    with assms(1) [of ?i] i assms(4) show ?thesis by (simp add: block_arith)
  next
    case False
    have "q div 1024 = (a + 1024) div 1024" if "a \<le> q" "q < a + 1024" "q div 1024 \<noteq> a div 1024" for a
    proof -
      have "a div 1024 \<le> q div 1024" "q div 1024 \<le> (a + 1024) div 1024" using that(1,2) by (simp_all add: div_le_mono)
      moreover have "(a + 1024) div 1024 = a div 1024 + 1" by simp
      ultimately show ?thesis using that(3) by linarith
    qed
    from this [of "h + 1024 * ?i"] i False have key: "q div 1024 = (h + 1024 * (?i + 1)) div 1024" by (simp add: algebra_simps)
    show ?thesis
    proof (cases "h + 1024 * (?i + 1) < h + n")
      case True
      with assms(1) [of "?i + 1"] key show ?thesis by (simp add: block_arith)
    next
      case no: False
      have "q div 1024 \<le> (h + n - 1) div 1024" using assms(4) by (intro div_le_mono) simp
      moreover have "(h + n - 1) div 1024 \<le> (h + 1024 * (?i + 1)) div 1024" using no by (intro div_le_mono) simp
      ultimately show ?thesis using key assms(2) by (simp add: block_arith)
    qed
  qed
qed

lemma count_loop_run:
  assumes "\<And>q. h + k \<le> q \<Longrightarrow> q < h + k + n \<Longrightarrow> has_index st q"
  shows "count_loop h k n st =
    Done (st\<lparr>hdr_map := (\<lambda>p. if h + k \<le> p \<and> p < h + k + n then Jump (min (p - h) MAX_JUMP) else hdr_map st p)\<rparr>) ()"
  using assms
proof (induction n arbitrary: k st)
  case 0
  have "(\<lambda>p. if h + k \<le> p \<and> p < h + k + 0 then Jump (min (p - h) MAX_JUMP) else hdr_map st p) = hdr_map st" by (rule ext) auto
  then show ?case by (simp add: ret_def)
next
  case (Suc n)
  let ?st = "st\<lparr>hdr_map := (hdr_map st)(h + k := Jump (min k MAX_JUMP))\<rparr>"
  have "SET_HDR (h + k) (Jump (if MAX_JUMP < k then MAX_JUMP else k)) st = Done ?st ()"
    using Suc.prems [of "h + k"] by (simp add: SET_HDR_def min_def)
  moreover have "has_index ?st q" if "h + (k + 1) \<le> q" "q < h + (k + 1) + n" for q
    using Suc.prems [of q] that by (simp add: has_index_def)
  moreover have "(\<lambda>p. if h + (k + 1) \<le> p \<and> p < h + (k + 1) + n then Jump (min (p - h) MAX_JUMP) else hdr_map ?st p) =
      (\<lambda>p. if h + k \<le> p \<and> p < h + k + Suc n then Jump (min (p - h) MAX_JUMP) else hdr_map st p)" by (rule ext) auto
  ultimately show ?case using Suc.IH [of "k + 1" ?st] by (simp add: andthen_run)
qed

lemma install_counts_ok:
  assumes "sorted_wrt (<) (bottom_indices st)" and "\<forall>n. mem_answers st n" and "h + n \<le> 2 ^ 52" and "0 < n"
  obtains B r where "GC_install_counts h (HBLKSIZE * n) st = Done (st\<lparr>bottom_indices := B, mem_requests := r,
      hdr_map := (\<lambda>p. if h < p \<and> p < h + n then Jump (min (p - h) MAX_JUMP) else hdr_map st p)\<rparr>) True"
    and "sorted_wrt (<) B" and "set (bottom_indices st) \<subseteq> set B" and "\<And>q. h \<le> q \<Longrightarrow> q < h + n \<Longrightarrow> q div BOTTOM_SZ \<in> set B"
proof -
  have "h + n < HBLKSIZE * n + 1 + h" "0 < HBLKSIZE * n + 1" using assms(4) by (simp_all add: HBLKSIZE_def)
  from index_loop_ok [OF assms(1-3) this] obtain B r
    where B: "index_loop (HBLKSIZE * n + 1) h h (HBLKSIZE * n) st = Done (st\<lparr>bottom_indices := B, mem_requests := r\<rparr>) True"
      "sorted_wrt (<) B" "set (bottom_indices st) \<subseteq> set B"
      "\<And>i. h + BOTTOM_SZ * i < h + n \<Longrightarrow> (h + BOTTOM_SZ * i) div BOTTOM_SZ \<in> set B" by blast
  let ?st = "st\<lparr>bottom_indices := B, mem_requests := r\<rparr>"
  obtain B' r' where B': "get_index (h + n - 1) ?st = Done (?st\<lparr>bottom_indices := B', mem_requests := r'\<rparr>) True"
      "sorted_wrt (<) B'" "set B' = insert ((h + n - 1) div BOTTOM_SZ) (set B)"
    by (rule get_index_supplied [of ?st "h + n - 1"]) (use B(2) assms(2) in simp_all)
  let ?st' = "st\<lparr>bottom_indices := B', mem_requests := r'\<rparr>"
  have index: "get_index (h + n - 1) ?st = Done ?st' True" using B'(1) by simp
  have cov: "q div BOTTOM_SZ \<in> set B'" if "h \<le> q" "q < h + n" for q
  proof (rule key_covered [OF _ _ that])
    show "(h + BOTTOM_SZ * i) div BOTTOM_SZ \<in> set B'" if "h + BOTTOM_SZ * i < h + n" for i
      unfolding B'(3) by (rule insertI2) (rule B(4) [OF that])
    show "(h + n - 1) div BOTTOM_SZ \<in> set B'" unfolding B'(3) by simp
  qed
  obtain k where k: "n = Suc k" using assms(4) gr0_implies_Suc by blast
  have bytes: "h * 4096 + 4096 * n - 1 = (h + k) * 4096 + 4095" unfolding k by simp
  have last: "(h * HBLKSIZE + HBLKSIZE * n - 1) div HBLKSIZE = h + n - 1" unfolding block_arith(2) bytes using k by simp
  have nb: "blocks_of_bytes (HBLKSIZE * n) = n" by (simp add: block_arith)
  have loop: "count_loop h 1 (n - 1) ?st' = Done (?st'\<lparr>hdr_map := (\<lambda>p. if h + 1 \<le> p \<and> p < h + 1 + (n - 1) then Jump (min (p - h) MAX_JUMP) else hdr_map ?st' p)\<rparr>) ()"
    using cov by (intro count_loop_run) (simp add: has_index_def)
  have eq: "(\<lambda>p. if h + 1 \<le> p \<and> p < h + 1 + (n - 1) then Jump (min (p - h) MAX_JUMP) else hdr_map ?st' p) =
      (\<lambda>p. if h < p \<and> p < h + n then Jump (min (p - h) MAX_JUMP) else hdr_map st p)" using assms(4) by (auto simp: fun_eq_iff)
  have "GC_install_counts h (HBLKSIZE * n) st = Done (st\<lparr>bottom_indices := B', mem_requests := r',
      hdr_map := (\<lambda>p. if h < p \<and> p < h + n then Jump (min (p - h) MAX_JUMP) else hdr_map st p)\<rparr>) True"
    unfolding GC_install_counts_def last nb andthen_run [of "index_loop _ _ _ _", OF B(1)]
    by (simp add: andthen_run [of "get_index _", OF index] andthen_run [of "count_loop _ _ _", OF loop] eq ret_def del: One_nat_def)
  from that [OF this B'(2) _ cov] B'(3) B(3) show ?thesis by blast
qed

section \<open>Setting up a header\<close>

lemma add_map_entry_ok:
  assumes "supplied st"
  obtains M r where "GC_add_map_entry g st = Done (st\<lparr>mem_requests := r, GC_obj_map := M\<rparr>) True" and "length M = 129"
proof -
  have max: "BYTES_TO_GRANULES MAXOBJBYTES = 128" by (simp add: BYTES_TO_GRANULES_def MAXOBJBYTES_def HBLKSIZE_def)
  let ?g = "if 128 < g then 0 else g"
  have len: "\<not> length (GC_obj_map st) \<le> ?g" using assms by (simp add: supplied_def)
  show ?thesis
  proof (cases "GC_obj_map st ! ?g = None")
    case False
    with len have "GC_add_map_entry g st = Done (st\<lparr>mem_requests := mem_requests st, GC_obj_map := GC_obj_map st\<rparr>) True"
      by (simp add: GC_add_map_entry_def max run_steps ret_def Let_def split: if_splits)
    from that [OF this] assms show ?thesis by (simp add: supplied_def)
  next
    case True
    have run: "GC_scratch_alloc st = Done (st\<lparr>mem_requests := mem_requests st + 1\<rparr>) True"
      using assms by (simp add: GC_scratch_alloc_def supplied_def)
    have "\<exists>M. GC_add_map_entry g st = Done (st\<lparr>mem_requests := mem_requests st + 1, GC_obj_map := M\<rparr>) True \<and> length M = length (GC_obj_map st)"
      using len True by (cases "128 < g") (auto simp: GC_add_map_entry_def max Let_def run_steps andthen_run [of GC_scratch_alloc, OF run] ret_def)
    then obtain M where "GC_add_map_entry g st = Done (st\<lparr>mem_requests := mem_requests st + 1, GC_obj_map := M\<rparr>) True"
      and "length M = length (GC_obj_map st)" by blast
    from that [OF this(1)] this(2) assms show ?thesis by (simp add: supplied_def)
  qed
qed

text \<open>Flags that callers pass: neither of a free nor of an unmapped block.\<close>

definition plain_flags :: "8 word \<Rightarrow> bool" where
  "plain_flags w \<longleftrightarrow> \<not> bit w 1 \<and> \<not> bit w 2"

lemma use_flag_bits: "bit HAS_DISCLAIM n \<longleftrightarrow> n = 3" "bit MARK_UNCONDITIONALLY n \<longleftrightarrow> n = 4" "bit LARGE_BLOCK n \<longleftrightarrow> n = 5"
  using bit_exp_iff [where 'a = "8 word", of 3 n] bit_exp_iff [where 'a = "8 word", of 4 n] bit_exp_iff [where 'a = "8 word", of 5 n]
  by (auto simp: LARGE_BLOCK_def HAS_DISCLAIM_def MARK_UNCONDITIONALLY_def)

lemma plain_or: "plain_flags w \<Longrightarrow> v = LARGE_BLOCK \<or> v = HAS_DISCLAIM \<or> v = MARK_UNCONDITIONALLY \<Longrightarrow> plain_flags (or w v)"
  by (auto simp: plain_flags_def bit_simps use_flag_bits)

lemma plain_used: "plain_flags (hb_flags d) \<Longrightarrow> \<not> HBLK_IS_FREE d \<and> IS_MAPPED d"
  by (simp add: plain_flags_def free_flag mapped_flag)

lemma setup_header_ok:
  assumes "supplied st" and "hdr_map st h = Header d" and "kind < length (GC_obj_kinds st)" and "plain_flags flags"
  obtains d' M r where "setup_header h b sz kind flags st =
      Done (st\<lparr>hdr_map := (hdr_map st)(h := Header d'), mem_requests := r, GC_obj_map := M\<rparr>) True"
    and "hb_sz d' = sz" and "hb_block d' = b" and "hb_obj_kind d' = kind mod 256" and "\<not> HBLK_IS_FREE d'" and "IS_MAPPED d'"
    and "hb_n_marks d' = 0" and "length M = 129"
proof -
  let ?ok = "GC_obj_kinds st ! kind" and ?g = "BYTES_TO_GRANULES sz"
  define f1 where "f1 = (if MAXOBJBYTES < sz then or flags LARGE_BLOCK else flags)"
  define f2 where "f2 = (if ok_disclaim_proc ?ok then or f1 HAS_DISCLAIM else f1)"
  define f3 where "f3 = (if ok_mark_unconditionally ?ok then or f2 MARK_UNCONDITIONALLY else f2)"
  define ds where "ds = (if ok_relocate_descr ?ok then word_add (ok_descriptor ?ok) sz else ok_descriptor ?ok)"
  have plain: "plain_flags f3" unfolding f3_def f2_def f1_def using assms(4) plain_or by simp
  let ?d1 = "d\<lparr>hb_sz := sz, hb_obj_kind := kind mod 256, hb_flags := f3, hb_block := b, hb_descr := ds\<rparr>"
  let ?st1 = "st\<lparr>hdr_map := (hdr_map st)(h := Header ?d1)\<rparr>"
  have "supplied ?st1" using assms(1) by (simp add: supplied_def)
  then obtain M r where M: "GC_add_map_entry ?g ?st1 = Done (?st1\<lparr>mem_requests := r, GC_obj_map := M\<rparr>) True" "length M = 129"
    by (rule add_map_entry_ok)
  let ?k = "if and f3 LARGE_BLOCK \<noteq> 0 then 0 else ?g"
  have k: "\<not> length M \<le> ?k"
  proof (cases "MAXOBJBYTES < sz")
    case True
    then have "bit (and f3 LARGE_BLOCK) 5" by (simp add: f3_def f2_def f1_def bit_simps use_flag_bits)
    then have "and f3 LARGE_BLOCK \<noteq> 0" by (metis bit_0_eq bot_apply bot_bool_def)
    with M(2) show ?thesis by simp
  next
    case False
    then have "?g \<le> 128" by (simp add: BYTES_TO_GRANULES_def MAXOBJBYTES_def HBLKSIZE_def drop_bit_eq_div)
    with M(2) show ?thesis by simp
  qed
  let ?d2 = "?d1\<lparr>hb_map := M ! ?k, hb_marks := (\<lambda>i. i = FINAL_MARK_BIT sz), hb_n_marks := 0, hb_last_reclaimed := of_nat (GC_gc_no st)\<rparr>"
  have run: "setup_header h b sz kind flags st = Done (st\<lparr>hdr_map := (hdr_map st)(h := Header ?d2), mem_requests := r, GC_obj_map := M\<rparr>) True"
    unfolding setup_header_def Let_def f1_def [symmetric] andthen_reads
    unfolding f2_def [symmetric] f3_def [symmetric] ds_def [symmetric]
    using assms(2,3) k
    by (simp add: andthen_upd_hdr [of st h, OF assms(2)] andthen_run [of "GC_add_map_entry _", OF M(1)] run_steps GC_clear_hdr_marks_def ret_def
      del: if_split cong: if_cong)
  have "hb_flags ?d2 = f3" by simp
  with that [OF run] plain_used [of ?d2] plain M(2) show ?thesis by simp
qed

end
