(* ===== verification/Gc_Allocation.thy ===== *)
theory Gc_Allocation
  imports Gc_Counts
begin

text \<open>
  Taking a free block, or its first part, into use: the end of the search of \<open>GC_allochblk_nth\<close>, with
  \<open>GC_get_first_part\<close>, \<open>GC_install_counts\<close> and \<open>setup_header\<close>.
\<close>

definition same_view :: "gc_state \<Rightarrow> gc_state \<Rightarrow> bool" where
  "same_view st st' \<longleftrightarrow>
     used_at (hdr_map st') = used_at (hdr_map st) \<and> free_cells (hdr_map st') = free_cells (hdr_map st) \<and>
     GC_large_free_bytes st' = GC_large_free_bytes st \<and> GC_obj_map st' = GC_obj_map st \<and> elsewhere st' = elsewhere st"

lemma same_view_refl: "same_view st st"
  by (simp add: same_view_def)

lemma same_view_trans: "same_view st st' \<Longrightarrow> same_view st' st'' \<Longrightarrow> same_view st st''"
  by (simp add: same_view_def)

lemma elsewhere_fields:
  assumes "elsewhere st' = elsewhere st"
  shows "mem_answers st' = mem_answers st" and "GC_obj_kinds st' = GC_obj_kinds st"
  using arg_cong [OF assms, of mem_answers] arg_cong [OF assms, of GC_obj_kinds] by (simp_all add: elsewhere_def)

lemma blocks_inv_same_free:
  assumes "blocks_inv st Ls X W" and "layout (hdr_map st')" and "indexed st'" and "lists_ok st' Ls" and "mapping_ok st'"
    and "free_at (hdr_map st') = free_at (hdr_map st)" and "fl_index (hdr_map st') = fl_index (hdr_map st)"
  shows "blocks_inv st' Ls X W"
  using assms by (simp add: blocks_inv_def)

lemma completes_unit: "completes m Q s \<Longrightarrow> \<exists>s'. m s = Done s' () \<and> Q () s'" for m :: "unit gc_op"
  using completesD [of m Q s] by simp

section \<open>Mapping a free block\<close>

definition remap_block :: "hblk \<Rightarrow> hdr \<Rightarrow> unit gc_op" where
  "remap_block h d = (if \<not> IS_MAPPED d then andthen (GC_remap h (hb_sz d)) (\<lambda>_. clear_unmapped h) else ret ())"

lemma lists_ok_links:
  assumes "lists_ok st Ls" and "links_of (hdr_map st') = links_of (hdr_map st)" and "bytes_at (hdr_map st') = bytes_at (hdr_map st)"
    and "GC_hblkfreelist st' = GC_hblkfreelist st" and "GC_free_bytes st' = GC_free_bytes st"
  shows "lists_ok st' Ls"
  using assms by (simp add: lists_ok_def)

lemma remap_run:
  assumes "blocks_inv st Ls X W" and "hdr_map st h = Header d" and "HBLK_IS_FREE d"
  obtains st' d' where "remap_block h d st = Done st' ()" and "blocks_inv st' Ls X W" and "same_view st st'"
    and "hdr_map st' h = Header d'" and "IS_MAPPED d'" and "hb_sz d' = hb_sz d" and "HBLK_IS_FREE d'" and "shape (hdr_map st') = shape (hdr_map st)"
    and "hb_next d' = hb_next d" and "hb_prev d' = hb_prev d"
proof (cases "IS_MAPPED d")
  case True
  then have "remap_block h d st = Done st ()" by (simp add: remap_block_def ret_def)
  from that [OF this assms(1) same_view_refl assms(2) True _ assms(3)] show ?thesis by simp
next
  case False
  note inv = blocks_invD [OF assms(1)]
  let ?m = "hdr_map st" and ?d = "d\<lparr>hb_flags := and (hb_flags d) (not WAS_UNMAPPED)\<rparr>"
  let ?st = "st\<lparr>mem_mapped := (\<lambda>b. if h \<le> b \<and> b < h + nblocks d then True else mem_mapped st b), hdr_map := ?m(h := Header ?d)\<rparr>"
  have "HBLKSIZE dvd hb_sz d" using layout_entry [OF inv(1) assms(2)] assms(3) by (simp add: entry_ok_def)
  then have div: "divHBLKSZ (hb_sz d) = nblocks d" using blocks_dvd [of "hb_sz d"] by (metis block_arith(1,2) div_mult_self_is_m zero_less_numeral)
  have run: "remap_block h d st = Done ?st ()"
    using False assms(2) unfolding remap_block_def GC_remap_def clear_unmapped_def div by (simp add: run_steps upd_hdr_def)
  have free: "HBLK_IS_FREE ?d" and mapped: "IS_MAPPED ?d"
    using assms(3) by (auto simp: free_flag mapped_flag bit_simps flag_bits)
  have shape: "shape (hdr_map ?st) = shape ?m" using assms(2,3) free by (auto simp: shape_def fun_eq_iff)
  have links: "links_of (hdr_map ?st) = links_of ?m" "bytes_at (hdr_map ?st) = bytes_at ?m"
    using assms(2) by (auto simp: links_of_def bytes_at_def fun_eq_iff)
  have map: "mapping_ok ?st"
    unfolding mapping_ok_def
  proof (intro allI impI)
    fix g e assume g: "hdr_map ?st g = Header e"
    show "(HBLK_IS_FREE e \<or> IS_MAPPED e) \<and> (\<forall>p. p \<in> region g e \<longrightarrow> mem_mapped ?st p = IS_MAPPED e)"
    proof (cases "g = h")
      case True
      with g free mapped show ?thesis by (auto simp: region_def)
    next
      case other: False
      with g have mg: "?m g = Header e" by simp
      from regions_disjoint [OF inv(1) mg assms(2) other] have "mem_mapped ?st p = mem_mapped st p" if "p \<in> region g e" for p
        using that by (auto simp: region_def)
      with inv(4) mg show ?thesis by (simp add: mapping_ok_def)
    qed
  qed
  have i: "blocks_inv ?st Ls X W"
  proof (rule blocks_inv_same_free [OF assms(1) _ _ _ map])
    show "indexed ?st" using inv(2) assms(2) by (auto simp: indexed_def has_index_def)
    show "lists_ok ?st Ls" by (rule lists_ok_links [OF inv(3) links]) simp_all
    show "layout (hdr_map ?st)" by (rule layout_shape [OF shape [symmetric] inv(1)])
    show "free_at (hdr_map ?st) = free_at ?m" by (rule view_shape(1) [OF shape])
    show "fl_index (hdr_map ?st) = fl_index ?m" unfolding fl_index_def links(2) ..
  qed
  have "used_at (hdr_map ?st) = used_at ?m" using assms(2,3) free by (auto simp: used_at_def bare_def fun_eq_iff HBLK_IS_FREE_def)
  then have "same_view st ?st" using view_shape(2) [OF shape] by (simp add: same_view_def elsewhere_def)
  from that [OF run i this _ mapped _ free shape] show ?thesis by simp
qed

section \<open>The first part of a block\<close>

lemma install_header_supplied:
  assumes "sorted_wrt (<) (bottom_indices st)" and "\<forall>n. mem_answers st n"
  obtains B F r d where "GC_install_header h st =
      Done (st\<lparr>bottom_indices := B, hdr_free_list := F, mem_requests := r, hdr_map := (hdr_map st)(h := Header d)\<rparr>) True"
    and "sorted_wrt (<) B" and "set B = insert (h div BOTTOM_SZ) (set (bottom_indices st))"
  using install_header_cases [OF assms(1), of h] assms(2) by metis

lemma free_size:
  assumes "layout m" and "m h = Header d" and "HBLK_IS_FREE d"
  shows "hb_sz d = HBLKSIZE * nblocks d"
  using layout_entry [OF assms(1,2)] assms(3) blocks_dvd [of "hb_sz d"] by (simp add: entry_ok_def mult.commute)

text \<open>What remains free of a block of which the first \<open>a\<close> blocks are taken.\<close>

definition remainder_at :: "hblk \<Rightarrow> nat \<Rightarrow> nat \<Rightarrow> hblk set" where
  "remainder_at h a n = (if a < n then {h + a} else {})"

lemma first_part_ok:
  assumes "blocks_inv st Ls {} W" and "W \<subseteq> {h}" and "i < 61" and "Ls ! i = xs @ h # ys" and "hdr_map st h = Header d" and "IS_MAPPED d"
    and "\<forall>n. mem_answers st n" and "0 < a" and "a \<le> n" and "nblocks d = n"
  obtains st' Ls' where "GC_get_first_part h (HBLKSIZE * a) i st = Done st' (Some h)" and "lists_ok st' Ls'" and "indexed st'"
    and "set (concat Ls') = set (concat Ls) - {h} \<union> remainder_at h a n"
    and "\<And>j g. j < 61 \<Longrightarrow> g \<in> set (Ls' ! j) \<Longrightarrow> fl_index (hdr_map st') g = j"
    and "\<And>p. p \<notin> remainder_at h a n \<Longrightarrow> bare (hdr_map st') p = bare (hdr_map st) p"
    and "a < n \<Longrightarrow> \<exists>e. hdr_map st' (h + a) = Header e \<and> HBLK_IS_FREE e \<and> IS_MAPPED e \<and> hb_sz e = HBLKSIZE * (n - a)"
    and "mem_mapped st' = mem_mapped st" and "GC_large_free_bytes st' = GC_large_free_bytes st" and "GC_obj_map st' = GC_obj_map st"
    and "elsewhere st' = elsewhere st"
proof -
  note inv = blocks_invD [OF assms(1)]
  have hmem: "h \<in> set (concat Ls)" using concat_update_remove(2) [OF inv(3) assms(3,4)] .
  then have free: "HBLK_IS_FREE d" using inv(6) [of h] assms(5) by (auto simp: free_at_def)
  have sz: "hb_sz d = HBLKSIZE * n" using free_size [OF inv(1) assms(5) free] assms(10) by simp
  obtain st1 where r1: "GC_remove_from_fl_at h i st = Done st1 ()" and i1: "blocks_inv st1 (Ls[i := xs @ ys]) {h} {}" and l1: "only_lists st st1"
    using completesD [OF inv_remove_at [OF assms(1,3,4)]] assms(2) by auto (metis Diff_eq_empty_iff)
  note b1 = only_lists_fields [OF l1] and inv1 = blocks_invD [OF i1]
  note c1 = concat_update_remove(1) [OF inv(3) assms(3,4)]
  have o1: "GC_large_free_bytes st1 = GC_large_free_bytes st" "GC_obj_map st1 = GC_obj_map st" "elsewhere st1 = elsewhere st" "mem_answers st1 = mem_answers st"
    using l1 by (auto simp: only_lists_def elsewhere_def)
  have dv: "divHBLKSZ (HBLKSIZE * a) = a" and same: "(HBLKSIZE * n = HBLKSIZE * a) = (n = a)" by (simp_all add: block_arith(1,2))
  have start: "GC_get_first_part h (HBLKSIZE * a) i st = (if n = a then ret (Some h) else
      andthen (GC_install_header (h + a)) (\<lambda>ok. if \<not> ok then ret None else
        andthen (upd_hdr (h + a) (\<lambda>d. d\<lparr>hb_sz := word_sub (HBLKSIZE * n) (HBLKSIZE * a), hb_flags := 0\<rparr>)) (\<lambda>_.
        andthen (GC_add_to_fl (h + a)) (\<lambda>_. ret (Some h))))) st1"
    unfolding GC_get_first_part_def andthen_get_hdr [of st h, OF assms(5)] Let_def andthen_run [of "GC_remove_from_fl_at h i", OF r1] sz same dv ..
  show ?thesis
  proof (cases "n = a")
    case True
    then have R: "remainder_at h a n = {}" by (simp add: remainder_at_def)
    have run: "GC_get_first_part h (HBLKSIZE * a) i st = Done st1 (Some h)" unfolding start using True by (simp add: ret_def)
    show ?thesis
    proof (rule that [OF run inv1(3,2)])
      show "bare (hdr_map st1) p = bare (hdr_map st) p" for p using b1(1) by simp
      show "fl_index (hdr_map st1) g = j" if "j < 61" "g \<in> set (Ls[i := xs @ ys] ! j)" for j g using inv1(7) [OF that] by simp
    qed (use True R c1 b1 o1 in simp_all)
  next
    case False
    with assms(9) have less: "a < n" by simp
    then have R: "remainder_at h a n = {h + a}" by (simp add: remainder_at_def)
    let ?q = "h + a"
    obtain B F r e0 where ins: "GC_install_header ?q st1 =
        Done (st1\<lparr>bottom_indices := B, hdr_free_list := F, mem_requests := r, hdr_map := (hdr_map st1)(?q := Header e0)\<rparr>) True"
        "sorted_wrt (<) B" "set B = insert (?q div BOTTOM_SZ) (set (bottom_indices st1))"
      by (rule install_header_supplied [of st1 ?q]) (use inv1(2) assms(7) o1(4) in \<open>simp_all add: indexed_def\<close>)
    let ?e = "e0\<lparr>hb_sz := HBLKSIZE * (n - a), hb_flags := 0\<rparr>"
    let ?st2 = "st1\<lparr>bottom_indices := B, hdr_free_list := F, mem_requests := r, hdr_map := (hdr_map st1)(?q := Header ?e)\<rparr>"
    let ?Ls = "Ls[i := xs @ ys]" and ?j = "GC_hblk_fl_from_blocks (divHBLKSZ (hb_sz ?e))"
    have sub: "word_sub (HBLKSIZE * n) (HBLKSIZE * a) = HBLKSIZE * (n - a)" using less by (simp add: word_sub_def diff_mult_distrib2)
    have run2: "GC_get_first_part h (HBLKSIZE * a) i st = andthen (GC_add_to_fl ?q) (\<lambda>_. ret (Some h)) ?st2"
      unfolding start sub using False by (simp add: andthen_run [of "GC_install_header _", OF ins(1)] run_steps)
    have "hdr_map st ?q = NIL" using inside_not_header [OF inv(1) assms(5), of ?q] free less assms(8,10) by simp
    then have nil: "hdr_map st1 ?q = NIL" using b1(1) by (metis bare_NIL)
    have new: "?q \<notin> set (concat ?Ls)" using inv1(6) [of ?q] nil by (auto simp: free_at_def)
    have ok2: "lists_ok ?st2 ?Ls" by (rule lists_ok_others [OF inv1(3)]) (use new in auto)
    obtain d1 where d1: "hdr_map st1 h = Header d1" "hb_sz d1 = hb_sz d" by (rule bare_Header [OF b1(1) [symmetric] assms(5)])
    have bound: "sum_list (map (bytes_at (hdr_map ?st2)) (?Ls ! ?j)) + hb_sz ?e < 2 ^ 64"
    proof -
      have j: "?j < 61" by (rule fl_index_less)
      have "bytes_at (hdr_map st1) h + sum_list (map (bytes_at (hdr_map st1)) (?Ls ! ?j)) < 2 ^ 64"
        unfolding sum_list.Cons [symmetric] list.map(2) [symmetric]
      proof (rule free_sum_bound [OF inv1(1)])
        show "distinct (h # ?Ls ! ?j)" using inv1(5) inv1(3) member_concat [OF inv1(3) j] distinct_list [of ?Ls ?j] j by (auto simp: lists_ok_def simp del: set_concat)
        show "free_at (hdr_map st1) g" if "g \<in> set (h # ?Ls ! ?j)" for g
          using that inv1(6) [of g] member_concat [OF inv1(3) j] by auto
      qed
      moreover have "sum_list (map (bytes_at (hdr_map ?st2)) (?Ls ! ?j)) = sum_list (map (bytes_at (hdr_map st1)) (?Ls ! ?j))"
        using new member_concat [OF inv1(3) j] by (intro arg_cong [of _ _ sum_list] map_cong refl) (auto simp: bytes_at_def)
      moreover have "hb_sz ?e \<le> bytes_at (hdr_map st1) h" using d1 sz by (simp add: bytes_at_def)
      ultimately show ?thesis by linarith
    qed
    have hq: "hdr_map ?st2 ?q = Header ?e" by simp
    obtain st3 where r3: "GC_add_to_fl ?q ?st2 = Done st3 ()" and ok3: "lists_ok st3 (?Ls[?j := ?q # ?Ls ! ?j])" and l3: "only_lists (mark_free ?q ?st2) st3"
      using completes_unit [OF add_to_fl_ok [OF ok2 hq new refl bound]] by blast
    have mf: "mark_free ?q ?st2 = ?st2\<lparr>hdr_map := (hdr_map st1)(?q := Header (?e\<lparr>hb_flags := or 0 FREE_BLK\<rparr>))\<rparr>"
      by (simp add: mark_free_def)
    note b3 = only_lists_fields [OF l3]
    have len: "?j < length ?Ls" using fl_index_less inv1(3) by (simp add: lists_ok_def)
    have run: "GC_get_first_part h (HBLKSIZE * a) i st = Done st3 (Some h)"
      unfolding run2 andthen_run [of "GC_add_to_fl _", OF r3] by (simp add: ret_def)
    have bare3: "bare (hdr_map st3) p = bare (hdr_map st) p" if "p \<noteq> ?q" for p
      using b3(1) b1(1) that by (simp add: mf bare_def fun_eq_iff)
    obtain e3 where e3: "hdr_map st3 ?q = Header e3" "hb_sz e3 = HBLKSIZE * (n - a)" "hb_flags e3 = or 0 FREE_BLK"
      using bare_Header [OF b3(1) [symmetric], of ?q "?e\<lparr>hb_flags := or 0 FREE_BLK\<rparr>"] by (auto simp: mf)
    have idx3: "indexed st3"
    proof -
      have "indexed (mark_free ?q ?st2)" using inv1(2) ins(2,3) unfolding mf indexed_def has_index_def by auto
      with indexed_bare [OF b3(1,2)] show ?thesis by simp
    qed
    have fl: "fl_index (hdr_map st3) g = j" if j: "j < 61" "g \<in> set (?Ls[?j := ?q # ?Ls ! ?j] ! j)" for j g
    proof (cases "g = ?q")
      case True
      have "g \<notin> set (?Ls ! j)" using True new member_concat [OF inv1(3) j(1)] by blast
      with j len have "j = ?j" by (metis nth_list_update_neq)
      with True e3 show ?thesis by (simp add: fl_index_def bytes_at_def)
    next
      case False
      with j len have g: "g \<in> set (?Ls ! j)" by (cases "?j = j") auto
      have "bytes_at (hdr_map st3) g = bytes_at (hdr_map st1) g"
        using fun_cong [OF arg_cong [OF b3(1), of bytes_at], of g] False unfolding bytes_at_bare mf by (simp add: bytes_at_def)
      with inv1(7) [OF j(1) g] show ?thesis by (simp add: fl_index_def)
    qed
    show ?thesis
    proof (rule that [OF run ok3 idx3 _ fl])
      show "set (concat (?Ls[?j := ?q # ?Ls ! ?j])) = set (concat Ls) - {h} \<union> remainder_at h a n"
        unfolding concat_update_add [OF len] c1 R by blast
      show "\<exists>e. hdr_map st3 ?q = Header e \<and> HBLK_IS_FREE e \<and> IS_MAPPED e \<and> hb_sz e = HBLKSIZE * (n - a)"
        using e3 by (intro exI [of _ e3]) (simp add: free_flag mapped_flag bit_simps flag_bits)
      show "mem_mapped st3 = mem_mapped st" using b3(3) b1(3) by (simp add: mf)
      show "GC_large_free_bytes st3 = GC_large_free_bytes st" "GC_obj_map st3 = GC_obj_map st" "elsewhere st3 = elsewhere st"
        using l3 o1 by (auto simp: only_lists_def elsewhere_def mf)
    qed (use bare3 R in auto)
  qed
qed

end
