(* ===== verification/Gc_Taking.thy ===== *)
theory Gc_Taking
  imports Gc_Allocation
begin

text \<open>
  Blocks that come into use: the block that an allocation returns, and the pieces of a block that is dropped because
  all its addresses are black-listed. The cells of the heap stay the same; free cells become used ones.
\<close>

section \<open>The cells of the heap\<close>

definition heap_cells :: "(hblk \<Rightarrow> hdr_entry) \<Rightarrow> hblk set" where
  "heap_cells m = {p. \<exists>h d. m h = Header d \<and> p \<in> region h d}"

lemma row_covers:
  assumes "laid m h ds" and "h \<le> p" and "p < h + row_blocks ds"
  shows "\<exists>g e. m g = Header e \<and> p \<in> region g e"
  using assms
proof (induction ds arbitrary: h)
  case (Cons d ds)
  show ?case
  proof (cases "p < h + nblocks d")
    case True
    with Cons.prems show ?thesis by (intro exI [of _ h] exI [of _ d]) (simp add: region_def)
  next
    case False
    with Cons.prems show ?thesis by (intro Cons.IH [of "h + nblocks d"]) auto
  qed
qed simp

lemma heap_cells_row:
  assumes "layout m" and "closed_range m {h..<h + n}" and "{h..<h + n} \<subseteq> heap_cells m"
    and "\<And>p. p < h \<or> h + n \<le> p \<Longrightarrow> bare m' p = bare m p"
    and "laid m' h ds" and "n = row_blocks ds" and "\<forall>d \<in> set ds. tile_ok d" and "0 < h" and "h + n \<le> 2 ^ 52"
  shows "heap_cells m' = heap_cells m"
proof -
  have outer: "\<exists>e'. m2 g = Header e' \<and> hb_sz e' = hb_sz e" if "m1 g = Header e" "bare m2 g = bare m1 g" for m1 m2 g e
    using that by (auto simp: bare_def split: hdr_entry.splits dest: arg_cong [of _ _ hb_sz])
  have "p \<in> heap_cells m' \<longleftrightarrow> p \<in> heap_cells m" for p
  proof (cases "p \<in> {h..<h + n}")
    case True
    with row_covers [OF assms(5), of p] assms(3,6) show ?thesis by (auto simp: heap_cells_def)
  next
    case False
    have out: "g < h \<or> h + n \<le> g" if "m g = Header e" "p \<in> region g e" for g e
    proof -
      have "region g e \<inter> {h..<h + n} = {}" using assms(2) that False unfolding closed_range_def by blast
      with region_start [OF layout_entry [OF assms(1) that(1)]] have "g \<notin> {h..<h + n}" by blast
      then show ?thesis by auto
    qed
    have out': "g < h \<or> h + n \<le> g" if "m' g = Header e" "p \<in> region g e" for g e
    proof (rule ccontr)
      assume "\<not> ?thesis"
      with row_entry [OF assms(5,7,8) _ _ _ that(1)] assms(6,9) have "region g e \<subseteq> {h..<h + n}" by auto
      with that(2) False show False by blast
    qed
    show ?thesis
    proof
      assume "p \<in> heap_cells m'"
      then obtain g e where g: "m' g = Header e" "p \<in> region g e" by (auto simp: heap_cells_def)
      with outer [of m' g e m, OF g(1)] assms(4) [OF out' [OF g]] obtain e' where "m g = Header e'" "hb_sz e' = hb_sz e" by auto
      with g(2) show "p \<in> heap_cells m" unfolding heap_cells_def by (intro CollectI exI [of _ g] exI [of _ e']) (simp add: region_def)
    next
      assume "p \<in> heap_cells m"
      then obtain g e where g: "m g = Header e" "p \<in> region g e" by (auto simp: heap_cells_def)
      with outer [of m g e m', OF g(1)] assms(4) [OF out [OF g]] obtain e' where "m' g = Header e'" "hb_sz e' = hb_sz e" by auto
      with g(2) show "p \<in> heap_cells m'" unfolding heap_cells_def by (intro CollectI exI [of _ g] exI [of _ e']) (simp add: region_def)
    qed
  qed
  then show ?thesis by blast
qed

section \<open>Taking memory\<close>

text \<open>
  What an allocation may do: blocks in use stay in use with their headers, new ones are cut from
  free blocks.
\<close>

definition beyond :: "gc_state \<Rightarrow> gc_state" where
  "beyond st = (elsewhere st)\<lparr>GC_obj_map := []\<rparr>"

lemma beyond_fields:
  assumes "beyond st' = beyond st"
  shows "mem_answers st' = mem_answers st" and "GC_obj_kinds st' = GC_obj_kinds st"
  using arg_cong [OF assms, of mem_answers] arg_cong [OF assms, of GC_obj_kinds] by (simp_all add: beyond_def elsewhere_def)

definition takes :: "gc_state \<Rightarrow> gc_state \<Rightarrow> bool" where
  "takes st st' \<longleftrightarrow> used_at (hdr_map st) \<subseteq>\<^sub>m used_at (hdr_map st') \<and> heap_cells (hdr_map st') = heap_cells (hdr_map st) \<and>
     free_cells (hdr_map st') \<subseteq> free_cells (hdr_map st) \<and> beyond st' = beyond st"

lemma takes_refl: "takes st st"
  by (simp add: takes_def)

lemma takes_trans: "takes st st' \<Longrightarrow> takes st' st'' \<Longrightarrow> takes st st''"
  unfolding takes_def using map_le_trans by fastforce

lemma heap_cells_shape:
  assumes "shape m = shape m'"
  shows "heap_cells m = heap_cells m'"
proof -
  have "p \<in> heap_cells n'" if eq: "shape n = shape n'" and p: "p \<in> heap_cells n" for p n n'
  proof -
    from p obtain h d where h: "n h = Header d" "p \<in> region h d" by (auto simp: heap_cells_def)
    obtain e where "n' h = Header e" "hb_sz e = hb_sz d" by (rule shape_Header [OF fun_cong [OF eq] h(1)])
    with h(2) show ?thesis unfolding heap_cells_def by (intro CollectI exI [of _ h] exI [of _ e]) (simp add: region_def)
  qed
  from this [OF assms] this [OF assms [symmetric]] show ?thesis by blast
qed

lemma same_view_takes: "same_view st st' \<Longrightarrow> shape (hdr_map st') = shape (hdr_map st) \<Longrightarrow> takes st st'"
  using heap_cells_shape [of "hdr_map st'" "hdr_map st"] by (simp add: takes_def same_view_def beyond_def)

text \<open>A free block on a list is replaced by a row of blocks.\<close>

lemma inv_replace:
  assumes "blocks_inv st Ls {} W" and "hdr_map st h = Header d" and "HBLK_IS_FREE d" and "nblocks d = n"
    and "\<And>p. p < h \<or> h + n \<le> p \<Longrightarrow> bare (hdr_map st') p = bare (hdr_map st) p \<and> mem_mapped st' p = mem_mapped st p"
    and "laid (hdr_map st') h ds" and "n = row_blocks ds" and "\<forall>d \<in> set ds. tile_ok d" and "indexed st'" and "lists_ok st' Ls'"
    and "set (concat Ls') = set (concat Ls) - {h} \<union> F"
    and "\<And>p. p < h + n \<Longrightarrow> h \<le> p \<Longrightarrow> free_at (hdr_map st') p \<longleftrightarrow> p \<in> F" and "F \<subseteq> {h..<h + n}"
    and "\<And>p e. h \<le> p \<Longrightarrow> p < h + n \<Longrightarrow> hdr_map st' p = Header e \<Longrightarrow> IS_MAPPED e"
    and "\<And>p. h \<le> p \<Longrightarrow> p < h + n \<Longrightarrow> mem_mapped st' p"
    and "\<And>i g. i < 61 \<Longrightarrow> g \<in> set (Ls' ! i) \<Longrightarrow> g \<notin> W' \<Longrightarrow> fl_index (hdr_map st') g = i" and "beyond st' = beyond st"
  shows "blocks_inv st' Ls' {} W'" and "free_cells (hdr_map st') = free_cells (hdr_map st) - {h..<h + n} \<union> free_tiles h ds" and "takes st st'"
proof -
  let ?m = "hdr_map st" and ?m' = "hdr_map st'"
  note inv = blocks_invD [OF assms(1)]
  have ok: "entry_ok ?m h d" by (rule layout_entry [OF inv(1) assms(2)])
  have range: "0 < h" "h + n \<le> 2 ^ 52" using ok assms(4) by (simp_all add: entry_ok_def)
  have R: "{h..<h + n} = region h d" using assms(4) by (simp add: region_def)
  have closed: "closed_range ?m {h..<h + n}" unfolding R by (rule closed_region [OF inv(1) assms(2)])
  have only: "g = h" if "?m g = Header x" "h \<le> g" "g < h + n" for g x
  proof -
    have "g \<in> region h d" unfolding R [symmetric] using that(2,3) by simp
    with regions_disjoint [OF inv(1) that(1) assms(2)] region_start [OF layout_entry [OF inv(1) that(1)]] show ?thesis by blast
  qed
  have heads: "p \<in> set (concat Ls') \<or> p \<in> {} \<longleftrightarrow>
      (if p < h \<or> h + n \<le> p then p \<in> set (concat Ls) \<or> p \<in> {} else free_at ?m' p)" for p
  proof (cases "p < h \<or> h + n \<le> p")
    case True
    then have "p \<notin> F" using assms(13) by auto
    moreover have "p \<noteq> h" using True nblocks_pos [OF ok] assms(4) by auto
    ultimately show ?thesis using True unfolding assms(11) by simp
  next
    case False
    have "p \<in> set (concat Ls) \<Longrightarrow> p = h"
      using inv(6) [of p] False only by (auto simp: free_at_def simp del: set_concat)
    with False assms(12) [of p] show ?thesis unfolding assms(11) by (auto simp del: set_concat)
  qed
  have pages: "(HBLK_IS_FREE e \<or> IS_MAPPED e) \<and> (\<forall>q. q \<in> region p e \<longrightarrow> mem_mapped st' q = IS_MAPPED e)"
    if "h \<le> p" "p < h + n" "?m' p = Header e" for p e
  proof -
    have "region p e \<subseteq> {h..<h + n}" using row_entry [OF assms(6,8) range(1) _ that(1) _ that(3)] range(2) that(2) assms(7) by simp
    with assms(14) [OF that] assms(15) show ?thesis by auto
  qed
  have none: "{} \<inter> set (concat Ls') = {}" by simp
  note res = inv_row_lists [OF assms(1) closed assms(5-8) range assms(9) pages assms(10) none heads assms(16)]
  show "blocks_inv st' Ls' {} W'" by (rule res(1))
  show free: "free_cells ?m' = free_cells ?m - {h..<h + n} \<union> free_tiles h ds" by (rule res(2))
  have cells: "heap_cells ?m' = heap_cells ?m"
  proof (rule heap_cells_row [OF inv(1) closed _ _ assms(6-8) range])
    show "{h..<h + n} \<subseteq> heap_cells ?m" unfolding R using assms(2) by (auto simp: heap_cells_def)
    show "bare ?m' p = bare ?m p" if "p < h \<or> h + n \<le> p" for p using assms(5) [OF that] by simp
  qed
  have "free_tiles h ds \<subseteq> {h..<h + n}"
  proof
    fix p assume "p \<in> free_tiles h ds"
    with row_free [OF assms(6,8)] obtain g e where "h \<le> g" "g < h + row_blocks ds" "?m' g = Header e" "p \<in> region g e" by blast
    with row_entry [OF assms(6,8) range(1), of g e] range(2) assms(7) show "p \<in> {h..<h + n}" by auto
  qed
  moreover have "{h..<h + n} \<subseteq> free_cells ?m" unfolding R using assms(2,3) by (auto simp: free_cells_def)
  ultimately have fewer: "free_cells ?m' \<subseteq> free_cells ?m" unfolding free by blast
  have "used_at ?m' g = Some x" if "used_at ?m g = Some x" for g x
  proof -
    have "g < h \<or> h + n \<le> g"
    proof (rule ccontr)
      assume inside: "\<not> ?thesis"
      from that obtain y where "?m g = Header y" by (auto simp: used_at_def bare_def split: hdr_entry.splits)
      with inside only have "g = h" by auto
      with that assms(2,3) show False by (simp add: used_at_def bare_def HBLK_IS_FREE_def)
    qed
    with assms(5) that show ?thesis by (simp add: used_at_def)
  qed
  then have "used_at ?m \<subseteq>\<^sub>m used_at ?m'" unfolding map_le_def by force
  with cells fewer assms(17) show "takes st st'" by (simp add: takes_def)
qed

section \<open>The allocated block\<close>

text \<open>The state between the operations of the allocator, with the lists as a parameter.\<close>

definition alloc_ok :: "gc_state \<Rightarrow> hblk list list \<Rightarrow> hblk set \<Rightarrow> bool" where
  "alloc_ok st Ls W \<longleftrightarrow>
     blocks_inv st Ls {} W \<and> GC_large_free_bytes st = card (free_cells (hdr_map st)) * HBLKSIZE \<and>
     (\<forall>h d. used_at (hdr_map st) h = Some d \<longrightarrow> HBLKSIZE * nblocks d < 2 ^ 63) \<and> supplied st"

lemma heap_ok_alloc: "heap_ok st \<and> supplied st \<longleftrightarrow> (\<exists>Ls. alloc_ok st Ls {})"
  by (auto simp: heap_ok_def alloc_ok_def)

definition tail_hdrs :: "nat \<Rightarrow> nat \<Rightarrow> hdr \<Rightarrow> hdr list" where
  "tail_hdrs a n e = (if a < n then [e] else [])"

lemma map_le_used_Some: "used_at m h = Some x \<Longrightarrow> \<exists>d. m h = Header d \<and> \<not> HBLK_IS_FREE d \<and> hb_sz d = hb_sz x"
  by (auto simp: used_at_def bare_def HBLK_IS_FREE_def split: hdr_entry.splits if_splits)

lemma free_count:
  assumes "layout m" and "b = card (free_cells m) * HBLKSIZE" and "{h..<h + a} \<subseteq> free_cells m" and "free_cells m' = free_cells m - {h..<h + a}"
  shows "word_sub b (HBLKSIZE * a) = card (free_cells m') * HBLKSIZE"
proof -
  have "card (free_cells m') = card (free_cells m) - a" unfolding assms(4) using card_Diff_subset [OF _ assms(3)] by simp
  moreover have "a \<le> card (free_cells m)" using card_mono [OF free_cells_card(1) [OF assms(1)] assms(3)] by simp
  ultimately show ?thesis unfolding assms(2) by (simp add: word_sub_def diff_mult_distrib2 mult.commute)
qed

lemma take_mapped_ok:
  assumes "alloc_ok st Ls W" and "W \<subseteq> {h}" and "i < 61" and "Ls ! i = xs @ h # ys" and "hdr_map st h = Header d" and "IS_MAPPED d"
    and "kind < length (GC_obj_kinds st)" and "plain_flags flags" and "0 < sz" and "blocks_of_bytes sz = a" and "a \<le> n" and "nblocks d = n"
  shows "\<exists>st' d' Ls'. andthen (GC_get_first_part h (HBLKSIZE * a) i) (\<lambda>r.
     case r of
       None \<Rightarrow> ret None
     | Some hbp \<Rightarrow>
         andthen (GC_install_counts hbp (HBLKSIZE * a)) (\<lambda>ok.
         if \<not> ok then ret None
         else
           andthen (setup_header hbp hbp sz kind flags) (\<lambda>ok.
           if \<not> ok then andthen (GC_remove_counts hbp (HBLKSIZE * a)) (\<lambda>_. ret None)
           else
             andthen (modifies (\<lambda>st. st\<lparr>GC_fail_count := 0,
               GC_large_free_bytes := word_sub (GC_large_free_bytes st) (HBLKSIZE * a)\<rparr>)) (\<lambda>_.
             ret (Some hbp))))) st = Done st' (Some h) \<and> alloc_ok st' Ls' {} \<and> takes st st' \<and>
     hdr_map st' h = Header d' \<and> hb_sz d' = sz \<and> hb_obj_kind d' = kind mod 256 \<and> \<not> HBLK_IS_FREE d'"
proof -
  from assms(1) have binv: "blocks_inv st Ls {} W" and sup: "supplied st" and bytes: "GC_large_free_bytes st = card (free_cells (hdr_map st)) * HBLKSIZE"
    and small: "\<And>h d. used_at (hdr_map st) h = Some d \<Longrightarrow> HBLKSIZE * nblocks d < 2 ^ 63" by (auto simp: alloc_ok_def)
  note inv = blocks_invD [OF binv]
  have a: "0 < a" using blocks_of_bytes_pos [OF assms(9)] assms(10) by simp
  have "h \<in> set (concat Ls)" using concat_update_remove(2) [OF inv(3) assms(3,4)] .
  then have free: "HBLK_IS_FREE d" using inv(6) [of h] assms(5) by (auto simp: free_at_def)
  have ok: "entry_ok (hdr_map st) h d" by (rule layout_entry [OF inv(1) assms(5)])
  have range: "0 < h" "h + n \<le> 2 ^ 52" using ok assms(12) by (simp_all add: entry_ok_def)
  have dsz: "hb_sz d = HBLKSIZE * n" using free_size [OF inv(1) assms(5) free] assms(12) by simp
  have dlt: "HBLKSIZE * n < 2 ^ 63" using ok dsz by (simp add: entry_ok_def)
  have ans: "\<forall>n. mem_answers st n" using sup by (simp add: supplied_def)
  have inner: "hdr_map st p = NIL" if "h < p" "p < h + n" for p
    using inside_not_header [OF inv(1) assms(5) that(1)] that(2) free assms(12) by simp
  obtain st1 Ls1 where r1: "GC_get_first_part h (HBLKSIZE * a) i st = Done st1 (Some h)" and l1: "lists_ok st1 Ls1" and x1: "indexed st1"
    and c1: "set (concat Ls1) = set (concat Ls) - {h} \<union> remainder_at h a n"
    and f1: "\<And>j g. j < 61 \<Longrightarrow> g \<in> set (Ls1 ! j) \<Longrightarrow> fl_index (hdr_map st1) g = j"
    and b1: "\<And>p. p \<notin> remainder_at h a n \<Longrightarrow> bare (hdr_map st1) p = bare (hdr_map st) p"
    and e1: "a < n \<Longrightarrow> \<exists>e. hdr_map st1 (h + a) = Header e \<and> HBLK_IS_FREE e \<and> IS_MAPPED e \<and> hb_sz e = HBLKSIZE * (n - a)"
    and o1: "mem_mapped st1 = mem_mapped st" "GC_large_free_bytes st1 = GC_large_free_bytes st" "GC_obj_map st1 = GC_obj_map st" "elsewhere st1 = elsewhere st"
    by (rule first_part_ok [OF binv assms(2-6) ans a assms(11,12)]) blast
  note els1 = elsewhere_fields [OF o1(4)]
  have sorted1: "sorted_wrt (<) (bottom_indices st1)" using x1 by (simp add: indexed_def)
  have ans1: "\<forall>n. mem_answers st1 n" using ans els1 by simp
  have top: "h + a \<le> 2 ^ 52" using range assms(11) by simp
  obtain B r where r2: "GC_install_counts h (HBLKSIZE * a) st1 = Done (st1\<lparr>bottom_indices := B, mem_requests := r,
      hdr_map := (\<lambda>p. if h < p \<and> p < h + a then Jump (min (p - h) MAX_JUMP) else hdr_map st1 p)\<rparr>) True"
    and B: "sorted_wrt (<) B" "set (bottom_indices st1) \<subseteq> set B" "\<And>q. h \<le> q \<Longrightarrow> q < h + a \<Longrightarrow> q div BOTTOM_SZ \<in> set B"
    by (rule install_counts_ok [OF sorted1 ans1 top a]) blast
  let ?m2 = "\<lambda>p. if h < p \<and> p < h + a then Jump (min (p - h) MAX_JUMP) else hdr_map st1 p"
  let ?st2 = "st1\<lparr>bottom_indices := B, mem_requests := r, hdr_map := ?m2\<rparr>"
  have "bare (hdr_map st1) h = bare (hdr_map st) h" using a by (intro b1) (simp add: remainder_at_def)
  with assms(5) obtain d1 where d1: "hdr_map st1 h = Header d1" by (auto simp: bare_def split: hdr_entry.splits)
  then have d2: "hdr_map ?st2 h = Header d1" by simp
  have sup2: "supplied ?st2" using sup els1 o1(3) by (simp add: supplied_def)
  have kind2: "kind < length (GC_obj_kinds ?st2)" using assms(7) els1 by simp
  obtain d' M r' where r3: "setup_header h h sz kind flags ?st2 = Done (?st2\<lparr>hdr_map := ?m2(h := Header d'), mem_requests := r', GC_obj_map := M\<rparr>) True"
    and d': "hb_sz d' = sz" "hb_obj_kind d' = kind mod 256" "\<not> HBLK_IS_FREE d'" "IS_MAPPED d'" and M: "length M = 129"
    by (rule setup_header_ok [OF sup2 d2 kind2 assms(8), of h sz]) (use that in simp)
  let ?m3 = "?m2(h := Header d')"
  let ?st3 = "st1\<lparr>bottom_indices := B, mem_requests := r', hdr_map := ?m3, GC_obj_map := M, GC_fail_count := 0,
    GC_large_free_bytes := word_sub (GC_large_free_bytes st1) (HBLKSIZE * a)\<rparr>"
  obtain e where e: "a < n \<Longrightarrow> hdr_map st1 (h + a) = Header e \<and> HBLK_IS_FREE e \<and> IS_MAPPED e \<and> hb_sz e = HBLKSIZE * (n - a)"
    using e1 by blast
  have en: "nblocks e = n - a" if "a < n" using e [OF that] by (simp add: block_arith)
  let ?ds = "d' # tail_hdrs a n e"
  have dn: "nblocks d' = a" using d'(1) assms(10) by simp
  have nil1: "hdr_map st1 p = NIL" if "h < p" "p < h + n" "p \<noteq> h + a" for p
    using b1 [of p] inner [OF that(1,2)] that(3) bare_NIL by (metis empty_iff insert_iff remainder_at_def)
  have none1: "a = n \<Longrightarrow> F = F" for F :: "hblk set" by simp
  have laid: "laid ?m3 h ?ds"
  proof (cases "a < n")
    case True
    have "hdr_map st1 (h + a + k) = NIL" if "0 < k" "k < n - a" for k by (rule nil1) (use a that in auto)
    with e [OF True] en [OF True] True a dn d' show ?thesis by (auto simp: tail_hdrs_def)
  next
    case False
    with a dn d' show ?thesis by (simp add: tail_hdrs_def)
  qed
  have rows: "n = row_blocks ?ds" using dn en assms(11) by (auto simp: tail_hdrs_def)
  have szlt: "sz < 2 ^ 63"
  proof -
    have "sz \<le> 4096 * a" using assms(10) unfolding block_arith(5) by auto
    moreover have "4096 * a \<le> HBLKSIZE * n" using assms(11) by (simp add: block_arith(2))
    ultimately show ?thesis using dlt by linarith
  qed
  have tiles: "\<forall>d \<in> set ?ds. tile_ok d"
  proof -
    have "tile_ok e" if "a < n"
    proof -
      have "HBLKSIZE * (n - a) < 2 ^ 63" using dlt by (simp add: block_arith(2))
      with e [OF that] that show ?thesis by (simp add: tile_ok_def block_arith(2))
    qed
    with d' assms(9) szlt show ?thesis by (auto simp: tile_ok_def tail_hdrs_def)
  qed
  have out: "bare ?m3 p = bare (hdr_map st) p \<and> mem_mapped ?st3 p = mem_mapped st p" if "p < h \<or> h + n \<le> p" for p
  proof -
    have p: "p \<noteq> h" "\<not> (h < p \<and> p < h + a)" "p \<notin> remainder_at h a n" using that a assms(11) by (auto simp: remainder_at_def)
    then have "?m3 p = hdr_map st1 p" by auto
    then have "bare ?m3 p = bare (hdr_map st1) p" by (simp add: bare_def)
    with b1 [OF p(3)] o1(1) show ?thesis by simp
  qed
  have idx: "indexed ?st3"
    unfolding indexed_def has_index_def
  proof (intro conjI allI impI)
    fix p assume "hdr_map ?st3 p \<noteq> NIL"
    then consider "h \<le> p" "p < h + a" | "hdr_map st1 p \<noteq> NIL" using a by (auto split: if_splits)
    then show "p div BOTTOM_SZ \<in> set (bottom_indices ?st3)"
      using B(2,3) x1 by cases (auto simp: indexed_def has_index_def)
  qed (simp add: B(1))
  have hnot: "h \<notin> set (concat Ls1)" unfolding c1 using a by (auto simp: remainder_at_def)
  have inside: "g \<notin> set (concat Ls1)" if "h < g" "g < h + a" for g
  proof -
    have "g \<notin> set (concat Ls)" using inner [of g] that assms(11) inv(6) [of g] by (auto simp: free_at_def)
    with that show ?thesis unfolding c1 by (auto simp: remainder_at_def)
  qed
  have kept: "?m3 g = hdr_map st1 g" if "g \<in> set (concat Ls1)" for g using that hnot inside by auto
  have lists: "lists_ok ?st3 Ls1" by (rule lists_ok_others [OF l1]) (use kept in simp_all)
  have fr: "free_at ?m3 p \<longleftrightarrow> p \<in> remainder_at h a n" if "p < h + n" "h \<le> p" for p
  proof -
    have "free_at ?m3 h = False" using d'(3) by (simp add: free_at_def)
    moreover have "free_at ?m3 p = False" if "h < p" "p \<noteq> h + a" using nil1 [of p] that \<open>p < h + n\<close> by (auto simp: free_at_def)
    moreover have "free_at ?m3 p" if "a < n" "p = h + a" using e [OF that(1)] that a by (simp add: free_at_def)
    ultimately show ?thesis using that a by (cases "p = h"; cases "p = h + a") (auto simp: remainder_at_def)
  qed
  have mapd: "IS_MAPPED x" if "h \<le> p" "p < h + n" "?m3 p = Header x" for p x
    using that nil1 [of p] e d'(4) a by (cases "p = h"; cases "p = h + a") (auto split: if_splits)
  have pages: "mem_mapped ?st3 p" if "h \<le> p" "p < h + n" for p
    using inv(4) assms(5,6,12) that o1(1) by (auto simp: mapping_ok_def region_def)
  have rem: "remainder_at h a n \<subseteq> {h..<h + n}" by (auto simp: remainder_at_def)
  have fl: "fl_index ?m3 g = j" if "j < 61" "g \<in> set (Ls1 ! j)" "g \<notin> {}" for j g
    using f1 [OF that(1,2)] kept [OF member_concat [OF l1 that(1,2)]] by (simp add: fl_index_def bytes_at_def)
  have els: "beyond ?st3 = beyond st" using o1(4) by (simp add: beyond_def elsewhere_def)
  have M3: "hdr_map ?st3 = ?m3" by simp
  note res = inv_replace [OF binv assms(5) free assms(12), of ?st3, unfolded M3, OF out laid rows tiles idx lists c1 fr rem mapd pages fl els]
  have i3: "blocks_inv ?st3 Ls1 {} {}" by (rule res(1))
  have c3: "free_cells ?m3 = free_cells (hdr_map st) - {h..<h + n} \<union> free_tiles h ?ds" by (rule res(2))
  have t3: "takes st ?st3" by (rule res(3))
  have ft: "free_tiles h ?ds = {h + a..<h + n}" using d' e en dn assms(11) by (auto simp: tail_hdrs_def region_def)
  have used: "HBLKSIZE * nblocks x < 2 ^ 63" if ux: "used_at ?m3 g = Some x" for g x
  proof (cases "g = h")
    case True
    with ux d' dn have "nblocks x = a" by (auto simp: used_at_def bare_def split: if_splits)
    with assms(11) dlt show ?thesis by (simp add: block_arith(2))
  next
    case False
    with ux have m1: "used_at (hdr_map st1) g = Some x" by (auto simp: used_at_def bare_def split: if_splits)
    have "g \<notin> remainder_at h a n"
    proof
      assume "g \<in> remainder_at h a n"
      then have g: "g = h + a" "a < n" by (auto simp: remainder_at_def split: if_splits)
      with map_le_used_Some [OF m1] e [OF g(2)] show False by auto
    qed
    with m1 b1 [of g] have "used_at (hdr_map st) g = Some x" by (simp add: used_at_def)
    then show ?thesis by (rule small)
  qed
  have "{h..<h + n} = region h d" using assms(12) by (simp add: region_def)
  then have R: "{h..<h + n} \<subseteq> free_cells (hdr_map st)" using assms(5) free by (auto simp: free_cells_def)
  have cells: "free_cells ?m3 = free_cells (hdr_map st) - {h..<h + a}"
    unfolding c3 ft using R assms(11) by auto
  have sub: "{h..<h + a} \<subseteq> free_cells (hdr_map st)" using R assms(11) by auto
  have count: "word_sub (GC_large_free_bytes st) (HBLKSIZE * a) = card (free_cells ?m3) * HBLKSIZE"
    by (rule free_count [OF inv(1) bytes sub cells])
  have final: "alloc_ok ?st3 Ls1 {}"
    unfolding alloc_ok_def using i3 count used M sup els1 o1(2) by (simp add: supplied_def)
  have run: "andthen (GC_get_first_part h (HBLKSIZE * a) i) (\<lambda>r.
     case r of
       None \<Rightarrow> ret None
     | Some hbp \<Rightarrow>
         andthen (GC_install_counts hbp (HBLKSIZE * a)) (\<lambda>ok.
         if \<not> ok then ret None
         else
           andthen (setup_header hbp hbp sz kind flags) (\<lambda>ok.
           if \<not> ok then andthen (GC_remove_counts hbp (HBLKSIZE * a)) (\<lambda>_. ret None)
           else
             andthen (modifies (\<lambda>st. st\<lparr>GC_fail_count := 0,
               GC_large_free_bytes := word_sub (GC_large_free_bytes st) (HBLKSIZE * a)\<rparr>)) (\<lambda>_.
             ret (Some hbp))))) st = Done ?st3 (Some h)"
    by (simp add: andthen_run [of "GC_get_first_part _ _ _", OF r1] andthen_run [of "GC_install_counts _ _", OF r2]
      andthen_run [of "setup_header _ _ _ _ _", OF r3] run_steps ret_def)
  have "hdr_map ?st3 h = Header d'" by simp
  with run final t3 d' show ?thesis by blast
qed

lemma alloc_ok_view:
  assumes "alloc_ok st Ls W" and "blocks_inv st' Ls' {} W'" and "same_view st st'"
  shows "alloc_ok st' Ls' W'"
  using assms elsewhere_fields [of st' st] by (auto simp: alloc_ok_def same_view_def supplied_def)

lemma remap_ok:
  assumes "alloc_ok st Ls W" and "hdr_map st h = Header d" and "HBLK_IS_FREE d"
  obtains st' d' where "remap_block h d st = Done st' ()" and "alloc_ok st' Ls W" and "takes st st'" and "free_cells (hdr_map st') = free_cells (hdr_map st)"
    and "hdr_map st' h = Header d'" and "IS_MAPPED d'" and "hb_sz d' = hb_sz d" and "HBLK_IS_FREE d'"
    and "hb_next d' = hb_next d" and "hb_prev d' = hb_prev d"
proof -
  from assms(1) have "blocks_inv st Ls {} W" by (simp add: alloc_ok_def)
  then obtain st' d' where st': "remap_block h d st = Done st' ()" "blocks_inv st' Ls {} W" "same_view st st'"
    "hdr_map st' h = Header d'" "IS_MAPPED d'" "hb_sz d' = hb_sz d" "HBLK_IS_FREE d'" "shape (hdr_map st') = shape (hdr_map st)"
    "hb_next d' = hb_next d" "hb_prev d' = hb_prev d"
    by (rule remap_run [OF _ assms(2,3)])
  from that [OF st'(1) alloc_ok_view [OF assms(1) st'(2,3)] same_view_takes [OF st'(3,8)] _ st'(4-7,9,10)] st'(3)
  show ?thesis by (simp add: same_view_def)
qed

text \<open>What a search that ends with a block returns.\<close>

definition returns_block :: "gc_state \<Rightarrow> gc_state \<Rightarrow> nat \<Rightarrow> nat \<Rightarrow> hblk \<Rightarrow> bool" where
  "returns_block st st' sz kind h \<longleftrightarrow>
     used_at (hdr_map st) h = None \<and> (\<exists>d. used_at (hdr_map st') h = Some d \<and> hb_sz d = sz \<and> hb_obj_kind d = kind mod 256)"

lemma returns_block_takes: "takes st st1 \<Longrightarrow> returns_block st1 st' sz kind h \<Longrightarrow> returns_block st st' sz kind h"
  unfolding takes_def returns_block_def map_le_def by (metis domIff)

lemma used_at_Header: "hdr_map st h = Header d \<Longrightarrow> used_at (hdr_map st) h = (if HBLK_IS_FREE d then None else Some (d\<lparr>hb_next := None, hb_prev := None\<rparr>))"
  by (simp add: used_at_def bare_def HBLK_IS_FREE_def)

lemma listed_free:
  assumes "blocks_inv st Ls X W" and "i < 61" and "Ls ! i = xs @ h # ys" and "hdr_map st h = Header d"
  shows "HBLK_IS_FREE d"
  using concat_update_remove(2) [OF blocks_invD(3) [OF assms(1)] assms(2,3)] blocks_invD(6) [OF assms(1), of h] assms(4)
  by (auto simp: free_at_def)

lemma take_block_ok:
  assumes "alloc_ok st Ls W" and "W \<subseteq> {h}" and "i < 61" and "Ls ! i = xs @ h # ys" and "hdr_map st h = Header d"
    and "kind < length (GC_obj_kinds st)" and "plain_flags flags" and "0 < sz" and "blocks_of_bytes sz = a" and "HBLKSIZE * a \<le> hb_sz d"
  shows "\<exists>st' Ls'. take_block h (HBLKSIZE * a) sz kind flags i st = Done st' (Some h) \<and> alloc_ok st' Ls' {} \<and> takes st st' \<and>
    returns_block st st' sz kind h"
proof -
  from assms(1) have binv: "blocks_inv st Ls {} W" by (simp add: alloc_ok_def)
  have free: "HBLK_IS_FREE d" by (rule listed_free [OF binv assms(3-5)])
  obtain st1 d1 where r1: "remap_block h d st = Done st1 ()" and a1: "alloc_ok st1 Ls W" and t1: "takes st st1"
    and d1: "hdr_map st1 h = Header d1" "IS_MAPPED d1" "hb_sz d1 = hb_sz d" "HBLK_IS_FREE d1"
    by (rule remap_ok [OF assms(1,5) free])
  have kind: "kind < length (GC_obj_kinds st1)" using assms(6) t1 beyond_fields [of st1 st] by (simp add: takes_def)
  have "layout (hdr_map st1)" using a1 by (auto simp: alloc_ok_def dest: blocks_invD(1))
  then have "hb_sz d1 = HBLKSIZE * nblocks d1" using d1(1,4) by (rule free_size)
  then have le: "a \<le> nblocks d1" using assms(10) d1(3) by (simp add: block_arith(2))
  from take_mapped_ok [OF a1 assms(2-4) d1(1,2) kind assms(7-9) le refl] obtain st' d' Ls'
    where st': "take_block h (HBLKSIZE * a) sz kind flags i st = Done st' (Some h)" "alloc_ok st' Ls' {}" "takes st1 st'"
      "hdr_map st' h = Header d'" "hb_sz d' = sz" "hb_obj_kind d' = kind mod 256" "\<not> HBLK_IS_FREE d'"
    unfolding take_block_def andthen_get_hdr [of st h, OF assms(5)] remap_block_def [symmetric] andthen_run [of "remap_block _ _", OF r1]
    by blast
  have "returns_block st st' sz kind h"
    using used_at_Header [OF assms(5)] used_at_Header [OF st'(4)] free st'(5-7) by (simp add: returns_block_def)
  with st' takes_trans [OF t1 st'(3)] show ?thesis by blast
qed

end
