(* ===== verification/Gc_Dropping.thy ===== *)
theory Gc_Dropping
  imports Gc_Taking
begin

text \<open>
  Dropping a block that is black-listed everywhere: it comes into use in pieces of one block each, which a later collection
  may free again.
\<close>

definition piece_ok :: "hdr \<Rightarrow> bool" where
  "piece_ok d \<longleftrightarrow> hb_sz d = HBLKSIZE \<and> \<not> HBLK_IS_FREE d \<and> IS_MAPPED d"

lemma setup_piece:
  assumes "supplied st" and "hdr_map st h = Header d" and "GC_obj_kinds st \<noteq> []"
  obtains d' M r where "andthen (setup_header h h HBLKSIZE PTRFREE 0) (\<lambda>_. ret ()) st =
      Done (st\<lparr>mem_requests := r, GC_obj_map := M, hdr_map := (hdr_map st)(h := Header d')\<rparr>) ()"
    and "piece_ok d'" and "length M = 129"
proof -
  have kind: "PTRFREE < length (GC_obj_kinds st)" using assms(3) by (simp add: PTRFREE_def)
  have flags: "plain_flags 0" by (simp add: plain_flags_def)
  obtain d' M r where r: "setup_header h h HBLKSIZE PTRFREE 0 st =
      Done (st\<lparr>hdr_map := (hdr_map st)(h := Header d'), mem_requests := r, GC_obj_map := M\<rparr>) True"
    and d': "hb_sz d' = HBLKSIZE" "\<not> HBLK_IS_FREE d'" "IS_MAPPED d'" "length M = 129"
    by (rule setup_header_ok [OF assms(1,2) kind flags]) blast
  have "andthen (setup_header h h HBLKSIZE PTRFREE 0) (\<lambda>_. ret ()) st =
      Done (st\<lparr>mem_requests := r, GC_obj_map := M, hdr_map := (hdr_map st)(h := Header d')\<rparr>) ()"
    using r by (simp add: andthen_def ret_def)
  with that d' show ?thesis by (simp add: piece_ok_def)
qed

lemma drop_step:
  assumes "supplied st" and "sorted_wrt (<) (bottom_indices st)" and "GC_obj_kinds st \<noteq> []" and "h = hbp \<Longrightarrow> \<exists>d. hdr_map st h = Header d"
  obtains B F r M d where "drop_loop hbp h (Suc n) st = drop_loop hbp (h + 1) n
      (st\<lparr>bottom_indices := B, hdr_free_list := F, mem_requests := r, GC_obj_map := M, hdr_map := (hdr_map st)(h := Header d)\<rparr>)"
    and "sorted_wrt (<) B" and "set (bottom_indices st) \<subseteq> set B" and "h \<noteq> hbp \<Longrightarrow> h div BOTTOM_SZ \<in> set B" and "piece_ok d" and "length M = 129"
proof (cases "h = hbp")
  case True
  with assms(4) obtain d where d: "hdr_map st hbp = Header d" by auto
  obtain d' M r where r: "andthen (setup_header hbp hbp HBLKSIZE PTRFREE 0) (\<lambda>_. ret ()) st =
      Done (st\<lparr>mem_requests := r, GC_obj_map := M, hdr_map := (hdr_map st)(hbp := Header d')\<rparr>) ()" "piece_ok d'" "length M = 129"
    by (rule setup_piece [OF assms(1) d assms(3)])
  have "drop_loop hbp h (Suc n) st = drop_loop hbp (h + 1) n (st\<lparr>bottom_indices := bottom_indices st, hdr_free_list := hdr_free_list st,
      mem_requests := r, GC_obj_map := M, hdr_map := (hdr_map st)(h := Header d')\<rparr>)"
    using True by (simp add: run_steps andthen_run [of "andthen (setup_header _ _ _ _ _) _", OF r(1)])
  from that [OF this assms(2) _ _ r(2,3)] True show ?thesis by simp
next
  case False
  have ans: "\<forall>n. mem_answers st n" using assms(1) by (simp add: supplied_def)
  obtain B F r e where i: "GC_install_header h st =
      Done (st\<lparr>bottom_indices := B, hdr_free_list := F, mem_requests := r, hdr_map := (hdr_map st)(h := Header e)\<rparr>) True"
    "sorted_wrt (<) B" "set B = insert (h div BOTTOM_SZ) (set (bottom_indices st))"
    by (rule install_header_supplied [OF assms(2) ans])
  let ?st = "st\<lparr>bottom_indices := B, hdr_free_list := F, mem_requests := r, hdr_map := (hdr_map st)(h := Header e)\<rparr>"
  obtain d' M r' where r: "andthen (setup_header h h HBLKSIZE PTRFREE 0) (\<lambda>_. ret ()) ?st =
      Done (?st\<lparr>mem_requests := r', GC_obj_map := M, hdr_map := (hdr_map ?st)(h := Header d')\<rparr>) ()" "piece_ok d'" "length M = 129"
    by (rule setup_piece [of ?st h e]) (use assms(1,3) in \<open>auto simp: supplied_def\<close>)
  have "drop_loop hbp h (Suc n) st = drop_loop hbp (h + 1) n (st\<lparr>bottom_indices := B, hdr_free_list := F,
      mem_requests := r', GC_obj_map := M, hdr_map := (hdr_map st)(h := Header d')\<rparr>)"
    using False by (simp add: andthen_run [of "GC_install_header _", OF i(1)] andthen_run [of "andthen (setup_header _ _ _ _ _) _", OF r(1)])
  from that [OF this i(2) _ _ r(2,3)] i(3) show ?thesis by auto
qed

lemma drop_loop_run:
  assumes "supplied st" and "sorted_wrt (<) (bottom_indices st)" and "GC_obj_kinds st \<noteq> []"
    and "h \<le> hbp \<Longrightarrow> \<exists>d. hdr_map st hbp = Header d"
  shows "\<exists>B F r M D. drop_loop hbp h n st = Done (st\<lparr>bottom_indices := B, hdr_free_list := F, mem_requests := r, GC_obj_map := M,
      hdr_map := (\<lambda>p. if h \<le> p \<and> p < h + n then Header (D p) else hdr_map st p)\<rparr>) () \<and>
    sorted_wrt (<) B \<and> set (bottom_indices st) \<subseteq> set B \<and> (\<forall>p. h \<le> p \<and> p < h + n \<and> p \<noteq> hbp \<longrightarrow> p div BOTTOM_SZ \<in> set B) \<and>
    (\<forall>p. h \<le> p \<and> p < h + n \<longrightarrow> piece_ok (D p)) \<and> length M = 129"
  using assms
proof (induction n arbitrary: h st)
  case 0
  have "(\<lambda>p. if h \<le> p \<and> p < h + 0 then Header (D p) else hdr_map st p) = hdr_map st" for D by (rule ext) auto
  then have "drop_loop hbp h 0 st = Done (st\<lparr>bottom_indices := bottom_indices st, hdr_free_list := hdr_free_list st, mem_requests := mem_requests st,
      GC_obj_map := GC_obj_map st, hdr_map := (\<lambda>p. if h \<le> p \<and> p < h + 0 then Header (undefined p) else hdr_map st p)\<rparr>) ()"
    by (simp add: ret_def)
  then show ?case using 0 by (intro exI conjI) (assumption, auto simp: supplied_def)
next
  case (Suc n)
  obtain B F r M d where step: "drop_loop hbp h (Suc n) st = drop_loop hbp (h + 1) n
      (st\<lparr>bottom_indices := B, hdr_free_list := F, mem_requests := r, GC_obj_map := M, hdr_map := (hdr_map st)(h := Header d)\<rparr>)"
    "sorted_wrt (<) B" "set (bottom_indices st) \<subseteq> set B" "h \<noteq> hbp \<Longrightarrow> h div BOTTOM_SZ \<in> set B" "piece_ok d" "length M = 129"
    by (rule drop_step [OF Suc.prems(1-3), of h hbp n]) (use Suc.prems(4) in auto)
  let ?st = "st\<lparr>bottom_indices := B, hdr_free_list := F, mem_requests := r, GC_obj_map := M, hdr_map := (hdr_map st)(h := Header d)\<rparr>"
  have pre: "supplied ?st" "sorted_wrt (<) (bottom_indices ?st)" "GC_obj_kinds ?st \<noteq> []" "h + 1 \<le> hbp \<Longrightarrow> \<exists>d. hdr_map ?st hbp = Header d"
    using Suc.prems step(2,6) by (auto simp: supplied_def)
  from Suc.IH [OF pre(1-3), of "h + 1"] pre(4) obtain B' F' r' M' D
    where run: "drop_loop hbp (h + 1) n ?st = Done (?st\<lparr>bottom_indices := B', hdr_free_list := F', mem_requests := r', GC_obj_map := M',
        hdr_map := (\<lambda>p. if h + 1 \<le> p \<and> p < h + 1 + n then Header (D p) else hdr_map ?st p)\<rparr>) ()"
    and B': "sorted_wrt (<) B'" "set B \<subseteq> set B'" "\<And>p. h + 1 \<le> p \<Longrightarrow> p < h + 1 + n \<Longrightarrow> p \<noteq> hbp \<Longrightarrow> p div BOTTOM_SZ \<in> set B'"
    and D: "\<And>p. h + 1 \<le> p \<Longrightarrow> p < h + 1 + n \<Longrightarrow> piece_ok (D p)" and M': "length M' = 129" by auto
  let ?D = "D(h := d)"
  have eq: "(\<lambda>p. if h + 1 \<le> p \<and> p < h + 1 + n then Header (D p) else hdr_map ?st p) =
      (\<lambda>p. if h \<le> p \<and> p < h + Suc n then Header (?D p) else hdr_map st p)" by (rule ext) auto
  have "drop_loop hbp h (Suc n) st = Done (st\<lparr>bottom_indices := B', hdr_free_list := F', mem_requests := r', GC_obj_map := M',
      hdr_map := (\<lambda>p. if h \<le> p \<and> p < h + Suc n then Header (?D p) else hdr_map st p)\<rparr>) ()"
    unfolding step(1) run eq by simp
  moreover have "p div BOTTOM_SZ \<in> set B'" if "h \<le> p" "p < h + Suc n" "p \<noteq> hbp" for p
    using that B'(2,3) step(4) by (cases "p = h") auto
  moreover have "piece_ok (?D p)" if "h \<le> p" "p < h + Suc n" for p
    using that D step(5) by (cases "p = h") auto
  ultimately show ?case using B' step(3) M' by blast
qed

lemma piece_blocks: "piece_ok d \<Longrightarrow> nblocks d = 1 \<and> tile_ok d"
  by (simp add: piece_ok_def tile_ok_def block_arith)

lemma laid_pieces:
  assumes "\<And>p. h \<le> p \<Longrightarrow> p < h + n \<Longrightarrow> m p = Header (D p) \<and> piece_ok (D p)"
  shows "laid m h (map D [h..<h + n]) \<and> row_blocks (map D [h..<h + n]) = n"
  using assms
proof (induction n arbitrary: h)
  case (Suc n)
  have "laid m (h + 1) (map D [h + 1..<h + 1 + n]) \<and> row_blocks (map D [h + 1..<h + 1 + n]) = n"
    by (rule Suc.IH) (use Suc.prems in auto)
  moreover have "[h..<h + Suc n] = h # [h + 1..<h + 1 + n]" by (simp add: upt_conv_Cons)
  ultimately show ?case using Suc.prems [of h] piece_blocks [of "D h"] by simp
qed simp

lemma free_tiles_none: "\<forall>d \<in> set ds. \<not> HBLK_IS_FREE d \<Longrightarrow> free_tiles h ds = {}"
  by (induction ds arbitrary: h) auto

lemma drop_block_ok:
  assumes "alloc_ok st Ls {}" and "i < 61" and "Ls ! i = xs @ h # ys" and "hdr_map st h = Header d" and "IS_MAPPED d" and "GC_obj_kinds st \<noteq> []"
  shows "\<exists>st'. drop_block h i st = Done st' (case last_opt None xs of None \<Rightarrow> Restart | Some p \<Rightarrow> Candidate p 0) \<and>
    alloc_ok st' (Ls[i := xs @ ys]) {} \<and> takes st st'"
proof -
  from assms(1) have binv: "blocks_inv st Ls {} {}" and sup: "supplied st" and bytes: "GC_large_free_bytes st = card (free_cells (hdr_map st)) * HBLKSIZE"
    and small: "\<And>h d. used_at (hdr_map st) h = Some d \<Longrightarrow> HBLKSIZE * nblocks d < 2 ^ 63" by (auto simp: alloc_ok_def)
  note inv = blocks_invD [OF binv]
  have free: "HBLK_IS_FREE d" by (rule listed_free [OF binv assms(2-4)])
  define n where "n = nblocks d"
  have dsz: "hb_sz d = HBLKSIZE * n" using free_size [OF inv(1) assms(4) free] by (simp add: n_def)
  have dv: "divHBLKSZ (HBLKSIZE * n) = n" by (simp add: block_arith(1,2))
  obtain d0 where d0: "hdr_map st h = Header d0" "hb_prev d0 = last_opt None xs" by (rule links_header [OF inv(3) assms(2,3)])
  then have prev: "hb_prev d = last_opt None xs" using assms(4) by simp
  let ?st0 = "st\<lparr>GC_large_free_bytes := word_sub (GC_large_free_bytes st) (HBLKSIZE * n),
    GC_bytes_dropped := word_add (GC_bytes_dropped st) (HBLKSIZE * n)\<rparr>"
  have inv0: "blocks_inv ?st0 Ls {} {}" by (rule blocks_inv_cong [THEN iffD2, OF _ _ _ _ _ binv]) simp_all
  let ?Ls = "Ls[i := xs @ ys]"
  obtain st1 where r1: "GC_remove_from_fl_at h i ?st0 = Done st1 ()" and i1: "blocks_inv st1 ?Ls {h} ({} - {h})" and l1: "only_lists ?st0 st1"
    using completes_unit [OF inv_remove_at [OF inv0 assms(2,3)]] by blast
  note b1 = only_lists_fields [OF l1] and inv1 = blocks_invD [OF i1]
  have o1: "GC_large_free_bytes st1 = word_sub (GC_large_free_bytes st) (HBLKSIZE * n)" "GC_obj_map st1 = GC_obj_map st" "elsewhere st1 = elsewhere st"
    using l1 by (auto simp: only_lists_def elsewhere_def)
  note els1 = elsewhere_fields [OF o1(3)]
  have sup1: "supplied st1" using sup o1(2) els1 by (simp add: supplied_def)
  have sorted1: "sorted_wrt (<) (bottom_indices st1)" using inv1(2) by (simp add: indexed_def)
  have kinds1: "GC_obj_kinds st1 \<noteq> []" using assms(6) els1 by simp
  obtain d1 where d1: "hdr_map st1 h = Header d1" using bare_Header [OF b1(1) [symmetric], of h d] assms(4) by auto
  obtain B F r M D where r2: "drop_loop h h n st1 = Done (st1\<lparr>bottom_indices := B, hdr_free_list := F, mem_requests := r, GC_obj_map := M,
      hdr_map := (\<lambda>p. if h \<le> p \<and> p < h + n then Header (D p) else hdr_map st1 p)\<rparr>) ()"
    and B: "sorted_wrt (<) B" "set (bottom_indices st1) \<subseteq> set B" "\<And>p. h \<le> p \<Longrightarrow> p < h + n \<Longrightarrow> p \<noteq> h \<Longrightarrow> p div BOTTOM_SZ \<in> set B"
    and D: "\<And>p. h \<le> p \<Longrightarrow> p < h + n \<Longrightarrow> piece_ok (D p)" and M: "length M = 129"
    using drop_loop_run [OF sup1 sorted1 kinds1, of h h n] d1 by blast
  let ?m = "\<lambda>p. if h \<le> p \<and> p < h + n then Header (D p) else hdr_map st1 p"
  let ?st2 = "st1\<lparr>bottom_indices := B, hdr_free_list := F, mem_requests := r, GC_obj_map := M, hdr_map := ?m\<rparr>"
  let ?ds = "map D [h..<h + n]"
  have pieces: "laid ?m h ?ds \<and> row_blocks ?ds = n" by (rule laid_pieces) (use D in simp)
  then have laid: "laid ?m h ?ds" and rows: "n = row_blocks ?ds" by simp_all
  have tiles: "\<forall>d \<in> set ?ds. tile_ok d" and used: "\<forall>d \<in> set ?ds. \<not> HBLK_IS_FREE d" using D piece_blocks by (auto simp: piece_ok_def)
  have out: "bare ?m p = bare (hdr_map st) p \<and> mem_mapped ?st2 p = mem_mapped st p" if "p < h \<or> h + n \<le> p" for p
  proof -
    have "bare ?m p = bare (hdr_map st1) p" using that by (auto simp: bare_def)
    then show ?thesis using b1(1,3) by simp
  qed
  have idx: "indexed ?st2"
    unfolding indexed_def has_index_def
  proof (intro conjI allI impI)
    fix p assume "hdr_map ?st2 p \<noteq> NIL"
    then consider "h \<le> p" "p < h + n" "p \<noteq> h" | "hdr_map st1 p \<noteq> NIL" using d1 by (cases "p = h") (auto split: if_splits)
    then show "p div BOTTOM_SZ \<in> set (bottom_indices ?st2)" using B(2,3) inv1(2) by cases (auto simp: indexed_def has_index_def)
  qed (simp add: B(1))
  have c1: "set (concat ?Ls) = set (concat Ls) - {h} \<union> {}" using concat_update_remove(1) [OF inv(3) assms(2,3)] by simp
  have kept: "?m g = hdr_map st1 g" if g: "g \<in> set (concat ?Ls)" for g
  proof -
    have "g \<noteq> h" "free_at (hdr_map st) g" using g inv(6) [of g] unfolding c1 by simp_all
    then obtain e where e: "hdr_map st g = Header e" "g \<noteq> h" by (auto simp: free_at_def)
    from regions_disjoint [OF inv(1) e(1) assms(4) e(2)] region_start [OF layout_entry [OF inv(1) e(1)]]
    show ?thesis by (auto simp: region_def n_def)
  qed
  have lists: "lists_ok ?st2 ?Ls" by (rule lists_ok_others [OF inv1(3)]) (use kept in simp_all)
  have fr: "free_at ?m p \<longleftrightarrow> p \<in> {}" if "p < h + n" "h \<le> p" for p using D [of p] that by (simp add: free_at_def piece_ok_def)
  have mapd: "IS_MAPPED x" if "h \<le> p" "p < h + n" "?m p = Header x" for p x using D [of p] that by (simp add: piece_ok_def)
  have pages: "mem_mapped ?st2 p" if "h \<le> p" "p < h + n" for p
    using inv(4) assms(4,5) that b1(3) by (auto simp: mapping_ok_def region_def n_def)
  have fl: "fl_index ?m g = j" if "j < 61" "g \<in> set (?Ls ! j)" "g \<notin> {}" for j g
    using inv1(7) [OF that(1,2)] kept [OF member_concat [OF inv1(3) that(1,2)]] by (simp add: fl_index_def bytes_at_def)
  have els: "beyond ?st2 = beyond st" using o1(3) by (simp add: beyond_def elsewhere_def)
  have M2: "hdr_map ?st2 = ?m" by simp
  note res = inv_replace [OF binv assms(4) free n_def [symmetric], of ?st2, unfolded M2, OF out laid rows tiles idx lists c1 fr empty_subsetI mapd pages fl els]
  have i2: "blocks_inv ?st2 ?Ls {} {}" by (rule res(1))
  have cells: "free_cells ?m = free_cells (hdr_map st) - {h..<h + n}"
  proof -
    have "free_cells ?m = free_cells (hdr_map st) - {h..<h + n} \<union> free_tiles h ?ds" by (rule res(2))
    then show ?thesis unfolding free_tiles_none [OF used] by simp
  qed
  have t2: "takes st ?st2" by (rule res(3))
  have "{h..<h + n} = region h d" by (simp add: region_def n_def)
  then have sub: "{h..<h + n} \<subseteq> free_cells (hdr_map st)" using assms(4) free by (auto simp: free_cells_def)
  note count = free_count [OF inv(1) bytes sub cells]
  have "HBLKSIZE * nblocks x < 2 ^ 63" if ux: "used_at ?m g = Some x" for g x
  proof (cases "h \<le> g \<and> g < h + n")
    case True
    with map_le_used_Some [OF ux] D [of g] have "hb_sz x = HBLKSIZE" by (auto simp: piece_ok_def)
    then show ?thesis by (simp add: block_arith)
  next
    case False
    then have "bare ?m g = bare (hdr_map st) g" using out [of g] by auto
    with ux have "used_at (hdr_map st) g = Some x" by (simp only: used_at_def)
    then show ?thesis by (rule small)
  qed
  with i2 count M sup1 o1(1) have "alloc_ok ?st2 ?Ls {}" unfolding alloc_ok_def by (simp add: supplied_def)
  moreover have "drop_block h i st = Done ?st2 (case last_opt None xs of None \<Rightarrow> Restart | Some p \<Rightarrow> Candidate p 0)"
    unfolding drop_block_def andthen_get_hdr [of st h, OF assms(4)] Let_def dsz dv andthen_modifies
      andthen_run [of "GC_remove_from_fl_at h i", OF r1] andthen_run [of "drop_loop h h n", OF r2] prev by (simp add: ret_def)
  ultimately show ?thesis using t2 by blast
qed

end
