(* ===== verification/Gc_Splitting.thy ===== *)
theory Gc_Splitting
  imports Gc_Dropping
begin

text \<open>
  Splitting a free block at an address that is not black-listed: the second part takes the place of the block on its
  list, the first part goes to the list of its size.
\<close>

section \<open>Replacing a member of a list\<close>

lemma dll_replace:
  assumes "dll L first None (xs @ h # ys)" and "distinct (xs @ h # ys)" and "q \<notin> set (xs @ h # ys)"
  shows "dll (set_prev (first_opt ys) (Some q) (set_next (last_opt None xs) (Some q) (L(q := Some (last_opt None xs, first_opt ys)))))
    (if xs = [] then Some q else first) None (xs @ q # ys)"
proof -
  let ?p = "last_opt None xs" and ?n = "first_opt ys"
  let ?K = "L(q := Some (?p, ?n))"
  let ?L = "set_prev ?n (Some q) (set_next ?p (Some q) ?K)"
  have same: "?K x = L x" if "x \<in> set (xs @ h # ys)" for x using assms(3) that by auto
  have "dll ?K first None (xs @ h # ys)" using dll_frame [of "xs @ h # ys" ?K L, OF same] assms(1) by blast
  then obtain mid nxt where mid: "dseg ?K first None xs mid" "mid = Some h" "dll ?K nxt (Some h) ys"
    by (auto simp: dll_append)
  have np: "?p \<noteq> Some y" if "y \<in> set ys \<or> y = q" for y
    using assms(2,3) that by (cases "xs = []") (auto simp: last_opt_def dest: last_in_set)
  have nn: "?n \<noteq> Some x" if "x \<in> set xs \<or> x = q" for x
    using assms(2,3) that by (cases ys) (auto simp: first_opt_def)
  have ys: "dll ?L ?n (Some q) ys"
  proof -
    have "set_next ?p (Some q) ?K y = ?K y" if "y \<in> set ys" for y using np that by (intro set_next_other) blast
    then have "dll (set_next ?p (Some q) ?K) nxt (Some h) ys" using mid(3) dll_frame [of ys "set_next ?p (Some q) ?K" ?K] by blast
    from dll_relink [OF this] dll_first [OF mid(3)] assms(2) show ?thesis by simp
  qed
  have at: "?L q = Some (?p, ?n)" using np [of q] nn [of q] by (simp add: set_prev_other set_next_other)
  show ?thesis
  proof (cases "xs = []")
    case True
    with ys at show ?thesis by (simp add: last_opt_def)
  next
    case False
    have "dseg (set_next ?p (Some q) ?K) first None xs (Some q)"
      using dseg_relink [OF mid(1)] assms(2) False by (simp add: last_opt_def)
    moreover have "?L x = set_next ?p (Some q) ?K x" if "x \<in> set xs" for x using nn that by (intro set_prev_other) blast
    ultimately have "dseg ?L first None xs (Some q)" using dseg_frame [of xs ?L "set_next ?p (Some q) ?K"] by blast
    with ys at False show ?thesis by (auto simp: dll_append)
  qed
qed

text \<open>The first steps of \<open>GC_split_block\<close>: the new block takes the place of the old one.\<close>

definition replace_on_list :: "hblk \<Rightarrow> hblk option \<Rightarrow> hblk option \<Rightarrow> nat \<Rightarrow> nat \<Rightarrow> unit gc_op" where
  "replace_on_list q prev nxt index h_size =
     andthen (case prev of Some p \<Rightarrow> upd_hdr p (\<lambda>d. d\<lparr>hb_next := Some q\<rparr>) | None \<Rightarrow> set_freelist index (Some q)) (\<lambda>_.
     andthen (case nxt of Some x \<Rightarrow> upd_hdr x (\<lambda>d. d\<lparr>hb_prev := Some q\<rparr>) | None \<Rightarrow> ret ()) (\<lambda>_.
     upd_free_bytes index (\<lambda>b. word_sub b h_size)))"

lemma replace_on_list_ok:
  assumes "lists_ok st Ls" and "i < 61" and "Ls ! i = xs @ h # ys" and "q \<notin> set (concat Ls)"
    and "hdr_map st q = Header e" and "hb_prev e = last_opt None xs" and "hb_next e = first_opt ys"
    and "hb_sz e + s = bytes_at (hdr_map st) h"
  shows "\<exists>st'. replace_on_list q (last_opt None xs) (first_opt ys) i s st = Done st' () \<and> lists_ok st' (Ls[i := xs @ q # ys]) \<and> only_lists st st'"
proof -
  let ?m = "hdr_map st" and ?p = "last_opt None xs" and ?n = "first_opt ys" and ?l = "xs @ q # ys"
  have dist: "distinct (xs @ h # ys)" using assms(1-3) distinct_list [of Ls i] by (simp add: lists_ok_def)
  have qi: "q \<notin> set (xs @ h # ys)" using assms(1-4) member_concat by metis
  have old: "dll (links_of ?m) (GC_hblkfreelist st ! i) None (xs @ h # ys)" using assms(1-3) by (auto simp: lists_ok_def)
  have member: "\<exists>g. ?m x = Header g" if "x \<in> set xs \<or> x \<in> set ys" for x
    using list_member_header [OF assms(1,2), of x] assms(3) that by auto
  define m1 where "m1 = (case ?p of None \<Rightarrow> ?m | Some x \<Rightarrow> (case ?m x of Header g \<Rightarrow> ?m(x := Header (g\<lparr>hb_next := Some q\<rparr>)) | Jump _ \<Rightarrow> ?m))"
  define m2 where "m2 = (case ?n of None \<Rightarrow> m1 | Some x \<Rightarrow> (case m1 x of Header g \<Rightarrow> m1(x := Header (g\<lparr>hb_prev := Some q\<rparr>)) | Jump _ \<Rightarrow> m1))"
  have m1: "links_of m1 = set_next ?p (Some q) (links_of ?m)" "bare m1 = bare ?m"
    unfolding m1_def using member [OF disjI1 [OF last_opt_member]]
    by (auto simp: links_next bare_links set_next_def split: option.split hdr_entry.split)
  have head1: "\<exists>g. m1 x = Header g" if "?n = Some x" for x
  proof -
    have "bare m1 x = bare ?m x" using m1(2) by simp
    with member [OF disjI2 [OF first_opt_member [OF that]]] show ?thesis by (auto simp: bare_def split: hdr_entry.splits)
  qed
  have m2: "links_of m2 = set_prev ?n (Some q) (set_next ?p (Some q) (links_of ?m))" "bare m2 = bare ?m"
    unfolding m2_def using head1 m1
    by (auto simp: links_prev bare_links set_prev_def split: option.split hdr_entry.split)
  have "links_of ?m q = Some (?p, ?n)" using assms(5-7) by (simp add: links_of_def)
  then have lq: "(links_of ?m)(q := Some (?p, ?n)) = links_of ?m" by (rule fun_upd_idem)
  let ?first = "if xs = [] then Some q else GC_hblkfreelist st ! i"
  let ?st = "st\<lparr>hdr_map := m2, GC_hblkfreelist := (GC_hblkfreelist st)[i := ?first],
    GC_free_bytes := (GC_free_bytes st)[i := GC_free_bytes st ! i - s]\<rparr>"
  have len: "i < length Ls" using assms(1,2) by (simp add: lists_ok_def)
  have bytes: "bytes_at m2 = bytes_at ?m" by (metis m2(2) bytes_at_bare)
  have total: "GC_free_bytes st ! i = sum_list (map (bytes_at ?m) (xs @ h # ys))" using assms(1-3) by (simp add: lists_ok_def)
  have "lists_ok ?st (Ls[i := ?l])"
  proof (rule lists_ok_update [OF assms(1,2) _ m2(2)])
    have "add_mset h (mset (concat (Ls[i := ?l]))) = add_mset q (mset (concat Ls))"
      using mset_concat_update [OF len, of ?l] assms(3) by simp
    moreover have "distinct (q # concat Ls)" using assms(1,4) by (simp add: lists_ok_def)
    ultimately have "distinct (h # concat (Ls[i := ?l]))" by (metis mset.simps(2) mset_eq_imp_distinct_iff)
    then show "distinct (concat (Ls[i := ?l]))" by simp
    show "dll (links_of m2) ?first None ?l" using dll_replace [OF old dist qi] unfolding m2(1) lq .
    show "links_of m2 x = links_of ?m x" if "x \<notin> set (Ls ! i)" for x
    proof -
      have "?p \<noteq> Some x" "?n \<noteq> Some x" using that assms(3) last_opt_member first_opt_member by auto
      then show ?thesis unfolding m2(1) by (simp add: set_prev_other set_next_other)
    qed
    show "GC_free_bytes st ! i - s = sum_list (map (bytes_at m2) ?l)"
      using total assms(5,8) by (simp add: bytes bytes_at_def [of _ q])
  qed
  moreover have "only_lists st ?st" unfolding only_lists_def using m2(2) by blast
  moreover have "replace_on_list q ?p ?n i s st = Done ?st ()"
  proof -
    have sub: "word_sub (GC_free_bytes st ! i) s = GC_free_bytes st ! i - s"
      using total assms(8) by (simp add: word_sub_def)
    have lens: "\<not> length (GC_hblkfreelist st) \<le> i" "\<not> length (GC_free_bytes st) \<le> i" using assms(1,2) by (simp_all add: lists_ok_def)
    have xs: "xs = [] \<longleftrightarrow> ?p = None" by (simp add: last_opt_def)
    have p: "case ?p of None \<Rightarrow> True | Some x \<Rightarrow> \<exists>g. ?m x = Header g"
      using member [OF disjI1 [OF last_opt_member]] by (simp split: option.split)
    have n: "case ?n of None \<Rightarrow> True | Some x \<Rightarrow> \<exists>g. m1 x = Header g" using head1 by (simp split: option.split)
    let ?st1 = "st\<lparr>hdr_map := m1, GC_hblkfreelist := (GC_hblkfreelist st)[i := ?first]\<rparr>"
    have link: "(case ?p of None \<Rightarrow> set_freelist i (Some q) | Some p \<Rightarrow> upd_hdr p (\<lambda>d. d\<lparr>hb_next := Some q\<rparr>)) st = Done ?st1 ()"
      using p lens xs by (auto simp: set_freelist_def upd_hdr_def m1_def split: option.splits)
    have "replace_on_list q ?p ?n i s st = andthen (case ?n of None \<Rightarrow> ret () | Some x \<Rightarrow> upd_hdr x (\<lambda>d. d\<lparr>hb_prev := Some q\<rparr>))
        (\<lambda>_. upd_free_bytes i (\<lambda>b. word_sub b s)) ?st1"
      unfolding replace_on_list_def by (subst andthen_run, rule link, rule refl)
    with n lens sub show ?thesis
      by (cases ?n) (auto simp: andthen_def upd_free_bytes_def upd_hdr_def ret_def m2_def)
  qed
  ultimately show ?thesis by blast
qed

section \<open>GC_split_block\<close>

definition only_headers :: "gc_state \<Rightarrow> gc_state \<Rightarrow> bool" where
  "only_headers st st' \<longleftrightarrow> (\<exists>m fl fb. st' = st\<lparr>hdr_map := m, GC_hblkfreelist := fl, GC_free_bytes := fb\<rparr>)"

lemma only_headers_fields:
  assumes "only_headers st st'"
  shows "bottom_indices st' = bottom_indices st" and "mem_mapped st' = mem_mapped st" and "elsewhere st' = elsewhere st"
    and "GC_large_free_bytes st' = GC_large_free_bytes st" and "GC_obj_map st' = GC_obj_map st"
  using assms by (auto simp: only_headers_def elsewhere_def)

lemma only_lists_headers: "only_lists st st' \<Longrightarrow> only_headers st st'"
  by (auto simp: only_lists_def only_headers_def)

lemma only_headers_map: "only_headers st (st\<lparr>hdr_map := m\<rparr>)"
  unfolding only_headers_def by (intro exI [of _ m] exI [of _ "GC_hblkfreelist st"] exI [of _ "GC_free_bytes st"]) simp

lemma only_headers_mark: "only_headers st (mark_free h st)"
  unfolding only_headers_def mark_free_def
  by (cases "hdr_map st h"; intro exI [of _ "hdr_map (mark_free h st)"] exI [of _ "GC_hblkfreelist st"] exI [of _ "GC_free_bytes st"]) (simp_all add: mark_free_def)

lemma only_headers_trans: "only_headers st st1 \<Longrightarrow> only_headers st1 st2 \<Longrightarrow> only_headers st st2"
  by (auto simp: only_headers_def) blast

lemma bare_at:
  assumes "bare m' h = bare m h" and "m h = Header d"
  obtains d' where "m' h = Header d'" and "hb_sz d' = hb_sz d" and "hb_flags d' = hb_flags d"
proof -
  from assms obtain d' where d': "m' h = Header d'" and eq: "d'\<lparr>hb_next := None, hb_prev := None\<rparr> = d\<lparr>hb_next := None, hb_prev := None\<rparr>"
    by (auto simp: bare_def split: hdr_entry.splits)
  from arg_cong [OF eq, of hb_sz] arg_cong [OF eq, of hb_flags] that [OF d'] show ?thesis by simp
qed

lemma bytes_bare: "bare m' h = bare m h \<Longrightarrow> bytes_at m' h = bytes_at m h"
  by (auto simp: bytes_at_def bare_def split: hdr_entry.splits dest: arg_cong [of _ _ hb_sz])

lemma set_concat_replace:
  assumes "lists_ok st Ls" and "i < 61" and "Ls ! i = xs @ h # ys" and "q \<notin> set (concat Ls)"
  shows "set (concat (Ls[i := xs @ q # ys])) = insert q (set (concat Ls) - {h})"
proof -
  have len: "i < length Ls" using assms(1,2) by (simp add: lists_ok_def)
  have eq: "add_mset h (mset (concat (Ls[i := xs @ q # ys]))) = add_mset q (mset (concat Ls))"
    using mset_concat_update [OF len, of "xs @ q # ys"] assms(3) by simp
  have "distinct (q # concat Ls)" using assms(1,4) by (simp add: lists_ok_def)
  with eq have dist: "distinct (h # concat (Ls[i := xs @ q # ys]))" by (metis mset.simps(2) mset_eq_imp_distinct_iff)
  have "insert h (set (concat (Ls[i := xs @ q # ys]))) = insert q (set (concat Ls))"
    using arg_cong [OF eq, of set_mset] by (simp del: set_concat)
  moreover have "h \<in> set (concat Ls)" by (rule concat_update_remove(2) [OF assms(1-3)])
  ultimately show ?thesis using dist assms(4) by (auto simp del: set_concat)
qed

definition split_result :: "gc_state \<Rightarrow> hblk list list \<Rightarrow> hblk \<Rightarrow> hblk \<Rightarrow> nat \<Rightarrow> nat \<Rightarrow> nat \<Rightarrow> hdr \<Rightarrow> gc_state \<Rightarrow> hblk list list \<Rightarrow> bool" where
  "split_result st Ls h q i a b d st' Ls' \<longleftrightarrow>
     lists_ok st' Ls' \<and> set (concat Ls') = insert q (set (concat Ls)) \<and> q \<in> set (Ls' ! i) \<and> only_headers st st' \<and>
     (\<forall>p. p \<noteq> h \<longrightarrow> p \<noteq> q \<longrightarrow> bare (hdr_map st') p = bare (hdr_map st) p) \<and>
     (\<exists>d'. hdr_map st' h = Header d' \<and> hb_sz d' = HBLKSIZE * a \<and> hb_flags d' = or (hb_flags d) FREE_BLK) \<and>
     (\<exists>e'. hdr_map st' q = Header e' \<and> hb_sz e' = HBLKSIZE * b \<and> hb_flags e' = or 0 FREE_BLK) \<and>
     (\<forall>j g. j < 61 \<longrightarrow> g \<in> set (Ls' ! j) \<longrightarrow> g \<noteq> q \<longrightarrow> (if g = h then j = GC_hblk_fl_from_blocks a else g \<in> set (Ls ! j)))"

lemma split_block_ok:
  assumes "lists_ok st Ls" and "i < 61" and "Ls ! i = xs @ h # ys" and "q \<notin> set (concat Ls)" and "hdr_map st h = Header d" and "hdr_map st q = Header e"
    and "hb_sz d = HBLKSIZE * (a + b)" and "q = h + a" and "0 < a"
    and "\<And>hs. distinct hs \<Longrightarrow> set hs \<subseteq> set (concat Ls) \<Longrightarrow> sum_list (map (bytes_at (hdr_map st)) hs) < 2 ^ 64"
  shows "\<exists>st' Ls'. GC_split_block h q i st = Done st' () \<and> split_result st Ls h q i a b d st' Ls'"
proof -
  let ?p = "last_opt None xs" and ?n = "first_opt ys" and ?m = "hdr_map st"
  obtain d0 where "hdr_map st h = Header d0" "hb_prev d0 = ?p" "hb_next d0 = ?n" by (rule links_header [OF assms(1-3)])
  with assms(5) have links: "hb_prev d = ?p" "hb_next d = ?n" by simp_all
  have qh: "q \<noteq> h" using assms(8,9) by simp
  have hmem: "h \<in> set (concat Ls)" by (rule concat_update_remove(2) [OF assms(1-3)])
  have part: "(q - h) * HBLKSIZE = HBLKSIZE * a" "word_sub (HBLKSIZE * (a + b)) (HBLKSIZE * a) = HBLKSIZE * b"
    using assms(8) by (simp_all add: word_sub_def algebra_simps)
  let ?e0 = "e\<lparr>hb_prev := ?p, hb_next := ?n, hb_sz := HBLKSIZE * b, hb_flags := 0\<rparr>"
  let ?s0 = "st\<lparr>hdr_map := ?m(q := Header ?e0)\<rparr>" and ?Ls = "Ls[i := xs @ q # ys]"
  have l0: "lists_ok ?s0 Ls" by (rule lists_ok_other [OF assms(1,4) refl])
  obtain s1 where r1: "replace_on_list q ?p ?n i (HBLKSIZE * a) ?s0 = Done s1 ()" and l1: "lists_ok s1 ?Ls" and o1: "only_lists ?s0 s1"
    using replace_on_list_ok [OF l0 assms(2-4), of ?e0 "HBLKSIZE * a"] assms(5,7) qh by (auto simp: bytes_at_def algebra_simps)
  have bare1: "bare (hdr_map s1) g = bare ?m g" if "g \<noteq> q" for g
    using fun_cong [OF only_lists_fields(1) [OF o1], of g] that by (simp add: bare_def)
  obtain d1 where d1: "hdr_map s1 h = Header d1" "hb_flags d1 = hb_flags d"
    by (rule bare_at [OF bare1 [OF qh [symmetric]] assms(5)])
  have "bare (hdr_map s1) q = bare (hdr_map ?s0) q" using only_lists_fields(1) [OF o1] by simp
  then obtain e1 where e1: "hdr_map s1 q = Header e1" "hb_sz e1 = HBLKSIZE * b" "hb_flags e1 = 0"
    by (rule bare_at [of _ q _ ?e0]) simp_all
  let ?d2 = "d1\<lparr>hb_last_reclaimed := of_nat (GC_gc_no s1), hb_sz := HBLKSIZE * a\<rparr>"
  let ?s2 = "s1\<lparr>hdr_map := (hdr_map s1)(h := Header ?d2)\<rparr>" and ?j = "GC_hblk_fl_from_blocks (divHBLKSZ (hb_sz ?d2))"
  have j: "?j = GC_hblk_fl_from_blocks a" "?j < 61" using fl_index_less by (simp_all add: block_arith(1,2))
  have c1: "set (concat ?Ls) = insert q (set (concat Ls) - {h})" by (rule set_concat_replace [OF assms(1-4)])
  have hnot: "h \<notin> set (concat ?Ls)" unfolding c1 using qh by simp
  have l2: "lists_ok ?s2 ?Ls" by (rule lists_ok_other [OF l1 hnot refl])
  have bytes2: "bytes_at (hdr_map ?s2) g = bytes_at ?m g" if "g \<noteq> q" "g \<noteq> h" for g
    using bytes_bare [OF bare1 [OF that(1)]] that(2) by (simp add: bytes_at_def)
  have bq: "bytes_at (hdr_map ?s2) q = HBLKSIZE * b" and bh: "bytes_at ?m h = HBLKSIZE * (a + b)"
    using e1 qh assms(5,7) by (simp_all add: bytes_at_def)
  have dist: "distinct (xs @ h # ys)" and mem: "set (Ls ! k) \<subseteq> set (concat Ls)" if "k < 61" for k
    using assms(1-3) distinct_list [of Ls i] member_concat [OF assms(1) that] by (auto simp: lists_ok_def simp del: set_concat)
  have same: "sum_list (map (bytes_at (hdr_map ?s2)) zs) = sum_list (map (bytes_at ?m) zs)" if "h \<notin> set zs" "q \<notin> set zs" for zs
    using that by (intro arg_cong [of _ _ sum_list] map_cong refl bytes2) auto
  have bound: "sum_list (map (bytes_at (hdr_map ?s2)) (?Ls ! ?j)) + hb_sz ?d2 < 2 ^ 64"
  proof (cases "?j = i")
    case True
    have at: "?Ls ! ?j = xs @ q # ys" using True assms(1,2) by (simp add: lists_ok_def)
    have "q \<notin> set (xs @ h # ys)" using assms(3,4) mem [OF assms(2)] by auto
    then have "sum_list (map (bytes_at (hdr_map ?s2)) xs) = sum_list (map (bytes_at ?m) xs)"
      "sum_list (map (bytes_at (hdr_map ?s2)) ys) = sum_list (map (bytes_at ?m) ys)" using dist [OF assms(2)] by (intro same; auto)+
    moreover have "sum_list (map (bytes_at ?m) (xs @ h # ys)) < 2 ^ 64"
      using assms(3) mem [OF assms(2)] by (intro assms(10) dist [OF assms(2)]) simp
    ultimately show ?thesis unfolding at using bq bh by (simp add: algebra_simps)
  next
    case False
    then have at: "?Ls ! ?j = Ls ! ?j" by simp
    have no: "h \<notin> set (Ls ! ?j)" "q \<notin> set (Ls ! ?j)"
      using in_one_list [of Ls i ?j h] assms(1-4) j(2) False mem [OF j(2)] by (auto simp: lists_ok_def simp del: set_concat)
    have "distinct (h # Ls ! ?j)" using no(1) distinct_list [of Ls ?j] assms(1) j(2) by (simp add: lists_ok_def)
    moreover have "set (h # Ls ! ?j) \<subseteq> set (concat Ls)" using hmem mem [OF j(2)] by simp
    ultimately have "sum_list (map (bytes_at ?m) (h # Ls ! ?j)) < 2 ^ 64" by (rule assms(10))
    then show ?thesis unfolding at same [OF no] using bh by (simp add: algebra_simps)
  qed
  have h2: "hdr_map ?s2 h = Header ?d2" by simp
  obtain s3 where r3: "GC_add_to_fl h ?s2 = Done s3 ()" and l3: "lists_ok s3 (?Ls[?j := h # ?Ls ! ?j])" and o3: "only_lists (mark_free h ?s2) s3"
    using completes_unit [OF add_to_fl_ok [OF l2 h2 hnot refl bound]] by blast
  let ?Ls' = "?Ls[?j := h # ?Ls ! ?j]"
  have mf: "hdr_map (mark_free h ?s2) = (hdr_map s1)(h := Header (?d2\<lparr>hb_flags := or (hb_flags d1) FREE_BLK\<rparr>))" by (simp add: mark_free_def)
  have bare3: "bare (hdr_map s3) g = bare (hdr_map (mark_free h ?s2)) g" for g using only_lists_fields(1) [OF o3] by simp
  obtain d3 where d3: "hdr_map s3 h = Header d3" "hb_sz d3 = HBLKSIZE * a" "hb_flags d3 = or (hb_flags d) FREE_BLK"
    using bare_at [OF bare3, of h "?d2\<lparr>hb_flags := or (hb_flags d1) FREE_BLK\<rparr>"] mf d1(2) by auto
  obtain e3 where e3: "hdr_map s3 q = Header e3" "hb_sz e3 = HBLKSIZE * b" "hb_flags e3 = 0"
    using bare_at [OF bare3, of q e1] mf e1 qh by auto
  let ?st' = "s3\<lparr>hdr_map := (hdr_map s3)(q := Header (e3\<lparr>hb_flags := or (hb_flags e3) FREE_BLK\<rparr>))\<rparr>"
  have run: "GC_split_block h q i st = Done ?st' ()"
  proof -
    have "GC_split_block h q i st = andthen (replace_on_list q ?p ?n i (HBLKSIZE * a)) (\<lambda>_. andthen (reads GC_gc_no) (\<lambda>gc_no.
        andthen (upd_hdr h (\<lambda>d. d\<lparr>hb_last_reclaimed := of_nat gc_no, hb_sz := HBLKSIZE * a\<rparr>)) (\<lambda>_.
        andthen (GC_add_to_fl h) (\<lambda>_. upd_hdr q (\<lambda>d. d\<lparr>hb_flags := or (hb_flags d) FREE_BLK\<rparr>))))) ?s0"
      unfolding GC_split_block_def andthen_get_hdr [of st h, OF assms(5)] Let_def part assms(7) links andthen_upd_hdr [of st q, OF assms(6)]
        replace_on_list_def andthen_assoc ..
    moreover have "upd_hdr q (\<lambda>d. d\<lparr>hb_flags := or (hb_flags d) FREE_BLK\<rparr>) s3 = Done ?st' ()" by (simp add: upd_hdr_def e3(1))
    ultimately show ?thesis
      by (simp add: andthen_run [of "replace_on_list _ _ _ _ _", OF r1] andthen_run [of "GC_add_to_fl _", OF r3] andthen_reads
        andthen_upd_hdr [of s1 h, OF d1(1)])
  qed
  have len: "?j < length ?Ls" "i < length Ls" using j(2) assms(1,2) by (simp_all add: lists_ok_def)
  have "lists_ok ?st' ?Ls'" by (rule lists_ok_links [OF l3]) (use e3(1) in \<open>auto simp: links_of_def bytes_at_def fun_eq_iff\<close>)
  moreover have "set (concat ?Ls') = insert q (set (concat Ls))"
    unfolding concat_update_add [OF len(1)] c1 using hmem by blast
  moreover have "q \<in> set (?Ls' ! i)" using len by (cases "?j = i") simp_all
  moreover have "only_headers st ?st'"
    by (rule only_headers_trans [OF only_headers_map only_headers_trans [OF only_lists_headers [OF o1] only_headers_trans [OF only_headers_map
      only_headers_trans [OF only_headers_mark only_headers_trans [OF only_lists_headers [OF o3] only_headers_map]]]]])
  moreover have "bare (hdr_map ?st') p = bare ?m p" if "p \<noteq> h" "p \<noteq> q" for p
    using bare3 [of p] bare1 [OF that(2)] that mf by (simp add: bare_def)
  moreover have "if g = h then k = GC_hblk_fl_from_blocks a else g \<in> set (Ls ! k)" if "k < 61" "g \<in> set (?Ls' ! k)" "g \<noteq> q" for k g
  proof (cases "g = h")
    case True
    have "h \<notin> set (?Ls ! k)" using member_concat [OF l1 that(1)] hnot by blast
    with that(2) True j(1) show ?thesis by (cases "?j = k") auto
  next
    case False
    with that(2) len have g: "g \<in> set (?Ls ! k)" by (cases "?j = k") auto
    then show ?thesis using that(3) False len(2) assms(3) by (cases "i = k") auto
  qed
  ultimately have "split_result st Ls h q i a b d ?st' ?Ls'"
    unfolding split_result_def using d3 e3 qh by simp
  with run show ?thesis by blast
qed

end
