(* ===== verification/Gc_Moving.thy ===== *)
theory Gc_Moving
  imports Gc_Splitting
begin

text \<open>
  The decision about one free block in the search of \<open>GC_allochblk_nth\<close>: skip it, use it, use a later part of it, or drop it.
\<close>

section \<open>Moving to a later part\<close>

definition remapped :: "gc_state \<Rightarrow> hblk \<Rightarrow> hdr \<Rightarrow> hblk \<Rightarrow> bool" where
  "remapped st h d p \<longleftrightarrow> h \<le> p \<and> p < h + nblocks d \<and> \<not> IS_MAPPED d \<or> mem_mapped st p"

lemma remap_block_cases:
  assumes "hdr_map st h = Header d" and "HBLKSIZE dvd hb_sz d"
  obtains d' where "remap_block h d st = Done (st\<lparr>mem_mapped := remapped st h d, hdr_map := (hdr_map st)(h := Header d')\<rparr>) ()"
    and "IS_MAPPED d'" and "HBLK_IS_FREE d' = HBLK_IS_FREE d" and "hb_sz d' = hb_sz d" and "hb_next d' = hb_next d" and "hb_prev d' = hb_prev d"
proof (cases "IS_MAPPED d")
  case True
  have "remapped st h d = mem_mapped st" using True by (simp add: remapped_def fun_eq_iff)
  with True have "remap_block h d st = Done (st\<lparr>mem_mapped := remapped st h d, hdr_map := (hdr_map st)(h := Header d)\<rparr>) ()"
    using assms(1) by (simp add: remap_block_def ret_def fun_upd_idem)
  from that [OF this] True show ?thesis by simp
next
  case False
  let ?d = "d\<lparr>hb_flags := and (hb_flags d) (not WAS_UNMAPPED)\<rparr>"
  have f: "remapped st h d = (\<lambda>b. if h \<le> b \<and> b < h + nblocks d then True else mem_mapped st b)" using False by (auto simp: remapped_def fun_eq_iff)
  have "divHBLKSZ (hb_sz d) = nblocks d" using blocks_dvd [OF assms(2)] by (metis block_arith(1,2) div_mult_self_is_m zero_less_numeral)
  with False assms(1) have run: "remap_block h d st = Done (st\<lparr>mem_mapped := remapped st h d, hdr_map := (hdr_map st)(h := Header ?d)\<rparr>) ()"
    unfolding remap_block_def GC_remap_def clear_unmapped_def f by (simp add: run_steps upd_hdr_def)
  have "HBLK_IS_FREE ?d = HBLK_IS_FREE d" "IS_MAPPED ?d" by (auto simp: free_flag mapped_flag bit_simps flag_bits)
  with that [OF run] show ?thesis by simp
qed

lemma move_to_ok:
  assumes "alloc_ok st Ls {}" and "i < 61" and "Ls ! i = xs @ h # ys" and "hdr_map st h = Header d" and "nblocks d = a + b" and "0 < a" and "0 < b"
    and "q = h + a"
  shows "\<exists>st' c. move_to h d q avail i ms st = Done st' c \<and> takes st st' \<and>
    (c = Continue \<and> st' = st \<or> (\<exists>Ls' e. c = Candidate q avail \<and> alloc_ok st' Ls' {q} \<and> q \<in> set (Ls' ! i) \<and>
      hdr_map st' q = Header e \<and> hb_sz e = HBLKSIZE * b))"
proof (cases "ms = AVOID_SPLIT_REMAPPED \<and> \<not> IS_MAPPED d")
  case True
  then have "move_to h d q avail i ms st = Done st Continue" by (simp add: move_to_def ret_def)
  with takes_refl show ?thesis by blast
next
  case False
  from assms(1) have binv: "blocks_inv st Ls {} {}" and sup: "supplied st" by (simp_all add: alloc_ok_def)
  note inv = blocks_invD [OF binv]
  let ?m = "hdr_map st" and ?n = "a + b"
  have free: "HBLK_IS_FREE d" by (rule listed_free [OF binv assms(2-4)])
  have ok: "entry_ok ?m h d" by (rule layout_entry [OF inv(1) assms(4)])
  have dsz: "hb_sz d = HBLKSIZE * ?n" using free_size [OF inv(1) assms(4) free] assms(5) by simp
  have dlt: "HBLKSIZE * ?n < 2 ^ 63" using ok dsz by (simp add: entry_ok_def)
  have hmem: "h \<in> set (concat Ls)" by (rule concat_update_remove(2) [OF inv(3) assms(2,3)])
  have inner: "?m p = NIL" if "h < p" "p < h + ?n" for p
    using inside_not_header [OF inv(1) assms(4) that(1)] that(2) free assms(5) by simp
  have notin: "p \<notin> set (concat Ls)" if "h < p" "p < h + ?n" for p using inner [OF that] inv(6) [of p] by (auto simp: free_at_def)
  have q: "h < q" "q < h + ?n" using assms(6-8) by simp_all
  have ans: "\<forall>n. mem_answers st n" using sup by (simp add: supplied_def)
  have sorted: "sorted_wrt (<) (bottom_indices st)" using inv(2) by (simp add: indexed_def)
  obtain B F r e0 where r1: "GC_install_header q st =
      Done (st\<lparr>bottom_indices := B, hdr_free_list := F, mem_requests := r, hdr_map := ?m(q := Header e0)\<rparr>) True"
    and B: "sorted_wrt (<) B" "set B = insert (q div BOTTOM_SZ) (set (bottom_indices st))"
    by (rule install_header_supplied [OF sorted ans])
  let ?s1 = "st\<lparr>bottom_indices := B, hdr_free_list := F, mem_requests := r, hdr_map := ?m(q := Header e0)\<rparr>"
  have h1: "hdr_map ?s1 h = Header d" using assms(4) q by simp
  have dvd: "HBLKSIZE dvd hb_sz d" using dsz by simp
  let ?pg = "remapped st h d"
  have pg: "remapped ?s1 h d = ?pg" by (simp add: remapped_def fun_eq_iff)
  obtain d1 where r2: "remap_block h d ?s1 = Done (?s1\<lparr>mem_mapped := ?pg, hdr_map := (hdr_map ?s1)(h := Header d1)\<rparr>) ()"
    and d1: "IS_MAPPED d1" "HBLK_IS_FREE d1 = HBLK_IS_FREE d" "hb_sz d1 = hb_sz d" "hb_next d1 = hb_next d" "hb_prev d1 = hb_prev d"
    by (rule remap_block_cases [OF h1 dvd, unfolded pg])
  let ?m2 = "?m(q := Header e0, h := Header d1)"
  let ?s2 = "st\<lparr>bottom_indices := B, hdr_free_list := F, mem_requests := r, mem_mapped := ?pg, hdr_map := ?m2\<rparr>"
  have s2: "?s1\<lparr>mem_mapped := ?pg, hdr_map := (hdr_map ?s1)(h := Header d1)\<rparr> = ?s2" by simp
  have "lists_ok (st\<lparr>hdr_map := ?m(q := Header e0)\<rparr>) Ls" by (rule lists_ok_other [OF inv(3) notin [OF q] refl])
  then have l2: "lists_ok ?s2 Ls"
    by (rule lists_ok_links) (use d1 assms(4) q in \<open>auto simp: links_of_def bytes_at_def fun_eq_iff\<close>)
  have h2: "hdr_map ?s2 h = Header d1" and q2: "hdr_map ?s2 q = Header e0" using q by simp_all
  have sz1: "hb_sz d1 = HBLKSIZE * ?n" using d1(3) dsz by simp
  have bytes: "sum_list (map (bytes_at (hdr_map ?s2)) hs) < 2 ^ 64" if hs: "distinct hs" "set hs \<subseteq> set (concat Ls)" for hs
  proof -
    have "bytes_at ?m2 g = bytes_at ?m g" if "g \<in> set hs" for g
      using that hs(2) notin [OF q] d1(3) assms(4) by (auto simp: bytes_at_def simp del: set_concat)
    then have "sum_list (map (bytes_at ?m2) hs) = sum_list (map (bytes_at ?m) hs)" by (intro arg_cong [of _ _ sum_list] map_cong refl)
    moreover have "sum_list (map (bytes_at ?m) hs) < 2 ^ 64"
      by (rule free_sum_bound [OF inv(1) hs(1)]) (use hs(2) inv(6) in blast)
    ultimately show ?thesis by simp
  qed
  obtain s3 Ls' where r3: "GC_split_block h q i ?s2 = Done s3 ()" and split: "split_result ?s2 Ls h q i a b d1 s3 Ls'"
    using split_block_ok [OF l2 assms(2,3) notin [OF q] h2 q2 sz1 assms(8,6) bytes] by blast
  from split have l3: "lists_ok s3 Ls'" and c3: "set (concat Ls') = insert q (set (concat Ls))" and qi: "q \<in> set (Ls' ! i)" and o3: "only_headers ?s2 s3"
    and b3: "\<And>p. p \<noteq> h \<Longrightarrow> p \<noteq> q \<Longrightarrow> bare (hdr_map s3) p = bare ?m2 p"
    and fl3: "\<And>j g. j < 61 \<Longrightarrow> g \<in> set (Ls' ! j) \<Longrightarrow> g \<noteq> q \<Longrightarrow> (if g = h then j = GC_hblk_fl_from_blocks a else g \<in> set (Ls ! j))"
    by (simp_all add: split_result_def)
  from split obtain d3 e3 where d3: "hdr_map s3 h = Header d3" "hb_sz d3 = HBLKSIZE * a" "hb_flags d3 = or (hb_flags d1) FREE_BLK"
    and e3: "hdr_map s3 q = Header e3" "hb_sz e3 = HBLKSIZE * b" "hb_flags e3 = or 0 FREE_BLK"
    by (auto simp: split_result_def)
  note f3 = only_headers_fields [OF o3]
  have flags: "HBLK_IS_FREE d3" "IS_MAPPED d3" "HBLK_IS_FREE e3" "IS_MAPPED e3"
    using d1(1) d3(3) e3(3) by (simp_all add: free_flag mapped_flag bit_simps flag_bits)
  have nb: "nblocks d3 = a" "nblocks e3 = b" using d3(2) e3(2) by (simp_all add: block_arith)
  have bm: "bare (hdr_map s3) p = bare ?m p" if "p \<noteq> h" "p \<noteq> q" for p using b3 [OF that] that by (simp add: bare_def)
  have out: "bare (hdr_map s3) p = bare ?m p \<and> mem_mapped s3 p = mem_mapped st p" if "p < h \<or> h + ?n \<le> p" for p
    using bm [of p] f3(2) that q assms(5,7) by (auto simp: remapped_def)
  have nil: "hdr_map s3 p = NIL" if "h < p" "p < h + ?n" "p \<noteq> q" for p
    using bm [of p] inner [OF that(1,2)] that by (metis bare_NIL nat_neq_iff)
  have laid: "laid (hdr_map s3) h [d3, e3]"
  proof -
    have "hdr_map s3 (h + k) = NIL" if "0 < k" "k < a" for k by (rule nil) (use that assms(8) in auto)
    moreover have "hdr_map s3 (h + a + k) = NIL" if "0 < k" "k < b" for k by (rule nil) (use that assms(8,6) in auto)
    ultimately show ?thesis using d3(1) e3(1) flags nb assms(8) by simp
  qed
  have rows: "?n = row_blocks [d3, e3]" using nb by simp
  have tiles: "\<forall>d \<in> set [d3, e3]. tile_ok d"
    using d3(2) e3(2) dlt assms(6,7) by (auto simp: tile_ok_def block_arith(2))
  have idx: "indexed s3"
    unfolding indexed_def has_index_def
  proof (intro conjI allI impI)
    fix p assume p: "hdr_map s3 p \<noteq> NIL"
    show "p div BOTTOM_SZ \<in> set (bottom_indices s3)"
    proof (cases "p = q")
      case False
      have "?m p \<noteq> NIL" using p bm [of p] False assms(4) bare_NIL [of "hdr_map s3" p] bare_NIL [of ?m p] by (cases "p = h") simp_all
      with inv(2) B(2) f3(1) show ?thesis by (simp add: indexed_def has_index_def)
    qed (simp add: f3(1) B(2))
  qed (simp add: f3(1) B(1))
  have c: "set (concat Ls') = set (concat Ls) - {h} \<union> {h, q}" unfolding c3 using hmem by blast
  have fr: "free_at (hdr_map s3) p \<longleftrightarrow> p \<in> {h, q}" if "p < h + ?n" "h \<le> p" for p
    using nil [of p] that d3(1) e3(1) flags by (cases "p = h"; cases "p = q") (auto simp: free_at_def)
  have sub: "{h, q} \<subseteq> {h..<h + ?n}" using q by auto
  have mapd: "IS_MAPPED x" if "h \<le> p" "p < h + ?n" "hdr_map s3 p = Header x" for p x
    using nil [of p] that d3(1) e3(1) flags by (cases "p = h"; cases "p = q") auto
  have pages: "mem_mapped s3 p" if "h \<le> p" "p < h + ?n" for p
    using inv(4) assms(4,5) that f3(2) by (cases "IS_MAPPED d") (auto simp: mapping_ok_def region_def remapped_def)
  have fl: "fl_index (hdr_map s3) g = j" if j: "j < 61" "g \<in> set (Ls' ! j)" "g \<notin> {q}" for j g
  proof (cases "g = h")
    case True
    with fl3 [OF j(1,2)] j(3) d3 show ?thesis by (simp add: fl_index_def bytes_at_def block_arith(1,2))
  next
    case False
    with fl3 [OF j(1,2)] j(3) have g: "g \<in> set (Ls ! j)" by simp
    from inv(7) [OF j(1) this] bytes_bare [OF bm [OF False]] j(3) show ?thesis by (simp add: fl_index_def)
  qed
  have els: "beyond s3 = beyond st" using f3(3) by (simp add: beyond_def elsewhere_def)
  note res = inv_replace [OF binv assms(4) free assms(5), of s3, OF out laid rows tiles idx l3 c fr sub mapd pages fl els]
  have i3: "blocks_inv s3 Ls' {} {q}" by (rule res(1))
  have "free_cells (hdr_map s3) = free_cells ?m - {h..<h + ?n} \<union> free_tiles h [d3, e3]" by (rule res(2))
  moreover have "free_tiles h [d3, e3] = {h..<h + ?n}" using flags nb by (auto simp: region_def)
  moreover have "{h..<h + ?n} \<subseteq> free_cells ?m"
  proof -
    have "{h..<h + ?n} = region h d" using assms(5) by (simp add: region_def)
    then show ?thesis using assms(4) free by (auto simp: free_cells_def)
  qed
  ultimately have cells: "free_cells (hdr_map s3) = free_cells ?m" by blast
  have t3: "takes st s3" by (rule res(3))
  have used: "used_at (hdr_map s3) = used_at ?m"
  proof
    fix p
    show "used_at (hdr_map s3) p = used_at ?m p"
      using bm [of p] d3(1) e3(1) flags assms(4) free inner [OF q]
      by (cases "p = h"; cases "p = q") (simp_all add: used_at_Header, simp_all add: used_at_def bare_def)
  qed
  have "elsewhere s3 = elsewhere st" using f3(3) by (simp add: elsewhere_def)
  with used cells f3 have "same_view st s3" by (simp add: same_view_def)
  then have "alloc_ok s3 Ls' {q}" by (rule alloc_ok_view [OF assms(1) i3])
  moreover have "move_to h d q avail i ms st = Done s3 (Candidate q avail)"
    using False unfolding move_to_def remap_block_def [symmetric]
    by (simp add: andthen_run [of "GC_install_header _", OF r1] andthen_run [of "remap_block _ _", OF r2] s2 andthen_run [of "GC_split_block _ _ _", OF r3] ret_def)
  ultimately show ?thesis using t3 qi e3 by blast
qed

end
