(* ===== verification/Gc_Search.thy ===== *)
theory Gc_Search
  imports Gc_Moving
begin

text \<open>
  The search of the free lists: \<open>GC_allochblk_nth\<close> and \<open>GC_allochblk\<close>. The search of a list ends because each step
  goes on with a shorter rest of the list.
\<close>

section \<open>One block\<close>

lemma skip_black_ge: "h \<le> skip_black st search_end eff h"
proof (induction st search_end eff h rule: skip_black.induct)
  case (1 st search_end eff h)
  show ?case
  proof (cases "h * HBLKSIZE \<le> search_end")
    case True
    show ?thesis
    proof (cases "GC_is_black_listed st h eff")
      case (Some r)
      have "h < r" by (rule GC_is_black_listed_Some(1) [OF Some])
      with 1 [OF True Some] Some True show ?thesis by (simp add: skip_black.simps [of st search_end eff h])
    qed (simp add: skip_black.simps [of st search_end eff h])
  qed (simp add: skip_black.simps [of st search_end eff h])
qed

lemma alloc_ok_cong:
  assumes "hdr_map st' = hdr_map st" and "bottom_indices st' = bottom_indices st" and "mem_mapped st' = mem_mapped st"
    and "GC_hblkfreelist st' = GC_hblkfreelist st" and "GC_free_bytes st' = GC_free_bytes st"
    and "GC_large_free_bytes st' = GC_large_free_bytes st" and "mem_answers st' = mem_answers st" and "GC_obj_map st' = GC_obj_map st"
  shows "alloc_ok st' Ls W = alloc_ok st Ls W"
  unfolding alloc_ok_def blocks_inv_cong [OF assms(1-5)] supplied_def using assms by simp

text \<open>What the treatment of one block leads to: the rest of the list, or a block to take.\<close>

definition goes_on :: "gc_state \<Rightarrow> nat \<Rightarrow> hblk list \<Rightarrow> gc_state \<Rightarrow> candidate \<Rightarrow> nat \<Rightarrow> bool" where
  "goes_on st i ys st' c s \<longleftrightarrow>
     c = Continue \<and> st' = st \<or>
     c = Restart \<and> (\<exists>Ls. alloc_ok st' Ls {} \<and> Ls ! i = ys) \<or>
     (\<exists>g av Ls xs. c = Candidate g av \<and> av < s \<and> alloc_ok st' Ls {} \<and> Ls ! i = xs @ g # ys)"

definition ends_with :: "gc_state \<Rightarrow> nat \<Rightarrow> candidate \<Rightarrow> nat \<Rightarrow> bool" where
  "ends_with st' i c s \<longleftrightarrow>
     (\<exists>g av Ls e W. c = Candidate g av \<and> s \<le> av \<and> alloc_ok st' Ls W \<and> W \<subseteq> {g} \<and> g \<in> set (Ls ! i) \<and>
        hdr_map st' g = Header e \<and> s \<le> hb_sz e)"

definition avoids :: "nat \<Rightarrow> nat \<Rightarrow> bool" where
  "avoids kind s \<longleftrightarrow> \<not> IS_UNCOLLECTABLE kind \<and> (kind \<noteq> PTRFREE \<or> MAX_BLACK_LIST_ALLOC < s)"

lemma avoid_black_list_ok:
  assumes "alloc_ok st Ls {}" and "i < 61" and "Ls ! i = xs @ h # ys" and "hdr_map st h = Header d" and "0 < s" and "s \<le> hb_sz d"
    and "GC_obj_kinds st \<noteq> []"
  shows "\<exists>st' c. avoid_black_list h d s kind flags i ms st = Done st' c \<and> takes st st' \<and>
    (goes_on st i ys st' c s \<and> avoids kind s \<or> ends_with st' i c s)"
proof (cases "avoids kind s")
  case False
  have "avoid_black_list h d s kind flags i ms st = Done st (Candidate h (hb_sz d))"
    unfolding avoid_black_list_def avoids_def [symmetric] using False by (simp add: ret_def)
  moreover have "ends_with st i (Candidate h (hb_sz d)) s"
    unfolding ends_with_def using assms by (intro exI [of _ h] exI [of _ "hb_sz d"] exI [of _ Ls] exI [of _ d] exI [of _ "{}"]) simp
  ultimately show ?thesis using takes_refl by blast
next
  case True
  let ?q = "skip_black st (h * HBLKSIZE + hb_sz d - s) (if and flags IGNORE_OFF_PAGE \<noteq> 0 then HBLKSIZE else s) h"
  let ?av = "hb_sz d - (?q - h) * HBLKSIZE" and ?BL = "GC_black_list_spacing st"
  have run: "avoid_black_list h d s kind flags i ms st =
      (if s \<le> ?av then if ?q \<noteq> h then move_to h d ?q ?av i ms else ret (Candidate h ?av)
       else if ?BL < s \<and> ?BL < hb_sz d - s then
         andthen (modifies (\<lambda>st. st\<lparr>GC_large_alloc_warn_suppressed :=
           (if GC_large_alloc_warn_interval st \<le> GC_large_alloc_warn_suppressed st + 1 then 0
            else GC_large_alloc_warn_suppressed st + 1)\<rparr>)) (\<lambda>_. ret (Candidate h (hb_sz d)))
       else if ?av = 0 \<and> s = HBLKSIZE \<and> IS_MAPPED d \<and> \<not> GC_find_leak st then
         andthen (modifies (\<lambda>st. st\<lparr>drop_count := (drop_count st + 1) mod 2 ^ 32\<rparr>)) (\<lambda>_.
         andthen (reads drop_count) (\<lambda>count. if and count 3 = 0 then drop_block h i else ret (Candidate h ?av)))
       else ret (Candidate h ?av)) st"
    unfolding avoid_black_list_def avoids_def [symmetric] Let_def andthen_reads using True by (simp only: if_True)
  have stay: "ends_with st' i (Candidate h av) s" if "alloc_ok st' Ls {}" "hdr_map st' h = Header d" "s \<le> av" for st' av
    unfolding ends_with_def using assms(3,6) that
    by (intro exI [of _ h] exI [of _ av] exI [of _ Ls] exI [of _ d] exI [of _ "{}"]) simp
  have pass: "goes_on st i ys st' (Candidate h av) s" if "alloc_ok st' Ls {}" "av < s" for st' av
    unfolding goes_on_def using assms(3) that by blast
  consider (move) "s \<le> ?av" "?q \<noteq> h" | (take) "s \<le> ?av" "?q = h" | (punt) "\<not> s \<le> ?av" "?BL < s \<and> ?BL < hb_sz d - s"
    | (drop) "\<not> s \<le> ?av" "\<not> (?BL < s \<and> ?BL < hb_sz d - s)" "?av = 0 \<and> s = HBLKSIZE \<and> IS_MAPPED d \<and> \<not> GC_find_leak st"
    | (skip) "\<not> s \<le> ?av" "\<not> (?BL < s \<and> ?BL < hb_sz d - s)" "\<not> (?av = 0 \<and> s = HBLKSIZE \<and> IS_MAPPED d \<and> \<not> GC_find_leak st)" by blast
  then show ?thesis
  proof cases
    case move
    have r: "avoid_black_list h d s kind flags i ms st = move_to h d ?q ?av i ms st" unfolding run using move by simp
    from assms(1) have binv: "blocks_inv st Ls {} {}" by (simp add: alloc_ok_def)
    have "hb_sz d = HBLKSIZE * nblocks d" by (rule free_size [OF blocks_invD(1) [OF binv] assms(4) listed_free [OF binv assms(2-4)]])
    then obtain n where n: "nblocks d = n" "hb_sz d = HBLKSIZE * n" by blast
    have "h \<le> ?q" by (rule skip_black_ge)
    with move(2) have q: "h < ?q" by simp
    have av: "?av = HBLKSIZE * (n - (?q - h))" unfolding n(2) by (simp add: diff_mult_distrib2 mult.commute)
    have b: "0 < n - (?q - h)" using move(1) assms(5) unfolding av by (cases "n - (?q - h) = 0") simp_all
    have n': "nblocks d = (?q - h) + (n - (?q - h))" and q': "?q = h + (?q - h)" and a: "0 < ?q - h" using n(1) b q by simp_all
    from move_to_ok [OF assms(1-4) n' a b q', of ?av ms] obtain st' c where st': "move_to h d ?q ?av i ms st = Done st' c" "takes st st'"
      and c: "c = Continue \<and> st' = st \<or> (\<exists>Ls' e. c = Candidate ?q ?av \<and> alloc_ok st' Ls' {?q} \<and> ?q \<in> set (Ls' ! i) \<and>
        hdr_map st' ?q = Header e \<and> hb_sz e = HBLKSIZE * (n - (?q - h)))" by blast
    from c have "goes_on st i ys st' c s \<or> ends_with st' i c s"
    proof
      assume "c = Continue \<and> st' = st"
      then show ?thesis by (simp add: goes_on_def)
    next
      assume "\<exists>Ls' e. c = Candidate ?q ?av \<and> alloc_ok st' Ls' {?q} \<and> ?q \<in> set (Ls' ! i) \<and>
        hdr_map st' ?q = Header e \<and> hb_sz e = HBLKSIZE * (n - (?q - h))"
      with move(1) av show ?thesis unfolding ends_with_def by (metis order_refl)
    qed
    with st' r True show ?thesis by auto
  next
    case take
    then have "avoid_black_list h d s kind flags i ms st = Done st (Candidate h ?av)" unfolding run by (simp add: ret_def)
    with stay [OF assms(1,4) take(1)] takes_refl show ?thesis by blast
  next
    case punt
    let ?st = "st\<lparr>GC_large_alloc_warn_suppressed := (if GC_large_alloc_warn_interval st \<le> GC_large_alloc_warn_suppressed st + 1 then 0
       else GC_large_alloc_warn_suppressed st + 1)\<rparr>"
    have r: "avoid_black_list h d s kind flags i ms st = Done ?st (Candidate h (hb_sz d))" 
      unfolding run if_not_P [OF punt(1)] if_P [OF punt(2)] by (simp add: andthen_modifies ret_def)
    have "alloc_ok ?st Ls {}" by (rule alloc_ok_cong [THEN iffD2, OF _ _ _ _ _ _ _ _ assms(1)]) simp_all
    moreover have "takes st ?st" by (simp add: takes_def beyond_def elsewhere_def)
    ultimately show ?thesis using r stay [of ?st] assms(4,6) by (intro exI [of _ ?st] exI [of _ "Candidate h (hb_sz d)"]) simp
  next
    case drop
    let ?st = "st\<lparr>drop_count := (drop_count st + 1) mod 2 ^ 32\<rparr>"
    have a: "alloc_ok ?st Ls {}" by (rule alloc_ok_cong [THEN iffD2, OF _ _ _ _ _ _ _ _ assms(1)]) simp_all
    have t: "takes st ?st" by (simp add: takes_def beyond_def elsewhere_def)
    have r: "avoid_black_list h d s kind flags i ms st = (if and (drop_count ?st) 3 = 0 then drop_block h i else ret (Candidate h ?av)) ?st"
      unfolding run if_not_P [OF drop(1)] if_not_P [OF drop(2)] if_P [OF drop(3)] andthen_modifies andthen_reads ..
    show ?thesis
    proof (cases "and (drop_count ?st) 3 = 0")
      case yes: True
      have pre: "hdr_map ?st h = Header d" "IS_MAPPED d" "GC_obj_kinds ?st \<noteq> []" using assms(4,7) drop(3) by simp_all
      obtain st' where st': "drop_block h i ?st = Done st' (case last_opt None xs of None \<Rightarrow> Restart | Some p \<Rightarrow> Candidate p 0)"
        "alloc_ok st' (Ls[i := xs @ ys]) {}" "takes ?st st'"
        using drop_block_ok [OF a assms(2,3) pre] by blast
      have len: "i < length Ls" using assms(1,2) by (auto simp: alloc_ok_def lists_ok_def dest: blocks_invD(3))
      have "goes_on st i ys st' (case last_opt None xs of None \<Rightarrow> Restart | Some p \<Rightarrow> Candidate p 0) s"
      proof (cases xs rule: rev_cases)
        case Nil
        with st'(2) len show ?thesis unfolding goes_on_def by (auto simp: last_opt_def)
      next
        case (snoc zs p)
        then have "Ls[i := xs @ ys] ! i = zs @ p # ys" using len by simp
        with st'(2) assms(5) snoc show ?thesis unfolding goes_on_def by (auto simp: last_opt_def)
      qed
      with st' r yes True takes_trans [OF t st'(3)] show ?thesis by auto
    next
      case no: False
      then have "avoid_black_list h d s kind flags i ms st = Done ?st (Candidate h ?av)" unfolding r by (simp add: ret_def)
      with pass [OF a, of ?av] drop(1) t True show ?thesis by (intro exI [of _ ?st] exI [of _ "Candidate h ?av"]) simp
    qed
  next
    case skip
    have "avoid_black_list h d s kind flags i ms st = Done st (Candidate h ?av)"
      unfolding run if_not_P [OF skip(1)] if_not_P [OF skip(2)] if_not_P [OF skip(3)] by (simp add: ret_def)
    with pass [OF assms(1), of ?av] skip(1) True takes_refl show ?thesis by (intro exI [of _ st] exI [of _ "Candidate h ?av"]) simp
  qed
qed

section \<open>One list\<close>

definition suits :: "may_split \<Rightarrow> nat \<Rightarrow> (hblk \<Rightarrow> hdr_entry) \<Rightarrow> hblk \<Rightarrow> bool" where
  "suits ms s m h \<longleftrightarrow> s \<le> bytes_at m h \<and> (ms = No_Split \<longrightarrow> bytes_at m h = s)"

lemma next_is_better_ok:
  assumes "lists_ok st Ls" and "i < 61" and "Ls ! i = xs @ h # ys" and "hdr_map st h = Header d"
  shows "\<exists>b. next_is_better d s ms st = Done st b \<and> (b \<longrightarrow> suits ms s (hdr_map st) h \<longrightarrow> (\<exists>g \<in> set ys. suits ms s (hdr_map st) g))"
proof -
  obtain d0 where "hdr_map st h = Header d0" "hb_next d0 = first_opt ys" by (rule links_header [OF assms(1-3)])
  with assms(4) have nxt: "hb_next d = first_opt ys" by simp
  show ?thesis
  proof (cases ys)
    case Nil
    with nxt assms(4) show ?thesis by (auto simp: next_is_better_def first_opt_def ret_def suits_def bytes_at_def)
  next
    case (Cons y zs)
    then obtain e where e: "hdr_map st y = Header e" using list_member_header [OF assms(1,2), of y] assms(3) by auto
    show ?thesis
    proof (cases "hb_sz d = s \<or> ms = No_Split")
      case True
      with assms(4) show ?thesis by (auto simp: next_is_better_def ret_def suits_def bytes_at_def)
    next
      case False
      with Cons nxt e have "next_is_better d s ms st = Done st (hb_sz e < hb_sz d \<and> s \<le> hb_sz e \<and> GC_is_black_listed st y s = None)"
        by (simp add: next_is_better_def first_opt_def andthen_get_hdr [of st y, OF e] reads_def)
      with False e Cons show ?thesis by (auto simp: suits_def bytes_at_def)
    qed
  qed
qed

text \<open>The outcome of a search from the rest \<open>ys\<close> of a list.\<close>

definition searched :: "gc_state \<Rightarrow> nat \<Rightarrow> nat \<Rightarrow> may_split \<Rightarrow> nat \<Rightarrow> hblk set \<Rightarrow> gc_state \<Rightarrow> hblk option \<Rightarrow> bool" where
  "searched st sz kind ms s Y st' r \<longleftrightarrow>
     (\<exists>Ls. alloc_ok st' Ls {}) \<and> takes st st' \<and> (\<forall>h. r = Some h \<longrightarrow> returns_block st st' sz kind h) \<and>
     (\<not> avoids kind s \<longrightarrow> r = None \<longrightarrow> st' = st \<and> (\<forall>h \<in> Y. \<not> suits ms s (hdr_map st) h))"

lemma searched_later:
  assumes "takes st st1" and "searched st1 sz kind ms s Y' st' r" and "\<not> avoids kind s \<Longrightarrow> st1 = st"
    and "\<And>h. \<not> avoids kind s \<Longrightarrow> h \<in> Y \<Longrightarrow> suits ms s (hdr_map st) h \<Longrightarrow> \<exists>g \<in> Y'. suits ms s (hdr_map st) g"
  shows "searched st sz kind ms s Y st' r"
  using assms takes_trans [OF assms(1)] returns_block_takes [OF assms(1)] unfolding searched_def by blast

lemma nth_loop_ok:
  assumes "alloc_ok st Ls {}" and "i < 61" and "Ls ! i = xs @ ys" and "length ys \<le> fuel"
    and "kind < length (GC_obj_kinds st)" and "plain_flags flags" and "0 < sz" and "blocks_of_bytes sz = a"
  shows "\<exists>st' r. nth_loop fuel (first_opt ys) (HBLKSIZE * a) sz kind flags i ms st = Done st' r \<and> searched st sz kind ms (HBLKSIZE * a) (set ys) st' r"
  using assms(1,3-5)
proof (induction fuel arbitrary: st Ls xs ys)
  case 0
  then have "searched st sz kind ms (HBLKSIZE * a) (set ys) st None" using takes_refl by (auto simp: searched_def)
  with 0 show ?case by (simp add: first_opt_def ret_def)
next
  case (Suc fuel)
  let ?s = "HBLKSIZE * a" and ?loop = "\<lambda>first. nth_loop fuel first (HBLKSIZE * a) sz kind flags i ms"
  have s: "0 < ?s" using blocks_of_bytes_pos [OF assms(7)] assms(8) by (simp add: HBLKSIZE_def)
  show ?case
  proof (cases ys)
    case Nil
    then have "searched st sz kind ms ?s (set ys) st None" using Suc.prems(1) takes_refl by (auto simp: searched_def)
    with Nil show ?thesis by (simp add: first_opt_def ret_def)
  next
    case (Cons h zs)
    from Suc.prems(1) have binv: "blocks_inv st Ls {} {}" by (simp add: alloc_ok_def)
    note inv = blocks_invD [OF binv]
    have at: "Ls ! i = xs @ h # zs" using Suc.prems(2) Cons by simp
    obtain d where d: "hdr_map st h = Header d" "hb_next d = first_opt zs" by (rule links_header [OF inv(3) assms(2) at])
    have first: "first_opt ys = Some h" using Cons by (simp add: first_opt_def)
    have len: "length zs \<le> fuel" using Suc.prems(3) Cons by simp
    have at': "Ls ! i = (xs @ [h]) @ zs" using at by simp
    have next_one: "\<exists>st' r. ?loop (hb_next d) st = Done st' r \<and> searched st sz kind ms ?s (set zs) st' r"
      unfolding d(2) by (rule Suc.IH [OF Suc.prems(1) at' len Suc.prems(4)])
    have skip: "\<exists>st' r. ?loop (hb_next d) st = Done st' r \<and> searched st sz kind ms ?s (set ys) st' r"
      if no: "suits ms ?s (hdr_map st) h \<Longrightarrow> \<exists>g \<in> set zs. suits ms ?s (hdr_map st) g"
    proof -
      from next_one obtain st' r where r: "?loop (hb_next d) st = Done st' r" "searched st sz kind ms ?s (set zs) st' r" by blast
      from searched_later [OF takes_refl r(2), of "set ys"] no Cons have "searched st sz kind ms ?s (set ys) st' r" by auto
      with r(1) show ?thesis by blast
    qed
    show ?thesis
    proof (cases "hb_sz d < ?s")
      case True
      then have "nth_loop (Suc fuel) (first_opt ys) ?s sz kind flags i ms st = ?loop (hb_next d) st"
        unfolding first nth_loop.simps andthen_get_hdr [of st h, OF d(1)] by simp
      with skip True d(1) show ?thesis by (simp add: suits_def bytes_at_def)
    next
      case large: False
      obtain b where b: "next_is_better d ?s ms st = Done st b"
        "b \<longrightarrow> suits ms ?s (hdr_map st) h \<longrightarrow> (\<exists>g \<in> set zs. suits ms ?s (hdr_map st) g)"
        using next_is_better_ok [OF inv(3) assms(2) at d(1)] by blast
      let ?rest = "\<lambda>c. case c of
           Continue \<Rightarrow> ?loop (hb_next d)
         | Restart \<Rightarrow> andthen (get_freelist i) (\<lambda>first. ?loop first)
         | Candidate hbp size_avail \<Rightarrow>
             if ?s \<le> size_avail then take_block hbp ?s sz kind flags i
             else andthen (get_hdr hbp) (\<lambda>hhdr. ?loop (hb_next hhdr))"
      have run: "nth_loop (Suc fuel) (first_opt ys) ?s sz kind flags i ms st =
          (if b then ?loop (hb_next d) else andthen (avoid_black_list h d ?s kind flags i ms) ?rest) st"
        unfolding first nth_loop.simps andthen_get_hdr [of st h, OF d(1)] if_not_P [OF large]
          andthen_run [of "next_is_better _ _ _", OF b(1)] ..
      show ?thesis
      proof (cases b)
        case True
        with run b(2) skip show ?thesis by simp
      next
        case False
        have kinds: "GC_obj_kinds st \<noteq> []" using Suc.prems(4) by auto
        have fits: "?s \<le> hb_sz d" using large by simp
        obtain st1 c where c: "avoid_black_list h d ?s kind flags i ms st = Done st1 c" "takes st st1"
          "goes_on st i zs st1 c ?s \<and> avoids kind ?s \<or> ends_with st1 i c ?s"
          using avoid_black_list_ok [OF Suc.prems(1) assms(2) at d(1) s fits kinds] by blast
        have k1: "kind < length (GC_obj_kinds st1)" using Suc.prems(4) c(2) beyond_fields [of st1 st] by (simp add: takes_def)
        have run1: "nth_loop (Suc fuel) (first_opt ys) ?s sz kind flags i ms st = ?rest c st1"
          unfolding run using False by (simp add: andthen_run [of "avoid_black_list _ _ _ _ _ _ _", OF c(1)])
        have later: "\<exists>st' r. ?rest c st1 = Done st' r \<and> searched st sz kind ms ?s (set ys) st' r"
          if "\<exists>st' r. ?rest c st1 = Done st' r \<and> searched st1 sz kind ms ?s (set zs) st' r" "avoids kind ?s"
          using that c(2) takes_trans [OF c(2)] returns_block_takes [OF c(2)] unfolding searched_def by blast
        from c(3) consider "goes_on st i zs st1 c ?s" "avoids kind ?s" | "ends_with st1 i c ?s" by blast
        then show ?thesis
        proof cases
          case 1
          then consider "c = Continue" "st1 = st" | Ls1 where "c = Restart" "alloc_ok st1 Ls1 {}" "Ls1 ! i = zs"
            | g av Ls1 us where "c = Candidate g av" "av < ?s" "alloc_ok st1 Ls1 {}" "Ls1 ! i = us @ g # zs"
            unfolding goes_on_def by blast
          then show ?thesis
          proof cases
            case 1
            with next_one later \<open>avoids kind ?s\<close> show ?thesis unfolding run1 by simp
          next
            case 2
            have l1: "lists_ok st1 Ls1" using 2(2) by (auto simp: alloc_ok_def dest: blocks_invD(3))
            then have "dll (links_of (hdr_map st1)) (GC_hblkfreelist st1 ! i) None zs" "\<not> length (GC_hblkfreelist st1) \<le> i"
              using assms(2) 2(3) by (auto simp: lists_ok_def)
            then have "GC_hblkfreelist st1 ! i = first_opt zs" "\<not> length (GC_hblkfreelist st1) \<le> i" by (blast intro: dll_first)+
            then have "?rest c st1 = ?loop (first_opt zs) st1" using 2(1) by (simp add: andthen_def get_freelist_def)
            with Suc.IH [OF 2(2), of "[]" zs] 2(3) len k1 later \<open>avoids kind ?s\<close> show ?thesis unfolding run1 by simp
          next
            case 3
            have l1: "lists_ok st1 Ls1" using 3(3) by (auto simp: alloc_ok_def dest: blocks_invD(3))
            obtain e where e: "hdr_map st1 g = Header e" "hb_next e = first_opt zs" by (rule links_header [OF l1 assms(2) 3(4)])
            have "?rest c st1 = ?loop (first_opt zs) st1" using 3(1,2) e by (simp add: andthen_get_hdr [of st1 g, OF e(1)])
            with Suc.IH [OF 3(3), of "us @ [g]" zs] 3(4) len k1 later \<open>avoids kind ?s\<close> show ?thesis unfolding run1 by simp
          qed
        next
          case 2
          then obtain g av Ls1 e W where g: "c = Candidate g av" "?s \<le> av" "alloc_ok st1 Ls1 W" "W \<subseteq> {g}" "g \<in> set (Ls1 ! i)"
            "hdr_map st1 g = Header e" "?s \<le> hb_sz e" unfolding ends_with_def by blast
          then obtain us vs where "Ls1 ! i = us @ g # vs" by (meson split_list)
          from take_block_ok [OF g(3,4) assms(2) this g(6) k1 assms(6-8) g(7)] obtain st' Ls'
            where st': "take_block g ?s sz kind flags i st1 = Done st' (Some g)" "alloc_ok st' Ls' {}" "takes st1 st'" "returns_block st1 st' sz kind g"
            by blast
          have "searched st sz kind ms ?s (set ys) st' (Some g)"
            using st'(2) takes_trans [OF c(2) st'(3)] returns_block_takes [OF c(2) st'(4)] by (auto simp: searched_def)
          with st'(1) g(1,2) show ?thesis unfolding run1 by simp
        qed
      qed
    qed
  qed
qed

section \<open>All lists\<close>

definition on_list :: "gc_state \<Rightarrow> nat \<Rightarrow> hblk set" where
  "on_list st i = {h. free_at (hdr_map st) h \<and> fl_index (hdr_map st) h = i}"

lemma list_members:
  assumes "blocks_inv st Ls {} {}" and "i < 61"
  shows "set (Ls ! i) = on_list st i"
proof -
  note inv = blocks_invD [OF assms(1)]
  have "h \<in> set (Ls ! i)" if "free_at (hdr_map st) h" "fl_index (hdr_map st) h = i" for h
  proof -
    have "h \<in> set (concat Ls)" using inv(6) [of h] that(1) by simp
    then obtain l where "l \<in> set Ls" "h \<in> set l" by auto
    then obtain j where "j < 61" "h \<in> set (Ls ! j)" using inv(3) by (auto simp: lists_ok_def in_set_conv_nth)
    with inv(7) [of j h] that(2) show ?thesis by simp
  qed
  moreover have "free_at (hdr_map st) h" if "h \<in> set (Ls ! i)" for h using member_concat [OF inv(3) assms(2) that] inv(6) [of h] by simp
  ultimately show ?thesis using inv(7) [OF assms(2)] by (auto simp: on_list_def)
qed

lemma list_length:
  assumes "blocks_inv st Ls {} {}" and "i < 61"
  shows "length (Ls ! i) \<le> card (free_cells (hdr_map st))"
proof -
  note inv = blocks_invD [OF assms(1)]
  have "h \<in> free_cells (hdr_map st)" if "h \<in> set (Ls ! i)" for h
  proof -
    from that list_members [OF assms] obtain d where d: "hdr_map st h = Header d" "HBLK_IS_FREE d" by (auto simp: on_list_def free_at_def)
    with region_start [OF layout_entry [OF inv(1) d(1)]] show ?thesis by (auto simp: free_cells_def)
  qed
  then have "card (set (Ls ! i)) \<le> card (free_cells (hdr_map st))" by (intro card_mono free_cells_card(1) [OF inv(1)]) auto
  moreover have "distinct (Ls ! i)" using inv(3) assms(2) distinct_list [of Ls i] by (simp add: lists_ok_def)
  ultimately show ?thesis by (simp add: distinct_card)
qed

lemma allochblk_nth_ok:
  assumes "alloc_ok st Ls {}" and "i < 61" and "card (free_cells (hdr_map st)) \<le> fuel"
    and "kind < length (GC_obj_kinds st)" and "plain_flags flags" and "0 < sz" and "blocks_of_bytes sz = a" and "OBJ_SZ_TO_BLOCKS_CHECKED sz = a"
  shows "\<exists>st' r. GC_allochblk_nth fuel sz kind flags i ms st = Done st' r \<and> searched st sz kind ms (HBLKSIZE * a) (on_list st i) st' r"
proof -
  from assms(1) have binv: "blocks_inv st Ls {} {}" by (simp add: alloc_ok_def)
  have l: "lists_ok st Ls" by (rule blocks_invD(3) [OF binv])
  then have "dll (links_of (hdr_map st)) (GC_hblkfreelist st ! i) None (Ls ! i)" "\<not> length (GC_hblkfreelist st) \<le> i"
    using assms(2) by (auto simp: lists_ok_def)
  then have first: "GC_hblkfreelist st ! i = first_opt (Ls ! i)" "\<not> length (GC_hblkfreelist st) \<le> i" by (blast intro: dll_first)+
  have len: "length (Ls ! i) \<le> fuel" using list_length [OF binv assms(2)] assms(3) by simp
  have at: "Ls ! i = [] @ Ls ! i" by simp
  from nth_loop_ok [OF assms(1,2) at len assms(4-7)] first show ?thesis
    unfolding GC_allochblk_nth_def list_members [OF binv assms(2)] assms(8) by (simp add: andthen_def get_freelist_def)
qed

lemma takes_fuel: "takes st st' \<Longrightarrow> layout (hdr_map st) \<Longrightarrow> card (free_cells (hdr_map st')) \<le> card (free_cells (hdr_map st))"
  unfolding takes_def using card_mono [OF free_cells_card(1) [of "hdr_map st"]] by simp

lemma takes_kinds: "takes st st' \<Longrightarrow> GC_obj_kinds st' = GC_obj_kinds st"
  using beyond_fields(2) [of st' st] by (simp add: takes_def)

lemma lists_loop_ok:
  assumes "alloc_ok st Ls {}" and "i + k \<le> 61" and "card (free_cells (hdr_map st)) \<le> fuel"
    and "kind < length (GC_obj_kinds st)" and "plain_flags flags" and "0 < sz" and "blocks_of_bytes sz = a" and "OBJ_SZ_TO_BLOCKS_CHECKED sz = a"
  shows "\<exists>st' r. lists_loop fuel i sz kind flags ms k st = Done st' r \<and>
    searched st sz kind ms (HBLKSIZE * a) (\<Union>j \<in> {i..<i + k}. on_list st j) st' r"
  using assms(1-4)
proof (induction k arbitrary: i st Ls)
  case 0
  then show ?case using takes_refl by (auto simp: ret_def searched_def)
next
  case (Suc k)
  have i: "i < 61" using Suc.prems(2) by simp
  let ?Y = "\<Union>j \<in> {i..<i + Suc k}. on_list st j"
  obtain st1 r where r: "GC_allochblk_nth fuel sz kind flags i ms st = Done st1 r" "searched st sz kind ms (HBLKSIZE * a) (on_list st i) st1 r"
    using allochblk_nth_ok [OF Suc.prems(1) i Suc.prems(3,4) assms(5-8)] by blast
  have run: "lists_loop fuel i sz kind flags ms (Suc k) st = (if r \<noteq> None then ret r else lists_loop fuel (i + 1) sz kind flags ms k) st1"
    using r(1) by (simp add: andthen_run [of "GC_allochblk_nth _ _ _ _ _ _", OF r(1)])
  show ?case
  proof (cases r)
    case (Some h)
    with r(2) have "searched st sz kind ms (HBLKSIZE * a) ?Y st1 r" by (simp add: searched_def)
    with run Some show ?thesis by (simp add: ret_def)
  next
    case None
    from r(2) None obtain Ls1 where ls1: "alloc_ok st1 Ls1 {}" and t: "takes st st1"
      and same: "\<not> avoids kind (HBLKSIZE * a) \<Longrightarrow> st1 = st \<and> (\<forall>h \<in> on_list st i. \<not> suits ms (HBLKSIZE * a) (hdr_map st) h)"
      by (auto simp: searched_def)
    from Suc.prems(1) have lay: "layout (hdr_map st)" by (auto simp: alloc_ok_def dest: blocks_invD(1))
    have pre: "i + 1 + k \<le> 61" "card (free_cells (hdr_map st1)) \<le> fuel" "kind < length (GC_obj_kinds st1)"
      using Suc.prems takes_fuel [OF t lay] takes_kinds [OF t] by simp_all
    obtain st' r' where r': "lists_loop fuel (i + 1) sz kind flags ms k st1 = Done st' r'"
      "searched st1 sz kind ms (HBLKSIZE * a) (\<Union>j \<in> {i + 1..<i + 1 + k}. on_list st1 j) st' r'"
      using Suc.IH [OF ls1 pre] by blast
    have "searched st sz kind ms (HBLKSIZE * a) ?Y st' r'"
    proof (rule searched_later [OF t r'(2)])
      fix h assume h: "\<not> avoids kind (HBLKSIZE * a)" "h \<in> ?Y" "suits ms (HBLKSIZE * a) (hdr_map st) h"
      then obtain j where j: "i \<le> j" "j < i + Suc k" "h \<in> on_list st j" by auto
      have "j \<noteq> i" using same [OF h(1)] h(3) j(3) by auto
      with j same h show "\<exists>g \<in> \<Union>j \<in> {i + 1..<i + 1 + k}. on_list st1 j. suits ms (HBLKSIZE * a) (hdr_map st) g"
        by (intro bexI [of _ h] UN_I [of j]) auto
    qed (use same in blast)
    with run None r'(1) show ?thesis by simp
  qed
qed

section \<open>GC_allochblk\<close>

lemma blocks_checked:
  assumes "sz < 2 ^ 64" and "OBJ_SZ_TO_BLOCKS_CHECKED sz * HBLKSIZE < 2 ^ 63"
  shows "OBJ_SZ_TO_BLOCKS_CHECKED sz = blocks_of_bytes sz"
proof (cases "sz < GC_WORD_MAX - (HBLKSIZE - 1)")
  case True
  then show ?thesis by (simp add: OBJ_SZ_TO_BLOCKS_CHECKED_def SIZET_SAT_ADD_def block_arith)
next
  case False
  then have "OBJ_SZ_TO_BLOCKS_CHECKED sz = (2 ^ 64 - 1) div 4096"
    by (simp add: OBJ_SZ_TO_BLOCKS_CHECKED_def SIZET_SAT_ADD_def block_arith GC_WORD_MAX_def)
  with assms(2) show ?thesis by (simp add: block_arith(2))
qed

lemma fl_mono: "m \<le> n \<Longrightarrow> GC_hblk_fl_from_blocks m \<le> GC_hblk_fl_from_blocks n"
  by (auto simp: GC_hblk_fl_from_blocks_def UNIQUE_THRESHOLD_def HUGE_THRESHOLD_def FL_COMPRESSION_def N_HBLK_FLS_def div_le_mono diff_le_mono)

lemma fl_unique: "GC_hblk_fl_from_blocks n = GC_hblk_fl_from_blocks m \<Longrightarrow> GC_hblk_fl_from_blocks m < UNIQUE_THRESHOLD \<Longrightarrow> n = m"
  by (auto simp: GC_hblk_fl_from_blocks_def UNIQUE_THRESHOLD_def HUGE_THRESHOLD_def FL_COMPRESSION_def N_HBLK_FLS_def split: if_splits)

lemma enough_loop_less: "enough_loop fb maximum bytes n < Suc n"
  by (induction n arbitrary: bytes) (auto simp: Let_def less_Suc_eq)

lemma enough_large_less: "GC_enough_large_bytes_left x y st \<le> N_HBLK_FLS"
proof -
  have "enough_loop fb maximum bytes (Suc n) \<le> n" for fb maximum bytes n
    using enough_loop_less [of fb maximum _ n] by (simp add: Let_def less_Suc_eq_le)
  then show ?thesis by (simp add: GC_enough_large_bytes_left_def)
qed

lemma allochblk_ok:
  assumes "alloc_ok st Ls {}" and "card (free_cells (hdr_map st)) \<le> fuel" and "kind < length (GC_obj_kinds st)" and "plain_flags flags"
    and "0 < sz" and "blocks_of_bytes sz = a" and "OBJ_SZ_TO_BLOCKS_CHECKED sz = a" and "a * HBLKSIZE < 2 ^ 63"
  shows "\<exists>st' r. GC_allochblk fuel policy sz kind flags st = Done st' r \<and>
    (\<exists>Ls. alloc_ok st' Ls {}) \<and> takes st st' \<and> (\<forall>h. r = Some h \<longrightarrow> returns_block st st' sz kind h) \<and>
    (use_more_heap policy \<longrightarrow> \<not> avoids kind (HBLKSIZE * a) \<longrightarrow> r = None \<longrightarrow>
      (\<forall>h. free_at (hdr_map st) h \<longrightarrow> bytes_at (hdr_map st) h < HBLKSIZE * a))"
proof -
  let ?s = "HBLKSIZE * a" and ?i = "GC_hblk_fl_from_blocks a" and ?m = "hdr_map st"
  from assms(1) have lay: "layout ?m" by (auto simp: alloc_ok_def dest: blocks_invD(1))
  have i: "?i < 61" by (rule fl_index_less)
  have top: "N_HBLK_FLS = 60" by (simp add: N_HBLK_FLS_def HUGE_THRESHOLD_def UNIQUE_THRESHOLD_def FL_COMPRESSION_def)
  obtain st1 r1 where r1: "GC_allochblk_nth fuel sz kind flags ?i No_Split st = Done st1 r1"
    "searched st sz kind No_Split ?s (on_list st ?i) st1 r1"
    using allochblk_nth_ok [OF assms(1) i assms(2-7)] by blast
  have small: "\<not> 2 ^ 63 \<le> a * HBLKSIZE" using assms(8) by simp
  define enough where "enough = GC_enough_large_bytes_left (GC_large_allocd_bytes policy) (GC_max_large_allocd_bytes policy) st1"
  define lim where "lim = (if use_more_heap policy then N_HBLK_FLS else if finalizers_freed_much policy then 0 else enough)"
  define ms where "ms = (if \<not> use_more_heap policy \<and> \<not> finalizers_freed_much policy \<and> 0 < enough then AVOID_SPLIT_REMAPPED else May_Split)"
  define i2 where "i2 = (if ?i < UNIQUE_THRESHOLD then ?i + 1 else ?i)"
  have run: "GC_allochblk fuel policy sz kind flags st = (if r1 \<noteq> None then ret r1 else lists_loop fuel i2 sz kind flags ms (lim + 1 - i2)) st1"
    unfolding GC_allochblk_def assms(7) Let_def if_not_P [OF small] andthen_run [of "GC_allochblk_nth _ _ _ _ _ _", OF r1(1)] lim_def ms_def i2_def enough_def
    by (cases r1) (simp_all only: andthen_reads option.distinct if_True if_False simp_thms)
  show ?thesis
  proof (cases r1)
    case (Some h)
    with run have "GC_allochblk fuel policy sz kind flags st = Done st1 r1" by (simp add: ret_def)
    with r1(2) Some show ?thesis unfolding searched_def by auto
  next
    case None
    from r1(2) None obtain Ls1 where ls1: "alloc_ok st1 Ls1 {}" and t: "takes st st1"
      and same: "\<not> avoids kind ?s \<Longrightarrow> st1 = st \<and> (\<forall>h \<in> on_list st ?i. \<not> suits No_Split ?s ?m h)"
      by (auto simp: searched_def)
    have "lim \<le> 60" using enough_large_less top by (auto simp: lim_def enough_def)
    moreover have "i2 \<le> 61" using i by (simp add: i2_def)
    ultimately have pre: "i2 + (lim + 1 - i2) \<le> 61" by linarith
    have cells: "card (free_cells (hdr_map st1)) \<le> fuel" and kinds: "kind < length (GC_obj_kinds st1)"
      using takes_fuel [OF t lay] takes_kinds [OF t] assms(2,3) by simp_all
    obtain st2 r2 where r2: "lists_loop fuel i2 sz kind flags ms (lim + 1 - i2) st1 = Done st2 r2"
      "searched st1 sz kind ms ?s (\<Union>j \<in> {i2..<i2 + (lim + 1 - i2)}. on_list st1 j) st2 r2"
      using lists_loop_ok [OF ls1 pre cells kinds assms(4-7)] by blast
    have few: "bytes_at ?m h < ?s"
      if c: "use_more_heap policy" "\<not> avoids kind ?s" "r2 = None" and h: "free_at ?m h" for h
    proof (rule ccontr)
      assume big: "\<not> ?thesis"
      from h obtain d where d: "?m h = Header d" "HBLK_IS_FREE d" by (auto simp: free_at_def)
      then have sz: "bytes_at ?m h = HBLKSIZE * nblocks d" using free_size [OF lay d] by (simp add: bytes_at_def)
      then obtain n where n: "bytes_at ?m h = HBLKSIZE * n" by blast
      with big have "a \<le> n" by (simp add: HBLKSIZE_def)
      have fl: "fl_index ?m h = GC_hblk_fl_from_blocks n" unfolding fl_index_def n by (simp add: block_arith(1,2))
      have lower: "?i \<le> fl_index ?m h" unfolding fl by (rule fl_mono [OF \<open>a \<le> n\<close>])
      have upper: "fl_index ?m h \<le> 60" unfolding fl using fl_index_less [of n] by simp
      have lim: "lim = 60" "ms = May_Split" using c(1) top by (simp_all add: lim_def ms_def)
      have st1: "st1 = st" and no1: "\<forall>h \<in> on_list st ?i. \<not> suits No_Split ?s ?m h" using same [OF c(2)] by auto
      have no2: "\<not> suits May_Split ?s ?m h" if "i2 \<le> fl_index ?m h"
        using r2(2) c(2,3) lim st1 that h upper unfolding searched_def by (auto simp: on_list_def)
      show False
      proof (cases "i2 \<le> fl_index ?m h")
        case True
        with no2 big show ?thesis by (simp add: suits_def)
      next
        case False
        with lower have eq: "fl_index ?m h = ?i" "?i < UNIQUE_THRESHOLD" by (auto simp: i2_def split: if_splits)
        then have "n = a" using fl fl_unique by simp
        with n no1 h eq(1) show ?thesis by (auto simp: on_list_def suits_def)
      qed
    qed
    have "GC_allochblk fuel policy sz kind flags st = Done st2 r2" unfolding run using None r2(1) by simp
    moreover have "(\<exists>Ls. alloc_ok st2 Ls {}) \<and> takes st st2 \<and> (\<forall>h. r2 = Some h \<longrightarrow> returns_block st st2 sz kind h)"
    proof (intro conjI allI impI)
      show "\<exists>Ls. alloc_ok st2 Ls {}" using r2(2) by (simp add: searched_def)
      show "takes st st2" using r2(2) takes_trans [OF t] by (simp add: searched_def)
      show "returns_block st st2 sz kind h" if "r2 = Some h" for h
        using r2(2) that by (intro returns_block_takes [OF t]) (simp add: searched_def)
    qed
    ultimately show ?thesis using few by blast
  qed
qed

end
