(* ===== verification/Gc_Contract.thy ===== *)
theory Gc_Contract
  imports Gc_Search
begin

text \<open>
  The allocator of heap blocks as its clients see it: what a returned block is, an interface with its laws, and what
  follows for a client that allocates and frees blocks in any order.
\<close>

section \<open>Returned blocks\<close>

lemma used_header:
  assumes "used_at m h = Some x"
  obtains d where "m h = Header d" and "\<not> HBLK_IS_FREE d" and "x = d\<lparr>hb_next := None, hb_prev := None\<rparr>"
  using assms that by (auto simp: used_at_def bare_def HBLK_IS_FREE_def split: hdr_entry.splits if_splits)

lemma returned_region:
  assumes "blocks_inv st Ls X W" and "blocks_inv st' Ls' X' W'" and "takes st st'" and "used_at (hdr_map st) h = None"
    and "used_at (hdr_map st') h = Some d"
  shows "region h d \<subseteq> free_cells (hdr_map st)" and "p \<in> region h d \<Longrightarrow> mem_mapped st' p"
proof -
  note inv = blocks_invD [OF assms(1)] and inv' = blocks_invD [OF assms(2)]
  obtain e where e: "hdr_map st' h = Header e" "\<not> HBLK_IS_FREE e" "d = e\<lparr>hb_next := None, hb_prev := None\<rparr>" by (rule used_header [OF assms(5)])
  have R: "region h e = region h d" using e(3) by (simp add: region_def)
  show "mem_mapped st' p" if "p \<in> region h d" using inv'(4) e(1,2) that unfolding R [symmetric] mapping_ok_def by blast
  show "region h d \<subseteq> free_cells (hdr_map st)"
  proof
    fix p assume p: "p \<in> region h d"
    then have "p \<in> heap_cells (hdr_map st')" using e(1) R by (auto simp: heap_cells_def)
    then have "p \<in> heap_cells (hdr_map st)" using assms(3) by (simp add: takes_def)
    then obtain g x where g: "hdr_map st g = Header x" "p \<in> region g x" by (auto simp: heap_cells_def)
    show "p \<in> free_cells (hdr_map st)"
    proof (cases "HBLK_IS_FREE x")
      case False
      with used_at_Header [OF g(1)] have u: "used_at (hdr_map st) g = Some (x\<lparr>hb_next := None, hb_prev := None\<rparr>)" by simp
      then have "used_at (hdr_map st') g = Some (x\<lparr>hb_next := None, hb_prev := None\<rparr>)"
        using assms(3) unfolding takes_def map_le_def by (metis domI)
      then obtain y where y: "hdr_map st' g = Header y" "x\<lparr>hb_next := None, hb_prev := None\<rparr> = y\<lparr>hb_next := None, hb_prev := None\<rparr>"
        by (rule used_header)
      have "hb_sz x = hb_sz y" using arg_cong [OF y(2), of hb_sz] by simp
      then have "p \<in> region g y" using g(2) by (simp add: region_def)
      with regions_disjoint [OF inv'(1) y(1) e(1)] p R have "g = h" by blast
      with u assms(4) show ?thesis by simp
    qed (use g in \<open>auto simp: free_cells_def\<close>)
  qed
qed

lemma allochblk_heap:
  assumes "heap_ok st" and "supplied st" and "card (free_cells (hdr_map st)) \<le> fuel" and "kind < length (GC_obj_kinds st)" and "plain_flags flags"
    and "0 < sz" and "sz < 2 ^ 64"
  shows "\<exists>st' r. GC_allochblk fuel policy sz kind flags st = Done st' r \<and> heap_ok st' \<and> supplied st' \<and> takes st st' \<and>
    (\<forall>h. r = Some h \<longrightarrow> returns_block st st' sz kind h)"
proof (cases "OBJ_SZ_TO_BLOCKS_CHECKED sz * HBLKSIZE < 2 ^ 63")
  case False
  then have "GC_allochblk fuel policy sz kind flags st = Done st None" by (simp add: GC_allochblk_def Let_def ret_def)
  with assms(1,2) takes_refl show ?thesis by auto
next
  case True
  obtain Ls where "alloc_ok st Ls {}" using heap_ok_alloc assms(1,2) by blast
  from allochblk_ok [OF this assms(3-6) blocks_checked [symmetric] refl] assms(7) True heap_ok_alloc show ?thesis by metis
qed

lemma allochblk_finds:
  assumes "heap_ok st" and "supplied st" and "card (free_cells (hdr_map st)) \<le> fuel" and "kind < length (GC_obj_kinds st)" and "plain_flags flags"
    and "0 < sz" and "use_more_heap policy" and "IS_UNCOLLECTABLE kind \<or> kind = PTRFREE \<and> sz \<le> MAX_BLACK_LIST_ALLOC"
    and "hdr_map st h = Header d" and "HBLK_IS_FREE d" and "sz \<le> hb_sz d"
  shows "\<exists>st' g. GC_allochblk fuel policy sz kind flags st = Done st' (Some g)"
proof -
  obtain Ls where ok: "alloc_ok st Ls {}" using heap_ok_alloc assms(1,2) by blast
  then have lay: "layout (hdr_map st)" by (auto simp: alloc_ok_def dest: blocks_invD(1))
  have e: "entry_ok (hdr_map st) h d" by (rule layout_entry [OF lay assms(9)])
  let ?a = "blocks_of_bytes sz"
  have "sz < 2 ^ 63" using e assms(11) by (simp add: entry_ok_def)
  then have checked: "OBJ_SZ_TO_BLOCKS_CHECKED sz = ?a"
    by (simp add: OBJ_SZ_TO_BLOCKS_CHECKED_def SIZET_SAT_ADD_def block_arith GC_WORD_MAX_def)
  have "?a \<le> nblocks d" using assms(11) by (simp add: block_arith div_le_mono)
  then have "HBLKSIZE * ?a \<le> HBLKSIZE * nblocks d" by (rule mult_le_mono2)
  then have fits: "HBLKSIZE * ?a \<le> hb_sz d" unfolding free_size [OF lay assms(9,10), symmetric] .
  then have small: "?a * HBLKSIZE < 2 ^ 63" using e by (simp add: entry_ok_def mult.commute)
  have av: "\<not> avoids kind (HBLKSIZE * ?a)"
  proof -
    have "HBLKSIZE * ?a \<le> MAX_BLACK_LIST_ALLOC" if "sz \<le> MAX_BLACK_LIST_ALLOC"
      using that by (simp add: MAX_BLACK_LIST_ALLOC_def block_arith)
    with assms(8) show ?thesis by (auto simp: avoids_def)
  qed
  obtain st' r where r: "GC_allochblk fuel policy sz kind flags st = Done st' r"
    "r = None \<Longrightarrow> (\<forall>h. free_at (hdr_map st) h \<longrightarrow> bytes_at (hdr_map st) h < HBLKSIZE * ?a)"
    using allochblk_ok [OF ok assms(3-6) refl checked small, of policy] assms(7) av by blast
  have "free_at (hdr_map st) h" "bytes_at (hdr_map st) h = hb_sz d" using assms(9,10) by (auto simp: free_at_def bytes_at_def)
  with r(2) fits have "r \<noteq> None" by (metis not_less)
  with r(1) show ?thesis by auto
qed

section \<open>Accounting\<close>

lemma sum_list_sizes_run:
  assumes "dll (links_of (hdr_map st)) first prev hs" and "length hs \<le> fuel" and "t + sum_list (map (bytes_at (hdr_map st)) hs) < 2 ^ 64"
  shows "sum_list_sizes fuel first t st = Done st (t + sum_list (map (bytes_at (hdr_map st)) hs))"
  using assms
proof (induction hs arbitrary: fuel first prev t)
  case Nil
  then show ?case by (cases fuel) (simp_all add: ret_def)
next
  case (Cons h hs)
  then obtain nxt fuel' where h: "first = Some h" "links_of (hdr_map st) h = Some (prev, nxt)" "dll (links_of (hdr_map st)) nxt (Some h) hs" "fuel = Suc fuel'"
    by (cases fuel) auto
  then obtain d where d: "hdr_map st h = Header d" "hb_next d = nxt" by (auto simp: links_of_def split: hdr_entry.splits)
  then have b: "bytes_at (hdr_map st) h = hb_sz d" by (simp add: bytes_at_def)
  have "word_add t (hb_sz d) = t + hb_sz d" using Cons.prems(3) b by (simp add: word_add_def)
  with Cons.IH [OF h(3), of fuel' "t + hb_sz d"] Cons.prems(2,3) h d b show ?case
    by (simp add: andthen_get_hdr [of st h, OF d(1)])
qed

lemma sum_lists_run:
  assumes "list_all2 (\<lambda>first hs. dll (links_of (hdr_map st)) first None hs \<and> length hs \<le> fuel) fls Ls"
    and "t + sum_list (map (bytes_at (hdr_map st)) (concat Ls)) < 2 ^ 64"
  shows "sum_lists fuel fls t st = Done st (t + sum_list (map (bytes_at (hdr_map st)) (concat Ls)))"
  using assms
proof (induction arbitrary: t rule: list_all2_induct)
  case Nil
  then show ?case by (simp add: ret_def)
next
  case (Cons first fls hs Ls)
  have "sum_list_sizes fuel first t st = Done st (t + sum_list (map (bytes_at (hdr_map st)) hs))"
    using Cons.hyps Cons.prems by (intro sum_list_sizes_run [of st first None]) auto
  with Cons.IH Cons.prems show ?case by (simp add: andthen_run [of "sum_list_sizes _ _ _"])
qed

lemma compute_free_bytes:
  assumes "heap_ok st" and "card (free_cells (hdr_map st)) \<le> fuel"
  shows "GC_compute_large_free_bytes fuel st = Done st (GC_large_free_bytes st)"
proof -
  let ?m = "hdr_map st"
  from assms(1) obtain Ls where i: "blocks_inv st Ls {} {}" and bytes: "GC_large_free_bytes st = card (free_cells ?m) * HBLKSIZE" by (auto simp: heap_ok_def)
  note inv = blocks_invD [OF i]
  have sum: "sum_list (map (bytes_at ?m) (concat Ls)) = card {p. \<exists>h d. h \<in> set (concat Ls) \<and> ?m h = Header d \<and> p \<in> region h d} * HBLKSIZE"
    using inv(3,6) by (intro free_sum [OF inv(1)]) (auto simp: lists_ok_def)
  have "{p. \<exists>h d. h \<in> set (concat Ls) \<and> ?m h = Header d \<and> p \<in> region h d} = free_cells ?m"
    using inv(6) by (auto simp: free_cells_def free_at_def simp del: set_concat) (metis hdr_entry.inject(2))
  with sum bytes have total: "sum_list (map (bytes_at ?m) (concat Ls)) = GC_large_free_bytes st" by simp
  have small: "GC_large_free_bytes st < 2 ^ 64" using bytes free_cells_card(2) [OF inv(1)] by (simp add: HBLKSIZE_def)
  have lists: "list_all2 (\<lambda>first hs. dll (links_of ?m) first None hs \<and> length hs \<le> fuel) (GC_hblkfreelist st) Ls"
    unfolding list_all2_conv_all_nth using inv(3) list_length [OF i] assms(2) by (auto simp: lists_ok_def intro: order_trans)
  have "0 + sum_list (map (bytes_at ?m) (concat Ls)) < 2 ^ 64" using total small by simp
  from sum_lists_run [OF lists this] total show ?thesis by (simp add: GC_compute_large_free_bytes_def andthen_reads)
qed

section \<open>The interface\<close>

text \<open>
  A state machine that hands out blocks: \<open>owned\<close> are the blocks in use with their sizes in bytes.
\<close>

locale block_allocator =
  fixes good :: "'s \<Rightarrow> bool" and owned :: "'s \<Rightarrow> hblk \<Rightarrow> nat option" and cells :: "hblk \<Rightarrow> nat \<Rightarrow> nat set"
    and obtain_block :: "nat \<Rightarrow> ('s, hblk option) run" and return_block :: "hblk \<Rightarrow> ('s, unit) run" and proper :: "nat \<Rightarrow> bool"
  assumes obtain_ok: "good s \<Longrightarrow> proper n \<Longrightarrow> \<exists>s' r. obtain_block n s = Done s' r \<and> good s' \<and> owned s \<subseteq>\<^sub>m owned s' \<and>
      (\<forall>h. r = Some h \<longrightarrow> owned s h = None \<and> owned s' h = Some n)"
    and return_ok: "good s \<Longrightarrow> owned s h \<noteq> None \<Longrightarrow> \<exists>s'. return_block h s = Done s' () \<and> good s' \<and> owned s' = (owned s)(h := None)"
    and apart: "good s \<Longrightarrow> owned s g = Some m \<Longrightarrow> owned s h = Some n \<Longrightarrow> g \<noteq> h \<Longrightarrow> cells g m \<inter> cells h n = {}"

text \<open>A client: it asks for blocks of given sizes and returns one of those it holds.\<close>

datatype action = Ask nat | Give_Back nat

fun client :: "(nat \<Rightarrow> ('s, hblk option) run) \<Rightarrow> (hblk \<Rightarrow> ('s, unit) run) \<Rightarrow> action list \<Rightarrow> (hblk \<times> nat) list \<Rightarrow> ('s, (hblk \<times> nat) list) run" where
  "client get put [] held = ret held"
| "client get put (Ask n # actions) held =
     andthen (get n) (\<lambda>r. client get put actions (case r of None \<Rightarrow> held | Some h \<Rightarrow> (h, n) # held))"
| "client get put (Give_Back i # actions) held =
     (if i < length held then
        andthen (put (fst (held ! i))) (\<lambda>_. client get put actions (take i held @ drop (Suc i) held))
      else client get put actions held)"

definition holds :: "(hblk \<Rightarrow> nat option) \<Rightarrow> (hblk \<times> nat) list \<Rightarrow> bool" where
  "holds own held \<longleftrightarrow> distinct (map fst held) \<and> (\<forall>(h, n) \<in> set held. own h = Some n)"

lemma map_le_Some: "f \<subseteq>\<^sub>m g \<Longrightarrow> f x = Some y \<Longrightarrow> g x = Some y"
  by (metis domI map_le_def)

lemma holds_more: "holds own held \<Longrightarrow> own \<subseteq>\<^sub>m own' \<Longrightarrow> holds own' held"
  unfolding holds_def using map_le_Some by fast

lemma holds_new: "holds own held \<Longrightarrow> own \<subseteq>\<^sub>m own' \<Longrightarrow> own h = None \<Longrightarrow> own' h = Some n \<Longrightarrow> holds own' ((h, n) # held)"
  using holds_more [of own held own'] by (auto simp: holds_def)

lemma holds_less:
  assumes "holds own held" and "i < length held"
  shows "holds (own(fst (held ! i) := None)) (take i held @ drop (Suc i) held)" and "own (fst (held ! i)) \<noteq> None"
proof -
  obtain h n where x: "held ! i = (h, n)" by (cases "held ! i")
  define us vs where "us = take i held" and "vs = drop (Suc i) held"
  have split: "held = us @ (h, n) # vs" using assms(2) x id_take_nth_drop [of i held] by (simp add: us_def vs_def)
  from assms(1) have dist: "distinct (map fst us @ h # map fst vs)" and all: "\<forall>(g, m) \<in> set us \<union> set vs. own g = Some m" and own: "own h = Some n"
    unfolding holds_def split by auto
  have "(own(h := None)) g = Some m" if "(g, m) \<in> set us \<union> set vs" for g m
  proof -
    have "g \<in> fst ` set us \<or> g \<in> fst ` set vs" using that by force
    then have "g \<noteq> h" using dist by auto
    with that all show ?thesis by auto
  qed
  with dist show "holds (own(fst (held ! i) := None)) (take i held @ drop (Suc i) held)"
    unfolding us_def [symmetric] vs_def [symmetric] x by (auto simp: holds_def)
  show "own (fst (held ! i)) \<noteq> None" using own x by simp
qed

context block_allocator
begin

lemma client_ok:
  assumes "good s" and "holds (owned s) held" and "\<forall>n. Ask n \<in> set actions \<longrightarrow> proper n"
  shows "\<exists>s' held'. client obtain_block return_block actions held s = Done s' held' \<and> good s' \<and> holds (owned s') held'"
  using assms
proof (induction actions arbitrary: s held)
  case Nil
  then show ?case by (simp add: ret_def)
next
  case (Cons act actions)
  show ?case
  proof (cases act)
    case (Ask n)
    with Cons.prems obtain_ok [of s n] obtain s' r where r: "obtain_block n s = Done s' r" "good s'" "owned s \<subseteq>\<^sub>m owned s'"
      "\<And>h. r = Some h \<Longrightarrow> owned s h = None \<and> owned s' h = Some n" by auto
    have "holds (owned s') (case r of None \<Rightarrow> held | Some h \<Rightarrow> (h, n) # held)"
      using holds_more [OF Cons.prems(2) r(3)] holds_new [OF Cons.prems(2) r(3)] r(4) by (simp split: option.split)
    with Cons.IH [OF r(2) this] Cons.prems(3) Ask r(1) show ?thesis by (simp add: andthen_run [of "obtain_block n"])
  next
    case (Give_Back i)
    show ?thesis
    proof (cases "i < length held")
      case True
      note less = holds_less [OF Cons.prems(2) True]
      obtain s' where r: "return_block (fst (held ! i)) s = Done s' ()" "good s'" "owned s' = (owned s)(fst (held ! i) := None)"
        using return_ok [OF Cons.prems(1) less(2)] by blast
      have "holds (owned s') (take i held @ drop (Suc i) held)" unfolding r(3) by (rule less(1))
      moreover have "\<forall>n. Ask n \<in> set actions \<longrightarrow> proper n" using Cons.prems(3) by simp
      ultimately obtain s2 held2 where "client obtain_block return_block actions (take i held @ drop (Suc i) held) s' = Done s2 held2"
        "good s2" "holds (owned s2) held2" using Cons.IH [OF r(2)] by blast
      with Give_Back True r(1) show ?thesis by (simp add: andthen_run [of "return_block _"])
    qed (use Cons Give_Back in simp)
  qed
qed

lemma client_apart:
  assumes "good s" and "holds (owned s) held" and "(g, m) \<in> set held" and "(h, n) \<in> set held" and "g \<noteq> h"
  shows "cells g m \<inter> cells h n = {}"
  using assms by (intro apart [of s]) (auto simp: holds_def)

end

section \<open>The allocator provides it\<close>

definition owned_bytes :: "gc_state \<Rightarrow> hblk \<Rightarrow> nat option" where
  "owned_bytes st h = map_option hb_sz (used_at (hdr_map st) h)"

definition serving :: "nat \<Rightarrow> gc_state \<Rightarrow> bool" where
  "serving kind st \<longleftrightarrow> heap_ok st \<and> supplied st \<and> kind < length (GC_obj_kinds st)"

lemma owned_le: "used_at (hdr_map st) \<subseteq>\<^sub>m used_at (hdr_map st') \<Longrightarrow> owned_bytes st \<subseteq>\<^sub>m owned_bytes st'"
  unfolding map_le_def owned_bytes_def by (auto simp: dom_def)

interpretation gc: block_allocator "serving kind" owned_bytes "\<lambda>h n. {h..<h + blocks_of_bytes n}"
  "\<lambda>n. GC_allochblk (2 ^ 52) policy n kind flags" GC_freehblk "\<lambda>n. 0 < n \<and> n < 2 ^ 64 \<and> plain_flags flags" for kind policy flags
proof (unfold_locales, goal_cases)
  case (1 s n)
  then have s: "heap_ok s" "supplied s" "kind < length (GC_obj_kinds s)" and n: "0 < n" "n < 2 ^ 64" "plain_flags flags" by (simp_all add: serving_def)
  from s(1) obtain Ls where "blocks_inv s Ls {} {}" by (auto simp: heap_ok_def)
  then have fuel: "card (free_cells (hdr_map s)) \<le> 2 ^ 52" using free_cells_card(2) [OF blocks_invD(1)] by (metis less_imp_le)
  from allochblk_heap [OF s(1,2) fuel s(3) n(3,1,2)] obtain st' r where r: "GC_allochblk (2 ^ 52) policy n kind flags s = Done st' r"
    "heap_ok st'" "supplied st'" "takes s st'" "\<forall>h. r = Some h \<longrightarrow> returns_block s st' n kind h" by blast
  have "serving kind st'" using r(2,3) s(3) takes_kinds [OF r(4)] by (simp add: serving_def)
  moreover have "owned_bytes s \<subseteq>\<^sub>m owned_bytes st'" using r(4) by (intro owned_le) (simp add: takes_def)
  ultimately show ?case using r(1,5) by (auto simp: returns_block_def owned_bytes_def)
next
  case (2 s h)
  then have s: "heap_ok s" "supplied s" "kind < length (GC_obj_kinds s)" by (simp_all add: serving_def)
  from 2 obtain x where "used_at (hdr_map s) h = Some x" by (auto simp: owned_bytes_def)
  then obtain d where d: "hdr_map s h = Header d" "\<not> HBLK_IS_FREE d" by (rule used_header)
  from completes_unit [OF freehblk_ok [OF s(1) d]] obtain s' where s': "GC_freehblk h s = Done s' ()" "heap_ok s'"
    "used_at (hdr_map s') = (used_at (hdr_map s))(h := None)" "elsewhere s' = elsewhere s" by blast
  have "GC_obj_map s' = GC_obj_map s" using arg_cong [OF s'(4), of GC_obj_map] by (simp add: elsewhere_def)
  with s' s elsewhere_fields [OF s'(4)] have "serving kind s'" by (simp add: serving_def supplied_def)
  moreover have "owned_bytes s' = (owned_bytes s)(h := None)" using s'(3) by (auto simp: owned_bytes_def)
  ultimately show ?case using s'(1) by blast
next
  case (3 s g m h n)
  then obtain x y where xy: "used_at (hdr_map s) g = Some x" "used_at (hdr_map s) h = Some y" "hb_sz x = m" "hb_sz y = n"
    by (auto simp: owned_bytes_def)
  obtain a where a: "hdr_map s g = Header a" "x = a\<lparr>hb_next := None, hb_prev := None\<rparr>" by (rule used_header [OF xy(1)])
  obtain b where b: "hdr_map s h = Header b" "y = b\<lparr>hb_next := None, hb_prev := None\<rparr>" by (rule used_header [OF xy(2)])
  from 3(1) obtain Ls where "blocks_inv s Ls {} {}" by (auto simp: serving_def heap_ok_def)
  from regions_disjoint [OF blocks_invD(1) [OF this] a(1) b(1) 3(4)] a(2) b(2) xy(3,4) show ?case by (simp add: region_def)
qed

end
