(* ===== verification/Gc_Properties.thy ===== *)
theory Gc_Properties
  imports Gc_Contract
begin

text \<open>
  What the allocator of heap blocks guarantees. A state is described by the blocks in use with their headers
  (\<open>used_at\<close>), the set of free blocks (\<open>free_cells\<close>) and the invariant \<open>heap_ok\<close>.
\<close>

section \<open>A small heap\<close>

text \<open>One block in use, at block 5, with an arbitrary header.\<close>

definition single_block :: "hdr \<Rightarrow> gc_state" where
  "single_block d = gc_start\<lparr>bottom_indices := [0], hdr_map := (\<lambda>_. NIL)(5 := Header d), mem_mapped := (\<lambda>p. p = 5)\<rparr>"

lemma single_block_fields:
  "hdr_map (single_block d) = (\<lambda>_. NIL)(5 := Header d)" "bottom_indices (single_block d) = [0]"
  "mem_mapped (single_block d) = (\<lambda>p. p = 5)" "GC_hblkfreelist (single_block d) = replicate 61 None" "GC_free_bytes (single_block d) = replicate 61 0"
  "GC_large_free_bytes (single_block d) = 0" "GC_obj_kinds (single_block d) = GC_obj_kinds gc_start"
  by (simp_all add: single_block_def gc_start_def)

lemma heap_ok_single_block:
  assumes "0 < hb_sz d" and "hb_sz d \<le> HBLKSIZE" and "hb_flags d = 0"
  shows "heap_ok (single_block d)" and "used_at (hdr_map (single_block d)) = [5 \<mapsto> d\<lparr>hb_next := None, hb_prev := None\<rparr>]"
    and "free_cells (hdr_map (single_block d)) = {}" and "region 5 d = {5}"
proof -
  let ?Ls = "replicate 61 [] :: hblk list list" and ?st = "single_block d"
  have size: "nblocks d = 1" "hb_sz d < 2 ^ 63" using assms(1,2) by (simp_all add: block_arith)
  have flags: "\<not> HBLK_IS_FREE d" "IS_MAPPED d" using assms(3) by (simp_all add: HBLK_IS_FREE_def IS_MAPPED_def)
  have "layout (hdr_map ?st)"
    using size assms(1) flags by (auto simp: layout_def entry_ok_def single_block_fields block_arith split: if_splits)
  moreover have "indexed ?st" by (simp add: indexed_def has_index_def single_block_fields block_arith)
  moreover have "mapping_ok ?st" using size flags by (auto simp: mapping_ok_def region_def single_block_fields split: if_splits)
  moreover have "lists_ok ?st ?Ls" by (simp add: lists_ok_def single_block_fields concat_replicate_trivial)
  moreover have none: "\<not> free_at (hdr_map ?st) h" for h using flags(1) by (auto simp: free_at_def single_block_fields split: if_splits)
  ultimately have "blocks_inv ?st ?Ls {} {}" by (simp add: blocks_inv_def concat_replicate_trivial)
  moreover show "free_cells (hdr_map ?st) = {}" using none by (auto simp: free_cells_def free_at_def)
  moreover show used: "used_at (hdr_map ?st) = [5 \<mapsto> d\<lparr>hb_next := None, hb_prev := None\<rparr>]"
    using flags(1) by (auto simp: fun_eq_iff used_at_def bare_def single_block_fields HBLK_IS_FREE_def)
  moreover have "HBLKSIZE * nblocks e < 2 ^ 63" if "used_at (hdr_map ?st) h = Some e" for h e
    using that size unfolding used by (auto simp: block_arith split: if_splits)
  ultimately show "heap_ok ?st" unfolding heap_ok_def by (simp add: single_block_fields) blast
  show "region 5 d = {5}" using size by (auto simp: region_def)
qed

definition one_block :: gc_state where
  "one_block = single_block (zero_hdr\<lparr>hb_sz := HBLKSIZE\<rparr>)"

lemma one_block_fields:
  "hdr_map one_block = (\<lambda>_. NIL)(5 := Header (zero_hdr\<lparr>hb_sz := HBLKSIZE\<rparr>))" "\<not> HBLK_IS_FREE (zero_hdr\<lparr>hb_sz := HBLKSIZE\<rparr>)"
  by (simp_all add: one_block_def single_block_fields zero_hdr_def HBLK_IS_FREE_def)

lemma heap_ok_one_block: "heap_ok one_block"
  unfolding one_block_def by (rule heap_ok_single_block(1)) (simp_all add: zero_hdr_def HBLKSIZE_def)

section \<open>Searching the headers\<close>

text \<open>
  In every heap that satisfies the invariant, the search for the preceding block, which follows the counts
  stored inside large blocks, returns the header at the greatest address up to the given one, or nothing if there is none.
\<close>

theorem GC_prev_block_finds:
  assumes "heap_ok st"
  shows "\<exists>r. GC_prev_block h st = Done st r \<and>
    (case r of
       None \<Rightarrow> \<forall>q d. q \<le> h \<longrightarrow> hdr_map st q \<noteq> Header d
     | Some p \<Rightarrow> p \<le> h \<and> (\<exists>d. hdr_map st p = Header d) \<and> (\<forall>q d. p < q \<longrightarrow> q \<le> h \<longrightarrow> hdr_map st q \<noteq> Header d))"
proof -
  from assms obtain Ls where "blocks_inv st Ls {} {}" by (auto simp: heap_ok_def)
  from GC_prev_block_ok [OF blocks_invD(1,2) [OF this]] obtain r
    where "GC_prev_block h st = Done st r" "last_header (hdr_map st) 0 (h + 1) r" by blast
  then show ?thesis by (intro exI [of _ r]) (auto simp: last_header_def less_Suc_eq_le split: option.splits)
qed

theorem GC_prev_block_finds_witness: "GC_prev_block 9 one_block = Done one_block (Some 5)"
proof -
  from GC_prev_block_finds [OF heap_ok_one_block, of 9] obtain r where r: "GC_prev_block 9 one_block = Done one_block r"
    "case r of None \<Rightarrow> \<forall>q d. q \<le> 9 \<longrightarrow> hdr_map one_block q \<noteq> Header d
     | Some p \<Rightarrow> p \<le> 9 \<and> (\<exists>d. hdr_map one_block p = Header d) \<and> (\<forall>q d. p < q \<longrightarrow> q \<le> 9 \<longrightarrow> hdr_map one_block q \<noteq> Header d)" by blast
  have five: "hdr_map one_block 5 = Header (zero_hdr\<lparr>hb_sz := HBLKSIZE\<rparr>)" by (simp add: one_block_fields)
  from r(2) five have "r = Some 5" by (cases r) (auto simp: one_block_fields split: if_splits)
  with r(1) show ?thesis by simp
qed

section \<open>Freeing\<close>

text \<open>
  C28. Freeing a block in use returns. The block and nothing else stops being in use; exactly its region is added
  to the free blocks, whether or not it is merged with its neighbours; the count of free bytes stays exact; memory stays
  mapped as it was; and the invariant of the heap is kept.
\<close>

theorem GC_freehblk_frees:
  assumes "heap_ok st" and "hdr_map st h = Header d" and "\<not> HBLK_IS_FREE d"
  shows "\<exists>st'. GC_freehblk h st = Done st' () \<and> heap_ok st' \<and>
    used_at (hdr_map st') = (used_at (hdr_map st))(h := None) \<and>
    free_cells (hdr_map st') = free_cells (hdr_map st) \<union> region h d \<and> mem_mapped st' = mem_mapped st \<and>
    GC_large_free_bytes st' = card (free_cells (hdr_map st)) * HBLKSIZE + nblocks d * HBLKSIZE"
proof -
  from completesD [OF freehblk_ok [OF assms]] obtain st' where st': "GC_freehblk h st = Done st' ()" "heap_ok st'"
    "used_at (hdr_map st') = (used_at (hdr_map st))(h := None)" "free_cells (hdr_map st') = free_cells (hdr_map st) \<union> region h d"
    "mem_mapped st' = mem_mapped st" by auto
  from assms(1) obtain Ls where Ls: "blocks_inv st Ls {} {}" by (auto simp: heap_ok_def)
  note inv = blocks_invD [OF Ls]
  have "card (free_cells (hdr_map st) \<union> region h d) = card (free_cells (hdr_map st)) + nblocks d"
    using region_used_not_free [OF inv(1) assms(2,3)] free_cells_card(1) [OF inv(1)]
    by (subst card_Un_disjoint) (auto simp: region_def)
  with st' have "GC_large_free_bytes st' = card (free_cells (hdr_map st)) * HBLKSIZE + nblocks d * HBLKSIZE"
    by (simp add: heap_ok_def add_mult_distrib)
  with st' show ?thesis by blast
qed

theorem GC_freehblk_frees_witness:
  "\<exists>st'. GC_freehblk 5 one_block = Done st' () \<and> free_cells (hdr_map st') = {5} \<and> GC_large_free_bytes st' = HBLKSIZE"
proof -
  have five: "hdr_map one_block 5 = Header (zero_hdr\<lparr>hb_sz := HBLKSIZE\<rparr>)" by (simp add: one_block_fields)
  have none: "free_cells (hdr_map one_block) = {}" by (auto simp: free_cells_def one_block_fields split: if_splits)
  have "region 5 (zero_hdr\<lparr>hb_sz := HBLKSIZE\<rparr>) = {5}" "nblocks (zero_hdr\<lparr>hb_sz := HBLKSIZE\<rparr>) = 1" by (auto simp: region_def block_arith)
  with GC_freehblk_frees [OF heap_ok_one_block five one_block_fields(2)] none show ?thesis by auto
qed

text \<open>
  Freeing a block a second time, while it is still a free block of its own, ends the program with an error message
  instead of corrupting the free lists.
\<close>

theorem GC_freehblk_twice_aborts:
  assumes "heap_ok st" and "hdr_map st h = Header d" and "HBLK_IS_FREE d"
  shows "GC_freehblk h st = Fault Abort_Called"
proof -
  from assms(1) obtain Ls where Ls: "blocks_inv st Ls {} {}" by (auto simp: heap_ok_def)
  note inv = blocks_invD [OF Ls]
  have ok: "entry_ok (hdr_map st) h d" by (rule layout_entry [OF inv(1) assms(2)])
  have "OBJ_SZ_TO_BLOCKS (hb_sz d) = nblocks d" using ok by (simp add: OBJ_SZ_TO_BLOCKS_eq entry_ok_def)
  then have size: "HBLKSIZE * OBJ_SZ_TO_BLOCKS (hb_sz d) = HBLKSIZE * nblocks d" by simp
  show ?thesis
  proof (cases "signed_pos (HBLKSIZE * nblocks d)")
    case False
    then show ?thesis
      unfolding GC_freehblk_def andthen_get_hdr [of st h, OF assms(2)] Let_def size by (simp add: raise_fault_def)
  next
    case True
    with assms(2,3) show ?thesis
      unfolding GC_freehblk_def andthen_get_hdr [of st h, OF assms(2)] Let_def size
      by (simp add: andthen_run [of "GC_remove_counts _ _", OF remove_counts_run [OF inv(2) nblocks_pos [OF ok], of h]] run_steps raise_fault_def)
  qed
qed

theorem GC_freehblk_twice_aborts_witness:
  "\<exists>st'. GC_freehblk 5 one_block = Done st' () \<and> GC_freehblk 5 st' = Fault Abort_Called"
proof -
  have five: "hdr_map one_block 5 = Header (zero_hdr\<lparr>hb_sz := HBLKSIZE\<rparr>)" by (simp add: one_block_fields)
  have none: "free_cells (hdr_map one_block) = {}" by (auto simp: free_cells_def one_block_fields split: if_splits)
  have reg: "region 5 (zero_hdr\<lparr>hb_sz := HBLKSIZE\<rparr>) = {5}" by (auto simp: region_def block_arith)
  from completesD [OF freehblk_ok [OF heap_ok_one_block five one_block_fields(2)]] obtain st'
    where st': "GC_freehblk 5 one_block = Done st' ()" "heap_ok st'" "free_cells (hdr_map st') = {5}" using none reg by auto
  then obtain h d where h: "hdr_map st' h = Header d" "HBLK_IS_FREE d" "5 \<in> region h d" "region h d \<subseteq> {5}"
    unfolding free_cells_def by blast
  from st'(2) obtain Ls where "blocks_inv st' Ls {} {}" by (auto simp: heap_ok_def)
  from region_start [OF layout_entry [OF blocks_invD(1) [OF this] h(1)]] h(4) have "h = 5" by auto
  with GC_freehblk_twice_aborts [OF st'(2) h(1,2)] st'(1) show ?thesis by blast
qed

section \<open>Extending the heap\<close>

text \<open>
  Adding fresh mapped memory to the heap makes exactly this memory free and records the new section and heap size;
  blocks in use are not affected. When the memory for a header cannot be had the heap stays as it was.
\<close>

theorem GC_add_to_heap_adds:
  assumes "heap_ok st" and "fresh_range st p n" and "length (GC_heap_sects st) < MAX_HEAP_SECTS"
  shows "\<exists>st'. GC_add_to_heap p (HBLKSIZE * n) st = Done st' () \<and> heap_ok st' \<and> used_at (hdr_map st') = used_at (hdr_map st) \<and>
    (if GC_heap_sects st' = GC_heap_sects st
     then free_cells (hdr_map st') = free_cells (hdr_map st) \<and> GC_heapsize st' = GC_heapsize st \<and> \<not> (\<forall>n. mem_answers st n)
     else free_cells (hdr_map st') = free_cells (hdr_map st) \<union> {p..<p + n} \<and> GC_heapsize st' = word_add (GC_heapsize st) (HBLKSIZE * n) \<and>
       GC_heap_sects st' = GC_heap_sects st @ [(p, HBLKSIZE * n)])"
  using completesD [OF add_to_heap_ok [OF assms]] by auto

theorem GC_add_to_heap_adds_witness:
  "\<exists>st'. GC_add_to_heap 16 (HBLKSIZE * 64) (gc_start\<lparr>mem_mapped := \<lambda>_. True\<rparr>) = Done st' () \<and> heap_ok st' \<and>
     free_cells (hdr_map st') = {16..<80}"
proof -
  let ?st = "gc_start\<lparr>mem_mapped := \<lambda>_. True\<rparr>"
  from heap_ok_start obtain Ls where "blocks_inv gc_start Ls {} {}" by (auto simp: heap_ok_def)
  then have "blocks_inv ?st Ls {} {}"
    by (simp add: blocks_inv_def indexed_def has_index_def lists_ok_def mapping_ok_def) (simp add: gc_start_def)
  with heap_ok_start have ok: "heap_ok ?st" by (auto simp: heap_ok_def)
  have fresh: "fresh_range ?st 16 64" by (simp add: fresh_range_def block_arith gc_start_def)
  have few: "length (GC_heap_sects ?st) < MAX_HEAP_SECTS" by (simp add: gc_start_def MAX_HEAP_SECTS_def)
  have none: "free_cells (hdr_map ?st) = {}" by (simp add: free_cells_def gc_start_def)
  have "\<forall>n. mem_answers ?st n" by (simp add: gc_start_def)
  with GC_add_to_heap_adds [OF ok fresh few] none show ?thesis by (auto split: if_splits)
qed

section \<open>Allocation\<close>

text \<open>One free block, block 5, on the list of blocks of size one.\<close>

definition free_hdr :: hdr where
  "free_hdr = zero_hdr\<lparr>hb_sz := HBLKSIZE, hb_flags := FREE_BLK\<rparr>"

definition one_free :: gc_state where
  "one_free = gc_start\<lparr>bottom_indices := [0], hdr_map := (\<lambda>_. NIL)(5 := Header free_hdr), mem_mapped := (\<lambda>p. p = 5),
     GC_hblkfreelist := (replicate 61 None)[1 := Some 5], GC_free_bytes := (replicate 61 0)[1 := HBLKSIZE], GC_large_free_bytes := HBLKSIZE\<rparr>"

lemma one_free_fields:
  "hdr_map one_free = (\<lambda>_. NIL)(5 := Header free_hdr)" "bottom_indices one_free = [0]" "mem_mapped one_free = (\<lambda>p. p = 5)"
  "GC_hblkfreelist one_free = (replicate 61 None)[1 := Some 5]" "GC_free_bytes one_free = (replicate 61 0)[1 := HBLKSIZE]"
  "GC_large_free_bytes one_free = HBLKSIZE"
  by (simp_all add: one_free_def gc_start_def)

lemma free_hdr_simps: "HBLK_IS_FREE free_hdr" "IS_MAPPED free_hdr" "hb_sz free_hdr = HBLKSIZE" "nblocks free_hdr = 1" "hb_next free_hdr = None"
  "hb_prev free_hdr = None" "region 5 free_hdr = {5}"
  by (auto simp: free_hdr_def zero_hdr_def HBLK_IS_FREE_def IS_MAPPED_def FREE_BLK_def WAS_UNMAPPED_def block_arith region_def)

lemma one_free_cells: "free_cells (hdr_map one_free) = {5}"
  using free_hdr_simps by (auto simp: free_cells_def one_free_fields split: if_splits)

lemma one_free_used: "used_at (hdr_map one_free) h = None"
  using free_hdr_simps(1) by (simp add: used_at_def bare_def one_free_fields HBLK_IS_FREE_def)

lemma one_free_lists: "concat ((replicate 61 [] :: hblk list list)[1 := [5]]) = [5]"
proof -
  have r: "(replicate 61 [] :: hblk list list)[1 := [5]] = [] # [5] # replicate 59 []" by (simp add: numeral_eq_Suc)
  show ?thesis unfolding r by (simp add: concat_replicate_trivial)
qed

lemma heap_ok_one_free: "heap_ok one_free"
proof -
  let ?Ls = "(replicate 61 [] :: hblk list list)[1 := [5]]"
  have at: "?Ls ! i = (if i = 1 then [5] else [])" if "i < 61" for i using that by (simp add: nth_list_update)
  have "layout (hdr_map one_free)"
    using free_hdr_simps by (auto simp: layout_def entry_ok_def one_free_fields block_arith split: if_splits)
  moreover have "indexed one_free" by (simp add: indexed_def has_index_def one_free_fields block_arith)
  moreover have "mapping_ok one_free" using free_hdr_simps by (auto simp: mapping_ok_def one_free_fields split: if_splits)
  moreover have "lists_ok one_free ?Ls"
    using free_hdr_simps unfolding lists_ok_def one_free_lists
    by (auto simp: at one_free_fields nth_list_update links_of_def bytes_at_def)
  moreover have "free_at (hdr_map one_free) h \<longleftrightarrow> h = 5" for h using free_hdr_simps(1) by (auto simp: free_at_def one_free_fields)
  moreover have "fl_index (hdr_map one_free) h = i" if "i < 61" "h \<in> set (?Ls ! i)" for i h
    using that free_hdr_simps unfolding at [OF that(1)]
    by (simp add: fl_index_def bytes_at_def one_free_fields block_arith GC_hblk_fl_from_blocks_def UNIQUE_THRESHOLD_def split: if_splits)
  ultimately have "blocks_inv one_free ?Ls {} {}" unfolding blocks_inv_def one_free_lists by simp
  then show ?thesis unfolding heap_ok_def using one_free_cells one_free_used by (auto simp: one_free_fields)
qed

lemma supplied_one_free: "supplied one_free" "GC_obj_kinds one_free = GC_obj_kinds gc_start" "plain_flags 0" "length (GC_obj_kinds one_free) = 4"
  by (simp_all add: supplied_def one_free_def gc_start_def plain_flags_def)

definition use_all :: split_policy where
  "use_all = \<lparr>use_more_heap = True, finalizers_freed_much = False, GC_large_allocd_bytes = 0, GC_max_large_allocd_bytes = 0\<rparr>"

text \<open>
  C12. A request for a block of any size returns, whatever the black lists say, however large blocks have to be split
  and however many of them are dropped. The invariant of the heap is kept, no block in use changes, no memory of the heap is lost, and a
  returned block was free before, is mapped and has a header with the size and kind of the request.
\<close>

theorem GC_allochblk_allocates:
  assumes "heap_ok st" and "supplied st" and "card (free_cells (hdr_map st)) \<le> fuel" and "kind < length (GC_obj_kinds st)" and "plain_flags flags"
    and "0 < sz" and "sz < 2 ^ 64"
  shows "\<exists>st' r. GC_allochblk fuel policy sz kind flags st = Done st' r \<and> heap_ok st' \<and>
    used_at (hdr_map st) \<subseteq>\<^sub>m used_at (hdr_map st') \<and> heap_cells (hdr_map st') = heap_cells (hdr_map st) \<and>
    (case r of
       None \<Rightarrow> True
     | Some h \<Rightarrow> \<exists>d. used_at (hdr_map st') h = Some d \<and> hb_sz d = sz \<and> hb_obj_kind d = kind mod 256 \<and>
         region h d \<subseteq> free_cells (hdr_map st) \<and> (\<forall>p \<in> region h d. mem_mapped st' p))"
proof -
  obtain st' r where r: "GC_allochblk fuel policy sz kind flags st = Done st' r" "heap_ok st'" "takes st st'"
    "\<And>h. r = Some h \<Longrightarrow> returns_block st st' sz kind h" using allochblk_heap [OF assms] by blast
  from assms(1) r(2) obtain Ls Ls' where i: "blocks_inv st Ls {} {}" "blocks_inv st' Ls' {} {}" by (auto simp: heap_ok_def)
  have "\<exists>d. used_at (hdr_map st') h = Some d \<and> hb_sz d = sz \<and> hb_obj_kind d = kind mod 256 \<and>
      region h d \<subseteq> free_cells (hdr_map st) \<and> (\<forall>p \<in> region h d. mem_mapped st' p)" if "r = Some h" for h
    using r(4) [OF that] returned_region [OF i r(3)] unfolding returns_block_def by blast
  with r show ?thesis by (auto simp: takes_def split: option.split)
qed

theorem GC_allochblk_allocates_witness:
  "\<exists>st' r. GC_allochblk 1 use_all 100 1 0 one_free = Done st' r \<and> heap_ok st' \<and> heap_cells (hdr_map st') = heap_cells (hdr_map one_free)"
  using GC_allochblk_allocates [OF heap_ok_one_free supplied_one_free(1), of 1 1 0 100 use_all] supplied_one_free one_free_cells by auto

text \<open>
  C29. When the whole heap may be used, a request for pointer-free memory of at most \<open>MAX_BLACK_LIST_ALLOC\<close> bytes or for
  uncollectable memory of any size succeeds if any free block is large enough.
\<close>

theorem GC_allochblk_succeeds:
  assumes "heap_ok st" and "supplied st" and "card (free_cells (hdr_map st)) \<le> fuel" and "kind < length (GC_obj_kinds st)" and "plain_flags flags"
    and "0 < sz" and "use_more_heap policy" and "IS_UNCOLLECTABLE kind \<or> kind = PTRFREE \<and> sz \<le> MAX_BLACK_LIST_ALLOC"
    and "hdr_map st h = Header d" and "HBLK_IS_FREE d" and "sz \<le> hb_sz d"
  shows "\<exists>st' g. GC_allochblk fuel policy sz kind flags st = Done st' (Some g)"
  by (rule allochblk_finds [OF assms])

theorem GC_allochblk_succeeds_witness: "\<exists>st' g. GC_allochblk 1 use_all 100 PTRFREE 0 one_free = Done st' (Some g)"
proof (rule GC_allochblk_succeeds [OF heap_ok_one_free supplied_one_free(1), where h = 5 and d = free_hdr])
  show "hdr_map one_free 5 = Header free_hdr" by (simp add: one_free_fields)
qed (use supplied_one_free one_free_cells free_hdr_simps in \<open>simp_all add: PTRFREE_def use_all_def MAX_BLACK_LIST_ALLOC_def HBLKSIZE_def\<close>)

text \<open>
  C11. A client that allocates blocks and frees blocks it holds, in any order, is always served without a fault. At the
  end the invariant of the heap holds, the blocks it holds are in use with the sizes asked for, and no two of
  them overlap.
\<close>

theorem GC_blocks_served:
  assumes "heap_ok st" and "supplied st" and "kind < length (GC_obj_kinds st)" and "plain_flags flags"
    and "\<forall>n. Ask n \<in> set actions \<longrightarrow> 0 < n \<and> n < 2 ^ 64"
  shows "\<exists>st' held. client (\<lambda>n. GC_allochblk (2 ^ 52) policy n kind flags) GC_freehblk actions [] st = Done st' held \<and> heap_ok st' \<and>
    (\<forall>(h, n) \<in> set held. \<exists>d. used_at (hdr_map st') h = Some d \<and> hb_sz d = n) \<and>
    (\<forall>(g, m) \<in> set held. \<forall>(h, n) \<in> set held. g \<noteq> h \<longrightarrow> {g..<g + blocks_of_bytes m} \<inter> {h..<h + blocks_of_bytes n} = {})"
proof -
  have start: "serving kind st" "holds (owned_bytes st) []" using assms(1-3) by (simp_all add: serving_def holds_def)
  obtain st' held where st': "client (\<lambda>n. GC_allochblk (2 ^ 52) policy n kind flags) GC_freehblk actions [] st = Done st' held"
    "serving kind st'" "holds (owned_bytes st') held"
    using gc.client_ok [OF start, of actions flags policy] assms(4,5) by blast
  have "\<exists>d. used_at (hdr_map st') h = Some d \<and> hb_sz d = n" if "(h, n) \<in> set held" for h n
    using st'(3) that by (auto simp: holds_def owned_bytes_def)
  moreover have "{g..<g + blocks_of_bytes m} \<inter> {h..<h + blocks_of_bytes n} = {}" if "(g, m) \<in> set held" "(h, n) \<in> set held" "g \<noteq> h" for g m h n
    by (rule gc.client_apart [OF st'(2,3) that])
  ultimately have a: "\<forall>(h, n) \<in> set held. \<exists>d. used_at (hdr_map st') h = Some d \<and> hb_sz d = n"
    and b: "\<forall>(g, m) \<in> set held. \<forall>(h, n) \<in> set held. g \<noteq> h \<longrightarrow> {g..<g + blocks_of_bytes m} \<inter> {h..<h + blocks_of_bytes n} = {}"
    by blast+
  have "heap_ok st'" using st'(2) by (simp add: serving_def)
  with st'(1) a b show ?thesis by (intro exI conjI)
qed

theorem GC_blocks_served_witness:
  "\<exists>st' held. client (\<lambda>n. GC_allochblk (2 ^ 52) use_all n 1 0) GC_freehblk [Ask 100, Ask 10, Give_Back 0, Ask 4000] [] one_free = Done st' held \<and> heap_ok st'"
  using GC_blocks_served [OF heap_ok_one_free supplied_one_free(1), of 1 0 "[Ask 100, Ask 10, Give_Back 0, Ask 4000]" use_all] supplied_one_free by auto

text \<open>
  Walking all free lists and adding up the sizes in the headers gives the number that \<open>GC_large_free_bytes\<close> keeps.
\<close>

theorem GC_compute_large_free_bytes_agrees:
  assumes "heap_ok st" and "card (free_cells (hdr_map st)) \<le> fuel"
  shows "GC_compute_large_free_bytes fuel st = Done st (GC_large_free_bytes st)"
  by (rule compute_free_bytes [OF assms])

theorem GC_compute_large_free_bytes_agrees_witness: "GC_compute_large_free_bytes 1 one_free = Done one_free HBLKSIZE"
  using GC_compute_large_free_bytes_agrees [OF heap_ok_one_free, of 1] one_free_cells by (simp add: one_free_fields)

end
