(* ===== verification/Gc_Sweep.thy ===== *)
theory Gc_Sweep
  imports Gc_Blocks
begin

text \<open>
  Objects inside heap blocks: \<open>reclaim.c\<close> and \<open>new_hblk.c\<close>, with the operations on mark bits of \<open>mark.c\<close>, the iteration
  over all blocks of \<open>headers.c\<close> and the check of leaked objects of \<open>dbg_mlc.c\<close>, on top of the allocator of blocks. The
  configuration is that of \<open>Gc_Headers\<close>, with mark bits (no \<open>USE_MARK_BYTES\<close>) and incremental collection
  switched off, where \<open>GC_remove_protection\<close> returns at once.

  The memory of the heap consists of words at addresses that are multiples of eight; accesses elsewhere, or to pages
  that are not mapped, are faults. Disclaim procedures belong to the client and are an argument.
\<close>

section \<open>The state\<close>

type_synonym addr = nat

text \<open>The fields of \<open>struct obj_kind\<close> that \<open>obj_kind\<close> leaves out. A null address is zero.\<close>

record kind_lists =
  ok_freelist :: "addr list"
  ok_reclaim_list :: "hblk option list option"
  ok_init :: bool

record sweep_state =
  sw_heap :: gc_state
  sw_mem :: "addr \<Rightarrow> nat"
  kinds_lists :: "kind_lists list"
  GC_bytes_found :: int
  GC_composite_in_use :: nat
  GC_atomic_in_use :: nat
  GC_large_bytes :: nat
  GC_leaked :: "addr list"
  GC_smashed :: "addr list"
  GC_n_smashed :: nat
  GC_have_errors :: bool
  GC_debugging_started :: bool
  GC_findleak_delay_free :: bool

type_synonym 'a sweep_op = "(sweep_state, 'a) run"

definition on_heap :: "'a gc_op \<Rightarrow> 'a sweep_op" where
  "on_heap = embed sw_heap (\<lambda>g s. s\<lparr>sw_heap := g\<rparr>)"

definition accessible :: "sweep_state \<Rightarrow> addr \<Rightarrow> bool" where
  "accessible s p \<longleftrightarrow> 8 dvd p \<and> mem_mapped (sw_heap s) (p div HBLKSIZE)"

definition store :: "addr \<Rightarrow> nat \<Rightarrow> unit sweep_op" where
  "store p v = (\<lambda>s. if accessible s p then Done (s\<lparr>sw_mem := (sw_mem s)(p := v)\<rparr>) () else Fault Out_Of_Bounds)"

definition load :: "addr \<Rightarrow> nat sweep_op" where
  "load p = (\<lambda>s. if accessible s p then Done s (sw_mem s p) else Fault Out_Of_Bounds)"

section \<open>Constants\<close>

definition MAXOBJGRANULES :: nat where
  "MAXOBJGRANULES = BYTES_TO_GRANULES MAXOBJBYTES"

definition MARK_BITS_SZ :: nat where
  "MARK_BITS_SZ = MARK_BITS_PER_HBLK div 64 + 1"

definition HBLK_OBJS :: "nat \<Rightarrow> nat" where
  "HBLK_OBJS sz = HBLKSIZE div sz"

definition MARK_BIT_OFFSET :: "nat \<Rightarrow> nat" where
  "MARK_BIT_OFFSET sz = BYTES_TO_GRANULES sz"

definition GRANULES_TO_BYTES :: "nat \<Rightarrow> nat" where
  "GRANULES_TO_BYTES n = push_bit 4 n"

definition GRANULES_TO_WORDS :: "nat \<Rightarrow> nat" where
  "GRANULES_TO_WORDS n = push_bit 1 n"

definition BYTES_TO_WORDS :: "nat \<Rightarrow> nat" where
  "BYTES_TO_WORDS n = drop_bit 3 n"

definition MAX_LEAKED :: nat where
  "MAX_LEAKED = 40"

definition MAX_SMASHED :: nat where
  "MAX_SMASHED = 20"

section \<open>The lists of a kind\<close>

definition get_kind :: "nat \<Rightarrow> (obj_kind \<times> kind_lists) sweep_op" where
  "get_kind k = (\<lambda>s.
     if k < length (kinds_lists s) \<and> k < length (GC_obj_kinds (sw_heap s))
     then Done s (GC_obj_kinds (sw_heap s) ! k, kinds_lists s ! k) else Fault Out_Of_Bounds)"

definition get_fl :: "nat \<Rightarrow> nat \<Rightarrow> addr sweep_op" where
  "get_fl k i =
     andthen (get_kind k) (\<lambda>(_, ok).
     if i < length (ok_freelist ok) then ret (ok_freelist ok ! i) else raise_fault Out_Of_Bounds)"

definition set_fl :: "nat \<Rightarrow> nat \<Rightarrow> addr \<Rightarrow> unit sweep_op" where
  "set_fl k i p =
     andthen (get_kind k) (\<lambda>(_, ok).
     if i < length (ok_freelist ok)
     then modifies (\<lambda>s. s\<lparr>kinds_lists := (kinds_lists s)[k := ok\<lparr>ok_freelist := (ok_freelist ok)[i := p]\<rparr>]\<rparr>)
     else raise_fault Out_Of_Bounds)"

text \<open>An entry of \<open>ok_reclaim_list\<close>, which must have been allocated.\<close>

definition get_rl :: "nat \<Rightarrow> nat \<Rightarrow> hblk option sweep_op" where
  "get_rl k i =
     andthen (get_kind k) (\<lambda>(_, ok).
     case ok_reclaim_list ok of
       None \<Rightarrow> raise_fault Null_Dereference
     | Some rl \<Rightarrow> if i < length rl then ret (rl ! i) else raise_fault Out_Of_Bounds)"

definition set_rl :: "nat \<Rightarrow> nat \<Rightarrow> hblk option \<Rightarrow> unit sweep_op" where
  "set_rl k i h =
     andthen (get_kind k) (\<lambda>(_, ok).
     case ok_reclaim_list ok of
       None \<Rightarrow> raise_fault Null_Dereference
     | Some rl \<Rightarrow>
         if i < length rl
         then modifies (\<lambda>s. s\<lparr>kinds_lists := (kinds_lists s)[k := ok\<lparr>ok_reclaim_list := Some (rl[i := h])\<rparr>]\<rparr>)
         else raise_fault Out_Of_Bounds)"

section \<open>Mark bits\<close>

definition mark_bit_from_hdr :: "hblk \<Rightarrow> nat \<Rightarrow> bool sweep_op" where
  "mark_bit_from_hdr h n =
     andthen (on_heap (get_hdr h)) (\<lambda>hhdr. if n < 64 * MARK_BITS_SZ then ret (hb_marks hhdr n) else raise_fault Out_Of_Bounds)"

definition put_mark_bit :: "hblk \<Rightarrow> nat \<Rightarrow> bool \<Rightarrow> unit sweep_op" where
  "put_mark_bit h n b =
     (if n < 64 * MARK_BITS_SZ then on_heap (upd_hdr h (\<lambda>d. d\<lparr>hb_marks := (hb_marks d)(n := b)\<rparr>)) else raise_fault Out_Of_Bounds)"

text \<open>The loop of \<open>GC_set_hdr_marks\<close> fills whole words.\<close>

definition GC_set_hdr_marks :: "hblk \<Rightarrow> unit sweep_op" where
  "GC_set_hdr_marks h =
     on_heap (upd_hdr h (\<lambda>hhdr.
       let sz = hb_sz hhdr; n_marks = FINAL_MARK_BIT sz
       in hhdr\<lparr>hb_marks := (\<lambda>i. i < 64 * ((n_marks + 64) div 64) \<or> hb_marks hhdr i), hb_n_marks := HBLK_OBJS sz\<rparr>))"

definition clear_marks_for_block :: "hblk \<Rightarrow> unit sweep_op" where
  "clear_marks_for_block h =
     andthen (on_heap (get_hdr h)) (\<lambda>hhdr.
     if IS_UNCOLLECTABLE (hb_obj_kind hhdr) then ret () else on_heap (GC_clear_hdr_marks h))"

definition GC_set_mark_bit :: "addr \<Rightarrow> unit sweep_op" where
  "GC_set_mark_bit p =
     (let h = p div HBLKSIZE; bit_no = BYTES_TO_GRANULES (p - h * HBLKSIZE)
      in andthen (mark_bit_from_hdr h bit_no) (\<lambda>marked.
         if marked then ret ()
         else
           andthen (put_mark_bit h bit_no True) (\<lambda>_.
           on_heap (upd_hdr h (\<lambda>d. d\<lparr>hb_n_marks := hb_n_marks d + 1\<rparr>)))))"

definition GC_clear_mark_bit :: "addr \<Rightarrow> unit sweep_op" where
  "GC_clear_mark_bit p =
     (let h = p div HBLKSIZE; bit_no = BYTES_TO_GRANULES (p - h * HBLKSIZE)
      in andthen (mark_bit_from_hdr h bit_no) (\<lambda>marked.
         if \<not> marked then ret ()
         else
           andthen (on_heap (get_hdr h)) (\<lambda>hhdr.
           let n_marks = hb_n_marks hhdr
           in andthen (put_mark_bit h bit_no False) (\<lambda>_.
              on_heap (upd_hdr h (\<lambda>d. d\<lparr>hb_n_marks := word_sub n_marks 1\<rparr>))))))"

definition GC_is_marked :: "addr \<Rightarrow> bool sweep_op" where
  "GC_is_marked p = (let h = p div HBLKSIZE in mark_bit_from_hdr h (BYTES_TO_GRANULES (p - h * HBLKSIZE)))"

text \<open>Counting bits: a word of mark bits as a number.\<close>

definition mark_word :: "hdr \<Rightarrow> nat \<Rightarrow> nat" where
  "mark_word hhdr i = horner_sum of_bool 2 (map (\<lambda>j. hb_marks hhdr (64 * i + j)) [0..<64])"

function set_bits :: "nat \<Rightarrow> nat \<Rightarrow> nat" where
  "set_bits m result = (if 0 < m then set_bits (drop_bit 1 m) (if odd m then result + 1 else result) else result)"
  by pat_completeness auto
termination by (relation "measure (\<lambda>(m, result). m)") (auto simp: drop_bit_Suc)

declare set_bits.simps [simp del]

definition GC_n_set_marks :: "hdr \<Rightarrow> nat" where
  "GC_n_set_marks hhdr =
     (let n_mark_words = MARK_BITS_SZ;
          result = sum_list (map (\<lambda>i. set_bits (mark_word hhdr i) 0) [0..<n_mark_words - 1])
      in result + set_bits (mark_word hhdr (n_mark_words - 1)) 0)"

section \<open>All blocks in use\<close>

text \<open>One bottom index, downward; the next bottom index is the one with the next larger key.\<close>

function apply_index :: "(hblk \<Rightarrow> unit sweep_op) \<Rightarrow> nat \<Rightarrow> nat \<Rightarrow> unit sweep_op" where
  "apply_index fn key 0 = ret ()"
| "apply_index fn key (Suc j) =
     andthen (on_heap (HDR (key * BOTTOM_SZ + j))) (\<lambda>e.
     case e of
       Header hhdr \<Rightarrow>
         andthen (if \<not> HBLK_IS_FREE hhdr then fn (key * BOTTOM_SZ + j) else ret ()) (\<lambda>_. apply_index fn key j)
     | Jump d \<Rightarrow> if d = 0 then apply_index fn key j else apply_index fn key (Suc j - d))"
  by pat_completeness auto
termination by (relation "measure (\<lambda>(fn, key, j). j)") auto

definition asc_link :: "nat \<Rightarrow> gc_state \<Rightarrow> nat option" where
  "asc_link key st = (case filter (\<lambda>k. key < k) (bottom_indices st) of [] \<Rightarrow> None | k # _ \<Rightarrow> Some k)"

fun apply_indices :: "nat \<Rightarrow> (hblk \<Rightarrow> unit sweep_op) \<Rightarrow> nat option \<Rightarrow> unit sweep_op" where
  "apply_indices fuel fn None = ret ()"
| "apply_indices 0 fn (Some key) = exhaust"
| "apply_indices (Suc fuel) fn (Some key) =
     andthen (apply_index fn key BOTTOM_SZ) (\<lambda>_.
     andthen (on_heap (reads (asc_link key))) (\<lambda>nxt. apply_indices fuel fn nxt))"

definition GC_apply_to_all_blocks :: "nat \<Rightarrow> (hblk \<Rightarrow> unit sweep_op) \<Rightarrow> unit sweep_op" where
  "GC_apply_to_all_blocks fuel fn =
     andthen (on_heap (reads (\<lambda>st. case bottom_indices st of [] \<Rightarrow> None | k # _ \<Rightarrow> Some k))) (apply_indices fuel fn)"

section \<open>Leaks\<close>

definition OH_BYTES :: nat where
  "OH_BYTES = 32"

definition START_FLAG :: "64 word" where
  "START_FLAG = 0xFEDCEDCBFEDCEDCB"

definition END_FLAG :: "64 word" where
  "END_FLAG = 0xBCDECDEFBCDECDEF"

definition GC_FREED_MEM_MARKER :: nat where
  "GC_FREED_MEM_MARKER = 0xEFBEADDEDEADBEEF"

text \<open>\<open>DEBUG_BYTES + EXTRA_BYTES\<close> is the size of the header \<open>oh\<close> of an object and of the end flag.\<close>

definition GC_has_other_debug_info :: "addr \<Rightarrow> int sweep_op" where
  "GC_has_other_debug_info p =
     (let body = p + OH_BYTES
      in andthen (on_heap (get_hdr (p div HBLKSIZE))) (\<lambda>hhdr.
         let sz = hb_sz hhdr
         in if p div HBLKSIZE \<noteq> body div HBLKSIZE \<or> sz < OH_BYTES + 8 then ret 0
            else
              andthen (load (p + 24)) (\<lambda>oh_sf.
              andthen (if of_nat oh_sf \<noteq> xor START_FLAG (of_nat body)
                       then andthen (load (p + 8 * (BYTES_TO_WORDS sz - 1))) (\<lambda>end_flag. ret (of_nat end_flag \<noteq> xor END_FLAG (of_nat body)))
                       else ret False) (\<lambda>no_flags.
              if no_flags then ret 0
              else andthen (load (p + 16)) (\<lambda>oh_sz. ret (if oh_sz = sz then -1 else 1))))))"

definition GC_add_smashed :: "addr \<Rightarrow> unit sweep_op" where
  "GC_add_smashed smashed =
     modifies (\<lambda>s. s\<lparr>GC_smashed := take (GC_n_smashed s) (GC_smashed s) @ [smashed],
       GC_n_smashed := (if GC_n_smashed s < MAX_SMASHED - 1 then GC_n_smashed s + 1 else GC_n_smashed s),
       GC_have_errors := True\<rparr>)"

fun check_freed :: "addr \<Rightarrow> addr \<Rightarrow> nat \<Rightarrow> unit sweep_op" where
  "check_freed base p 0 = ret ()"
| "check_freed base p (Suc n) =
     andthen (load p) (\<lambda>v.
     if v \<noteq> GC_FREED_MEM_MARKER then andthen (GC_set_mark_bit base) (\<lambda>_. GC_add_smashed p)
     else check_freed base (p + 8) n)"

definition GC_check_leaked :: "addr \<Rightarrow> bool sweep_op" where
  "GC_check_leaked base =
     andthen (GC_has_other_debug_info base) (\<lambda>info.
     if 0 \<le> info then ret True
     else
       andthen (on_heap (get_hdr (base div HBLKSIZE))) (\<lambda>hhdr.
       andthen (check_freed base (base + OH_BYTES) (BYTES_TO_WORDS (word_sub (hb_sz hhdr) OH_BYTES))) (\<lambda>_. ret False)))"

definition GC_add_leaked :: "addr \<Rightarrow> unit sweep_op" where
  "GC_add_leaked leaked =
     andthen (reads GC_findleak_delay_free) (\<lambda>delay.
     andthen (if delay then GC_check_leaked leaked else ret True) (\<lambda>report.
     if \<not> report then ret ()
     else
       andthen (modifies (\<lambda>s. s\<lparr>GC_have_errors := True\<rparr>)) (\<lambda>_.
       andthen (reads GC_leaked) (\<lambda>leaks.
       if length leaks < MAX_LEAKED then
         andthen (modifies (\<lambda>s. s\<lparr>GC_leaked := leaks @ [leaked]\<rparr>)) (\<lambda>_. GC_set_mark_bit leaked)
       else ret ()))))"

section \<open>Reclaiming the objects of a block\<close>

definition GC_block_empty :: "hdr \<Rightarrow> bool" where
  "GC_block_empty hhdr \<longleftrightarrow> hb_n_marks hhdr = 0"

definition GC_block_nearly_full :: "hdr \<Rightarrow> nat \<Rightarrow> bool" where
  "GC_block_nearly_full hhdr sz \<longleftrightarrow> HBLK_OBJS sz * 7 div 8 < hb_n_marks hhdr"

text \<open>\<open>while (p < q) *p++ = 0;\<close> with the final value of \<open>p\<close>\<close>

function zero_words :: "addr \<Rightarrow> addr \<Rightarrow> addr sweep_op" where
  "zero_words p q = (if p < q then andthen (store p 0) (\<lambda>_. zero_words (p + 8) q) else ret p)"
  by pat_completeness auto
termination by (relation "measure (\<lambda>(p, q). q - p)") auto

declare zero_words.simps [simp del]

text \<open>
  The loops return the new list and the number of bytes found, which their callers add to the counter. The bound of these loops
  is more than the number of objects of a block.
\<close>

fun reclaim_clear_loop :: "nat \<Rightarrow> hblk \<Rightarrow> nat \<Rightarrow> addr \<Rightarrow> nat \<Rightarrow> addr \<Rightarrow> int \<Rightarrow> (addr \<times> int) sweep_op" where
  "reclaim_clear_loop 0 h sz p bit_no list n_bytes_found = exhaust"
| "reclaim_clear_loop (Suc fuel) h sz p bit_no list n_bytes_found =
     (if \<not> p \<le> h * HBLKSIZE + HBLKSIZE - sz then ret (list, n_bytes_found)
      else
        andthen (mark_bit_from_hdr h bit_no) (\<lambda>marked.
        if marked then reclaim_clear_loop fuel h sz (p + sz) (bit_no + MARK_BIT_OFFSET sz) list n_bytes_found
        else
          andthen (store p list) (\<lambda>_.
          andthen (zero_words (p + 8) (p + sz)) (\<lambda>q.
          reclaim_clear_loop fuel h sz q (bit_no + MARK_BIT_OFFSET sz) p (n_bytes_found + int sz)))))"

definition GC_reclaim_clear :: "hblk \<Rightarrow> nat \<Rightarrow> addr \<Rightarrow> (addr \<times> int) sweep_op" where
  "GC_reclaim_clear h sz list =
     reclaim_clear_loop (HBLKSIZE + 1) h sz (h * HBLKSIZE) 0 list 0"

fun reclaim_uninit_loop :: "nat \<Rightarrow> hblk \<Rightarrow> nat \<Rightarrow> addr \<Rightarrow> nat \<Rightarrow> addr \<Rightarrow> int \<Rightarrow> (addr \<times> int) sweep_op" where
  "reclaim_uninit_loop 0 h sz p bit_no list n_bytes_found = exhaust"
| "reclaim_uninit_loop (Suc fuel) h sz p bit_no list n_bytes_found =
     (if \<not> p \<le> h * HBLKSIZE + HBLKSIZE - sz then ret (list, n_bytes_found)
      else
        andthen (mark_bit_from_hdr h bit_no) (\<lambda>marked.
        if marked then reclaim_uninit_loop fuel h sz (p + sz) (bit_no + MARK_BIT_OFFSET sz) list n_bytes_found
        else
          andthen (store p list) (\<lambda>_.
          reclaim_uninit_loop fuel h sz (p + sz) (bit_no + MARK_BIT_OFFSET sz) p (n_bytes_found + int sz))))"

definition GC_reclaim_uninit :: "hblk \<Rightarrow> nat \<Rightarrow> addr \<Rightarrow> (addr \<times> int) sweep_op" where
  "GC_reclaim_uninit h sz list =
     reclaim_uninit_loop (HBLKSIZE + 1) h sz (h * HBLKSIZE) 0 list 0"

text \<open>The disclaim procedures of the kinds of objects; a null pointer is called when a kind has none.\<close>

type_synonym disclaimers = "nat \<Rightarrow> addr \<Rightarrow> bool sweep_op"

definition call_disclaim :: "disclaimers \<Rightarrow> nat \<Rightarrow> addr \<Rightarrow> bool sweep_op" where
  "call_disclaim dp k p = andthen (get_kind k) (\<lambda>(ok, _). if ok_disclaim_proc ok then dp k p else raise_fault Null_Dereference)"

fun disclaim_loop :: "disclaimers \<Rightarrow> nat \<Rightarrow> hblk \<Rightarrow> nat \<Rightarrow> nat \<Rightarrow> addr \<Rightarrow> nat \<Rightarrow> addr \<Rightarrow> int \<Rightarrow> (addr \<times> int) sweep_op" where
  "disclaim_loop dp 0 h sz k p bit_no list n_bytes_found = exhaust"
| "disclaim_loop dp (Suc fuel) h sz k p bit_no list n_bytes_found =
     (if \<not> p \<le> h * HBLKSIZE + HBLKSIZE - sz then ret (list, n_bytes_found)
      else
        andthen (mark_bit_from_hdr h bit_no) (\<lambda>marked.
        andthen (if marked then ret True
                 else
                   andthen (call_disclaim dp k p) (\<lambda>resurrect.
                   if resurrect then
                     andthen (put_mark_bit h bit_no True) (\<lambda>_.
                     andthen (on_heap (upd_hdr h (\<lambda>d. d\<lparr>hb_n_marks := hb_n_marks d + 1\<rparr>))) (\<lambda>_. ret True))
                   else ret False)) (\<lambda>marked.
        if marked then disclaim_loop dp fuel h sz k (p + sz) (bit_no + MARK_BIT_OFFSET sz) list n_bytes_found
        else
          andthen (store p list) (\<lambda>_.
          andthen (zero_words (p + 8) (p + sz)) (\<lambda>q.
          disclaim_loop dp fuel h sz k q (bit_no + MARK_BIT_OFFSET sz) p (n_bytes_found + int sz))))))"

definition GC_disclaim_and_reclaim :: "disclaimers \<Rightarrow> hblk \<Rightarrow> nat \<Rightarrow> addr \<Rightarrow> (addr \<times> int) sweep_op" where
  "GC_disclaim_and_reclaim dp h sz list =
     andthen (on_heap (get_hdr h)) (\<lambda>hhdr.
     disclaim_loop dp (HBLKSIZE + 1) h sz (hb_obj_kind hhdr) (h * HBLKSIZE) 0 list 0)"

fun reclaim_check_loop :: "nat \<Rightarrow> hblk \<Rightarrow> nat \<Rightarrow> addr \<Rightarrow> nat \<Rightarrow> unit sweep_op" where
  "reclaim_check_loop 0 h sz p bit_no = exhaust"
| "reclaim_check_loop (Suc fuel) h sz p bit_no =
     (if \<not> p \<le> h * HBLKSIZE + HBLKSIZE - sz then ret ()
      else
        andthen (mark_bit_from_hdr h bit_no) (\<lambda>marked.
        andthen (if \<not> marked then GC_add_leaked p else ret ()) (\<lambda>_.
        reclaim_check_loop fuel h sz (p + sz) (bit_no + MARK_BIT_OFFSET sz))))"

definition GC_reclaim_check :: "hblk \<Rightarrow> nat \<Rightarrow> unit sweep_op" where
  "GC_reclaim_check h sz = reclaim_check_loop (HBLKSIZE + 1) h sz (h * HBLKSIZE) 0"

definition GC_reclaim_generic :: "disclaimers \<Rightarrow> hblk \<Rightarrow> nat \<Rightarrow> bool \<Rightarrow> addr \<Rightarrow> (addr \<times> int) sweep_op" where
  "GC_reclaim_generic dp h sz init list =
     andthen (on_heap (get_hdr h)) (\<lambda>hhdr.
     andthen (reads GC_debugging_started) (\<lambda>debugging.
     andthen (if and (hb_flags hhdr) HAS_DISCLAIM \<noteq> 0 then GC_disclaim_and_reclaim dp h sz list
              else if init \<or> debugging then GC_reclaim_clear h sz list
              else GC_reclaim_uninit h sz list) (\<lambda>result.
     andthen (on_heap (get_hdr h)) (\<lambda>hhdr.
     andthen (if IS_UNCOLLECTABLE (hb_obj_kind hhdr) then GC_set_hdr_marks h else ret ()) (\<lambda>_. ret result)))))"

definition touch_hdr :: "hblk \<Rightarrow> unit sweep_op" where
  "touch_hdr h =
     andthen (on_heap (reads GC_gc_no)) (\<lambda>gc_no. on_heap (upd_hdr h (\<lambda>d. d\<lparr>hb_last_reclaimed := of_nat gc_no\<rparr>)))"

definition GC_reclaim_small_nonempty_block :: "disclaimers \<Rightarrow> hblk \<Rightarrow> nat \<Rightarrow> bool \<Rightarrow> unit sweep_op" where
  "GC_reclaim_small_nonempty_block dp h sz report_if_found =
     andthen (on_heap (get_hdr h)) (\<lambda>hhdr.
     let k = hb_obj_kind hhdr
     in andthen (touch_hdr h) (\<lambda>_.
        if report_if_found then GC_reclaim_check h sz
        else
          andthen (get_kind k) (\<lambda>(_, ok).
          andthen (get_fl k (BYTES_TO_GRANULES sz)) (\<lambda>fl.
          andthen (GC_reclaim_generic dp h sz (ok_init ok) fl) (\<lambda>(fl, found).
          andthen (modifies (\<lambda>s. s\<lparr>GC_bytes_found := GC_bytes_found s + found\<rparr>)) (\<lambda>_.
          set_fl k (BYTES_TO_GRANULES sz) fl))))))"

definition GC_disclaim_and_reclaim_or_free_small_block :: "disclaimers \<Rightarrow> hblk \<Rightarrow> unit sweep_op" where
  "GC_disclaim_and_reclaim_or_free_small_block dp h =
     andthen (on_heap (get_hdr h)) (\<lambda>hhdr.
     let sz = hb_sz hhdr; k = hb_obj_kind hhdr
     in andthen (touch_hdr h) (\<lambda>_.
        andthen (get_kind k) (\<lambda>(_, ok).
        andthen (get_fl k (BYTES_TO_GRANULES sz)) (\<lambda>fl.
        andthen (GC_reclaim_generic dp h sz (ok_init ok) fl) (\<lambda>(flh_next, found).
        andthen (modifies (\<lambda>s. s\<lparr>GC_bytes_found := GC_bytes_found s + found\<rparr>)) (\<lambda>_.
        andthen (on_heap (get_hdr h)) (\<lambda>hhdr.
        if hb_n_marks hhdr \<noteq> 0 then set_fl k (BYTES_TO_GRANULES sz) flh_next
        else
          andthen (modifies (\<lambda>s. s\<lparr>GC_bytes_found := GC_bytes_found s + int HBLKSIZE\<rparr>)) (\<lambda>_.
          on_heap (GC_freehblk h)))))))))"

section \<open>Reclaiming blocks\<close>

text \<open>
  The header of a block that may just have been freed. If the block was merged into its predecessor the
  header is on the list of free headers, where its contents stay as they are.
\<close>

definition peek_hdr :: "hblk \<Rightarrow> hdr \<Rightarrow> hdr sweep_op" where
  "peek_hdr h old = andthen (on_heap (HDR h)) (\<lambda>e. ret (case e of Header d \<Rightarrow> d | Jump _ \<Rightarrow> old))"

definition add_in_use :: "hdr \<Rightarrow> nat \<Rightarrow> unit sweep_op" where
  "add_in_use hhdr bytes =
     modifies (\<lambda>s. if hb_descr hhdr = 0 then s\<lparr>GC_atomic_in_use := word_add (GC_atomic_in_use s) bytes\<rparr>
       else s\<lparr>GC_composite_in_use := word_add (GC_composite_in_use s) bytes\<rparr>)"

definition reclaim_large :: "disclaimers \<Rightarrow> hblk \<Rightarrow> hdr \<Rightarrow> bool \<Rightarrow> unit sweep_op" where
  "reclaim_large dp h hhdr report_if_found =
     (let sz = hb_sz hhdr; in_use = andthen (on_heap (get_hdr h)) (\<lambda>hhdr. add_in_use hhdr sz)
      in andthen (mark_bit_from_hdr h 0) (\<lambda>marked.
         if marked then in_use
         else if report_if_found then GC_add_leaked (h * HBLKSIZE)
         else
           andthen (if and (hb_flags hhdr) HAS_DISCLAIM \<noteq> 0 then call_disclaim dp (hb_obj_kind hhdr) (h * HBLKSIZE) else ret False) (\<lambda>resurrect.
           if resurrect then andthen (put_mark_bit h 0 True) (\<lambda>_. in_use)
           else
             (let blocks = OBJ_SZ_TO_BLOCKS sz
              in andthen (modifies (\<lambda>s. s\<lparr>GC_large_bytes :=
                     (if 1 < blocks then word_sub (GC_large_bytes s) (blocks * HBLKSIZE) else GC_large_bytes s),
                   GC_bytes_found := GC_bytes_found s + int sz\<rparr>)) (\<lambda>_.
                 on_heap (GC_freehblk h))))))"

text \<open>The block is put on the list of blocks that wait for being swept.\<close>

definition enqueue :: "hblk \<Rightarrow> nat \<Rightarrow> nat \<Rightarrow> unit sweep_op" where
  "enqueue h k gran =
     andthen (get_kind k) (\<lambda>(_, ok).
     if ok_reclaim_list ok = None then ret ()
     else
       andthen (get_rl k gran) (\<lambda>first.
       andthen (on_heap (upd_hdr h (\<lambda>d. d\<lparr>hb_next := first\<rparr>))) (\<lambda>_. set_rl k gran (Some h))))"

definition reclaim_small :: "disclaimers \<Rightarrow> hblk \<Rightarrow> hdr \<Rightarrow> bool \<Rightarrow> unit sweep_op" where
  "reclaim_small dp h hhdr report_if_found =
     (let sz = hb_sz hhdr
      in andthen (on_heap (reads GC_find_leak)) (\<lambda>find_leak.
         andthen
           (if report_if_found then GC_reclaim_small_nonempty_block dp h sz True
            else if GC_block_empty hhdr then
              (if and (hb_flags hhdr) HAS_DISCLAIM \<noteq> 0 then GC_disclaim_and_reclaim_or_free_small_block dp h
               else
                 andthen (modifies (\<lambda>s. s\<lparr>GC_bytes_found := GC_bytes_found s + int HBLKSIZE\<rparr>)) (\<lambda>_. on_heap (GC_freehblk h)))
            else if find_leak \<or> \<not> GC_block_nearly_full hhdr sz then enqueue h (hb_obj_kind hhdr) (BYTES_TO_GRANULES sz)
            else ret ()) (\<lambda>_.
         andthen (peek_hdr h hhdr) (\<lambda>hhdr. add_in_use hhdr (sz * hb_n_marks hhdr)))))"

definition GC_reclaim_block :: "disclaimers \<Rightarrow> bool \<Rightarrow> hblk \<Rightarrow> unit sweep_op" where
  "GC_reclaim_block dp report_if_found h =
     andthen (on_heap (get_hdr h)) (\<lambda>hhdr.
     if MAXOBJBYTES < hb_sz hhdr then reclaim_large dp h hhdr report_if_found else reclaim_small dp h hhdr report_if_found)"

text \<open>Clearing the links of a free list: from the address of a link on.\<close>

fun clear_links :: "nat \<Rightarrow> addr \<Rightarrow> unit sweep_op" where
  "clear_links 0 flp = exhaust"
| "clear_links (Suc fuel) flp =
     andthen (load flp) (\<lambda>nxt. if nxt = 0 then ret () else andthen (store flp 0) (\<lambda>_. clear_links fuel nxt))"

definition GC_clear_fl_links :: "nat \<Rightarrow> nat \<Rightarrow> nat \<Rightarrow> unit sweep_op" where
  "GC_clear_fl_links fuel k i =
     andthen (get_fl k i) (\<lambda>nxt. if nxt = 0 then ret () else andthen (set_fl k i 0) (\<lambda>_. clear_links fuel nxt))"

fun clear_free_lists :: "nat \<Rightarrow> nat \<Rightarrow> bool \<Rightarrow> nat \<Rightarrow> nat \<Rightarrow> unit sweep_op" where
  "clear_free_lists fuel k should_clobber i 0 = ret ()"
| "clear_free_lists fuel k should_clobber i (Suc n) =
     andthen (get_fl k i) (\<lambda>fl.
     andthen (if fl = 0 then ret () else if should_clobber then GC_clear_fl_links fuel k i else set_fl k i 0) (\<lambda>_.
     clear_free_lists fuel k should_clobber (i + 1) n))"

fun clear_kinds :: "nat \<Rightarrow> bool \<Rightarrow> nat \<Rightarrow> nat \<Rightarrow> unit sweep_op" where
  "clear_kinds fuel report_if_found k 0 = ret ()"
| "clear_kinds fuel report_if_found k (Suc n) =
     andthen (get_kind k) (\<lambda>(ok, okl).
     andthen
       (case ok_reclaim_list okl of
          None \<Rightarrow> ret ()
        | Some rl \<Rightarrow>
            andthen (if \<not> report_if_found then clear_free_lists fuel k (ok_descriptor ok \<noteq> 0) 0 (MAXOBJGRANULES + 1) else ret ()) (\<lambda>_.
            modifies (\<lambda>s. s\<lparr>kinds_lists := (kinds_lists s)[k := (kinds_lists s ! k)\<lparr>ok_reclaim_list := Some (replicate (length rl) None)\<rparr>]\<rparr>))) (\<lambda>_.
     clear_kinds fuel report_if_found (k + 1) n))"

text \<open>Sweeping the blocks of one list until it is empty or a condition holds.\<close>

fun continue_loop :: "disclaimers \<Rightarrow> nat \<Rightarrow> nat \<Rightarrow> nat \<Rightarrow> unit sweep_op" where
  "continue_loop dp 0 k gran = exhaust"
| "continue_loop dp (Suc fuel) k gran =
     andthen (get_rl k gran) (\<lambda>first.
     case first of
       None \<Rightarrow> ret ()
     | Some h \<Rightarrow>
         andthen (on_heap (get_hdr h)) (\<lambda>hhdr.
         andthen (set_rl k gran (hb_next hhdr)) (\<lambda>_.
         andthen (GC_reclaim_small_nonempty_block dp h (hb_sz hhdr) False) (\<lambda>_.
         andthen (get_fl k gran) (\<lambda>fl.
         if fl \<noteq> 0 then ret () else continue_loop dp fuel k gran)))))"

definition GC_continue_reclaim :: "disclaimers \<Rightarrow> nat \<Rightarrow> nat \<Rightarrow> nat \<Rightarrow> unit sweep_op" where
  "GC_continue_reclaim dp fuel gran k =
     andthen (get_kind k) (\<lambda>(_, ok). if ok_reclaim_list ok = None then ret () else continue_loop dp fuel k gran)"

text \<open>\<open>GC_reclaim_all\<close>: a result says whether the loop was not stopped.\<close>

fun drain :: "disclaimers \<Rightarrow> nat \<Rightarrow> bool sweep_op option \<Rightarrow> bool \<Rightarrow> nat \<Rightarrow> nat \<Rightarrow> bool sweep_op" where
  "drain dp 0 stop_func ignore_old k gran = exhaust"
| "drain dp (Suc fuel) stop_func ignore_old k gran =
     andthen (get_rl k gran) (\<lambda>first.
     case first of
       None \<Rightarrow> ret True
     | Some h \<Rightarrow>
         andthen (case stop_func of None \<Rightarrow> ret False | Some f \<Rightarrow> f) (\<lambda>stop.
         if stop then ret False
         else
           andthen (on_heap (get_hdr h)) (\<lambda>hhdr.
           andthen (set_rl k gran (hb_next hhdr)) (\<lambda>_.
           andthen (on_heap (reads GC_gc_no)) (\<lambda>gc_no.
           andthen (if \<not> ignore_old \<or> unat (hb_last_reclaimed hhdr) = word_sub gc_no 1
                    then GC_reclaim_small_nonempty_block dp h (hb_sz hhdr) False else ret ()) (\<lambda>_.
           drain dp fuel stop_func ignore_old k gran))))))"

fun drain_sizes :: "disclaimers \<Rightarrow> nat \<Rightarrow> bool sweep_op option \<Rightarrow> bool \<Rightarrow> nat \<Rightarrow> nat \<Rightarrow> nat \<Rightarrow> bool sweep_op" where
  "drain_sizes dp fuel stop_func ignore_old k gran 0 = ret True"
| "drain_sizes dp fuel stop_func ignore_old k gran (Suc n) =
     andthen (drain dp fuel stop_func ignore_old k gran) (\<lambda>on.
     if \<not> on then ret False else drain_sizes dp fuel stop_func ignore_old k (gran + 1) n)"

fun drain_kinds :: "disclaimers \<Rightarrow> nat \<Rightarrow> bool sweep_op option \<Rightarrow> bool \<Rightarrow> bool \<Rightarrow> nat \<Rightarrow> nat \<Rightarrow> bool sweep_op" where
  "drain_kinds dp fuel stop_func ignore_old unconditional k 0 = ret True"
| "drain_kinds dp fuel stop_func ignore_old unconditional k (Suc n) =
     andthen (get_kind k) (\<lambda>(ok, okl).
     andthen (if unconditional \<and> \<not> ok_mark_unconditionally ok \<or> ok_reclaim_list okl = None then ret True
              else drain_sizes dp fuel stop_func ignore_old k 1 MAXOBJGRANULES) (\<lambda>on.
     if \<not> on then ret False else drain_kinds dp fuel stop_func ignore_old unconditional (k + 1) n))"

definition GC_reclaim_all :: "disclaimers \<Rightarrow> nat \<Rightarrow> bool sweep_op option \<Rightarrow> bool \<Rightarrow> bool sweep_op" where
  "GC_reclaim_all dp fuel stop_func ignore_old =
     andthen (reads (\<lambda>s. length (kinds_lists s))) (\<lambda>n_kinds. drain_kinds dp fuel stop_func ignore_old False 0 n_kinds)"

definition GC_reclaim_unconditionally_marked :: "disclaimers \<Rightarrow> nat \<Rightarrow> unit sweep_op" where
  "GC_reclaim_unconditionally_marked dp fuel =
     andthen (reads (\<lambda>s. length (kinds_lists s))) (\<lambda>n_kinds.
     andthen (drain_kinds dp fuel None False True 0 n_kinds) (\<lambda>_. ret ()))"

definition GC_start_reclaim :: "disclaimers \<Rightarrow> nat \<Rightarrow> bool \<Rightarrow> unit sweep_op" where
  "GC_start_reclaim dp fuel report_if_found =
     andthen (modifies (\<lambda>s. s\<lparr>GC_composite_in_use := 0, GC_atomic_in_use := 0\<rparr>)) (\<lambda>_.
     andthen (reads (\<lambda>s. length (kinds_lists s))) (\<lambda>n_kinds.
     andthen (clear_kinds fuel report_if_found 0 n_kinds) (\<lambda>_.
     andthen (GC_apply_to_all_blocks fuel (GC_reclaim_block dp report_if_found)) (\<lambda>_.
     GC_reclaim_unconditionally_marked dp fuel))))"

section \<open>New blocks of small objects\<close>

text \<open>The free lists for objects of two and of four words.\<close>

function fl_clear2_loop :: "addr \<Rightarrow> addr \<Rightarrow> addr sweep_op" where
  "fl_clear2_loop p lim =
     (if p < lim then
        andthen (store p (p - 16)) (\<lambda>_. andthen (store (p + 8) 0) (\<lambda>_.
        andthen (store (p + 16) p) (\<lambda>_. andthen (store (p + 24) 0) (\<lambda>_. fl_clear2_loop (p + 32) lim))))
      else ret (p - 16))"
  by pat_completeness auto
termination by (relation "measure (\<lambda>(p, lim). lim - p)") auto

definition GC_build_fl_clear2 :: "hblk \<Rightarrow> addr \<Rightarrow> addr sweep_op" where
  "GC_build_fl_clear2 h ofl =
     (let p = h * HBLKSIZE; lim = (h + 1) * HBLKSIZE
      in andthen (store p ofl) (\<lambda>_. andthen (store (p + 8) 0) (\<lambda>_.
         andthen (store (p + 16) p) (\<lambda>_. andthen (store (p + 24) 0) (\<lambda>_. fl_clear2_loop (p + 32) lim)))))"

function fl_clear4_loop :: "addr \<Rightarrow> addr \<Rightarrow> addr sweep_op" where
  "fl_clear4_loop p lim =
     (if p < lim then
        andthen (store p (p - 32)) (\<lambda>_. andthen (store (p + 8) 0) (\<lambda>_.
        andthen (store (p + 16) 0) (\<lambda>_. andthen (store (p + 24) 0) (\<lambda>_. fl_clear4_loop (p + 32) lim))))
      else ret (p - 32))"
  by pat_completeness auto
termination by (relation "measure (\<lambda>(p, lim). lim - p)") auto

definition GC_build_fl_clear4 :: "hblk \<Rightarrow> addr \<Rightarrow> addr sweep_op" where
  "GC_build_fl_clear4 h ofl =
     (let p = h * HBLKSIZE; lim = (h + 1) * HBLKSIZE
      in andthen (store p ofl) (\<lambda>_. andthen (store (p + 8) 0) (\<lambda>_.
         andthen (store (p + 16) 0) (\<lambda>_. andthen (store (p + 24) 0) (\<lambda>_. fl_clear4_loop (p + 32) lim)))))"

function fl2_loop :: "addr \<Rightarrow> addr \<Rightarrow> addr sweep_op" where
  "fl2_loop p lim =
     (if p < lim then andthen (store p (p - 16)) (\<lambda>_. andthen (store (p + 16) p) (\<lambda>_. fl2_loop (p + 32) lim)) else ret (p - 16))"
  by pat_completeness auto
termination by (relation "measure (\<lambda>(p, lim). lim - p)") auto

definition GC_build_fl2 :: "hblk \<Rightarrow> addr \<Rightarrow> addr sweep_op" where
  "GC_build_fl2 h ofl =
     (let p = h * HBLKSIZE; lim = (h + 1) * HBLKSIZE
      in andthen (store p ofl) (\<lambda>_. andthen (store (p + 16) p) (\<lambda>_. fl2_loop (p + 32) lim)))"

function fl4_loop :: "addr \<Rightarrow> addr \<Rightarrow> addr sweep_op" where
  "fl4_loop p lim =
     (if p < lim then andthen (store p (p - 32)) (\<lambda>_. andthen (store (p + 32) p) (\<lambda>_. fl4_loop (p + 64) lim)) else ret (p - 32))"
  by pat_completeness auto
termination by (relation "measure (\<lambda>(p, lim). lim - p)") auto

definition GC_build_fl4 :: "hblk \<Rightarrow> addr \<Rightarrow> addr sweep_op" where
  "GC_build_fl4 h ofl =
     (let p = h * HBLKSIZE; lim = (h + 1) * HBLKSIZE
      in andthen (store p ofl) (\<lambda>_. andthen (store (p + 32) p) (\<lambda>_. fl4_loop (p + 64) lim)))"

declare fl_clear2_loop.simps [simp del] fl_clear4_loop.simps [simp del] fl2_loop.simps [simp del] fl4_loop.simps [simp del]

text \<open>The general case, for objects of \<open>sz\<close> words; the result of the loop is the last object.\<close>

fun build_fl_loop :: "nat \<Rightarrow> hblk \<Rightarrow> nat \<Rightarrow> addr \<Rightarrow> addr \<Rightarrow> addr sweep_op" where
  "build_fl_loop 0 h sz p prev = exhaust"
| "build_fl_loop (Suc fuel) h sz p prev =
     (if p \<le> h * HBLKSIZE + HBLKSIZE - 8 * sz then andthen (store p prev) (\<lambda>_. build_fl_loop fuel h sz (p + 8 * sz) p)
      else ret (p - 8 * sz))"

definition build_fl_general :: "hblk \<Rightarrow> nat \<Rightarrow> bool \<Rightarrow> addr \<Rightarrow> addr sweep_op" where
  "build_fl_general h sz clear list =
     andthen (if clear then andthen (zero_words (h * HBLKSIZE) (h * HBLKSIZE + HBLKSIZE)) (\<lambda>_. ret ()) else ret ()) (\<lambda>_.
     andthen (build_fl_loop (HBLKSIZE + 1) h sz (h * HBLKSIZE + 8 * sz) (h * HBLKSIZE)) (\<lambda>p.
     andthen (store (h * HBLKSIZE) list) (\<lambda>_. ret p)))"

definition GC_build_fl :: "hblk \<Rightarrow> nat \<Rightarrow> bool \<Rightarrow> addr \<Rightarrow> addr sweep_op" where
  "GC_build_fl h sz clear list =
     (if sz = 2 then if clear then GC_build_fl_clear2 h list else GC_build_fl2 h list
      else if sz = 4 then if clear then GC_build_fl_clear4 h list else GC_build_fl4 h list
      else build_fl_general h sz clear list)"

text \<open>
  The bytes in large objects are one of the arguments of the policy of \<open>GC_allochblk\<close>; here they are part of the state.
\<close>

definition GC_new_hblk :: "nat \<Rightarrow> split_policy \<Rightarrow> nat \<Rightarrow> nat \<Rightarrow> unit sweep_op" where
  "GC_new_hblk fuel policy gran kind =
     andthen (get_kind kind) (\<lambda>(_, ok).
     andthen (reads (\<lambda>s. (GC_debugging_started s, GC_large_bytes s))) (\<lambda>(debugging, large).
     let clear = ok_init ok \<or> debugging
     in andthen (on_heap (GC_allochblk fuel (policy\<lparr>GC_large_allocd_bytes := large\<rparr>) (GRANULES_TO_BYTES gran) kind 0)) (\<lambda>r.
        case r of
          None \<Rightarrow> ret ()
        | Some h \<Rightarrow>
            andthen (if IS_UNCOLLECTABLE kind then GC_set_hdr_marks h else ret ()) (\<lambda>_.
            andthen (get_fl kind gran) (\<lambda>fl.
            andthen (GC_build_fl h (GRANULES_TO_WORDS gran) clear fl) (\<lambda>fl.
            set_fl kind gran fl))))))"

end
