(* ===== verification/Gc_Objects.thy ===== *)
theory Gc_Objects
  imports Gc_Sweep Gc_Contract
begin

text \<open>
  Free lists of objects: what sweeping a block (\<open>reclaim.c\<close>) and carving up a new one (\<open>new_hblk.c\<close>) do to the memory and to the list.
\<close>

section \<open>Memory\<close>

lemma on_heap_run [simp]: "on_heap m s = (case m (sw_heap s) of Done g x \<Rightarrow> Done (s\<lparr>sw_heap := g\<rparr>) x | Fault e \<Rightarrow> Fault e | Exhausted \<Rightarrow> Exhausted)"
  by (simp add: on_heap_def embed_def)

lemma on_heap_get_hdr [run_steps]: "hdr_map (sw_heap s) h = Header d \<Longrightarrow> andthen (on_heap (get_hdr h)) f s = f d s"
  by (simp add: andthen_def get_hdr_def)

lemma on_heap_upd_hdr [run_steps]:
  "hdr_map (sw_heap s) h = Header d \<Longrightarrow>
     andthen (on_heap (upd_hdr h u)) f s = f () (s\<lparr>sw_heap := (sw_heap s)\<lparr>hdr_map := (hdr_map (sw_heap s))(h := Header (u d))\<rparr>\<rparr>)"
  by (simp add: andthen_def upd_hdr_def)

lemma on_heap_reads [run_steps]: "andthen (on_heap (reads g)) f s = f (g (sw_heap s)) s"
  by (simp add: andthen_def reads_def)

lemma accessible_mem [simp]: "accessible (s\<lparr>sw_mem := m\<rparr>) p = accessible s p"
  by (simp add: accessible_def)

lemma andthen_store [run_steps]: "accessible s p \<Longrightarrow> andthen (store p v) f s = f () (s\<lparr>sw_mem := (sw_mem s)(p := v)\<rparr>)"
  by (simp add: andthen_def store_def)

lemma andthen_load [run_steps]: "accessible s p \<Longrightarrow> andthen (load p) f s = f (sw_mem s p) s"
  by (simp add: andthen_def load_def)

lemma accessible_block:
  assumes "mem_mapped (sw_heap s) h" and "h * HBLKSIZE \<le> p" and "p < h * HBLKSIZE + HBLKSIZE" and "8 dvd p"
  shows "accessible s p"
proof -
  have "p div 4096 = h" using assms(2,3) unfolding HBLKSIZE_def by (intro div_nat_eqI) (simp_all add: mult.commute)
  with assms(1,4) show ?thesis by (simp add: accessible_def HBLKSIZE_def)
qed

lemma zero_words_run:
  assumes "\<And>a. 8 dvd a \<Longrightarrow> p \<le> a \<Longrightarrow> a < q \<Longrightarrow> accessible s a" and "8 dvd p" and "8 dvd q" and "p \<le> q"
  shows "zero_words p q s = Done (s\<lparr>sw_mem := (\<lambda>a. if p \<le> a \<and> a < q \<and> 8 dvd a then 0 else sw_mem s a)\<rparr>) q"
  using assms
proof (induction "q - p" arbitrary: p s rule: less_induct)
  case less
  show ?case
  proof (cases "p < q")
    case False
    with less.prems(4) have eq: "p = q" by simp
    then have "(\<lambda>a. if p \<le> a \<and> a < q \<and> 8 dvd a then 0 else sw_mem s a) = sw_mem s" by (auto simp: fun_eq_iff)
    then have "s\<lparr>sw_mem := (\<lambda>a. if p \<le> a \<and> a < q \<and> 8 dvd a then 0 else sw_mem s a)\<rparr> = s" by simp
    with eq show ?thesis by (simp add: zero_words.simps [of q q] ret_def)
  next
    case True
    let ?s = "s\<lparr>sw_mem := (sw_mem s)(p := 0)\<rparr>"
    have step: "p + 8 \<le> q" using True less.prems(2,3) by presburger
    have "(\<lambda>a. if p + 8 \<le> a \<and> a < q \<and> 8 dvd a then 0 else sw_mem ?s a) = (\<lambda>a. if p \<le> a \<and> a < q \<and> 8 dvd a then 0 else sw_mem s a)"
    proof
      fix a
      have "p \<le> a \<and> 8 dvd a \<longleftrightarrow> a = p \<or> p + 8 \<le> a \<and> 8 dvd a" using less.prems(2) by presburger
      then show "(if p + 8 \<le> a \<and> a < q \<and> 8 dvd a then 0 else sw_mem ?s a) = (if p \<le> a \<and> a < q \<and> 8 dvd a then 0 else sw_mem s a)"
        using True by auto
    qed
    moreover have "zero_words (p + 8) q ?s = Done (?s\<lparr>sw_mem := (\<lambda>a. if p + 8 \<le> a \<and> a < q \<and> 8 dvd a then 0 else sw_mem ?s a)\<rparr>) q"
      by (rule less.hyps) (use True step less.prems in auto)
    ultimately show ?thesis using True less.prems by (simp add: zero_words.simps [of p q] run_steps)
  qed
qed

section \<open>Lists of objects\<close>

text \<open>From \<open>p\<close> the links lead through the addresses \<open>xs\<close> to \<open>q\<close>.\<close>

fun chain :: "(addr \<Rightarrow> nat) \<Rightarrow> addr \<Rightarrow> addr list \<Rightarrow> addr \<Rightarrow> bool" where
  "chain m p [] q \<longleftrightarrow> p = q"
| "chain m p (x # xs) q \<longleftrightarrow> p = x \<and> x \<noteq> 0 \<and> chain m (m x) xs q"

lemma chain_append: "chain m p (xs @ ys) q \<longleftrightarrow> (\<exists>r. chain m p xs r \<and> chain m r ys q)"
  by (induction xs arbitrary: p) auto

lemma chain_frame: "(\<And>x. x \<in> set xs \<Longrightarrow> m' x = m x) \<Longrightarrow> chain m' p xs q = chain m p xs q"
  by (induction xs arbitrary: p) auto

lemma chain_join: "chain m p xs r \<Longrightarrow> chain m r ys q \<Longrightarrow> chain m p (xs @ ys) q"
  by (auto simp: chain_append)

text \<open>The addresses of the objects of a block, and those whose mark bit is clear, in ascending order.\<close>

definition object_at :: "hblk \<Rightarrow> nat \<Rightarrow> nat \<Rightarrow> addr" where
  "object_at h sz j = h * HBLKSIZE + j * sz"

definition unmarked :: "hblk \<Rightarrow> nat \<Rightarrow> (nat \<Rightarrow> bool) \<Rightarrow> nat \<Rightarrow> addr list" where
  "unmarked h sz marks j = map (object_at h sz) (filter (\<lambda>i. \<not> marks (i * MARK_BIT_OFFSET sz)) [j..<HBLK_OBJS sz])"

definition free_objects :: "hblk \<Rightarrow> hdr \<Rightarrow> addr list" where
  "free_objects h d = unmarked h (hb_sz d) (hb_marks d) 0"

text \<open>The sizes that \<open>reclaim.c\<close> and \<open>new_hblk.c\<close> see: multiples of a granule, at most half a block.\<close>

definition small_size :: "nat \<Rightarrow> bool" where
  "small_size sz \<longleftrightarrow> 0 < sz \<and> 16 dvd sz \<and> sz \<le> MAXOBJBYTES"

lemma small_sizeD:
  assumes "small_size sz"
  shows "0 < sz" and "16 dvd sz" and "8 dvd sz" and "sz \<le> 2048" and "0 < HBLK_OBJS sz" and "HBLK_OBJS sz * sz \<le> 4096"
proof -
  show "0 < sz" "16 dvd sz" "8 dvd sz" "sz \<le> 2048" using assms by (auto simp: small_size_def MAXOBJBYTES_def HBLKSIZE_def intro: dvd_trans)
  then show "0 < HBLK_OBJS sz" by (simp add: HBLK_OBJS_def HBLKSIZE_def div_greater_zero_iff)
  show "HBLK_OBJS sz * sz \<le> 4096" by (simp add: HBLK_OBJS_def HBLKSIZE_def)
qed

lemma unmarked_step:
  assumes "j < HBLK_OBJS sz"
  shows "unmarked h sz marks j =
    (if marks (j * MARK_BIT_OFFSET sz) then unmarked h sz marks (j + 1) else object_at h sz j # unmarked h sz marks (j + 1))"
  using assms by (simp add: unmarked_def upt_conv_Cons)

lemma unmarked_end: "HBLK_OBJS sz \<le> j \<Longrightarrow> unmarked h sz marks j = []"
  by (simp add: unmarked_def)

lemma unmarked_members: "x \<in> set (unmarked h sz marks j) \<longleftrightarrow>
    (\<exists>i. j \<le> i \<and> i < HBLK_OBJS sz \<and> \<not> marks (i * MARK_BIT_OFFSET sz) \<and> x = object_at h sz i)"
  by (auto simp: unmarked_def)

lemma object_in_block:
  assumes "small_size sz" and "i < HBLK_OBJS sz"
  shows "h * HBLKSIZE \<le> object_at h sz i" and "object_at h sz i + sz \<le> h * HBLKSIZE + HBLKSIZE" and "8 dvd object_at h sz i"
proof -
  have "(i + 1) * sz \<le> HBLK_OBJS sz * sz" using assms(2) by (intro mult_le_mono1) simp
  with small_sizeD(6) [OF assms(1)] show "object_at h sz i + sz \<le> h * HBLKSIZE + HBLKSIZE" by (simp add: object_at_def HBLKSIZE_def)
  show "h * HBLKSIZE \<le> object_at h sz i" by (simp add: object_at_def)
  show "8 dvd object_at h sz i" using small_sizeD(3) [OF assms(1)] by (simp add: object_at_def HBLKSIZE_def)
qed

lemma object_bound:
  assumes "0 < sz" and "sz \<le> 2048"
  shows "object_at h sz j \<le> h * HBLKSIZE + HBLKSIZE - sz \<longleftrightarrow> j < HBLK_OBJS sz"
proof -
  have "object_at h sz j \<le> h * HBLKSIZE + HBLKSIZE - sz \<longleftrightarrow> Suc j * sz \<le> 4096" using assms by (auto simp: object_at_def HBLKSIZE_def)
  also have "\<dots> \<longleftrightarrow> Suc j \<le> 4096 div sz" using assms(1) by (simp add: less_eq_div_iff_mult_less_eq)
  finally show ?thesis by (simp add: HBLK_OBJS_def HBLKSIZE_def Suc_le_eq)
qed

lemma object_suc: "object_at h sz j + sz = object_at h sz (j + 1)"
  by (simp add: object_at_def)

lemma object_less: "0 < sz \<Longrightarrow> i < j \<Longrightarrow> object_at h sz i + sz \<le> object_at h sz j"
  using mult_le_mono1 [of "Suc i" j sz] by (simp add: object_at_def)

lemma bit_offset:
  assumes "small_size sz" and "j < HBLK_OBJS sz"
  shows "j * MARK_BIT_OFFSET sz < 64 * MARK_BITS_SZ"
proof -
  obtain g where g: "sz = 16 * g" using small_sizeD(2) [OF assms(1)] by (rule dvdE)
  have "HBLK_OBJS sz * sz \<le> 4096" by (rule small_sizeD(6) [OF assms(1)])
  moreover have "j * sz \<le> HBLK_OBJS sz * sz" using assms(2) by (intro mult_le_mono1) simp
  ultimately have "j * sz \<le> 4096" by (rule order_trans [rotated])
  then have "j * g \<le> 256" using g by (simp add: mult.commute)
  moreover have "MARK_BIT_OFFSET sz = g" using g by (simp add: MARK_BIT_OFFSET_def BYTES_TO_GRANULES_def drop_bit_eq_div)
  ultimately show ?thesis by (simp add: MARK_BITS_SZ_def MARK_BITS_PER_HBLK_def HBLKSIZE_def GRANULE_BYTES_def)
qed

lemma mark_bit_run [run_steps]:
  assumes "hdr_map (sw_heap s) h = Header d" and "n < 64 * MARK_BITS_SZ"
  shows "andthen (mark_bit_from_hdr h n) f s = f (hb_marks d n) s"
  using assms by (simp add: mark_bit_from_hdr_def andthen_assoc run_steps)

section \<open>Sweeping\<close>

text \<open>
  What a sweep does to the memory \<open>m\<close>: the unmarked objects \<open>us\<close> are chained, the last one first, in front of \<open>list\<close>; nothing
  outside of them changes, and if \<open>clear\<close> holds they are zero apart from their links.
\<close>

definition reclaimed :: "bool \<Rightarrow> nat \<Rightarrow> addr list \<Rightarrow> addr \<Rightarrow> (addr \<Rightarrow> nat) \<Rightarrow> (addr \<Rightarrow> nat) \<Rightarrow> addr \<Rightarrow> bool" where
  "reclaimed clear sz us list m m' first \<longleftrightarrow>
     chain m' first (rev us) list \<and> (\<forall>a. (\<forall>x \<in> set us. a < x \<or> x + sz \<le> a) \<longrightarrow> m' a = m a) \<and>
     (\<forall>x \<in> set us. \<forall>a. x < a \<longrightarrow> a < x + sz \<longrightarrow> 8 dvd a \<longrightarrow> m' a = (if clear then 0 else m a))"

lemma reclaimed_Nil: "reclaimed clear sz [] list m m list"
  by (simp add: reclaimed_def)

lemma reclaimed_Cons:
  assumes "reclaimed clear sz us x m1 m' first" and "x \<noteq> 0" and "0 < sz" and "\<And>y. y \<in> set us \<Longrightarrow> x + sz \<le> y"
    and "m1 x = list" and "\<And>a. a < x \<or> x + sz \<le> a \<Longrightarrow> m1 a = m a"
    and "\<And>a. x < a \<Longrightarrow> a < x + sz \<Longrightarrow> 8 dvd a \<Longrightarrow> m1 a = (if clear then 0 else m a)"
  shows "reclaimed clear sz (x # us) list m m' first"
proof -
  from assms(1) have c: "chain m' first (rev us) x" and out: "\<And>a. (\<And>y. y \<in> set us \<Longrightarrow> a < y \<or> y + sz \<le> a) \<Longrightarrow> m' a = m1 a"
    and ins: "\<And>y a. y \<in> set us \<Longrightarrow> y < a \<Longrightarrow> a < y + sz \<Longrightarrow> 8 dvd a \<Longrightarrow> m' a = (if clear then 0 else m1 a)"
    by (auto simp: reclaimed_def)
  have here: "m' a = m1 a" if "a < x + sz" for a
  proof (rule out)
    fix y assume "y \<in> set us"
    with assms(4) [of y] that show "a < y \<or> y + sz \<le> a" by simp
  qed
  have "chain m' first (rev us @ [x]) list" by (rule chain_join [OF c]) (use here [of x] assms(2,3,5) in simp)
  moreover have "m' a = m a" if "\<forall>y \<in> set (x # us). a < y \<or> y + sz \<le> a" for a
    using that out [of a] assms(6) [of a] by simp
  moreover have "m' a = (if clear then 0 else m a)" if y: "y \<in> set (x # us)" "y < a" "a < y + sz" "8 dvd a" for y a
  proof (cases "y = x")
    case True
    with y here [of a] assms(7) [of a] show ?thesis by simp
  next
    case False
    with y assms(4) [of y] have "x + sz \<le> a" "y \<in> set us" by auto
    with ins [OF this(2) y(2-4)] assms(6) [of a] show ?thesis by simp
  qed
  ultimately show ?thesis by (simp add: reclaimed_def)
qed

abbreviation sweep_loop :: "bool \<Rightarrow> nat \<Rightarrow> hblk \<Rightarrow> nat \<Rightarrow> addr \<Rightarrow> nat \<Rightarrow> addr \<Rightarrow> int \<Rightarrow> (addr \<times> int) sweep_op" where
  "sweep_loop clear \<equiv> if clear then reclaim_clear_loop else reclaim_uninit_loop"

lemma reclaim_loop_ok:
  assumes "hdr_map (sw_heap s) h = Header d" and "mem_mapped (sw_heap s) h" and "small_size sz" and "0 < h"
    and "HBLK_OBJS sz < fuel + j" and "j \<le> HBLK_OBJS sz"
  shows "\<exists>m' first. sweep_loop clear fuel h sz (object_at h sz j) (j * MARK_BIT_OFFSET sz) list n s =
      Done (s\<lparr>sw_mem := m'\<rparr>) (first, n + int sz * int (length (unmarked h sz (hb_marks d) j))) \<and>
    reclaimed clear sz (unmarked h sz (hb_marks d) j) list (sw_mem s) m' first"
  using assms(1,2,5,6)
proof (induction fuel arbitrary: j list n s)
  case (Suc fuel)
  note sz = small_sizeD [OF assms(3)]
  note bound = object_bound [OF sz(1,4), of h j]
  show ?case
  proof (cases "j < HBLK_OBJS sz")
    case False
    then show ?thesis using bound unmarked_end [of sz j] reclaimed_Nil [of clear sz list "sw_mem s"]
      by (cases clear) (auto simp: ret_def intro!: exI [of _ "sw_mem s"])
  next
    case True
    let ?p = "object_at h sz j"
    note bit = bit_offset [OF assms(3) True] and block = object_in_block [OF assms(3) True, of h]
    have nxt: "j * MARK_BIT_OFFSET sz + MARK_BIT_OFFSET sz = (j + 1) * MARK_BIT_OFFSET sz" by simp
    note step = unmarked_step [OF True, of h "hb_marks d"]
    show ?thesis
    proof (cases "hb_marks d (j * MARK_BIT_OFFSET sz)")
      case marked: True
      have "sweep_loop clear (Suc fuel) h sz ?p (j * MARK_BIT_OFFSET sz) list n s = sweep_loop clear fuel h sz (object_at h sz (j + 1)) ((j + 1) * MARK_BIT_OFFSET sz) list n s"
        using bound True marked Suc.prems(1) bit unfolding nxt [symmetric] object_suc [symmetric] by (simp add: run_steps)
      with Suc.IH [OF Suc.prems(1,2), of "j + 1" list n] Suc.prems(3) True marked step show ?thesis by simp
    next
      case free: False
      define m1 where "m1 = (\<lambda>a. if clear \<and> ?p + 8 \<le> a \<and> a < ?p + sz \<and> 8 dvd a then 0 else ((sw_mem s)(?p := list)) a)"
      let ?s = "s\<lparr>sw_mem := m1\<rparr>"
      have acc: "accessible s a" if "8 dvd a" "?p \<le> a" "a < ?p + sz" for a
        using that block by (intro accessible_block [OF Suc.prems(2)]) simp_all
      have pacc: "accessible s ?p" using acc block(3) sz(1) by simp
      have ends: "8 dvd ?p + 8" "8 dvd ?p + sz" "?p + 8 \<le> ?p + sz" using block(3) sz(1,3) by (auto dest: dvd_imp_le)
      have zero: "zero_words (?p + 8) (?p + sz) (s\<lparr>sw_mem := (sw_mem s)(?p := list)\<rparr>) = Done ?s (?p + sz)" if clear
      proof -
        have "m1 = (\<lambda>a. if ?p + 8 \<le> a \<and> a < ?p + sz \<and> 8 dvd a then 0 else sw_mem (s\<lparr>sw_mem := (sw_mem s)(?p := list)\<rparr>) a)"
          using that by (auto simp: m1_def fun_eq_iff)
        then show ?thesis by (subst zero_words_run [OF _ ends]) (simp_all add: acc)
      qed
      have "sweep_loop clear (Suc fuel) h sz ?p (j * MARK_BIT_OFFSET sz) list n s =
          sweep_loop clear fuel h sz (object_at h sz (j + 1)) ((j + 1) * MARK_BIT_OFFSET sz) ?p (n + int sz) ?s"
      proof (cases clear)
        case True
        then show ?thesis
          using bound \<open>j < HBLK_OBJS sz\<close> free Suc.prems(1) bit pacc unfolding nxt [symmetric] object_suc [symmetric]
          by (simp add: run_steps andthen_run [of "zero_words _ _", OF zero [OF True]])
      next
        case False
        then have "m1 = (sw_mem s)(?p := list)" by (simp add: m1_def fun_eq_iff)
        with False show ?thesis
          using bound \<open>j < HBLK_OBJS sz\<close> free Suc.prems(1) bit pacc unfolding nxt [symmetric] object_suc [symmetric] by (simp add: run_steps)
      qed
      moreover obtain m' first where r: "sweep_loop clear fuel h sz (object_at h sz (j + 1)) ((j + 1) * MARK_BIT_OFFSET sz) ?p (n + int sz) ?s =
          Done (?s\<lparr>sw_mem := m'\<rparr>) (first, n + int sz + int sz * int (length (unmarked h sz (hb_marks d) (j + 1))))"
          "reclaimed clear sz (unmarked h sz (hb_marks d) (j + 1)) ?p m1 m' first"
        using Suc.IH [of ?s "j + 1" ?p "n + int sz"] Suc.prems True by auto
      have "reclaimed clear sz (?p # unmarked h sz (hb_marks d) (j + 1)) list (sw_mem s) m' first"
      proof (rule reclaimed_Cons [OF r(2) _ sz(1)])
        show "?p \<noteq> 0" using assms(4) by (simp add: object_at_def HBLKSIZE_def)
        show "?p + sz \<le> y" if "y \<in> set (unmarked h sz (hb_marks d) (j + 1))" for y
          using that object_less [OF sz(1), of j] by (auto simp: unmarked_members)
        show "m1 a = (if clear then 0 else sw_mem s a)" if "?p < a" "a < ?p + sz" "8 dvd a" for a
        proof -
          have "?p + 8 \<le> a" using that block(3) by presburger
          with that show ?thesis by (simp add: m1_def)
        qed
      qed (use sz(1) in \<open>auto simp: m1_def\<close>)
      ultimately show ?thesis using r(1) free step by (intro exI [of _ m'] exI [of _ first]) (simp add: algebra_simps)
    qed
  qed
qed simp

text \<open>The header after the sweep: all objects of an uncollectable block are marked.\<close>

definition all_marked :: "hdr \<Rightarrow> hdr" where
  "all_marked d = d\<lparr>hb_marks := (\<lambda>i. i < 64 * ((FINAL_MARK_BIT (hb_sz d) + 64) div 64) \<or> hb_marks d i), hb_n_marks := HBLK_OBJS (hb_sz d)\<rparr>"

definition swept_heap :: "hblk \<Rightarrow> hdr \<Rightarrow> gc_state \<Rightarrow> gc_state" where
  "swept_heap h d g = (if IS_UNCOLLECTABLE (hb_obj_kind d) then g\<lparr>hdr_map := (hdr_map g)(h := Header (all_marked d))\<rparr> else g)"

lemma set_hdr_marks_run:
  assumes "hdr_map (sw_heap s) h = Header d"
  shows "GC_set_hdr_marks h s = Done (s\<lparr>sw_heap := (sw_heap s)\<lparr>hdr_map := (hdr_map (sw_heap s))(h := Header (all_marked d))\<rparr>\<rparr>) ()"
  using assms by (simp add: GC_set_hdr_marks_def upd_hdr_def all_marked_def Let_def)

lemma all_marked_objects:
  assumes "small_size (hb_sz d)" and "j < HBLK_OBJS (hb_sz d)"
  shows "hb_marks (all_marked d) (j * MARK_BIT_OFFSET (hb_sz d))"
proof -
  obtain g where g: "hb_sz d = 16 * g" using small_sizeD(2) [OF assms(1)] by (rule dvdE)
  have "FINAL_MARK_BIT (hb_sz d) = g * HBLK_OBJS (hb_sz d)"
    using small_sizeD(4) [OF assms(1)] g
    by (simp add: FINAL_MARK_BIT_def MAXOBJBYTES_def HBLKSIZE_def BYTES_TO_GRANULES_def drop_bit_eq_div HBLK_OBJS_def mult.assoc)
  moreover have "MARK_BIT_OFFSET (hb_sz d) = g" using g by (simp add: MARK_BIT_OFFSET_def BYTES_TO_GRANULES_def drop_bit_eq_div)
  moreover have "j * g \<le> HBLK_OBJS (hb_sz d) * g" using assms(2) by (intro mult_le_mono1) simp
  ultimately have "j * MARK_BIT_OFFSET (hb_sz d) \<le> FINAL_MARK_BIT (hb_sz d)" by (simp add: mult.commute)
  then have "j * MARK_BIT_OFFSET (hb_sz d) < 64 * ((FINAL_MARK_BIT (hb_sz d) + 64) div 64)" by simp
  then show ?thesis by (simp add: all_marked_def)
qed

lemma reclaim_generic_ok:
  assumes "hdr_map (sw_heap s) h = Header d" and "mem_mapped (sw_heap s) h" and "small_size (hb_sz d)" and "0 < h"
    and "and (hb_flags d) HAS_DISCLAIM = 0"
  shows "\<exists>m' first. GC_reclaim_generic dp h (hb_sz d) init list s =
      Done (s\<lparr>sw_mem := m', sw_heap := swept_heap h d (sw_heap s)\<rparr>) (first, int (hb_sz d) * int (length (free_objects h d))) \<and>
    reclaimed (init \<or> GC_debugging_started s) (hb_sz d) (free_objects h d) list (sw_mem s) m' first"
proof -
  let ?sz = "hb_sz d" and ?clear = "init \<or> GC_debugging_started s"
  have fuel: "HBLK_OBJS ?sz < HBLKSIZE + 1 + 0" "0 \<le> HBLK_OBJS ?sz" by (simp_all add: HBLK_OBJS_def less_Suc_eq_le)
  obtain m' first where r: "sweep_loop ?clear (HBLKSIZE + 1) h ?sz (object_at h ?sz 0) (0 * MARK_BIT_OFFSET ?sz) list 0 s =
      Done (s\<lparr>sw_mem := m'\<rparr>) (first, 0 + int ?sz * int (length (unmarked h ?sz (hb_marks d) 0)))"
    "reclaimed ?clear ?sz (unmarked h ?sz (hb_marks d) 0) list (sw_mem s) m' first"
    using reclaim_loop_ok [OF assms(1-4) fuel, of ?clear list 0] by blast
  let ?r = "(first, int ?sz * int (length (free_objects h d)))"
  have loop: "?clear \<Longrightarrow> GC_reclaim_clear h ?sz list s = Done (s\<lparr>sw_mem := m'\<rparr>) ?r"
    "\<not> ?clear \<Longrightarrow> GC_reclaim_uninit h ?sz list s = Done (s\<lparr>sw_mem := m'\<rparr>) ?r"
    using r(1) by (simp_all add: GC_reclaim_clear_def GC_reclaim_uninit_def object_at_def free_objects_def)
  let ?rest = "andthen (if IS_UNCOLLECTABLE (hb_obj_kind d) then GC_set_hdr_marks h else ret ()) (\<lambda>_. ret ?r) (s\<lparr>sw_mem := m'\<rparr>)"
  have "GC_reclaim_generic dp h ?sz init list s = ?rest"
    using assms(1,5) by (cases ?clear) (auto simp: GC_reclaim_generic_def run_steps andthen_run [of "GC_reclaim_clear _ _ _", OF loop(1)]
      andthen_run [of "GC_reclaim_uninit _ _ _", OF loop(2)])
  also have "?rest = Done (s\<lparr>sw_mem := m', sw_heap := swept_heap h d (sw_heap s)\<rparr>) ?r"
    using assms(1) set_hdr_marks_run [of "s\<lparr>sw_mem := m'\<rparr>" h d] by (simp add: swept_heap_def ret_def andthen_def)
  finally have "GC_reclaim_generic dp h ?sz init list s = Done (s\<lparr>sw_mem := m', sw_heap := swept_heap h d (sw_heap s)\<rparr>) ?r" .
  with r(2) show ?thesis unfolding free_objects_def by blast
qed

section \<open>Carving up a block\<close>

text \<open>
  The memory after the objects of \<open>S\<close> bytes from \<open>p\<close> up to \<open>q\<close> have been linked, each to the one before; \<open>b\<close> is the start of the block.
\<close>

definition linked :: "bool \<Rightarrow> nat \<Rightarrow> addr \<Rightarrow> addr \<Rightarrow> addr \<Rightarrow> (addr \<Rightarrow> nat) \<Rightarrow> addr \<Rightarrow> nat" where
  "linked clear S b p q m a =
     (if p \<le> a \<and> a < q \<and> 8 dvd a then if S dvd a - b then a - S else if clear then 0 else m a else m a)"

lemma linked_empty: "q \<le> p \<Longrightarrow> linked clear S b p q m = m"
  by (rule ext) (simp add: linked_def)

lemma linked_split: "p \<le> r \<Longrightarrow> r \<le> q \<Longrightarrow> linked clear S b r q (linked clear S b p r m) = linked clear S b p q m"
  by (rule ext) (auto simp: linked_def)

lemma linked_first: "b < p \<Longrightarrow> linked clear S b p q (m(b := v)) = (linked clear S b p q m)(b := v)"
  by (rule ext) (simp add: linked_def)

text \<open>One step of the loops for two and for four words.\<close>

lemma words_of: "8 dvd a \<Longrightarrow> 32 dvd p \<Longrightarrow> p \<le> a \<Longrightarrow> a < p + 32 \<Longrightarrow> a = p \<or> a = p + 8 \<or> a = p + 16 \<or> a = p + 24" for a p :: nat
  by presburger

lemma linked_words:
  assumes "p = b + 32 * k" and "32 dvd b"
  shows "linked True 16 b p (p + 32) m = m(p := p - 16, p + 8 := 0, p + 16 := p, p + 24 := 0)"
    and "linked True 32 b p (p + 32) m = m(p := p - 32, p + 8 := 0, p + 16 := 0, p + 24 := 0)"
    and "linked False 16 b p (p + 32) m = m(p := p - 16, p + 16 := p)"
    and "linked False 32 b p (p + 32) m = m(p := p - 32)"
proof -
  have p: "32 dvd p" using assms by simp
  have dvds: "16 dvd p - b" "\<not> 16 dvd p + 8 - b" "16 dvd p + 16 - b" "\<not> 16 dvd p + 24 - b"
    "32 dvd p - b" "\<not> 32 dvd p + 8 - b" "\<not> 32 dvd p + 16 - b" "\<not> 32 dvd p + 24 - b" "8 dvd p"
    using assms by (simp_all add: ac_simps) presburger+
  have out: "linked c S b p (p + 32) m a = m a" if "a \<noteq> p" "a \<noteq> p + 8" "a \<noteq> p + 16" "a \<noteq> p + 24" for c S a
    using words_of [OF _ p, of a] that by (auto simp: linked_def)
  have "linked True 16 b p (p + 32) m a = (m(p := p - 16, p + 8 := 0, p + 16 := p, p + 24 := 0)) a"
    "linked True 32 b p (p + 32) m a = (m(p := p - 32, p + 8 := 0, p + 16 := 0, p + 24 := 0)) a"
    "linked False 16 b p (p + 32) m a = (m(p := p - 16, p + 16 := p)) a"
    "linked False 32 b p (p + 32) m a = (m(p := p - 32)) a" for a
    by (cases "a = p"; cases "a = p + 8"; cases "a = p + 16"; cases "a = p + 24"; simp add: out; simp add: linked_def dvds)+
  then show "linked True 16 b p (p + 32) m = m(p := p - 16, p + 8 := 0, p + 16 := p, p + 24 := 0)"
    "linked True 32 b p (p + 32) m = m(p := p - 32, p + 8 := 0, p + 16 := 0, p + 24 := 0)"
    "linked False 16 b p (p + 32) m = m(p := p - 16, p + 16 := p)"
    "linked False 32 b p (p + 32) m = m(p := p - 32)" by blast+
qed

lemma linked_words64:
  assumes "p = b + 32 * k" and "32 dvd b"
  shows "linked False 32 b p (p + 64) m = m(p := p - 32, p + 32 := p)"
proof -
  have "linked False 32 b p (p + 64) m = linked False 32 b (p + 32) (p + 32 + 32) (linked False 32 b p (p + 32) m)"
    using linked_split [of p "p + 32" "p + 32 + 32"] by (simp add: add.assoc)
  also have "\<dots> = m(p := p - 32, p + 32 := p)"
    using linked_words(4) [OF assms] linked_words(4) [of "p + 32" b "k + 1", OF _ assms(2)] assms(1) by simp
  finally show ?thesis .
qed

text \<open>The loops over a block: an aligned part of it is linked.\<close>

definition rest_of :: "sweep_state \<Rightarrow> hblk \<Rightarrow> addr \<Rightarrow> nat \<Rightarrow> bool" where
  "rest_of s h p w \<longleftrightarrow> mem_mapped (sw_heap s) h \<and> w dvd p - h * HBLKSIZE \<and> h * HBLKSIZE \<le> p \<and> p \<le> h * HBLKSIZE + HBLKSIZE"

lemma rest_of_step:
  assumes "rest_of s h p w" and "p < h * HBLKSIZE + HBLKSIZE" and "w = 32 \<or> w = 64"
  shows "rest_of (s\<lparr>sw_mem := m\<rparr>) h (p + w) w" and "p + w \<le> h * HBLKSIZE + HBLKSIZE"
    and "\<exists>k. p = h * HBLKSIZE + 32 * k" and "32 dvd h * HBLKSIZE"
    and "i < w \<Longrightarrow> 8 dvd i \<Longrightarrow> accessible s (p + i)"
proof -
  from assms(1) obtain k where k: "p - h * HBLKSIZE = w * k" unfolding rest_of_def by (auto elim: dvdE)
  moreover have "h * HBLKSIZE \<le> p" using assms(1) by (simp add: rest_of_def)
  ultimately have p: "p = h * HBLKSIZE + w * k" by arith
  with assms(2) have "w * k < 4096" by (simp add: HBLKSIZE_def)
  with assms(3) have wk: "w * k + w \<le> 4096" by auto
  with p show le: "p + w \<le> h * HBLKSIZE + HBLKSIZE" by (simp add: HBLKSIZE_def)
  have "w dvd p + w - h * HBLKSIZE" unfolding p by (simp add: add.assoc)
  with assms(1) le show "rest_of (s\<lparr>sw_mem := m\<rparr>) h (p + w) w" by (simp add: rest_of_def)
  have "w * k = 32 * (w div 32 * k)" using assms(3) by auto
  with p show "\<exists>k. p = h * HBLKSIZE + 32 * k" by metis
  show "32 dvd h * HBLKSIZE" by (simp add: HBLKSIZE_def)
  have "8 dvd p" using assms(3) unfolding p by (auto simp: HBLKSIZE_def)
  then show "accessible s (p + i)" if "i < w" "8 dvd i"
    using that assms(1) le by (intro accessible_block [of s h]) (auto simp: rest_of_def)
qed

lemma link_loop_run:
  assumes "\<And>p s. rest_of s h p w \<Longrightarrow> p < h * HBLKSIZE + HBLKSIZE \<Longrightarrow>
      loop p s = loop (p + w) (s\<lparr>sw_mem := linked clear S (h * HBLKSIZE) p (p + w) (sw_mem s)\<rparr>)"
    and "\<And>s. loop (h * HBLKSIZE + HBLKSIZE) s = Done s r" and "w = 32 \<or> w = 64" and "rest_of s h p w"
  shows "loop p s = Done (s\<lparr>sw_mem := linked clear S (h * HBLKSIZE) p (h * HBLKSIZE + HBLKSIZE) (sw_mem s)\<rparr>) r"
  using assms(4)
proof (induction "h * HBLKSIZE + HBLKSIZE - p" arbitrary: p s rule: less_induct)
  case less
  show ?case
  proof (cases "p < h * HBLKSIZE + HBLKSIZE")
    case True
    let ?s = "s\<lparr>sw_mem := linked clear S (h * HBLKSIZE) p (p + w) (sw_mem s)\<rparr>"
    note step = rest_of_step [OF less.prems True assms(3)]
    have "loop (p + w) ?s = Done (?s\<lparr>sw_mem := linked clear S (h * HBLKSIZE) (p + w) (h * HBLKSIZE + HBLKSIZE) (sw_mem ?s)\<rparr>) r"
      by (rule less.hyps [OF _ step(1)]) (use True assms(3) in auto)
    with assms(1) [OF less.prems True] step(2) show ?thesis by (simp add: linked_split)
  next
    case False
    with less.prems have "p = h * HBLKSIZE + HBLKSIZE" by (simp add: rest_of_def)
    then show ?thesis by (simp add: assms(2) linked_empty)
  qed
qed

lemma word_loops_run:
  assumes "rest_of s h p w" and "lim = h * HBLKSIZE + HBLKSIZE"
  shows "w = 32 \<Longrightarrow> fl_clear2_loop p lim s = Done (s\<lparr>sw_mem := linked True 16 (h * HBLKSIZE) p lim (sw_mem s)\<rparr>) (lim - 16)"
    and "w = 32 \<Longrightarrow> fl_clear4_loop p lim s = Done (s\<lparr>sw_mem := linked True 32 (h * HBLKSIZE) p lim (sw_mem s)\<rparr>) (lim - 32)"
    and "w = 32 \<Longrightarrow> fl2_loop p lim s = Done (s\<lparr>sw_mem := linked False 16 (h * HBLKSIZE) p lim (sw_mem s)\<rparr>) (lim - 16)"
    and "w = 64 \<Longrightarrow> fl4_loop p lim s = Done (s\<lparr>sw_mem := linked False 32 (h * HBLKSIZE) p lim (sw_mem s)\<rparr>) (lim - 32)"
proof -
  have acc: "accessible s (p + i)" if "rest_of s h p w" "p < h * HBLKSIZE + HBLKSIZE" "w = 32 \<or> w = 64" "i < w" "8 dvd i" for s p i w
    using rest_of_step(5) [OF that(1-3)] that(4,5) by blast
  have at: "\<exists>k. p = h * HBLKSIZE + 32 * k" "32 dvd h * HBLKSIZE" if "rest_of s h p w" "p < h * HBLKSIZE + HBLKSIZE" "w = 32 \<or> w = 64" for s p w
    using rest_of_step(3,4) [OF that] by blast+
  have zero: "accessible s p" if "rest_of s h p w" "p < h * HBLKSIZE + HBLKSIZE" "w = 32 \<or> w = 64" for s p w
    using acc [OF that, of 0] that(3) by auto
  show "w = 32 \<Longrightarrow> fl_clear2_loop p lim s = Done (s\<lparr>sw_mem := linked True 16 (h * HBLKSIZE) p lim (sw_mem s)\<rparr>) (lim - 16)"
    unfolding assms(2)
    by (rule link_loop_run [of h 32 _ _ _ _ s p], subst fl_clear2_loop.simps, use at in \<open>fastforce simp: run_steps acc zero linked_words\<close>)
      (use assms(1) in \<open>auto simp: fl_clear2_loop.simps ret_def\<close>)
  show "w = 32 \<Longrightarrow> fl_clear4_loop p lim s = Done (s\<lparr>sw_mem := linked True 32 (h * HBLKSIZE) p lim (sw_mem s)\<rparr>) (lim - 32)"
    unfolding assms(2)
    by (rule link_loop_run [of h 32 _ _ _ _ s p], subst fl_clear4_loop.simps, use at in \<open>fastforce simp: run_steps acc zero linked_words\<close>)
      (use assms(1) in \<open>auto simp: fl_clear4_loop.simps ret_def\<close>)
  show "w = 32 \<Longrightarrow> fl2_loop p lim s = Done (s\<lparr>sw_mem := linked False 16 (h * HBLKSIZE) p lim (sw_mem s)\<rparr>) (lim - 16)"
    unfolding assms(2)
    by (rule link_loop_run [of h 32 _ _ _ _ s p], subst fl2_loop.simps, use at in \<open>fastforce simp: run_steps acc zero linked_words\<close>)
      (use assms(1) in \<open>auto simp: fl2_loop.simps ret_def\<close>)
  show "w = 64 \<Longrightarrow> fl4_loop p lim s = Done (s\<lparr>sw_mem := linked False 32 (h * HBLKSIZE) p lim (sw_mem s)\<rparr>) (lim - 32)"
    unfolding assms(2)
    by (rule link_loop_run [of h 64 _ _ _ _ s p], subst fl4_loop.simps, use at in \<open>fastforce simp: run_steps acc zero linked_words64\<close>)
      (use assms(1) in \<open>auto simp: fl4_loop.simps ret_def\<close>)
qed

text \<open>The memory after a block has been carved up into objects of \<open>S\<close> bytes.\<close>

definition carved :: "bool \<Rightarrow> nat \<Rightarrow> hblk \<Rightarrow> addr \<Rightarrow> (addr \<Rightarrow> nat) \<Rightarrow> addr \<Rightarrow> nat" where
  "carved clear S h list m =
     (linked False S (h * HBLKSIZE) (h * HBLKSIZE) (object_at h S (HBLK_OBJS S))
        (\<lambda>a. if clear \<and> h * HBLKSIZE \<le> a \<and> a < h * HBLKSIZE + HBLKSIZE \<and> 8 dvd a then 0 else m a))(h * HBLKSIZE := list)"

lemma carved_words:
  assumes "S = 16 \<or> S = 32"
  shows "carved clear S h list m = (linked clear S (h * HBLKSIZE) (h * HBLKSIZE) (h * HBLKSIZE + HBLKSIZE) m)(h * HBLKSIZE := list)"
    and "object_at h S (HBLK_OBJS S) = h * HBLKSIZE + HBLKSIZE"
proof -
  show "object_at h S (HBLK_OBJS S) = h * HBLKSIZE + HBLKSIZE" using assms by (auto simp: object_at_def HBLK_OBJS_def HBLKSIZE_def)
  then show "carved clear S h list m = (linked clear S (h * HBLKSIZE) (h * HBLKSIZE) (h * HBLKSIZE + HBLKSIZE) m)(h * HBLKSIZE := list)"
    by (auto simp: carved_def linked_def fun_eq_iff)
qed

lemma build_fl_loop_run:
  assumes "mem_mapped (sw_heap s) h" and "small_size (8 * sz)" and "HBLK_OBJS (8 * sz) < fuel + j" and "j \<le> HBLK_OBJS (8 * sz)" and "0 < j"
  shows "build_fl_loop fuel h sz (object_at h (8 * sz) j) (object_at h (8 * sz) (j - 1)) s =
    Done (s\<lparr>sw_mem := linked False (8 * sz) (h * HBLKSIZE) (object_at h (8 * sz) j) (object_at h (8 * sz) (HBLK_OBJS (8 * sz))) (sw_mem s)\<rparr>)
      (object_at h (8 * sz) (HBLK_OBJS (8 * sz) - 1))"
  using assms(1,3-5)
proof (induction fuel arbitrary: j s)
  case (Suc fuel)
  let ?S = "8 * sz" and ?b = "h * HBLKSIZE"
  note sz = small_sizeD [OF assms(2)]
  note bound = object_bound [OF sz(1,4), of h j]
  show ?case
  proof (cases "j < HBLK_OBJS ?S")
    case False
    with Suc.prems have j: "j = HBLK_OBJS ?S" by simp
    have "object_at h ?S j - ?S = object_at h ?S (j - 1)" using Suc.prems(4) by (cases j) (simp_all add: object_at_def)
    with False bound j show ?thesis by (simp add: ret_def linked_empty)
  next
    case True
    let ?p = "object_at h ?S j" and ?s = "s\<lparr>sw_mem := (sw_mem s)(object_at h ?S j := object_at h ?S (j - 1))\<rparr>"
    note block = object_in_block [OF assms(2) True, of h]
    have acc: "accessible s ?p" using block sz(1) by (intro accessible_block [OF Suc.prems(1)]) simp_all
    have prev: "object_at h ?S (j - 1) = ?p - ?S" using Suc.prems(4) by (cases j) (simp_all add: object_at_def)
    have in_obj: "\<not> ?S dvd a - ?b" if "?p < a" "a < object_at h ?S (j + 1)" for a
    proof
      assume "?S dvd a - ?b"
      then obtain i where "a - ?b = ?S * i" by (rule dvdE)
      moreover have "?b \<le> a" using that(1) by (simp add: object_at_def)
      ultimately have "a = object_at h ?S i" by (simp add: object_at_def mult.commute)
      with that have "j * ?S < i * ?S" "i * ?S < (j + 1) * ?S" by (simp_all only: object_at_def nat_add_left_cancel_less)
      then have "j < i" "i < j + 1" using mult_less_cancel2 by blast+
      then show False by simp
    qed
    have "linked False ?S ?b ?p (object_at h ?S (j + 1)) (sw_mem s) = sw_mem ?s"
    proof
      fix a
      consider "a = ?p" | "?p < a" "a < object_at h ?S (j + 1)" | "a < ?p \<or> object_at h ?S (j + 1) \<le> a" by linarith
      then show "linked False ?S ?b ?p (object_at h ?S (j + 1)) (sw_mem s) a = sw_mem ?s a"
      proof cases
        case 1
        moreover have "?p < object_at h ?S (j + 1)" "?S dvd ?p - ?b" using sz(1) by (simp_all add: object_at_def)
        ultimately show ?thesis using block(3) prev by (simp add: linked_def)
      next
        case 2
        with in_obj [OF 2] show ?thesis by (simp add: linked_def)
      next
        case 3
        moreover have "?p < object_at h ?S (j + 1)" using sz(1) by (simp add: object_at_def)
        ultimately have "a \<noteq> ?p" by auto
        with 3 show ?thesis by (auto simp: linked_def)
      qed
    qed
    note here = this
    have le: "?p \<le> object_at h ?S (j + 1)" "object_at h ?S (j + 1) \<le> object_at h ?S (HBLK_OBJS ?S)"
      using True mult_le_mono1 [of "Suc j" "HBLK_OBJS ?S" ?S] by (simp_all add: object_at_def)
    have "build_fl_loop (Suc fuel) h sz ?p (object_at h ?S (j - 1)) s = build_fl_loop fuel h sz (object_at h ?S (j + 1)) (object_at h ?S (j + 1 - 1)) ?s"
      using True bound acc by (simp add: run_steps object_suc)
    also have "\<dots> = Done (?s\<lparr>sw_mem := linked False ?S ?b (object_at h ?S (j + 1)) (object_at h ?S (HBLK_OBJS ?S)) (sw_mem ?s)\<rparr>)
        (object_at h ?S (HBLK_OBJS ?S - 1))"
      by (rule Suc.IH) (use Suc.prems True in simp_all)
    also have "linked False ?S ?b (object_at h ?S (j + 1)) (object_at h ?S (HBLK_OBJS ?S)) (sw_mem ?s) =
        linked False ?S ?b ?p (object_at h ?S (HBLK_OBJS ?S)) (sw_mem s)"
      unfolding here [symmetric] by (rule linked_split [OF le])
    finally show ?thesis by simp
  qed
qed simp

lemma build_fl_general_run:
  assumes "mem_mapped (sw_heap s) h" and "small_size (8 * sz)"
  shows "build_fl_general h sz clear list s = Done (s\<lparr>sw_mem := carved clear (8 * sz) h list (sw_mem s)\<rparr>) (object_at h (8 * sz) (HBLK_OBJS (8 * sz) - 1))"
proof -
  let ?S = "8 * sz" and ?b = "h * HBLKSIZE"
  let ?zero = "\<lambda>a. if clear \<and> ?b \<le> a \<and> a < ?b + HBLKSIZE \<and> 8 dvd a then 0 else sw_mem s a"
  let ?s = "s\<lparr>sw_mem := ?zero\<rparr>"
  let ?s2 = "?s\<lparr>sw_mem := linked False ?S ?b (object_at h ?S 1) (object_at h ?S (HBLK_OBJS ?S)) ?zero\<rparr>"
  note sz = small_sizeD [OF assms(2)]
  let ?clr = "if clear then andthen (zero_words ?b (?b + HBLKSIZE)) (\<lambda>_. ret ()) else ret ()"
  have zero: "?clr s = Done ?s ()"
  proof (cases clear)
    case True
    have "zero_words ?b (?b + HBLKSIZE) s = Done ?s (?b + HBLKSIZE)"
      using True by (subst zero_words_run) (simp_all add: accessible_block [OF assms(1)] HBLKSIZE_def)
    with True show ?thesis by (simp add: andthen_run [of "zero_words _ _"] ret_def)
  qed (simp add: ret_def)
  have "build_fl_loop (HBLKSIZE + 1) h sz (object_at h ?S 1) (object_at h ?S (1 - 1)) ?s =
      Done (?s\<lparr>sw_mem := linked False ?S ?b (object_at h ?S 1) (object_at h ?S (HBLK_OBJS ?S)) (sw_mem ?s)\<rparr>) (object_at h ?S (HBLK_OBJS ?S - 1))"
    using assms sz(5) by (intro build_fl_loop_run) (simp_all add: HBLK_OBJS_def less_Suc_eq_le le_SucI)
  then have loop: "build_fl_loop (HBLKSIZE + 1) h sz (?b + 8 * sz) ?b ?s = Done ?s2 (object_at h ?S (HBLK_OBJS ?S - 1))" by (simp add: object_at_def)
  have acc: "accessible ?s2 ?b" using accessible_block [OF assms(1), of ?b] by (simp add: HBLKSIZE_def)
  have here: "linked False ?S ?b ?b (object_at h ?S 1) ?zero = ?zero(?b := ?b - ?S)"
  proof
    fix a
    have "\<not> ?S dvd a - ?b" if "?b < a" "a < object_at h ?S 1" using that by (auto simp: object_at_def dest!: dvd_imp_le)
    then show "linked False ?S ?b ?b (object_at h ?S 1) ?zero a = (?zero(?b := ?b - ?S)) a"
      using sz(1) by (cases a ?b rule: linorder_cases) (auto simp: linked_def object_at_def HBLKSIZE_def)
  qed
  have le: "?b \<le> object_at h ?S 1" "object_at h ?S 1 \<le> object_at h ?S (HBLK_OBJS ?S)"
    using sz(5) mult_le_mono1 [of 1 "HBLK_OBJS ?S" ?S] by (simp_all add: object_at_def)
  have "carved clear ?S h list (sw_mem s) = (linked False ?S ?b (object_at h ?S 1) (object_at h ?S (HBLK_OBJS ?S)) (?zero(?b := ?b - ?S)))(?b := list)"
    unfolding carved_def linked_split [OF le, symmetric] here ..
  also have "\<dots> = (sw_mem ?s2)(?b := list)"
    using sz(1) by (subst linked_first) (simp_all add: object_at_def)
  finally have "carved clear ?S h list (sw_mem s) = (sw_mem ?s2)(?b := list)" .
  then show ?thesis
    unfolding build_fl_general_def andthen_run [of ?clr, OF zero] andthen_run [of "build_fl_loop _ _ _ _ _", OF loop]
    using acc by (simp add: run_steps ret_def)
qed

lemma build_fl_words:
  assumes "mem_mapped (sw_heap s) h" and "sz = 2 \<or> sz = 4"
  shows "GC_build_fl h sz clear list s = Done (s\<lparr>sw_mem := carved clear (8 * sz) h list (sw_mem s)\<rparr>) (object_at h (8 * sz) (HBLK_OBJS (8 * sz) - 1))"
proof -
  let ?b = "h * HBLKSIZE" and ?m = "sw_mem s"
  have S: "8 * sz = 16 \<or> 8 * sz = 32" using assms(2) by auto
  have last: "object_at h (8 * sz) (HBLK_OBJS (8 * sz) - 1) = ?b + HBLKSIZE - 8 * sz" using assms(2) by (auto simp: object_at_def HBLK_OBJS_def HBLKSIZE_def)
  have acc: "accessible s (?b + i)" if "i < 64" "8 dvd i" for i
    using that by (intro accessible_block [OF assms(1)]) (simp_all add: HBLKSIZE_def)
  have lim: "(h + 1) * HBLKSIZE = ?b + HBLKSIZE" by simp
  have k: "?b = ?b + 32 * 0" "32 dvd ?b" by (simp_all add: HBLKSIZE_def)
  have rest: "rest_of (s\<lparr>sw_mem := m\<rparr>) h (?b + w) w" if "w = 32 \<or> w = 64" for m w
    using that assms(1) by (auto simp: rest_of_def HBLKSIZE_def)
  have join: "linked c S ?b (?b + w) (?b + HBLKSIZE) ((linked c S ?b ?b (?b + w) ?m)(?b := list)) = (linked c S ?b ?b (?b + HBLKSIZE) ?m)(?b := list)"
    if "w = 32 \<or> w = 64" for c S w
    using that by (subst linked_first) (auto simp: linked_split HBLKSIZE_def)
  have words: "?m(?b := list, ?b + 8 := 0, ?b + 16 := ?b, ?b + 24 := 0) = (linked True 16 ?b ?b (?b + 32) ?m)(?b := list)"
    "?m(?b := list, ?b + 8 := 0, ?b + 16 := 0, ?b + 24 := 0) = (linked True 32 ?b ?b (?b + 32) ?m)(?b := list)"
    "?m(?b := list, ?b + 16 := ?b) = (linked False 16 ?b ?b (?b + 32) ?m)(?b := list)"
    "?m(?b := list, ?b + 32 := ?b) = (linked False 32 ?b ?b (?b + 64) ?m)(?b := list)"
    unfolding linked_words [OF k] linked_words64 [OF k] by (auto simp: fun_eq_iff)
  note runs = word_loops_run [OF rest [OF disjI1 [OF refl]] refl] word_loops_run(4) [OF rest [OF disjI2 [OF refl]] refl]
  note accs = acc [of 0] acc [of 8] acc [of 16] acc [of 24] acc [of 32]
  have "GC_build_fl_clear2 h list s = Done (s\<lparr>sw_mem := (linked True 16 ?b ?b (?b + HBLKSIZE) ?m)(?b := list)\<rparr>) (?b + HBLKSIZE - 16)"
    "GC_build_fl_clear4 h list s = Done (s\<lparr>sw_mem := (linked True 32 ?b ?b (?b + HBLKSIZE) ?m)(?b := list)\<rparr>) (?b + HBLKSIZE - 32)"
    "GC_build_fl2 h list s = Done (s\<lparr>sw_mem := (linked False 16 ?b ?b (?b + HBLKSIZE) ?m)(?b := list)\<rparr>) (?b + HBLKSIZE - 16)"
    "GC_build_fl4 h list s = Done (s\<lparr>sw_mem := (linked False 32 ?b ?b (?b + HBLKSIZE) ?m)(?b := list)\<rparr>) (?b + HBLKSIZE - 32)"
    unfolding GC_build_fl_clear2_def GC_build_fl_clear4_def GC_build_fl2_def GC_build_fl4_def Let_def lim
    using accs by (simp_all add: run_steps words runs join del: fun_upd_apply)
  with assms(2) show ?thesis unfolding last carved_words(1) [OF S] by (cases clear) (auto simp: GC_build_fl_def)
qed

lemma build_fl_run:
  assumes "mem_mapped (sw_heap s) h" and "small_size (8 * sz)"
  shows "GC_build_fl h sz clear list s = Done (s\<lparr>sw_mem := carved clear (8 * sz) h list (sw_mem s)\<rparr>) (object_at h (8 * sz) (HBLK_OBJS (8 * sz) - 1))"
  using build_fl_words [OF assms(1), of sz] build_fl_general_run [OF assms] by (cases "sz = 2 \<or> sz = 4") (auto simp: GC_build_fl_def)

end
