(* ===== verification/Gc_Links.thy ===== *)
theory Gc_Links
  imports Gc_Contract
begin

text \<open>
  The link fields of blocks in use: they belong to the clients of the block allocator, which keep lists of blocks in them. Freeing a block
  leaves the headers of all other blocks in use alone, links included, and a client may change what the allocator does not need.
\<close>

section \<open>Protected headers\<close>

abbreviation partly :: "'a gc_op \<Rightarrow> ('a \<Rightarrow> gc_state \<Rightarrow> bool) \<Rightarrow> gc_state \<Rightarrow> bool" where
  "partly \<equiv> wp True (\<lambda>_. True)"

definition keeps :: "hblk set \<Rightarrow> gc_state \<Rightarrow> gc_state \<Rightarrow> bool" where
  "keeps U st st' \<longleftrightarrow> bottom_indices st' = bottom_indices st \<and> (\<forall>q \<in> U. hdr_map st' q = hdr_map st q)"

definition protected :: "hblk set \<Rightarrow> gc_state \<Rightarrow> bool" where
  "protected U st \<longleftrightarrow> (\<forall>q \<in> U. \<exists>d. hdr_map st q = Header d \<and> \<not> HBLK_IS_FREE d)"

lemma keeps_refl: "keeps U st st"
  by (simp add: keeps_def)

lemma keeps_trans: "keeps U st st' \<Longrightarrow> keeps U st' st'' \<Longrightarrow> keeps U st st''"
  by (simp add: keeps_def)

lemma keeps_protected: "keeps U st st' \<Longrightarrow> protected U st \<Longrightarrow> protected U st'"
  by (auto simp: keeps_def protected_def)

lemma free_unprotected: "protected U st \<Longrightarrow> free_at (hdr_map st) q \<Longrightarrow> q \<notin> U"
  by (auto simp: protected_def free_at_def)

lemma listed_unprotected: "protected U st \<Longrightarrow> blocks_inv st Ls X W \<Longrightarrow> q \<in> set (concat Ls) \<or> q \<in> X \<Longrightarrow> q \<notin> U"
  using blocks_invD(6) free_unprotected by blast

lemma upd_keeps: "q \<notin> U \<Longrightarrow> keeps U st0 st \<Longrightarrow> partly (upd_hdr q f) (\<lambda>_. keeps U st0) st"
  by (auto simp: wp_simps keeps_def split: hdr_entry.split)

lemma remove_header_keeps: "q \<notin> U \<Longrightarrow> keeps U st0 st \<Longrightarrow> partly (GC_remove_header q) (\<lambda>_. keeps U st0) st"
  by (auto simp: GC_remove_header_def wp_simps keeps_def split: hdr_entry.split)

lemma completes_keeps: "completes m Q st \<Longrightarrow> partly m R st \<Longrightarrow> completes m (\<lambda>x st'. Q x st' \<and> R x st') st"
  by (auto simp: wp_def split: outcome.splits)

lemma remove_from_fl_keeps:
  assumes "blocks_inv st Ls X W" and "h \<in> set (concat Ls)" and "protected U st"
  shows "partly (GC_remove_from_fl h) (\<lambda>_ st'. keeps U st st') st"
proof -
  obtain i xs ys d where i: "i < 61" "Ls ! i = xs @ h # ys" "hdr_map st h = Header d" by (rule list_of_free [OF assms(1,2)])
  note ok = blocks_invD(3) [OF assms(1)]
  obtain e where e: "hdr_map st h = Header e" "hb_prev e = last_opt None xs" "hb_next e = first_opt ys" by (rule links_header [OF ok i(1,2)])
  have out: "q \<notin> U" if "q \<in> set xs \<or> q \<in> set ys" for q
    using listed_unprotected [OF assms(3,1)] member_concat [OF ok i(1), of q] that i(2) by auto
  have p: "hb_prev e = Some q \<Longrightarrow> q \<notin> U" and n: "hb_next e = Some q \<Longrightarrow> q \<notin> U" for q
    using e(2,3) out last_opt_member first_opt_member by metis+
  show ?thesis
    using e(1) p n by (auto simp: GC_remove_from_fl_def GC_remove_from_fl_at_def wp_simps keeps_def split: option.split hdr_entry.split)
qed

lemma add_to_fl_keeps:
  assumes "blocks_inv st Ls X W" and "h \<in> X" and "protected U st"
  shows "partly (GC_add_to_fl h) (\<lambda>_ st'. keeps U st st') st"
proof -
  have h: "h \<notin> U" by (rule listed_unprotected [OF assms(3,1)]) (use assms(2) in blast)
  note ok = blocks_invD(3) [OF assms(1)]
  have q: "q \<notin> U" if "GC_hblkfreelist st ! i = Some q" "i < 61" for q i
  proof -
    have "GC_hblkfreelist st ! i = first_opt (Ls ! i)" using ok that(2) dll_first by (auto simp: lists_ok_def)
    with that have "q \<in> set (concat Ls)" using member_concat [OF ok that(2)] first_opt_member by metis
    with listed_unprotected [OF assms(3,1)] show ?thesis by blast
  qed
  show ?thesis
    using h q [OF _ fl_index_less] by (auto simp: GC_add_to_fl_def Let_def wp_simps keeps_def split: option.split hdr_entry.split)
qed

lemma merge_next_keeps:
  assumes "blocks_inv st Ls {h} {}" and "hdr_map st h = Header d" and "protected U st"
  shows "partly (merge_next h (h + nblocks d)) (\<lambda>_ st'. keeps U st st') st"
proof (cases "hdr_map st (h + nblocks d)")
  case (Header e)
  let ?q = "h + nblocks d"
  have h: "h \<notin> U" by (rule listed_unprotected [OF assms(3,1)]) simp
  have q: "?q \<in> set (concat Ls)" "?q \<notin> U" if "HBLK_IS_FREE e"
  proof -
    have "?q \<noteq> h" using nblocks_pos [OF layout_entry [OF blocks_invD(1) [OF assms(1)] assms(2)]] by simp
    then show "?q \<in> set (concat Ls)" by (rule next_in_list [OF assms(1) Header that])
    with listed_unprotected [OF assms(3,1)] show "?q \<notin> U" by blast
  qed
  have "partly (andthen (GC_remove_from_fl ?q) (\<lambda>_. andthen (upd_hdr h f) (\<lambda>_. GC_remove_header ?q))) (\<lambda>_ st'. keeps U st st') st"
    if "HBLK_IS_FREE e" for f
    unfolding wp_andthen
    by (rule wp_mono [OF remove_from_fl_keeps [OF assms(1) q(1) [OF that] assms(3)]], rule wp_mono [OF upd_keeps [OF h]], assumption,
      rule remove_header_keeps [OF q(2) [OF that]])
  with Header assms(2) keeps_refl show ?thesis
    by (simp add: merge_next_def wp_simps del: wp_andthen) (simp add: wp_simps)
qed (use keeps_refl in \<open>simp add: merge_next_def wp_simps\<close>)

lemma merge_prev_keeps:
  assumes "blocks_inv st Ls {h} {}" and "hdr_map st h = Header d" and "protected U st"
    and "\<And>p. r = Some p \<Longrightarrow> \<exists>e. hdr_map st p = Header e \<and> HBLK_IS_FREE e \<and> p \<noteq> h"
  shows "partly (merge_prev h r) (\<lambda>_ st'. keeps U st st') st"
proof (cases r)
  case (Some p)
  with assms(4) obtain e where e: "hdr_map st p = Header e" "HBLK_IS_FREE e" "p \<noteq> h" by blast
  have h: "h \<notin> U" by (rule listed_unprotected [OF assms(3,1)]) simp
  have mem: "p \<in> set (concat Ls)" by (rule next_in_list [OF assms(1) e])
  have p: "p \<notin> U" by (rule listed_unprotected [OF assms(3,1)]) (use mem in blast)
  let ?upd = "\<lambda>n x. x\<lparr>hb_sz := word_add (hb_sz x) (hb_sz d), hb_last_reclaimed := of_nat n\<rparr>"
  have "partly (andthen (GC_remove_from_fl p) (\<lambda>_. andthen (reads GC_gc_no) (\<lambda>n. andthen (upd_hdr p (?upd n)) (\<lambda>_. andthen (GC_remove_header h) (\<lambda>_. ret p)))))
      (\<lambda>_ st'. keeps U st st') st"
    unfolding wp_andthen wp_reads wp_ret
    by (rule wp_mono [OF remove_from_fl_keeps [OF assms(1) mem assms(3)]], rule wp_mono [OF upd_keeps [OF p]], assumption,
      rule remove_header_keeps [OF h])
  with Some e(1) assms(2) keeps_refl show ?thesis by (simp add: merge_prev_def wp_simps)
qed (use keeps_refl in \<open>simp add: merge_prev_def wp_simps\<close>)

section \<open>Freeing a block\<close>

lemma freehblk_end_keeps:
  assumes "blocks_inv st Ls {h} {}" and "hdr_map st h = Header d" and "IS_MAPPED d" and "protected U st"
  shows "partly (freehblk_end h (nblocks d)) (\<lambda>_ st'. keeps U st st') st"
proof -
  note inv = blocks_invD [OF assms(1)]
  obtain r where r: "GC_free_block_ending_at h st = Done st r"
      "\<And>p. r = Some p \<longleftrightarrow> (\<exists>e. hdr_map st p = Header e \<and> HBLK_IS_FREE e \<and> p + nblocks e = h)"
    using free_block_ending_at_ok [OF inv(1,2) assms(2)] by blast
  let ?rest = "\<lambda>st. st\<lparr>GC_large_free_bytes := word_add (GC_large_free_bytes st) (HBLKSIZE * nblocks d)\<rparr>"
  let ?tail = "andthen (merge_next h (h + nblocks d)) (\<lambda>_. andthen (merge_prev h r) (\<lambda>g. andthen (modifies ?rest) (\<lambda>_. GC_add_to_fl g)))"
  have run: "freehblk_end h (nblocks d) st = ?tail st"
    unfolding freehblk_end_def by (rule andthen_run [of "GC_free_block_ending_at h", OF r(1)])
  have "partly ?tail (\<lambda>_ st'. keeps U st st') st"
    unfolding wp_andthen wp_modifies
  proof (rule wp_weaken [OF completes_keeps [OF merge_next_ok [OF assms(1-3)] merge_next_keeps [OF assms(1,2,4)]]], elim conjE exE)
    fix x st2 Ls2 d2
    assume below: "\<forall>p < h. bare (hdr_map st2) p = bare (hdr_map st) p" and k2: "keeps U st st2"
      and i2: "blocks_inv st2 Ls2 {h} {}" and h2: "hdr_map st2 h = Header d2" "IS_MAPPED d2"
    have p2: "protected U st2" by (rule keeps_protected [OF k2 assms(4)])
    have prev: "\<exists>e. hdr_map st2 p = Header e \<and> HBLK_IS_FREE e \<and> p + nblocks e = h" if "r = Some p" for p
    proof -
      from r(2) that obtain e where e: "hdr_map st p = Header e" "HBLK_IS_FREE e" "p + nblocks e = h" by blast
      from nblocks_pos [OF layout_entry [OF inv(1) e(1)]] e(3) have "p < h" by simp
      with below have "bare (hdr_map st2) p = bare (hdr_map st) p" by blast
      from free_header_bare [OF this e(1,2)] e(3) show ?thesis by auto
    qed
    have prev': "\<exists>e. hdr_map st2 p = Header e \<and> HBLK_IS_FREE e \<and> p \<noteq> h" if "r = Some p" for p
    proof -
      from prev [OF that] obtain e where e: "hdr_map st2 p = Header e" "HBLK_IS_FREE e" "p + nblocks e = h" by blast
      with nblocks_pos [OF layout_entry [OF blocks_invD(1) [OF i2] e(1)]] show ?thesis by auto
    qed
    show "partly (merge_prev h r) (\<lambda>g. \<lambda>st'. partly (GC_add_to_fl g) (\<lambda>_ st'. keeps U st st') (?rest st')) st2"
    proof (rule wp_weaken [OF completes_keeps [OF merge_prev_ok [OF i2 h2 prev] merge_prev_keeps [OF i2 h2(1) p2 prev']]], assumption, assumption, elim conjE exE)
      fix g st3 Ls3
      assume k3: "keeps U st2 st3" and i3: "blocks_inv st3 Ls3 {g} {}"
      have i4: "blocks_inv (?rest st3) Ls3 {g} {}" by (rule blocks_inv_cong [THEN iffD2, OF _ _ _ _ _ i3]) simp_all
      have k: "keeps U st (?rest st3)" using keeps_trans [OF k2 k3] by (simp add: keeps_def)
      show "partly (GC_add_to_fl g) (\<lambda>_ st'. keeps U st st') (?rest st3)"
        by (rule wp_mono [OF add_to_fl_keeps [OF i4 singletonI keeps_protected [OF k assms(4)]]]) (rule keeps_trans [OF k])
    qed simp_all
  qed simp_all
  with run show ?thesis by (simp only: wp_def)
qed

text \<open>The headers of the other blocks in use.\<close>

definition others :: "gc_state \<Rightarrow> hblk \<Rightarrow> hblk set" where
  "others st h = {q. q \<noteq> h \<and> (\<exists>e. hdr_map st q = Header e \<and> \<not> HBLK_IS_FREE e)}"

lemma freehblk_keeps:
  assumes "heap_ok st" and "hdr_map st h = Header d" and "\<not> HBLK_IS_FREE d"
  shows "completes (GC_freehblk h)
    (\<lambda>_ st'. (heap_ok st' \<and> used_at (hdr_map st') = (used_at (hdr_map st))(h := None) \<and>
      free_cells (hdr_map st') = free_cells (hdr_map st) \<union> region h d \<and> mem_mapped st' = mem_mapped st \<and>
      elsewhere st' = elsewhere st) \<and> keeps (others st h) st st') st"
proof (rule completes_keeps [OF freehblk_ok [OF assms]])
  let ?m = "hdr_map st" and ?d = "freed_hdr st d" and ?st = "released h d st" and ?U = "others st h"
  from assms(1) obtain Ls where Ls: "blocks_inv st Ls {} {}"
    and small: "\<And>g e. used_at ?m g = Some e \<Longrightarrow> HBLKSIZE * nblocks e < 2 ^ 63" by (auto simp: heap_ok_def)
  note inv = blocks_invD [OF Ls]
  have ok: "entry_ok ?m h d" by (rule layout_entry [OF inv(1) assms(2)])
  have "used_at ?m h = Some (d\<lparr>hb_next := None, hb_prev := None\<rparr>)" using assms(2,3) by (simp add: used_at_def bare_def HBLK_IS_FREE_def)
  from small [OF this] have bound: "HBLKSIZE * nblocks d < 2 ^ 63" by simp
  have rel: "blocks_inv ?st Ls {h} {}" "HBLK_IS_FREE ?d" "IS_MAPPED ?d"
    using bound by (intro inv_release [OF Ls assms(2,3), where st' = ?st and d' = ?d]; simp add: released_def freed_hdr_def)+
  have run: "GC_freehblk h st = freehblk_end h (nblocks d) ?st"
    using ok bound by (intro freehblk_start [OF inv(2) assms(2,3)]) (simp_all add: entry_ok_def)
  have same: "hdr_map ?st q = ?m q" if "q \<in> ?U" for q
  proof -
    from that obtain e where e: "q \<noteq> h" "?m q = Header e" by (auto simp: others_def)
    with inside_not_header [OF inv(1) assms(2), of q] assms(3) have "\<not> (h < q \<and> q < h + nblocks d)" by auto
    with e(1) show ?thesis by (auto simp: released_def)
  qed
  then have k: "keeps ?U st ?st" by (simp add: keeps_def) (simp add: released_def)
  have "protected ?U st" by (auto simp: protected_def others_def)
  from keeps_protected [OF k this] have p: "protected ?U ?st" .
  have head: "hdr_map ?st h = Header ?d" by (simp add: released_def)
  have "partly (freehblk_end h (nblocks d)) (\<lambda>_ st'. keeps ?U st st') ?st"
    by (rule wp_mono [OF freehblk_end_keeps [OF rel(1) head rel(3) p, unfolded freed_hdr_blocks]]) (rule keeps_trans [OF k])
  with run show "partly (GC_freehblk h) (\<lambda>_ st'. keeps ?U st st') st" by (simp only: wp_def)
qed

section \<open>Changing a header in use\<close>

text \<open>Everything but the size and the flags may change.\<close>

lemma layout_used_upd:
  assumes "layout m" and "m h = Header d" and "hb_sz d' = hb_sz d" and "HBLK_IS_FREE d' = HBLK_IS_FREE d"
  shows "layout (m(h := Header d'))"
proof -
  let ?m = "m(h := Header d')"
  have "entry_ok ?m g e" if g: "?m g = Header e" for g e
  proof -
    obtain e0 where e0: "m g = Header e0" "hb_sz e = hb_sz e0" "HBLK_IS_FREE e = HBLK_IS_FREE e0" using g assms by (cases "g = h") auto
    note ok = layout_entry [OF assms(1) e0(1)]
    have "g + k \<noteq> h" if "0 < k" "k < nblocks e0" for k
    proof
      assume "g + k = h"
      with inside_not_header [OF assms(1) e0(1), of h] that assms(2) show False by (auto split: if_splits)
    qed
    with ok e0 show ?thesis by (auto simp: entry_ok_def)
  qed
  moreover have "inside_used ?m p" if j: "?m p = Jump j" "j \<noteq> 0" for p j
  proof -
    from j have "m p = Jump j" by (auto split: if_splits)
    then obtain g e where g: "m g = Header e" "\<not> HBLK_IS_FREE e" "g < p" "p < g + nblocks e" using inside_jump [OF assms(1) _ j(2)] by metis
    then show ?thesis unfolding inside_used_def using assms by (cases "g = h") auto
  qed
  ultimately show ?thesis unfolding layout_def by blast
qed

lemma used_upd_ok:
  assumes "heap_ok st" and "hdr_map st h = Header d" and "\<not> HBLK_IS_FREE d" and "hb_sz d' = hb_sz d" and "hb_flags d' = hb_flags d"
    and "st' = st\<lparr>hdr_map := (hdr_map st)(h := Header d')\<rparr>"
  shows "heap_ok st'" and "free_cells (hdr_map st') = free_cells (hdr_map st)"
    and "used_at (hdr_map st') = (used_at (hdr_map st))(h \<mapsto> d'\<lparr>hb_next := None, hb_prev := None\<rparr>)"
proof -
  let ?m = "hdr_map st" and ?m' = "hdr_map st'"
  have m': "?m' = ?m(h := Header d')" using assms(6) by simp
  from assms(1) obtain Ls where i: "blocks_inv st Ls {} {}" and bytes: "GC_large_free_bytes st = card (free_cells ?m) * HBLKSIZE"
    and small: "\<And>g e. used_at ?m g = Some e \<Longrightarrow> HBLKSIZE * nblocks e < 2 ^ 63" by (auto simp: heap_ok_def)
  note inv = blocks_invD [OF i]
  have flags: "HBLK_IS_FREE d' = HBLK_IS_FREE d" "IS_MAPPED d' = IS_MAPPED d" using assms(5) by (simp_all add: HBLK_IS_FREE_def IS_MAPPED_def)
  have lay: "layout ?m'" unfolding m' by (rule layout_used_upd [OF inv(1) assms(2,4) flags(1)])
  have idx: "indexed st'" using inv(2) assms(2) by (auto simp: indexed_def has_index_def assms(6))
  have out: "h \<notin> set (concat Ls)" using inv(6) [of h] assms(2,3) by (simp add: free_at_def del: set_concat)
  have lists: "lists_ok st' Ls" unfolding assms(6) by (rule lists_ok_other [OF inv(3) out refl])
  have map: "mapping_ok st'" using inv(4) assms(2,4) flags by (auto simp: mapping_ok_def assms(6) region_def)
  have free: "free_at ?m' = free_at ?m" using assms(2,3) flags by (auto simp: free_at_def m' fun_eq_iff)
  have fl: "fl_index ?m' = fl_index ?m" using assms(2,4) by (auto simp: fl_index_def bytes_at_def m' fun_eq_iff)
  have i': "blocks_inv st' Ls {} {}" by (rule blocks_inv_same_free [OF i lay idx lists map free fl])
  have "(\<exists>e. ?m' g = Header e \<and> HBLK_IS_FREE e \<and> x \<in> region g e) = (\<exists>e. ?m g = Header e \<and> HBLK_IS_FREE e \<and> x \<in> region g e)" for g x
    using assms(2,3) flags by (cases "g = h") (simp_all add: m')
  then show fc: "free_cells ?m' = free_cells ?m" by (simp add: free_cells_def)
  show used: "used_at ?m' = (used_at ?m)(h \<mapsto> d'\<lparr>hb_next := None, hb_prev := None\<rparr>)"
    using assms(3) flags by (auto simp: used_at_def bare_def m' fun_eq_iff HBLK_IS_FREE_def)
  have "HBLKSIZE * nblocks e < 2 ^ 63" if "used_at ?m' g = Some e" for g e
  proof (cases "g = h")
    case True
    have "used_at ?m h = Some (d\<lparr>hb_next := None, hb_prev := None\<rparr>)" using assms(2,3) by (simp add: used_at_def bare_def HBLK_IS_FREE_def)
    from small [OF this] that True assms(4) show ?thesis unfolding used by auto
  qed (use that small in \<open>simp add: used\<close>)
  with i' bytes fc show "heap_ok st'" unfolding heap_ok_def by (auto simp: assms(6))
qed

end
