(* ===== verification/Gc_Visit.thy ===== *)
theory Gc_Visit
  imports Gc_Objects
begin

text \<open>
  Going through all blocks in use: \<open>GC_apply_to_all_blocks\<close> of \<open>headers.c\<close> calls a function for every block that is in use
  when its turn comes. The function may change the heap while the loop runs; the locale says what it has to keep.
\<close>

lemma on_heap_reads_run: "on_heap (reads f) s = Done s (f (sw_heap s))"
  by (simp add: reads_def)

text \<open>
  \<open>U\<close>: the blocks to visit; \<open>Inv D s\<close>: the state \<open>s\<close> after the blocks \<open>D\<close> have been visited.
\<close>

locale block_visitor =
  fixes fn :: "hblk \<Rightarrow> unit sweep_op" and U :: "hblk set" and Inv :: "hblk set \<Rightarrow> sweep_state \<Rightarrow> bool" and keys :: "nat list"
  assumes visit: "Inv D s \<Longrightarrow> h \<in> U \<Longrightarrow> h \<notin> D \<Longrightarrow> \<exists>s'. fn h s = Done s' () \<and> Inv (insert h D) s'"
    and heap: "Inv D s \<Longrightarrow> layout (hdr_map (sw_heap s)) \<and> indexed (sw_heap s) \<and> bottom_indices (sw_heap s) = keys"
    and in_use: "Inv D s \<Longrightarrow> h \<notin> D \<Longrightarrow> h \<in> U \<longleftrightarrow> (\<exists>d. hdr_map (sw_heap s) h = Header d \<and> \<not> HBLK_IS_FREE d)"

context block_visitor
begin

lemma apply_index_ok:
  assumes "Inv (D \<union> {h \<in> U. key * BOTTOM_SZ + j \<le> h \<and> h < key * BOTTOM_SZ + BOTTOM_SZ}) s" and "j \<le> BOTTOM_SZ"
    and "\<And>h. h \<in> D \<Longrightarrow> h < key * BOTTOM_SZ \<or> key * BOTTOM_SZ + BOTTOM_SZ \<le> h"
  shows "\<exists>s'. apply_index fn key j s = Done s' () \<and> Inv (D \<union> {h \<in> U. key * BOTTOM_SZ \<le> h \<and> h < key * BOTTOM_SZ + BOTTOM_SZ}) s'"
  using assms(1,2)
proof (induction j arbitrary: s rule: less_induct)
  case (less j)
  show ?case
  proof (cases j)
    case 0
    with less.prems(1) show ?thesis by (simp add: ret_def)
  next
    case (Suc i)
    let ?a = "key * BOTTOM_SZ" and ?p = "key * BOTTOM_SZ + i" and ?m = "hdr_map (sw_heap s)"
    let ?V = "\<lambda>j. D \<union> {h \<in> U. ?a + j \<le> h \<and> h < ?a + BOTTOM_SZ}"
    note lay = heap [OF less.prems(1)]
    have fresh: "q \<notin> ?V j" if "?a \<le> q" "q \<le> ?p" for q
      using that assms(3) [of q] less.prems(2) Suc by auto
    have use: "q \<in> U \<longleftrightarrow> (\<exists>d. ?m q = Header d \<and> \<not> HBLK_IS_FREE d)" if "?a \<le> q" "q \<le> ?p" for q
      by (rule in_use [OF less.prems(1) fresh [OF that]])
    have insert: "?V i = (if ?p \<in> U then insert ?p (?V j) else ?V j)"
    proof -
      have "h \<in> ?V i \<longleftrightarrow> h \<in> (if ?p \<in> U then insert ?p (?V j) else ?V j)" for h
        using less.prems(2) Suc by (cases "h = ?p") auto
      then show ?thesis by blast
    qed
    have step: "apply_index fn key j s = (case ?m ?p of
        Header d \<Rightarrow> andthen (if \<not> HBLK_IS_FREE d then fn ?p else ret ()) (\<lambda>_. apply_index fn key i) s
      | Jump d \<Rightarrow> if d = 0 then apply_index fn key i s else apply_index fn key (Suc i - d) s)"
      using Suc by (simp add: HDR_def andthen_run [of "on_heap _", OF on_heap_reads_run] split: hdr_entry.split)
    have rest: "\<exists>s'. apply_index fn key k s1 = Done s' () \<and> Inv (?V 0) s'" if "Inv (?V k) s1" "k < j" for k s1
      using less.IH [OF that(2,1)] less.prems(2) that(2) by simp
    show ?thesis
    proof (cases "?m ?p")
      case (Header d)
      show ?thesis
      proof (cases "HBLK_IS_FREE d")
        case True
        with use [of ?p] Header have "?p \<notin> U" by simp
        with insert less.prems(1) have "Inv (?V i) s" by simp
        from rest [OF this] Suc step Header True show ?thesis by (simp add: run_steps)
      next
        case False
        with use [of ?p] Header have U: "?p \<in> U" by simp
        obtain s1 where s1: "fn ?p s = Done s1 ()" "Inv (insert ?p (?V j)) s1" using visit [OF less.prems(1) U fresh [of ?p]] by auto
        with insert U have "Inv (?V i) s1" by simp
        from rest [OF this] Suc step Header False s1(1) show ?thesis by (simp add: andthen_run [of "fn _"])
      qed
    next
      case (Jump d)
      show ?thesis
      proof (cases "d = 0")
        case True
        with use [of ?p] Jump have "?p \<notin> U" by simp
        with insert less.prems(1) have "Inv (?V i) s" by simp
        from rest [OF this] Suc step Jump True show ?thesis by simp
      next
        case False
        obtain g e where g: "?m g = Header e" "g < ?p" "?p < g + nblocks e" "d = min (?p - g) MAX_JUMP"
          using inside_jump [of ?m ?p d] lay Jump False by metis
        have "q \<notin> U" if "?a + (Suc i - d) \<le> q" "q < ?a + j" for q
        proof -
          have "g < q" "q \<le> ?p" "q < g + nblocks e" using that Suc g False by auto
          moreover from this have "\<nexists>x. ?m q = Header x" using inside_not_header [of ?m g e q] lay g(1) by (auto split: if_splits)
          moreover have "?a \<le> q" using that by simp
          ultimately show ?thesis using use [of q] by blast
        qed
        then have "q \<in> U \<Longrightarrow> ?a + (Suc i - d) \<le> q \<longleftrightarrow> ?a + j \<le> q" for q using Suc by (meson diff_le_self le_trans not_less add_le_cancel_left)
        then have "?V (Suc i - d) = ?V j" by auto
        with less.prems(1) have "Inv (?V (Suc i - d)) s" by simp
        from rest [OF this] Suc step Jump False show ?thesis by simp
      qed
    qed
  qed
qed

lemma visit_index:
  assumes "keys = us @ k # vs" and "Inv {h \<in> U. h div BOTTOM_SZ \<in> set us} s" and "sorted_wrt (<) keys"
  shows "\<exists>s'. apply_index fn k BOTTOM_SZ s = Done s' () \<and> Inv {h \<in> U. h div BOTTOM_SZ \<in> set (us @ [k])} s'"
proof -
  let ?D = "{h \<in> U. h div BOTTOM_SZ \<in> set us}"
  have range: "h div BOTTOM_SZ = k \<longleftrightarrow> k * BOTTOM_SZ \<le> h \<and> h < k * BOTTOM_SZ + BOTTOM_SZ" for h
    by (auto simp: BOTTOM_SZ_def)
  have "?D \<union> {h \<in> U. k * BOTTOM_SZ + BOTTOM_SZ \<le> h \<and> h < k * BOTTOM_SZ + BOTTOM_SZ} = ?D" by auto
  with assms(2) have start: "Inv (?D \<union> {h \<in> U. k * BOTTOM_SZ + BOTTOM_SZ \<le> h \<and> h < k * BOTTOM_SZ + BOTTOM_SZ}) s" by simp
  have "k \<notin> set us" using assms(1,3) by (auto simp: sorted_wrt_append)
  then have "h < k * BOTTOM_SZ \<or> k * BOTTOM_SZ + BOTTOM_SZ \<le> h" if "h \<in> ?D" for h using that range [of h] by (cases "h < k * BOTTOM_SZ") auto
  from apply_index_ok [OF start order_refl this] obtain s' where "apply_index fn k BOTTOM_SZ s = Done s' ()"
    "Inv (?D \<union> {h \<in> U. k * BOTTOM_SZ \<le> h \<and> h < k * BOTTOM_SZ + BOTTOM_SZ}) s'" by blast
  moreover have "?D \<union> {h \<in> U. k * BOTTOM_SZ \<le> h \<and> h < k * BOTTOM_SZ + BOTTOM_SZ} = {h \<in> U. h div BOTTOM_SZ \<in> set (us @ [k])}"
    using range by auto
  ultimately show ?thesis by auto
qed

lemma asc_link_next:
  assumes "Inv D s" and "keys = us @ k # vs" and "sorted_wrt (<) keys"
  shows "asc_link k (sw_heap s) = (case vs of [] \<Rightarrow> None | v # _ \<Rightarrow> Some v)"
proof -
  have "filter (\<lambda>x. k < x) us = []" "filter (\<lambda>x. k < x) vs = vs"
    using assms(2,3) by (auto simp: sorted_wrt_append filter_empty_conv filter_id_conv)
  with heap [OF assms(1)] assms(2) show ?thesis by (simp add: asc_link_def)
qed

lemma apply_indices_ok:
  assumes "keys = us @ k # vs" and "Inv {h \<in> U. h div BOTTOM_SZ \<in> set us} s" and "length (k # vs) \<le> fuel" and "sorted_wrt (<) keys"
  shows "\<exists>s'. apply_indices fuel fn (Some k) s = Done s' () \<and> Inv {h \<in> U. h div BOTTOM_SZ \<in> set keys} s'"
  using assms(1-3)
proof (induction vs arbitrary: us k s fuel)
  case (Nil us k s fuel)
  then obtain f where f: "fuel = Suc f" by (cases fuel) auto
  obtain s1 where s1: "apply_index fn k BOTTOM_SZ s = Done s1 ()" "Inv {h \<in> U. h div BOTTOM_SZ \<in> set (us @ [k])} s1"
    using visit_index [OF Nil(1,2) assms(4)] by blast
  from asc_link_next [OF s1(2) Nil(1) assms(4)] f s1 Nil(1) show ?case
    by (simp add: andthen_run [of "apply_index _ _ _"] andthen_run [of "on_heap _", OF on_heap_reads_run] ret_def)
next
  case (Cons v vs us k s fuel)
  then obtain f where f: "fuel = Suc f" by (cases fuel) auto
  obtain s1 where s1: "apply_index fn k BOTTOM_SZ s = Done s1 ()" "Inv {h \<in> U. h div BOTTOM_SZ \<in> set (us @ [k])} s1"
    using visit_index [OF Cons.prems(1,2) assms(4)] by blast
  from asc_link_next [OF s1(2) Cons.prems(1) assms(4)] f s1(1)
  have "apply_indices fuel fn (Some k) s = apply_indices f fn (Some v) s1"
    by (simp add: andthen_run [of "apply_index _ _ _"] andthen_run [of "on_heap _", OF on_heap_reads_run])
  moreover have "\<exists>s'. apply_indices f fn (Some v) s1 = Done s' () \<and> Inv {h \<in> U. h div BOTTOM_SZ \<in> set keys} s'"
    by (rule Cons.IH [of "us @ [k]"]) (use Cons.prems f s1(2) in simp_all)
  ultimately show ?case by simp
qed

lemma apply_to_all_blocks_ok:
  assumes "Inv {} s" and "length keys \<le> fuel"
  shows "\<exists>s'. GC_apply_to_all_blocks fuel fn s = Done s' () \<and> Inv U s'"
proof -
  note start = heap [OF assms(1)]
  have U: "{h \<in> U. h div BOTTOM_SZ \<in> set keys} = U"
    using in_use [OF assms(1)] start by (fastforce simp: indexed_def has_index_def)
  have run: "GC_apply_to_all_blocks fuel fn s = apply_indices fuel fn (case keys of [] \<Rightarrow> None | k # _ \<Rightarrow> Some k) s"
    using start by (simp add: GC_apply_to_all_blocks_def andthen_run [of "on_heap _", OF on_heap_reads_run])
  show ?thesis
  proof (cases keys)
    case Nil
    with U run assms(1) show ?thesis by (simp add: ret_def)
  next
    case (Cons k vs)
    have sorted: "sorted_wrt (<) keys" using start by (auto simp: indexed_def)
    have "\<exists>s'. apply_indices fuel fn (Some k) s = Done s' () \<and> Inv {h \<in> U. h div BOTTOM_SZ \<in> set keys} s'"
      by (rule apply_indices_ok [of "[]"]) (use assms start sorted Cons in simp_all)
    with U run Cons show ?thesis by simp
  qed
qed

end

end
