(* ===== verification/Gc_Reclaim.thy ===== *)
theory Gc_Reclaim
  imports Gc_Objects Gc_Links Gc_Visit
begin

text \<open>
  Starting a sweep: \<open>GC_start_reclaim\<close> of \<open>reclaim.c\<close>. Blocks without marked objects are freed while the loop over all blocks runs; the others wait in
  lists that go through the link fields of their headers.
\<close>

section \<open>The number of marks of a freed block\<close>

text \<open>\<open>GC_reclaim_block\<close> reads it after the block has been freed.\<close>

definition marks_at :: "hblk \<Rightarrow> nat \<Rightarrow> gc_state \<Rightarrow> bool" where
  "marks_at h n st \<longleftrightarrow> (\<forall>d. hdr_map st h = Header d \<longrightarrow> hb_n_marks d = n)"

lemma remove_from_fl_marks: "marks_at h n st \<Longrightarrow> partly (GC_remove_from_fl q) (\<lambda>_. marks_at h n) st"
  by (auto simp: GC_remove_from_fl_def GC_remove_from_fl_at_def wp_simps marks_at_def split: option.split hdr_entry.split)

lemma remove_header_marks: "marks_at h n st \<Longrightarrow> partly (GC_remove_header q) (\<lambda>_. marks_at h n) st"
  by (auto simp: GC_remove_header_def wp_simps marks_at_def split: hdr_entry.split)

lemma upd_marks: "marks_at h n st \<Longrightarrow> (\<And>d. hb_n_marks (f d) = hb_n_marks d) \<Longrightarrow> partly (upd_hdr q f) (\<lambda>_. marks_at h n) st"
  by (auto simp: wp_simps marks_at_def split: hdr_entry.split)

lemma add_to_fl_marks: "marks_at h n st \<Longrightarrow> partly (GC_add_to_fl q) (\<lambda>_. marks_at h n) st"
  by (auto simp: GC_add_to_fl_def Let_def wp_simps marks_at_def split: option.split hdr_entry.split)

lemma merge_next_marks:
  assumes "marks_at h n st"
  shows "partly (merge_next p q) (\<lambda>_. marks_at h n) st"
proof -
  have "partly (andthen (GC_remove_from_fl q) (\<lambda>_. andthen (upd_hdr p (\<lambda>d. d\<lparr>hb_sz := word_add (hb_sz d) k\<rparr>)) (\<lambda>_. GC_remove_header q))) (\<lambda>_. marks_at h n) st" for k
    unfolding wp_andthen
    by (rule wp_mono [OF remove_from_fl_marks [OF assms]], rule wp_mono [OF upd_marks], assumption, simp, rule remove_header_marks)
  with assms show ?thesis
    by (auto simp: merge_next_def wp_simps split: hdr_entry.split)
qed

lemma merge_prev_marks:
  assumes "marks_at h n st"
  shows "partly (merge_prev p r) (\<lambda>_. marks_at h n) st"
proof -
  have "partly (andthen (GC_remove_from_fl q) (\<lambda>_. andthen (reads GC_gc_no) (\<lambda>no.
      andthen (upd_hdr q (\<lambda>d. d\<lparr>hb_sz := word_add (hb_sz d) k, hb_last_reclaimed := of_nat no\<rparr>)) (\<lambda>_. andthen (GC_remove_header p) (\<lambda>_. ret q)))))
      (\<lambda>_. marks_at h n) st" for k q
    unfolding wp_andthen wp_reads wp_ret
    by (rule wp_mono [OF remove_from_fl_marks [OF assms]], rule wp_mono [OF upd_marks], assumption, simp, rule remove_header_marks)
  with assms show ?thesis
    by (auto simp: merge_prev_def wp_simps split: option.split hdr_entry.split)
qed

lemma freehblk_end_marks:
  assumes "marks_at h n st"
  shows "partly (freehblk_end p k) (\<lambda>_. marks_at h n) st"
proof -
  have same: "partly (GC_free_block_ending_at p) (\<lambda>_ st'. st' = st) st"
    by (auto simp: GC_free_block_ending_at_def GC_prev_block_def wp_simps split: option.split hdr_entry.split)
  show ?thesis
    unfolding freehblk_end_def wp_andthen wp_modifies
  proof (rule wp_mono [OF same])
    fix r st1 assume "st1 = st"
    show "partly (merge_next p (p + k)) (\<lambda>_. partly (merge_prev p r) (\<lambda>g st'. partly (GC_add_to_fl g) (\<lambda>_. marks_at h n)
        (st'\<lparr>GC_large_free_bytes := word_add (GC_large_free_bytes st') (HBLKSIZE * k)\<rparr>))) st1"
      unfolding \<open>st1 = st\<close>
      by (rule wp_mono [OF merge_next_marks [OF assms]], rule wp_mono [OF merge_prev_marks], assumption, rule add_to_fl_marks) (simp add: marks_at_def)
  qed
qed

lemma freehblk_marks:
  assumes "heap_ok st" and "hdr_map st h = Header d" and "\<not> HBLK_IS_FREE d"
  shows "partly (GC_freehblk h) (\<lambda>_. marks_at h (hb_n_marks d)) st"
proof -
  from assms(1) obtain Ls where Ls: "blocks_inv st Ls {} {}"
    and small: "\<And>g e. used_at (hdr_map st) g = Some e \<Longrightarrow> HBLKSIZE * nblocks e < 2 ^ 63" by (auto simp: heap_ok_def)
  note inv = blocks_invD [OF Ls]
  have ok: "entry_ok (hdr_map st) h d" by (rule layout_entry [OF inv(1) assms(2)])
  have "used_at (hdr_map st) h = Some (d\<lparr>hb_next := None, hb_prev := None\<rparr>)" using assms(2,3) by (simp add: used_at_def bare_def HBLK_IS_FREE_def)
  from small [OF this] have bound: "HBLKSIZE * nblocks d < 2 ^ 63" by simp
  have "GC_freehblk h st = freehblk_end h (nblocks d) (released h d st)"
    using ok bound by (intro freehblk_start [OF inv(2) assms(2,3)]) (simp_all add: entry_ok_def)
  moreover have "marks_at h (hb_n_marks d) (released h d st)" by (simp add: marks_at_def released_def freed_hdr_def)
  ultimately show ?thesis using freehblk_end_marks by (metis wp_eq)
qed

section \<open>What happens to a block\<close>

abbreviation heap_map :: "sweep_state \<Rightarrow> hblk \<Rightarrow> hdr_entry" where
  "heap_map s \<equiv> hdr_map (sw_heap s)"

abbreviation used :: "sweep_state \<Rightarrow> hblk \<Rightarrow> hdr option" where
  "used s \<equiv> used_at (heap_map s)"

text \<open>A block is garbage if no object in it is marked; a block of small objects that is not nearly full waits to be swept.\<close>

definition garbage :: "hdr \<Rightarrow> bool" where
  "garbage d \<longleftrightarrow> (if MAXOBJBYTES < hb_sz d then \<not> hb_marks d 0 else GC_block_empty d)"

definition waits :: "gc_state \<Rightarrow> hdr \<Rightarrow> bool" where
  "waits st d \<longleftrightarrow> hb_sz d \<le> MAXOBJBYTES \<and> \<not> GC_block_empty d \<and> (GC_find_leak st \<or> \<not> GC_block_nearly_full d (hb_sz d))"

definition bytes_freed :: "hdr \<Rightarrow> nat" where
  "bytes_freed d = (if garbage d then if MAXOBJBYTES < hb_sz d then hb_sz d else HBLKSIZE else 0)"

definition bytes_kept :: "hdr \<Rightarrow> nat" where
  "bytes_kept d = (if garbage d then 0 else if MAXOBJBYTES < hb_sz d then hb_sz d else hb_sz d * hb_n_marks d)"

lemma fate_links [simp]:
  "garbage (d\<lparr>hb_next := a, hb_prev := b\<rparr>) = garbage d" "waits st (d\<lparr>hb_next := a, hb_prev := b\<rparr>) = waits st d"
  "bytes_freed (d\<lparr>hb_next := a, hb_prev := b\<rparr>) = bytes_freed d" "bytes_kept (d\<lparr>hb_next := a, hb_prev := b\<rparr>) = bytes_kept d"
  "region h (d\<lparr>hb_next := a, hb_prev := b\<rparr>) = region h d"
  by (simp_all add: garbage_def waits_def bytes_freed_def bytes_kept_def GC_block_empty_def GC_block_nearly_full_def region_def)

definition counted :: "hdr \<Rightarrow> sweep_state \<Rightarrow> sweep_state" where
  "counted d s = (if hb_descr d = 0 then s\<lparr>GC_atomic_in_use := word_add (GC_atomic_in_use s) (bytes_kept d)\<rparr>
     else s\<lparr>GC_composite_in_use := word_add (GC_composite_in_use s) (bytes_kept d)\<rparr>)"

definition small_counters :: "sweep_state \<Rightarrow> bool" where
  "small_counters s \<longleftrightarrow> GC_atomic_in_use s < 2 ^ 64 \<and> GC_composite_in_use s < 2 ^ 64"

lemma add_no_use: "small_counters s \<Longrightarrow> add_in_use d 0 s = Done s ()"
  by (simp add: add_in_use_def modifies_def word_add_def small_counters_def)

lemma peek_hdr_run: "andthen (peek_hdr h old) f s = f (case heap_map s h of Header d \<Rightarrow> d | Jump _ \<Rightarrow> old) s"
  by (simp add: peek_hdr_def andthen_def HDR_def reads_def ret_def)

lemma reclaim_garbage:
  assumes "heap_ok (sw_heap s)" and "heap_map s h = Header d" and "\<not> HBLK_IS_FREE d" and "and (hb_flags d) HAS_DISCLAIM = 0" and "garbage d" and "small_counters s"
  shows "\<exists>g x. GC_reclaim_block dp False h s = Done (s\<lparr>sw_heap := g, GC_bytes_found := GC_bytes_found s + int (bytes_freed d), GC_large_bytes := x\<rparr>) () \<and>
    heap_ok g \<and> used_at (hdr_map g) = (used s)(h := None) \<and> free_cells (hdr_map g) = free_cells (heap_map s) \<union> region h d \<and>
    mem_mapped g = mem_mapped (sw_heap s) \<and> elsewhere g = elsewhere (sw_heap s) \<and> keeps (others (sw_heap s) h) (sw_heap s) g"
proof -
  obtain g where g: "GC_freehblk h (sw_heap s) = Done g ()"
    and post: "heap_ok g" "used_at (hdr_map g) = (used s)(h := None)" "free_cells (hdr_map g) = free_cells (heap_map s) \<union> region h d"
      "mem_mapped g = mem_mapped (sw_heap s)" "elsewhere g = elsewhere (sw_heap s)" "keeps (others (sw_heap s) h) (sw_heap s) g"
      "marks_at h (hb_n_marks d) g"
    using completes_unit [OF completes_keeps [OF freehblk_keeps [OF assms(1-3)] freehblk_marks [OF assms(1-3)]]] by blast
  have "\<exists>x. GC_reclaim_block dp False h s = Done (s\<lparr>sw_heap := g, GC_bytes_found := GC_bytes_found s + int (bytes_freed d), GC_large_bytes := x\<rparr>) ()"
  proof (cases "MAXOBJBYTES < hb_sz d")
    case True
    then have "\<not> hb_marks d 0" using assms(5) by (simp add: garbage_def)
    with True assms(2,4,5) g show ?thesis
      by (intro exI [of _ "if 1 < OBJ_SZ_TO_BLOCKS (hb_sz d) then word_sub (GC_large_bytes s) (OBJ_SZ_TO_BLOCKS (hb_sz d) * HBLKSIZE) else GC_large_bytes s"])
        (simp add: GC_reclaim_block_def reclaim_large_def run_steps Let_def MARK_BITS_SZ_def bytes_freed_def)
  next
    case False
    then have empty: "GC_block_empty d" "hb_n_marks d = 0" using assms(5) by (simp_all add: garbage_def GC_block_empty_def)
    let ?s = "s\<lparr>sw_heap := g, GC_bytes_found := GC_bytes_found s + int HBLKSIZE\<rparr>"
    have "hb_n_marks (case hdr_map g h of Header d' \<Rightarrow> d' | Jump _ \<Rightarrow> d) = 0"
      using post(7) empty(2) by (simp add: marks_at_def split: hdr_entry.split)
    moreover have "small_counters ?s" using assms(6) by (simp add: small_counters_def)
    moreover have "andthen (modifies (\<lambda>s. s\<lparr>GC_bytes_found := GC_bytes_found s + int HBLKSIZE\<rparr>)) (\<lambda>_. on_heap (GC_freehblk h)) s = Done ?s ()"
      using g by (simp add: run_steps)
    ultimately have "GC_reclaim_block dp False h s = Done ?s ()"
      using False assms(2,4) empty(1)
      by (simp add: GC_reclaim_block_def reclaim_small_def on_heap_get_hdr on_heap_reads Let_def peek_hdr_run add_no_use andthen_run [of "andthen (modifies _) _"])
    with False assms(5) show ?thesis by (intro exI [of _ "GC_large_bytes s"]) (simp add: bytes_freed_def)
  qed
  with post show ?thesis by blast
qed

text \<open>A block that stays and does not wait.\<close>

lemma peek_run: "heap_map s h = Header d \<Longrightarrow> andthen (peek_hdr h old) f s = f d s"
  by (simp add: peek_hdr_run)

lemma reclaim_stays:
  assumes "heap_map s h = Header d" and "\<not> garbage d" and "\<not> waits (sw_heap s) d"
  shows "GC_reclaim_block dp False h s = Done (counted d s) ()"
proof (cases "MAXOBJBYTES < hb_sz d")
  case True
  with assms show ?thesis
    by (simp add: GC_reclaim_block_def reclaim_large_def run_steps Let_def MARK_BITS_SZ_def garbage_def counted_def bytes_kept_def add_in_use_def modifies_def)
next
  case False
  with assms have "\<not> GC_block_empty d" "GC_block_nearly_full d (hb_sz d)" "\<not> GC_find_leak (sw_heap s)" by (auto simp: garbage_def waits_def)
  with False assms(1,2) show ?thesis
    by (simp add: GC_reclaim_block_def reclaim_small_def run_steps Let_def peek_run counted_def bytes_kept_def add_in_use_def modifies_def)
qed

text \<open>A block that waits: it becomes the first of its list, if its kind has reclaim lists.\<close>

definition queue :: "hblk \<Rightarrow> hdr \<Rightarrow> sweep_state \<Rightarrow> sweep_state" where
  "queue h d s =
     (let k = hb_obj_kind d; i = BYTES_TO_GRANULES (hb_sz d); ok = kinds_lists s ! k
      in case ok_reclaim_list ok of
           None \<Rightarrow> s
         | Some rl \<Rightarrow> s\<lparr>sw_heap := (sw_heap s)\<lparr>hdr_map := (heap_map s)(h := Header (d\<lparr>hb_next := rl ! i\<rparr>))\<rparr>,
             kinds_lists := (kinds_lists s)[k := ok\<lparr>ok_reclaim_list := Some (rl[i := Some h])\<rparr>]\<rparr>)"

lemma andthen_get_kind [run_steps]:
  "k < length (kinds_lists s) \<Longrightarrow> k < length (GC_obj_kinds (sw_heap s)) \<Longrightarrow>
     andthen (get_kind k) f s = f (GC_obj_kinds (sw_heap s) ! k, kinds_lists s ! k) s"
  by (simp add: get_kind_def andthen_def)

lemma andthen_get_rl [run_steps]:
  "k < length (kinds_lists s) \<Longrightarrow> k < length (GC_obj_kinds (sw_heap s)) \<Longrightarrow> ok_reclaim_list (kinds_lists s ! k) = Some rl \<Longrightarrow> i < length rl \<Longrightarrow>
     andthen (get_rl k i) f s = f (rl ! i) s"
  by (simp add: get_rl_def andthen_assoc andthen_get_kind andthen_ret_run)

lemma set_rl_run:
  "k < length (kinds_lists s) \<Longrightarrow> k < length (GC_obj_kinds (sw_heap s)) \<Longrightarrow> ok_reclaim_list (kinds_lists s ! k) = Some rl \<Longrightarrow> i < length rl \<Longrightarrow>
     set_rl k i x s = Done (s\<lparr>kinds_lists := (kinds_lists s)[k := (kinds_lists s ! k)\<lparr>ok_reclaim_list := Some (rl[i := x])\<rparr>]\<rparr>) ()"
  by (simp add: set_rl_def andthen_get_kind modifies_def)

lemma small_granules: "sz \<le> MAXOBJBYTES \<Longrightarrow> BYTES_TO_GRANULES sz < 129"
  by (simp add: MAXOBJBYTES_def HBLKSIZE_def BYTES_TO_GRANULES_def drop_bit_eq_div)

lemma reclaim_waits:
  assumes "heap_map s h = Header d" and "waits (sw_heap s) d" and "hb_obj_kind d < length (kinds_lists s)"
    and "length (GC_obj_kinds (sw_heap s)) = length (kinds_lists s)"
    and "\<And>rl. ok_reclaim_list (kinds_lists s ! hb_obj_kind d) = Some rl \<Longrightarrow> length rl = 129"
  shows "GC_reclaim_block dp False h s = Done (counted d (queue h d s)) ()"
proof -
  let ?k = "hb_obj_kind d" and ?i = "BYTES_TO_GRANULES (hb_sz d)" and ?s = "queue h d s"
  from assms(2) have small: "\<not> MAXOBJBYTES < hb_sz d" "\<not> GC_block_empty d" "GC_find_leak (sw_heap s) \<or> \<not> GC_block_nearly_full d (hb_sz d)"
    by (auto simp: waits_def)
  have i: "?i < 129" using small_granules [of "hb_sz d"] small(1) by simp
  have enq: "enqueue h ?k ?i s = Done ?s ()"
  proof (cases "ok_reclaim_list (kinds_lists s ! ?k)")
    case None
    with assms(3,4) show ?thesis by (simp add: enqueue_def run_steps ret_def queue_def Let_def)
  next
    case (Some rl)
    with assms(3-5) i show ?thesis
      by (simp add: enqueue_def run_steps queue_def Let_def assms(1) set_rl_run)
  qed
  have head: "\<exists>d'. heap_map ?s h = Header d' \<and> hb_descr d' = hb_descr d \<and> hb_n_marks d' = hb_n_marks d"
    using assms(1) by (auto simp: queue_def Let_def split: option.split)
  then obtain d' where d': "heap_map ?s h = Header d'" "hb_descr d' = hb_descr d" "hb_n_marks d' = hb_n_marks d" by blast
  have "\<not> garbage d" using small by (simp add: garbage_def)
  with small assms(1) d' show ?thesis
    by (simp add: GC_reclaim_block_def reclaim_small_def run_steps Let_def andthen_run [of "enqueue _ _ _", OF enq] peek_run counted_def
      bytes_kept_def add_in_use_def modifies_def)
qed

section \<open>The state of the sweep\<close>

text \<open>Lists of blocks through the link fields of their headers.\<close>

fun block_chain :: "(hblk \<Rightarrow> hdr_entry) \<Rightarrow> hblk option \<Rightarrow> hblk list \<Rightarrow> bool" where
  "block_chain m first [] \<longleftrightarrow> first = None"
| "block_chain m first (h # hs) \<longleftrightarrow> first = Some h \<and> (\<exists>d. m h = Header d \<and> block_chain m (hb_next d) hs)"

lemma block_chain_frame: "(\<And>h. h \<in> set hs \<Longrightarrow> m' h = m h) \<Longrightarrow> block_chain m' first hs = block_chain m first hs"
  by (induction hs arbitrary: first) auto

definition waiting :: "(hblk \<Rightarrow> hdr_entry) \<Rightarrow> hblk option \<Rightarrow> hblk set \<Rightarrow> bool" where
  "waiting m first H \<longleftrightarrow> (\<exists>hs. block_chain m first hs \<and> distinct hs \<and> set hs = H)"

lemma waiting_frame: "waiting m first H \<Longrightarrow> (\<And>h. h \<in> H \<Longrightarrow> m' h = m h) \<Longrightarrow> waiting m' first H"
  unfolding waiting_def using block_chain_frame by metis

lemma waiting_empty: "waiting m None {}"
  unfolding waiting_def by (rule exI [of _ "[]"]) simp

lemma waiting_push:
  assumes "waiting m first H" and "h \<notin> H" and "\<And>g. g \<in> H \<Longrightarrow> m' g = m g" and "m' h = Header d" and "hb_next d = first"
  shows "waiting m' (Some h) (insert h H)"
proof -
  from assms(1) obtain hs where hs: "block_chain m first hs" "distinct hs" "set hs = H" by (auto simp: waiting_def)
  from assms(3) hs(3) block_chain_frame [of hs m' m first] hs(1) have "block_chain m' first hs" by blast
  with hs assms(2,4,5) show ?thesis unfolding waiting_def by (intro exI [of _ "h # hs"]) auto
qed

text \<open>The blocks that wait in the list for kind \<open>k\<close> and objects of \<open>i\<close> granules, and what a state \<open>s0\<close> says about a block.\<close>

definition queued :: "sweep_state \<Rightarrow> nat \<Rightarrow> nat \<Rightarrow> hblk \<Rightarrow> bool" where
  "queued s0 k i h \<longleftrightarrow> (\<exists>d. used s0 h = Some d \<and> waits (sw_heap s0) d \<and> hb_obj_kind d = k \<and> BYTES_TO_GRANULES (hb_sz d) = i)"

definition dead :: "sweep_state \<Rightarrow> hblk \<Rightarrow> bool" where
  "dead s0 h \<longleftrightarrow> (\<exists>d. used s0 h = Some d \<and> garbage d)"

definition freed_bytes :: "sweep_state \<Rightarrow> hblk \<Rightarrow> nat" where
  "freed_bytes s0 h = (case used s0 h of None \<Rightarrow> 0 | Some d \<Rightarrow> bytes_freed d)"

definition kept_bytes :: "bool \<Rightarrow> sweep_state \<Rightarrow> hblk \<Rightarrow> nat" where
  "kept_bytes atomic s0 h = (case used s0 h of None \<Rightarrow> 0 | Some d \<Rightarrow> if (hb_descr d = 0) = atomic then bytes_kept d else 0)"

text \<open>The lists of all kinds after the blocks \<open>D\<close> have been dealt with.\<close>

definition lists_after :: "sweep_state \<Rightarrow> hblk set \<Rightarrow> sweep_state \<Rightarrow> bool" where
  "lists_after s0 D s \<longleftrightarrow> length (kinds_lists s) = length (kinds_lists s0) \<and>
     (\<forall>k < length (kinds_lists s0). \<exists>rl. kinds_lists s ! k = (kinds_lists s0 ! k)\<lparr>ok_reclaim_list := rl\<rparr> \<and>
       (case rl of
          None \<Rightarrow> ok_reclaim_list (kinds_lists s0 ! k) = None
        | Some rl \<Rightarrow> ok_reclaim_list (kinds_lists s0 ! k) \<noteq> None \<and> length rl = 129 \<and>
            (\<forall>i < 129. waiting (heap_map s) (rl ! i) {h \<in> D. queued s0 k i h})))"

definition swept :: "sweep_state \<Rightarrow> hblk set \<Rightarrow> sweep_state \<Rightarrow> bool" where
  "swept s0 D s \<longleftrightarrow> D \<subseteq> dom (used s0) \<and> heap_ok (sw_heap s) \<and>
     elsewhere (sw_heap s) = elsewhere (sw_heap s0) \<and> mem_mapped (sw_heap s) = mem_mapped (sw_heap s0) \<and>
     bottom_indices (sw_heap s) = bottom_indices (sw_heap s0) \<and>
     used s = (\<lambda>h. if h \<in> D \<and> dead s0 h then None else used s0 h) \<and>
     free_cells (heap_map s) = free_cells (heap_map s0) \<union> {p. \<exists>h \<in> D. \<exists>d. used s0 h = Some d \<and> garbage d \<and> p \<in> region h d} \<and>
     sw_mem s = sw_mem s0 \<and> GC_bytes_found s = GC_bytes_found s0 + int (\<Sum>h \<in> D. freed_bytes s0 h) \<and>
     GC_atomic_in_use s = (\<Sum>h \<in> D. kept_bytes True s0 h) mod 2 ^ 64 \<and> GC_composite_in_use s = (\<Sum>h \<in> D. kept_bytes False s0 h) mod 2 ^ 64 \<and>
     lists_after s0 D s"

text \<open>What the state has to be like: no block has a disclaim procedure, the kinds of all blocks exist.\<close>

definition sweepable :: "sweep_state \<Rightarrow> bool" where
  "sweepable s \<longleftrightarrow> heap_ok (sw_heap s) \<and> length (GC_obj_kinds (sw_heap s)) = length (kinds_lists s) \<and>
     (\<forall>h d. used s h = Some d \<longrightarrow> and (hb_flags d) HAS_DISCLAIM = 0 \<and> hb_obj_kind d < length (kinds_lists s)) \<and>
     (\<forall>ok \<in> set (GC_obj_kinds (sw_heap s)). \<not> ok_mark_unconditionally ok) \<and>
     (\<forall>ok \<in> set (kinds_lists s). length (ok_freelist ok) = 129 \<and> (\<forall>rl. ok_reclaim_list ok = Some rl \<longrightarrow> length rl = 129))"

lemma used_below: "heap_ok (sw_heap s) \<Longrightarrow> dom (used s) \<subseteq> {..<2 ^ 52}"
proof
  fix h assume ok: "heap_ok (sw_heap s)" and "h \<in> dom (used s)"
  then obtain x where "used s h = Some x" by auto
  then obtain d where d: "heap_map s h = Header d" by (rule used_header)
  from ok obtain Ls where i: "blocks_inv (sw_heap s) Ls {} {}" by (auto simp: heap_ok_def)
  from layout_entry [OF blocks_invD(1) [OF i] d] nblocks_pos [of "heap_map s" h d] show "h \<in> {..<2 ^ 52}" by (auto simp: entry_ok_def)
qed

lemma finite_used: "heap_ok (sw_heap s) \<Longrightarrow> finite (dom (used s))"
  using finite_subset [OF used_below] by simp

lemma add_mod: "word_add (a mod 2 ^ 64) b = (b + a) mod 2 ^ 64"
  by (simp add: word_add_def mod_simps add.commute)

text \<open>One more block: the sums and sets of the specification.\<close>

lemma swept_sums:
  assumes "swept s0 D s" and "heap_ok (sw_heap s0)" and "h \<notin> D" and "used s0 h = Some d"
  shows "(\<Sum>h \<in> insert h D. freed_bytes s0 h) = bytes_freed d + (\<Sum>h \<in> D. freed_bytes s0 h)"
    and "(\<Sum>h \<in> insert h D. kept_bytes b s0 h) = (if (hb_descr d = 0) = b then bytes_kept d else 0) + (\<Sum>h \<in> D. kept_bytes b s0 h)"
    and "dead s0 h = garbage d" and "insert h D \<subseteq> dom (used s0)"
proof -
  have fin: "finite D" using assms(1) finite_used [OF assms(2)] by (auto simp: swept_def intro: finite_subset)
  show "(\<Sum>h \<in> insert h D. freed_bytes s0 h) = bytes_freed d + (\<Sum>h \<in> D. freed_bytes s0 h)"
    "(\<Sum>h \<in> insert h D. kept_bytes b s0 h) = (if (hb_descr d = 0) = b then bytes_kept d else 0) + (\<Sum>h \<in> D. kept_bytes b s0 h)"
    using fin assms(3,4) by (simp_all add: freed_bytes_def kept_bytes_def)
  show "dead s0 h = garbage d" using assms(4) by (simp add: dead_def)
  show "insert h D \<subseteq> dom (used s0)" using assms(1,4) by (auto simp: swept_def)
qed

lemma swept_header:
  assumes "swept s0 D s" and "used s0 h = Some x" and "h \<notin> D \<or> \<not> dead s0 h"
  obtains d where "heap_map s h = Header d" and "\<not> HBLK_IS_FREE d" and "x = d\<lparr>hb_next := None, hb_prev := None\<rparr>"
proof -
  have "used s h = Some x" using assms by (auto simp: swept_def)
  with that used_header show ?thesis by metis
qed

lemma lists_after_frame:
  assumes "lists_after s0 D s" and "kinds_lists s' = kinds_lists s" and "\<And>k i q. q \<in> D \<Longrightarrow> queued s0 k i q \<Longrightarrow> heap_map s' q = heap_map s q"
    and "\<And>k i. {h \<in> D'. queued s0 k i h} = {h \<in> D. queued s0 k i h}"
  shows "lists_after s0 D' s'"
proof -
  have "waiting (heap_map s') first {h \<in> D'. queued s0 k i h}" if "waiting (heap_map s) first {h \<in> D. queued s0 k i h}" for first k i
    unfolding assms(4) by (rule waiting_frame [OF that]) (use assms(3) in auto)
  then have "(case rl of None \<Rightarrow> ok_reclaim_list (kinds_lists s0 ! k) = None
      | Some rl \<Rightarrow> ok_reclaim_list (kinds_lists s0 ! k) \<noteq> None \<and> length rl = 129 \<and> (\<forall>i < 129. waiting (heap_map s') (rl ! i) {h \<in> D'. queued s0 k i h}))"
    if "(case rl of None \<Rightarrow> ok_reclaim_list (kinds_lists s0 ! k) = None
      | Some rl \<Rightarrow> ok_reclaim_list (kinds_lists s0 ! k) \<noteq> None \<and> length rl = 129 \<and> (\<forall>i < 129. waiting (heap_map s) (rl ! i) {h \<in> D. queued s0 k i h}))"
    for k rl using that by (cases rl) simp_all
  with assms(1) show ?thesis unfolding lists_after_def assms(2) by blast
qed

lemma queued_alive: "queued s0 k i q \<Longrightarrow> \<not> dead s0 q"
  by (auto simp: queued_def dead_def waits_def garbage_def)

lemma step_garbage:
  assumes "sweepable s0" and "swept s0 D s" and "h \<notin> D" and "used s0 h = Some x" and "garbage x"
  shows "\<exists>s'. GC_reclaim_block dp False h s = Done s' () \<and> swept s0 (insert h D) s'"
proof -
  have ok0: "heap_ok (sw_heap s0)" using assms(1) by (simp add: sweepable_def)
  note sums = swept_sums [OF assms(2) ok0 assms(3,4)]
  obtain d where d: "heap_map s h = Header d" "\<not> HBLK_IS_FREE d" "x = d\<lparr>hb_next := None, hb_prev := None\<rparr>"
    using swept_header [OF assms(2,4)] assms(3) by blast
  have flags: "and (hb_flags d) HAS_DISCLAIM = 0" using assms(1,4) d(3) by (fastforce simp: sweepable_def)
  have gd: "garbage d" using assms(5) d(3) by simp
  have cnt: "small_counters s" using assms(2) by (simp add: swept_def small_counters_def)
  have ok: "heap_ok (sw_heap s)" using assms(2) by (simp add: swept_def)
  obtain g y where g: "GC_reclaim_block dp False h s = Done (s\<lparr>sw_heap := g, GC_bytes_found := GC_bytes_found s + int (bytes_freed d), GC_large_bytes := y\<rparr>) ()"
    "heap_ok g" "used_at (hdr_map g) = (used s)(h := None)" "free_cells (hdr_map g) = free_cells (heap_map s) \<union> region h d"
    "mem_mapped g = mem_mapped (sw_heap s)" "elsewhere g = elsewhere (sw_heap s)" "keeps (others (sw_heap s) h) (sw_heap s) g"
    using reclaim_garbage [OF ok d(1,2) flags gd cnt] by blast
  let ?s = "s\<lparr>sw_heap := g, GC_bytes_found := GC_bytes_found s + int (bytes_freed d), GC_large_bytes := y\<rparr>"
  have lists: "lists_after s0 (insert h D) ?s"
  proof (rule lists_after_frame [of s0 D s])
    show "lists_after s0 D s" using assms(2) by (simp add: swept_def)
    have "\<not> queued s0 k i h" for k i using queued_alive [of s0 k i h] assms(5) sums(3) by auto
    then show "{q \<in> insert h D. queued s0 k i q} = {q \<in> D. queued s0 k i q}" for k i by auto
    fix k i q assume q: "q \<in> D" "queued s0 k i q"
    then obtain z where z: "used s0 q = Some z" by (auto simp: queued_def)
    obtain e where "heap_map s q = Header e" "\<not> HBLK_IS_FREE e" using swept_header [OF assms(2) z] queued_alive [OF q(2)] by blast
    then have "q \<in> others (sw_heap s) h" using q(1) assms(3) by (auto simp: others_def)
    with g(7) show "heap_map ?s q = heap_map s q" by (simp add: keeps_def)
  qed simp
  have gx: "bytes_freed x = bytes_freed d" "region h x = region h d" "bytes_kept x = 0" using d(3) assms(5) by (simp_all add: bytes_kept_def)
  have "{p. \<exists>q \<in> insert h D. \<exists>d. used s0 q = Some d \<and> garbage d \<and> p \<in> region q d} =
      {p. \<exists>q \<in> D. \<exists>d. used s0 q = Some d \<and> garbage d \<and> p \<in> region q d} \<union> region h d"
    using assms(4,5) gx(2) by auto
  moreover have "(used s)(h := None) = (\<lambda>q. if q \<in> insert h D \<and> dead s0 q then None else used s0 q)"
    using assms(2,5) sums(3) by (auto simp: swept_def fun_eq_iff)
  moreover have "GC_bytes_found s + int (bytes_freed d) = GC_bytes_found s0 + int (\<Sum>q \<in> insert h D. freed_bytes s0 q)"
    using assms(2) sums(1) gx(1) by (simp add: swept_def)
  moreover have "(\<Sum>q \<in> insert h D. kept_bytes b s0 q) = (\<Sum>q \<in> D. kept_bytes b s0 q)" for b
    using sums(2) [of b] gx(3) by simp
  moreover have "bottom_indices g = bottom_indices (sw_heap s)" using g(7) by (simp add: keeps_def)
  ultimately have "swept s0 (insert h D) ?s"
    using assms(2) g(2-6) lists sums(4) unfolding swept_def by (simp add: Un_assoc)
  with g(1) show ?thesis by blast
qed

lemma counted_fields [simp]:
  "sw_heap (counted d s) = sw_heap s" "sw_mem (counted d s) = sw_mem s" "kinds_lists (counted d s) = kinds_lists s"
  "GC_bytes_found (counted d s) = GC_bytes_found s"
  "GC_atomic_in_use (counted d s) = (if hb_descr d = 0 then word_add (GC_atomic_in_use s) (bytes_kept d) else GC_atomic_in_use s)"
  "GC_composite_in_use (counted d s) = (if hb_descr d = 0 then GC_composite_in_use s else word_add (GC_composite_in_use s) (bytes_kept d))"
  by (simp_all add: counted_def)

lemma lists_after_counted: "lists_after s0 D (counted d s) = lists_after s0 D s"
  unfolding lists_after_def counted_fields ..

lemma swept_fields:
  assumes "swept s0 D s"
  shows "D \<subseteq> dom (used s0)" "heap_ok (sw_heap s)" "elsewhere (sw_heap s) = elsewhere (sw_heap s0)" "mem_mapped (sw_heap s) = mem_mapped (sw_heap s0)"
    "bottom_indices (sw_heap s) = bottom_indices (sw_heap s0)" "used s = (\<lambda>h. if h \<in> D \<and> dead s0 h then None else used s0 h)"
    "free_cells (heap_map s) = free_cells (heap_map s0) \<union> {p. \<exists>h \<in> D. \<exists>d. used s0 h = Some d \<and> garbage d \<and> p \<in> region h d}"
    "sw_mem s = sw_mem s0" "GC_bytes_found s = GC_bytes_found s0 + int (\<Sum>h \<in> D. freed_bytes s0 h)"
    "GC_atomic_in_use s = (\<Sum>h \<in> D. kept_bytes True s0 h) mod 2 ^ 64" "GC_composite_in_use s = (\<Sum>h \<in> D. kept_bytes False s0 h) mod 2 ^ 64"
    "lists_after s0 D s"
  using assms unfolding swept_def by blast+

text \<open>A block that stays: the heap is the same but for the link of the block.\<close>

lemma swept_stays:
  assumes "sweepable s0" and "swept s0 D s" and "h \<notin> D" and "used s0 h = Some x" and "\<not> garbage x" and "x = d\<lparr>hb_next := None, hb_prev := None\<rparr>"
    and "heap_map s h = Header d" and "\<not> HBLK_IS_FREE d" and "sw_heap s' = (sw_heap s)\<lparr>hdr_map := (heap_map s)(h := Header (d\<lparr>hb_next := l\<rparr>))\<rparr>"
    and "sw_mem s' = sw_mem s" and "GC_bytes_found s' = GC_bytes_found s" and "GC_atomic_in_use s' = GC_atomic_in_use s"
    and "GC_composite_in_use s' = GC_composite_in_use s" and "lists_after s0 (insert h D) s'"
  shows "swept s0 (insert h D) (counted d s')"
proof -
  have ok0: "heap_ok (sw_heap s0)" using assms(1) by (simp add: sweepable_def)
  note sums = swept_sums [OF assms(2) ok0 assms(3,4)]
  have ok: "heap_ok (sw_heap s)" using assms(2) by (simp add: swept_def)
  note upd = used_upd_ok [OF ok assms(7,8), of "d\<lparr>hb_next := l\<rparr>", OF _ _ assms(9)]
  have "used s h = Some x" using assms(2-4) by (simp add: swept_def)
  then have same: "used s' = used s" using upd(3) assms(6) by (auto simp: fun_eq_iff)
  note sw = swept_fields [OF assms(2)]
  have x: "bytes_freed x = 0" "bytes_kept x = bytes_kept d" "hb_descr x = hb_descr d" using assms(5,6) by (simp_all add: bytes_freed_def)
  have used': "used s' = (\<lambda>q. if q \<in> insert h D \<and> dead s0 q then None else used s0 q)"
    unfolding same sw(6) using assms(5) sums(3) by auto
  have cells: "{p. \<exists>q \<in> insert h D. \<exists>d. used s0 q = Some d \<and> garbage d \<and> p \<in> region q d} =
      {p. \<exists>q \<in> D. \<exists>d. used s0 q = Some d \<and> garbage d \<and> p \<in> region q d}"
    using assms(4,5) by auto
  have else_: "elsewhere (sw_heap s') = elsewhere (sw_heap s)" unfolding assms(9) by (simp add: elsewhere_def)
  have counts: "GC_atomic_in_use (counted d s') = (\<Sum>h \<in> insert h D. kept_bytes True s0 h) mod 2 ^ 64"
    "GC_composite_in_use (counted d s') = (\<Sum>h \<in> insert h D. kept_bytes False s0 h) mod 2 ^ 64"
    unfolding sums(2) counted_fields assms(12,13) sw(10,11) using x(2,3) by (simp_all only: add_mod if_True if_False add_0 split: if_split) auto
  show ?thesis
    unfolding swept_def lists_after_counted counts sums(1) x(1)
    using sw upd(1,2) used' cells else_ sums(4) assms(9-11,14) by simp
qed

lemma lists_afterE:
  assumes "lists_after s0 D s" and "k < length (kinds_lists s0)"
  obtains "kinds_lists s ! k = (kinds_lists s0 ! k)\<lparr>ok_reclaim_list := None\<rparr>" and "ok_reclaim_list (kinds_lists s0 ! k) = None"
  | rl where "kinds_lists s ! k = (kinds_lists s0 ! k)\<lparr>ok_reclaim_list := Some rl\<rparr>" and "ok_reclaim_list (kinds_lists s0 ! k) \<noteq> None"
      and "length rl = 129" and "\<forall>i < 129. waiting (heap_map s) (rl ! i) {h \<in> D. queued s0 k i h}"
proof -
  from assms obtain r where r: "kinds_lists s ! k = (kinds_lists s0 ! k)\<lparr>ok_reclaim_list := r\<rparr>"
    "case r of None \<Rightarrow> ok_reclaim_list (kinds_lists s0 ! k) = None
      | Some rl \<Rightarrow> ok_reclaim_list (kinds_lists s0 ! k) \<noteq> None \<and> length rl = 129 \<and> (\<forall>i < 129. waiting (heap_map s) (rl ! i) {h \<in> D. queued s0 k i h})"
    unfolding lists_after_def by blast
  with that show ?thesis by (cases r) auto
qed

lemma lists_after_queue:
  assumes "lists_after s0 D s" and "used s0 h = Some x" and "waits (sw_heap s0) x" and "x = d\<lparr>hb_next := None, hb_prev := None\<rparr>" and "h \<notin> D"
    and "hb_obj_kind d < length (kinds_lists s0)"
  shows "lists_after s0 (insert h D) (queue h d s)"
proof -
  let ?k = "hb_obj_kind d" and ?i = "BYTES_TO_GRANULES (hb_sz d)"
  have i: "?i < 129" using assms(3,4) by (intro small_granules) (simp add: waits_def)
  have other: "{q \<in> insert h D. queued s0 k i q} = {q \<in> D. queued s0 k i q}" if "k \<noteq> ?k \<or> i \<noteq> ?i" for k i
    using that assms(2,4) by (auto simp: queued_def)
  have mine: "{q \<in> insert h D. queued s0 ?k ?i q} = insert h {q \<in> D. queued s0 ?k ?i q}"
    using assms(2-4) by (auto simp: queued_def)
  have len: "length (kinds_lists s) = length (kinds_lists s0)" using assms(1) by (simp add: lists_after_def)
  show ?thesis
  proof (rule lists_afterE [OF assms(1,6)])
    assume none: "kinds_lists s ! ?k = (kinds_lists s0 ! ?k)\<lparr>ok_reclaim_list := None\<rparr>" "ok_reclaim_list (kinds_lists s0 ! ?k) = None"
    then have q: "queue h d s = s" by (simp add: queue_def Let_def)
    have "(case rl of None \<Rightarrow> ok_reclaim_list (kinds_lists s0 ! k) = None
        | Some rl \<Rightarrow> ok_reclaim_list (kinds_lists s0 ! k) \<noteq> None \<and> length rl = 129 \<and>
            (\<forall>i < 129. waiting (heap_map s) (rl ! i) {q \<in> insert h D. queued s0 k i q}))"
      if "(case rl of None \<Rightarrow> ok_reclaim_list (kinds_lists s0 ! k) = None
        | Some rl \<Rightarrow> ok_reclaim_list (kinds_lists s0 ! k) \<noteq> None \<and> length rl = 129 \<and>
            (\<forall>i < 129. waiting (heap_map s) (rl ! i) {q \<in> D. queued s0 k i q}))" for rl k
      using that none(2) other [of k] by (cases rl; cases "k = ?k") simp_all
    with assms(1) show ?thesis unfolding q lists_after_def by blast
  next
    fix rl assume rl: "kinds_lists s ! ?k = (kinds_lists s0 ! ?k)\<lparr>ok_reclaim_list := Some rl\<rparr>" "ok_reclaim_list (kinds_lists s0 ! ?k) \<noteq> None"
      "length rl = 129" "\<forall>i < 129. waiting (heap_map s) (rl ! i) {q \<in> D. queued s0 ?k i q}"
    let ?s = "queue h d s" and ?rl = "rl[?i := Some h]"
    have q: "heap_map ?s = (heap_map s)(h := Header (d\<lparr>hb_next := rl ! ?i\<rparr>))"
      "kinds_lists ?s = (kinds_lists s)[?k := (kinds_lists s0 ! ?k)\<lparr>ok_reclaim_list := Some ?rl\<rparr>]"
      using rl(1) by (simp_all add: queue_def Let_def)
    have frame: "waiting (heap_map ?s) first {q \<in> D. P q}" if "waiting (heap_map s) first {q \<in> D. P q}" for first P
      by (rule waiting_frame [OF that]) (use assms(5) q(1) in auto)
    have here: "waiting (heap_map ?s) (?rl ! i) {q \<in> insert h D. queued s0 ?k i q}" if "i < 129" for i
    proof (cases "i = ?i")
      case True
      have "waiting (heap_map s) (rl ! ?i) {q \<in> D. queued s0 ?k ?i q}" using rl(4) i by blast
      then have "waiting (heap_map ?s) (Some h) (insert h {q \<in> D. queued s0 ?k ?i q})"
        by (rule waiting_push [where d = "d\<lparr>hb_next := rl ! ?i\<rparr>"]) (use assms(5) q(1) in auto)
      then show ?thesis using True i rl(3) unfolding True mine by simp
    next
      case False
      have "waiting (heap_map s) (rl ! i) {q \<in> D. queued s0 ?k i q}" using rl(4) that by blast
      from frame [OF this] False other [of ?k i] show ?thesis by simp
    qed
    show ?thesis
      unfolding lists_after_def
    proof (intro conjI allI impI)
      show "length (kinds_lists ?s) = length (kinds_lists s0)" using len q(2) by simp
      fix k assume k: "k < length (kinds_lists s0)"
      show "\<exists>rl. kinds_lists ?s ! k = (kinds_lists s0 ! k)\<lparr>ok_reclaim_list := rl\<rparr> \<and>
          (case rl of None \<Rightarrow> ok_reclaim_list (kinds_lists s0 ! k) = None
           | Some rl \<Rightarrow> ok_reclaim_list (kinds_lists s0 ! k) \<noteq> None \<and> length rl = 129 \<and>
               (\<forall>i < 129. waiting (heap_map ?s) (rl ! i) {q \<in> insert h D. queued s0 k i q}))"
      proof (cases "k = ?k")
        case True
        with rl(2,3) here k len q(2) show ?thesis by (intro exI [of _ "Some ?rl"]) simp
      next
        case False
        have same: "kinds_lists ?s ! k = kinds_lists s ! k" using False q(2) by simp
        show ?thesis
          by (rule lists_afterE [OF assms(1) k]) (use same frame other [of k] False in auto)
      qed
    qed
  qed
qed

lemma step_stays:
  assumes "sweepable s0" and "swept s0 D s" and "h \<notin> D" and "used s0 h = Some x" and "\<not> garbage x"
  shows "\<exists>s'. GC_reclaim_block dp False h s = Done s' () \<and> swept s0 (insert h D) s'"
proof -
  obtain d where d: "heap_map s h = Header d" "\<not> HBLK_IS_FREE d" "x = d\<lparr>hb_next := None, hb_prev := None\<rparr>"
    using swept_header [OF assms(2,4)] assms(3) by blast
  note sw = swept_fields [OF assms(2)]
  have gd: "\<not> garbage d" using assms(5) d(3) by simp
  have leak: "GC_find_leak (sw_heap s) = GC_find_leak (sw_heap s0)" using arg_cong [OF sw(3), of GC_find_leak] by (simp add: elsewhere_def)
  then have w: "waits (sw_heap s) d = waits (sw_heap s0) x" using d(3) by (simp add: waits_def GC_block_empty_def GC_block_nearly_full_def)
  have kinds: "hb_obj_kind d < length (kinds_lists s0)" using assms(1,4) d(3) by (fastforce simp: sweepable_def)
  have len: "length (kinds_lists s) = length (kinds_lists s0)" using sw(12) by (simp add: lists_after_def)
  have objk: "length (GC_obj_kinds (sw_heap s)) = length (kinds_lists s)"
    using assms(1) arg_cong [OF sw(3), of GC_obj_kinds] len by (simp add: sweepable_def elsewhere_def)
  note stays = swept_stays [OF assms d(3,1,2)]
  show ?thesis
  proof (cases "waits (sw_heap s) d")
    case False
    have "lists_after s0 (insert h D) s"
      by (rule lists_after_frame [OF sw(12)]) (use False w assms(4) in \<open>auto simp: queued_def\<close>)
    moreover have "sw_heap s = (sw_heap s)\<lparr>hdr_map := (heap_map s)(h := Header (d\<lparr>hb_next := hb_next d\<rparr>))\<rparr>"
      using d(1) by (simp add: fun_upd_idem)
    ultimately have "swept s0 (insert h D) (counted d s)" using stays [of s "hb_next d"] by simp
    with reclaim_stays [OF d(1) gd False] show ?thesis by simp
  next
    case True
    have lists: "lists_after s0 (insert h D) (queue h d s)"
      using True w by (intro lists_after_queue [OF sw(12) assms(4) _ d(3) assms(3) kinds]) simp
    have rl: "length rl = 129" if "ok_reclaim_list (kinds_lists s ! hb_obj_kind d) = Some rl" for rl
      by (rule lists_afterE [OF sw(12) kinds]) (use that in auto)
    have run: "GC_reclaim_block dp False h s = Done (counted d (queue h d s)) ()"
      by (rule reclaim_waits [OF d(1) True _ objk rl]) (use kinds len in simp_all)
    obtain l where "sw_heap (queue h d s) = (sw_heap s)\<lparr>hdr_map := (heap_map s)(h := Header (d\<lparr>hb_next := l\<rparr>))\<rparr>"
    proof (cases "ok_reclaim_list (kinds_lists s ! hb_obj_kind d)")
      case None
      then have "sw_heap (queue h d s) = (sw_heap s)\<lparr>hdr_map := (heap_map s)(h := Header (d\<lparr>hb_next := hb_next d\<rparr>))\<rparr>"
        using d(1) by (simp add: queue_def Let_def fun_upd_idem)
      with that show ?thesis by blast
    qed (use that in \<open>simp add: queue_def Let_def\<close>)
    moreover have "sw_mem (queue h d s) = sw_mem s" "GC_bytes_found (queue h d s) = GC_bytes_found s"
      "GC_atomic_in_use (queue h d s) = GC_atomic_in_use s" "GC_composite_in_use (queue h d s) = GC_composite_in_use s"
      by (simp_all add: queue_def Let_def split: option.split)
    ultimately have "swept s0 (insert h D) (counted d (queue h d s))" using stays lists by blast
    with run show ?thesis by blast
  qed
qed

interpretation reclaim: block_visitor "GC_reclaim_block dp False" "dom (used s0)" "\<lambda>D s. sweepable s0 \<and> swept s0 D s" "bottom_indices (sw_heap s0)" for dp s0
proof (unfold_locales, goal_cases)
  case (1 D s h)
  then obtain x where "used s0 h = Some x" by blast
  with 1 step_garbage [of s0 D s h x] step_stays [of s0 D s h x] show ?case by blast
next
  case (2 D s)
  then obtain Ls where "blocks_inv (sw_heap s) Ls {} {}" by (auto simp: swept_def heap_ok_def)
  with 2 blocks_invD(1,2) show ?case by (auto simp: swept_def)
next
  case (3 D s h)
  then have eq: "used s h = used s0 h" by (simp add: swept_def)
  show ?case
  proof
    assume "h \<in> dom (used s0)"
    with eq obtain x where "used s h = Some x" by auto
    then show "\<exists>d. heap_map s h = Header d \<and> \<not> HBLK_IS_FREE d" by (metis used_header)
  next
    assume "\<exists>d. heap_map s h = Header d \<and> \<not> HBLK_IS_FREE d"
    then have "used s h \<noteq> None" by (auto simp: used_at_def bare_def HBLK_IS_FREE_def)
    with eq show "h \<in> dom (used s0)" by auto
  qed
qed

end
