(* ===== verification/Gc_Start.thy ===== *)
theory Gc_Start
  imports Gc_Reclaim
begin

text \<open>
  The whole of \<open>GC_start_reclaim\<close>: the free lists are dropped, with their links cleared where the objects may contain pointers, and all
  blocks are gone through.
\<close>

section \<open>Clearing free lists\<close>

text \<open>The memory \<open>m'\<close> is \<open>m\<close> except for some cells of \<open>A\<close> that are zero.\<close>

definition fades :: "(addr \<Rightarrow> nat) \<Rightarrow> (addr \<Rightarrow> nat) \<Rightarrow> addr set \<Rightarrow> bool" where
  "fades m m' A \<longleftrightarrow> (\<forall>a. m' a = m a \<or> a \<in> A \<and> m' a = 0)"

lemma fades_refl: "fades m m A"
  by (simp add: fades_def)

lemma fades_trans: "fades m m' A \<Longrightarrow> fades m' m'' B \<Longrightarrow> B \<subseteq> A \<Longrightarrow> fades m m'' A"
  unfolding fades_def by (metis subsetD)

lemma fades_mono: "fades m m' A \<Longrightarrow> A \<subseteq> B \<Longrightarrow> fades m m' B"
  by (auto simp: fades_def)

lemma fades_clear: "x \<in> A \<Longrightarrow> fades m (m(x := 0)) A"
  by (simp add: fades_def)

lemma chain_fades: "chain m p xs 0 \<Longrightarrow> fades m m' A \<Longrightarrow> \<exists>n. chain m' p (take n xs) 0"
proof (induction xs arbitrary: p)
  case Nil
  then show ?case by simp
next
  case (Cons x xs)
  show ?case
  proof (cases "m' x = 0")
    case True
    with Cons.prems have "chain m' p (take 1 (x # xs)) 0" by simp
    then show ?thesis ..
  next
    case False
    with Cons.prems(2) have "m' x = m x" by (auto simp: fades_def)
    with Cons obtain n where "chain m' (m' x) (take n xs) 0" by auto
    with Cons.prems(1) have "chain m' p (take (Suc n) (x # xs)) 0" by simp
    then show ?thesis ..
  qed
qed

lemma clear_links_run:
  assumes "chain (sw_mem s) p xs 0" and "p \<noteq> 0" and "length xs \<le> fuel" and "\<forall>x \<in> set xs. accessible s x"
  shows "\<exists>m'. clear_links fuel p s = Done (s\<lparr>sw_mem := m'\<rparr>) () \<and> fades (sw_mem s) m' (set xs)"
  using assms
proof (induction fuel arbitrary: p xs s)
  case (Suc fuel)
  then obtain ys where xs: "xs = p # ys" by (cases xs) auto
  let ?nxt = "sw_mem s p" and ?s = "s\<lparr>sw_mem := (sw_mem s)(p := 0)\<rparr>"
  have acc: "accessible s p" and tail: "chain (sw_mem s) ?nxt ys 0" using Suc.prems xs by simp_all
  show ?case
  proof (cases "?nxt = 0")
    case True
    with acc have "clear_links (Suc fuel) p s = Done (s\<lparr>sw_mem := sw_mem s\<rparr>) ()" by (simp add: run_steps ret_def)
    with fades_refl show ?thesis by blast
  next
    case False
    from chain_fades [OF tail fades_clear [of p "{p}"]] obtain n where n: "chain ((sw_mem s)(p := 0)) ?nxt (take n ys) 0" by blast
    have "\<exists>m'. clear_links fuel ?nxt ?s = Done (?s\<lparr>sw_mem := m'\<rparr>) () \<and> fades (sw_mem ?s) m' (set (take n ys))"
      by (rule Suc.IH) (use n False Suc.prems xs in \<open>auto simp del: fun_upd_apply dest: in_set_takeD\<close>)
    then obtain m' where m': "clear_links fuel ?nxt ?s = Done (?s\<lparr>sw_mem := m'\<rparr>) ()" "fades ((sw_mem s)(p := 0)) m' (set (take n ys))" by auto
    have "fades (sw_mem s) m' (set xs)"
      by (rule fades_trans [OF fades_clear m'(2)]) (use xs in \<open>auto dest: in_set_takeD\<close>)
    with m'(1) False acc show ?thesis by (intro exI [of _ m']) (simp add: run_steps)
  qed
qed simp

text \<open>The free lists of all kinds, and the addresses of the objects on them.\<close>

definition free_list :: "sweep_state \<Rightarrow> nat \<Rightarrow> nat \<Rightarrow> addr" where
  "free_list s k i = ok_freelist (kinds_lists s ! k) ! i"

definition free_lists_ok :: "nat \<Rightarrow> sweep_state \<Rightarrow> bool" where
  "free_lists_ok fuel s \<longleftrightarrow> (\<forall>k < length (kinds_lists s). \<forall>i < 129. \<exists>xs.
     chain (sw_mem s) (free_list s k i) xs 0 \<and> length xs \<le> fuel \<and> (\<forall>x \<in> set xs. accessible s x))"

definition free_list_cells :: "sweep_state \<Rightarrow> addr set" where
  "free_list_cells s = {a. \<exists>k i xs. k < length (kinds_lists s) \<and> i < 129 \<and> chain (sw_mem s) (free_list s k i) xs 0 \<and> a \<in> set xs}"

lemma chain_unique: "chain m p xs 0 \<Longrightarrow> chain m p ys 0 \<Longrightarrow> xs = ys"
proof (induction xs arbitrary: p ys)
  case Nil
  then show ?case by (cases ys) auto
next
  case (Cons x xs)
  then show ?case by (cases ys) auto
qed

text \<open>Clearing keeps the lists, or prefixes of them.\<close>

lemma free_lists_clear:
  assumes "free_lists_ok fuel s" and "fades (sw_mem s) m' A" and "length KL = length (kinds_lists s)"
    and "\<And>k i. k < length KL \<Longrightarrow> i < 129 \<Longrightarrow> ok_freelist (KL ! k) ! i = free_list s k i \<or> ok_freelist (KL ! k) ! i = 0"
  shows "free_lists_ok fuel (s\<lparr>sw_mem := m', kinds_lists := KL\<rparr>)" and "free_list_cells (s\<lparr>sw_mem := m', kinds_lists := KL\<rparr>) \<subseteq> free_list_cells s"
proof -
  let ?s = "s\<lparr>sw_mem := m', kinds_lists := KL\<rparr>"
  have prefix: "\<exists>xs ys. chain (sw_mem s) (free_list s k i) xs 0 \<and> chain m' (free_list ?s k i) ys 0 \<and> length xs \<le> fuel \<and> length ys \<le> length xs \<and>
      set ys \<subseteq> set xs \<and> (\<forall>x \<in> set xs. accessible s x)" if ki: "k < length KL" "i < 129" for k i
  proof -
    from assms(1,3) ki obtain xs where xs: "chain (sw_mem s) (free_list s k i) xs 0" "length xs \<le> fuel" "\<forall>x \<in> set xs. accessible s x"
      unfolding free_lists_ok_def by metis
    have head: "free_list ?s k i = free_list s k i \<or> free_list ?s k i = 0" using assms(4) [OF ki] by (simp add: free_list_def)
    from chain_fades [OF xs(1) assms(2)] obtain n where n: "chain m' (free_list s k i) (take n xs) 0" ..
    from head show ?thesis
    proof
      assume "free_list ?s k i = free_list s k i"
      with n xs set_take_subset [of n xs] show ?thesis by (intro exI [of _ xs] exI [of _ "take n xs"]) simp
    next
      assume "free_list ?s k i = 0"
      with xs show ?thesis by (intro exI [of _ xs] exI [of _ "[]"]) simp
    qed
  qed
  show "free_lists_ok fuel ?s"
    unfolding free_lists_ok_def
  proof (intro allI impI)
    fix k i assume "k < length (kinds_lists ?s)" "i < (129::nat)"
    with prefix [of k i] obtain xs ys where "chain m' (free_list ?s k i) ys 0" "length xs \<le> fuel" "length ys \<le> length xs"
      "set ys \<subseteq> set xs" "\<forall>x \<in> set xs. accessible s x" by auto
    then show "\<exists>xs. chain (sw_mem ?s) (free_list ?s k i) xs 0 \<and> length xs \<le> fuel \<and> (\<forall>x\<in>set xs. accessible ?s x)"
      by (intro exI [of _ ys]) (auto simp: accessible_def)
  qed
  show "free_list_cells ?s \<subseteq> free_list_cells s"
  proof
    fix a assume "a \<in> free_list_cells ?s"
    then obtain k i zs where z: "k < length KL" "i < 129" "chain m' (free_list ?s k i) zs 0" "a \<in> set zs" by (auto simp: free_list_cells_def)
    from prefix [OF z(1,2)] obtain xs ys where xs: "chain (sw_mem s) (free_list s k i) xs 0" and ys: "chain m' (free_list ?s k i) ys 0" "set ys \<subseteq> set xs" by auto
    from chain_unique [OF z(3) ys(1)] ys(2) z(4) have "a \<in> set xs" by auto
    with xs z(1,2) assms(3) show "a \<in> free_list_cells s" unfolding free_list_cells_def mem_Collect_eq by metis
  qed
qed

text \<open>One free list of kind \<open>k\<close>; all of them; all kinds that have reclaim lists.\<close>

abbreviation with_free_lists :: "sweep_state \<Rightarrow> nat \<Rightarrow> addr list \<Rightarrow> kind_lists list" where
  "with_free_lists s k fl \<equiv> (kinds_lists s)[k := (kinds_lists s ! k)\<lparr>ok_freelist := fl\<rparr>]"

lemma get_fl_run [run_steps]:
  "k < length (kinds_lists s) \<Longrightarrow> k < length (GC_obj_kinds (sw_heap s)) \<Longrightarrow> i < length (ok_freelist (kinds_lists s ! k)) \<Longrightarrow>
     andthen (get_fl k i) f s = f (free_list s k i) s"
  by (simp add: get_fl_def andthen_assoc run_steps free_list_def)

lemma set_fl_run:
  "k < length (kinds_lists s) \<Longrightarrow> k < length (GC_obj_kinds (sw_heap s)) \<Longrightarrow> i < length (ok_freelist (kinds_lists s ! k)) \<Longrightarrow>
     set_fl k i p s = Done (s\<lparr>kinds_lists := with_free_lists s k ((ok_freelist (kinds_lists s ! k))[i := p])\<rparr>) ()"
  by (simp add: set_fl_def run_steps modifies_def)

lemma clear_one:
  assumes "free_lists_ok fuel s" and "k < length (kinds_lists s)" and "k < length (GC_obj_kinds (sw_heap s))"
    and "length (ok_freelist (kinds_lists s ! k)) = 129" and "i < 129"
  shows "\<exists>m'. (if free_list s k i = 0 then ret () else if clobber then GC_clear_fl_links fuel k i else set_fl k i 0) s =
      Done (s\<lparr>sw_mem := m', kinds_lists := with_free_lists s k ((ok_freelist (kinds_lists s ! k))[i := 0])\<rparr>) () \<and>
    fades (sw_mem s) m' (free_list_cells s)"
proof (cases "free_list s k i = 0")
  case True
  then have "with_free_lists s k ((ok_freelist (kinds_lists s ! k))[i := 0]) = kinds_lists s"
    using list_update_id [of "ok_freelist (kinds_lists s ! k)" i] by (simp add: free_list_def)
  with True fades_refl show ?thesis by (intro exI [of _ "sw_mem s"]) (simp add: ret_def)
next
  case False
  note set = set_fl_run [OF assms(2,3), of i 0]
  show ?thesis
  proof (cases clobber)
    case True
    let ?s = "s\<lparr>kinds_lists := with_free_lists s k ((ok_freelist (kinds_lists s ! k))[i := 0])\<rparr>"
    from assms(1,2,5) obtain xs where xs: "chain (sw_mem s) (free_list s k i) xs 0" "length xs \<le> fuel" "\<forall>x \<in> set xs. accessible s x"
      unfolding free_lists_ok_def by metis
    then obtain m' where m': "clear_links fuel (free_list s k i) ?s = Done (?s\<lparr>sw_mem := m'\<rparr>) ()" "fades (sw_mem s) m' (set xs)"
      using clear_links_run [of ?s "free_list s k i" xs fuel] False by (auto simp: accessible_def)
    have "set xs \<subseteq> free_list_cells s" using xs(1) assms(2,5) unfolding free_list_cells_def by blast
    with m' True False assms set show ?thesis
      by (intro exI [of _ m']) (simp add: GC_clear_fl_links_def run_steps andthen_run [of "set_fl _ _ _"] fades_mono)
  qed (use set False assms fades_refl in \<open>intro exI [of _ "sw_mem s"], simp\<close>)
qed

lemma clear_free_lists_run:
  assumes "free_lists_ok fuel s" and "k < length (kinds_lists s)" and "k < length (GC_obj_kinds (sw_heap s))"
    and "length (ok_freelist (kinds_lists s ! k)) = 129" and "i + n = 129"
  shows "\<exists>m'. clear_free_lists fuel k clobber i n s =
      Done (s\<lparr>sw_mem := m', kinds_lists := with_free_lists s k (take i (ok_freelist (kinds_lists s ! k)) @ replicate n 0)\<rparr>) () \<and>
    fades (sw_mem s) m' (free_list_cells s)"
  using assms
proof (induction n arbitrary: i s)
  case 0
  then show ?case using fades_refl by (intro exI [of _ "sw_mem s"]) (simp add: ret_def)
next
  case (Suc n)
  let ?fl = "ok_freelist (kinds_lists s ! k)"
  have i: "i < 129" using Suc.prems(5) by simp
  obtain m1 where m1: "(if free_list s k i = 0 then ret () else if clobber then GC_clear_fl_links fuel k i else set_fl k i 0) s =
      Done (s\<lparr>sw_mem := m1, kinds_lists := with_free_lists s k (?fl[i := 0])\<rparr>) ()" "fades (sw_mem s) m1 (free_list_cells s)"
    using clear_one [OF Suc.prems(1-4) i, of clobber] by blast
  let ?KL = "with_free_lists s k (?fl[i := 0])"
  let ?s = "s\<lparr>sw_mem := m1, kinds_lists := ?KL\<rparr>"
  have "ok_freelist (?KL ! j) ! l = free_list s j l \<or> ok_freelist (?KL ! j) ! l = 0" if "l < 129" for j l
    using that Suc.prems(2,4) by (cases "j = k"; cases "l = i") (auto simp: free_list_def)
  then have s1: "free_lists_ok fuel ?s" "free_list_cells ?s \<subseteq> free_list_cells s"
    using free_lists_clear [OF Suc.prems(1) m1(2), of ?KL] by simp_all
  have "\<exists>m'. clear_free_lists fuel k clobber (i + 1) n ?s =
      Done (?s\<lparr>sw_mem := m', kinds_lists := with_free_lists ?s k (take (i + 1) (ok_freelist (kinds_lists ?s ! k)) @ replicate n 0)\<rparr>) () \<and>
    fades (sw_mem ?s) m' (free_list_cells ?s)"
    by (rule Suc.IH) (use s1(1) Suc.prems in simp_all)
  then obtain m' where m': "clear_free_lists fuel k clobber (i + 1) n ?s =
      Done (?s\<lparr>sw_mem := m', kinds_lists := with_free_lists ?s k (take (i + 1) (ok_freelist (kinds_lists ?s ! k)) @ replicate n 0)\<rparr>) ()"
    "fades m1 m' (free_list_cells ?s)" by auto
  have "take (i + 1) (?fl[i := 0]) @ replicate n 0 = take i ?fl @ replicate (Suc n) 0"
    using i Suc.prems(4) by (simp add: take_Suc_conv_app_nth)
  then have "with_free_lists ?s k (take (i + 1) (ok_freelist (kinds_lists ?s ! k)) @ replicate n 0) = with_free_lists s k (take i ?fl @ replicate (Suc n) 0)"
    using Suc.prems(2) by simp
  with m'(1) m1(1) have "clear_free_lists fuel k clobber i (Suc n) s =
      Done (s\<lparr>sw_mem := m', kinds_lists := with_free_lists s k (take i ?fl @ replicate (Suc n) 0)\<rparr>) ()"
    using Suc.prems i by (simp add: run_steps andthen_run [of "if _ then _ else _"])
  moreover have "fades (sw_mem s) m' (free_list_cells s)" by (rule fades_trans [OF m1(2) m'(2) s1(2)])
  ultimately show ?case by blast
qed

definition reset_lists :: "kind_lists \<Rightarrow> kind_lists" where
  "reset_lists ok = (if ok_reclaim_list ok = None then ok else ok\<lparr>ok_freelist := replicate 129 0, ok_reclaim_list := Some (replicate 129 None)\<rparr>)"

lemma reset_shape:
  assumes "length (ok_freelist ok) = 129 \<and> (\<forall>rl. ok_reclaim_list ok = Some rl \<longrightarrow> length rl = 129)"
  shows "length (ok_freelist (reset_lists ok)) = 129 \<and> (\<forall>rl. ok_reclaim_list (reset_lists ok) = Some rl \<longrightarrow> length rl = 129)"
  using assms by (cases "ok_reclaim_list ok") (auto simp: reset_lists_def)

lemma clear_kind_run:
  assumes "free_lists_ok fuel s" and "k < length (kinds_lists s)" and "k < length (GC_obj_kinds (sw_heap s))"
    and "length (ok_freelist (kinds_lists s ! k)) = 129" and "\<forall>rl. ok_reclaim_list (kinds_lists s ! k) = Some rl \<longrightarrow> length rl = 129"
  shows "\<exists>m'. clear_kinds fuel False k (Suc n) s = clear_kinds fuel False (k + 1) n
      (s\<lparr>sw_mem := m', kinds_lists := (kinds_lists s)[k := reset_lists (kinds_lists s ! k)]\<rparr>) \<and> fades (sw_mem s) m' (free_list_cells s)"
proof (cases "ok_reclaim_list (kinds_lists s ! k)")
  case None
  then have "(kinds_lists s)[k := reset_lists (kinds_lists s ! k)] = kinds_lists s" by (simp add: reset_lists_def)
  with None assms(2,3) fades_refl show ?thesis by (intro exI [of _ "sw_mem s"]) (simp add: run_steps)
next
  case (Some rl)
  have g: "MAXOBJGRANULES + 1 = 129" by (simp add: MAXOBJGRANULES_def MAXOBJBYTES_def HBLKSIZE_def BYTES_TO_GRANULES_def drop_bit_eq_div)
  have "0 + 129 = (129 :: nat)" by simp
  from clear_free_lists_run [OF assms(1-4) this] obtain m' where m': "clear_free_lists fuel k (ok_descriptor (GC_obj_kinds (sw_heap s) ! k) \<noteq> 0) 0 129 s =
      Done (s\<lparr>sw_mem := m', kinds_lists := with_free_lists s k (take 0 (ok_freelist (kinds_lists s ! k)) @ replicate 129 0)\<rparr>) ()"
    "fades (sw_mem s) m' (free_list_cells s)" by blast
  have "clear_kinds fuel False k (Suc n) s = andthen (clear_free_lists fuel k (ok_descriptor (GC_obj_kinds (sw_heap s) ! k) \<noteq> 0) 0 129) (\<lambda>_.
      andthen (modifies (\<lambda>s. s\<lparr>kinds_lists := (kinds_lists s)[k := (kinds_lists s ! k)\<lparr>ok_reclaim_list := Some (replicate (length rl) None)\<rparr>]\<rparr>)) (\<lambda>_.
      clear_kinds fuel False (k + 1) n)) s"
    unfolding clear_kinds.simps(2) g using Some assms(2,3) by (simp add: andthen_get_kind andthen_assoc del: clear_free_lists.simps)
  also have "\<dots> = clear_kinds fuel False (k + 1) n (s\<lparr>sw_mem := m', kinds_lists := (kinds_lists s)[k := reset_lists (kinds_lists s ! k)]\<rparr>)"
    unfolding andthen_run [of "clear_free_lists _ _ _ _ _", OF m'(1)] using Some assms(2,5) by (simp add: run_steps reset_lists_def)
  finally show ?thesis using m'(2) by blast
qed

lemma clear_kinds_run:
  assumes "free_lists_ok fuel s" and "length (GC_obj_kinds (sw_heap s)) = length (kinds_lists s)" and "k + n = length (kinds_lists s)"
    and "\<forall>ok \<in> set (kinds_lists s). length (ok_freelist ok) = 129 \<and> (\<forall>rl. ok_reclaim_list ok = Some rl \<longrightarrow> length rl = 129)"
  shows "\<exists>m'. clear_kinds fuel False k n s =
      Done (s\<lparr>sw_mem := m', kinds_lists := take k (kinds_lists s) @ map reset_lists (drop k (kinds_lists s))\<rparr>) () \<and>
    fades (sw_mem s) m' (free_list_cells s)"
  using assms
proof (induction n arbitrary: k s)
  case 0
  then show ?case using fades_refl by (intro exI [of _ "sw_mem s"]) (simp add: ret_def)
next
  case (Suc n)
  let ?kl = "kinds_lists s"
  have k: "k < length ?kl" using Suc.prems(3) by simp
  then have mem: "?kl ! k \<in> set ?kl" by simp
  obtain m1 where m1: "clear_kinds fuel False k (Suc n) s = clear_kinds fuel False (k + 1) n (s\<lparr>sw_mem := m1, kinds_lists := ?kl[k := reset_lists (?kl ! k)]\<rparr>)"
    "fades (sw_mem s) m1 (free_list_cells s)"
    using clear_kind_run [OF Suc.prems(1) k, of n] Suc.prems(2,4) k mem by auto
  let ?KL = "?kl[k := reset_lists (?kl ! k)]"
  let ?s = "s\<lparr>sw_mem := m1, kinds_lists := ?KL\<rparr>"
  have "ok_freelist (?KL ! j) ! i = free_list s j i \<or> ok_freelist (?KL ! j) ! i = 0" if "i < 129" for j i
    using that k by (cases "j = k") (auto simp: free_list_def reset_lists_def)
  then have s1: "free_lists_ok fuel ?s" "free_list_cells ?s \<subseteq> free_list_cells s"
    using free_lists_clear [OF Suc.prems(1) m1(2), of ?KL] by simp_all
  have shape: "\<forall>ok \<in> set ?KL. length (ok_freelist ok) = 129 \<and> (\<forall>rl. ok_reclaim_list ok = Some rl \<longrightarrow> length rl = 129)"
  proof
    fix ok assume "ok \<in> set ?KL"
    then have "ok \<in> set ?kl \<or> ok = reset_lists (?kl ! k)" using set_update_subset_insert by fastforce
    with Suc.prems(4) mem reset_shape show "length (ok_freelist ok) = 129 \<and> (\<forall>rl. ok_reclaim_list ok = Some rl \<longrightarrow> length rl = 129)" by metis
  qed
  have "\<exists>m'. clear_kinds fuel False (k + 1) n ?s =
      Done (?s\<lparr>sw_mem := m', kinds_lists := take (k + 1) (kinds_lists ?s) @ map reset_lists (drop (k + 1) (kinds_lists ?s))\<rparr>) () \<and>
    fades (sw_mem ?s) m' (free_list_cells ?s)"
    by (rule Suc.IH) (use s1(1) Suc.prems(2,3) shape in simp_all)
  then obtain m' where m': "clear_kinds fuel False (k + 1) n ?s =
      Done (?s\<lparr>sw_mem := m', kinds_lists := take (k + 1) ?KL @ map reset_lists (drop (k + 1) ?KL)\<rparr>) ()"
    "fades m1 m' (free_list_cells ?s)" by auto
  have "take (k + 1) ?KL @ map reset_lists (drop (k + 1) ?KL) = take k ?kl @ map reset_lists (drop k ?kl)"
    using k by (simp add: take_Suc_conv_app_nth Cons_nth_drop_Suc [symmetric])
  with m'(1) m1(1) have "clear_kinds fuel False k (Suc n) s =
      Done (s\<lparr>sw_mem := m', kinds_lists := take k ?kl @ map reset_lists (drop k ?kl)\<rparr>) ()" by simp
  moreover have "fades (sw_mem s) m' (free_list_cells s)" by (rule fades_trans [OF m1(2) m'(2) s1(2)])
  ultimately show ?case by blast
qed

section \<open>GC_start_reclaim\<close>

lemma drain_unmarked:
  assumes "length (GC_obj_kinds (sw_heap s)) = length (kinds_lists s)" and "\<forall>ok \<in> set (GC_obj_kinds (sw_heap s)). \<not> ok_mark_unconditionally ok"
    and "k + n = length (kinds_lists s)"
  shows "drain_kinds dp fuel stop_func old True k n s = Done s True"
  using assms(3)
proof (induction n arbitrary: k)
  case (Suc n)
  then have "GC_obj_kinds (sw_heap s) ! k \<in> set (GC_obj_kinds (sw_heap s))" using assms(1) by simp
  with assms(1,2) Suc show ?case by (simp add: run_steps)
qed (simp add: ret_def)

lemma swept_start:
  assumes "sweepable s" and "GC_atomic_in_use s = 0" and "GC_composite_in_use s = 0" and "kinds_lists s = map reset_lists kl"
  shows "swept s {} s"
proof -
  have "\<exists>rl. kinds_lists s ! k = (kinds_lists s ! k)\<lparr>ok_reclaim_list := rl\<rparr> \<and>
      (case rl of None \<Rightarrow> ok_reclaim_list (kinds_lists s ! k) = None
       | Some rl \<Rightarrow> ok_reclaim_list (kinds_lists s ! k) \<noteq> None \<and> length rl = 129 \<and>
           (\<forall>i < 129. waiting (heap_map s) (rl ! i) {q \<in> {}. queued s k i q}))" if "k < length (kinds_lists s)" for k
  proof -
    have "kinds_lists s ! k = reset_lists (kl ! k)" using that assms(4) by simp
    then show ?thesis using waiting_empty
      by (intro exI [of _ "ok_reclaim_list (kinds_lists s ! k)"]) (auto simp: reset_lists_def split: option.split)
  qed
  with assms(1-3) show ?thesis unfolding swept_def lists_after_def by (auto simp: sweepable_def)
qed

lemma start_reclaim_ok:
  assumes "sweepable s" and "free_lists_ok fuel s" and "length (bottom_indices (sw_heap s)) \<le> fuel"
  shows "\<exists>m' s' s2. GC_start_reclaim dp fuel False s = Done s' () \<and> fades (sw_mem s) m' (free_list_cells s) \<and>
    s2 = s\<lparr>GC_composite_in_use := 0, GC_atomic_in_use := 0, sw_mem := m', kinds_lists := map reset_lists (kinds_lists s)\<rparr> \<and> swept s2 (dom (used s)) s'"
proof -
  let ?s1 = "s\<lparr>GC_composite_in_use := 0, GC_atomic_in_use := 0\<rparr>" and ?n = "length (kinds_lists s)"
  have fl1: "free_lists_ok fuel ?s1" using assms(2) by (simp add: free_lists_ok_def free_list_def accessible_def)
  have cells: "free_list_cells ?s1 = free_list_cells s" by (simp add: free_list_cells_def free_list_def)
  obtain m' where m': "clear_kinds fuel False 0 ?n ?s1 = Done (?s1\<lparr>sw_mem := m', kinds_lists := map reset_lists (kinds_lists s)\<rparr>) ()"
    "fades (sw_mem s) m' (free_list_cells s)"
    using clear_kinds_run [OF fl1, of 0 ?n] assms(1) cells by (auto simp: sweepable_def)
  let ?s2 = "?s1\<lparr>sw_mem := m', kinds_lists := map reset_lists (kinds_lists s)\<rparr>"
  have ok2: "sweepable ?s2" using assms(1) reset_shape by (auto simp: sweepable_def)
  have start: "swept ?s2 {} ?s2" by (rule swept_start [OF ok2, of "kinds_lists s"]) simp_all
  obtain s3 where s3: "GC_apply_to_all_blocks fuel (GC_reclaim_block dp False) ?s2 = Done s3 ()" "swept ?s2 (dom (used s)) s3"
    using reclaim.apply_to_all_blocks_ok [of ?s2 ?s2 fuel dp] ok2 start assms(3) by auto
  note sw = swept_fields [OF s3(2)]
  have kinds: "GC_obj_kinds (sw_heap s3) = GC_obj_kinds (sw_heap s)" using arg_cong [OF sw(3), of GC_obj_kinds] by (simp add: elsewhere_def)
  have len: "length (kinds_lists s3) = ?n" using sw(12) by (simp add: lists_after_def)
  have "drain_kinds dp fuel None False True 0 (length (kinds_lists s3)) s3 = Done s3 True"
    by (rule drain_unmarked) (use kinds len assms(1) in \<open>simp_all add: sweepable_def\<close>)
  then have "GC_reclaim_unconditionally_marked dp fuel s3 = Done s3 ()"
    by (simp add: GC_reclaim_unconditionally_marked_def run_steps andthen_run [of "drain_kinds _ _ _ _ _ _ _"] ret_def)
  then have "GC_start_reclaim dp fuel False s = Done s3 ()"
    using m'(1) s3(1)
    by (simp add: GC_start_reclaim_def andthen_modifies andthen_reads andthen_run [of "clear_kinds _ _ _ _"] andthen_run [of "GC_apply_to_all_blocks _ _"])
  with m'(2) s3(2) show ?thesis by blast
qed

end
