(* ===== verification/Gc_Refill.thy ===== *)
theory Gc_Refill
  imports Gc_Start
begin

text \<open>
  Filling an empty free list: \<open>GC_continue_reclaim\<close> sweeps waiting blocks until one of them has a free object, \<open>GC_new_hblk\<close> carves up a
  new block.
\<close>

section \<open>Sweeping one block\<close>

text \<open>A block of objects of \<open>i\<close> granules of kind \<open>k\<close>, without a disclaim procedure.\<close>

definition holds_objects :: "sweep_state \<Rightarrow> nat \<Rightarrow> nat \<Rightarrow> hblk \<Rightarrow> bool" where
  "holds_objects s k i h \<longleftrightarrow> (\<exists>d. heap_map s h = Header d \<and> \<not> HBLK_IS_FREE d \<and> hb_sz d = 16 * i \<and> hb_obj_kind d = k \<and> and (hb_flags d) HAS_DISCLAIM = 0)"

definition objects_of :: "sweep_state \<Rightarrow> hblk \<Rightarrow> addr list" where
  "objects_of s h = (case heap_map s h of Header d \<Rightarrow> free_objects h d | Jump _ \<Rightarrow> [])"

definition kind_ok :: "sweep_state \<Rightarrow> nat \<Rightarrow> bool" where
  "kind_ok s k \<longleftrightarrow> k < length (kinds_lists s) \<and> k < length (GC_obj_kinds (sw_heap s)) \<and> length (ok_freelist (kinds_lists s ! k)) = 129"

definition clears_objects :: "sweep_state \<Rightarrow> nat \<Rightarrow> bool" where
  "clears_objects s k \<longleftrightarrow> ok_init (kinds_lists s ! k) \<or> GC_debugging_started s"

lemma block_in_use:
  assumes "heap_ok st" and "hdr_map st h = Header d" and "\<not> HBLK_IS_FREE d"
  shows "mem_mapped st h" and "0 < h"
proof -
  from assms(1) obtain Ls where i: "blocks_inv st Ls {} {}" by (auto simp: heap_ok_def)
  note ok = layout_entry [OF blocks_invD(1) [OF i] assms(2)]
  show "0 < h" using ok by (simp add: entry_ok_def)
  have "IS_MAPPED d" "\<forall>p. p \<in> region h d \<longrightarrow> mem_mapped st p = IS_MAPPED d" using blocks_invD(4) [OF i] assms(2,3) by (auto simp: mapping_ok_def)
  with region_start [OF ok] show "mem_mapped st h" by blast
qed

lemma small_size_granules: "0 < i \<Longrightarrow> i \<le> 128 \<Longrightarrow> small_size (16 * i)" "i \<le> 128 \<Longrightarrow> BYTES_TO_GRANULES (16 * i) = i"
  by (simp_all add: small_size_def MAXOBJBYTES_def HBLKSIZE_def BYTES_TO_GRANULES_def drop_bit_eq_div)

lemma swept_heap_upd:
  assumes "hdr_map g h = Header d"
  shows "\<exists>d'. swept_heap h d g = g\<lparr>hdr_map := (hdr_map g)(h := Header d')\<rparr> \<and> hb_sz d' = hb_sz d \<and> hb_flags d' = hb_flags d"
proof (cases "IS_UNCOLLECTABLE (hb_obj_kind d)")
  case True
  then show ?thesis by (intro exI [of _ "all_marked d"]) (simp add: swept_heap_def all_marked_def)
next
  case False
  with assms show ?thesis by (intro exI [of _ d]) (simp add: swept_heap_def fun_upd_idem)
qed

lemma sweep_block_ok:
  assumes "heap_ok (sw_heap s)" and "holds_objects s k i h" and "kind_ok s k" and "0 < i" and "i \<le> 128"
  shows "\<exists>g m' first. GC_reclaim_small_nonempty_block dp h (16 * i) False s =
      Done (s\<lparr>sw_heap := g, sw_mem := m', GC_bytes_found := GC_bytes_found s + int (16 * i) * int (length (objects_of s h)),
        kinds_lists := with_free_lists s k ((ok_freelist (kinds_lists s ! k))[i := first])\<rparr>) () \<and>
    reclaimed (clears_objects s k) (16 * i) (objects_of s h) (free_list s k i) (sw_mem s) m' first \<and>
    heap_ok g \<and> dom (used_at (hdr_map g)) = dom (used s) \<and> free_cells (hdr_map g) = free_cells (heap_map s) \<and>
    (\<forall>q. q \<noteq> h \<longrightarrow> hdr_map g q = heap_map s q) \<and> GC_obj_kinds g = GC_obj_kinds (sw_heap s)"
proof -
  obtain d where d: "heap_map s h = Header d" "\<not> HBLK_IS_FREE d" "hb_sz d = 16 * i" "hb_obj_kind d = k" "and (hb_flags d) HAS_DISCLAIM = 0"
    using assms(2) by (auto simp: holds_objects_def)
  let ?d = "d\<lparr>hb_last_reclaimed := of_nat (GC_gc_no (sw_heap s))\<rparr>"
  let ?g = "(sw_heap s)\<lparr>hdr_map := (heap_map s)(h := Header ?d)\<rparr>"
  let ?s = "s\<lparr>sw_heap := ?g\<rparr>"
  note kind = assms(3) [unfolded kind_ok_def]
  have touch: "touch_hdr h s = Done ?s ()" using d(1) by (simp add: touch_hdr_def run_steps upd_hdr_def)
  have objs: "free_objects h ?d = objects_of s h" using d(1) by (simp add: free_objects_def objects_of_def)
  have gran: "BYTES_TO_GRANULES (16 * i) = i" by (rule small_size_granules(2) [OF assms(5)])
  have fl: "free_list ?s k i = free_list s k i" by (simp add: free_list_def)
  obtain m' first where r: "GC_reclaim_generic dp h (hb_sz ?d) (ok_init (kinds_lists s ! k)) (free_list s k i) ?s =
      Done (?s\<lparr>sw_mem := m', sw_heap := swept_heap h ?d ?g\<rparr>) (first, int (hb_sz ?d) * int (length (free_objects h ?d)))"
    "reclaimed (clears_objects s k) (16 * i) (objects_of s h) (free_list s k i) (sw_mem s) m' first"
    using reclaim_generic_ok [of ?s h ?d dp "ok_init (kinds_lists s ! k)" "free_list s k i"] d small_size_granules(1) [OF assms(4,5)]
      block_in_use [OF assms(1) d(1,2)] by (auto simp: clears_objects_def objects_of_def free_objects_def)
  obtain d2 where d2: "swept_heap h ?d ?g = ?g\<lparr>hdr_map := (hdr_map ?g)(h := Header d2)\<rparr>" "hb_sz d2 = hb_sz d" "hb_flags d2 = hb_flags d"
    using swept_heap_upd [of ?g h ?d] by auto
  let ?g2 = "(sw_heap s)\<lparr>hdr_map := (heap_map s)(h := Header d2)\<rparr>"
  have g2: "swept_heap h ?d ?g = ?g2" unfolding d2(1) by simp
  note upd = used_upd_ok [OF assms(1) d(1,2) d2(2,3) refl]
  have "used s h \<noteq> None" using d(1,2) by (simp add: used_at_def bare_def HBLK_IS_FREE_def)
  then have dom: "dom (used_at (hdr_map ?g2)) = dom (used s)" unfolding upd(3) by auto
  have run: "GC_reclaim_generic dp h (16 * i) (ok_init (kinds_lists s ! k)) (free_list s k i) ?s =
      Done (?s\<lparr>sw_mem := m', sw_heap := ?g2\<rparr>) (first, int (16 * i) * int (length (objects_of s h)))"
    using r(1) objs d(3) unfolding g2 by simp
  have "GC_reclaim_small_nonempty_block dp h (16 * i) False s =
      Done (s\<lparr>sw_heap := ?g2, sw_mem := m', GC_bytes_found := GC_bytes_found s + int (16 * i) * int (length (objects_of s h)),
        kinds_lists := with_free_lists s k ((ok_freelist (kinds_lists s ! k))[i := first])\<rparr>) ()"
    using kind assms(5) d(1,4) fl
    by (simp add: GC_reclaim_small_nonempty_block_def on_heap_get_hdr Let_def andthen_run [of "touch_hdr _", OF touch] andthen_get_kind gran get_fl_run
      andthen_run [of "GC_reclaim_generic _ _ _ _ _", OF run] andthen_modifies set_fl_run del: of_nat_mult)
  with r(2) upd(1,2) dom show ?thesis by (intro exI [of _ ?g2] exI [of _ m'] exI [of _ first]) simp
qed

section \<open>Sweeping until there is an object\<close>

text \<open>The blocks \<open>hs\<close> wait, in this order, in the list for kind \<open>k\<close> and objects of \<open>i\<close> granules.\<close>

definition awaiting :: "sweep_state \<Rightarrow> nat \<Rightarrow> nat \<Rightarrow> hblk list \<Rightarrow> bool" where
  "awaiting s k i hs \<longleftrightarrow> (\<exists>rl. ok_reclaim_list (kinds_lists s ! k) = Some rl \<and> length rl = 129 \<and> block_chain (heap_map s) (rl ! i) hs) \<and>
     distinct hs \<and> (\<forall>h \<in> set hs. holds_objects s k i h)"

text \<open>The objects the sweep finds, those of the first block that has any, and the blocks that wait after it.\<close>

definition objects_next :: "sweep_state \<Rightarrow> hblk list \<Rightarrow> addr list" where
  "objects_next s hs = (case dropWhile (\<lambda>h. objects_of s h = []) hs of [] \<Rightarrow> [] | h # _ \<Rightarrow> objects_of s h)"

definition left_waiting :: "sweep_state \<Rightarrow> hblk list \<Rightarrow> hblk list" where
  "left_waiting s hs = tl (dropWhile (\<lambda>h. objects_of s h = []) hs)"

definition same_blocks :: "gc_state \<Rightarrow> gc_state \<Rightarrow> bool" where
  "same_blocks g g' \<longleftrightarrow> heap_ok g' \<and> dom (used_at (hdr_map g')) = dom (used_at (hdr_map g)) \<and>
     free_cells (hdr_map g') = free_cells (hdr_map g) \<and> GC_obj_kinds g' = GC_obj_kinds g"

definition refilled :: "sweep_state \<Rightarrow> nat \<Rightarrow> nat \<Rightarrow> hblk list \<Rightarrow> sweep_state \<Rightarrow> bool" where
  "refilled s k i hs s' \<longleftrightarrow> same_blocks (sw_heap s) (sw_heap s') \<and> awaiting s' k i (left_waiting s hs) \<and> kind_ok s' k \<and>
     reclaimed (clears_objects s k) (16 * i) (objects_next s hs) 0 (sw_mem s) (sw_mem s') (free_list s' k i) \<and>
     GC_bytes_found s' = GC_bytes_found s + int (16 * i) * int (length (objects_next s hs)) \<and>
     (\<forall>j l. (j, l) \<noteq> (k, i) \<longrightarrow> free_list s' j l = free_list s j l) \<and>
     (\<forall>q. q \<notin> set hs \<or> q \<in> set (left_waiting s hs) \<longrightarrow> heap_map s' q = heap_map s q)"

lemma reclaimed_none: "reclaimed clear sz [] list m m' first \<Longrightarrow> m' = m \<and> first = list"
  by (auto simp: reclaimed_def fun_eq_iff)

lemma reclaimed_some: "reclaimed clear sz us list m m' first \<Longrightarrow> us \<noteq> [] \<Longrightarrow> first \<noteq> 0"
  by (cases "rev us") (auto simp: reclaimed_def)

lemma objects_next_Cons:
  "objects_next s (h # hs) = (if objects_of s h = [] then objects_next s hs else objects_of s h)"
  "left_waiting s (h # hs) = (if objects_of s h = [] then left_waiting s hs else hs)"
  by (simp_all add: objects_next_def left_waiting_def)

lemma left_waiting_subset: "set (left_waiting s hs) \<subseteq> set hs"
  by (induction hs) (auto simp: left_waiting_def)

lemma continue_step:
  assumes "heap_ok (sw_heap s)" and "awaiting s k i (h # hs)" and "kind_ok s k" and "free_list s k i = 0" and "0 < i" and "i \<le> 128"
  shows "\<exists>s'. continue_loop dp (Suc fuel) k i s = (if objects_of s h = [] then continue_loop dp fuel k i else ret ()) s' \<and>
    same_blocks (sw_heap s) (sw_heap s') \<and> awaiting s' k i hs \<and> kind_ok s' k \<and>
    reclaimed (clears_objects s k) (16 * i) (objects_of s h) 0 (sw_mem s) (sw_mem s') (free_list s' k i) \<and>
    GC_bytes_found s' = GC_bytes_found s + int (16 * i) * int (length (objects_of s h)) \<and>
    (\<forall>j l. (j, l) \<noteq> (k, i) \<longrightarrow> free_list s' j l = free_list s j l) \<and> (\<forall>q. q \<noteq> h \<longrightarrow> heap_map s' q = heap_map s q) \<and>
    clears_objects s' k = clears_objects s k"
proof -
  note kind = assms(3) [unfolded kind_ok_def]
  obtain rl where rl: "ok_reclaim_list (kinds_lists s ! k) = Some rl" "length rl = 129" "block_chain (heap_map s) (rl ! i) (h # hs)"
    using assms(2) by (auto simp: awaiting_def)
  then obtain d where d: "rl ! i = Some h" "heap_map s h = Header d" "block_chain (heap_map s) (hb_next d) hs" by auto
  have holds: "holds_objects s k i h" "distinct (h # hs)" "\<forall>q \<in> set hs. holds_objects s k i q" using assms(2) by (simp_all add: awaiting_def)
  then have sz: "hb_sz d = 16 * i" using d(2) by (auto simp: holds_objects_def)
  let ?KL = "(kinds_lists s)[k := (kinds_lists s ! k)\<lparr>ok_reclaim_list := Some (rl[i := hb_next d])\<rparr>]"
  let ?s = "s\<lparr>kinds_lists := ?KL\<rparr>"
  have set: "set_rl k i (hb_next d) s = Done ?s ()" using kind rl(1,2) assms(6) by (simp add: set_rl_run)
  have "holds_objects ?s k i h" "kind_ok ?s k" using holds(1) kind by (simp_all add: holds_objects_def kind_ok_def)
  from sweep_block_ok [of ?s, OF _ this assms(5,6), of dp] assms(1) obtain g m' first where
    r: "GC_reclaim_small_nonempty_block dp h (16 * i) False ?s =
      Done (?s\<lparr>sw_heap := g, sw_mem := m', GC_bytes_found := GC_bytes_found ?s + int (16 * i) * int (length (objects_of ?s h)),
        kinds_lists := with_free_lists ?s k ((ok_freelist (kinds_lists ?s ! k))[i := first])\<rparr>) ()"
    "reclaimed (clears_objects ?s k) (16 * i) (objects_of ?s h) (free_list ?s k i) (sw_mem ?s) m' first"
    "heap_ok g" "dom (used_at (hdr_map g)) = dom (used ?s)" "free_cells (hdr_map g) = free_cells (heap_map ?s)"
    "\<forall>q. q \<noteq> h \<longrightarrow> hdr_map g q = heap_map ?s q" "GC_obj_kinds g = GC_obj_kinds (sw_heap ?s)" by auto
  let ?s2 = "?s\<lparr>sw_heap := g, sw_mem := m', GC_bytes_found := GC_bytes_found ?s + int (16 * i) * int (length (objects_of ?s h)),
        kinds_lists := with_free_lists ?s k ((ok_freelist (kinds_lists ?s ! k))[i := first])\<rparr>"
  have same: "objects_of ?s h = objects_of s h" "clears_objects ?s k = clears_objects s k" "free_list ?s k i = 0"
    using kind assms(4) by (simp_all add: objects_of_def clears_objects_def free_list_def)
  have first: "free_list ?s2 k i = first" using kind assms(6) by (simp add: free_list_def)
  have rec: "reclaimed (clears_objects s k) (16 * i) (objects_of s h) 0 (sw_mem s) m' first" using r(2) same by simp
  have zero: "(first \<noteq> 0) = (objects_of s h \<noteq> [])" using reclaimed_some [OF rec] reclaimed_none [of _ _ 0 _ m' first] rec by metis
  have kind2: "kind_ok ?s2 k" using kind r(7) by (simp add: kind_ok_def)
  have "continue_loop dp (Suc fuel) k i s = (if objects_of s h = [] then continue_loop dp fuel k i else ret ()) ?s2"
    using kind kind2 rl(1,2) d(1,2) assms(6) sz zero first
    by (simp add: run_steps kind_ok_def andthen_run [of "set_rl _ _ _", OF set] andthen_run [of "GC_reclaim_small_nonempty_block _ _ _ _", OF r(1)])
  moreover have "awaiting ?s2 k i hs"
  proof -
    have g: "hdr_map g q = heap_map s q" if "q \<in> set hs" for q using that holds(2) r(6) by auto
    then have "block_chain (hdr_map g) (hb_next d) hs" using block_chain_frame [of hs "hdr_map g" "heap_map s"] d(3) by blast
    moreover have "\<forall>q \<in> set hs. holds_objects ?s2 k i q" using holds(3) g by (simp add: holds_objects_def)
    ultimately show ?thesis using holds(2) rl(2) assms(6) kind by (simp add: awaiting_def)
  qed
  moreover have "free_list ?s2 j l = free_list s j l" if "(j, l) \<noteq> (k, i)" for j l
    using that kind by (cases "j = k") (auto simp: free_list_def)
  moreover have "clears_objects ?s2 k = clears_objects s k" using kind by (simp add: clears_objects_def)
  ultimately show ?thesis
    using r(3-7) rec kind2 first same(1) by (intro exI [of _ ?s2]) (simp add: same_blocks_def)
qed

lemma continue_loop_ok:
  assumes "heap_ok (sw_heap s)" and "awaiting s k i hs" and "kind_ok s k" and "free_list s k i = 0" and "0 < i" and "i \<le> 128" and "length hs < fuel"
  shows "\<exists>s'. continue_loop dp fuel k i s = Done s' () \<and> refilled s k i hs s'"
  using assms
proof (induction hs arbitrary: s fuel)
  case Nil
  then obtain rl where "ok_reclaim_list (kinds_lists s ! k) = Some rl" "length rl = 129" "rl ! i = None" by (auto simp: awaiting_def)
  moreover obtain n where "fuel = Suc n" using Nil.prems(7) by (cases fuel) auto
  ultimately have "continue_loop dp fuel k i s = Done s ()" using Nil.prems(3,6) by (simp add: kind_ok_def run_steps ret_def)
  with Nil.prems show ?case
    by (intro exI [of _ s]) (simp add: refilled_def same_blocks_def left_waiting_def objects_next_def reclaimed_Nil)
next
  case (Cons h hs)
  obtain n where n: "fuel = Suc n" using Cons.prems(7) by (cases fuel) auto
  obtain s1 where s1: "continue_loop dp fuel k i s = (if objects_of s h = [] then continue_loop dp n k i else ret ()) s1"
    "same_blocks (sw_heap s) (sw_heap s1)" "awaiting s1 k i hs" "kind_ok s1 k"
    "reclaimed (clears_objects s k) (16 * i) (objects_of s h) 0 (sw_mem s) (sw_mem s1) (free_list s1 k i)"
    "GC_bytes_found s1 = GC_bytes_found s + int (16 * i) * int (length (objects_of s h))"
    "\<forall>j l. (j, l) \<noteq> (k, i) \<longrightarrow> free_list s1 j l = free_list s j l" "\<forall>q. q \<noteq> h \<longrightarrow> heap_map s1 q = heap_map s q"
    "clears_objects s1 k = clears_objects s k"
    using continue_step [OF Cons.prems(1-6), of dp n] unfolding n by blast
  have out: "h \<notin> set hs" using Cons.prems(2) by (simp add: awaiting_def)
  show ?case
  proof (cases "objects_of s h = []")
    case False
    with s1 out have "refilled s k i (h # hs) s1" unfolding refilled_def objects_next_Cons by auto
    with False s1(1) show ?thesis by (intro exI [of _ s1]) (simp add: ret_def)
  next
    case True
    have same: "sw_mem s1 = sw_mem s" "free_list s1 k i = 0" using reclaimed_none s1(5) True by metis+
    have ok1: "heap_ok (sw_heap s1)" using s1(2) by (simp add: same_blocks_def)
    have len: "length hs < n" using Cons.prems(7) n by simp
    obtain s' where s': "continue_loop dp n k i s1 = Done s' ()" "refilled s1 k i hs s'"
      using Cons.IH [OF ok1 s1(3,4) same(2) Cons.prems(5,6) len] by blast
    have objs: "objects_of s1 q = objects_of s q" if "q \<in> set hs" for q using that out s1(8) by (auto simp: objects_of_def)
    then have dw: "dropWhile (\<lambda>h. objects_of s1 h = []) hs = dropWhile (\<lambda>h. objects_of s h = []) hs" by (intro dropWhile_cong) simp_all
    then have nxt: "objects_next s1 hs = objects_next s hs" "left_waiting s1 hs = left_waiting s hs"
      using objs set_dropWhileD [of _ "\<lambda>h. objects_of s h = []" hs]
      by (auto simp: objects_next_def left_waiting_def split: list.split)
    have "refilled s k i (h # hs) s'"
      using s'(2) s1(2,6-9) same True out left_waiting_subset [of s hs] unfolding refilled_def objects_next_Cons nxt same_blocks_def by auto
    with True s1(1) s'(1) show ?thesis by auto
  qed
qed

lemma continue_reclaim_ok:
  assumes "heap_ok (sw_heap s)" and "awaiting s k i hs" and "kind_ok s k" and "free_list s k i = 0" and "0 < i" and "i \<le> 128" and "length hs < fuel"
  shows "\<exists>s'. GC_continue_reclaim dp fuel i k s = Done s' () \<and> refilled s k i hs s'"
proof -
  from assms(2,3) have "GC_continue_reclaim dp fuel i k s = continue_loop dp fuel k i s"
    by (auto simp: GC_continue_reclaim_def run_steps awaiting_def kind_ok_def)
  with continue_loop_ok [OF assms] show ?thesis by metis
qed

end
