(* ===== verification/Gc_New_Block.thy ===== *)
theory Gc_New_Block
  imports Gc_Refill
begin

text \<open>
  \<open>GC_new_hblk\<close> of \<open>new_hblk.c\<close>: a block is allocated, carved up into objects, and these are put in front of a free list.
\<close>

section \<open>The objects of a new block\<close>

text \<open>
  The list in the memory \<open>m'\<close> from \<open>first\<close> on: the objects of block \<open>h\<close>, the last one first, then \<open>xs\<close>. Only the block has changed; if
  \<open>clear\<close> holds its objects are zero apart from their links.
\<close>

definition block_objects :: "hblk \<Rightarrow> nat \<Rightarrow> addr list" where
  "block_objects h S = map (object_at h S) [0..<HBLK_OBJS S]"

definition extended :: "bool \<Rightarrow> nat \<Rightarrow> hblk \<Rightarrow> addr list \<Rightarrow> (addr \<Rightarrow> nat) \<Rightarrow> (addr \<Rightarrow> nat) \<Rightarrow> addr \<Rightarrow> bool" where
  "extended clear S h xs m m' first \<longleftrightarrow>
     chain m' first (rev (block_objects h S) @ xs) 0 \<and> (\<forall>a. a div HBLKSIZE \<noteq> h \<longrightarrow> m' a = m a) \<and>
     (\<forall>x \<in> set (block_objects h S). \<forall>a. x < a \<longrightarrow> a < x + S \<longrightarrow> 8 dvd a \<longrightarrow> m' a = (if clear then 0 else m a))"

lemma carved_link:
  assumes "small_size S" and "j < HBLK_OBJS S"
  shows "carved clear S h list m (object_at h S j) = (if j = 0 then list else object_at h S (j - 1))"
proof (cases j)
  case (Suc i)
  have "object_at h S j < object_at h S (HBLK_OBJS S)" "h * HBLKSIZE < object_at h S j"
    using object_less [OF small_sizeD(1) [OF assms(1)] assms(2), of h] small_sizeD(1) [OF assms(1)] Suc by (simp_all add: object_at_def)
  moreover have "S dvd object_at h S j - h * HBLKSIZE" "object_at h S j - S = object_at h S i" using Suc by (simp_all add: object_at_def)
  ultimately show ?thesis using object_in_block(3) [OF assms] Suc by (simp add: carved_def linked_def)
qed (simp add: carved_def object_at_def)

lemma carved_outside:
  assumes "small_size S" and "a div HBLKSIZE \<noteq> h"
  shows "carved clear S h list m a = m a"
proof -
  have "object_at h S (HBLK_OBJS S) \<le> h * HBLKSIZE + HBLKSIZE" using small_sizeD(6) [OF assms(1)] by (simp add: object_at_def HBLKSIZE_def)
  moreover have "\<not> (h * HBLKSIZE \<le> a \<and> a < h * HBLKSIZE + HBLKSIZE)"
  proof
    assume "h * HBLKSIZE \<le> a \<and> a < h * HBLKSIZE + HBLKSIZE"
    then have "a div HBLKSIZE = h" unfolding HBLKSIZE_def by (intro div_nat_eqI) (simp_all add: mult.commute)
    with assms(2) show False by simp
  qed
  ultimately show ?thesis by (auto simp: carved_def linked_def HBLKSIZE_def)
qed

lemma carved_inside:
  assumes "small_size S" and "j < HBLK_OBJS S" and "object_at h S j < a" and "a < object_at h S j + S" and "8 dvd a"
  shows "carved clear S h list m a = (if clear then 0 else m a)"
proof -
  note o = object_in_block [OF assms(1,2), of h]
  have "\<not> S dvd a - h * HBLKSIZE"
  proof
    assume "S dvd a - h * HBLKSIZE"
    then obtain c where "a - h * HBLKSIZE = S * c" by (rule dvdE)
    then have c: "a = object_at h S c" using assms(3) o(1) by (simp add: object_at_def mult.commute)
    have "j < c" using assms(3) unfolding c by (simp add: object_at_def)
    from object_less [OF small_sizeD(1) [OF assms(1)] this, of h] assms(4) show False unfolding c by simp
  qed
  with assms(3-5) o show ?thesis by (auto simp: carved_def linked_def)
qed

lemma carved_chain:
  assumes "small_size S" and "0 < h" and "j < HBLK_OBJS S"
  shows "chain (carved clear S h list m) (object_at h S j) (rev (map (object_at h S) [0..<Suc j])) list"
  using assms(3)
proof (induction j)
  case 0
  then show ?case using carved_link [OF assms(1) 0] assms(2) by (simp add: object_at_def HBLKSIZE_def)
next
  case (Suc j)
  then have "chain (carved clear S h list m) (object_at h S j) (rev (map (object_at h S) [0..<Suc j])) list" by simp
  moreover have "object_at h S (Suc j) \<noteq> 0" using assms(2) by (simp add: object_at_def HBLKSIZE_def)
  moreover have "carved clear S h list m (object_at h S (Suc j)) = object_at h S j" using carved_link [OF assms(1) Suc.prems] by simp
  ultimately show ?case by simp
qed

lemma carved_extended:
  assumes "small_size S" and "0 < h" and "chain m list xs 0" and "\<forall>x \<in> set xs. x div HBLKSIZE \<noteq> h"
  shows "extended clear S h xs m (carved clear S h list m) (object_at h S (HBLK_OBJS S - 1))"
proof -
  let ?m = "carved clear S h list m"
  have pos: "0 < HBLK_OBJS S" by (rule small_sizeD(5) [OF assms(1)])
  have "chain ?m (object_at h S (HBLK_OBJS S - 1)) (rev (block_objects h S)) list"
    using carved_chain [OF assms(1,2), of "HBLK_OBJS S - 1"] pos by (simp add: block_objects_def)
  moreover have "chain ?m list xs 0"
    using assms(3,4) carved_outside [OF assms(1)] chain_frame [of xs ?m m] by metis
  ultimately show ?thesis
    using carved_outside [OF assms(1)] carved_inside [OF assms(1)] unfolding extended_def
    by (auto simp: block_objects_def intro: chain_join)
qed

section \<open>GC_new_hblk\<close>

definition adds_block :: "sweep_state \<Rightarrow> nat \<Rightarrow> nat \<Rightarrow> addr list \<Rightarrow> sweep_state \<Rightarrow> bool" where
  "adds_block s k i xs s' \<longleftrightarrow> (\<exists>h d. used s h = None \<and> used s' h = Some d \<and> hb_sz d = 16 * i \<and> hb_obj_kind d = k mod 256 \<and>
     h \<in> free_cells (heap_map s) \<and> mem_mapped (sw_heap s') h \<and> extended (clears_objects s k) (16 * i) h xs (sw_mem s) (sw_mem s') (free_list s' k i) \<and>
     (IS_UNCOLLECTABLE k \<longrightarrow> (\<forall>j < HBLK_OBJS (16 * i). hb_marks d (j * MARK_BIT_OFFSET (16 * i)))) \<and>
     (\<forall>j l. (j, l) \<noteq> (k, i) \<longrightarrow> free_list s' j l = free_list s j l))"

lemma free_block_size:
  assumes "heap_ok st" and "p \<in> free_cells (hdr_map st)"
  obtains h d where "hdr_map st h = Header d" and "HBLK_IS_FREE d" and "HBLKSIZE \<le> hb_sz d"
proof -
  from assms(2) obtain h d where d: "hdr_map st h = Header d" "HBLK_IS_FREE d" by (auto simp: free_cells_def)
  from assms(1) obtain Ls where i: "blocks_inv st Ls {} {}" by (auto simp: heap_ok_def)
  have "0 < nblocks d" using nblocks_pos [OF layout_entry [OF blocks_invD(1) [OF i] d(1)]] .
  then have "HBLKSIZE * 1 \<le> HBLKSIZE * nblocks d" by (intro mult_le_mono2) simp
  then have "HBLKSIZE \<le> hb_sz d" using free_size [OF blocks_invD(1) [OF i] d] by simp
  with d that show ?thesis by blast
qed

text \<open>Everything after the allocation of the block.\<close>

lemma fill_block:
  assumes "heap_ok (sw_heap s)" and "heap_map s h = Header d" and "\<not> HBLK_IS_FREE d" and "hb_sz d = 16 * i" and "0 < i" and "i \<le> 128" and "kind_ok s k"
    and "chain (sw_mem s) (free_list s k i) xs 0" and "\<forall>x \<in> set xs. x div HBLKSIZE \<noteq> h"
  shows "\<exists>s' d'. andthen (if IS_UNCOLLECTABLE k then GC_set_hdr_marks h else ret ()) (\<lambda>_.
      andthen (get_fl k i) (\<lambda>fl. andthen (GC_build_fl h (GRANULES_TO_WORDS i) c fl) (\<lambda>fl. set_fl k i fl))) s = Done s' () \<and>
    heap_ok (sw_heap s') \<and> used s' = (used s)(h \<mapsto> d') \<and> hb_sz d' = hb_sz d \<and> hb_obj_kind d' = hb_obj_kind d \<and>
    (IS_UNCOLLECTABLE k \<longrightarrow> (\<forall>j < HBLK_OBJS (16 * i). hb_marks d' (j * MARK_BIT_OFFSET (16 * i)))) \<and>
    mem_mapped (sw_heap s') = mem_mapped (sw_heap s) \<and> free_cells (heap_map s') = free_cells (heap_map s) \<and> heap_cells (heap_map s') = heap_cells (heap_map s) \<and>
    extended c (16 * i) h xs (sw_mem s) (sw_mem s') (free_list s' k i) \<and> (\<forall>j l. (j, l) \<noteq> (k, i) \<longrightarrow> free_list s' j l = free_list s j l)"
proof -
  let ?d = "if IS_UNCOLLECTABLE k then all_marked d else d"
  let ?g = "(sw_heap s)\<lparr>hdr_map := (heap_map s)(h := Header ?d)\<rparr>"
  let ?s = "s\<lparr>sw_heap := ?g\<rparr>"
  note kind = assms(7) [unfolded kind_ok_def]
  have small: "small_size (16 * i)" by (rule small_size_granules(1) [OF assms(5,6)])
  have d': "hb_sz ?d = hb_sz d" "hb_flags ?d = hb_flags d" "hb_obj_kind ?d = hb_obj_kind d" by (simp_all add: all_marked_def)
  note upd = used_upd_ok [OF assms(1-3) d'(1,2) refl]
  have mark: "(if IS_UNCOLLECTABLE k then GC_set_hdr_marks h else ret ()) s = Done ?s ()"
    using set_hdr_marks_run [OF assms(2)] assms(2) by (simp add: ret_def fun_upd_idem)
  have words: "8 * GRANULES_TO_WORDS i = 16 * i" by (simp add: GRANULES_TO_WORDS_def push_bit_eq_mult)
  note blk = block_in_use [OF assms(1-3)]
  let ?first = "object_at h (16 * i) (HBLK_OBJS (16 * i) - 1)" and ?m = "carved c (16 * i) h (free_list s k i) (sw_mem s)"
  let ?s2 = "?s\<lparr>sw_mem := ?m, kinds_lists := with_free_lists s k ((ok_freelist (kinds_lists s ! k))[i := ?first])\<rparr>"
  have build: "GC_build_fl h (GRANULES_TO_WORDS i) c (free_list s k i) ?s = Done (?s\<lparr>sw_mem := ?m\<rparr>) ?first"
    using build_fl_run [of ?s h "GRANULES_TO_WORDS i" c] blk(1) small unfolding words by simp
  have "free_list ?s k i = free_list s k i" by (simp add: free_list_def)
  then have run: "andthen (if IS_UNCOLLECTABLE k then GC_set_hdr_marks h else ret ()) (\<lambda>_.
      andthen (get_fl k i) (\<lambda>fl. andthen (GC_build_fl h (GRANULES_TO_WORDS i) c fl) (\<lambda>fl. set_fl k i fl))) s = Done ?s2 ()"
    unfolding andthen_run [of "if IS_UNCOLLECTABLE k then GC_set_hdr_marks h else ret ()", OF mark]
    using kind assms(6) build by (simp add: get_fl_run andthen_run [of "GC_build_fl _ _ _ _"] set_fl_run)
  have marks: "hb_marks ?d (j * MARK_BIT_OFFSET (16 * i))" if "IS_UNCOLLECTABLE k" "j < HBLK_OBJS (16 * i)" for j
    using all_marked_objects [of d j] small assms(4) that by simp
  have cells: "heap_cells ((heap_map s)(h := Header ?d)) = heap_cells (heap_map s)"
  proof -
    have "region h ?d = region h d" using d'(1) by (simp add: region_def)
    then have "(\<exists>e. ((heap_map s)(h := Header ?d)) q = Header e \<and> p \<in> region q e) = (\<exists>e. heap_map s q = Header e \<and> p \<in> region q e)" for p q
      using assms(2) by (cases "q = h") auto
    then show ?thesis by (simp add: heap_cells_def)
  qed
  have first: "free_list ?s2 k i = ?first" using kind assms(6) by (simp add: free_list_def)
  have lists: "free_list ?s2 j l = free_list s j l" if "(j, l) \<noteq> (k, i)" for j l
    using that kind by (cases "j = k") (auto simp: free_list_def)
  have ext: "extended c (16 * i) h xs (sw_mem s) ?m ?first" by (rule carved_extended [OF small blk(2) assms(8,9)])
  show ?thesis
    using run upd d' marks cells first lists ext
    by (intro exI [of _ ?s2] exI [of _ "?d\<lparr>hb_next := None, hb_prev := None\<rparr>"]) simp
qed

lemma new_hblk_ok:
  assumes "heap_ok (sw_heap s)" and "supplied (sw_heap s)" and "card (free_cells (heap_map s)) \<le> fuel" and "kind_ok s k" and "0 < i" and "i \<le> 128"
    and "chain (sw_mem s) (free_list s k i) xs 0" and "\<forall>x \<in> set xs. x div HBLKSIZE \<notin> free_cells (heap_map s)"
  shows "\<exists>s'. GC_new_hblk fuel policy i k s = Done s' () \<and> heap_ok (sw_heap s') \<and> used s \<subseteq>\<^sub>m used s' \<and>
    heap_cells (heap_map s') = heap_cells (heap_map s) \<and>
    (if free_cells (heap_map s) \<noteq> {} \<and> use_more_heap policy \<and> (IS_UNCOLLECTABLE k \<or> k = PTRFREE) then adds_block s k i xs s'
     else adds_block s k i xs s' \<or> sw_mem s' = sw_mem s \<and> kinds_lists s' = kinds_lists s)"
proof -
  let ?p = "policy\<lparr>GC_large_allocd_bytes := GC_large_bytes s\<rparr>" and ?sz = "16 * i"
  note kind = assms(4) [unfolded kind_ok_def]
  have k: "k < length (GC_obj_kinds (sw_heap s))" using kind by simp
  have plain: "plain_flags 0" by (simp add: plain_flags_def)
  have sz: "0 < ?sz" "?sz < 2 ^ 64" "GRANULES_TO_BYTES i = ?sz" using assms(5,6) by (simp_all add: GRANULES_TO_BYTES_def push_bit_eq_mult)
  obtain g r where r: "GC_allochblk fuel ?p ?sz k 0 (sw_heap s) = Done g r" "heap_ok g" "takes (sw_heap s) g"
    "\<forall>h. r = Some h \<longrightarrow> returns_block (sw_heap s) g ?sz k h"
    using allochblk_heap [OF assms(1-3) k plain sz(1,2), of ?p] by blast
  have succeeds: "r \<noteq> None" if "free_cells (heap_map s) \<noteq> {}" "use_more_heap policy" "IS_UNCOLLECTABLE k \<or> k = PTRFREE"
  proof -
    from that(1) obtain p where "p \<in> free_cells (heap_map s)" by blast
    with free_block_size [OF assms(1)] obtain h d where d: "heap_map s h = Header d" "HBLK_IS_FREE d" "HBLKSIZE \<le> hb_sz d" by blast
    have le: "?sz \<le> hb_sz d" "IS_UNCOLLECTABLE k \<or> k = PTRFREE \<and> ?sz \<le> MAX_BLACK_LIST_ALLOC" "use_more_heap ?p"
      using d(3) assms(6) that by (auto simp: HBLKSIZE_def MAX_BLACK_LIST_ALLOC_def)
    from allochblk_finds [OF assms(1-3) k plain sz(1) le(3,2) d(1,2) le(1)] r(1) show ?thesis by auto
  qed
  have kinds: "GC_obj_kinds g = GC_obj_kinds (sw_heap s)" by (rule takes_kinds [OF r(3)])
  have start: "GC_new_hblk fuel policy i k s = (case r of None \<Rightarrow> ret ()
      | Some h \<Rightarrow> andthen (if IS_UNCOLLECTABLE k then GC_set_hdr_marks h else ret ()) (\<lambda>_.
          andthen (get_fl k i) (\<lambda>fl. andthen (GC_build_fl h (GRANULES_TO_WORDS i) (clears_objects s k) fl) (\<lambda>fl. set_fl k i fl)))) (s\<lparr>sw_heap := g\<rparr>)"
    using kind r(1) unfolding GC_new_hblk_def sz(3) clears_objects_def
    by (simp add: andthen_get_kind andthen_reads Let_def andthen_run [of "on_heap (GC_allochblk _ _ _ _ _)"])
  show ?thesis
  proof (cases r)
    case None
    with start succeeds r(2,3) show ?thesis by (intro exI [of _ "s\<lparr>sw_heap := g\<rparr>"]) (auto simp: ret_def takes_def)
  next
    case (Some h)
    let ?s = "s\<lparr>sw_heap := g\<rparr>"
    obtain x where x: "used s h = None" "used_at (hdr_map g) h = Some x" "hb_sz x = ?sz" "hb_obj_kind x = k mod 256"
      using r(4) Some by (auto simp: returns_block_def)
    obtain d where d: "hdr_map g h = Header d" "\<not> HBLK_IS_FREE d" "x = d\<lparr>hb_next := None, hb_prev := None\<rparr>" by (rule used_header [OF x(2)])
    from assms(1) r(2) obtain Ls Ls' where i: "blocks_inv (sw_heap s) Ls {} {}" "blocks_inv g Ls' {} {}" by (auto simp: heap_ok_def)
    have "h \<in> region h x" using region_start [OF layout_entry [OF blocks_invD(1) [OF i(2)] d(1)]] d(3) by (simp add: region_def)
    with returned_region [OF i r(3) x(1,2)] have h: "h \<in> free_cells (heap_map s)" "mem_mapped g h" by auto
    have old: "\<forall>q \<in> set xs. q div HBLKSIZE \<noteq> h" using assms(8) h(1) by auto
    have fl: "free_list ?s k i = free_list s k i" for k i by (simp add: free_list_def)
    have k2: "kind_ok ?s k" using kind kinds by (simp add: kind_ok_def)
    have pre: "heap_ok (sw_heap ?s)" "heap_map ?s h = Header d" "hb_sz d = ?sz" "chain (sw_mem ?s) (free_list ?s k i) xs 0"
      using r(2) d x(3) assms(7) fl by simp_all
    obtain s' d' where s': "GC_new_hblk fuel policy i k s = Done s' ()" "heap_ok (sw_heap s')" "used s' = (used ?s)(h \<mapsto> d')"
      "hb_sz d' = hb_sz d" "hb_obj_kind d' = hb_obj_kind d"
      "IS_UNCOLLECTABLE k \<longrightarrow> (\<forall>j < HBLK_OBJS ?sz. hb_marks d' (j * MARK_BIT_OFFSET ?sz))" "mem_mapped (sw_heap s') = mem_mapped g"
      "heap_cells (heap_map s') = heap_cells (hdr_map g)" "extended (clears_objects s k) ?sz h xs (sw_mem s) (sw_mem s') (free_list s' k i)"
      "\<forall>j l. (j, l) \<noteq> (k, i) \<longrightarrow> free_list s' j l = free_list s j l"
      using fill_block [OF pre(1,2) d(2) pre(3) assms(5,6) k2 pre(4) old, of "clears_objects s k"] start Some fl by auto
    have "adds_block s k i xs s'" unfolding adds_block_def
      using x d(3) h s'(3-7,9,10) by (intro exI [of _ h] exI [of _ d']) simp
    moreover have "used s \<subseteq>\<^sub>m used s'" using r(3) x(1) unfolding s'(3) takes_def map_le_def by auto
    moreover have "heap_cells (heap_map s') = heap_cells (heap_map s)" using s'(8) r(3) by (simp add: takes_def)
    ultimately show ?thesis using s'(1,2) by (intro exI [of _ s']) simp
  qed
qed

end
