(* ===== verification/Gc_Clearing.thy ===== *)
theory Gc_Clearing
  imports Gc_Reclaim
begin

text \<open>Clearing the mark bits of all blocks in use, before a collection: \<open>clear_marks_for_block\<close> of \<open>mark.c\<close>.\<close>

text \<open>The sentinel bit behind the last object stays set. Uncollectable objects stay marked.\<close>

definition cleared :: "hdr \<Rightarrow> hdr" where
  "cleared d = (if IS_UNCOLLECTABLE (hb_obj_kind d) then d else d\<lparr>hb_marks := (\<lambda>i. i = FINAL_MARK_BIT (hb_sz d)), hb_n_marks := 0\<rparr>)"

definition with_cleared :: "hblk set \<Rightarrow> sweep_state \<Rightarrow> sweep_state" where
  "with_cleared D s = s\<lparr>sw_heap := (sw_heap s)\<lparr>hdr_map := (\<lambda>h.
     if h \<in> D then (case heap_map s h of Header d \<Rightarrow> Header (cleared d) | Jump j \<Rightarrow> Jump j) else heap_map s h)\<rparr>\<rparr>"

lemma cleared_fields: "hb_sz (cleared d) = hb_sz d" "hb_flags (cleared d) = hb_flags d" "hb_obj_kind (cleared d) = hb_obj_kind d"
  by (simp_all add: cleared_def)

lemma clear_marks_run:
  assumes "heap_map s h = Header d"
  shows "clear_marks_for_block h s = Done (s\<lparr>sw_heap := (sw_heap s)\<lparr>hdr_map := (heap_map s)(h := Header (cleared d))\<rparr>\<rparr>) ()"
  using assms by (simp add: clear_marks_for_block_def run_steps ret_def GC_clear_hdr_marks_def upd_hdr_def cleared_def fun_upd_idem)

lemma with_cleared_insert:
  assumes "heap_map s h = Header d" and "h \<notin> D"
  shows "with_cleared (insert h D) s = (with_cleared D s)\<lparr>sw_heap := (sw_heap (with_cleared D s))\<lparr>hdr_map := (heap_map (with_cleared D s))(h := Header (cleared d))\<rparr>\<rparr>"
  using assms by (auto simp: with_cleared_def fun_eq_iff intro!: arg_cong [where f = "\<lambda>m. s\<lparr>sw_heap := (sw_heap s)\<lparr>hdr_map := m\<rparr>\<rparr>"])

definition clearing :: "sweep_state \<Rightarrow> hblk set \<Rightarrow> sweep_state \<Rightarrow> bool" where
  "clearing s0 D s \<longleftrightarrow> s = with_cleared D s0 \<and> heap_ok (sw_heap s) \<and> D \<subseteq> dom (used s0) \<and> free_cells (heap_map s) = free_cells (heap_map s0)"

lemma clearing_step:
  assumes "clearing s0 D s" and "h \<in> dom (used s0)" and "h \<notin> D"
  shows "\<exists>s'. clear_marks_for_block h s = Done s' () \<and> clearing s0 (insert h D) s'"
proof -
  from assms(2) obtain x where "used s0 h = Some x" by blast
  then obtain d where d: "heap_map s0 h = Header d" "\<not> HBLK_IS_FREE d" by (rule used_header)
  let ?s = "s\<lparr>sw_heap := (sw_heap s)\<lparr>hdr_map := (heap_map s)(h := Header (cleared d))\<rparr>\<rparr>"
  have s: "s = with_cleared D s0" "heap_ok (sw_heap s)" "D \<subseteq> dom (used s0)" "free_cells (heap_map s) = free_cells (heap_map s0)"
    using assms(1) unfolding clearing_def by blast+
  have here: "heap_map s h = Header d" using d(1) assms(3) by (simp add: s(1) with_cleared_def)
  note upd = used_upd_ok [OF s(2) here d(2) cleared_fields(1,2) refl]
  have eq: "?s = with_cleared (insert h D) s0" unfolding s(1) by (rule with_cleared_insert [OF d(1) assms(3), symmetric])
  have ok: "heap_ok (sw_heap ?s)" "free_cells (heap_map ?s) = free_cells (heap_map s0)" using upd(1,2) s(4) by simp_all
  have "clearing s0 (insert h D) ?s" unfolding clearing_def using eq ok s(3) assms(2) by blast
  with clear_marks_run [OF here] show ?thesis by blast
qed

interpretation clearing: block_visitor clear_marks_for_block "dom (used s0)" "clearing s0" "bottom_indices (sw_heap s0)" for s0
proof (unfold_locales, goal_cases)
  case (1 D s h)
  then show ?case by (intro clearing_step)
next
  case (2 D s)
  then have s: "s = with_cleared D s0" "heap_ok (sw_heap s)" unfolding clearing_def by blast+
  then obtain Ls where "blocks_inv (sw_heap s) Ls {} {}" unfolding heap_ok_def by blast
  moreover have "bottom_indices (sw_heap s) = bottom_indices (sw_heap s0)" by (simp add: s(1) with_cleared_def)
  ultimately show ?case using blocks_invD(1,2) by blast
next
  case (3 D s h)
  then have same: "heap_map s h = heap_map s0 h" by (simp add: clearing_def with_cleared_def)
  show ?case unfolding same by (auto simp: used_at_def bare_def HBLK_IS_FREE_def split: hdr_entry.splits if_splits)
qed

lemma clear_all_marks:
  assumes "heap_ok (sw_heap s)" and "length (bottom_indices (sw_heap s)) \<le> fuel"
  shows "GC_apply_to_all_blocks fuel clear_marks_for_block s = Done (with_cleared (dom (used s)) s) ()" and "heap_ok (sw_heap (with_cleared (dom (used s)) s))"
proof -
  have "with_cleared {} s = s" by (simp add: with_cleared_def)
  then have "clearing s {} s" using assms(1) by (simp add: clearing_def)
  from clearing.apply_to_all_blocks_ok [OF this assms(2)]
  show "GC_apply_to_all_blocks fuel clear_marks_for_block s = Done (with_cleared (dom (used s)) s) ()"
    "heap_ok (sw_heap (with_cleared (dom (used s)) s))" by (auto simp: clearing_def)
qed

end
