(* ===== verification/Gc_Collection.thy ===== *)
theory Gc_Collection
  imports Gc_Properties Gc_New_Block Gc_Clearing
begin

text \<open>
  What sweeping guarantees: garbage blocks are freed and nothing else, the other blocks wait to be swept object by object, and free lists are
  refilled with objects that nothing refers to.
\<close>

section \<open>A sweep followed by a refill\<close>

lemma spec_heap:
  assumes "sw_heap s2 = sw_heap s"
  shows "queued s2 = queued s" and "dead s2 = dead s" and "freed_bytes s2 = freed_bytes s" and "kept_bytes b s2 = kept_bytes b s"
  using assms by (simp_all add: fun_eq_iff queued_def dead_def freed_bytes_def kept_bytes_def)

lemma lists_after_kind:
  assumes "lists_after s0 D s" and "k < length (kinds_lists s0)" and "kinds_lists s0 = map reset_lists kl"
  shows "case ok_reclaim_list (kl ! k) of
      None \<Rightarrow> kinds_lists s ! k = kl ! k
    | Some _ \<Rightarrow> ok_freelist (kinds_lists s ! k) = replicate 129 0 \<and>
        (\<exists>rl. ok_reclaim_list (kinds_lists s ! k) = Some rl \<and> length rl = 129 \<and> (\<forall>i < 129. waiting (heap_map s) (rl ! i) {h \<in> D. queued s0 k i h}))"
proof -
  have k0: "kinds_lists s0 ! k = reset_lists (kl ! k)" using assms(2,3) by simp
  show ?thesis
  proof (cases "ok_reclaim_list (kl ! k)")
    case None
    then have "kinds_lists s0 ! k = kl ! k" "ok_reclaim_list (kinds_lists s0 ! k) = None" using k0 by (simp_all add: reset_lists_def)
    with None show ?thesis by (auto intro: lists_afterE [OF assms(1,2)])
  next
    case (Some rl)
    then have k1: "kinds_lists s0 ! k = (kl ! k)\<lparr>ok_freelist := replicate 129 0, ok_reclaim_list := Some (replicate 129 None)\<rparr>"
      using k0 by (simp add: reset_lists_def)
    show ?thesis
      by (rule lists_afterE [OF assms(1,2)]) (auto simp: k1 Some)
  qed
qed

text \<open>A block that waits after the sweep, seen from the state before it.\<close>

definition sizes_ok :: "sweep_state \<Rightarrow> bool" where
  "sizes_ok s \<longleftrightarrow> (\<forall>h d. used s h = Some d \<longrightarrow> hb_sz d \<le> MAXOBJBYTES \<longrightarrow> small_size (hb_sz d))"

lemma queued_size:
  assumes "sizes_ok s" and "queued s k i h"
  obtains x where "used s h = Some x" and "hb_sz x = 16 * i" and "hb_obj_kind x = k" and "0 < i" and "i \<le> 128"
proof -
  from assms(2) obtain x where x: "used s h = Some x" "waits (sw_heap s) x" "hb_obj_kind x = k" "BYTES_TO_GRANULES (hb_sz x) = i"
    by (auto simp: queued_def)
  with assms(1) have "small_size (hb_sz x)" by (simp add: sizes_ok_def waits_def)
  note sz = small_sizeD [OF this]
  from sz(2) obtain g where "hb_sz x = 16 * g" by (rule dvdE)
  with x(4) have "hb_sz x = 16 * i" by (simp add: BYTES_TO_GRANULES_def drop_bit_eq_div)
  with x(1,3) sz(1,4) that show ?thesis by simp
qed

lemma swept_awaiting:
  assumes "swept s0 (dom (used s0)) s" and "sweepable s0" and "sizes_ok s0" and "k < length (kinds_lists s0)" and "i < 129"
    and "ok_reclaim_list (kinds_lists s0 ! k) \<noteq> None"
  shows "\<exists>hs. awaiting s k i hs \<and> set hs = {h. queued s0 k i h}"
proof -
  note sw = swept_fields [OF assms(1)]
  have set: "{h \<in> dom (used s0). queued s0 k i h} = {h. queued s0 k i h}" by (auto simp: queued_def)
  obtain rl where rl: "ok_reclaim_list (kinds_lists s ! k) = Some rl" "length rl = 129" "waiting (heap_map s) (rl ! i) {h. queued s0 k i h}"
    using lists_afterE [OF sw(12) assms(4)] assms(5,6) unfolding set [symmetric] by force
  then obtain hs where hs: "block_chain (heap_map s) (rl ! i) hs" "distinct hs" "set hs = {h. queued s0 k i h}" by (auto simp: waiting_def)
  have "holds_objects s k i h" if "h \<in> set hs" for h
  proof -
    have q: "queued s0 k i h" using that hs(3) by simp
    obtain x where x: "used s0 h = Some x" "hb_sz x = 16 * i" "hb_obj_kind x = k" "0 < i" "i \<le> 128" by (rule queued_size [OF assms(3) q])
    obtain d where d: "heap_map s h = Header d" "\<not> HBLK_IS_FREE d" "x = d\<lparr>hb_next := None, hb_prev := None\<rparr>"
      using swept_header [OF assms(1) x(1)] queued_alive [OF q] by blast
    have "and (hb_flags x) HAS_DISCLAIM = 0" using assms(2) x(1) by (simp add: sweepable_def)
    with d x(2,3) show ?thesis by (simp add: holds_objects_def)
  qed
  with hs rl(1,2) show ?thesis unfolding awaiting_def by blast
qed

lemma swept_objects:
  assumes "swept s0 D s" and "used s0 h = Some x" and "\<not> dead s0 h"
  shows "objects_of s h = free_objects h x"
proof -
  obtain d where "heap_map s h = Header d" "\<not> HBLK_IS_FREE d" "x = d\<lparr>hb_next := None, hb_prev := None\<rparr>"
    using swept_header [OF assms(1,2)] assms(3) by blast
  then show ?thesis by (simp add: objects_of_def free_objects_def)
qed

lemma objects_next_member:
  assumes "h \<in> set hs" and "objects_of s h \<noteq> []"
  obtains g where "g \<in> set hs" and "objects_next s hs = objects_of s g" and "objects_of s g \<noteq> []"
proof -
  let ?D = "dropWhile (\<lambda>h. objects_of s h = []) hs"
  have "?D \<noteq> []" using assms by (auto simp: dropWhile_eq_Nil_conv)
  then obtain g gs where g: "?D = g # gs" by (cases ?D) auto
  then have "objects_of s g \<noteq> []" using hd_dropWhile [of "\<lambda>h. objects_of s h = []" hs] by auto
  moreover have "g \<in> set hs" using g set_dropWhileD [of g "\<lambda>h. objects_of s h = []" hs] by simp
  ultimately show ?thesis using g that by (simp add: objects_next_def)
qed

lemma block_count:
  assumes "heap_ok (sw_heap s)" and "distinct hs" and "set hs \<subseteq> dom (used s)"
  shows "length hs < 2 ^ 52 + 1"
proof -
  have "card (set hs) \<le> card {..<2 ^ 52 :: nat}" using used_below [OF assms(1)] assms(3) by (intro card_mono) auto
  with distinct_card [OF assms(2)] show ?thesis by simp
qed

lemma swept_kind_ok:
  assumes "sweepable s" and "swept s2 D s'" and "sw_heap s2 = sw_heap s" and "kinds_lists s2 = map reset_lists (kinds_lists s)"
    and "k < length (kinds_lists s)" and "ok_reclaim_list (kinds_lists s ! k) \<noteq> None" and "i < 129"
  shows "kind_ok s' k" and "free_list s' k i = 0" and "ok_init (kinds_lists s' ! k) = ok_init (kinds_lists s ! k)"
proof -
  note sw = swept_fields [OF assms(2)]
  have kinds: "GC_obj_kinds (sw_heap s') = GC_obj_kinds (sw_heap s)" using arg_cong [OF sw(3), of GC_obj_kinds] assms(3) by (simp add: elsewhere_def)
  have len: "length (kinds_lists s') = length (kinds_lists s)" using sw(12) assms(4) by (simp add: lists_after_def)
  have k2: "k < length (kinds_lists s2)" using assms(4,5) by simp
  have fl: "ok_freelist (kinds_lists s' ! k) = replicate 129 0"
    using lists_after_kind [OF sw(12) k2 assms(4)] assms(6) by auto
  show "kind_ok s' k" using assms(1,5) kinds len fl by (simp add: kind_ok_def sweepable_def)
  show "free_list s' k i = 0" using fl assms(7) by (simp add: free_list_def)
  have "ok_init (kinds_lists s2 ! k) = ok_init (kinds_lists s ! k)" using assms(4,5) by (simp add: reset_lists_def)
  then show "ok_init (kinds_lists s' ! k) = ok_init (kinds_lists s ! k)"
    by (auto intro: lists_afterE [OF sw(12) k2])
qed

lemma sweep_refills:
  assumes "sweepable s" and "sizes_ok s" and "free_lists_ok fuel s" and "length (bottom_indices (sw_heap s)) \<le> fuel" and "2 ^ 52 < bound"
    and "k < length (kinds_lists s)" and "ok_reclaim_list (kinds_lists s ! k) \<noteq> None" and "queued s k i h" and "used s h = Some d"
    and "free_objects h d \<noteq> []"
  shows "\<exists>s' g e xs. andthen (GC_start_reclaim dp fuel False) (\<lambda>_. GC_continue_reclaim dp bound i k) s = Done s' () \<and> heap_ok (sw_heap s') \<and>
    queued s k i g \<and> used s g = Some e \<and> xs \<noteq> [] \<and> chain (sw_mem s') (free_list s' k i) xs 0 \<and> set xs = set (free_objects g e)"
proof -
  obtain m s1 s2 where s1: "GC_start_reclaim dp fuel False s = Done s1 ()"
    "s2 = s\<lparr>GC_composite_in_use := 0, GC_atomic_in_use := 0, sw_mem := m, kinds_lists := map reset_lists (kinds_lists s)\<rparr>"
    "swept s2 (dom (used s)) s1"
    using start_reclaim_ok [OF assms(1,3,4), of dp] by blast
  have heap: "sw_heap s2 = sw_heap s" "kinds_lists s2 = map reset_lists (kinds_lists s)" using s1(2) by simp_all
  have sw: "swept s2 (dom (used s2)) s1" using s1(3) heap(1) by simp
  note spec = spec_heap [OF heap(1)]
  have s2: "sweepable s2" using assms(1) reset_shape heap by (auto simp: sweepable_def)
  have sz: "sizes_ok s2" using assms(2) heap(1) by (simp add: sizes_ok_def)
  have i: "0 < i" "i \<le> 128" using queued_size [OF assms(2,8)] by blast+
  have k2: "k < length (kinds_lists s2)" "ok_reclaim_list (kinds_lists s2 ! k) \<noteq> None"
    using assms(6,7) heap(2) by (simp_all add: reset_lists_def)
  have i129: "i < 129" using i(2) by simp
  obtain hs where hs: "awaiting s1 k i hs" "set hs = {h. queued s k i h}"
    using swept_awaiting [OF sw s2 sz k2(1) i129 k2(2)] unfolding spec(1) by blast
  note kind = swept_kind_ok [OF assms(1) sw heap assms(6,7) i129]
  have ok: "heap_ok (sw_heap s1)" "heap_ok (sw_heap s)" using swept_fields(2) [OF sw] assms(1) by (simp_all add: sweepable_def)
  have "set hs \<subseteq> dom (used s)" using hs(2) by (auto simp: queued_def)
  then have len: "length hs < bound" using block_count [OF ok(2), of hs] hs(1) assms(5) by (simp add: awaiting_def)
  obtain s' where s': "GC_continue_reclaim dp bound i k s1 = Done s' ()" "refilled s1 k i hs s'"
    using continue_reclaim_ok [OF ok(1) hs(1) kind(1,2) i len] by blast
  have objs: "objects_of s1 q = free_objects q x" if "queued s k i q" "used s q = Some x" for q x
    using swept_objects [OF sw, of q x] that queued_alive [OF that(1)] heap(1) spec(2) by simp
  have "h \<in> set hs" "objects_of s1 h \<noteq> []" using hs(2) assms(8,10) objs [OF assms(8,9)] by simp_all
  then obtain g where g: "g \<in> set hs" "objects_next s1 hs = objects_of s1 g" "objects_of s1 g \<noteq> []" by (rule objects_next_member)
  then have q: "queued s k i g" using hs(2) by simp
  then obtain e where e: "used s g = Some e" by (auto simp: queued_def)
  have "chain (sw_mem s') (free_list s' k i) (rev (free_objects g e)) 0" "free_objects g e \<noteq> []" "heap_ok (sw_heap s')"
    using s'(2) g(2,3) objs [OF q e] by (simp_all add: refilled_def reclaimed_def same_blocks_def)
  with s1(1) s'(1) q e show ?thesis
    by (intro exI [of _ s'] exI [of _ g] exI [of _ e] exI [of _ "rev (free_objects g e)"]) (simp add: andthen_run [of "GC_start_reclaim _ _ _"])
qed

section \<open>Starting a sweep\<close>

text \<open>A small state: four kinds of objects, all lists empty.\<close>

definition sweep_start :: "gc_state \<Rightarrow> sweep_state" where
  "sweep_start g = \<lparr>sw_heap = g, sw_mem = (\<lambda>_. 0),
     kinds_lists = replicate 4 \<lparr>ok_freelist = replicate 129 0, ok_reclaim_list = Some (replicate 129 None), ok_init = True\<rparr>,
     GC_bytes_found = 0, GC_composite_in_use = 0, GC_atomic_in_use = 0, GC_large_bytes = 0, GC_leaked = [], GC_smashed = [], GC_n_smashed = 0,
     GC_have_errors = False, GC_debugging_started = False, GC_findleak_delay_free = False\<rparr>"

lemma sweep_start_fields [simp]:
  "sw_heap (sweep_start g) = g" "sw_mem (sweep_start g) = (\<lambda>_. 0)" "GC_bytes_found (sweep_start g) = 0"
  "kinds_lists (sweep_start g) = replicate 4 \<lparr>ok_freelist = replicate 129 0, ok_reclaim_list = Some (replicate 129 None), ok_init = True\<rparr>"
  by (simp_all add: sweep_start_def)

lemma sweep_start_lists: "free_lists_ok 1 (sweep_start g)"
  unfolding free_lists_ok_def by (auto simp: free_list_def intro!: exI [of _ "[]"])

lemma sweepable_single:
  assumes "0 < hb_sz d" and "hb_sz d \<le> HBLKSIZE" and "hb_flags d = 0" and "hb_obj_kind d < 4"
  shows "sweepable (sweep_start (single_block d))"
  using heap_ok_single_block(1,2) [OF assms(1-3)] assms(3,4)
  by (auto simp: sweepable_def single_block_fields gc_start_def split: if_splits)

text \<open>
  C14. Starting a sweep frees exactly the blocks without a marked object and keeps all others; their bytes are added to the bytes
  found and the bytes that stay in use are counted per kind of memory. All free lists become empty, and every block of small
  objects that is not nearly full waits, once, in the list for its kind and size. The invariant of the heap is kept.
\<close>

theorem GC_start_reclaim_frees:
  assumes "sweepable s" and "free_lists_ok fuel s" and "length (bottom_indices (sw_heap s)) \<le> fuel"
  shows "\<exists>s'. GC_start_reclaim dp fuel False s = Done s' () \<and> heap_ok (sw_heap s') \<and>
    used s' = (\<lambda>h. if dead s h then None else used s h) \<and>
    free_cells (heap_map s') = free_cells (heap_map s) \<union> {p. \<exists>h d. used s h = Some d \<and> garbage d \<and> p \<in> region h d} \<and>
    GC_bytes_found s' = GC_bytes_found s + int (\<Sum>h \<in> dom (used s). freed_bytes s h) \<and>
    GC_atomic_in_use s' = (\<Sum>h \<in> dom (used s). kept_bytes True s h) mod 2 ^ 64 \<and>
    GC_composite_in_use s' = (\<Sum>h \<in> dom (used s). kept_bytes False s h) mod 2 ^ 64 \<and>
    (\<forall>k < length (kinds_lists s). case ok_reclaim_list (kinds_lists s ! k) of
       None \<Rightarrow> kinds_lists s' ! k = kinds_lists s ! k
     | Some _ \<Rightarrow> ok_freelist (kinds_lists s' ! k) = replicate 129 0 \<and>
         (\<exists>rl. ok_reclaim_list (kinds_lists s' ! k) = Some rl \<and> (\<forall>i < 129. waiting (heap_map s') (rl ! i) {h. queued s k i h})))"
proof -
  obtain m s' s2 where r: "GC_start_reclaim dp fuel False s = Done s' ()"
    "s2 = s\<lparr>GC_composite_in_use := 0, GC_atomic_in_use := 0, sw_mem := m, kinds_lists := map reset_lists (kinds_lists s)\<rparr>"
    "swept s2 (dom (used s)) s'"
    using start_reclaim_ok [OF assms, of dp] by blast
  have s2: "sw_heap s2 = sw_heap s" "kinds_lists s2 = map reset_lists (kinds_lists s)" "GC_bytes_found s2 = GC_bytes_found s" using r(2) by simp_all
  note sw = swept_fields [OF r(3)] and spec = spec_heap [OF s2(1)]
  have lists: "case ok_reclaim_list (kinds_lists s ! k) of
       None \<Rightarrow> kinds_lists s' ! k = kinds_lists s ! k
     | Some _ \<Rightarrow> ok_freelist (kinds_lists s' ! k) = replicate 129 0 \<and>
         (\<exists>rl. ok_reclaim_list (kinds_lists s' ! k) = Some rl \<and> (\<forall>i < 129. waiting (heap_map s') (rl ! i) {h. queued s k i h}))"
    if "k < length (kinds_lists s)" for k
  proof -
    have "{h \<in> dom (used s). queued s k i h} = {h. queued s k i h}" for i by (auto simp: queued_def)
    then show ?thesis using lists_after_kind [OF sw(12) _ s2(2), of k] that s2(2) unfolding spec(1) by (auto split: option.splits)
  qed
  have "used s' = (\<lambda>h. if dead s h then None else used s h)"
    unfolding sw(6) spec s2(1) by (auto simp: dead_def fun_eq_iff)
  moreover have "free_cells (heap_map s') = free_cells (heap_map s) \<union> {p. \<exists>h d. used s h = Some d \<and> garbage d \<and> p \<in> region h d}"
    unfolding sw(7) s2(1) by auto
  ultimately show ?thesis using r(1) sw(2,9-11) lists unfolding spec s2 by blast
qed

theorem GC_start_reclaim_frees_witness:
  "\<exists>s'. GC_start_reclaim (\<lambda>_ _. ret False) 1 False (sweep_start one_block) = Done s' () \<and> free_cells (heap_map s') = {5} \<and> GC_bytes_found s' = 4096"
proof -
  let ?d = "zero_hdr\<lparr>hb_sz := HBLKSIZE\<rparr>" and ?s = "sweep_start one_block"
  have d: "0 < hb_sz ?d" "hb_sz ?d \<le> HBLKSIZE" "hb_flags ?d = 0" "hb_obj_kind ?d < 4" by (simp_all add: zero_hdr_def HBLKSIZE_def)
  note blk = heap_ok_single_block [OF d(1-3)]
  have u: "used ?s = [5 \<mapsto> ?d]" using blk(2) by (simp add: one_block_def zero_hdr_def)
  have g: "garbage ?d" "bytes_freed ?d = 4096" by (simp_all add: garbage_def bytes_freed_def zero_hdr_def MAXOBJBYTES_def HBLKSIZE_def)
  have "sweepable ?s" unfolding one_block_def by (rule sweepable_single [OF d])
  from GC_start_reclaim_frees [OF this sweep_start_lists, of "\<lambda>_ _. ret False"]
  obtain s' where s': "GC_start_reclaim (\<lambda>_ _. ret False) 1 False ?s = Done s' ()"
    "free_cells (heap_map s') = free_cells (heap_map ?s) \<union> {p. \<exists>h d. used ?s h = Some d \<and> garbage d \<and> p \<in> region h d}"
    "GC_bytes_found s' = GC_bytes_found ?s + int (\<Sum>h \<in> dom (used ?s). freed_bytes ?s h)"
    by (auto simp: one_block_def single_block_fields)
  have "{p. \<exists>h d. used ?s h = Some d \<and> garbage d \<and> p \<in> region h d} = {5}" using u g(1) blk(4) by (auto split: if_splits)
  moreover have "(\<Sum>h \<in> dom (used ?s). freed_bytes ?s h) = 4096" using u g(2) by (simp add: freed_bytes_def)
  moreover have "free_cells (heap_map ?s) = {}" using blk(3) by (simp add: one_block_def)
  ultimately have "free_cells (heap_map s') = {5}" "GC_bytes_found s' = 4096" using s'(2,3) by simp_all
  with s'(1) show ?thesis by blast
qed

section \<open>Finding objects\<close>

text \<open>A block of four objects, the first of which is marked.\<close>

definition mixed_hdr :: hdr where
  "mixed_hdr = zero_hdr\<lparr>hb_sz := 1024, hb_obj_kind := 1, hb_n_marks := 1, hb_marks := (\<lambda>i. i = 0)\<rparr>"

lemma mixed_hdr_fields:
  "hb_sz mixed_hdr = 1024" "hb_flags mixed_hdr = 0" "hb_obj_kind mixed_hdr = 1" "hb_next mixed_hdr = None"
  "mixed_hdr\<lparr>hb_next := None, hb_prev := None\<rparr> = mixed_hdr" "waits st mixed_hdr" "free_objects 5 mixed_hdr = [21504, 22528, 23552]"
  by (simp_all add: mixed_hdr_def zero_hdr_def waits_def MAXOBJBYTES_def HBLKSIZE_def GC_block_empty_def GC_block_nearly_full_def HBLK_OBJS_def
      free_objects_def unmarked_def object_at_def MARK_BIT_OFFSET_def BYTES_TO_GRANULES_def drop_bit_eq_div upt_rec)

definition mixed_block :: gc_state where
  "mixed_block = single_block mixed_hdr"

lemma mixed_block_used: "used (sweep_start mixed_block) = [5 \<mapsto> mixed_hdr]" "heap_ok mixed_block" "sweepable (sweep_start mixed_block)"
  "bottom_indices mixed_block = [0]" "hdr_map mixed_block 5 = Header mixed_hdr" "length (GC_obj_kinds mixed_block) = 4"
proof -
  have d: "0 < hb_sz mixed_hdr" "hb_sz mixed_hdr \<le> HBLKSIZE" "hb_flags mixed_hdr = 0" "hb_obj_kind mixed_hdr < 4"
    by (simp_all add: mixed_hdr_fields HBLKSIZE_def)
  show "used (sweep_start mixed_block) = [5 \<mapsto> mixed_hdr]" "heap_ok mixed_block" "sweepable (sweep_start mixed_block)"
    using heap_ok_single_block(1,2) [OF d(1-3)] sweepable_single [OF d] mixed_hdr_fields(5) by (simp_all add: mixed_block_def)
  show "bottom_indices mixed_block = [0]" "hdr_map mixed_block 5 = Header mixed_hdr" "length (GC_obj_kinds mixed_block) = 4"
    by (simp_all add: mixed_block_def single_block_fields gc_start_def)
qed

text \<open>
  C15. An empty free list is refilled from the waiting blocks: they are swept in order until one has an unmarked object. Then the list
  consists of exactly the unmarked objects of this block, cleared apart from their links if their kind asks for it; nothing else in memory
  and no other list changes, the bytes found are counted, and the rest of the blocks go on waiting. No block is freed.
\<close>

theorem GC_continue_reclaim_refills:
  assumes "heap_ok (sw_heap s)" and "kind_ok s k" and "awaiting s k i hs" and "free_list s k i = 0" and "0 < i" and "i \<le> 128" and "length hs < bound"
  shows "\<exists>s'. GC_continue_reclaim dp bound i k s = Done s' () \<and> heap_ok (sw_heap s') \<and> dom (used s') = dom (used s) \<and>
    free_cells (heap_map s') = free_cells (heap_map s) \<and> awaiting s' k i (left_waiting s hs) \<and>
    chain (sw_mem s') (free_list s' k i) (rev (objects_next s hs)) 0 \<and>
    (\<forall>a. (\<forall>x \<in> set (objects_next s hs). a < x \<or> x + 16 * i \<le> a) \<longrightarrow> sw_mem s' a = sw_mem s a) \<and>
    (\<forall>x \<in> set (objects_next s hs). \<forall>a. x < a \<longrightarrow> a < x + 16 * i \<longrightarrow> 8 dvd a \<longrightarrow> sw_mem s' a = (if clears_objects s k then 0 else sw_mem s a)) \<and>
    (\<forall>j l. (j, l) \<noteq> (k, i) \<longrightarrow> free_list s' j l = free_list s j l) \<and>
    GC_bytes_found s' = GC_bytes_found s + int (16 * i * length (objects_next s hs))"
proof -
  from continue_reclaim_ok [OF assms(1,3,2,4-7)] obtain s' where "GC_continue_reclaim dp bound i k s = Done s' ()" "refilled s k i hs s'" by blast
  then show ?thesis unfolding refilled_def reclaimed_def same_blocks_def by (intro exI [of _ s']) simp
qed

theorem GC_continue_reclaim_refills_witness:
  "\<exists>s s'. GC_continue_reclaim (\<lambda>_ _. ret False) 2 64 1 s = Done s' () \<and> chain (sw_mem s') (free_list s' 1 64) [23552, 22528, 21504] 0 \<and>
     GC_bytes_found s' = 3072"
proof -
  let ?KL = "(kinds_lists (sweep_start mixed_block))[1 := (kinds_lists (sweep_start mixed_block) ! 1)\<lparr>ok_reclaim_list := Some ((replicate 129 None)[64 := Some 5])\<rparr>]"
  let ?s = "(sweep_start mixed_block)\<lparr>kinds_lists := ?KL\<rparr>"
  have heap: "heap_ok (sw_heap ?s)" using mixed_block_used(2) by simp
  have kind: "kind_ok ?s 1" using mixed_block_used(6) by (simp add: kind_ok_def)
  have wait: "awaiting ?s 1 64 [5]"
    using mixed_block_used(5) mixed_hdr_fields by (simp add: awaiting_def holds_objects_def HBLK_IS_FREE_def)
  have none: "free_list ?s 1 64 = 0" by (simp add: free_list_def)
  have bounds: "0 < (64 :: nat)" "64 \<le> (128 :: nat)" "length [5 :: hblk] < 2" by simp_all
  obtain s' where s': "GC_continue_reclaim (\<lambda>_ _. ret False) 2 64 1 ?s = Done s' ()" "chain (sw_mem s') (free_list s' 1 64) (rev (objects_next ?s [5])) 0"
    "GC_bytes_found s' = GC_bytes_found ?s + int (16 * 64 * length (objects_next ?s [5]))"
    using GC_continue_reclaim_refills [OF heap kind wait none bounds] by blast
  have objs: "objects_next ?s [5] = [21504, 22528, 23552]"
    using mixed_block_used(5) mixed_hdr_fields(7) by (simp add: objects_next_def objects_of_def)
  have "chain (sw_mem s') (free_list s' 1 64) [23552, 22528, 21504] 0" using s'(2) unfolding objs by simp
  moreover have "GC_bytes_found s' = 3072" using s'(3) unfolding objs by simp
  ultimately show ?thesis using s'(1) by blast
qed

text \<open>
  C13. A whole sweep serves allocation: if a block in use of a kind that is swept has room, that is it waits to be swept and has an unmarked object,
  then starting a sweep and asking for objects of its size gives a free list that is not empty and consists of the unmarked objects
  of one block in use, of this size and kind. More than \<open>2 ^ 52\<close> steps of the loop are never needed.
\<close>

theorem GC_sweep_serves:
  assumes "sweepable s" and "sizes_ok s" and "free_lists_ok fuel s" and "length (bottom_indices (sw_heap s)) \<le> fuel" and "2 ^ 52 < bound"
    and "k < length (kinds_lists s)" and "ok_reclaim_list (kinds_lists s ! k) \<noteq> None" and "queued s k i h" and "used s h = Some d"
    and "free_objects h d \<noteq> []"
  shows "\<exists>s' g e xs. andthen (GC_start_reclaim dp fuel False) (\<lambda>_. GC_continue_reclaim dp bound i k) s = Done s' () \<and> heap_ok (sw_heap s') \<and>
    queued s k i g \<and> used s g = Some e \<and> xs \<noteq> [] \<and> chain (sw_mem s') (free_list s' k i) xs 0 \<and> set xs = set (free_objects g e)"
  by (rule sweep_refills [OF assms])

theorem GC_sweep_serves_witness:
  "\<exists>s' xs. andthen (GC_start_reclaim (\<lambda>_ _. ret False) 1 False) (\<lambda>_. GC_continue_reclaim (\<lambda>_ _. ret False) (2 ^ 52 + 1) 64 1) (sweep_start mixed_block) =
     Done s' () \<and> chain (sw_mem s') (free_list s' 1 64) xs 0 \<and> set xs = {21504, 22528, 23552}"
proof -
  let ?s = "sweep_start mixed_block"
  note used = mixed_block_used(1)
  have "sizes_ok ?s" unfolding sizes_ok_def used by (simp add: small_size_def mixed_hdr_fields MAXOBJBYTES_def HBLKSIZE_def)
  moreover have "queued ?s 1 64 5" unfolding queued_def used by (simp add: mixed_hdr_fields BYTES_TO_GRANULES_def drop_bit_eq_div)
  ultimately obtain s' g e xs where r: "andthen (GC_start_reclaim (\<lambda>_ _. ret False) 1 False) (\<lambda>_. GC_continue_reclaim (\<lambda>_ _. ret False) (2 ^ 52 + 1) 64 1) ?s = Done s' ()"
    "used ?s g = Some e" "chain (sw_mem s') (free_list s' 1 64) xs 0" "set xs = set (free_objects g e)"
    using GC_sweep_serves [OF mixed_block_used(3) _ sweep_start_lists, of "2 ^ 52 + 1" 1 64 5 mixed_hdr "\<lambda>_ _. ret False"] used mixed_block_used(4) mixed_hdr_fields(7)
    by auto
  then have "g = 5" "e = mixed_hdr" unfolding used by (auto split: if_splits)
  with r(1,3,4) mixed_hdr_fields(7) show ?thesis by (intro exI [of _ s'] exI [of _ xs]) auto
qed

section \<open>New blocks\<close>

text \<open>
  C16. Asking for a new block of small objects returns. Either a block that was free is now in use with the size and kind asked
  for, and the free list consists of all its objects, the last one first, followed by the old list, while nothing outside the block has changed, its
  objects are clear if they have to be, and all are marked if their kind is never collected; or no list changes. The first is
  the case for pointer-free and uncollectable objects whenever a block is free and the whole heap may be used.
\<close>

theorem GC_new_hblk_adds_objects:
  assumes "heap_ok (sw_heap s)" and "supplied (sw_heap s)" and "card (free_cells (heap_map s)) \<le> fuel" and "kind_ok s k" and "0 < i" and "i \<le> 128"
    and "chain (sw_mem s) (free_list s k i) xs 0" and "\<forall>x \<in> set xs. x div HBLKSIZE \<notin> free_cells (heap_map s)"
  shows "\<exists>s'. GC_new_hblk fuel policy i k s = Done s' () \<and> heap_ok (sw_heap s') \<and> used s \<subseteq>\<^sub>m used s' \<and>
    heap_cells (heap_map s') = heap_cells (heap_map s) \<and>
    (if free_cells (heap_map s) \<noteq> {} \<and> use_more_heap policy \<and> (IS_UNCOLLECTABLE k \<or> k = PTRFREE) then adds_block s k i xs s'
     else adds_block s k i xs s' \<or> sw_mem s' = sw_mem s \<and> kinds_lists s' = kinds_lists s)"
  by (rule new_hblk_ok [OF assms])

theorem GC_new_hblk_adds_objects_witness:
  "\<exists>s' h. GC_new_hblk 1 use_all 128 PTRFREE (sweep_start one_free) = Done s' () \<and> h \<in> {5} \<and>
     chain (sw_mem s') (free_list s' PTRFREE 128) (rev (block_objects h 2048)) 0"
proof -
  let ?s = "sweep_start one_free"
  have s: "heap_ok (sw_heap ?s)" "supplied (sw_heap ?s)" "card (free_cells (heap_map ?s)) \<le> 1"
    using heap_ok_one_free supplied_one_free(1) one_free_cells by simp_all
  have k: "kind_ok ?s PTRFREE" using supplied_one_free(4) by (simp add: kind_ok_def PTRFREE_def)
  have fl: "chain (sw_mem ?s) (free_list ?s PTRFREE 128) [] 0" by (simp add: free_list_def PTRFREE_def)
  have i: "0 < (128 :: nat)" "128 \<le> (128 :: nat)" "\<forall>x \<in> set []. x div HBLKSIZE \<notin> free_cells (heap_map ?s)" by simp_all
  have more: "free_cells (heap_map ?s) \<noteq> {} \<and> use_more_heap use_all \<and> (IS_UNCOLLECTABLE PTRFREE \<or> PTRFREE = PTRFREE)"
    using one_free_cells by (simp add: use_all_def)
  obtain s' where s': "GC_new_hblk 1 use_all 128 PTRFREE ?s = Done s' ()" "adds_block ?s PTRFREE 128 [] s'"
    using GC_new_hblk_adds_objects [OF s k i(1,2) fl i(3), of use_all] more by auto
  then show ?thesis using one_free_cells unfolding adds_block_def extended_def by auto
qed

text \<open>
  C17. The unrolled loops for objects of two and four words, with and without clearing, do to the memory exactly what the general loop does,
  and give the same list.
\<close>

theorem GC_build_fl_unrolled:
  assumes "mem_mapped (sw_heap s) h" and "sz = 2 \<or> sz = 4"
  shows "GC_build_fl h sz clear list s = build_fl_general h sz clear list s"
proof -
  have "small_size (8 * sz)" using assms(2) by (auto simp: small_size_def MAXOBJBYTES_def HBLKSIZE_def)
  with build_fl_words [OF assms] build_fl_general_run [OF assms(1)] show ?thesis by metis
qed

theorem GC_build_fl_unrolled_witness:
  "GC_build_fl 5 2 True 24 (sweep_start mixed_block) = build_fl_general 5 2 True 24 (sweep_start mixed_block)"
  by (rule GC_build_fl_unrolled) (simp_all add: mixed_block_def single_block_fields)

section \<open>Clearing the marks\<close>

text \<open>
  C18. Going through all blocks before a collection clears the mark bits and the number of marks of every block in use but those of
  uncollectable objects, sets the sentinel bit behind the last object, and changes nothing else in the whole state.
\<close>

theorem GC_marks_cleared:
  assumes "heap_ok (sw_heap s)" and "length (bottom_indices (sw_heap s)) \<le> fuel"
  shows "GC_apply_to_all_blocks fuel clear_marks_for_block s = Done (s\<lparr>sw_heap := (sw_heap s)\<lparr>hdr_map := (\<lambda>h.
      case heap_map s h of
        Header d \<Rightarrow>
          if HBLK_IS_FREE d \<or> IS_UNCOLLECTABLE (hb_obj_kind d) then Header d
          else Header (d\<lparr>hb_marks := (\<lambda>i. i = FINAL_MARK_BIT (hb_sz d)), hb_n_marks := 0\<rparr>)
      | Jump j \<Rightarrow> Jump j)\<rparr>\<rparr>) ()"
proof -
  have "(if h \<in> dom (used s) then (case heap_map s h of Header d \<Rightarrow> Header (cleared d) | Jump j \<Rightarrow> Jump j) else heap_map s h) =
      (case heap_map s h of
         Header d \<Rightarrow>
           if HBLK_IS_FREE d \<or> IS_UNCOLLECTABLE (hb_obj_kind d) then Header d
           else Header (d\<lparr>hb_marks := (\<lambda>i. i = FINAL_MARK_BIT (hb_sz d)), hb_n_marks := 0\<rparr>)
       | Jump j \<Rightarrow> Jump j)" for h
  proof (cases "heap_map s h")
    case (Header d)
    have "h \<in> dom (used s) \<longleftrightarrow> \<not> HBLK_IS_FREE d" using Header by (auto simp: used_at_def bare_def HBLK_IS_FREE_def split: if_splits)
    with Header show ?thesis by (simp add: cleared_def)
  qed simp
  with clear_all_marks(1) [OF assms] show ?thesis unfolding with_cleared_def by presburger
qed

theorem GC_marks_cleared_witness:
  "\<exists>s' d. GC_apply_to_all_blocks 1 clear_marks_for_block (sweep_start mixed_block) = Done s' () \<and> heap_map s' 5 = Header d \<and>
     hb_n_marks d = 0 \<and> \<not> hb_marks d 0"
proof -
  let ?s = "sweep_start mixed_block"
  have free: "\<not> HBLK_IS_FREE mixed_hdr" "\<not> IS_UNCOLLECTABLE (hb_obj_kind mixed_hdr)"
    using mixed_hdr_fields(2,3) by (simp_all add: HBLK_IS_FREE_def IS_UNCOLLECTABLE_def)
  have bit: "FINAL_MARK_BIT (hb_sz mixed_hdr) = 256"
    by (simp add: mixed_hdr_fields FINAL_MARK_BIT_def MAXOBJBYTES_def HBLKSIZE_def BYTES_TO_GRANULES_def drop_bit_eq_div)
  have "heap_ok (sw_heap ?s)" "length (bottom_indices (sw_heap ?s)) \<le> 1" using mixed_block_used(2,4) by simp_all
  from GC_marks_cleared [OF this] mixed_block_used(5) free bit show ?thesis by simp
qed

end
