(* ===== verification/Spec2Isabelle.thy ===== *)
theory Spec2Isabelle
  imports Driver Ast_Printer Cord_File Gc_Collection
begin

text \<open>
  A verification development for a Lox interpreter in C (\<open>source/\<close>), and for the string package
  (\<open>gc-8.0.4/cord/\<close>), the allocator of heap blocks and the sweep phase of the garbage collector it is built with (\<open>gc-8.0.4/\<close>).

  \<^bold>\<open>The program.\<close> \<open>main\<close> runs a file or a prompt. \<open>library_run\<close> scans a text into tokens, parses
  the tokens into statements, shows the statements on standard output and, if no error was reported,
  interprets them. The scanner finds keywords, and the environments find variables, in hash
  tables with open addressing; tokens, statements, parameters and arguments are kept in growable
  arrays. All memory comes from the collector.

  \<^bold>\<open>How C is modelled.\<close> A function that reads and writes state is a computation of the run monad
  (\<open>Prelude\<close>): it yields a state and a value (\<open>Done\<close>), stops with a \<open>Fault\<close> (NULL dereference, access
  out of bounds, read of an uninitialised variable, failed assertion, \<open>abort\<close>), or says that the
  bound it was given was too small (\<open>Exhausted\<close>). A pointer that may be NULL is an \<open>option\<close>; shared
  mutable objects (environments, declared functions) live in stores and are named by their index. Loops
  without a structural argument are \<open>partial_function\<close>s into \<open>option\<close>, functions with a termination
  proof, or take a bound. The bounds and why they suffice: the parser takes the number of tokens
  (\<open>parser_parse_ends\<close>); the interpreter takes any bound, and a result does not depend on it
  (\<open>interpret_fuel_irrelevant\<close>), since Lox programs may run forever; balancing a cord takes the number of
  nested balancings, and one is enough below the length stated there (\<open>CORD_balance_keeps_text\<close>); the search for a
  free block takes the number of free blocks (\<open>GC_allochblk_allocates\<close>), which is below \<open>2 ^ 52\<close>; a sweep takes the number of bottom
  indices and of objects on a free list (\<open>GC_start_reclaim_frees\<close>), a refill more than the number of waiting blocks (\<open>GC_sweep_serves\<close>).

  \<^bold>\<open>The theories\<close>, with the files they model:

  \<^item> \<open>Prelude\<close>: C strings, the run monad and its weakest preconditions.
  \<^item> \<open>Growable_List\<close>: \<open>list.h\<close>, \<open>list.c\<close>. Pushing is appending; capacities grow geometrically.
  \<^item> \<open>Fnv\<close>, \<open>Hash_Table\<close>: \<open>hash/fnv.c\<close>, \<open>hash/table.c\<close>. The table refines a finite map extended by
    insertion; probing and rehashing end; lookups decide membership; a bound key is never rebound.
  \<^item> \<open>Double\<close>: the type \<open>double\<close> with \<open>strtod\<close> and \<open>printf("%lg")\<close>.
  \<^item> \<open>Lox_Syntax\<close>, \<open>Console\<close>: \<open>token_type.*\<close>, \<open>token.*\<close>, \<open>object.*\<close>, \<open>runtime_error.*\<close>,
    \<open>ast/expr.*\<close>, \<open>ast/stmt.*\<close> and the error reporting of \<open>lib.c\<close>.
  \<^item> \<open>Scanner\<close>, \<open>Scanner_Proofs\<close>: \<open>scanner.c\<close>. The tokens are the longest-match reading of the
    text under a lexical grammar that is stated independently of the scanner.
  \<^item> \<open>Parser\<close>: \<open>parser.c\<close>, with error recovery. \<open>Grammar\<close>: the grammar of Lox as inductive
    predicates over token positions, and well-formed trees. \<open>Parser_Logic\<close>, \<open>Parser_Expressions\<close>,
    \<open>Parser_Statements\<close>, \<open>Parser_Properties\<close>: parsing ends, and a parse without errors is a
    derivation of the whole text; the one way to crash the parser.
  \<^item> \<open>Environment\<close>: \<open>environment.c\<close> on a store of environments. Lookup and assignment refine
    lexical scoping.
  \<^item> \<open>Interpreter\<close>: \<open>interpreter.c\<close>. \<open>Interpreter_Safety\<close>: executing well-formed trees keeps the
    state well formed, restores the environment and has no crash but the two named ones.
    \<open>Interpreter_Behaviour\<close>: bounds, laziness, loops, errors, and three defects.
  \<^item> \<open>Ast_Debug\<close>, \<open>Ast_Printer\<close>: \<open>ast/debug.c\<close>, \<open>ast/printer.c\<close>, \<open>strutils.c\<close>. The printers
    compute a layout and an s-expression that are defined by recursion on the tree, and their buffers
    are large enough.
  \<^item> \<open>Driver\<close>: \<open>lib.c\<close>, \<open>main.c\<close>. The composition: safety of a run from the source text to the
    output, exit codes, the prompt.
  \<^item> \<open>Cord\<close>, \<open>Cord_Concatenation\<close>, \<open>Cord_Balance\<close>, \<open>Cord_Substring\<close>, \<open>Cord_Position\<close>:
    \<open>cordbscs.c\<close>, \<open>cord_pos.h\<close>. Every operation is proved against the text of the cord, on every
    shape of tree. \<open>Cord_Extra\<close>, \<open>Cord_File\<close>: \<open>cordxtra.c\<close>, \<open>ec.h\<close>. Conversions are exact,
    searches find first and last occurrences, and a file read lazily through the cache is the file.
  \<^item> \<open>Gc_Headers\<close>, \<open>Gc_Black_List\<close>, \<open>Gc_Blocks\<close>: \<open>headers.c\<close>, \<open>blacklst.c\<close>, \<open>allchblk.c\<close> and
    \<open>GC_add_to_heap\<close> of \<open>alloc.c\<close>, in the configuration of the build (64 bits, \<open>USE_MUNMAP\<close>,
    \<open>ENABLE_DISCLAIM\<close>, interior pointers, no threads, no assertions). \<open>Gc_Layout\<close>: the headers cut the heap into
    disjoint regions. \<open>Gc_Free_Lists\<close>: the doubly linked lists are lists. \<open>Gc_Regions\<close>, \<open>Gc_Invariant\<close>: changes of
    the heap that keep its invariant. \<open>Gc_Release\<close>, \<open>Gc_Heap\<close>, \<open>Gc_Counts\<close>: freeing, growing, headers of used blocks.
    \<open>Gc_Allocation\<close>, \<open>Gc_Taking\<close>, \<open>Gc_Dropping\<close>, \<open>Gc_Splitting\<close>, \<open>Gc_Moving\<close>, \<open>Gc_Search\<close>: allocation, step by step
    from taking the first part of a free block to the search of all lists, on every path that the black lists lead to.
    \<open>Gc_Contract\<close>: the allocator as its clients see it. \<open>Gc_Properties\<close>: what the allocator guarantees.
  \<^item> \<open>Gc_Sweep\<close>: \<open>reclaim.c\<close>, \<open>new_hblk.c\<close>, the mark bits of \<open>mark.c\<close>, \<open>GC_apply_to_all_blocks\<close> of \<open>headers.c\<close> and the check of
    leaked objects of \<open>dbg_mlc.c\<close>. \<open>Gc_Objects\<close>: free lists of objects in memory; sweeping a block chains its unmarked objects, carving up a
    block chains all. \<open>Gc_Links\<close>: freeing a block keeps the link fields of the others, through which waiting blocks are listed.
    \<open>Gc_Visit\<close>: the loop over all blocks in use, while its function frees some of them. \<open>Gc_Reclaim\<close>, \<open>Gc_Start\<close>: the start of a sweep.
    \<open>Gc_Refill\<close>: lazy sweeping of waiting blocks. \<open>Gc_New_Block\<close>: new blocks of objects. \<open>Gc_Clearing\<close>: clearing of marks.
    \<open>Gc_Collection\<close>: what sweeping guarantees.

  \<^bold>\<open>Interfaces.\<close> The locales state what a component relies on, and are interpreted by the
  definitions that provide it: the evaluation of subterms for the visitors of the interpreter
  (\<open>callbacks\<close>, \<open>more_fuel\<close>), concatenation for the balancing loops (\<open>shallow_cat\<close>) and for substrings
  (\<open>appender\<close>), the callbacks of an iteration over a cord (\<open>visitor\<close>), and the contracts of the data structures: \<open>sequence\<close> for growable lists, \<open>dictionary\<close>
  and \<open>assignable_dictionary\<close> for hash tables, \<open>environment_contract\<close> for environments, \<open>block_allocator\<close> for
  the allocator of heap blocks, and \<open>block_visitor\<close> for the functions that are applied to all blocks in use (sweeping, clearing of marks).

  \<^bold>\<open>Not modelled.\<close> Of the collector marking, the choice of a size class and the entry points of allocation, finalization,
  threads and the operating-system layer: they work on the raw stack, registers and signals. Which objects are marked is therefore
  arbitrary: the theorems on sweeping hold for every assignment of mark bits, for kinds without disclaim procedures. The paths of the sweep for leak detection
  and for disclaim procedures, and \<open>GC_reclaim_all\<close>, are definitions without theorems; printing of errors and statistics is left out. For the interpreter,
  allocation is taken to succeed, to return zeroed memory and never to reuse a reachable object; for the block allocator
  the answers of the operating system to requests for memory are a component of the state, and mapping pages changes
  a set of mapped blocks. Freeing and growing are proved for every sequence of such answers, allocation for requests for
  headers that are granted: when one is refused the code drops the block, which keeps a header of a free block and is on no list.
  Which of \<open>GC_unmap_old\<close> and \<open>GC_merge_unmapped\<close> runs when is decided by the collector; both are definitions without
  theorems. The operating system: the results of opening and reading files, the lines of the prompt and
  the clock are arguments. Of the cord package the debugging dump, which prints addresses, comparison, substring search and output
  of \<open>cordxtra.c\<close>, and \<open>cordprnt.c\<close>. Client functions of cords are taken to be pure.
\<close>

end
